(* ===== verification/Prelude.thy ===== *)
theory Prelude
  imports Main "HOL-Library.Word" "HOL-Library.Monad_Syntax"
begin

unbundle bit_operations_syntax

text \<open>
  Shared ground of the development.

  How C values are modelled:
  \<^item> \<open>int\<close> and \<open>atomic_int\<close> are HOL \<open>int\<close>: signed overflow is undefined in C, so a
    model value stands for the C value as long as it stays in range, which the bounds
    lemmas of the components show where a counter grows;
  \<^item> \<open>unsigned int\<close> / \<open>uint32_t\<close> are \<open>32 word\<close>, \<open>uint64_t\<close>, \<open>size_t\<close> and pointers
    are \<open>64 word\<close> (\<open>0\<close> is NULL);
  \<^item> a computation that can fail an \<open>assert\<close>, dereference NULL, leave an array or read
    memory nobody has written is of type \<^typ>\<open>'a option\<close>: \<^term>\<open>None\<close> is the abort or the
    undefined behaviour, \<^term>\<open>Some\<close> a return. It is sequenced with the \<open>do\<close> notation of
    \<open>Monad_Syntax\<close>.
\<close>

type_synonym u32 = "32 word"
type_synonym u64 = "64 word"
type_synonym ptr = "64 word"

type_synonym service_id = "32 word"
type_synonym session_t = "32 word"

named_theorems wf_intro \<open>introduction of well-formedness and invariant predicates\<close>
named_theorems frame_simps \<open>what an operation leaves unchanged\<close>

section \<open>Assertions\<close>

text \<open>\<open>assert(b)\<close> of \<open>assert.h\<close>.\<close>

definition c_assert :: "bool \<Rightarrow> unit option" where
  "c_assert b = (if b then Some () else None)"

lemma c_assert_simps [simp]:
  "c_assert True = Some ()"
  "c_assert False = None"
  by (simp_all add: c_assert_def)

lemma c_assert_eq_Some [simp]: "(c_assert b = Some u) = b"
  by (simp add: c_assert_def)

lemma c_assert_bind_Some [simp]:
  "(Option.bind (c_assert b) f = Some x) = (b \<and> f () = Some x)"
  by (simp add: c_assert_def)

section \<open>Arrays\<close>

text \<open>
  An array obtained from \<open>malloc\<close>: a cell nobody has written is \<^term>\<open>None\<close>. Reading it,
  and reading or writing outside the array, is undefined behaviour.
\<close>

definition array_store :: "'a option list \<Rightarrow> int \<Rightarrow> 'a \<Rightarrow> 'a option list option" where
  "array_store a i v =
     (if 0 \<le> i \<and> i < int (length a) then Some (a[nat i := Some v]) else None)"

definition array_fetch :: "'a option list \<Rightarrow> int \<Rightarrow> 'a option" where
  "array_fetch a i =
     (if 0 \<le> i \<and> i < int (length a) then a ! nat i else None)"

text \<open>Positions of a ring: within one window of length \<open>n\<close> the cells are distinct.\<close>

lemma mod_window_inj:
  fixes n h :: int
  assumes "(h + int i) mod n = (h + int j) mod n" and "i < nat n" and "j < nat n"
  shows "i = j"
proof -
  have "n dvd (h + int i) - (h + int j)" using assms(1) by (simp add: mod_eq_dvd_iff)
  then have "n dvd int i - int j" by simp
  moreover have "\<bar>int i - int j\<bar> < n" using assms(2,3) by linarith
  ultimately show ?thesis
    using dvd_imp_le_int [of "int i - int j" n] assms(2) by force
qed

section \<open>Powers of two and masks\<close>

text \<open>
  The macro \<open>ispow2(x)\<close>, defined alike in \<open>queue.c\<close> and \<open>service.c\<close>:
  \<open>((x) & ((x) - 1)) == 0\<close>, on an unsigned operand.
\<close>

definition ispow2 :: "u32 \<Rightarrow> bool" where
  "ispow2 x \<longleftrightarrow> x AND (x - 1) = 0"

lemma int_and_mask: "(x::int) AND (2 ^ k - 1) = x mod 2 ^ k"
  by (metis mask_eq_exp_minus_1 take_bit_eq_mask take_bit_eq_mod)

lemma word_and_mask: "(x :: 'a::len word) AND (2 ^ k - 1) = take_bit k x"
  by (metis mask_eq_exp_minus_1 take_bit_eq_mask)

lemma unat_and_mask: "unat ((x :: 'a::len word) AND (2 ^ k - 1)) = unat x mod 2 ^ k"
  unfolding word_and_mask unsigned_take_bit_eq by (rule take_bit_eq_mod)

lemma ispow2_exp: "ispow2 (2 ^ k)"
proof -
  have "(2 ^ k :: u32) AND (2 ^ k - 1) = take_bit k (2 ^ k)"
    by (rule word_and_mask)
  also have "\<dots> = 0"
    by (simp add: take_bit_eq_0_iff exp_dvdE)
  finally show ?thesis
    by (simp add: ispow2_def)
qed

text \<open>The other direction: the mask test accepts only zero and the powers of two.\<close>

lemma nat_and_pred_eq_0:
  fixes x :: nat
  shows "0 < x \<Longrightarrow> x AND (x - 1) = 0 \<Longrightarrow> \<exists>k. x = 2 ^ k"
proof (induction x rule: less_induct)
  case (less x)
  show ?case
  proof (cases "even x")
    case True
    then obtain y where y: "x = 2 * y" by blast
    with less.prems have "0 < y" by simp
    then have pred: "x - 1 = Suc (2 * (y - 1))" using y by simp
    have "y AND (y - 1) = 0"
    proof -
      have "(x AND (x - 1)) div 2 = (x div 2) AND ((x - 1) div 2)"
        by (simp add: drop_bit_and drop_bit_Suc [of 0, simplified, symmetric] flip: drop_bit_half)
      then show ?thesis
        using less.prems(2) y pred by simp
    qed
    then obtain k where "y = 2 ^ k"
      using less.IH [of y] \<open>0 < y\<close> y by auto
    then show ?thesis using y by (metis power_Suc)
  next
    case False
    then obtain y where y: "x = Suc (2 * y)" by (auto elim: oddE)
    have "(x AND (x - 1)) div 2 = (x div 2) AND ((x - 1) div 2)"
      by (simp add: drop_bit_and drop_bit_Suc [of 0, simplified, symmetric] flip: drop_bit_half)
    then have "y AND y = 0"
      using less.prems(2) y by simp
    then have "x = 2 ^ 0" using y by simp
    then show ?thesis by blast
  qed
qed

end
