(* ===== verification/Fifo.thy ===== *)
theory Fifo
  imports Prelude
begin

text \<open>
  The contract every queue of the program is used under: a bounded first-in first-out
  channel. \<open>queue.c\<close> (the service mailboxes, the scheduler's run queue, the external
  queue) and the workers' binding queues provide it; the clients only see
  \<open>push\<close> answering whether the element was stored and \<open>pop\<close> answering an element or
  nothing.

  \<open>fifo_run\<close> runs a sequence of calls against a provider and \<open>list_run\<close> is the
  reference: the same calls on a plain list with a capacity. The locale proves once that a
  provider which keeps the one-step laws answers every sequence of calls as the list does.
\<close>

datatype 'a fifo_op = Push 'a | Pop

datatype 'a fifo_answer = Stored | Full | Got 'a | Empty

type_synonym ('q, 'a) push_op = "'q \<Rightarrow> 'a \<Rightarrow> (bool \<times> 'q) option"
type_synonym ('q, 'a) pop_op = "'q \<Rightarrow> ('a option \<times> 'q) option"

fun fifo_run ::
  "('q, 'a) push_op \<Rightarrow> ('q, 'a) pop_op \<Rightarrow> 'q \<Rightarrow> 'a fifo_op list \<Rightarrow> ('a fifo_answer list \<times> 'q) option"
where
  "fifo_run push pop q [] = Some ([], q)"
| "fifo_run push pop q (Push v # ops) = do {
     (stored, q') \<leftarrow> push q v;
     (as, q'') \<leftarrow> fifo_run push pop q' ops;
     Some ((if stored then Stored else Full) # as, q'')
   }"
| "fifo_run push pop q (Pop # ops) = do {
     (r, q') \<leftarrow> pop q;
     (as, q'') \<leftarrow> fifo_run push pop q' ops;
     Some ((case r of None \<Rightarrow> Empty | Some v \<Rightarrow> Got v) # as, q'')
   }"

fun list_run :: "nat \<Rightarrow> 'a list \<Rightarrow> 'a fifo_op list \<Rightarrow> 'a fifo_answer list \<times> 'a list" where
  "list_run c xs [] = ([], xs)"
| "list_run c xs (Push v # ops) =
     (if length xs < c
      then (case list_run c (xs @ [v]) ops of (as, ys) \<Rightarrow> (Stored # as, ys))
      else (case list_run c xs ops of (as, ys) \<Rightarrow> (Full # as, ys)))"
| "list_run c [] (Pop # ops) =
     (case list_run c [] ops of (as, ys) \<Rightarrow> (Empty # as, ys))"
| "list_run c (x # xs) (Pop # ops) =
     (case list_run c xs ops of (as, ys) \<Rightarrow> (Got x # as, ys))"

definition op_values :: "'a fifo_op list \<Rightarrow> 'a set" where
  "op_values ops = {v. Push v \<in> set ops}"

lemma op_values_simps [simp]:
  "op_values [] = {}"
  "op_values (Push v # ops) = insert v (op_values ops)"
  "op_values (Pop # ops) = op_values ops"
  by (auto simp: op_values_def)

lemma list_run_bound: "length xs \<le> c \<Longrightarrow> length (snd (list_run c xs ops)) \<le> c"
  by (induction c xs ops rule: list_run.induct) (auto split: prod.splits)

locale bounded_fifo =
  fixes inv :: "'q \<Rightarrow> bool"
    and abs :: "'q \<Rightarrow> 'a list"
    and cap :: "'q \<Rightarrow> nat"
    and valid :: "'a \<Rightarrow> bool"
    and push :: "'q \<Rightarrow> 'a \<Rightarrow> (bool \<times> 'q) option"
    and pop :: "'q \<Rightarrow> ('a option \<times> 'q) option"
  assumes push_room: "inv q \<Longrightarrow> valid v \<Longrightarrow> length (abs q) < cap q \<Longrightarrow>
      \<exists>q'. push q v = Some (True, q') \<and> inv q' \<and> abs q' = abs q @ [v] \<and> cap q' = cap q"
    and push_full: "inv q \<Longrightarrow> valid v \<Longrightarrow> cap q \<le> length (abs q) \<Longrightarrow>
      push q v = Some (False, q)"
    and pop_first: "inv q \<Longrightarrow> abs q = x # xs \<Longrightarrow>
      \<exists>q'. pop q = Some (Some x, q') \<and> inv q' \<and> abs q' = xs \<and> cap q' = cap q"
    and pop_empty: "inv q \<Longrightarrow> abs q = [] \<Longrightarrow> pop q = Some (None, q)"
begin

text \<open>Every call returns, keeps the invariant and moves the abstract list as the list queue does.\<close>

lemma push_cases:
  assumes "inv q" and "valid v"
  obtains (room) q' where "length (abs q) < cap q" "push q v = Some (True, q')"
      "inv q'" "abs q' = abs q @ [v]" "cap q' = cap q"
    | (full) "cap q \<le> length (abs q)" "push q v = Some (False, q)"
proof (cases "length (abs q) < cap q")
  case True
  then show ?thesis using push_room [OF assms] room by blast
next
  case False
  then show ?thesis using push_full [OF assms] full by simp
qed

lemma pop_cases:
  assumes "inv q"
  obtains (first) x xs q' where "abs q = x # xs" "pop q = Some (Some x, q')"
      "inv q'" "abs q' = xs" "cap q' = cap q"
    | (empty) "abs q = []" "pop q = Some (None, q)"
proof (cases "abs q")
  case Nil
  then show ?thesis using pop_empty [OF assms] empty by simp
next
  case (Cons x xs)
  then show ?thesis using pop_first [OF assms Cons] first by blast
qed

lemma push_inv: "inv q \<Longrightarrow> valid v \<Longrightarrow> push q v = Some (b, q') \<Longrightarrow>
    inv q' \<and> cap q' = cap q \<and> abs q' = (if b then abs q @ [v] else abs q)"
  by (rule push_cases [of q v]) auto

lemma pop_inv: "inv q \<Longrightarrow> pop q = Some (r, q') \<Longrightarrow>
    inv q' \<and> cap q' = cap q \<and> abs q' = tl (abs q)
    \<and> r = (case abs q of [] \<Rightarrow> None | x # _ \<Rightarrow> Some x)"
  by (rule pop_cases [of q]) auto

text \<open>Any sequence of calls returns and answers as the list does.\<close>

lemma run_refines_list:
  assumes "inv q" and "\<forall>v \<in> op_values ops. valid v"
  shows "\<exists>q'. fifo_run push pop q ops = Some (fst (list_run (cap q) (abs q) ops), q')
    \<and> inv q' \<and> cap q' = cap q \<and> abs q' = snd (list_run (cap q) (abs q) ops)"
  using assms
proof (induction ops arbitrary: q)
  case Nil
  then show ?case by simp
next
  case (Cons opn ops)
  show ?case
  proof (cases opn)
    case (Push v)
    with Cons.prems have "valid v" "\<forall>v \<in> op_values ops. valid v" by auto
    from \<open>inv q\<close> \<open>valid v\<close> show ?thesis
    proof (cases rule: push_cases)
      case (room q')
      with Cons.IH [of q'] \<open>\<forall>v \<in> op_values ops. valid v\<close> show ?thesis
        by (auto simp: Push split: prod.splits)
    next
      case full
      with Cons.IH [of q] \<open>\<forall>v \<in> op_values ops. valid v\<close> \<open>inv q\<close> show ?thesis
        by (auto simp: Push split: prod.splits)
    qed
  next
    case Pop
    with Cons.prems have vals: "\<forall>v \<in> op_values ops. valid v" by auto
    from \<open>inv q\<close> show ?thesis
    proof (cases rule: pop_cases)
      case (first x xs q')
      with Cons.IH [of q'] vals show ?thesis
        by (auto simp: Pop split: prod.splits)
    next
      case empty
      with Cons.IH [of q] vals \<open>inv q\<close> show ?thesis
        by (auto simp: Pop split: prod.splits)
    qed
  qed
qed

end

end
