(* ===== verification/Queue.thy ===== *)
theory Queue
  imports Fifo
begin

text \<open>
  \<open>src/queue.c\<close>: the ring buffer behind the service mailboxes, the scheduler's run queue
  and the external message queue. \<open>struct queue\<close> is the record \<open>queue\<close>; the flexible
  array \<open>data\<close> is a list of cells, \<^term>\<open>None\<close> while nobody has written them. The same
  structure holds \<open>int\<close> elements (\<open>queue_new_int\<close>) or pointers (\<open>queue_new_ptr\<close>), hence the
  type parameter.
\<close>

record 'a queue =
  q_size :: int
  q_head :: int
  q_tail :: int
  q_data :: "'a option list"

text \<open>\<open>malloc_ok\<close> is the outcome of \<open>malloc\<close>; a failed allocation is answered by NULL.\<close>

definition queue_new :: "bool \<Rightarrow> int \<Rightarrow> 'a queue option option" where
  "queue_new malloc_ok sz = do {
     c_assert (ispow2 (word_of_int sz));
     if \<not> malloc_ok then Some None
     else Some (Some \<lparr>q_size = sz, q_head = 0, q_tail = 0, q_data = replicate (nat sz) None\<rparr>)
   }"

definition queue_new_int :: "bool \<Rightarrow> int \<Rightarrow> int queue option option" where
  "queue_new_int malloc_ok sz = queue_new malloc_ok sz"

definition queue_new_ptr :: "bool \<Rightarrow> int \<Rightarrow> 'm queue option option" where
  "queue_new_ptr malloc_ok sz = queue_new malloc_ok sz"

definition queue_position :: "'a queue \<Rightarrow> int \<Rightarrow> int" where
  "queue_position q p = p AND (q_size q - 1)"

definition queue_push_open :: "'a queue \<Rightarrow> int" where
  "queue_push_open q =
     (let tail = q_tail q in
      if queue_position q (tail + 1) = q_head q then -1 else tail)"

definition queue_push_close :: "'a queue \<Rightarrow> int \<Rightarrow> 'a queue option" where
  "queue_push_close q tail = do {
     c_assert (q_tail q = tail);
     Some (q\<lparr>q_tail := queue_position q (tail + 1)\<rparr>)
   }"

definition queue_pop_open :: "'a queue \<Rightarrow> int" where
  "queue_pop_open q =
     (let head = q_head q in
      if head = q_tail q then -1 else head)"

definition queue_pop_close :: "'a queue \<Rightarrow> int \<Rightarrow> 'a queue option" where
  "queue_pop_close q head = do {
     c_assert (q_head q = head);
     Some (q\<lparr>q_head := queue_position q (head + 1)\<rparr>)
   }"

definition queue_store :: "'a queue \<Rightarrow> int \<Rightarrow> 'a \<Rightarrow> 'a queue option" where
  "queue_store q i v = do {
     d \<leftarrow> array_store (q_data q) i v;
     Some (q\<lparr>q_data := d\<rparr>)
   }"

text \<open>\<open>queue_push_int\<close>: 0 for success, 1 for a full queue; zero cannot be stored.\<close>

definition queue_push_int :: "int queue \<Rightarrow> int \<Rightarrow> (int \<times> int queue) option" where
  "queue_push_int q v = do {
     c_assert (v \<noteq> 0);
     let tail = queue_push_open q;
     if tail < 0 then Some (1, q)
     else do {
       q1 \<leftarrow> queue_store q tail v;
       q2 \<leftarrow> queue_push_close q1 tail;
       Some (0, q2)
     }
   }"

text \<open>\<open>queue_pop_int\<close>: 0 when the queue is empty.\<close>

definition queue_pop_int :: "int queue \<Rightarrow> (int \<times> int queue) option" where
  "queue_pop_int q = (
     let head = queue_pop_open q in
     if head < 0 then Some (0, q)
     else do {
       v \<leftarrow> array_fetch (q_data q) head;
       q1 \<leftarrow> queue_pop_close q head;
       Some (v, q1)
     })"

text \<open>A pointer is \<^term>\<open>None\<close> for NULL or \<^term>\<open>Some\<close> of what it points to.\<close>

definition queue_push_ptr :: "'m queue \<Rightarrow> 'm option \<Rightarrow> (int \<times> 'm queue) option" where
  "queue_push_ptr q v = (
     case v of
       None \<Rightarrow> None
     | Some m \<Rightarrow> (
         let tail = queue_push_open q in
         if tail < 0 then Some (1, q)
         else do {
           q1 \<leftarrow> queue_store q tail m;
           q2 \<leftarrow> queue_push_close q1 tail;
           Some (0, q2)
         }))"

definition queue_pop_ptr :: "'m queue \<Rightarrow> ('m option \<times> 'm queue) option" where
  "queue_pop_ptr q = (
     let head = queue_pop_open q in
     if head < 0 then Some (None, q)
     else do {
       m \<leftarrow> array_fetch (q_data q) head;
       q1 \<leftarrow> queue_pop_close q head;
       Some (Some m, q1)
     })"

definition queue_length :: "'a queue \<Rightarrow> int" where
  "queue_length q =
     (let len = q_tail q - q_head q in
      if len < 0 then len + q_size q else len)"

section \<open>Well-formed rings and the list they hold\<close>

definition ring_index :: "'a queue \<Rightarrow> nat \<Rightarrow> nat" where
  "ring_index q i = nat ((q_head q + int i) mod q_size q)"

definition queue_count :: "'a queue \<Rightarrow> nat" where
  "queue_count q = nat ((q_tail q - q_head q) mod q_size q)"

definition queue_list :: "'a queue \<Rightarrow> 'a list" where
  "queue_list q = map (\<lambda>i. the (q_data q ! ring_index q i)) [0..<queue_count q]"

definition queue_cap :: "'a queue \<Rightarrow> nat" where
  "queue_cap q = nat (q_size q) - 1"

definition queue_wf :: "'a queue \<Rightarrow> bool" where
  "queue_wf q \<longleftrightarrow>
     (\<exists>k. q_size q = 2 ^ k)
     \<and> 0 \<le> q_head q \<and> q_head q < q_size q
     \<and> 0 \<le> q_tail q \<and> q_tail q < q_size q
     \<and> length (q_data q) = nat (q_size q)
     \<and> (\<forall>i < queue_count q. q_data q ! ring_index q i \<noteq> None)"

lemma queue_wf_size: "queue_wf q \<Longrightarrow> 0 < q_size q"
  by (auto simp: queue_wf_def)

lemma queue_position_mod: "queue_wf q \<Longrightarrow> queue_position q p = p mod q_size q"
  by (auto simp: queue_wf_def queue_position_def int_and_mask)

lemma queue_count_less: "queue_wf q \<Longrightarrow> queue_count q < nat (q_size q)"
  using queue_wf_size [of q] by (simp add: queue_count_def nat_less_iff)

lemma queue_count_le_cap: "queue_wf q \<Longrightarrow> queue_count q \<le> queue_cap q"
  using queue_count_less [of q] by (simp add: queue_cap_def)

lemma length_queue_list [simp]: "length (queue_list q) = queue_count q"
  by (simp add: queue_list_def)

lemma ring_index_bound: "queue_wf q \<Longrightarrow> ring_index q i < length (q_data q)"
  using queue_wf_size [of q] by (auto simp: queue_wf_def ring_index_def nat_less_iff)

lemma ring_index_inj:
  assumes wf: "queue_wf q" and "i < nat (q_size q)" "j < nat (q_size q)"
    and eq: "ring_index q i = ring_index q j"
  shows "i = j"
proof (rule mod_window_inj)
  show "(q_head q + int i) mod q_size q = (q_head q + int j) mod q_size q"
    using eq queue_wf_size [OF wf] by (simp add: ring_index_def eq_nat_nat_iff)
qed (use assms in simp_all)

lemma ring_index_count: "queue_wf q \<Longrightarrow> ring_index q (queue_count q) = nat (q_tail q)"
  using queue_wf_size [of q]
  by (auto simp: ring_index_def queue_count_def queue_wf_def mod_add_right_eq mod_pos_pos_trivial)

text \<open>The ring keeps one cell free: it is full with \<open>size - 1\<close> elements.\<close>

lemma queue_full_iff:
  assumes wf: "queue_wf q"
  shows "queue_position q (q_tail q + 1) = q_head q \<longleftrightarrow> queue_count q = queue_cap q"
proof -
  let ?n = "q_size q" and ?h = "q_head q" and ?t = "q_tail q"
  from wf have pos: "0 < ?n" and b: "0 \<le> ?h" "?h < ?n" "0 \<le> ?t" "?t < ?n"
    by (auto simp: queue_wf_def)
  have "(?t + 1) mod ?n = ?h \<longleftrightarrow> (?t - ?h) mod ?n = ?n - 1"
  proof
    assume "(?t + 1) mod ?n = ?h"
    then have "(?t - ?h) mod ?n = (?t - (?t + 1) mod ?n) mod ?n" by simp
    also have "\<dots> = (-1) mod ?n" by (simp add: mod_diff_right_eq)
    finally show "(?t - ?h) mod ?n = ?n - 1" using pos by (simp add: zmod_minus1)
  next
    assume "(?t - ?h) mod ?n = ?n - 1"
    then have "(?t - ?h + 1) mod ?n = (?n - 1 + 1) mod ?n" by (metis mod_add_left_eq)
    then have "?n dvd ?t - ?h + 1" by (simp add: dvd_eq_mod_eq_0)
    then have "(?t + 1) mod ?n = ?h mod ?n" by (simp add: mod_eq_dvd_iff algebra_simps)
    then show "(?t + 1) mod ?n = ?h" using b by simp
  qed
  moreover have "nat d = nat n - 1 \<longleftrightarrow> d = n - 1" if "0 \<le> d" "0 < n" for d n :: int
    using that by linarith
  ultimately show ?thesis
    using pos by (simp add: queue_position_mod [OF wf] queue_count_def queue_cap_def)
qed

lemma queue_empty_iff: "queue_wf q \<Longrightarrow> q_head q = q_tail q \<longleftrightarrow> queue_count q = 0"
proof -
  assume wf: "queue_wf q"
  let ?n = "q_size q" and ?h = "q_head q" and ?t = "q_tail q"
  from wf have pos: "0 < ?n" and b: "0 \<le> ?h" "?h < ?n" "0 \<le> ?t" "?t < ?n"
    by (auto simp: queue_wf_def)
  have "0 \<le> (?t - ?h) mod ?n" using pos by simp
  then have "queue_count q = 0 \<longleftrightarrow> ?n dvd ?t - ?h"
    by (simp add: queue_count_def dvd_eq_mod_eq_0)
  also have "\<dots> \<longleftrightarrow> ?t mod ?n = ?h mod ?n" by (simp add: mod_eq_dvd_iff)
  also have "\<dots> \<longleftrightarrow> ?h = ?t" using b by auto
  finally show ?thesis by simp
qed


section \<open>The two moves of a ring\<close>

definition ring_enq :: "'a queue \<Rightarrow> 'a \<Rightarrow> 'a queue" where
  "ring_enq q v = q\<lparr>q_data := (q_data q)[nat (q_tail q) := Some v],
                    q_tail := (q_tail q + 1) mod q_size q\<rparr>"

definition ring_deq :: "'a queue \<Rightarrow> 'a queue" where
  "ring_deq q = q\<lparr>q_head := (q_head q + 1) mod q_size q\<rparr>"

lemma ring_enq_simps [simp]:
  "q_size (ring_enq q v) = q_size q"
  "q_head (ring_enq q v) = q_head q"
  "queue_cap (ring_enq q v) = queue_cap q"
  "ring_index (ring_enq q v) = ring_index q"
  by (auto simp: ring_enq_def queue_cap_def ring_index_def fun_eq_iff)

lemma ring_deq_simps [simp]:
  "q_size (ring_deq q) = q_size q"
  "q_tail (ring_deq q) = q_tail q"
  "q_data (ring_deq q) = q_data q"
  "queue_cap (ring_deq q) = queue_cap q"
  by (auto simp: ring_deq_def queue_cap_def)

lemma ring_enq_count:
  assumes wf: "queue_wf q" and room: "queue_count q < queue_cap q"
  shows "queue_count (ring_enq q v) = Suc (queue_count q)"
proof -
  let ?n = "q_size q" and ?d = "(q_tail q - q_head q) mod q_size q"
  from wf have pos: "0 < ?n" by (rule queue_wf_size)
  have d: "0 \<le> ?d" "?d + 1 < ?n"
    using room pos by (auto simp: queue_count_def queue_cap_def nat_less_iff)
  have "((q_tail q + 1) mod ?n - q_head q) mod ?n = (?d + 1) mod ?n"
    by (simp add: mod_simps algebra_simps)
  also have "\<dots> = ?d + 1" using d by simp
  finally show ?thesis using d by (simp add: queue_count_def ring_enq_def nat_add_distrib)
qed

lemma ring_enq_cell:
  assumes wf: "queue_wf q" and "i < queue_count q"
  shows "q_data (ring_enq q v) ! ring_index q i = q_data q ! ring_index q i"
proof -
  have "ring_index q i \<noteq> ring_index q (queue_count q)"
    using ring_index_inj [OF wf, of i "queue_count q"] assms queue_count_less [OF wf] by auto
  then show ?thesis
    by (simp add: ring_enq_def ring_index_count [OF wf])
qed

lemma ring_enq_last:
  assumes wf: "queue_wf q"
  shows "q_data (ring_enq q v) ! ring_index q (queue_count q) = Some v"
  using ring_index_bound [OF wf, of "queue_count q"]
  by (simp add: ring_enq_def ring_index_count [OF wf])

lemma ring_enq_list:
  assumes wf: "queue_wf q" and room: "queue_count q < queue_cap q"
  shows "queue_list (ring_enq q v) = queue_list q @ [v]"
  by (simp add: queue_list_def ring_enq_count [OF assms] ring_enq_cell [OF wf]
      ring_enq_last [OF wf] cong: map_cong)

lemma ring_enq_wf [wf_intro]:
  assumes wf: "queue_wf q" and room: "queue_count q < queue_cap q"
  shows "queue_wf (ring_enq q v)"
proof -
  have "q_data (ring_enq q v) ! ring_index q i \<noteq> None" if "i < Suc (queue_count q)" for i
  proof (cases "i = queue_count q")
    case True
    then show ?thesis using ring_enq_last [OF wf] by simp
  next
    case False
    with that show ?thesis using wf by (simp add: ring_enq_cell [OF wf] queue_wf_def)
  qed
  moreover have "q_tail (ring_enq q v) = (q_tail q + 1) mod q_size q"
    and "length (q_data (ring_enq q v)) = length (q_data q)"
    by (simp_all add: ring_enq_def)
  ultimately show ?thesis
    using wf queue_wf_size [OF wf] ring_enq_count [OF assms] by (auto simp: queue_wf_def)
qed

lemma ring_deq_index:
  assumes wf: "queue_wf q"
  shows "ring_index (ring_deq q) i = ring_index q (Suc i)"
  by (simp add: ring_index_def ring_deq_def mod_simps algebra_simps)

lemma ring_deq_count:
  assumes wf: "queue_wf q" and some: "0 < queue_count q"
  shows "queue_count (ring_deq q) = queue_count q - 1"
proof -
  let ?n = "q_size q" and ?d = "(q_tail q - q_head q) mod q_size q"
  from wf have pos: "0 < ?n" by (rule queue_wf_size)
  have "?d < ?n" using pos by simp
  then have d: "0 \<le> ?d - 1" "?d - 1 < ?n"
    using some by (simp_all add: queue_count_def)
  have "(q_tail q - (q_head q + 1) mod ?n) mod ?n = (?d - 1) mod ?n"
    by (simp add: mod_simps algebra_simps)
  also have "\<dots> = ?d - 1" using d by simp
  finally show ?thesis by (simp add: queue_count_def ring_deq_def nat_diff_distrib')
qed

lemma ring_deq_list:
  assumes wf: "queue_wf q" and some: "0 < queue_count q"
  shows "queue_list (ring_deq q) = tl (queue_list q)"
proof (rule nth_equalityI)
  show "length (queue_list (ring_deq q)) = length (tl (queue_list q))"
    by (simp add: ring_deq_count [OF assms])
next
  fix i assume "i < length (queue_list (ring_deq q))"
  then have "Suc i < queue_count q" and "i < queue_count q - 1"
    by (simp_all add: ring_deq_count [OF assms])
  then show "queue_list (ring_deq q) ! i = tl (queue_list q) ! i"
    by (simp add: queue_list_def ring_deq_count [OF assms] ring_deq_index [OF wf] nth_tl)
qed

lemma ring_deq_wf [wf_intro]:
  assumes wf: "queue_wf q" and some: "0 < queue_count q"
  shows "queue_wf (ring_deq q)"
proof -
  have "q_head (ring_deq q) = (q_head q + 1) mod q_size q" by (simp add: ring_deq_def)
  then show ?thesis
    using wf queue_wf_size [OF wf]
    by (auto simp: queue_wf_def ring_deq_count [OF assms] ring_deq_index [OF wf])
qed

section \<open>What the calls do\<close>

lemma queue_push_open_room:
  "queue_wf q \<Longrightarrow> queue_count q < queue_cap q \<Longrightarrow> queue_push_open q = q_tail q \<and> 0 \<le> q_tail q"
  using queue_full_iff [of q] by (auto simp: queue_push_open_def queue_wf_def)

lemma queue_push_open_full:
  "queue_wf q \<Longrightarrow> queue_cap q \<le> queue_count q \<Longrightarrow> queue_push_open q = -1"
  using queue_full_iff [of q] queue_count_le_cap [of q] by (simp add: queue_push_open_def)

lemma queue_store_ok:
  "queue_wf q \<Longrightarrow> queue_store q (q_tail q) v = Some (q\<lparr>q_data := (q_data q)[nat (q_tail q) := Some v]\<rparr>)"
  by (auto simp: queue_store_def array_store_def queue_wf_def)

lemma queue_push_close_store:
  assumes wf: "queue_wf q"
  shows "queue_push_close (q\<lparr>q_data := d\<rparr>) (q_tail q) = Some (q\<lparr>q_data := d, q_tail := (q_tail q + 1) mod q_size q\<rparr>)"
proof -
  from wf obtain k where "q_size q = 2 ^ k" by (auto simp: queue_wf_def)
  then show ?thesis by (simp add: queue_push_close_def queue_position_def int_and_mask)
qed

lemma queue_push_int_room:
  "queue_wf q \<Longrightarrow> v \<noteq> 0 \<Longrightarrow> queue_count q < queue_cap q \<Longrightarrow>
     queue_push_int q v = Some (0, ring_enq q v)"
  using queue_push_open_room [of q]
  by (simp add: queue_push_int_def queue_store_ok queue_push_close_store
      ring_enq_def Let_def)

lemma queue_push_int_full:
  "queue_wf q \<Longrightarrow> v \<noteq> 0 \<Longrightarrow> queue_cap q \<le> queue_count q \<Longrightarrow> queue_push_int q v = Some (1, q)"
  by (simp add: queue_push_int_def queue_push_open_full)

lemma queue_push_ptr_room:
  "queue_wf q \<Longrightarrow> queue_count q < queue_cap q \<Longrightarrow>
     queue_push_ptr q (Some m) = Some (0, ring_enq q m)"
  using queue_push_open_room [of q]
  by (simp add: queue_push_ptr_def queue_store_ok queue_push_close_store
      ring_enq_def Let_def)

lemma queue_push_ptr_full:
  "queue_wf q \<Longrightarrow> queue_cap q \<le> queue_count q \<Longrightarrow> queue_push_ptr q (Some m) = Some (1, q)"
  by (simp add: queue_push_ptr_def queue_push_open_full)

lemma queue_pop_open_empty:
  "queue_wf q \<Longrightarrow> queue_count q = 0 \<Longrightarrow> queue_pop_open q = -1"
  using queue_empty_iff [of q] by (simp add: queue_pop_open_def)

lemma queue_pop_open_some:
  "queue_wf q \<Longrightarrow> 0 < queue_count q \<Longrightarrow> queue_pop_open q = q_head q \<and> 0 \<le> q_head q"
  using queue_empty_iff [of q] by (auto simp: queue_pop_open_def queue_wf_def)

lemma queue_pop_close_ok:
  assumes wf: "queue_wf q"
  shows "queue_pop_close q (q_head q) = Some (ring_deq q)"
proof -
  from wf obtain k where "q_size q = 2 ^ k" by (auto simp: queue_wf_def)
  then show ?thesis by (simp add: queue_pop_close_def ring_deq_def queue_position_def int_and_mask)
qed

lemma queue_fetch_head:
  assumes wf: "queue_wf q" and some: "0 < queue_count q"
  shows "array_fetch (q_data q) (q_head q) = Some (hd (queue_list q))"
proof -
  have idx: "ring_index q 0 = nat (q_head q)" and b: "0 \<le> q_head q" "q_head q < q_size q"
    "length (q_data q) = nat (q_size q)"
    using wf by (auto simp: ring_index_def queue_wf_def)
  from wf some have "q_data q ! nat (q_head q) \<noteq> None" by (auto simp: queue_wf_def idx [symmetric])
  with some b show ?thesis
    by (simp add: array_fetch_def queue_list_def hd_map idx)
qed

lemma queue_pop_int_some:
  "queue_wf q \<Longrightarrow> 0 < queue_count q \<Longrightarrow>
     queue_pop_int q = Some (hd (queue_list q), ring_deq q)"
  using queue_pop_open_some [of q]
  by (simp add: queue_pop_int_def queue_fetch_head queue_pop_close_ok Let_def)

lemma queue_pop_int_empty: "queue_wf q \<Longrightarrow> queue_count q = 0 \<Longrightarrow> queue_pop_int q = Some (0, q)"
  by (simp add: queue_pop_int_def queue_pop_open_empty)

lemma queue_pop_ptr_some:
  "queue_wf q \<Longrightarrow> 0 < queue_count q \<Longrightarrow>
     queue_pop_ptr q = Some (Some (hd (queue_list q)), ring_deq q)"
  using queue_pop_open_some [of q]
  by (simp add: queue_pop_ptr_def queue_fetch_head queue_pop_close_ok Let_def)

lemma queue_pop_ptr_empty: "queue_wf q \<Longrightarrow> queue_count q = 0 \<Longrightarrow> queue_pop_ptr q = Some (None, q)"
  by (simp add: queue_pop_ptr_def queue_pop_open_empty)


lemma queue_length_count:
  assumes wf: "queue_wf q"
  shows "queue_length q = int (queue_count q)"
proof -
  let ?n = "q_size q" and ?d = "q_tail q - q_head q"
  from wf have b: "0 < ?n" "- ?n < ?d" "?d < ?n" by (auto simp: queue_wf_def)
  have "?d mod ?n = (if ?d < 0 then ?d + ?n else ?d)"
  proof (cases "?d < 0")
    case True
    with b have "(?d + ?n) mod ?n = ?d + ?n" by (intro mod_pos_pos_trivial) auto
    with True show ?thesis by simp
  next
    case False
    with b show ?thesis by simp
  qed
  with b show ?thesis by (auto simp: queue_length_def queue_count_def Let_def)
qed

section \<open>A new queue\<close>

definition empty_queue :: "int \<Rightarrow> 'a queue" where
  "empty_queue sz = \<lparr>q_size = sz, q_head = 0, q_tail = 0, q_data = replicate (nat sz) None\<rparr>"

lemma empty_queue_wf [wf_intro]: "queue_wf (empty_queue (2 ^ k))"
  by (auto simp: queue_wf_def empty_queue_def queue_count_def)

lemma empty_queue_simps [simp]:
  "queue_list (empty_queue sz) = []"
  "queue_count (empty_queue sz) = 0"
  "queue_cap (empty_queue sz) = nat sz - 1"
  "q_size (empty_queue sz) = sz"
  by (simp_all add: queue_list_def queue_count_def queue_cap_def empty_queue_def)

lemma queue_new_pow2: "queue_new True (2 ^ k) = Some (Some (empty_queue (2 ^ k)))"
  by (simp add: queue_new_def ispow2_exp empty_queue_def)

section \<open>The ring provides the queue contract\<close>

text \<open>The answers of the two C interfaces, 0/1 and 0/NULL, as the contract has them.\<close>

definition int_push :: "int queue \<Rightarrow> int \<Rightarrow> (bool \<times> int queue) option" where
  "int_push q v = map_option (\<lambda>(r, q'). (r = 0, q')) (queue_push_int q v)"

definition int_pop :: "int queue \<Rightarrow> (int option \<times> int queue) option" where
  "int_pop q = map_option (\<lambda>(v, q'). (if v = 0 then None else Some v, q')) (queue_pop_int q)"

definition ptr_push :: "'m queue \<Rightarrow> 'm \<Rightarrow> (bool \<times> 'm queue) option" where
  "ptr_push q m = map_option (\<lambda>(r, q'). (r = 0, q')) (queue_push_ptr q (Some m))"

definition int_queue_wf :: "int queue \<Rightarrow> bool" where
  "int_queue_wf q \<longleftrightarrow> queue_wf q \<and> 0 \<notin> set (queue_list q)"

lemma queue_list_empty_iff: "queue_list q = [] \<longleftrightarrow> queue_count q = 0"
  by (metis length_0_conv length_queue_list)

lemma queue_list_Cons_count: "queue_list q = x # xs \<Longrightarrow> 0 < queue_count q"
  by (metis length_queue_list length_greater_0_conv list.distinct(1))

interpretation iq: bounded_fifo int_queue_wf queue_list queue_cap "\<lambda>v. v \<noteq> 0" int_push int_pop
proof unfold_locales
  fix q :: "int queue" and v :: int
  assume "int_queue_wf q" "v \<noteq> 0" "length (queue_list q) < queue_cap q"
  then show "\<exists>q'. int_push q v = Some (True, q') \<and> int_queue_wf q' \<and>
      queue_list q' = queue_list q @ [v] \<and> queue_cap q' = queue_cap q"
    by (auto simp: int_push_def int_queue_wf_def queue_push_int_room ring_enq_list ring_enq_wf)
next
  fix q :: "int queue" and v :: int
  assume "int_queue_wf q" "v \<noteq> 0" "queue_cap q \<le> length (queue_list q)"
  then show "int_push q v = Some (False, q)"
    by (simp add: int_push_def int_queue_wf_def queue_push_int_full)
next
  fix q :: "int queue" and x xs
  assume "int_queue_wf q" and eq: "queue_list q = x # xs"
  then have "0 < queue_count q" "x \<noteq> 0" "0 \<notin> set xs" "queue_wf q"
    by (auto simp: int_queue_wf_def intro: queue_list_Cons_count)
  then show "\<exists>q'. int_pop q = Some (Some x, q') \<and> int_queue_wf q' \<and> queue_list q' = xs \<and>
      queue_cap q' = queue_cap q"
    by (simp add: int_pop_def int_queue_wf_def queue_pop_int_some ring_deq_list ring_deq_wf eq)
next
  fix q :: "int queue"
  assume "int_queue_wf q" and eq: "queue_list q = []"
  then have "queue_wf q" "queue_count q = 0" by (auto simp: int_queue_wf_def queue_list_empty_iff)
  then show "int_pop q = Some (None, q)" by (simp add: int_pop_def queue_pop_int_empty)
qed

interpretation pq: bounded_fifo queue_wf queue_list queue_cap "\<lambda>_. True" ptr_push queue_pop_ptr
proof unfold_locales
  fix q :: "'a queue" and m
  assume "queue_wf q" "length (queue_list q) < queue_cap q"
  then show "\<exists>q'. ptr_push q m = Some (True, q') \<and> queue_wf q' \<and>
      queue_list q' = queue_list q @ [m] \<and> queue_cap q' = queue_cap q"
    by (auto simp: ptr_push_def queue_push_ptr_room ring_enq_list ring_enq_wf)
next
  fix q :: "'a queue" and m
  assume "queue_wf q" "queue_cap q \<le> length (queue_list q)"
  then show "ptr_push q m = Some (False, q)" by (simp add: ptr_push_def queue_push_ptr_full)
next
  fix q :: "'a queue" and x xs
  assume wf: "queue_wf q" and eq: "queue_list q = x # xs"
  from eq have "0 < queue_count q" by (rule queue_list_Cons_count)
  with wf eq show "\<exists>q'. queue_pop_ptr q = Some (Some x, q') \<and> queue_wf q' \<and> queue_list q' = xs \<and>
      queue_cap q' = queue_cap q"
    by (simp add: queue_pop_ptr_some ring_deq_list ring_deq_wf)
next
  fix q :: "'a queue"
  assume "queue_wf q" and "queue_list q = []"
  then have "queue_wf q" "queue_count q = 0" by (auto simp: queue_list_empty_iff)
  then show "queue_pop_ptr q = Some (None, q)" by (rule queue_pop_ptr_empty)
qed

section \<open>Properties\<close>

text \<open>
  A queue of integers made by \<open>queue_new_int\<close> for a power of two answers every
  sequence of \<open>queue_push_int\<close> / \<open>queue_pop_int\<close> calls (of non-zero values) exactly as a
  first-in first-out list with room for \<open>size - 1\<close> elements: no call aborts, reads a cell
  nobody wrote, loses, duplicates or reorders a value.
\<close>

theorem int_queue_is_bounded_fifo:
  assumes new: "queue_new_int True (2 ^ k) = Some (Some q)"
    and vals: "\<forall>v \<in> op_values ops. v \<noteq> 0"
  shows "\<exists>q'. fifo_run int_push int_pop q ops = Some (fst (list_run (2 ^ k - 1) [] ops), q')
    \<and> queue_list q' = snd (list_run (2 ^ k - 1) [] ops)"
proof -
  from new have q: "q = empty_queue (2 ^ k)" by (simp add: queue_new_int_def queue_new_pow2)
  have "int_queue_wf q" by (simp add: q int_queue_wf_def empty_queue_wf)
  from iq.run_refines_list [OF this vals] show ?thesis
    by (auto simp: q nat_power_eq)
qed

theorem int_queue_is_bounded_fifo_witness:
  "\<exists>q'. fifo_run int_push int_pop (empty_queue 2) [Push 7, Push 9, Pop, Pop]
     = Some ([Stored, Full, Got 7, Empty], q')"
proof -
  have new: "queue_new_int True (2 ^ 1) = Some (Some (empty_queue (2 ^ 1)))"
    by (simp only: queue_new_int_def queue_new_pow2)
  show ?thesis
    using int_queue_is_bounded_fifo [OF new, of "[Push 7, Push 9, Pop, Pop]"] by auto
qed

text \<open>
  C22: a queue of pointers made by \<open>queue_new_ptr\<close> (a service mailbox, the external queue)
  answers every sequence of \<open>queue_push_ptr\<close> / \<open>queue_pop_ptr\<close> calls exactly as a bounded
  first-in first-out list of capacity \<open>size - 1\<close>.
\<close>

theorem ptr_queue_is_bounded_fifo:
  assumes new: "queue_new_ptr True (2 ^ k) = Some (Some q)"
  shows "\<exists>q'. fifo_run ptr_push queue_pop_ptr q ops = Some (fst (list_run (2 ^ k - 1) [] ops), q')
    \<and> queue_list q' = snd (list_run (2 ^ k - 1) [] ops)"
proof -
  from new have q: "q = empty_queue (2 ^ k)" by (simp add: queue_new_ptr_def queue_new_pow2)
  have "queue_wf q" by (simp add: q empty_queue_wf)
  from pq.run_refines_list [OF this, of ops] show ?thesis
    by (auto simp: q nat_power_eq)
qed

theorem ptr_queue_is_bounded_fifo_witness:
  "\<exists>q'. fifo_run ptr_push queue_pop_ptr (empty_queue 4)
      [Push ''a'', Push ''b'', Pop, Push ''c'', Push ''d'', Push ''e'', Pop]
     = Some ([Stored, Stored, Got ''a'', Stored, Stored, Full, Got ''b''], q')"
proof -
  have new: "queue_new_ptr True (2 ^ 2) = Some (Some (empty_queue (2 ^ 2)))"
    by (simp only: queue_new_ptr_def queue_new_pow2)
  show ?thesis
    using ptr_queue_is_bounded_fifo [OF new,
        of "[Push ''a'', Push ''b'', Pop, Push ''c'', Push ''d'', Push ''e'', Pop]"]
    by auto
qed

end
