(* ===== verification/QueueThreads.thy ===== *)
theory QueueThreads
  imports Queue
begin

text \<open>
  \<open>queue.h\<close>: "Allow only one reader and one writer". This theory runs one writer inside
  \<open>queue_push_ptr\<close> against one reader inside \<open>queue_pop_ptr\<close>, at the granularity of their
  accesses to the shared structure: each load or store of \<open>head\<close>, \<open>tail\<close> (atomic,
  sequentially consistent) and of a cell (plain) is one step, and the two threads
  interleave freely. A failed assertion or an access to an unwritten cell is the program
  counter \<open>WAbort\<close> / \<open>RAbort\<close>.
\<close>

datatype 'm writer_pc =
    WIdle
  | WTail 'm int      \<comment> \<open>\<open>tail\<close> has been loaded\<close>
  | WOpen 'm int      \<comment> \<open>\<open>queue_push_open\<close> has returned \<open>tail\<close>\<close>
  | WStored 'm int    \<comment> \<open>\<open>data[tail] = v\<close> done\<close>
  | WChecked 'm int   \<comment> \<open>the assertion of \<open>queue_push_close\<close> has passed\<close>
  | WAbort

datatype 'm reader_pc =
    RIdle
  | RHead int
  | ROpen int
  | RRead int 'm
  | RChecked int 'm
  | RAbort

text \<open>\<open>pushed\<close> and \<open>popped\<close> record the values of the completed calls.\<close>

record 'm spsc =
  ring :: "'m queue"
  wpc :: "'m writer_pc"
  rpc :: "'m reader_pc"
  pushed :: "'m list"
  popped :: "'m list"

inductive writer_step :: "'m spsc \<Rightarrow> 'm spsc \<Rightarrow> bool" where
  w_load_tail: "wpc s = WIdle \<Longrightarrow>
     writer_step s (s\<lparr>wpc := WTail m (q_tail (ring s))\<rparr>)"
| w_full: "wpc s = WTail m t \<Longrightarrow> queue_position (ring s) (t + 1) = q_head (ring s) \<Longrightarrow>
     writer_step s (s\<lparr>wpc := WIdle\<rparr>)"
| w_open: "wpc s = WTail m t \<Longrightarrow> queue_position (ring s) (t + 1) \<noteq> q_head (ring s) \<Longrightarrow>
     writer_step s (s\<lparr>wpc := WOpen m t\<rparr>)"
| w_store: "wpc s = WOpen m t \<Longrightarrow> queue_store (ring s) t m = Some q \<Longrightarrow>
     writer_step s (s\<lparr>ring := q, wpc := WStored m t\<rparr>)"
| w_store_bad: "wpc s = WOpen m t \<Longrightarrow> queue_store (ring s) t m = None \<Longrightarrow>
     writer_step s (s\<lparr>wpc := WAbort\<rparr>)"
| w_check: "wpc s = WStored m t \<Longrightarrow> q_tail (ring s) = t \<Longrightarrow>
     writer_step s (s\<lparr>wpc := WChecked m t\<rparr>)"
| w_check_bad: "wpc s = WStored m t \<Longrightarrow> q_tail (ring s) \<noteq> t \<Longrightarrow>
     writer_step s (s\<lparr>wpc := WAbort\<rparr>)"
| w_close: "wpc s = WChecked m t \<Longrightarrow>
     writer_step s (s\<lparr>ring := (ring s)\<lparr>q_tail := queue_position (ring s) (t + 1)\<rparr>,
                      wpc := WIdle, pushed := pushed s @ [m]\<rparr>)"

inductive reader_step :: "'m spsc \<Rightarrow> 'm spsc \<Rightarrow> bool" where
  r_load_head: "rpc s = RIdle \<Longrightarrow>
     reader_step s (s\<lparr>rpc := RHead (q_head (ring s))\<rparr>)"
| r_empty: "rpc s = RHead h \<Longrightarrow> h = q_tail (ring s) \<Longrightarrow>
     reader_step s (s\<lparr>rpc := RIdle\<rparr>)"
| r_open: "rpc s = RHead h \<Longrightarrow> h \<noteq> q_tail (ring s) \<Longrightarrow>
     reader_step s (s\<lparr>rpc := ROpen h\<rparr>)"
| r_fetch: "rpc s = ROpen h \<Longrightarrow> array_fetch (q_data (ring s)) h = Some m \<Longrightarrow>
     reader_step s (s\<lparr>rpc := RRead h m\<rparr>)"
| r_fetch_bad: "rpc s = ROpen h \<Longrightarrow> array_fetch (q_data (ring s)) h = None \<Longrightarrow>
     reader_step s (s\<lparr>rpc := RAbort\<rparr>)"
| r_check: "rpc s = RRead h m \<Longrightarrow> q_head (ring s) = h \<Longrightarrow>
     reader_step s (s\<lparr>rpc := RChecked h m\<rparr>)"
| r_check_bad: "rpc s = RRead h m \<Longrightarrow> q_head (ring s) \<noteq> h \<Longrightarrow>
     reader_step s (s\<lparr>rpc := RAbort\<rparr>)"
| r_close: "rpc s = RChecked h m \<Longrightarrow>
     reader_step s (s\<lparr>ring := (ring s)\<lparr>q_head := queue_position (ring s) (h + 1)\<rparr>,
                      rpc := RIdle, popped := popped s @ [m]\<rparr>)"

inductive spsc_reach :: "nat \<Rightarrow> 'm spsc \<Rightarrow> bool" for k where
  spsc_start: "spsc_reach k
     \<lparr>ring = empty_queue (2 ^ k), wpc = WIdle, rpc = RIdle, pushed = [], popped = []\<rparr>"
| spsc_writer: "spsc_reach k s \<Longrightarrow> writer_step s t \<Longrightarrow> spsc_reach k t"
| spsc_reader: "spsc_reach k s \<Longrightarrow> reader_step s t \<Longrightarrow> spsc_reach k t"

section \<open>What each thread knows at each program point\<close>

fun writer_knows :: "'m queue \<Rightarrow> 'm writer_pc \<Rightarrow> bool" where
  "writer_knows q WIdle = True"
| "writer_knows q (WTail m t) = (t = q_tail q)"
| "writer_knows q (WOpen m t) = (t = q_tail q \<and> queue_count q < queue_cap q)"
| "writer_knows q (WStored m t) =
     (t = q_tail q \<and> queue_count q < queue_cap q \<and> q_data q ! nat t = Some m)"
| "writer_knows q (WChecked m t) =
     (t = q_tail q \<and> queue_count q < queue_cap q \<and> q_data q ! nat t = Some m)"
| "writer_knows q WAbort = False"

fun reader_knows :: "'m queue \<Rightarrow> 'm reader_pc \<Rightarrow> bool" where
  "reader_knows q RIdle = True"
| "reader_knows q (RHead h) = (h = q_head q)"
| "reader_knows q (ROpen h) = (h = q_head q \<and> 0 < queue_count q)"
| "reader_knows q (RRead h m) = (h = q_head q \<and> 0 < queue_count q \<and> m = hd (queue_list q))"
| "reader_knows q (RChecked h m) = (h = q_head q \<and> 0 < queue_count q \<and> m = hd (queue_list q))"
| "reader_knows q RAbort = False"

definition spsc_inv :: "'m spsc \<Rightarrow> bool" where
  "spsc_inv s \<longleftrightarrow> queue_wf (ring s) \<and> pushed s = popped s @ queue_list (ring s)
     \<and> writer_knows (ring s) (wpc s) \<and> reader_knows (ring s) (rpc s)"

text \<open>The writer writes the free cell only, so the list and the reader's view stay.\<close>

definition ring_fill :: "'m queue \<Rightarrow> 'm \<Rightarrow> 'm queue" where
  "ring_fill q m = q\<lparr>q_data := (q_data q)[nat (q_tail q) := Some m]\<rparr>"

lemma ring_fill_simps [simp]:
  "q_size (ring_fill q m) = q_size q" "q_head (ring_fill q m) = q_head q"
  "q_tail (ring_fill q m) = q_tail q" "queue_count (ring_fill q m) = queue_count q"
  "queue_cap (ring_fill q m) = queue_cap q" "ring_index (ring_fill q m) = ring_index q"
  "length (q_data (ring_fill q m)) = length (q_data q)"
  by (auto simp: ring_fill_def queue_count_def queue_cap_def ring_index_def fun_eq_iff)

lemma ring_fill_cell:
  "queue_wf q \<Longrightarrow> i < queue_count q \<Longrightarrow>
     q_data (ring_fill q m) ! ring_index q i = q_data q ! ring_index q i"
  using ring_enq_cell [of q i m] by (simp add: ring_fill_def ring_enq_def)

lemma ring_fill_list [simp]: "queue_wf q \<Longrightarrow> queue_list (ring_fill q m) = queue_list q"
  by (simp add: queue_list_def ring_fill_cell cong: map_cong)

lemma ring_fill_wf [wf_intro]: "queue_wf q \<Longrightarrow> queue_wf (ring_fill q m)"
  by (auto simp: queue_wf_def ring_fill_cell)

lemma ring_fill_reader: "queue_wf q \<Longrightarrow> reader_knows (ring_fill q m) r = reader_knows q r"
  by (cases r) auto

lemma ring_fill_free:
  "queue_wf q \<Longrightarrow> q_data (ring_fill q m) ! nat (q_tail q) = Some m"
  using ring_enq_last [of q m] by (simp add: ring_fill_def ring_enq_def ring_index_count)

lemma ring_enq_reader:
  assumes "queue_wf q" "queue_count q < queue_cap q" "reader_knows q r"
  shows "reader_knows (ring_enq q m) r"
  using assms by (cases r) (auto simp: ring_enq_count ring_enq_list hd_append queue_list_empty_iff)

lemma ring_deq_writer:
  assumes "queue_wf q" "0 < queue_count q" "writer_knows q w"
  shows "writer_knows (ring_deq q) w"
  using assms by (cases w) (auto simp: ring_deq_count)

lemma store_then_close:
  assumes "queue_wf q" "q_data q ! nat (q_tail q) = Some m"
  shows "q\<lparr>q_tail := queue_position q (q_tail q + 1)\<rparr> = ring_enq q m"
proof -
  have "(q_data q)[nat (q_tail q) := Some m] = q_data q"
    using assms by (metis list_update_id)
  then show ?thesis using assms(1) by (simp add: ring_enq_def queue_position_mod)
qed

lemma deq_by_close: "queue_wf q \<Longrightarrow> q\<lparr>q_head := queue_position q (q_head q + 1)\<rparr> = ring_deq q"
  by (simp add: ring_deq_def queue_position_mod)

section \<open>Each step keeps the invariant\<close>

lemma writer_step_inv:
  assumes "writer_step s t" and "spsc_inv s"
  shows "spsc_inv t"
  using assms
proof (induction rule: writer_step.induct)
  case (w_full s m t)
  then show ?case by (simp add: spsc_inv_def)
next
  case (w_open s m t)
  then have "queue_wf (ring s)" "queue_position (ring s) (q_tail (ring s) + 1) \<noteq> q_head (ring s)"
    by (auto simp: spsc_inv_def)
  then have "queue_count (ring s) < queue_cap (ring s)"
    using queue_full_iff queue_count_le_cap le_neq_implies_less by blast
  with w_open show ?case by (simp add: spsc_inv_def)
next
  case (w_store s m t q)
  then have wf: "queue_wf (ring s)" and t: "t = q_tail (ring s)" by (auto simp: spsc_inv_def)
  then have "q = ring_fill (ring s) m"
    using w_store.hyps(2) queue_store_ok [OF wf, of m] by (simp add: ring_fill_def)
  with w_store wf t show ?case
    by (simp add: spsc_inv_def ring_fill_wf ring_fill_free ring_fill_reader)
next
  case (w_store_bad s m t)
  then have wf: "queue_wf (ring s)" and t: "t = q_tail (ring s)" by (auto simp: spsc_inv_def)
  with w_store_bad.hyps queue_store_ok [OF wf, of m] show ?case by simp
next
  case (w_close s m t)
  then have wf: "queue_wf (ring s)" and t: "t = q_tail (ring s)"
    and room: "queue_count (ring s) < queue_cap (ring s)"
    and cell: "q_data (ring s) ! nat (q_tail (ring s)) = Some m" by (auto simp: spsc_inv_def)
  show ?case
    using w_close wf room store_then_close [OF wf cell]
    by (simp add: spsc_inv_def t ring_enq_wf ring_enq_list ring_enq_reader)
qed (auto simp: spsc_inv_def)

lemma reader_step_inv:
  assumes "reader_step s t" and "spsc_inv s"
  shows "spsc_inv t"
  using assms
proof (induction rule: reader_step.induct)
  case (r_open s h)
  then have "queue_wf (ring s)" "q_head (ring s) \<noteq> q_tail (ring s)" by (auto simp: spsc_inv_def)
  then have "0 < queue_count (ring s)" using queue_empty_iff by blast
  with r_open show ?case by (simp add: spsc_inv_def)
next
  case (r_fetch s h m)
  then have "queue_wf (ring s)" "0 < queue_count (ring s)" "h = q_head (ring s)"
    by (auto simp: spsc_inv_def)
  with r_fetch queue_fetch_head [of "ring s"] show ?case by (simp add: spsc_inv_def)
next
  case (r_fetch_bad s h)
  then have "queue_wf (ring s)" "0 < queue_count (ring s)" "h = q_head (ring s)"
    by (auto simp: spsc_inv_def)
  with r_fetch_bad queue_fetch_head [of "ring s"] show ?case by simp
next
  case (r_close s h m)
  then have wf: "queue_wf (ring s)" and some: "0 < queue_count (ring s)"
    and h: "h = q_head (ring s)" "m = hd (queue_list (ring s))" by (auto simp: spsc_inv_def)
  have "queue_list (ring s) \<noteq> []" using some by (simp add: queue_list_empty_iff)
  with r_close wf some show ?case
    by (simp add: spsc_inv_def h deq_by_close ring_deq_wf ring_deq_list ring_deq_writer)
qed (auto simp: spsc_inv_def)

lemma spsc_reach_inv: "spsc_reach k s \<Longrightarrow> spsc_inv s"
proof (induction rule: spsc_reach.induct)
  case spsc_start
  then show ?case by (simp add: spsc_inv_def empty_queue_wf)
qed (blast intro: writer_step_inv reader_step_inv)+

section \<open>Properties\<close>

text \<open>
  C11: with one writer and one reader running \<open>queue_push_ptr\<close> and \<open>queue_pop_ptr\<close>
  concurrently on a new queue, in every interleaving of their memory accesses: neither
  assertion fails and no unwritten cell is read; the writer and the reader are never about
  to access the same cell (no data race); and the values popped so far, followed by the
  values in the ring, are exactly the values pushed so far, in order.
\<close>

theorem spsc_queue_safe:
  assumes "spsc_reach k s"
  shows "wpc s \<noteq> WAbort \<and> rpc s \<noteq> RAbort
    \<and> (\<nexists>m t. wpc s = WOpen m t \<and> rpc s = ROpen t)
    \<and> pushed s = popped s @ queue_list (ring s)"
proof -
  from assms have inv: "spsc_inv s" by (rule spsc_reach_inv)
  moreover have "\<not> (wpc s = WOpen m t \<and> rpc s = ROpen t)" for m t
  proof
    assume "wpc s = WOpen m t \<and> rpc s = ROpen t"
    with inv have "q_tail (ring s) = q_head (ring s)" "0 < queue_count (ring s)"
      "queue_wf (ring s)" by (auto simp: spsc_inv_def)
    then show False using queue_empty_iff [of "ring s"] by simp
  qed
  ultimately show ?thesis by (auto simp: spsc_inv_def)
qed

definition spsc_example :: "nat spsc" where
  "spsc_example = \<lparr>ring = empty_queue 2, wpc = WOpen 5 0, rpc = RHead 0, pushed = [], popped = []\<rparr>"

lemma spsc_example_reach: "spsc_reach 1 spsc_example"
proof -
  let ?s0 = "\<lparr>ring = empty_queue (2 ^ 1), wpc = WIdle, rpc = RIdle, pushed = [], popped = []\<rparr> :: nat spsc"
  have "spsc_reach 1 ?s0" by (rule spsc_start)
  then have "spsc_reach 1 (?s0\<lparr>wpc := WTail 5 0\<rparr>)"
    by (rule spsc_writer) (use w_load_tail [of ?s0 5] in \<open>simp add: empty_queue_def\<close>)
  then have "spsc_reach 1 (?s0\<lparr>wpc := WOpen 5 0\<rparr>)"
    by (rule spsc_writer)
      (use w_open [of "?s0\<lparr>wpc := WTail 5 0\<rparr>" 5 0] in \<open>simp add: empty_queue_def queue_position_def\<close>)
  then have "spsc_reach 1 (?s0\<lparr>wpc := WOpen 5 0, rpc := RHead 0\<rparr>)"
    by (rule spsc_reader)
      (use r_load_head [of "?s0\<lparr>wpc := WOpen 5 0\<rparr>"] in \<open>simp add: empty_queue_def\<close>)
  then show ?thesis by (simp add: spsc_example_def)
qed

theorem spsc_queue_safe_witness:
  "spsc_reach 1 spsc_example \<and> pushed spsc_example = popped spsc_example @ queue_list (ring spsc_example)"
  using spsc_example_reach spsc_queue_safe [OF spsc_example_reach] by simp

end
