(* ===== verification/Message.thy ===== *)
theory Message
  imports Prelude
begin

text \<open>
  \<open>src/message.h\<close>, \<open>src/message.c\<close>: the message passed between services, the values of
  its \<open>type\<close> field and the receipts the scheduler answers a sender with. A message is
  moved, never shared: a \<open>struct message *\<close> is held by exactly one owner, so the model
  keeps the message itself where the code keeps the pointer, and \<open>message option\<close> where
  the pointer may be NULL.
\<close>

abbreviation (input) MESSAGE_SYSTEM :: int where "MESSAGE_SYSTEM \<equiv> 0"
abbreviation (input) MESSAGE_REQUEST :: int where "MESSAGE_REQUEST \<equiv> 1"
abbreviation (input) MESSAGE_RESPONSE :: int where "MESSAGE_RESPONSE \<equiv> 2"
abbreviation (input) MESSAGE_ERROR :: int where "MESSAGE_ERROR \<equiv> 3"
abbreviation (input) MESSAGE_SIGNAL :: int where "MESSAGE_SIGNAL \<equiv> 4"
abbreviation (input) MESSAGE_IDLE :: int where "MESSAGE_IDLE \<equiv> 5"

abbreviation (input) MESSAGE_RECEIPT_NONE :: int where "MESSAGE_RECEIPT_NONE \<equiv> 0"
abbreviation (input) MESSAGE_RECEIPT_DONE :: int where "MESSAGE_RECEIPT_DONE \<equiv> 1"
abbreviation (input) MESSAGE_RECEIPT_ERROR :: int where "MESSAGE_RECEIPT_ERROR \<equiv> 2"
abbreviation (input) MESSAGE_RECEIPT_BLOCK :: int where "MESSAGE_RECEIPT_BLOCK \<equiv> 3"
abbreviation (input) MESSAGE_RECEIPT_RESPONCE :: int where "MESSAGE_RECEIPT_RESPONCE \<equiv> 4"

abbreviation (input) MESSAGE_SCHEDULE_NEW :: int where "MESSAGE_SCHEDULE_NEW \<equiv> 0"
abbreviation (input) MESSAGE_SCHEDULE_DEL :: int where "MESSAGE_SCHEDULE_DEL \<equiv> 1"

record message =
  m_from :: service_id
  m_to :: service_id
  m_session :: session_t
  m_type :: int
  m_msg :: ptr
  m_sz :: u64

text \<open>
  \<open>malloc\<close> is the environment's: a state keeps the outcomes of its next calls, and once
  the list is used up every allocation succeeds.
\<close>

type_synonym malloc_oracle = "bool list"

fun malloc :: "malloc_oracle \<Rightarrow> bool \<times> malloc_oracle" where
  "malloc [] = (True, [])"
| "malloc (ok # oks) = (ok, oks)"

definition message_new :: "malloc_oracle \<Rightarrow> message \<Rightarrow> message option \<times> malloc_oracle" where
  "message_new mem msg =
     (case malloc mem of (ok, mem') \<Rightarrow> (if ok then Some msg else None, mem'))"

text \<open>
  \<open>message_delete\<close> frees the payload and the message. The released messages are kept in
  a ledger, newest first, so that a leak or a second release is visible.
\<close>

definition message_delete :: "message option \<Rightarrow> message list \<Rightarrow> message list" where
  "message_delete msg freed = (case msg of None \<Rightarrow> freed | Some m \<Rightarrow> m # freed)"

lemma message_delete_simps [simp]:
  "message_delete None freed = freed"
  "message_delete (Some m) freed = m # freed"
  by (simp_all add: message_delete_def)

end
