(* ===== verification/Config.thy ===== *)
theory Config
  imports Prelude
begin

text \<open>
  \<open>src/config.h\<close>, \<open>src/config.c\<close>: the start-up parameters. The Lua table they come from is
  the model's parameter: \<open>cfg_field\<close> is what \<open>lua_getfield\<close> finds for an integer key
  (absent, an integer, or something else) and \<open>crash\<close> the \<open>crashlog\<close> string.
\<close>

abbreviation (input) DEFAULT_MAX_SERVICE :: int where "DEFAULT_MAX_SERVICE \<equiv> 65536"
abbreviation (input) DEFAULT_QUEUE :: int where "DEFAULT_QUEUE \<equiv> 4096"
abbreviation (input) DEFAULT_QUEUE_SENDING :: int where "DEFAULT_QUEUE_SENDING \<equiv> DEFAULT_QUEUE"
abbreviation (input) MAX_WORKER :: int where "MAX_WORKER \<equiv> 256"
abbreviation (input) MAX_SOCKEVENT :: nat where "MAX_SOCKEVENT \<equiv> 16"

record ltask_config =
  c_worker :: int
  c_queue :: int
  c_queue_sending :: int
  c_max_service :: int
  c_external_queue :: int
  c_crashlog :: string

datatype lua_field = FieldNil | FieldInteger int | FieldOther

datatype config_error = NotInteger string | NeedTwoCores

text \<open>
  \<open>int r = lua_tointeger(L, -1)\<close> keeps the low 32 bits of the Lua integer, as a signed
  number.
\<close>

definition to_int32 :: "int \<Rightarrow> int" where
  "to_int32 x = sint (word_of_int x :: 32 word)"

definition config_getint :: "(string \<Rightarrow> lua_field) \<Rightarrow> string \<Rightarrow> int \<Rightarrow> config_error + int" where
  "config_getint tab key opt =
     (case tab key of
        FieldNil \<Rightarrow> Inr opt
      | FieldOther \<Rightarrow> Inl (NotInteger key)
      | FieldInteger v \<Rightarrow> Inr (to_int32 v))"

text \<open>
  \<open>align_pow2\<close>: doubling from 1 until the argument is reached. For arguments above
  \<open>2 ^ 30\<close> the C \<open>int\<close> overflows before the loop stops; the result is
  \<^term>\<open>None\<close> there.
\<close>

function align_loop :: "int \<Rightarrow> int \<Rightarrow> int option" where
  "align_loop r x =
     (if r < x then (if 0 < r \<and> r * 2 < 2 ^ 31 then align_loop (r * 2) x else None) else Some r)"
  by pat_completeness auto
termination
  by (relation "measure (\<lambda>(r, x). nat (x - r))") auto

declare align_loop.simps [simp del]

definition align_pow2 :: "int \<Rightarrow> int option" where
  "align_pow2 x = align_loop 1 x"

text \<open>
  \<open>config_load\<close>: \<open>ncores\<close> is \<open>sysinfo_ncores()\<close>. The result is the filled configuration,
  a Lua error, or \<^term>\<open>None\<close> for the overflow in \<open>align_pow2\<close>.
\<close>

definition clamp_worker :: "int \<Rightarrow> int \<Rightarrow> int" where
  "clamp_worker worker ncores =
     (let w = (if worker = 0 then ncores - 1 else worker)
      in if w > MAX_WORKER then MAX_WORKER else w)"

definition load_crashlog :: "string option \<Rightarrow> string" where
  "load_crashlog crash =
     (case crash of None \<Rightarrow> [] | Some log \<Rightarrow> if length log \<ge> 128 then [] else log)"

definition config_load ::
  "int \<Rightarrow> (string \<Rightarrow> lua_field) \<Rightarrow> string option \<Rightarrow> (config_error + ltask_config) option" where
  "config_load ncores tab crash =
     (case config_getint tab ''worker'' 0 of Inl e \<Rightarrow> Some (Inl e) | Inr worker \<Rightarrow>
      if ncores \<le> 1 then Some (Inl NeedTwoCores) else
      case config_getint tab ''queue'' DEFAULT_QUEUE of Inl e \<Rightarrow> Some (Inl e) | Inr q0 \<Rightarrow> do {
        q \<leftarrow> align_pow2 q0;
        case config_getint tab ''queue_sending'' DEFAULT_QUEUE_SENDING of
          Inl e \<Rightarrow> Some (Inl e)
        | Inr s0 \<Rightarrow> do {
            s \<leftarrow> align_pow2 s0;
            case config_getint tab ''max_service'' DEFAULT_MAX_SERVICE of
              Inl e \<Rightarrow> Some (Inl e)
            | Inr m0 \<Rightarrow>
                case config_getint tab ''external_queue'' 0 of
                  Inl e \<Rightarrow> Some (Inl e)
                | Inr ext \<Rightarrow> do {
                    m \<leftarrow> align_pow2 m0;
                    Some (Inr \<lparr>c_worker = clamp_worker worker ncores, c_queue = q,
                      c_queue_sending = s, c_max_service = m, c_external_queue = ext,
                      c_crashlog = load_crashlog crash\<rparr>)
                  }
          }
      })"

section \<open>The alignment\<close>

lemma align_loop_pow2:
  assumes "x \<le> 2 ^ 30" and "n \<le> 30"
  shows "\<exists>k \<ge> n. align_loop (2 ^ n) x = Some (2 ^ k) \<and> x \<le> 2 ^ k \<and> k \<le> 30
    \<and> (n < k \<longrightarrow> 2 ^ (k - 1) < x)"
  using assms
proof (induction "30 - n" arbitrary: n)
  case 0
  then have "n = 30" by simp
  moreover have "align_loop (2 ^ 30) x = Some (2 ^ 30)"
    using 0 by (simp add: align_loop.simps [of 1073741824 x])
  ultimately show ?case using 0 by (intro exI [of _ 30]) simp
next
  case (Suc d)
  then have n: "d = 30 - Suc n" "Suc n \<le> 30" by simp_all
  show ?case
  proof (cases "2 ^ n < x")
    case False
    then show ?thesis using Suc.prems by (auto simp: align_loop.simps [of "2 ^ n" x])
  next
    case True
    from Suc.hyps(1) [OF n(1)] Suc.prems n obtain k where
      k: "k \<ge> Suc n" "align_loop (2 ^ Suc n) x = Some (2 ^ k)" "x \<le> 2 ^ k" "k \<le> 30"
        "Suc n < k \<longrightarrow> 2 ^ (k - 1) < x" by auto
    have "(2::int) ^ Suc n \<le> 2 ^ 30" using n by (intro power_increasing) auto
    then have "(2::int) ^ n * 2 < 2 ^ 31" by simp
    with True have "align_loop (2 ^ n) x = align_loop (2 ^ Suc n) x"
      by (simp add: align_loop.simps [of "2 ^ n" x] mult.commute)
    moreover have "2 ^ (k - 1) < x"
      using k True by (cases "Suc n < k") auto
    ultimately show ?thesis using k by (intro exI [of _ k]) auto
  qed
qed

lemma align_pow2_spec:
  assumes "x \<le> 2 ^ 30"
  obtains k where "align_pow2 x = Some (2 ^ k)" "x \<le> 2 ^ k" "k \<le> 30" "0 < k \<Longrightarrow> 2 ^ (k - 1) < x"
  using align_loop_pow2 [OF assms, of 0] by (auto simp: align_pow2_def)


lemma config_getint_bound:
  "config_getint tab key opt = Inr v \<Longrightarrow> \<bar>opt\<bar> < 2 ^ 31 \<Longrightarrow> - (2 ^ 31) \<le> v \<and> v < 2 ^ 31"
  using sint_range_size [of "word_of_int _ :: 32 word"]
  by (auto simp: config_getint_def to_int32_def word_size split: lua_field.splits)

section \<open>Properties\<close>

text \<open>
  C23: a configuration that \<open>config_load\<close> accepts has at most 256 workers, and its mailbox
  size, sending-queue size and service-table size are powers of two, each the smallest one
  that reaches the requested number; so the assertions \<open>ispow2\<close> of \<open>queue_new\<close> and
  \<open>service_create\<close> pass on it. \<open>config_load\<close> returns whenever the three requested sizes
  are at most \<open>2 ^ 30\<close>.
\<close>

theorem config_load_sound:
  assumes cores: "1 < ncores"
    and w: "config_getint tab ''worker'' 0 = Inr w"
    and q: "config_getint tab ''queue'' DEFAULT_QUEUE = Inr q" "q \<le> 2 ^ 30"
    and s: "config_getint tab ''queue_sending'' DEFAULT_QUEUE_SENDING = Inr s" "s \<le> 2 ^ 30"
    and m: "config_getint tab ''max_service'' DEFAULT_MAX_SERVICE = Inr m" "m \<le> 2 ^ 30"
    and e: "config_getint tab ''external_queue'' 0 = Inr e"
  shows "\<exists>cfg i j k. config_load ncores tab crash = Some (Inr cfg)
    \<and> c_queue cfg = 2 ^ i \<and> q \<le> 2 ^ i \<and> (0 < i \<longrightarrow> 2 ^ (i - 1) < q)
    \<and> c_queue_sending cfg = 2 ^ j \<and> s \<le> 2 ^ j \<and> (0 < j \<longrightarrow> 2 ^ (j - 1) < s)
    \<and> c_max_service cfg = 2 ^ k \<and> m \<le> 2 ^ k \<and> (0 < k \<longrightarrow> 2 ^ (k - 1) < m)
    \<and> i \<le> 30 \<and> j \<le> 30 \<and> k \<le> 30
    \<and> ispow2 (word_of_int (c_queue cfg)) \<and> ispow2 (word_of_int (c_max_service cfg))
    \<and> c_worker cfg \<le> MAX_WORKER \<and> (0 < w \<or> w = 0 \<longrightarrow> 1 \<le> c_worker cfg)
    \<and> length (c_crashlog cfg) < 128 \<and> c_external_queue cfg = e"
proof -
  obtain i where i: "align_pow2 q = Some (2 ^ i)" "q \<le> 2 ^ i" "i \<le> 30" "0 < i \<Longrightarrow> 2 ^ (i - 1) < q"
    using align_pow2_spec [OF q(2)] by blast
  obtain j where j: "align_pow2 s = Some (2 ^ j)" "s \<le> 2 ^ j" "j \<le> 30" "0 < j \<Longrightarrow> 2 ^ (j - 1) < s"
    using align_pow2_spec [OF s(2)] by blast
  obtain k where k: "align_pow2 m = Some (2 ^ k)" "m \<le> 2 ^ k" "k \<le> 30" "0 < k \<Longrightarrow> 2 ^ (k - 1) < m"
    using align_pow2_spec [OF m(2)] by blast
  let ?cfg = "\<lparr>c_worker = clamp_worker w ncores, c_queue = 2 ^ i, c_queue_sending = 2 ^ j,
    c_max_service = 2 ^ k, c_external_queue = e, c_crashlog = load_crashlog crash\<rparr>"
  have load: "config_load ncores tab crash = Some (Inr ?cfg)"
    using cores by (simp add: config_load_def w q(1) s(1) m(1) e i(1) j(1) k(1))
  have "length (load_crashlog crash) < 128"
    by (auto simp: load_crashlog_def split: option.splits)
  moreover have "clamp_worker w ncores \<le> MAX_WORKER"
    and "0 < w \<or> w = 0 \<longrightarrow> 1 \<le> clamp_worker w ncores"
    using cores by (auto simp: clamp_worker_def Let_def)
  moreover have "ispow2 (word_of_int (2 ^ i))" "ispow2 (word_of_int (2 ^ k))"
    using ispow2_exp by simp_all
  ultimately show ?thesis
    using load i(2-4) j(2-4) k(2-4)
    by (intro exI [of _ ?cfg] exI [of _ i] exI [of _ j] exI [of _ k]) simp
qed

definition example_fields :: "string \<Rightarrow> lua_field" where
  "example_fields key = (if key = ''queue'' then FieldInteger 5 else FieldNil)"

theorem config_load_sound_witness:
  "\<exists>cfg i. config_load 4 example_fields None = Some (Inr cfg) \<and> c_queue cfg = 2 ^ i \<and> (5::int) \<le> 2 ^ i"
proof -
  have "config_getint example_fields ''worker'' 0 = Inr 0"
    "config_getint example_fields ''queue'' DEFAULT_QUEUE = Inr 5"
    "config_getint example_fields ''queue_sending'' DEFAULT_QUEUE_SENDING = Inr DEFAULT_QUEUE_SENDING"
    "config_getint example_fields ''max_service'' DEFAULT_MAX_SERVICE = Inr DEFAULT_MAX_SERVICE"
    "config_getint example_fields ''external_queue'' 0 = Inr 0"
    by (simp_all add: config_getint_def example_fields_def to_int32_def)
  from config_load_sound [OF _ this(1) this(2) _ this(3) _ this(4) _ this(5), of 4 None]
  show ?thesis by auto
qed

end
