(* ===== verification/Service.thy ===== *)
theory Service
  imports Queue Message Config
begin

text \<open>
  \<open>src/service.c\<close>: the service pool. \<open>struct service\<close> and \<open>struct service_pool\<close> are
  records; \<open>p_s\<close> is the array of service pointers, indexed by the low bits of the id.

  The Lua virtual machine behind a service is outside the repository. Its pointers are kept
  as they are; what a call into it answers (a new state, the outcome of a protected call,
  how a coroutine stopped) is an argument of the operation that makes the call.

  Two ledgers make resource use visible: \<open>p_freed\<close> holds the messages released by
  \<open>message_delete\<close> and \<open>p_closed\<close> the Lua states released by \<open>lua_close\<close>.
\<close>

abbreviation (input) SERVICE_ID_SYSTEM :: service_id where "SERVICE_ID_SYSTEM \<equiv> 0"
abbreviation (input) SERVICE_ID_ROOT :: service_id where "SERVICE_ID_ROOT \<equiv> 1"

abbreviation (input) SERVICE_STATUS_UNINITIALIZED :: int where "SERVICE_STATUS_UNINITIALIZED \<equiv> 0"
abbreviation (input) SERVICE_STATUS_IDLE :: int where "SERVICE_STATUS_IDLE \<equiv> 1"
abbreviation (input) SERVICE_STATUS_SCHEDULE :: int where "SERVICE_STATUS_SCHEDULE \<equiv> 2"
abbreviation (input) SERVICE_STATUS_RUNNING :: int where "SERVICE_STATUS_RUNNING \<equiv> 3"
abbreviation (input) SERVICE_STATUS_DONE :: int where "SERVICE_STATUS_DONE \<equiv> 4"
abbreviation (input) SERVICE_STATUS_DEAD :: int where "SERVICE_STATUS_DEAD \<equiv> 5"

record memory_stat =
  ms_count :: "u64 list"
  ms_mem :: u64
  ms_limit :: u64

definition zero_stat :: memory_stat where
  "zero_stat = \<lparr>ms_count = replicate 6 0, ms_mem = 0, ms_limit = 0\<rparr>"

text \<open>\<open>stat\<close> and \<open>label\<close> are not initialised by \<open>service_new\<close>: \<^term>\<open>None\<close> until written.\<close>

record service =
  s_L :: ptr
  s_rL :: ptr
  s_msg :: "message queue option"
  s_out :: "message option"
  s_bounce :: "message option"
  s_status :: int
  s_receipt :: int
  s_binding_thread :: int
  s_sockevent_id :: int
  s_id :: service_id
  s_label :: "string option"
  s_stat :: "memory_stat option"
  s_cpucost :: u64
  s_clock :: u64

record service_pool =
  p_mask :: int
  p_queue_length :: int
  p_id :: u32
  p_s :: "service option list"
  p_malloc :: malloc_oracle
  p_freed :: "message list"
  p_closed :: "ptr list"

section \<open>Creating the pool, and slots\<close>

text \<open>
  \<open>service_create\<close>: the second \<open>malloc\<close>, for the pool itself, is not checked before it is
  written through.
\<close>

definition service_create :: "malloc_oracle \<Rightarrow> ltask_config \<Rightarrow> service_pool option option" where
  "service_create mem config = do {
     c_assert (ispow2 (word_of_int (c_max_service config)));
     (case malloc mem of (ok, mem1) \<Rightarrow>
        if \<not> ok then Some None
        else (case malloc mem1 of (ok2, mem2) \<Rightarrow> do {
          c_assert ok2;
          Some (Some \<lparr>p_mask = c_max_service config - 1, p_queue_length = c_queue config,
            p_id = 0, p_s = replicate (nat (c_max_service config)) None,
            p_malloc = mem2, p_freed = [], p_closed = []\<rparr>)
        }))
   }"

definition service_slot :: "service_pool \<Rightarrow> service_id \<Rightarrow> nat" where
  "service_slot p i = unat (i AND word_of_int (p_mask p))"

definition slot_ref :: "service_pool \<Rightarrow> service_id \<Rightarrow> service option" where
  "slot_ref p i = p_s p ! service_slot p i"

definition get_service :: "service_pool \<Rightarrow> service_id \<Rightarrow> service option" where
  "get_service p i =
     (case slot_ref p i of
        None \<Rightarrow> None
      | Some S \<Rightarrow> if s_id S \<noteq> i then None else Some S)"

text \<open>Assigning fields through the pointer that \<open>get_service\<close> returned.\<close>

definition upd_service :: "service_pool \<Rightarrow> service_id \<Rightarrow> (service \<Rightarrow> service) \<Rightarrow> service_pool" where
  "upd_service p i f =
     (case get_service p i of
        None \<Rightarrow> p
      | Some S \<Rightarrow> p\<lparr>p_s := (p_s p)[service_slot p i := Some (f S)]\<rparr>)"

section \<open>New services\<close>

text \<open>
  The search of \<open>service_new\<close>: \<open>k\<close> is the loop's counter \<open>i\<close>. \<^term>\<open>None\<close> is the
  early return of the zero id.
\<close>

function new_scan :: "service_pool \<Rightarrow> u32 \<Rightarrow> int \<Rightarrow> u32 option" where
  "new_scan p i k =
     (if i = 0 \<or> slot_ref p i \<noteq> None
      then (let i' = i + 1; k' = k + 1 in
            if k' > p_mask p then None else new_scan p i' k')
      else Some i)"
  by pat_completeness auto
termination
  by (relation "measure (\<lambda>(p, i, k). nat (p_mask p + 1 - k))") auto

declare new_scan.simps [simp del]

definition fresh_service :: "service_id \<Rightarrow> service" where
  "fresh_service i = \<lparr>s_L = 0, s_rL = 0, s_msg = None, s_out = None, s_bounce = None,
     s_status = SERVICE_STATUS_UNINITIALIZED, s_receipt = MESSAGE_RECEIPT_NONE,
     s_binding_thread = -1, s_sockevent_id = -1, s_id = i, s_label = None, s_stat = None,
     s_cpucost = 0, s_clock = 0\<rparr>"

definition place_service :: "service_pool \<Rightarrow> service_id \<Rightarrow> service_id \<times> service_pool" where
  "place_service p i =
     (case malloc (p_malloc p) of (ok, mem) \<Rightarrow>
        let p1 = p\<lparr>p_malloc := mem\<rparr> in
        if \<not> ok then (0, p1)
        else (i, p1\<lparr>p_s := (p_s p1)[service_slot p1 i := Some (fresh_service i)]\<rparr>))"

definition service_new :: "service_pool \<Rightarrow> service_id \<Rightarrow> service_id \<times> service_pool" where
  "service_new p sid =
     (if sid \<noteq> 0
      then (if slot_ref p sid \<noteq> None then (0, p) else place_service p sid)
      else (case new_scan p (p_id p) 0 of
              None \<Rightarrow> (0, p)
            | Some i \<Rightarrow> place_service (p\<lparr>p_id := i + 1\<rparr>) i))"

section \<open>Releasing a service\<close>

text \<open>The loop of \<open>free_service\<close> that pops and deletes until the mailbox is empty.\<close>

fun queue_drain :: "nat \<Rightarrow> 'm queue \<Rightarrow> ('m list \<times> 'm queue) option" where
  "queue_drain 0 q = None"
| "queue_drain (Suc fuel) q = do {
     (m, q1) \<leftarrow> queue_pop_ptr q;
     (case m of
        None \<Rightarrow> Some ([], q1)
      | Some v \<Rightarrow> do {
          (vs, q2) \<leftarrow> queue_drain fuel q1;
          Some (v # vs, q2)
        })
   }"

definition mailbox_drain :: "message queue option \<Rightarrow> message list option" where
  "mailbox_drain mq =
     (case mq of
        None \<Rightarrow> Some []
      | Some q \<Rightarrow> map_option fst (queue_drain (nat (q_size q) + 1) q))"

definition free_service :: "service_pool \<Rightarrow> service \<Rightarrow> service_pool option" where
  "free_service p S = do {
     let p1 = (if s_L S \<noteq> 0 then p\<lparr>p_closed := s_L S # p_closed p\<rparr> else p);
     ms \<leftarrow> mailbox_drain (s_msg S);
     let freed1 = fold (\<lambda>m. message_delete (Some m)) ms (p_freed p1);
     let freed2 = message_delete (s_out S) freed1;
     let freed3 = message_delete (s_bounce S) freed2;
     Some (p1\<lparr>p_freed := freed3\<rparr>)
   }"

definition service_delete :: "service_pool \<Rightarrow> service_id \<Rightarrow> service_pool option" where
  "service_delete p i =
     (case get_service p i of
        None \<Rightarrow> Some p
      | Some S \<Rightarrow> free_service (p\<lparr>p_s := (p_s p)[service_slot p i := None]\<rparr>) S)"

definition service_close :: "service_pool \<Rightarrow> service_id \<Rightarrow> service_pool" where
  "service_close p i =
     (case get_service p i of
        None \<Rightarrow> p
      | Some S \<Rightarrow>
          let p1 = (if s_L S \<noteq> 0 then p\<lparr>p_closed := s_L S # p_closed p\<rparr> else p)
          in upd_service p1 i (\<lambda>S. S\<lparr>s_L := 0, s_status := SERVICE_STATUS_DEAD\<rparr>))"

text \<open>\<open>service_destory\<close> releases every service, slot by slot; the ledgers are what is left.\<close>

fun destroy_slots :: "service option list \<Rightarrow> service_pool \<Rightarrow> service_pool option" where
  "destroy_slots [] p = Some p"
| "destroy_slots (None # ss) p = destroy_slots ss p"
| "destroy_slots (Some S # ss) p = do {
     p1 \<leftarrow> free_service p S;
     destroy_slots ss p1
   }"

definition service_destory :: "service_pool option \<Rightarrow> (message list \<times> ptr list) option" where
  "service_destory pp =
     (case pp of
        None \<Rightarrow> Some ([], [])
      | Some p \<Rightarrow> do {
          p1 \<leftarrow> destroy_slots (take (nat (p_mask p + 1)) (p_s p)) p;
          Some (p_freed p1, p_closed p1)
        })"

section \<open>Initialising a service and running its code\<close>

text \<open>
  What the Lua library answers to \<open>service_init\<close>: the pointer \<open>lua_newstate\<close> returns
  (0 on failure), whether the protected call of \<open>init_service\<close> returned \<open>LUA_OK\<close>, and the
  thread \<open>lua_newthread\<close> returns.
\<close>

record vm_boot =
  vb_state :: ptr
  vb_ok :: bool
  vb_thread :: ptr

definition service_init :: "service_pool \<Rightarrow> service_id \<Rightarrow> vm_boot \<Rightarrow> (int \<times> service_pool) option" where
  "service_init p i vm =
     (case get_service p i of
        None \<Rightarrow> None
      | Some S \<Rightarrow> do {
          c_assert (s_L S = 0 \<and> s_status S = SERVICE_STATUS_UNINITIALIZED);
          let p1 = upd_service p i (\<lambda>S. S\<lparr>s_stat := Some zero_stat\<rparr>);
          if vb_state vm = 0 then Some (1, p1)
          else if \<not> vb_ok vm then Some (1, p1\<lparr>p_closed := vb_state vm # p_closed p1\<rparr>)
          else (case malloc (p_malloc p1) of (ok, mem) \<Rightarrow> do {
            let p2 = p1\<lparr>p_malloc := mem\<rparr>;
            mq \<leftarrow> queue_new_ptr ok (p_queue_length p);
            let p3 = upd_service p2 i (\<lambda>S. S\<lparr>s_msg := mq\<rparr>);
            if mq = None then Some (1, p3\<lparr>p_closed := vb_state vm # p_closed p3\<rparr>)
            else Some (0, upd_service p3 i (\<lambda>S. S\<lparr>s_L := vb_state vm, s_rL := vb_thread vm\<rparr>))
          })
        })"

text \<open>\<open>require_ok\<close>: whether the protected call of \<open>require_cmodule\<close> returned \<open>LUA_OK\<close>.\<close>

definition service_requiref :: "service_pool \<Rightarrow> service_id \<Rightarrow> bool \<Rightarrow> int" where
  "service_requiref p i require_ok =
     (case get_service p i of
        None \<Rightarrow> 1
      | Some S \<Rightarrow> if s_rL S = 0 then 1 else if \<not> require_ok then 1 else 0)"

text \<open>\<open>load_error\<close>: the message \<open>luaL_loadbuffer\<close> leaves, if it fails.\<close>

definition service_loadstring ::
  "service_pool \<Rightarrow> service_id \<Rightarrow> string option \<Rightarrow> string option \<times> service_pool" where
  "service_loadstring p i load_error =
     (case get_service p i of
        None \<Rightarrow> (Some ''Init service first'', p)
      | Some S \<Rightarrow>
          if s_L S = 0 then (Some ''Init service first'', p)
          else (case load_error of
                  Some r \<Rightarrow> (Some r, upd_service p i (\<lambda>S. S\<lparr>s_status := SERVICE_STATUS_DEAD\<rparr>))
                | None \<Rightarrow> (None, upd_service p i (\<lambda>S. S\<lparr>s_status := SERVICE_STATUS_IDLE\<rparr>))))"

datatype lua_status = LUA_OK | LUA_YIELD | LUA_ERR

text \<open>
  \<open>run\<close> is what the Lua code does to the pool while it runs (through the functions of
  \<open>ltask.c\<close>) and how it stops; \<open>start\<close> and \<open>stop\<close> are the two clock readings.
\<close>

definition service_resume ::
  "service_pool \<Rightarrow> service_id \<Rightarrow> (service_pool \<Rightarrow> lua_status \<times> service_pool) \<Rightarrow> u64 \<Rightarrow> u64
     \<Rightarrow> (int \<times> service_pool) option" where
  "service_resume p i run start stop =
     (case get_service p i of
        None \<Rightarrow> Some (1, p)
      | Some S \<Rightarrow>
          if s_L S = 0 then Some (1, p)
          else (let p1 = upd_service p i (\<lambda>S. S\<lparr>s_clock := start\<rparr>) in
            case run p1 of (r, p2) \<Rightarrow>
              (case get_service p2 i of
                 None \<Rightarrow> None
               | Some _ \<Rightarrow>
                   let p3 = upd_service p2 i (\<lambda>S. S\<lparr>s_cpucost := s_cpucost S + (stop - start)\<rparr>)
                   in Some (if r = LUA_YIELD then 0 else 1, p3))))"

section \<open>Labels, status and the other fields\<close>

text \<open>\<open>strncpy\<close> into 31 bytes and a terminator.\<close>

definition service_setlabel :: "service_pool \<Rightarrow> service_id \<Rightarrow> string \<Rightarrow> int \<times> service_pool" where
  "service_setlabel p i label =
     (case get_service p i of
        None \<Rightarrow> (1, p)
      | Some _ \<Rightarrow> (0, upd_service p i (\<lambda>S. S\<lparr>s_label := Some (take 31 label)\<rparr>)))"

definition service_getlabel :: "service_pool \<Rightarrow> service_id \<Rightarrow> string option" where
  "service_getlabel p i =
     (case get_service p i of
        None \<Rightarrow> Some ''<dead service>''
      | Some S \<Rightarrow> s_label S)"

definition service_status_get :: "service_pool \<Rightarrow> service_id \<Rightarrow> int" where
  "service_status_get p i =
     (case get_service p i of None \<Rightarrow> SERVICE_STATUS_DEAD | Some S \<Rightarrow> s_status S)"

definition service_status_set :: "service_pool \<Rightarrow> service_id \<Rightarrow> int \<Rightarrow> service_pool" where
  "service_status_set p i status = upd_service p i (\<lambda>S. S\<lparr>s_status := status\<rparr>)"

definition service_binding_get :: "service_pool \<Rightarrow> service_id \<Rightarrow> int" where
  "service_binding_get p i =
     (case get_service p i of None \<Rightarrow> -1 | Some S \<Rightarrow> s_binding_thread S)"

definition service_binding_set :: "service_pool \<Rightarrow> service_id \<Rightarrow> int \<Rightarrow> service_pool" where
  "service_binding_set p i worker_thread =
     upd_service p i (\<lambda>S. S\<lparr>s_binding_thread := worker_thread\<rparr>)"

definition service_sockevent_get :: "service_pool \<Rightarrow> service_id \<Rightarrow> int" where
  "service_sockevent_get p i =
     (case get_service p i of None \<Rightarrow> -1 | Some S \<Rightarrow> s_sockevent_id S)"

definition service_sockevent_init :: "service_pool \<Rightarrow> service_id \<Rightarrow> int \<Rightarrow> service_pool" where
  "service_sockevent_init p i index = upd_service p i (\<lambda>S. S\<lparr>s_sockevent_id := index\<rparr>)"

definition service_cpucost :: "service_pool \<Rightarrow> service_id \<Rightarrow> u64 \<Rightarrow> u64" where
  "service_cpucost p i now =
     (case get_service p i of None \<Rightarrow> 0 | Some S \<Rightarrow> s_cpucost S + now - s_clock S)"

section \<open>Messages and receipts\<close>

text \<open>\<open>service_push_message\<close>: 0 stored, 1 blocked, -1 no such service or a dead one.\<close>

definition service_push_message ::
  "service_pool \<Rightarrow> service_id \<Rightarrow> message option \<Rightarrow> (int \<times> service_pool) option" where
  "service_push_message p i msg =
     (case get_service p i of
        None \<Rightarrow> Some (-1, p)
      | Some S \<Rightarrow>
          if s_status S = SERVICE_STATUS_DEAD then Some (-1, p)
          else (case s_msg S of
                  None \<Rightarrow> None
                | Some q \<Rightarrow> do {
                    (r, q') \<leftarrow> queue_push_ptr q msg;
                    let p' = upd_service p i (\<lambda>S. S\<lparr>s_msg := Some q'\<rparr>);
                    if r \<noteq> 0 then Some (1, p') else Some (0, p')
                  }))"

definition service_message_out :: "service_pool \<Rightarrow> service_id \<Rightarrow> message option \<times> service_pool" where
  "service_message_out p i =
     (case get_service p i of
        None \<Rightarrow> (None, p)
      | Some S \<Rightarrow>
          (case s_out S of
             None \<Rightarrow> (None, p)
           | Some r \<Rightarrow> (Some r, upd_service p i (\<lambda>S. S\<lparr>s_out := None\<rparr>))))"

definition service_send_message ::
  "service_pool \<Rightarrow> service_id \<Rightarrow> message option \<Rightarrow> int \<times> service_pool" where
  "service_send_message p i msg =
     (case get_service p i of
        None \<Rightarrow> (1, p)
      | Some S \<Rightarrow>
          if s_out S \<noteq> None then (1, p)
          else (0, upd_service p i (\<lambda>S. S\<lparr>s_out := msg\<rparr>)))"

definition service_write_receipt ::
  "service_pool \<Rightarrow> service_id \<Rightarrow> int \<Rightarrow> message option \<Rightarrow> service_pool option" where
  "service_write_receipt p i receipt bounce =
     (case get_service p i of
        None \<Rightarrow> None
      | Some S \<Rightarrow>
          if s_receipt S = MESSAGE_RECEIPT_NONE
          then Some (upd_service p i (\<lambda>S. S\<lparr>s_receipt := receipt, s_bounce := bounce\<rparr>))
          else (let p1 = p\<lparr>p_freed := message_delete (s_bounce S) (p_freed p)\<rparr>
                in Some (upd_service p1 i (\<lambda>S. S\<lparr>s_receipt := receipt, s_bounce := bounce\<rparr>))))"

definition service_read_receipt ::
  "service_pool \<Rightarrow> service_id \<Rightarrow> message option \<times> int \<times> service_pool" where
  "service_read_receipt p i =
     (case get_service p i of
        None \<Rightarrow> (None, MESSAGE_RECEIPT_NONE, p)
      | Some S \<Rightarrow>
          (s_bounce S, s_receipt S,
           upd_service p i (\<lambda>S. S\<lparr>s_receipt := MESSAGE_RECEIPT_NONE, s_bounce := None\<rparr>)))"

definition service_pop_message ::
  "service_pool \<Rightarrow> service_id \<Rightarrow> (message option \<times> service_pool) option" where
  "service_pop_message p i =
     (case get_service p i of
        None \<Rightarrow> Some (None, p)
      | Some S \<Rightarrow>
          (case s_bounce S of
             Some r \<Rightarrow> Some (Some r, upd_service p i (\<lambda>S. S\<lparr>s_bounce := None\<rparr>))
           | None \<Rightarrow>
               (case s_msg S of
                  None \<Rightarrow> None
                | Some q \<Rightarrow> do {
                    (m, q') \<leftarrow> queue_pop_ptr q;
                    Some (m, upd_service p i (\<lambda>S. S\<lparr>s_msg := Some q'\<rparr>))
                  })))"

definition service_has_message :: "service_pool \<Rightarrow> service_id \<Rightarrow> int option" where
  "service_has_message p i =
     (case get_service p i of
        None \<Rightarrow> Some 0
      | Some S \<Rightarrow>
          if s_receipt S \<noteq> MESSAGE_RECEIPT_NONE then Some 1
          else (case s_msg S of
                  None \<Rightarrow> None
                | Some q \<Rightarrow> Some (if queue_length q > 0 then 1 else 0)))"

definition signal_message :: "service_id \<Rightarrow> message" where
  "signal_message i = \<lparr>m_from = i, m_to = SERVICE_ID_ROOT, m_session = 0,
     m_type = MESSAGE_SIGNAL, m_msg = 0, m_sz = 0\<rparr>"

definition service_send_signal :: "service_pool \<Rightarrow> service_id \<Rightarrow> service_pool" where
  "service_send_signal p i =
     (case get_service p i of
        None \<Rightarrow> p
      | Some S \<Rightarrow>
          let p1 = p\<lparr>p_freed := message_delete (s_out S) (p_freed p)\<rparr> in
          (case message_new (p_malloc p1) (signal_message i) of (m, mem) \<Rightarrow>
             upd_service (p1\<lparr>p_malloc := mem\<rparr>) i (\<lambda>S. S\<lparr>s_out := m\<rparr>)))"

end
