(* ===== verification/Worker.thy ===== *)
theory Worker
  imports Service Fifo "HOL-Library.Multiset"
begin

text \<open>
  \<open>src/worker.h\<close> and the atomics of \<open>src/atomic.h\<close> it uses: the per-thread state, the queue of
  services bound to a thread, and the two one-place mailboxes \<open>service_ready\<close> and
  \<open>service_done\<close> through which the scheduler and the worker pass a service id.

  The mutex and condition variable \<open>trigger\<close> are the subject of \<open>WorkerThreads\<close>. Ids are stored
  in \<open>atomic_int\<close>s as C \<open>int\<close>s; \<open>int_of_id\<close> and \<open>id_of_int\<close> are the two conversions.
\<close>

definition int_of_id :: "service_id \<Rightarrow> int" where "int_of_id i = sint i"
definition id_of_int :: "int \<Rightarrow> service_id" where "id_of_int v = word_of_int v"

lemma id_of_int_of_id [simp]: "id_of_int (int_of_id i) = i"
  by (simp add: id_of_int_def int_of_id_def)

lemma int_of_id_eq_0 [simp]: "int_of_id i = 0 \<longleftrightarrow> i = 0"
  by (simp add: int_of_id_def signed_eq_0_iff)

lemma int_of_id_0 [simp]: "int_of_id 0 = 0"
  by (simp add: int_of_id_def)

text \<open>\<open>atomic_compare_exchange_weak\<close> may fail although the values agree: \<open>fails\<close> says so.\<close>

definition atomic_int_cas :: "bool \<Rightarrow> int \<Rightarrow> int \<Rightarrow> int \<Rightarrow> bool \<times> int" where
  "atomic_int_cas fails v oval nval = (if v = oval \<and> \<not> fails then (True, nval) else (False, v))"

abbreviation (input) BINDING_SERVICE_QUEUE :: int where "BINDING_SERVICE_QUEUE \<equiv> 16"

record binding_service =
  bq_head :: int
  bq_tail :: int
  bq_q :: "service_id option list"

record worker_thread =
  w_worker_id :: int
  w_running :: service_id
  w_binding :: service_id
  w_waiting :: service_id
  w_service_ready :: int
  w_service_done :: int
  w_term_signal :: int
  w_sleeping :: int
  w_wakeup :: int
  w_busy :: int
  w_binding_queue :: binding_service

definition worker_init :: "int \<Rightarrow> worker_thread" where
  "worker_init worker_id = \<lparr>w_worker_id = worker_id, w_running = 0, w_binding = 0, w_waiting = 0,
     w_service_ready = 0, w_service_done = 0, w_term_signal = 0, w_sleeping = 0, w_wakeup = 0,
     w_busy = 0, w_binding_queue = \<lparr>bq_head = 0, bq_tail = 0, bq_q = replicate 16 None\<rparr>\<rparr>"

definition worker_has_job :: "worker_thread \<Rightarrow> bool" where
  "worker_has_job w = (w_service_ready w \<noteq> 0)"

section \<open>The binding queue\<close>

text \<open>\<open>worker_binding_job\<close> on the queue itself; the answer is 1 when it is full.\<close>

definition binding_push :: "binding_service \<Rightarrow> service_id \<Rightarrow> (int \<times> binding_service) option" where
  "binding_push q i =
     (if bq_tail q - bq_head q \<ge> BINDING_SERVICE_QUEUE then Some (1, q)
      else do {
        cells \<leftarrow> array_store (bq_q q) (bq_tail q mod BINDING_SERVICE_QUEUE) i;
        let q1 = q\<lparr>bq_q := cells, bq_tail := bq_tail q + 1\<rparr>;
        c_assert (bq_tail q1 > 0);
        Some (0, q1)
      })"

text \<open>
  Taking the head, as it is written out in \<open>worker_assign_job\<close> and in \<open>count_freeslot\<close>;
  \<^term>\<open>None\<close> as the id when the queue is empty.
\<close>

definition binding_pop :: "binding_service \<Rightarrow> (service_id option \<times> binding_service) option" where
  "binding_pop q =
     (if bq_tail q \<noteq> bq_head q
      then do {
        i \<leftarrow> array_fetch (bq_q q) (bq_head q mod BINDING_SERVICE_QUEUE);
        let q1 = q\<lparr>bq_head := bq_head q + 1\<rparr>;
        let q2 = (if bq_head q1 = bq_tail q1 then q1\<lparr>bq_head := 0, bq_tail := 0\<rparr> else q1);
        Some (Some i, q2)
      }
      else Some (None, q))"

definition binding_list :: "binding_service \<Rightarrow> service_id list" where
  "binding_list q = map (\<lambda>n. the (bq_q q ! (nat ((bq_head q + int n) mod 16))))
     [0 ..< nat (bq_tail q - bq_head q)]"

definition binding_wf :: "binding_service \<Rightarrow> bool" where
  "binding_wf q \<longleftrightarrow> length (bq_q q) = 16 \<and> 0 \<le> bq_head q \<and> bq_head q \<le> bq_tail q
     \<and> bq_tail q - bq_head q \<le> 16
     \<and> (\<forall>n < nat (bq_tail q - bq_head q). bq_q q ! (nat ((bq_head q + int n) mod 16)) \<noteq> None)"

lemma length_binding_list [simp]: "length (binding_list q) = nat (bq_tail q - bq_head q)"
  by (simp add: binding_list_def)

lemma binding_list_Nil: "binding_wf q \<Longrightarrow> binding_list q = [] \<longleftrightarrow> bq_tail q = bq_head q"
  by (auto simp: binding_list_def binding_wf_def)

lemma nat_mod16_less [simp]: "nat (x mod 16) < 16"
  by (simp add: nat_less_iff)

lemma binding_push_room:
  assumes wf: "binding_wf q" and room: "length (binding_list q) < 16"
  shows "\<exists>q'. binding_push q i = Some (0, q') \<and> binding_wf q' \<and> binding_list q' = binding_list q @ [i]"
proof -
  let ?n = "nat (bq_tail q - bq_head q)"
  let ?cell = "nat ((bq_head q + int ?n) mod 16)"
  let ?q = "q\<lparr>bq_q := (bq_q q)[?cell := Some i], bq_tail := bq_tail q + 1\<rparr>"
  from wf have h: "0 \<le> bq_head q" "bq_head q + int ?n = bq_tail q" "length (bq_q q) = 16"
    by (auto simp: binding_wf_def)
  have n16: "?n < 16" using room by simp
  have cell: "nat (bq_tail q mod 16) = ?cell" by (simp only: h(2))
  have keep: "((bq_q q)[?cell := Some i]) ! (nat ((bq_head q + int m) mod 16))
      = (if m = ?n then Some i else bq_q q ! (nat ((bq_head q + int m) mod 16)))" if "m \<le> ?n" for m
  proof (cases "m = ?n")
    case True
    then show ?thesis using h(3) by simp
  next
    case False
    have "nat ((bq_head q + int m) mod 16) \<noteq> ?cell"
      using False that n16 mod_window_inj [of "bq_head q" m 16 ?n] by (auto simp: eq_nat_nat_iff)
    then show ?thesis using False by simp
  qed
  have "bq_head q \<le> bq_tail q" "bq_tail q - bq_head q < 16" using wf n16 by (auto simp: binding_wf_def)
  then have "binding_push q i = Some (0, ?q)"
    using h(1,3) n16 cell by (simp add: binding_push_def array_store_def)
  moreover have t: "nat (bq_tail q + 1 - bq_head q) = Suc ?n" using wf by (auto simp: binding_wf_def)
  have "binding_wf ?q"
    using wf n16 keep by (auto simp: binding_wf_def t less_Suc_eq)
  moreover have "binding_list ?q = binding_list q @ [i]"
    using keep h(3) by (simp add: binding_list_def t)
  ultimately show ?thesis by blast
qed

lemma binding_push_full: "binding_wf q \<Longrightarrow> 16 \<le> length (binding_list q) \<Longrightarrow> binding_push q i = Some (1, q)"
proof -
  assume "16 \<le> length (binding_list q)"
  then have "16 \<le> bq_tail q - bq_head q" by (simp add: nat_le_iff)
  then show ?thesis by (simp add: binding_push_def)
qed

lemma binding_pop_first:
  assumes wf: "binding_wf q" and cons: "binding_list q = x # xs"
  shows "\<exists>q'. binding_pop q = Some (Some x, q') \<and> binding_wf q' \<and> binding_list q' = xs"
proof -
  let ?n = "nat (bq_tail q - bq_head q)"
  from cons have "?n = Suc (length xs)" by (metis length_binding_list length_Cons)
  then have n: "0 < ?n" "length xs = ?n - 1" by simp_all
  from wf have h: "0 \<le> bq_head q" "length (bq_q q) = 16" "bq_tail q \<noteq> bq_head q" "bq_head q \<le> bq_tail q"
    using n by (auto simp: binding_wf_def)
  have hd: "bq_q q ! (nat (bq_head q mod 16)) = Some x"
  proof -
    have "bq_q q ! (nat ((bq_head q + int 0) mod 16)) \<noteq> None"
      using wf n(1) unfolding binding_wf_def by blast
    moreover have "the (bq_q q ! (nat (bq_head q mod 16))) = x"
      using arg_cong [OF cons, of "\<lambda>l. l ! 0"] n by (simp add: binding_list_def)
    ultimately show ?thesis by auto
  qed
  let ?q1 = "q\<lparr>bq_head := bq_head q + 1\<rparr>"
  let ?q2 = "if bq_head ?q1 = bq_tail ?q1 then ?q1\<lparr>bq_head := 0, bq_tail := 0\<rparr> else ?q1"
  have pop: "binding_pop q = Some (Some x, ?q2)"
    using h hd by (simp add: binding_pop_def array_fetch_def Let_def)
  have xs: "xs = map (\<lambda>m. the (bq_q q ! (nat ((bq_head q + 1 + int m) mod 16)))) [0 ..< ?n - 1]"
  proof -
    have "xs = tl (binding_list q)" by (simp add: cons)
    also have "\<dots> = map (\<lambda>m. the (bq_q q ! (nat ((bq_head q + int m) mod 16)))) [Suc 0 ..< Suc (?n - 1)]"
      using n by (simp add: binding_list_def map_tl [symmetric] tl_upt)
    also have "\<dots> = map (\<lambda>m. the (bq_q q ! (nat ((bq_head q + int (Suc m)) mod 16)))) [0 ..< ?n - 1]"
      by (simp only: map_Suc_upt [symmetric] map_map comp_def)
    finally show ?thesis by (simp add: algebra_simps)
  qed
  have t: "nat (bq_tail q - (bq_head q + 1)) = ?n - 1" using h by simp
  have l1: "binding_list ?q1 = xs" by (simp add: binding_list_def xs t)
  have w1: "binding_wf ?q1"
  proof -
    have "bq_q q ! (nat ((bq_head q + 1 + int m) mod 16)) \<noteq> None" if "m < ?n - 1" for m
    proof -
      from that have "Suc m < ?n" by simp
      with wf have "bq_q q ! (nat ((bq_head q + int (Suc m)) mod 16)) \<noteq> None"
        unfolding binding_wf_def by blast
      then show ?thesis by (simp add: algebra_simps)
    qed
    with wf h show ?thesis unfolding binding_wf_def by (auto simp: t)
  qed
  have "binding_list ?q2 = xs \<and> binding_wf ?q2"
  proof (cases "bq_head q + 1 = bq_tail q")
    case True
    then have "xs = []" using l1 by (simp add: binding_list_def)
    then show ?thesis using True h by (simp add: binding_list_def binding_wf_def)
  next
    case False
    then show ?thesis using l1 w1 by simp
  qed
  with pop show ?thesis by blast
qed

lemma binding_pop_empty: "binding_wf q \<Longrightarrow> binding_list q = [] \<Longrightarrow> binding_pop q = Some (None, q)"
  by (simp add: binding_list_Nil binding_pop_def)

text \<open>The binding queue provides the contract of a bounded channel of capacity 16.\<close>

definition binding_enq :: "binding_service \<Rightarrow> service_id \<Rightarrow> (bool \<times> binding_service) option" where
  "binding_enq q i = map_option (\<lambda>(r, q'). (r = 0, q')) (binding_push q i)"

interpretation bq: bounded_fifo binding_wf binding_list "\<lambda>_. 16" "\<lambda>_. True" binding_enq binding_pop
proof unfold_locales
  fix q i assume "binding_wf q" "length (binding_list q) < 16"
  from binding_push_room [OF this, of i]
  show "\<exists>q'. binding_enq q i = Some (True, q') \<and> binding_wf q' \<and> binding_list q' = binding_list q @ [i]
      \<and> (16::nat) = 16"
    by (auto simp: binding_enq_def)
next
  fix q i assume "binding_wf q" "16 \<le> length (binding_list q)"
  from binding_push_full [OF this, of i] show "binding_enq q i = Some (False, q)"
    by (simp add: binding_enq_def)
next
  fix q x xs assume "binding_wf q" "binding_list q = x # xs"
  from binding_pop_first [OF this]
  show "\<exists>q'. binding_pop q = Some (Some x, q') \<and> binding_wf q' \<and> binding_list q' = xs \<and> (16::nat) = 16"
    by auto
next
  fix q assume "binding_wf q" "binding_list q = []"
  then show "binding_pop q = Some (None, q)" by (rule binding_pop_empty)
qed

lemma binding_init_wf: "binding_wf (w_binding_queue (worker_init n))"
  "binding_list (w_binding_queue (worker_init n)) = []"
  by (simp_all add: worker_init_def binding_wf_def binding_list_def)

section \<open>The one-place mailboxes\<close>

definition worker_binding_job :: "worker_thread \<Rightarrow> service_id \<Rightarrow> (int \<times> worker_thread) option" where
  "worker_binding_job w i = do {
     (r, q) \<leftarrow> binding_push (w_binding_queue w) i;
     Some (r, w\<lparr>w_binding_queue := q\<rparr>)
   }"

definition worker_assign_job :: "worker_thread \<Rightarrow> service_id \<Rightarrow> (service_id \<times> worker_thread) option" where
  "worker_assign_job w i =
     (if w_service_ready w = 0
      then do {
        (h, q) \<leftarrow> binding_pop (w_binding_queue w);
        let i' = (case h of None \<Rightarrow> i | Some b \<Rightarrow> b);
        Some (i', w\<lparr>w_binding_queue := q, w_service_ready := int_of_id i'\<rparr>)
      }
      else Some (0, w))"

text \<open>
  \<open>worker_get_job\<close>: the loop runs until a compare-and-swap succeeds or the mailbox is
  empty; \<open>fails\<close> lists the spurious failures it meets before.
\<close>

fun worker_get_job :: "bool list \<Rightarrow> worker_thread \<Rightarrow> service_id \<times> worker_thread" where
  "worker_get_job fails w =
     (let job = w_service_ready w in
      if job \<noteq> 0
      then (case atomic_int_cas (fails \<noteq> [] \<and> hd fails) job job 0 of
              (True, v) \<Rightarrow> (id_of_int job, w\<lparr>w_service_ready := v\<rparr>)
            | (False, v) \<Rightarrow> (case fails of [] \<Rightarrow> (0, w) | _ # fs \<Rightarrow> worker_get_job fs w))
      else (0, w))"

definition worker_steal_job ::
  "bool \<Rightarrow> worker_thread \<Rightarrow> service_pool \<Rightarrow> service_id \<times> worker_thread" where
  "worker_steal_job fails w p =
     (let job = w_service_ready w in
      if job \<noteq> 0
      then (let t = id_of_int job in
            if service_binding_get p t = w_worker_id w then (0, w)
            else (case atomic_int_cas fails job job 0 of
                    (True, v) \<Rightarrow> (t, w\<lparr>w_service_ready := v, w_waiting := 0\<rparr>)
                  | (False, v) \<Rightarrow> (0, w)))
      else (0, w))"

definition worker_done_job :: "worker_thread \<Rightarrow> service_id \<times> worker_thread" where
  "worker_done_job w =
     (let done = w_service_done w
      in (id_of_int done, if done \<noteq> 0 then w\<lparr>w_service_done := 0\<rparr> else w))"

definition worker_complete_job :: "bool \<Rightarrow> worker_thread \<Rightarrow> int \<times> worker_thread" where
  "worker_complete_job fails w =
     (case atomic_int_cas fails (w_service_done w) 0 (int_of_id (w_running w)) of
        (True, v) \<Rightarrow> (0, w\<lparr>w_service_done := v, w_running := 0\<rparr>)
      | (False, v) \<Rightarrow> (1, w))"

text \<open>\<open>worker_wakeup\<close> as one critical section; the answer is whether the worker slept.\<close>

definition worker_wakeup :: "worker_thread \<Rightarrow> int \<times> worker_thread" where
  "worker_wakeup w = (w_sleeping w, w\<lparr>w_wakeup := 1\<rparr>)"

text \<open>
  \<open>worker_sleep\<close> between \<open>cond_wait_begin\<close> and the wait or \<open>cond_wait_end\<close>; the answer says that the
  worker waits.
\<close>

definition worker_sleep_begin :: "worker_thread \<Rightarrow> bool \<times> worker_thread" where
  "worker_sleep_begin w =
     (if worker_has_job w then (False, w\<lparr>w_wakeup := 0\<rparr>)
      else if w_wakeup w \<noteq> 0 then (False, w\<lparr>w_wakeup := 0\<rparr>)
      else (True, w\<lparr>w_sleeping := 1\<rparr>))"

definition worker_quit :: "worker_thread \<Rightarrow> worker_thread" where
  "worker_quit w = w\<lparr>w_sleeping := 0\<rparr>"

end
