(* ===== verification/WorkerThreads.thy ===== *)
theory WorkerThreads
  imports Worker
begin

text \<open>
  The parts of \<open>worker.h\<close> and \<open>cond.h\<close> that several threads run at once.

  \<^item> \<open>service_ready\<close>: one producer (the thread that owns the scheduler, in
    \<open>worker_assign_job\<close>) against any number of consumers (\<open>worker_get_job\<close> of the worker
    itself and \<open>worker_steal_job\<close>), one atomic access at a time.
  \<^item> \<open>worker_sleep\<close> against \<open>worker_wakeup\<close>: the critical sections of the mutex are single
    steps, the wait on the condition variable and the unprotected accesses to
    \<open>service_ready\<close> and \<open>term_signal\<close> are steps of their own.
\<close>

section \<open>Handing over a job\<close>

datatype producer_pc = PIdle | PChecked int

datatype consumer_pc = CIdle | CLoaded int

text \<open>\<open>js_assigned\<close> and \<open>js_taken\<close> record the jobs stored and the jobs taken, in order.\<close>

record job_slot =
  js_ready :: int
  js_producer :: producer_pc
  js_consumers :: "consumer_pc list"
  js_assigned :: "int list"
  js_taken :: "int list"

inductive slot_step :: "job_slot \<Rightarrow> job_slot \<Rightarrow> bool" where
  p_check: "js_producer s = PIdle \<Longrightarrow> js_ready s = 0 \<Longrightarrow> v \<noteq> 0 \<Longrightarrow>
     slot_step s (s\<lparr>js_producer := PChecked v\<rparr>)"
| p_store: "js_producer s = PChecked v \<Longrightarrow>
     slot_step s (s\<lparr>js_producer := PIdle, js_ready := v, js_assigned := js_assigned s @ [v]\<rparr>)"
| c_load: "i < length (js_consumers s) \<Longrightarrow> js_consumers s ! i = CIdle \<Longrightarrow>
     slot_step s (s\<lparr>js_consumers := (js_consumers s)[i := CLoaded (js_ready s)]\<rparr>)"
| c_none: "i < length (js_consumers s) \<Longrightarrow> js_consumers s ! i = CLoaded 0 \<Longrightarrow>
     slot_step s (s\<lparr>js_consumers := (js_consumers s)[i := CIdle]\<rparr>)"
| c_take: "i < length (js_consumers s) \<Longrightarrow> js_consumers s ! i = CLoaded v \<Longrightarrow> v \<noteq> 0 \<Longrightarrow>
     atomic_int_cas fails (js_ready s) v 0 = (True, r) \<Longrightarrow>
     slot_step s (s\<lparr>js_consumers := (js_consumers s)[i := CIdle], js_ready := r,
                    js_taken := js_taken s @ [v]\<rparr>)"
| c_fail: "i < length (js_consumers s) \<Longrightarrow> js_consumers s ! i = CLoaded v \<Longrightarrow> v \<noteq> 0 \<Longrightarrow>
     atomic_int_cas fails (js_ready s) v 0 = (False, r) \<Longrightarrow>
     slot_step s (s\<lparr>js_consumers := (js_consumers s)[i := CIdle], js_ready := r\<rparr>)"

inductive slot_reach :: "job_slot \<Rightarrow> bool" where
  slot_init: "\<forall>c \<in> set cs. c = CIdle \<Longrightarrow>
     slot_reach \<lparr>js_ready = 0, js_producer = PIdle, js_consumers = cs, js_assigned = [], js_taken = []\<rparr>"
| slot_more: "slot_reach s \<Longrightarrow> slot_step s s' \<Longrightarrow> slot_reach s'"

definition slot_inv :: "job_slot \<Rightarrow> bool" where
  "slot_inv s \<longleftrightarrow>
     js_assigned s = js_taken s @ (if js_ready s = 0 then [] else [js_ready s])
     \<and> (\<forall>v. js_producer s = PChecked v \<longrightarrow> js_ready s = 0 \<and> v \<noteq> 0)"

lemma slot_step_inv: "slot_step s s' \<Longrightarrow> slot_inv s \<Longrightarrow> slot_inv s'"
  by (induction rule: slot_step.induct) (auto simp: slot_inv_def atomic_int_cas_def split: if_splits)

lemma slot_reach_inv: "slot_reach s \<Longrightarrow> slot_inv s"
proof (induction rule: slot_reach.induct)
  case (slot_init cs)
  then show ?case by (simp add: slot_inv_def)
next
  case (slot_more s s')
  then show ?case using slot_step_inv by blast
qed

section \<open>Sleeping and waking up\<close>

text \<open>
  The worker is outside \<open>worker_sleep\<close>, between the test of \<open>term_signal\<close> and the mutex, or
  inside \<open>cond_wait\<close>. A waker is a thread that stores a job or the termination signal and
  then calls \<open>worker_wakeup\<close>: \<open>KPending\<close> is the point between the two.
\<close>

datatype sleeper_pc = SOut | SLock | SWait

datatype waker_pc = KOut | KPending

record sleep_state =
  ss_w :: worker_thread
  ss_flag :: int
  ss_sleeper :: sleeper_pc
  ss_wakers :: "waker_pc list"

text \<open>The first critical section of \<open>worker_sleep\<close>, up to \<open>cond_wait_end\<close> or the wait.\<close>

definition sleep_enter :: "sleep_state \<Rightarrow> sleep_state" where
  "sleep_enter s =
     (let w = ss_w s in
      if worker_has_job w
      then s\<lparr>ss_w := w\<lparr>w_wakeup := 0\<rparr>, ss_flag := 0, ss_sleeper := SOut\<rparr>
      else if w_wakeup w \<noteq> 0
      then s\<lparr>ss_w := w\<lparr>w_wakeup := 0\<rparr>, ss_flag := 0, ss_sleeper := SOut\<rparr>
      else s\<lparr>ss_w := w\<lparr>w_sleeping := 1\<rparr>, ss_sleeper := SWait\<rparr>)"

text \<open>What follows the wait: \<open>sleeping = 0\<close> and \<open>cond_wait_end\<close>.\<close>

definition sleep_leave :: "sleep_state \<Rightarrow> sleep_state" where
  "sleep_leave s = s\<lparr>ss_w := (ss_w s)\<lparr>w_sleeping := 0\<rparr>, ss_flag := 0, ss_sleeper := SOut\<rparr>"

text \<open>What they do to the worker is \<open>worker_sleep_begin\<close>.\<close>

lemma sleep_enter_worker:
  "ss_w (sleep_enter s) = snd (worker_sleep_begin (ss_w s))"
  "ss_sleeper (sleep_enter s) = (if fst (worker_sleep_begin (ss_w s)) then SWait else SOut)"
  by (simp_all add: sleep_enter_def worker_sleep_begin_def Let_def)

text \<open>\<open>worker_wakeup\<close> with \<open>cond_trigger_begin\<close> and \<open>cond_trigger_end\<close>.\<close>

definition wakeup_section :: "sleep_state \<Rightarrow> sleep_state" where
  "wakeup_section s =
     (let s1 = s\<lparr>ss_flag := 1\<rparr>;
          (sleeping, w) = worker_wakeup (ss_w s1);
          s2 = s1\<lparr>ss_w := w\<rparr>
      in if sleeping \<noteq> 0 then s2 else s2\<lparr>ss_flag := 0\<rparr>)"

inductive sleep_step :: "sleep_state \<Rightarrow> sleep_state \<Rightarrow> bool" where
  s_term: "ss_sleeper s = SOut \<Longrightarrow> w_term_signal (ss_w s) \<noteq> 0 \<Longrightarrow> sleep_step s s"
| s_begin: "ss_sleeper s = SOut \<Longrightarrow> w_term_signal (ss_w s) = 0 \<Longrightarrow>
     sleep_step s (s\<lparr>ss_sleeper := SLock\<rparr>)"
| s_enter: "ss_sleeper s = SLock \<Longrightarrow> sleep_step s (sleep_enter s)"
| s_leave: "ss_sleeper s = SWait \<Longrightarrow> ss_flag s \<noteq> 0 \<Longrightarrow> sleep_step s (sleep_leave s)"
| s_get: "ss_sleeper s = SOut \<Longrightarrow> worker_get_job fails (ss_w s) = (i, w) \<Longrightarrow>
     sleep_step s (s\<lparr>ss_w := w\<rparr>)"
| k_steal: "worker_steal_job fails (ss_w s) p = (i, w) \<Longrightarrow> sleep_step s (s\<lparr>ss_w := w\<rparr>)"
| k_assign: "n < length (ss_wakers s) \<Longrightarrow> ss_wakers s ! n = KOut \<Longrightarrow>
     worker_assign_job (ss_w s) i = Some (r, w) \<Longrightarrow>
     sleep_step s (s\<lparr>ss_w := w, ss_wakers := (ss_wakers s)[n := KPending]\<rparr>)"
| k_quit: "n < length (ss_wakers s) \<Longrightarrow> ss_wakers s ! n = KOut \<Longrightarrow>
     sleep_step s (s\<lparr>ss_w := (ss_w s)\<lparr>w_term_signal := 1\<rparr>, ss_wakers := (ss_wakers s)[n := KPending]\<rparr>)"
| k_wakeup: "n < length (ss_wakers s) \<Longrightarrow>
     sleep_step s ((wakeup_section s)\<lparr>ss_wakers := (ss_wakers s)[n := KOut]\<rparr>)"

inductive sleep_reach :: "sleep_state \<Rightarrow> bool" where
  sleep_init: "\<forall>k \<in> set ks. k = KOut \<Longrightarrow>
     sleep_reach \<lparr>ss_w = worker_init n, ss_flag = 0, ss_sleeper = SOut, ss_wakers = ks\<rparr>"
| sleep_more: "sleep_reach s \<Longrightarrow> sleep_step s s' \<Longrightarrow> sleep_reach s'"

definition sleep_inv :: "sleep_state \<Rightarrow> bool" where
  "sleep_inv s \<longleftrightarrow>
     (w_sleeping (ss_w s) \<noteq> 0 \<longleftrightarrow> ss_sleeper s = SWait)
     \<and> (ss_sleeper s \<noteq> SWait \<longrightarrow> ss_flag s = 0)
     \<and> (ss_sleeper s = SLock \<longrightarrow> w_term_signal (ss_w s) \<noteq> 0 \<longrightarrow>
          w_wakeup (ss_w s) \<noteq> 0 \<or> KPending \<in> set (ss_wakers s))
     \<and> (ss_sleeper s = SWait \<longrightarrow> ss_flag s = 0 \<longrightarrow>
          (w_service_ready (ss_w s) \<noteq> 0 \<or> w_term_signal (ss_w s) \<noteq> 0) \<longrightarrow>
          KPending \<in> set (ss_wakers s))"

lemma worker_get_job_frame:
  "worker_get_job fails w = (i, w') \<Longrightarrow>
     w_sleeping w' = w_sleeping w \<and> w_wakeup w' = w_wakeup w \<and> w_term_signal w' = w_term_signal w"
  by (induction fails w rule: worker_get_job.induct)
    (auto simp: Let_def atomic_int_cas_def split: if_splits list.splits)

lemma worker_steal_job_frame:
  "worker_steal_job fails w p = (i, w') \<Longrightarrow>
     w_sleeping w' = w_sleeping w \<and> w_wakeup w' = w_wakeup w \<and> w_term_signal w' = w_term_signal w
     \<and> w_service_ready w' \<in> {0, w_service_ready w}"
  by (auto simp: worker_steal_job_def Let_def atomic_int_cas_def split: if_splits)

lemma worker_assign_job_frame:
  "worker_assign_job w i = Some (r, w') \<Longrightarrow>
     w_sleeping w' = w_sleeping w \<and> w_wakeup w' = w_wakeup w \<and> w_term_signal w' = w_term_signal w"
  by (auto simp: worker_assign_job_def Let_def bind_eq_Some_conv split: if_splits)

lemma sleep_step_inv:
  assumes "sleep_step s s'" and "sleep_inv s"
  shows "sleep_inv s'"
  using assms
proof (cases rule: sleep_step.cases)
  case s_enter
  then show ?thesis using assms(2)
    by (auto simp: sleep_inv_def sleep_enter_def Let_def worker_has_job_def)
next
  case s_leave
  then show ?thesis by (simp add: sleep_inv_def sleep_leave_def)
next
  case (s_get fails i w)
  with worker_get_job_frame [OF s_get(3)] assms(2) show ?thesis by (auto simp: sleep_inv_def)
next
  case (k_steal fails p i w)
  with worker_steal_job_frame [OF k_steal(2)] assms(2) show ?thesis by (auto simp: sleep_inv_def)
next
  case (k_assign n i r w)
  with worker_assign_job_frame [OF k_assign(4)] assms(2) show ?thesis
    by (auto simp: sleep_inv_def set_update_memI)
next
  case (k_quit n)
  with assms(2) show ?thesis by (auto simp: sleep_inv_def set_update_memI)
next
  case (k_wakeup n)
  with assms(2) show ?thesis
    by (auto simp: sleep_inv_def wakeup_section_def worker_wakeup_def Let_def)
qed (use assms(2) in \<open>auto simp: sleep_inv_def\<close>)

lemma sleep_reach_inv: "sleep_reach s \<Longrightarrow> sleep_inv s"
proof (induction rule: sleep_reach.induct)
  case (sleep_init ks n)
  then show ?case by (simp add: sleep_inv_def worker_init_def)
next
  case (sleep_more s s')
  then show ?case using sleep_step_inv by blast
qed

section \<open>Properties\<close>

text \<open>
  C19: a job put into \<open>service_ready\<close> is taken by exactly one thread. With one producer and
  any number of threads in \<open>worker_get_job\<close> and \<open>worker_steal_job\<close>, the jobs taken so far
  followed by the one in the mailbox, if any, are the jobs assigned so far, in order.
\<close>

theorem job_taken_exactly_once:
  assumes "slot_reach s"
  shows "js_assigned s = js_taken s @ (if js_ready s = 0 then [] else [js_ready s])"
  using slot_reach_inv [OF assms] by (simp add: slot_inv_def)

theorem job_taken_exactly_once_witness:
  "\<exists>s. slot_reach s \<and> js_assigned s = [5] \<and> js_taken s @ (if js_ready s = 0 then [] else [js_ready s]) = [5]"
proof -
  define s0 where "s0 = \<lparr>js_ready = 0, js_producer = PIdle, js_consumers = [CIdle, CIdle],
    js_assigned = [], js_taken = []\<rparr>"
  have "slot_reach s0" unfolding s0_def by (rule slot_init) simp
  moreover define s1 where "s1 = s0\<lparr>js_producer := PChecked 5\<rparr>"
  have "slot_step s0 s1" using slot_step.p_check [of s0 5] by (simp add: s0_def s1_def)
  moreover define s2 where "s2 = s1\<lparr>js_producer := PIdle, js_ready := 5, js_assigned := [5]\<rparr>"
  have "slot_step s1 s2" using slot_step.p_store [of s1 5] by (simp add: s0_def s1_def s2_def)
  ultimately have r: "slot_reach s2" by (metis slot_more)
  from job_taken_exactly_once [OF r] r show ?thesis
    by (intro exI [of _ s2]) (simp add: s0_def s1_def s2_def)
qed

text \<open>
  No wake-up is lost. Whenever a worker is blocked in \<open>cond_wait\<close> although it has a job
  in \<open>service_ready\<close> or has been told to terminate, the thread that stored it has not yet
  finished its \<open>worker_wakeup\<close>; so once every waker is done, a blocked worker has nothing to do.
\<close>

theorem no_lost_wakeup:
  assumes "sleep_reach s" and "ss_sleeper s = SWait" and "ss_flag s = 0"
    and "\<forall>k \<in> set (ss_wakers s). k = KOut"
  shows "w_service_ready (ss_w s) = 0 \<and> w_term_signal (ss_w s) = 0"
  using sleep_reach_inv [OF assms(1)] assms(2-4) by (auto simp: sleep_inv_def)

theorem no_lost_wakeup_witness:
  "\<exists>s. sleep_reach s \<and> ss_sleeper s = SWait \<and> w_service_ready (ss_w s) = 0 \<and> w_term_signal (ss_w s) = 0"
proof -
  define s0 where "s0 = \<lparr>ss_w = worker_init 0, ss_flag = 0, ss_sleeper = SOut, ss_wakers = [KOut]\<rparr>"
  have "sleep_reach s0" unfolding s0_def by (rule sleep_init) simp
  moreover define s1 where "s1 = s0\<lparr>ss_sleeper := SLock\<rparr>"
  have "sleep_step s0 s1" using sleep_step.s_begin [of s0] by (simp add: s0_def s1_def worker_init_def)
  moreover have "sleep_step s1 (sleep_enter s1)" by (rule sleep_step.s_enter) (simp add: s1_def)
  ultimately have r: "sleep_reach (sleep_enter s1)" by (metis sleep_more)
  have "ss_sleeper (sleep_enter s1) = SWait" "ss_flag (sleep_enter s1) = 0" "ss_wakers (sleep_enter s1) = [KOut]"
    by (simp_all add: sleep_enter_def s1_def s0_def worker_init_def worker_has_job_def)
  with no_lost_wakeup [OF r] r show ?thesis by auto
qed

text \<open>
  The queue of services bound to a worker is a first-in first-out channel of 16 places:
  from \<open>worker_init\<close> on, every sequence of \<open>worker_binding_job\<close> and of removals answers as a
  list of capacity 16 does, and no access leaves the array.
\<close>

theorem binding_queue_is_bounded_fifo:
  "\<exists>q'. fifo_run binding_enq binding_pop (w_binding_queue (worker_init n)) ops
     = Some (fst (list_run 16 [] ops), q')"
  using bq.run_refines_list [OF binding_init_wf(1), of ops n] binding_init_wf(2) [of n] by auto

end
