(* ===== verification/Sockevent.thy ===== *)
theory Sockevent
  imports Prelude
begin

text \<open>
  \<open>src/sockevent.h\<close>: an event another thread can wait for in \<open>select\<close>, made of a connected
  pair of sockets and a flag. The operating system's answers are arguments; \<open>closed\<close> collects
  the descriptors given to \<open>closesocket\<close>. The branch under \<open>SO_NOSIGPIPE\<close> (macOS) is not
  part of the model.

  The second half runs any number of threads inside \<open>sockevent_trigger\<close> against the one
  inside \<open>sockevent_wait\<close>, one shared access at a time, and shows that no trigger is lost.
\<close>

abbreviation (input) socket_invalid :: int where "socket_invalid \<equiv> -1"

record sockevent =
  se_pipe0 :: int
  se_pipe1 :: int
  se_e :: int

definition sockevent_init :: sockevent where
  "sockevent_init = \<lparr>se_pipe0 = socket_invalid, se_pipe1 = socket_invalid, se_e = 0\<rparr>"

definition sockevent_close :: "sockevent \<Rightarrow> int list \<Rightarrow> sockevent \<times> int list" where
  "sockevent_close e closed =
     (let (e1, c1) = (if se_pipe0 e \<noteq> socket_invalid
                      then (e\<lparr>se_pipe0 := socket_invalid\<rparr>, se_pipe0 e # closed) else (e, closed));
          (e2, c2) = (if se_pipe1 e1 \<noteq> socket_invalid
                      then (e1\<lparr>se_pipe1 := socket_invalid\<rparr>, se_pipe1 e1 # c1) else (e1, c1))
      in (e2, c2))"

text \<open>
  What the system answers to \<open>sockevent_open\<close>: the listening socket, whether \<open>bind\<close>,
  \<open>getsockname\<close> and \<open>listen\<close> succeed, the sending socket, whether it can be made
  non-blocking, and the accepted socket.
\<close>

record open_answers =
  oa_fd :: int
  oa_bind :: bool
  oa_name :: bool
  oa_listen :: bool
  oa_pipe1 :: int
  oa_nonblock :: bool
  oa_accept :: int

text \<open>The label \<open>_error\<close>, with its test as it is written.\<close>

definition open_error :: "int \<Rightarrow> sockevent \<Rightarrow> int list \<Rightarrow> int \<times> sockevent \<times> int list" where
  "open_error fd e closed =
     (let c1 = (if fd = socket_invalid then fd # closed else closed);
          (e2, c2) = sockevent_close e c1
      in (-1, e2, c2))"

definition sockevent_open :: "open_answers \<Rightarrow> sockevent \<Rightarrow> int list \<Rightarrow> int \<times> sockevent \<times> int list" where
  "sockevent_open os e closed =
     (if se_pipe0 e \<noteq> socket_invalid then (0, e, closed)
      else let fd = oa_fd os in
      if fd = socket_invalid then open_error fd e closed
      else let e = e\<lparr>se_pipe0 := socket_invalid, se_pipe1 := socket_invalid\<rparr> in
      if \<not> oa_bind os then open_error fd e closed
      else if \<not> oa_name os then open_error fd e closed
      else if \<not> oa_listen os then open_error fd e closed
      else let e = e\<lparr>se_pipe1 := oa_pipe1 os\<rparr> in
      if se_pipe1 e < 0 then open_error fd e closed
      else if \<not> oa_nonblock os then open_error fd e closed
      else let e = e\<lparr>se_pipe0 := oa_accept os\<rparr> in
      if se_pipe0 e = socket_invalid then open_error fd e closed
      else (0, e\<lparr>se_e := 0\<rparr>, fd # closed))"

text \<open>\<open>sockevent_trigger\<close>, run without interruption; the second component is the number of bytes it
  gives to \<open>send\<close>, whose answer the code does not look at.\<close>

definition sockevent_trigger :: "sockevent \<Rightarrow> sockevent \<times> nat" where
  "sockevent_trigger e =
     (if se_pipe0 e = socket_invalid then (e, 0)
      else if se_e e \<noteq> 0 then (e, 0)
      else (e\<lparr>se_e := 1\<rparr>, 1))"

text \<open>\<open>sockevent_wait\<close> without a trigger in between, which is how the flag looks to a single thread;
  \<open>r\<close> is what \<open>recv\<close> answers.\<close>

definition sockevent_wait :: "int \<Rightarrow> sockevent \<Rightarrow> int \<times> sockevent" where
  "sockevent_wait r e = (r, e\<lparr>se_e := 0\<rparr>)"

definition sockevent_fd :: "sockevent \<Rightarrow> int" where
  "sockevent_fd e = se_pipe0 e"

section \<open>Opening and closing\<close>

definition sockevent_wf :: "sockevent \<Rightarrow> bool" where
  "sockevent_wf e \<longleftrightarrow> (se_pipe0 e = socket_invalid \<longleftrightarrow> se_pipe1 e = socket_invalid)"


lemma sockevent_close_wf: "sockevent_wf (fst (sockevent_close e closed))"
  by (simp add: sockevent_close_def sockevent_wf_def Let_def split: prod.splits)

lemma sockevent_open_wf:
  "sockevent_wf e \<Longrightarrow> sockevent_wf (fst (snd (sockevent_open os e closed)))"
  by (auto simp: sockevent_open_def open_error_def sockevent_close_def sockevent_wf_def Let_def
      split: prod.splits if_splits)

section \<open>Triggers against the waiter\<close>

text \<open>
  The shared part is the event and the number of bytes in the socket. A triggering thread has
  passed the test of \<open>pipe[0]\<close>, has loaded the flag, or has stored 1 and is about to send; the waiter
  is outside, in \<open>recv\<close>, or back from it and about to clear the flag. \<open>send\<close> does not block: it fails
  when the \<open>cap\<close> bytes the connection can hold are there, and the code does not look at its answer.
  \<open>recv\<close> blocks until there is a byte, or is interrupted and takes none. Nobody closes the event. The
  labels say which call begins or ends.
\<close>

datatype trigger_pc = TOut | TEntered | TLoaded int | TStored

datatype waiter_pc = WOut | WRecv | WGot

datatype event_label = Call nat | Return nat | Inside | Wait_return

record event_state =
  ev_e :: sockevent
  ev_bytes :: nat
  ev_triggers :: "trigger_pc list"
  ev_waiter :: waiter_pc

definition at_trigger :: "event_state \<Rightarrow> nat \<Rightarrow> trigger_pc \<Rightarrow> bool" where
  "at_trigger s i pc \<longleftrightarrow> i < length (ev_triggers s) \<and> ev_triggers s ! i = pc"

definition set_trigger :: "event_state \<Rightarrow> nat \<Rightarrow> trigger_pc \<Rightarrow> event_state" where
  "set_trigger s i pc = s\<lparr>ev_triggers := (ev_triggers s)[i := pc]\<rparr>"

inductive event_step :: "nat \<Rightarrow> event_state \<Rightarrow> event_label \<Rightarrow> event_state \<Rightarrow> bool" for cap where
  t_closed: "at_trigger s i TOut \<Longrightarrow> se_pipe0 (ev_e s) = socket_invalid \<Longrightarrow> event_step cap s (Return i) s"
| t_call: "at_trigger s i TOut \<Longrightarrow> se_pipe0 (ev_e s) \<noteq> socket_invalid \<Longrightarrow>
     event_step cap s (Call i) (set_trigger s i TEntered)"
| t_load: "at_trigger s i TEntered \<Longrightarrow> event_step cap s Inside (set_trigger s i (TLoaded (se_e (ev_e s))))"
| t_return: "at_trigger s i (TLoaded v) \<Longrightarrow> v \<noteq> 0 \<Longrightarrow> event_step cap s (Return i) (set_trigger s i TOut)"
| t_store: "at_trigger s i (TLoaded v) \<Longrightarrow> v = 0 \<Longrightarrow>
     event_step cap s Inside ((set_trigger s i TStored)\<lparr>ev_e := (ev_e s)\<lparr>se_e := 1\<rparr>\<rparr>)"
| t_send: "at_trigger s i TStored \<Longrightarrow> ev_bytes s < cap \<Longrightarrow>
     event_step cap s (Return i) ((set_trigger s i TOut)\<lparr>ev_bytes := ev_bytes s + 1\<rparr>)"
| t_send_full: "at_trigger s i TStored \<Longrightarrow> cap \<le> ev_bytes s \<Longrightarrow> event_step cap s (Return i) (set_trigger s i TOut)"
| w_enter: "ev_waiter s = WOut \<Longrightarrow> event_step cap s Inside (s\<lparr>ev_waiter := WRecv\<rparr>)"
| w_recv: "ev_waiter s = WRecv \<Longrightarrow> 0 < ev_bytes s \<Longrightarrow>
     event_step cap s Inside (s\<lparr>ev_waiter := WGot, ev_bytes := ev_bytes s - min 128 (ev_bytes s)\<rparr>)"
| w_interrupted: "ev_waiter s = WRecv \<Longrightarrow> event_step cap s Inside (s\<lparr>ev_waiter := WGot\<rparr>)"
| w_clear: "ev_waiter s = WGot \<Longrightarrow>
     event_step cap s Wait_return (s\<lparr>ev_waiter := WOut, ev_e := (ev_e s)\<lparr>se_e := 0\<rparr>\<rparr>)"

inductive_cases event_stepE: "event_step cap s l s'"

text \<open>A run and its labels, from an event that was just opened.\<close>

definition event_start :: "event_state \<Rightarrow> bool" where
  "event_start s \<longleftrightarrow> (\<exists>os closed closed'. sockevent_open os sockevent_init closed = (0, ev_e s, closed'))
     \<and> ev_bytes s \<le> 1 \<and> set (ev_triggers s) \<subseteq> {TOut} \<and> ev_waiter s = WOut"

inductive event_run :: "nat \<Rightarrow> event_state \<Rightarrow> event_label list \<Rightarrow> event_state \<Rightarrow> bool" for cap s0 where
  run_nil: "event_run cap s0 [] s0"
| run_snoc: "event_run cap s0 ls s \<Longrightarrow> event_step cap s l s' \<Longrightarrow> event_run cap s0 (ls @ [l]) s'"

text \<open>A run of one trigger alone is \<open>sockevent_trigger\<close>.\<close>

lemma trigger_uninterrupted:
  assumes "at_trigger s i TOut"
  shows "\<exists>ls s'. event_run cap s ls s' \<and> ev_e s' = fst (sockevent_trigger (ev_e s)) \<and> ev_triggers s' = ev_triggers s
    \<and> ev_waiter s' = ev_waiter s \<and> ev_bytes s' = (if ev_bytes s < cap then ev_bytes s + snd (sockevent_trigger (ev_e s)) else ev_bytes s)"
proof -
  have i: "i < length (ev_triggers s)" "(ev_triggers s)[i := TOut] = ev_triggers s"
    using assms by (simp_all add: at_trigger_def list_update_same_conv)
  define s1 where "s1 = set_trigger s i TEntered"
  define s2 where "s2 = set_trigger s1 i (TLoaded (se_e (ev_e s)))"
  define s3 where "s3 = (set_trigger s2 i TStored)\<lparr>ev_e := (ev_e s)\<lparr>se_e := 1\<rparr>\<rparr>"
  note defs = s1_def s2_def s3_def set_trigger_def at_trigger_def
  have at: "at_trigger s1 i TEntered" "at_trigger s2 i (TLoaded (se_e (ev_e s)))" "at_trigger s3 i TStored"
    using i by (simp_all add: defs)
  have ends: ?thesis if "event_run cap s ls s'" and "ev_e s' = fst (sockevent_trigger (ev_e s))"
    and "ev_triggers s' = ev_triggers s" and "ev_waiter s' = ev_waiter s"
    and "ev_bytes s' = (if ev_bytes s < cap then ev_bytes s + snd (sockevent_trigger (ev_e s)) else ev_bytes s)" for ls s'
    using that by blast
  show ?thesis
  proof (cases "se_pipe0 (ev_e s) = socket_invalid")
    case True
    then show ?thesis by (intro ends [OF run_nil]) (simp_all add: sockevent_trigger_def)
  next
    case False
    have r1: "event_run cap s ([] @ [Call i]) s1"
      unfolding s1_def by (rule run_snoc [OF run_nil t_call [OF assms False]])
    have "event_step cap s1 Inside s2" using t_load [OF at(1), of cap] by (simp add: defs)
    with r1 have r2: "event_run cap s (([] @ [Call i]) @ [Inside]) s2" by (rule run_snoc)
    show ?thesis
    proof (cases "se_e (ev_e s) = 0")
      case f: False
      show ?thesis using False f i
        by (intro ends [OF run_snoc [OF r2 t_return [OF at(2) f]]]) (simp_all add: defs sockevent_trigger_def)
    next
      case z: True
      have "event_step cap s2 Inside s3" using t_store [OF at(2) z, of cap] by (simp add: defs)
      with r2 have r3: "event_run cap s ((([] @ [Call i]) @ [Inside]) @ [Inside]) s3" by (rule run_snoc)
      have b: "ev_bytes s3 = ev_bytes s" by (simp add: defs)
      show ?thesis
      proof (cases "ev_bytes s < cap")
        case True
        then have "ev_bytes s3 < cap" using b by simp
        from r3 t_send [OF at(3) this] have r4: "event_run cap s
            (((([] @ [Call i]) @ [Inside]) @ [Inside]) @ [Return i]) ((set_trigger s3 i TOut)\<lparr>ev_bytes := ev_bytes s3 + 1\<rparr>)"
          by (rule run_snoc)
        show ?thesis using True False z i
          by (intro ends [OF r4]) (simp_all add: defs sockevent_trigger_def)
      next
        case full: False
        then have "cap \<le> ev_bytes s3" using b by simp
        from r3 t_send_full [OF at(3) this] have r4: "event_run cap s
            (((([] @ [Call i]) @ [Inside]) @ [Inside]) @ [Return i]) (set_trigger s3 i TOut)"
          by (rule run_snoc)
        show ?thesis using full False z i
          by (intro ends [OF r4]) (simp_all add: defs sockevent_trigger_def)
      qed
    qed
  qed
qed

text \<open>Something that will make, or has made, the waiter return.\<close>

definition wake_pending :: "event_state \<Rightarrow> bool" where
  "wake_pending s \<longleftrightarrow> 0 < ev_bytes s \<or> ev_waiter s = WGot \<or> TStored \<in> set (ev_triggers s)"

lemma TStored_kept:
  "i < length ts \<Longrightarrow> ts ! i \<noteq> TStored \<Longrightarrow> TStored \<in> set ts \<Longrightarrow> TStored \<in> set (ts[i := x])"
  by (metis in_set_conv_nth length_list_update nth_list_update_neq)

lemma wake_step:
  assumes "event_step cap s l s'" and "0 < cap" and "l \<noteq> Wait_return" and "wake_pending s"
  shows "wake_pending s'"
  using assms
  by (cases rule: event_step.cases)
    (auto simp: wake_pending_def set_trigger_def at_trigger_def TStored_kept set_update_memI)

text \<open>The flag is set only while that is so.\<close>

lemma flag_step:
  assumes "event_step cap s l s'" and "0 < cap" and "se_e (ev_e s) \<noteq> 0 \<longrightarrow> wake_pending s"
  shows "se_e (ev_e s') \<noteq> 0 \<longrightarrow> wake_pending s'"
proof (cases "l = Wait_return")
  case True
  then show ?thesis using assms(1) by (auto elim: event_stepE)
next
  case False
  have "wake_pending s'" if "se_e (ev_e s') \<noteq> 0" "se_e (ev_e s) = 0"
    using assms(1) that
    by (cases rule: event_step.cases) (auto simp: wake_pending_def set_trigger_def at_trigger_def set_update_memI)
  then show ?thesis using wake_step [OF assms(1,2) False] assms(3) by blast
qed

lemma open_flag: "sockevent_open os sockevent_init closed = (0, e, closed') \<Longrightarrow> se_e e = 0"
  by (auto simp: sockevent_open_def open_error_def sockevent_init_def Let_def split: if_splits prod.splits)

lemma flag_run:
  assumes "event_run cap s0 ls s" and "event_start s0" and "0 < cap"
  shows "se_e (ev_e s) \<noteq> 0 \<longrightarrow> wake_pending s"
  using assms
proof (induction rule: event_run.induct)
  case run_nil
  then obtain os closed closed' where "sockevent_open os sockevent_init closed = (0, ev_e s0, closed')"
    by (auto simp: event_start_def)
  from open_flag [OF this] have "se_e (ev_e s0) = 0" .
  then show ?case by simp
next
  case (run_snoc ls s l s')
  from flag_step [OF run_snoc(2) run_snoc(5)] run_snoc(3,4,5) show ?case by blast
qed

text \<open>A call under way that has not yet found the flag, or all is set for the waiter.\<close>

definition served :: "nat \<Rightarrow> event_label list \<Rightarrow> event_state \<Rightarrow> bool" where
  "served i bs s \<longleftrightarrow> wake_pending s
     \<or> (at_trigger s i TEntered \<or> at_trigger s i (TLoaded 0)) \<and> Return i \<notin> set bs"

lemma served_step:
  assumes "event_step cap s l s'" and "0 < cap" and "l \<noteq> Wait_return"
    and "se_e (ev_e s) \<noteq> 0 \<longrightarrow> wake_pending s" and "served i bs s"
  shows "served i (bs @ [l]) s'"
proof (cases "wake_pending s")
  case True
  then show ?thesis using wake_step [OF assms(1-3)] by (simp add: served_def)
next
  case False
  then have "at_trigger s i TEntered \<or> at_trigger s i (TLoaded 0)" "Return i \<notin> set bs" "se_e (ev_e s) = 0"
    using assms(4,5) by (auto simp: served_def)
  with assms(1,3) False show ?thesis
    by (cases rule: event_step.cases)
      (auto simp: served_def wake_pending_def set_trigger_def at_trigger_def nth_list_update set_update_memI)
qed

lemma served_run:
  assumes "event_run cap s0 ls s" and "event_start s0" and "0 < cap"
    and "ls = as @ Call i # bs" and "Wait_return \<notin> set bs"
  shows "served i bs s"
  using assms
proof (induction arbitrary: bs rule: event_run.induct)
  case run_nil
  then show ?case by simp
next
  case (run_snoc ls s l s')
  show ?case
  proof (cases bs rule: rev_cases)
    case Nil
    then have "event_step cap s (Call i) s'" using run_snoc.hyps(2) run_snoc.prems(3) by simp
    then show ?thesis by (cases rule: event_step.cases) (auto simp: Nil served_def at_trigger_def set_trigger_def)
  next
    case (snoc cs x)
    then have "ls = as @ Call i # cs" "x = l" using run_snoc.prems(3) by simp_all
    with run_snoc.IH [of cs] run_snoc.prems snoc have "served i cs s" "l \<noteq> Wait_return" by auto
    from served_step [OF run_snoc.hyps(2) run_snoc.prems(2) this(2) flag_run [OF run_snoc.hyps(1) run_snoc.prems(1,2)] this(1)]
    show ?thesis using snoc \<open>x = l\<close> by simp
  qed
qed

section \<open>Properties\<close>

text \<open>
  C24: no trigger is lost. Take any interleaving of calls of \<open>sockevent_trigger\<close> by any number of
  threads with the waiter, on an open event, where a \<open>send\<close> fails only if the connection is full. If
  a call of \<open>sockevent_trigger\<close> began after the last return of \<open>sockevent_wait\<close> and has returned, then
  there is a byte to receive, or the waiter is back from \<open>recv\<close> already, or another thread inside
  \<open>sockevent_trigger\<close> has stored the flag and is about to send; so when no other thread is inside, a
  waiter in \<open>recv\<close> can proceed.
\<close>

theorem no_trigger_lost:
  assumes "event_start s0" and "0 < cap" and "event_run cap s0 (as @ Call i # bs) s"
    and "Return i \<in> set bs" and "Wait_return \<notin> set bs"
  shows "(0 < ev_bytes s \<or> ev_waiter s = WGot \<or> TStored \<in> set (ev_triggers s))
    \<and> (ev_waiter s = WRecv \<and> TStored \<notin> set (ev_triggers s) \<longrightarrow>
         (\<exists>s'. event_step cap s Inside s' \<and> ev_waiter s' = WGot \<and> ev_bytes s' < ev_bytes s))"
proof -
  have w: "0 < ev_bytes s \<or> ev_waiter s = WGot \<or> TStored \<in> set (ev_triggers s)"
    using served_run [OF assms(3,1,2) refl assms(5)] assms(4) by (auto simp: served_def wake_pending_def)
  moreover have "\<exists>s'. event_step cap s Inside s' \<and> ev_waiter s' = WGot \<and> ev_bytes s' < ev_bytes s"
    if "ev_waiter s = WRecv" "0 < ev_bytes s"
    using w_recv [OF that, of cap] that(2)
    by (intro exI [of _ "s\<lparr>ev_waiter := WGot, ev_bytes := ev_bytes s - min 128 (ev_bytes s)\<rparr>"]) simp
  ultimately show ?thesis by auto
qed

text \<open>Two threads and a waiter in \<open>recv\<close> that has taken the byte of \<open>sockevent_open\<close> before.\<close>

theorem no_trigger_lost_witness:
  "\<exists>s0 s bs. event_run 2 s0 ([] @ Call 0 # bs) s \<and> ev_waiter s = WRecv
    \<and> (0 < ev_bytes s \<or> ev_waiter s = WGot \<or> TStored \<in> set (ev_triggers s))"
proof -
  define e where "e = \<lparr>se_pipe0 = 5, se_pipe1 = 4, se_e = 0\<rparr>"
  define s0 where "s0 = \<lparr>ev_e = e, ev_bytes = 0, ev_triggers = [TOut, TOut], ev_waiter = WOut\<rparr>"
  have open_e: "sockevent_open \<lparr>oa_fd = 3, oa_bind = True, oa_name = True, oa_listen = True, oa_pipe1 = 4,
      oa_nonblock = True, oa_accept = 5\<rparr> sockevent_init [] = (0, e, [3])"
    by (simp add: sockevent_open_def sockevent_init_def Let_def e_def)
  have start: "event_start s0" unfolding event_start_def using open_e by (simp add: s0_def) blast
  define s1 where "s1 = set_trigger s0 0 TEntered"
  define s2 where "s2 = set_trigger s1 0 (TLoaded 0)"
  define s3 where "s3 = (set_trigger s2 0 TStored)\<lparr>ev_e := e\<lparr>se_e := 1\<rparr>\<rparr>"
  define s4 where "s4 = (set_trigger s3 0 TOut)\<lparr>ev_bytes := 0 + 1\<rparr>"
  define s5 where "s5 = s4\<lparr>ev_waiter := WRecv\<rparr>"
  note defs = s0_def s1_def s2_def s3_def s4_def s5_def e_def set_trigger_def at_trigger_def
  have "event_step 2 s0 (Call 0) s1" unfolding s1_def by (rule t_call) (simp_all add: defs)
  moreover have "event_step 2 s1 Inside s2" using t_load [of s1 0 2] by (simp add: defs)
  moreover have "event_step 2 s2 Inside s3" using t_store [of s2 0 0 2] by (simp add: defs)
  moreover have "event_step 2 s3 (Return 0) s4" using t_send [of s3 0 2] by (simp add: defs)
  moreover have "event_step 2 s4 Inside s5" using w_enter [of s4 2] by (simp add: defs)
  ultimately have "event_run 2 s0 ((((([] @ [Call 0]) @ [Inside]) @ [Inside]) @ [Return 0]) @ [Inside]) s5"
    by (intro run_snoc [where s = s4] run_snoc [where s = s3] run_snoc [where s = s2] run_snoc [where s = s1]
        run_snoc [where s = s0] run_nil)
  then have run: "event_run 2 s0 ([] @ Call 0 # [Inside, Inside, Return 0, Inside]) s5" by simp
  from no_trigger_lost [OF start _ run] run show ?thesis
    by (intro exI [of _ s0] exI [of _ s5] exI [of _ "[Inside, Inside, Return 0, Inside]"]) (simp add: defs)
qed



text \<open>A failed \<open>bind\<close> leaves the listening socket open and unreferenced.\<close>

lemma open_failure_leaks_fd:
  "sockevent_open \<lparr>oa_fd = 3, oa_bind = False, oa_name = True, oa_listen = True, oa_pipe1 = 4,
      oa_nonblock = True, oa_accept = 5\<rparr> sockevent_init [] = (-1, sockevent_init, [])"
  by (simp add: sockevent_open_def sockevent_init_def open_error_def sockevent_close_def Let_def)

end
