(* ===== verification/ServicePool.thy ===== *)
theory ServicePool
  imports Service "HOL-Library.Multiset"
begin

text \<open>
  What keeps the service pool correct: its well-formedness \<open>pool_wf\<close>, the table contract
  that \<open>get_service\<close> / \<open>upd_service\<close> provide to every other operation and to the
  scheduler, the behaviour of \<open>service_new\<close>, and the account of the messages a pool holds.
\<close>

section \<open>Well-formed pools\<close>

definition service_wf :: "service \<Rightarrow> bool" where
  "service_wf S \<longleftrightarrow>
     (case s_msg S of None \<Rightarrow> True | Some q \<Rightarrow> queue_wf q)
     \<and> (s_L S \<noteq> 0 \<longrightarrow> s_msg S \<noteq> None \<and> s_stat S \<noteq> None)
     \<and> (s_status S \<notin> {SERVICE_STATUS_UNINITIALIZED, SERVICE_STATUS_DEAD} \<longrightarrow> s_msg S \<noteq> None)
     \<and> (s_receipt S = MESSAGE_RECEIPT_NONE \<longrightarrow> s_bounce S = None)"

definition pool_wf :: "service_pool \<Rightarrow> bool" where
  "pool_wf p \<longleftrightarrow>
     (\<exists>k \<le> 30. p_mask p = 2 ^ k - 1) \<and> length (p_s p) = nat (p_mask p + 1)
     \<and> (\<exists>j. p_queue_length p = 2 ^ j)
     \<and> (\<forall>n < length (p_s p). case p_s p ! n of None \<Rightarrow> True
          | Some S \<Rightarrow> s_id S \<noteq> 0 \<and> service_slot p (s_id S) = n \<and> service_wf S)"

lemma pool_wfE:
  assumes "pool_wf p"
  obtains k where "k \<le> 30" "p_mask p = 2 ^ k - 1" "length (p_s p) = 2 ^ k"
  using assms by (auto simp: pool_wf_def nat_power_eq)

lemma service_slot_mod:
  assumes "p_mask p = 2 ^ k - 1"
  shows "service_slot p i = unat i mod 2 ^ k"
proof -
  have "word_of_int (p_mask p) = (2 ^ k - 1 :: u32)" by (simp add: assms)
  then show ?thesis by (simp only: service_slot_def unat_and_mask)
qed

lemma service_slot_bound: "pool_wf p \<Longrightarrow> service_slot p i < length (p_s p)"
  by (erule pool_wfE) (simp add: service_slot_mod)

lemma get_service_id: "get_service p i = Some S \<Longrightarrow> s_id S = i"
  by (auto simp: get_service_def split: option.splits if_splits)

lemma get_service_slot: "get_service p i = Some S \<Longrightarrow> p_s p ! service_slot p i = Some S"
  by (auto simp: get_service_def slot_ref_def split: option.splits if_splits)

lemma get_service_wf:
  assumes "pool_wf p" and "get_service p i = Some S"
  shows "service_wf S" and "i \<noteq> 0"
  using assms service_slot_bound [OF assms(1), of i] get_service_slot [OF assms(2)]
    get_service_id [OF assms(2)] by (auto simp: pool_wf_def)

lemma slot_occupant:
  assumes "pool_wf p" and "n < length (p_s p)" and "p_s p ! n = Some S"
  shows "get_service p (s_id S) = Some S" and "service_slot p (s_id S) = n"
  using assms by (auto simp: pool_wf_def get_service_def slot_ref_def)

lemma get_service_zero: "pool_wf p \<Longrightarrow> get_service p 0 = None"
  using get_service_wf(2) by (cases "get_service p 0") auto

section \<open>The table contract\<close>

text \<open>
  An update \<open>f\<close> is admissible when it keeps the key and the record's own invariant. Under
  it the update changes the entry it names and no other, and keeps the table well-formed.
\<close>

locale service_table =
  fixes inv :: "'p \<Rightarrow> bool"
    and get :: "'p \<Rightarrow> 'i \<Rightarrow> 's option"
    and upd :: "'p \<Rightarrow> 'i \<Rightarrow> ('s \<Rightarrow> 's) \<Rightarrow> 'p"
    and keeps :: "('s \<Rightarrow> 's) \<Rightarrow> bool"
  assumes get_upd: "inv p \<Longrightarrow> keeps f \<Longrightarrow>
      get (upd p i f) j = (if j = i then map_option f (get p i) else get p j)"
    and inv_upd: "inv p \<Longrightarrow> keeps f \<Longrightarrow> inv (upd p i f)"
begin

lemma present_upd: "inv p \<Longrightarrow> keeps f \<Longrightarrow> get (upd p i f) j = None \<longleftrightarrow> get p j = None"
  by (simp add: get_upd)

lemma field_upd:
  "inv p \<Longrightarrow> keeps f \<Longrightarrow>
     (case get (upd p i f) j of None \<Rightarrow> d | Some S \<Rightarrow> fld S) =
     (if j = i then (case get p i of None \<Rightarrow> d | Some S \<Rightarrow> fld (f S))
      else (case get p j of None \<Rightarrow> d | Some S \<Rightarrow> fld S))"
  by (auto simp: get_upd split: option.splits)

lemma field_frame:
  "inv p \<Longrightarrow> keeps f \<Longrightarrow> (\<And>S. fld (f S) = fld S) \<Longrightarrow>
     (case get (upd p i f) j of None \<Rightarrow> d | Some S \<Rightarrow> fld S) =
     (case get p j of None \<Rightarrow> d | Some S \<Rightarrow> fld S)"
  by (auto simp: get_upd split: option.splits)

lemma upd_twice:
  "inv p \<Longrightarrow> keeps f \<Longrightarrow> keeps g \<Longrightarrow>
     get (upd (upd p i f) i g) j = (if j = i then map_option (\<lambda>S. g (f S)) (get p i) else get p j)"
  by (simp add: get_upd inv_upd option.map_comp comp_def)

end

definition service_keeps :: "(service \<Rightarrow> service) \<Rightarrow> bool" where
  "service_keeps f \<longleftrightarrow> (\<forall>S. s_id (f S) = s_id S \<and> (service_wf S \<longrightarrow> service_wf (f S)))"

lemma upd_service_simps [simp]:
  "p_mask (upd_service p i f) = p_mask p"
  "p_queue_length (upd_service p i f) = p_queue_length p"
  "p_id (upd_service p i f) = p_id p"
  "p_malloc (upd_service p i f) = p_malloc p"
  "p_freed (upd_service p i f) = p_freed p"
  "p_closed (upd_service p i f) = p_closed p"
  "length (p_s (upd_service p i f)) = length (p_s p)"
  "service_slot (upd_service p i f) = service_slot p"
  by (auto simp: upd_service_def service_slot_def fun_eq_iff split: option.splits)

lemma get_service_upd:
  assumes wf: "pool_wf p" and key: "\<And>S. s_id (f S) = s_id S"
  shows "get_service (upd_service p i f) j =
    (if j = i then map_option f (get_service p i) else get_service p j)"
proof (cases "get_service p i")
  case None
  then show ?thesis by (simp add: upd_service_def)
next
  case (Some S)
  note at = get_service_slot [OF Some] and ident = get_service_id [OF Some]
  have slot: "slot_ref (upd_service p i f) j =
      (if service_slot p j = service_slot p i then Some (f S) else slot_ref p j)" for j
    using service_slot_bound [OF wf, of i] Some
    by (simp add: upd_service_def slot_ref_def service_slot_def nth_list_update)
  show ?thesis
  proof (cases "j = i")
    case True
    moreover have "get_service (upd_service p i f) i = Some (f S)"
      using ident by (simp add: get_service_def [of "upd_service p i f"] slot key)
    ultimately show ?thesis using Some by simp
  next
    case False
    have "slot_ref p j = Some S" if "service_slot p j = service_slot p i"
      using that at by (simp add: slot_ref_def)
    then show ?thesis using False ident by (auto simp: get_service_def slot key)
  qed
qed

lemma pool_wf_upd:
  assumes wf: "pool_wf p" and keeps: "\<And>S. get_service p i = Some S \<Longrightarrow> s_id (f S) = s_id S \<and> service_wf (f S)"
  shows "pool_wf (upd_service p i f)"
proof (cases "get_service p i")
  case None
  with wf show ?thesis by (simp add: upd_service_def)
next
  case (Some S)
  note ident = get_service_id [OF Some] and i0 = get_service_wf(2) [OF wf Some]
  have slot: "service_slot (upd_service p i f) = service_slot p" by simp
  have "p_s (upd_service p i f) = (p_s p)[service_slot p i := Some (f S)]"
    using Some by (simp add: upd_service_def)
  with wf keeps [OF Some] ident i0 service_slot_bound [OF wf, of i] show ?thesis
    unfolding pool_wf_def slot by (auto simp: nth_list_update split: option.splits)
qed

interpretation tab: service_table pool_wf get_service upd_service service_keeps
proof unfold_locales
  fix p f i j
  assume "pool_wf p" "service_keeps f"
  then show "get_service (upd_service p i f) j =
      (if j = i then map_option f (get_service p i) else get_service p j)"
    by (intro get_service_upd) (auto simp: service_keeps_def)
next
  fix p f i
  assume "pool_wf p" "service_keeps f"
  then show "pool_wf (upd_service p i f)"
    by (intro pool_wf_upd) (auto simp: service_keeps_def dest: get_service_wf)
qed

text \<open>The updates the operations make.\<close>

lemma service_keeps_fields [wf_intro]:
  "service_keeps (\<lambda>S. S\<lparr>s_out := v1\<rparr>)"
  "service_keeps (\<lambda>S. S\<lparr>s_bounce := None\<rparr>)"
  "v3 = MESSAGE_RECEIPT_NONE \<longrightarrow> v4 = None \<Longrightarrow>
     service_keeps (\<lambda>S. S\<lparr>s_receipt := v3, s_bounce := v4\<rparr>)"
  "service_keeps (\<lambda>S. S\<lparr>s_binding_thread := v5\<rparr>)"
  "service_keeps (\<lambda>S. S\<lparr>s_sockevent_id := v6\<rparr>)"
  "service_keeps (\<lambda>S. S\<lparr>s_label := v7\<rparr>)"
  "service_keeps (\<lambda>S. S\<lparr>s_clock := v8\<rparr>)"
  "service_keeps (\<lambda>S. S\<lparr>s_cpucost := s_cpucost S + v9\<rparr>)"
  "service_keeps (\<lambda>S. S\<lparr>s_stat := Some v10\<rparr>)"
  "service_keeps (\<lambda>S. S\<lparr>s_status := SERVICE_STATUS_DEAD\<rparr>)"
  "service_keeps (\<lambda>S. S\<lparr>s_L := 0, s_status := SERVICE_STATUS_DEAD\<rparr>)"
  by (auto simp: service_keeps_def service_wf_def)

lemma service_keeps_msg [wf_intro]:
  "queue_wf q \<Longrightarrow> service_keeps (\<lambda>S. S\<lparr>s_msg := Some q\<rparr>)"
  by (auto simp: service_keeps_def service_wf_def)

text \<open>Fields of the pool the table does not depend on.\<close>

lemma slot_ref_frame [simp]:
  "slot_ref (p\<lparr>p_malloc := a\<rparr>) = slot_ref p"
  "slot_ref (p\<lparr>p_id := d\<rparr>) = slot_ref p"
  "service_slot (p\<lparr>p_malloc := a\<rparr>) = service_slot p"
  "service_slot (p\<lparr>p_freed := b\<rparr>) = service_slot p"
  "service_slot (p\<lparr>p_closed := c\<rparr>) = service_slot p"
  "service_slot (p\<lparr>p_id := d\<rparr>) = service_slot p"
  by (auto simp: slot_ref_def service_slot_def fun_eq_iff)

lemma get_service_frame [simp]:
  "get_service (p\<lparr>p_malloc := a\<rparr>) = get_service p"
  "get_service (p\<lparr>p_freed := b\<rparr>) = get_service p"
  "get_service (p\<lparr>p_closed := c\<rparr>) = get_service p"
  "get_service (p\<lparr>p_id := d\<rparr>) = get_service p"
  by (auto simp: get_service_def slot_ref_def service_slot_def fun_eq_iff)

lemma pool_wf_frame [simp]:
  "pool_wf (p\<lparr>p_malloc := a\<rparr>) = pool_wf p"
  "pool_wf (p\<lparr>p_freed := b\<rparr>) = pool_wf p"
  "pool_wf (p\<lparr>p_closed := c\<rparr>) = pool_wf p"
  "pool_wf (p\<lparr>p_id := d\<rparr>) = pool_wf p"
  by (simp_all add: pool_wf_def cong: option.case_cong)

section \<open>Allocating an id\<close>

lemma place_service_get:
  assumes wf: "pool_wf p" and free: "slot_ref p i = None" and i: "i \<noteq> 0"
    and res: "place_service p i = (r, p')"
  shows "pool_wf p'" and "r = i \<or> r = 0"
    and "get_service p' j = (if j = i \<and> r = i then Some (fresh_service i) else get_service p j)"
proof -
  obtain ok mem where mal: "malloc (p_malloc p) = (ok, mem)" by fastforce
  have gone: "get_service p i = None" using free by (simp add: get_service_def)
  show "pool_wf p'" "r = i \<or> r = 0"
    "get_service p' j = (if j = i \<and> r = i then Some (fresh_service i) else get_service p j)"
  proof (atomize (full), cases ok)
    case False
    then show "pool_wf p' \<and> (r = i \<or> r = 0) \<and>
      get_service p' j = (if j = i \<and> r = i then Some (fresh_service i) else get_service p j)"
      using res i wf by (auto simp: place_service_def mal)
  next
    case True
    let ?q = "p\<lparr>p_malloc := mem, p_s := (p_s p)[service_slot p i := Some (fresh_service i)]\<rparr>"
    have p': "p' = ?q" "r = i" using res True by (auto simp: place_service_def mal Let_def)
    have slot: "service_slot ?q = service_slot p" by (simp add: service_slot_def fun_eq_iff)
    have "service_wf (fresh_service i)" by (simp add: service_wf_def fresh_service_def)
    then have "pool_wf ?q"
      using wf i service_slot_bound [OF wf, of i] unfolding pool_wf_def slot
      by (auto simp: nth_list_update fresh_service_def split: option.splits)
    moreover have "get_service ?q j = (if j = i then Some (fresh_service i) else get_service p j)"
    proof (cases "service_slot p j = service_slot p i")
      case True
      then have "slot_ref ?q j = Some (fresh_service i)"
        using service_slot_bound [OF wf, of i] by (simp add: slot_ref_def slot)
      moreover have "get_service p j = None"
        using True free by (simp add: get_service_def slot_ref_def)
      ultimately show ?thesis by (simp add: get_service_def fresh_service_def)
    next
      case False
      then have "slot_ref ?q j = slot_ref p j" by (simp add: slot_ref_def slot)
      then show ?thesis using False by (auto simp: get_service_def)
    qed
    ultimately show "pool_wf p' \<and> (r = i \<or> r = 0) \<and>
      get_service p' j = (if j = i \<and> r = i then Some (fresh_service i) else get_service p j)"
      by (simp add: p')
  qed
qed

text \<open>The search answers the first usable candidate, and none only if none of \<open>mask + 1\<close> is.\<close>

lemma new_scan_Some:
  "new_scan p i k = Some r \<Longrightarrow> r \<noteq> 0 \<and> slot_ref p r = None"
proof (induction p i k rule: new_scan.induct)
  case (1 p i k)
  show ?case
  proof (cases "i = 0 \<or> slot_ref p i \<noteq> None")
    case True
    with "1.prems" have "\<not> k + 1 > p_mask p" "new_scan p (i + 1) (k + 1) = Some r"
      by (simp_all add: new_scan.simps [of p i k] Let_def split: if_splits)
    then show ?thesis using "1.IH" [OF True refl refl] by blast
  next
    case False
    with "1.prems" show ?thesis by (simp add: new_scan.simps [of p i k])
  qed
qed

lemma new_scan_None:
  "new_scan p i k = None \<Longrightarrow> k \<le> p_mask p \<Longrightarrow>
     \<forall>n. int n \<le> p_mask p - k \<longrightarrow> i + of_nat n = 0 \<or> slot_ref p (i + of_nat n) \<noteq> None"
proof (induction p i k rule: new_scan.induct)
  case (1 p i k)
  from "1.prems" have occ: "i = 0 \<or> slot_ref p i \<noteq> None"
    by (subst (asm) new_scan.simps) (auto split: if_splits)
  show ?case
  proof (intro allI impI)
    fix n assume n: "int n \<le> p_mask p - k"
    show "i + of_nat n = 0 \<or> slot_ref p (i + of_nat n) \<noteq> None"
    proof (cases n)
      case 0
      with occ show ?thesis by simp
    next
      case (Suc m)
      with n have "\<not> k + 1 > p_mask p" "int m \<le> p_mask p - (k + 1)" by auto
      moreover from this "1.prems"(1) occ have "new_scan p (i + 1) (k + 1) = None"
        by (subst (asm) new_scan.simps) (auto simp: Let_def)
      ultimately have "i + 1 + of_nat m = 0 \<or> slot_ref p (i + 1 + of_nat m) \<noteq> None"
        using "1.IH" [OF occ refl refl] by auto
      then show ?thesis by (simp add: Suc add.assoc)
    qed
  qed
qed


lemma candidate_slot:
  assumes mask: "p_mask p = 2 ^ k - 1" and k: "k \<le> 30"
  shows "service_slot p (i + of_nat n) = (unat i + n) mod 2 ^ k"
proof -
  have dvd: "(2::nat) ^ k dvd 2 ^ 32" using k by (intro le_imp_power_dvd) simp
  have "unat (i + of_nat n) mod 2 ^ k = (unat i + n) mod 2 ^ 32 mod 2 ^ k"
    by (simp add: unat_word_ariths unat_of_nat mod_simps)
  also have "\<dots> = (unat i + n) mod 2 ^ k" using dvd by (rule mod_mod_cancel)
  finally show ?thesis by (simp add: service_slot_mod [OF mask])
qed

lemma service_new_result:
  assumes wf: "pool_wf p" and res: "service_new p sid = (r, p')"
  shows "pool_wf p'"
    and "r \<noteq> 0 \<Longrightarrow> get_service p r = None \<and> get_service p' r = Some (fresh_service r) \<and> (sid \<noteq> 0 \<longrightarrow> r = sid)"
    and "j \<noteq> r \<Longrightarrow> get_service p' j = get_service p j"
proof (atomize (full), cases "sid \<noteq> 0")
  case True
  show "pool_wf p' \<and> (r \<noteq> 0 \<longrightarrow> get_service p r = None \<and>
      get_service p' r = Some (fresh_service r) \<and> (sid \<noteq> 0 \<longrightarrow> r = sid)) \<and>
      (j \<noteq> r \<longrightarrow> get_service p' j = get_service p j)"
  proof (cases "slot_ref p sid")
    case None
    then have "place_service p sid = (r, p')" using True res by (simp add: service_new_def)
    from place_service_get [OF wf None True this] None show ?thesis
      by (auto simp: get_service_def)
  next
    case (Some S)
    then show ?thesis using True res wf by (simp add: service_new_def)
  qed
next
  case False
  show "pool_wf p' \<and> (r \<noteq> 0 \<longrightarrow> get_service p r = None \<and>
      get_service p' r = Some (fresh_service r) \<and> (sid \<noteq> 0 \<longrightarrow> r = sid)) \<and>
      (j \<noteq> r \<longrightarrow> get_service p' j = get_service p j)"
  proof (cases "new_scan p (p_id p) 0")
    case None
    then show ?thesis using False res wf by (simp add: service_new_def)
  next
    case (Some i)
    let ?q = "p\<lparr>p_id := i + 1\<rparr>"
    from new_scan_Some [OF Some] have i: "i \<noteq> 0" "slot_ref ?q i = None" by simp_all
    have "place_service ?q i = (r, p')" using False res Some by (simp add: service_new_def)
    from place_service_get [OF _ i(2,1) this] wf i(2) show ?thesis
      using False by (auto simp: get_service_def)
  qed
qed

section \<open>The messages a pool holds\<close>

definition opt_msgs :: "message option \<Rightarrow> message multiset" where
  "opt_msgs m = (case m of None \<Rightarrow> {#} | Some v \<Rightarrow> {#v#})"

lemma opt_msgs_simps [simp]: "opt_msgs None = {#}" "opt_msgs (Some m) = {#m#}"
  by (simp_all add: opt_msgs_def)

definition mailbox_list :: "message queue option \<Rightarrow> message list" where
  "mailbox_list mq = (case mq of None \<Rightarrow> [] | Some q \<Rightarrow> queue_list q)"

lemma mailbox_list_simps [simp]:
  "mailbox_list None = []" "mailbox_list (Some q) = queue_list q"
  by (simp_all add: mailbox_list_def)

definition service_msgs :: "service \<Rightarrow> message multiset" where
  "service_msgs S = mset (mailbox_list (s_msg S)) + opt_msgs (s_out S) + opt_msgs (s_bounce S)"

definition slot_msgs :: "service option \<Rightarrow> message multiset" where
  "slot_msgs s = (case s of None \<Rightarrow> {#} | Some S \<Rightarrow> service_msgs S)"

lemma slot_msgs_simps [simp]: "slot_msgs None = {#}" "slot_msgs (Some S) = service_msgs S"
  by (simp_all add: slot_msgs_def)

text \<open>All messages the pool accounts for: those its services hold and those it has released.\<close>

definition pool_msgs :: "service_pool \<Rightarrow> message multiset" where
  "pool_msgs p = sum_list (map slot_msgs (p_s p)) + mset (p_freed p)"

lemma sum_list_slot_update:
  "n < length xs \<Longrightarrow>
     sum_list (map g (xs[n := y])) + g (xs ! n) = sum_list (map g xs) + (g y :: 'a::comm_monoid_add)"
proof (induction xs arbitrary: n)
  case Nil
  then show ?case by simp
next
  case (Cons x xs)
  then show ?case
    by (cases n) (auto simp: ac_simps)
qed

lemma pool_msgs_upd:
  assumes wf: "pool_wf p" and S: "get_service p i = Some S"
  shows "pool_msgs (upd_service p i f) + service_msgs S = pool_msgs p + service_msgs (f S)"
proof -
  have "sum_list (map slot_msgs ((p_s p)[service_slot p i := Some (f S)])) + service_msgs S
      = sum_list (map slot_msgs (p_s p)) + service_msgs (f S)"
    using sum_list_slot_update [OF service_slot_bound [OF wf, of i], of slot_msgs "Some (f S)"]
      get_service_slot [OF S] by simp
  then show ?thesis by (simp add: pool_msgs_def upd_service_def S ac_simps)
qed

lemma pool_msgs_upd_same:
  assumes "pool_wf p" and "\<And>S. service_msgs (f S) = service_msgs S"
  shows "pool_msgs (upd_service p i f) = pool_msgs p"
proof (cases "get_service p i")
  case None
  then show ?thesis by (simp add: upd_service_def)
next
  case (Some S)
  from pool_msgs_upd [OF assms(1) Some, of f] assms(2) show ?thesis by simp
qed

lemma pool_msgs_frame [simp]:
  "pool_msgs (p\<lparr>p_malloc := a\<rparr>) = pool_msgs p"
  "pool_msgs (p\<lparr>p_closed := c\<rparr>) = pool_msgs p"
  "pool_msgs (p\<lparr>p_id := d\<rparr>) = pool_msgs p"
  by (auto simp: pool_msgs_def)

lemma pool_msgs_freed: "pool_msgs (p\<lparr>p_freed := message_delete m (p_freed p)\<rparr>) = pool_msgs p + opt_msgs m"
  by (cases m) (simp_all add: pool_msgs_def)

lemma upd_service_same:
  assumes "get_service p i = Some S" and "f S = S"
  shows "upd_service p i f = p"
proof -
  have "(p_s p)[service_slot p i := Some S] = p_s p"
    by (metis list_update_id get_service_slot [OF assms(1)])
  with assms show ?thesis by (simp add: upd_service_def)
qed

text \<open>A service with a mailbox: what every operation on messages finds.\<close>

lemma service_wf_mailbox: "service_wf S \<Longrightarrow> s_msg S = Some q \<Longrightarrow> queue_wf q"
  by (simp add: service_wf_def)

section \<open>The mailbox operations\<close>

lemma push_message_room:
  assumes wf: "pool_wf p" and S: "get_service p i = Some S" "s_status S \<noteq> SERVICE_STATUS_DEAD"
    and q: "s_msg S = Some q" and room: "queue_count q < queue_cap q"
  shows "service_push_message p i (Some m) =
    Some (0, upd_service p i (\<lambda>S. S\<lparr>s_msg := Some (ring_enq q m)\<rparr>))"
  using service_wf_mailbox [OF get_service_wf(1) [OF wf S(1)] q] S q room
  by (simp add: service_push_message_def queue_push_ptr_room)

lemma push_message_full:
  assumes wf: "pool_wf p" and S: "get_service p i = Some S" "s_status S \<noteq> SERVICE_STATUS_DEAD"
    and q: "s_msg S = Some q" and full: "\<not> queue_count q < queue_cap q"
  shows "service_push_message p i (Some m) = Some (1, p)"
  using service_wf_mailbox [OF get_service_wf(1) [OF wf S(1)] q] S q full
  by (simp add: service_push_message_def queue_push_ptr_full upd_service_same)

lemma push_message_dead:
  assumes "service_status_get p i = SERVICE_STATUS_DEAD"
  shows "service_push_message p i msg = Some (-1, p)"
  using assms by (auto simp: service_push_message_def service_status_get_def split: option.splits)

lemma push_message_cases:
  assumes wf: "pool_wf p"
    and ready: "\<And>S. get_service p i = Some S \<Longrightarrow> s_status S \<noteq> SERVICE_STATUS_UNINITIALIZED"
  obtains (stored) S q where "get_service p i = Some S" "s_status S \<noteq> SERVICE_STATUS_DEAD"
      "s_msg S = Some q" "queue_count q < queue_cap q" "queue_wf q"
      "service_push_message p i (Some m) =
         Some (0, upd_service p i (\<lambda>S. S\<lparr>s_msg := Some (ring_enq q m)\<rparr>))"
    | (blocked) S q where "get_service p i = Some S" "s_status S \<noteq> SERVICE_STATUS_DEAD"
      "s_msg S = Some q" "queue_count q = queue_cap q" "queue_wf q"
      "service_push_message p i (Some m) = Some (1, p)"
    | (gone) "service_status_get p i = SERVICE_STATUS_DEAD"
      "service_push_message p i (Some m) = Some (-1, p)"
proof (cases "service_status_get p i = SERVICE_STATUS_DEAD")
  case True
  then show ?thesis using gone push_message_dead by blast
next
  case False
  then obtain S where S: "get_service p i = Some S" "s_status S \<noteq> SERVICE_STATUS_DEAD"
    by (auto simp: service_status_get_def split: option.splits)
  from get_service_wf(1) [OF wf S(1)] ready [OF S(1)] S(2) obtain q
    where q: "s_msg S = Some q" "queue_wf q"
    by (auto simp: service_wf_def split: option.splits)
  show ?thesis
  proof (cases "queue_count q < queue_cap q")
    case True
    then show ?thesis using stored S q push_message_room [OF wf S q(1) True] by blast
  next
    case False
    then have "queue_count q = queue_cap q" using queue_count_le_cap [OF q(2)] by simp
    then show ?thesis using blocked S q push_message_full [OF wf S q(1) False] by blast
  qed
qed

lemma push_message_account:
  assumes wf: "pool_wf p" and res: "service_push_message p i (Some m) = Some (r, p')"
  shows "pool_wf p'" and "pool_msgs p' = pool_msgs p + (if r = 0 then {#m#} else {#})"
    and "r \<in> {0, 1, -1}"
proof (atomize (full), cases "service_status_get p i = SERVICE_STATUS_DEAD")
  case True
  then show "pool_wf p' \<and> pool_msgs p' = pool_msgs p + (if r = 0 then {#m#} else {#}) \<and> r \<in> {0, 1, -1}"
    using res wf by (simp add: push_message_dead)
next
  case False
  then obtain S where S: "get_service p i = Some S" "s_status S \<noteq> SERVICE_STATUS_DEAD"
    by (auto simp: service_status_get_def split: option.splits)
  with res obtain q where q: "s_msg S = Some q"
    by (auto simp: service_push_message_def split: option.splits)
  have qwf: "queue_wf q" using service_wf_mailbox [OF get_service_wf(1) [OF wf S(1)] q] .
  show "pool_wf p' \<and> pool_msgs p' = pool_msgs p + (if r = 0 then {#m#} else {#}) \<and> r \<in> {0, 1, -1}"
  proof (cases "queue_count q < queue_cap q")
    case True
    note enq = push_message_room [OF wf S q True, of m]
    have "service_msgs (S\<lparr>s_msg := Some (ring_enq q m)\<rparr>) = service_msgs S + {#m#}"
      by (simp add: service_msgs_def q ring_enq_list [OF qwf True])
    with pool_msgs_upd [OF wf S(1), of "\<lambda>S. S\<lparr>s_msg := Some (ring_enq q m)\<rparr>"]
    show ?thesis using res enq tab.inv_upd [OF wf service_keeps_msg [OF ring_enq_wf [OF qwf True]]]
      by (auto simp: ac_simps)
  next
    case False
    from push_message_full [OF wf S q this, of m] res wf show ?thesis by simp
  qed
qed

lemma message_out_account:
  assumes wf: "pool_wf p" and res: "service_message_out p i = (m, p')"
  shows "pool_wf p'" and "pool_msgs p = pool_msgs p' + opt_msgs m"
proof (atomize (full), cases "get_service p i")
  case None
  then show "pool_wf p' \<and> pool_msgs p = pool_msgs p' + opt_msgs m"
    using res wf by (simp add: service_message_out_def)
next
  case (Some S)
  let ?f = "\<lambda>S. S\<lparr>s_out := None\<rparr>"
  have split: "service_msgs S = service_msgs (?f S) + opt_msgs (s_out S)"
    by (simp add: service_msgs_def)
  show "pool_wf p' \<and> pool_msgs p = pool_msgs p' + opt_msgs m"
  proof (cases "s_out S")
    case None
    then show ?thesis using res wf Some by (simp add: service_message_out_def)
  next
    case (Some r)
    have "m = s_out S" "p' = upd_service p i ?f"
      using res \<open>get_service p i = Some S\<close> Some by (auto simp: service_message_out_def)
    with pool_msgs_upd [OF wf \<open>get_service p i = Some S\<close>, of ?f] split
    show ?thesis using tab.inv_upd [OF wf, of ?f] by (simp add: service_keeps_fields Some ac_simps)
  qed
qed

lemma write_receipt_account:
  assumes wf: "pool_wf p" and S: "get_service p i = Some S"
    and rb: "receipt = MESSAGE_RECEIPT_NONE \<longrightarrow> b = None"
    and res: "service_write_receipt p i receipt b = Some p'"
  shows "pool_wf p'" and "pool_msgs p' = pool_msgs p + opt_msgs b"
proof -
  let ?f = "\<lambda>S. S\<lparr>s_receipt := receipt, s_bounce := b\<rparr>"
  have swap: "service_msgs (?f S) + opt_msgs (s_bounce S) = service_msgs S + opt_msgs b"
    by (simp add: service_msgs_def)
  show "pool_wf p'"
    using wf S rb res by (auto simp: service_write_receipt_def Let_def intro!: tab.inv_upd service_keeps_fields split: if_splits)
  show "pool_msgs p' = pool_msgs p + opt_msgs b"
  proof (cases "s_receipt S = MESSAGE_RECEIPT_NONE")
    case True
    then have "s_bounce S = None" using get_service_wf(1) [OF wf S] by (simp add: service_wf_def)
    with swap pool_msgs_upd [OF wf S, of ?f] True S res show ?thesis
      by (auto simp: service_write_receipt_def)
  next
    case False
    let ?p1 = "p\<lparr>p_freed := message_delete (s_bounce S) (p_freed p)\<rparr>"
    have "pool_msgs (upd_service ?p1 i ?f) + service_msgs S
        = pool_msgs p + opt_msgs (s_bounce S) + service_msgs (?f S)"
      using pool_msgs_upd [of ?p1 i S ?f] wf S by (simp add: pool_msgs_freed)
    also have "\<dots> = pool_msgs p + (service_msgs (?f S) + opt_msgs (s_bounce S))"
      by (simp add: ac_simps)
    also have "\<dots> = pool_msgs p + opt_msgs b + service_msgs S"
      by (simp only: swap) (simp add: ac_simps)
    finally show ?thesis using False S res by (auto simp: service_write_receipt_def Let_def)
  qed
qed

lemma read_receipt_account:
  assumes wf: "pool_wf p" and res: "service_read_receipt p i = (m, r, p')"
  shows "pool_wf p'" and "pool_msgs p = pool_msgs p' + opt_msgs m"
proof (atomize (full), cases "get_service p i")
  case None
  then show "pool_wf p' \<and> pool_msgs p = pool_msgs p' + opt_msgs m"
    using res wf by (simp add: service_read_receipt_def)
next
  case (Some S)
  let ?f = "\<lambda>S. S\<lparr>s_receipt := MESSAGE_RECEIPT_NONE, s_bounce := None\<rparr>"
  have "service_msgs S = service_msgs (?f S) + opt_msgs (s_bounce S)"
    by (simp add: service_msgs_def)
  with pool_msgs_upd [OF wf Some, of ?f] res wf Some tab.inv_upd [OF wf, of ?f]
  show "pool_wf p' \<and> pool_msgs p = pool_msgs p' + opt_msgs m"
    by (auto simp: service_read_receipt_def service_keeps_fields ac_simps)
qed

lemma send_message_account:
  assumes wf: "pool_wf p" and res: "service_send_message p i m = (r, p')"
  shows "pool_wf p'" and "pool_msgs p' = pool_msgs p + (if r = 0 then opt_msgs m else {#})"
proof (atomize (full), cases "get_service p i")
  case None
  then show "pool_wf p' \<and> pool_msgs p' = pool_msgs p + (if r = 0 then opt_msgs m else {#})"
    using res wf by (auto simp: service_send_message_def)
next
  case (Some S)
  let ?f = "\<lambda>S. S\<lparr>s_out := m\<rparr>"
  show "pool_wf p' \<and> pool_msgs p' = pool_msgs p + (if r = 0 then opt_msgs m else {#})"
  proof (cases "s_out S")
    case None
    then have "service_msgs (?f S) = service_msgs S + opt_msgs m" by (simp add: service_msgs_def)
    with pool_msgs_upd [OF wf Some, of ?f] res wf Some None tab.inv_upd [OF wf, of ?f]
    show ?thesis by (auto simp: service_send_message_def service_keeps_fields ac_simps)
  next
    case (Some x)
    then show ?thesis using res wf \<open>get_service p i = Some S\<close>
      by (auto simp: service_send_message_def)
  qed
qed

lemma pop_message_account:
  assumes wf: "pool_wf p" and res: "service_pop_message p i = Some (m, p')"
  shows "pool_wf p'" and "pool_msgs p = pool_msgs p' + opt_msgs m"
proof (atomize (full), cases "get_service p i")
  case None
  then show "pool_wf p' \<and> pool_msgs p = pool_msgs p' + opt_msgs m"
    using res wf by (simp add: service_pop_message_def)
next
  case S: (Some S)
  show "pool_wf p' \<and> pool_msgs p = pool_msgs p' + opt_msgs m"
  proof (cases "s_bounce S")
    case (Some r)
    let ?f = "\<lambda>S. S\<lparr>s_bounce := None\<rparr>"
    have "service_msgs S = service_msgs (?f S) + {#r#}" by (simp add: service_msgs_def Some)
    moreover have "m = Some r" "p' = upd_service p i ?f"
      using res S Some by (auto simp: service_pop_message_def)
    ultimately show ?thesis
      using pool_msgs_upd [OF wf S, of ?f] tab.inv_upd [OF wf, of ?f]
      by (simp add: service_keeps_fields ac_simps)
  next
    case None
    with res S obtain q where q: "s_msg S = Some q"
      by (auto simp: service_pop_message_def split: option.splits)
    have qwf: "queue_wf q" using service_wf_mailbox [OF get_service_wf(1) [OF wf S] q] .
    show ?thesis
    proof (cases "queue_count q = 0")
      case True
      then have "p' = p" "m = None"
        using res S None q upd_service_same [OF S] by (auto simp: service_pop_message_def queue_pop_ptr_empty [OF qwf])
      then show ?thesis using wf by simp
    next
      case False
      let ?f = "\<lambda>S. S\<lparr>s_msg := Some (ring_deq q)\<rparr>"
      have m: "m = Some (hd (queue_list q))" "p' = upd_service p i ?f"
        using res S None q False by (auto simp: service_pop_message_def queue_pop_ptr_some [OF qwf])
      have "queue_list q = hd (queue_list q) # queue_list (ring_deq q)"
        using False by (simp add: ring_deq_list [OF qwf] queue_list_empty_iff)
      then have "mset (queue_list q) = {#hd (queue_list q)#} + mset (queue_list (ring_deq q))"
        by (metis add_mset_add_single mset.simps(2) union_commute)
      then have "service_msgs S = service_msgs (?f S) + opt_msgs m"
        by (simp add: service_msgs_def q m)
      with pool_msgs_upd [OF wf S, of ?f] m
        tab.inv_upd [OF wf service_keeps_msg [OF ring_deq_wf [OF qwf]], of i] False
      show ?thesis by (simp add: ac_simps)
    qed
  qed
qed

lemma send_signal_msgs:
  assumes wf: "pool_wf p"
  shows "pool_msgs (service_send_signal p i) = pool_msgs p +
    (if get_service p i = None then {#} else opt_msgs (fst (message_new (p_malloc p) (signal_message i))))"
proof (cases "get_service p i")
  case None
  then show ?thesis by (simp add: service_send_signal_def)
next
  case (Some S)
  obtain m mem where new: "message_new (p_malloc p) (signal_message i) = (m, mem)" by fastforce
  let ?f = "\<lambda>S. S\<lparr>s_out := m\<rparr>"
  let ?p1 = "p\<lparr>p_freed := message_delete (s_out S) (p_freed p), p_malloc := mem\<rparr>"
  have "?p1 = (p\<lparr>p_malloc := mem\<rparr>)\<lparr>p_freed := message_delete (s_out S) (p_freed (p\<lparr>p_malloc := mem\<rparr>))\<rparr>"
    by simp
  then have p1: "pool_msgs ?p1 = pool_msgs p + opt_msgs (s_out S)"
    by (simp only: pool_msgs_freed pool_msgs_frame)
  have "service_msgs (?f S) + opt_msgs (s_out S) = service_msgs S + opt_msgs m"
    by (simp add: service_msgs_def)
  then have "pool_msgs (upd_service ?p1 i ?f) + service_msgs S = pool_msgs p + opt_msgs m + service_msgs S"
    using pool_msgs_upd [of ?p1 i S ?f] wf Some p1 by (simp add: ac_simps)
  then show ?thesis using Some new by (simp add: service_send_signal_def)
qed

lemma send_signal_account:
  assumes wf: "pool_wf p"
  shows "pool_wf (service_send_signal p i)"
  using wf by (auto simp: service_send_signal_def Let_def intro!: tab.inv_upd service_keeps_fields
      split: option.splits prod.splits)

section \<open>Deleting a service\<close>

lemma queue_drain_all:
  "queue_wf q \<Longrightarrow> queue_count q < fuel \<Longrightarrow> \<exists>q'. queue_drain fuel q = Some (queue_list q, q')"
proof (induction fuel arbitrary: q)
  case 0
  then show ?case by simp
next
  case (Suc fuel)
  show ?case
  proof (cases "queue_count q = 0")
    case True
    then have "queue_list q = []" by (simp add: queue_list_empty_iff)
    then show ?thesis using Suc.prems True by (simp add: queue_pop_ptr_empty)
  next
    case False
    with Suc.prems have "queue_wf (ring_deq q)" "queue_count (ring_deq q) < fuel"
      by (auto simp: ring_deq_count ring_deq_wf)
    with Suc.IH obtain q' where "queue_drain fuel (ring_deq q) = Some (queue_list (ring_deq q), q')"
      by blast
    with Suc.prems False show ?thesis
      by (simp add: queue_pop_ptr_some ring_deq_list queue_list_empty_iff)
  qed
qed

lemma mailbox_drain_all: "service_wf S \<Longrightarrow> mailbox_drain (s_msg S) = Some (mailbox_list (s_msg S))"
proof (cases "s_msg S")
  case None
  then show ?thesis by (simp add: mailbox_drain_def)
next
  case (Some q)
  assume wf: "service_wf S"
  have q: "queue_wf q" using service_wf_mailbox [OF wf Some] .
  have "queue_count q < nat (q_size q) + 1" using queue_count_less [OF q] by simp
  from queue_drain_all [OF q this] Some show ?thesis by (auto simp: mailbox_drain_def)
qed

lemma fold_message_delete: "mset (fold (\<lambda>m. message_delete (Some m)) ms freed) = mset ms + mset freed"
  by (induction ms arbitrary: freed) auto

lemma free_service_spec:
  assumes "service_wf S"
  shows "\<exists>freed. free_service p S = Some (p\<lparr>p_freed := freed,
      p_closed := (if s_L S \<noteq> 0 then [s_L S] else []) @ p_closed p\<rparr>)
    \<and> mset freed = mset (p_freed p) + service_msgs S"
proof -
  have del: "mset (message_delete m f) = mset f + opt_msgs m" for m f by (cases m) auto
  let ?freed = "message_delete (s_bounce S) (message_delete (s_out S)
    (fold (\<lambda>m. message_delete (Some m)) (mailbox_list (s_msg S)) (p_freed p)))"
  have "mset ?freed = mset (p_freed p) + service_msgs S"
    by (simp add: del fold_message_delete service_msgs_def ac_simps)
  moreover have "free_service p S = Some (p\<lparr>p_freed := ?freed,
      p_closed := (if s_L S \<noteq> 0 then [s_L S] else []) @ p_closed p\<rparr>)"
    using mailbox_drain_all [OF assms] by (simp add: free_service_def Let_def)
  ultimately show ?thesis by blast
qed

lemma service_delete_spec:
  assumes wf: "pool_wf p"
  shows "\<exists>p'. service_delete p i = Some p' \<and> pool_wf p' \<and> pool_msgs p' = pool_msgs p
    \<and> get_service p' j = (if j = i then None else get_service p j)"
proof (cases "get_service p i")
  case None
  then show ?thesis using wf by (simp add: service_delete_def)
next
  case (Some S)
  let ?q = "p\<lparr>p_s := (p_s p)[service_slot p i := None]\<rparr>"
  from free_service_spec [OF get_service_wf(1) [OF wf Some], of ?q] obtain freed where
    free: "free_service ?q S = Some (?q\<lparr>p_freed := freed,
        p_closed := (if s_L S \<noteq> 0 then [s_L S] else []) @ p_closed ?q\<rparr>)"
      "mset freed = mset (p_freed p) + service_msgs S" by auto
  note at = get_service_slot [OF Some] and ident = get_service_id [OF Some]
  note bound = service_slot_bound [OF wf, of i]
  have slot: "service_slot ?q = service_slot p" by (simp add: service_slot_def fun_eq_iff)
  have wfq: "pool_wf ?q"
    using wf bound unfolding pool_wf_def slot
    by (auto simp: nth_list_update split: option.splits if_splits)
  have "sum_list (map slot_msgs (p_s ?q)) + service_msgs S = sum_list (map slot_msgs (p_s p))"
    using sum_list_slot_update [OF bound, of slot_msgs None] at by simp
  then have msgs: "pool_msgs (?q\<lparr>p_freed := freed\<rparr>) = pool_msgs p"
    by (simp add: pool_msgs_def free(2) ac_simps)
  have "slot_ref ?q j = (if service_slot p j = service_slot p i then None else slot_ref p j)"
    using bound by (simp add: slot_ref_def slot nth_list_update)
  then have "get_service ?q j = (if j = i then None else get_service p j)"
    using at ident by (auto simp: get_service_def slot_ref_def)
  with free(1) wfq msgs Some show ?thesis by (simp add: service_delete_def)
qed


section \<open>The remaining operations keep the pool well-formed and its account\<close>

definition has_mailbox :: "service_pool \<Rightarrow> service_id \<Rightarrow> bool" where
  "has_mailbox p i = (case get_service p i of None \<Rightarrow> True | Some S \<Rightarrow> s_msg S \<noteq> None)"

lemma status_set_wf:
  assumes wf: "pool_wf p"
    and st: "st \<in> {SERVICE_STATUS_UNINITIALIZED, SERVICE_STATUS_DEAD} \<or> has_mailbox p i"
  shows "pool_wf (service_status_set p i st)"
    and "pool_msgs (service_status_set p i st) = pool_msgs p"
proof -
  show "pool_wf (service_status_set p i st)"
    unfolding service_status_set_def
  proof (rule pool_wf_upd [OF wf])
    fix S assume S: "get_service p i = Some S"
    from get_service_wf(1) [OF wf S] st S
    show "s_id (S\<lparr>s_status := st\<rparr>) = s_id S \<and> service_wf (S\<lparr>s_status := st\<rparr>)"
      by (auto simp: service_wf_def has_mailbox_def split: option.splits)
  qed
  show "pool_msgs (service_status_set p i st) = pool_msgs p"
    using wf by (simp add: service_status_set_def pool_msgs_upd_same service_msgs_def)
qed

lemma close_account:
  assumes wf: "pool_wf p"
  shows "pool_wf (service_close p i)" and "pool_msgs (service_close p i) = pool_msgs p"
  using wf by (auto simp: service_close_def Let_def pool_msgs_upd_same service_msgs_def
      intro!: tab.inv_upd service_keeps_fields split: option.splits)

lemma loadstring_account:
  assumes wf: "pool_wf p" and res: "service_loadstring p i err = (r, p')"
  shows "pool_wf p'" and "pool_msgs p' = pool_msgs p"
proof (atomize (full), cases "get_service p i")
  case None
  then show "pool_wf p' \<and> pool_msgs p' = pool_msgs p"
    using res wf by (simp add: service_loadstring_def)
next
  case (Some S)
  have "pool_wf (upd_service p i (\<lambda>S. S\<lparr>s_status := st\<rparr>)) \<and>
      pool_msgs (upd_service p i (\<lambda>S. S\<lparr>s_status := st\<rparr>)) = pool_msgs p" if "s_L S \<noteq> 0" for st
    using status_set_wf [OF wf, of st i] get_service_wf(1) [OF wf Some] that
    by (auto simp: service_status_set_def has_mailbox_def Some service_wf_def)
  then show "pool_wf p' \<and> pool_msgs p' = pool_msgs p"
    using res wf Some by (auto simp: service_loadstring_def split: if_splits option.splits)
qed

lemma service_init_account:
  assumes wf: "pool_wf p" and res: "service_init p i vm = Some (r, p')"
    and bare: "\<And>S. get_service p i = Some S \<Longrightarrow> s_msg S = None"
  shows "pool_wf p' \<and> pool_msgs p' = pool_msgs p"
proof -
  from res obtain S where S: "get_service p i = Some S" "s_L S = 0"
    "s_status S = SERVICE_STATUS_UNINITIALIZED"
    by (auto simp: service_init_def split: option.splits)
  let ?p1 = "upd_service p i (\<lambda>S. S\<lparr>s_stat := Some zero_stat\<rparr>)"
  have p1: "pool_wf ?p1" "pool_msgs ?p1 = pool_msgs p"
    using wf by (auto intro!: tab.inv_upd service_keeps_fields pool_msgs_upd_same simp: service_msgs_def)
  show ?thesis
  proof (cases "vb_state vm = 0 \<or> \<not> vb_ok vm")
    case True
    then show ?thesis using res S p1 by (auto simp: service_init_def Let_def split: if_splits)
  next
    case False
    obtain ok mem where mal: "malloc (p_malloc p) = (ok, mem)" by fastforce
    from wf obtain j where j: "p_queue_length p = 2 ^ j" by (auto simp: pool_wf_def)
    define mq where "mq = (if ok then Some (empty_queue (2 ^ j)) else None :: message queue option)"
    have new: "queue_new_ptr ok (p_queue_length p) = Some mq"
      by (simp add: queue_new_ptr_def queue_new_def j ispow2_exp mq_def empty_queue_def)
    have qwf: "case mq of None \<Rightarrow> True | Some q \<Rightarrow> queue_wf q"
      by (simp add: mq_def empty_queue_wf)
    let ?p2 = "?p1\<lparr>p_malloc := mem\<rparr>"
    let ?f = "\<lambda>S. S\<lparr>s_msg := mq\<rparr>" and ?g = "\<lambda>S. S\<lparr>s_L := vb_state vm, s_rL := vb_thread vm\<rparr>"
    let ?S1 = "S\<lparr>s_stat := Some zero_stat\<rparr>"
    let ?p3 = "upd_service ?p2 i ?f"
    have g1: "get_service ?p2 i = Some ?S1"
      using S wf by (simp add: tab.get_upd service_keeps_fields)
    have p2: "pool_wf ?p2" "pool_msgs ?p2 = pool_msgs p" using p1 by simp_all
    note Swf = get_service_wf(1) [OF wf S(1)] and none = bare [OF S(1)]
    have S2wf: "service_wf (?f ?S1)" using Swf S qwf by (auto simp: service_wf_def)
    have p3: "pool_wf ?p3" "get_service ?p3 i = Some (?f ?S1)"
      using pool_wf_upd [OF p2(1), of i ?f] g1 S2wf get_service_upd [OF p2(1), of ?f i i] by auto
    have "service_msgs (?f ?S1) = service_msgs ?S1" using none by (simp add: service_msgs_def mq_def)
    then have m3: "pool_msgs ?p3 = pool_msgs p"
      using pool_msgs_upd [OF p2(1) g1, of ?f] p2(2) by simp
    have p4: "pool_wf (upd_service ?p3 i ?g)" if "mq \<noteq> None"
      using pool_wf_upd [OF p3(1), of i ?g] p3(2) S2wf that by (auto simp: service_wf_def)
    have m4: "pool_msgs (upd_service ?p3 i ?g) = pool_msgs p"
      using pool_msgs_upd_same [OF p3(1), of ?g i] m3 by (simp add: service_msgs_def)
    have "service_init p i vm = (if mq = None
        then Some (1, ?p3\<lparr>p_closed := vb_state vm # p_closed ?p3\<rparr>)
        else Some (0, upd_service ?p3 i ?g))"
      using False S by (simp add: service_init_def mal new Let_def)
    then show ?thesis using res p3(1) m3 p4 m4 by (auto split: if_splits)
  qed
qed

end
