(* ===== verification/PoolHistory.thy ===== *)
theory PoolHistory
  imports ServicePool
begin

text \<open>
  Histories of calls into the service pool. \<open>pool_step\<close> runs one call of the interface of
  \<open>service.h\<close> and says which messages it was given and which it handed out;
  \<open>pool_call_ok\<close> is what the callers owe (the comments of \<open>service.h\<close> and the asserts of
  \<open>service.c\<close>). Along any history that keeps to it the pool stays well-formed, and every
  message and every Lua state is accounted for exactly once.
\<close>

section \<open>Calls\<close>

datatype pool_call =
    Call_new service_id
  | Call_init service_id vm_boot
  | Call_loadstring service_id "string option"
  | Call_push service_id message
  | Call_out service_id
  | Call_send service_id "message option"
  | Call_write_receipt service_id int "message option"
  | Call_read_receipt service_id
  | Call_pop service_id
  | Call_send_signal service_id
  | Call_status_set service_id int
  | Call_binding_set service_id int
  | Call_sockevent_init service_id int
  | Call_setlabel service_id string
  | Call_close service_id
  | Call_delete service_id

definition opt_list :: "'a option \<Rightarrow> 'a list" where
  "opt_list x = (case x of None \<Rightarrow> [] | Some v \<Rightarrow> [v])"

text \<open>
  The message \<open>service_send_signal\<close> creates, if there is a service to send it and memory
  for it.
\<close>

definition signal_created :: "service_pool \<Rightarrow> service_id \<Rightarrow> message option" where
  "signal_created p i =
     (if get_service p i = None then None else fst (message_new (p_malloc p) (signal_message i)))"

text \<open>The answer is the messages taken over by the pool, those handed out, and the pool.\<close>

fun pool_step :: "pool_call \<Rightarrow> service_pool \<Rightarrow> (message list \<times> message list \<times> service_pool) option" where
  "pool_step (Call_new sid) p = Some ([], [], snd (service_new p sid))"
| "pool_step (Call_init i vm) p = map_option (\<lambda>(r, p'). ([], [], p')) (service_init p i vm)"
| "pool_step (Call_loadstring i err) p = Some ([], [], snd (service_loadstring p i err))"
| "pool_step (Call_push i m) p =
     map_option (\<lambda>(r, p'). (if r = 0 then [m] else [], [], p')) (service_push_message p i (Some m))"
| "pool_step (Call_out i) p = (case service_message_out p i of (m, p') \<Rightarrow> Some ([], opt_list m, p'))"
| "pool_step (Call_send i m) p =
     (case service_send_message p i m of (r, p') \<Rightarrow> Some (if r = 0 then opt_list m else [], [], p'))"
| "pool_step (Call_write_receipt i r b) p =
     map_option (\<lambda>p'. (opt_list b, [], p')) (service_write_receipt p i r b)"
| "pool_step (Call_read_receipt i) p =
     (case service_read_receipt p i of (m, r, p') \<Rightarrow> Some ([], opt_list m, p'))"
| "pool_step (Call_pop i) p = map_option (\<lambda>(m, p'). ([], opt_list m, p')) (service_pop_message p i)"
| "pool_step (Call_send_signal i) p = Some (opt_list (signal_created p i), [], service_send_signal p i)"
| "pool_step (Call_status_set i st) p = Some ([], [], service_status_set p i st)"
| "pool_step (Call_binding_set i w) p = Some ([], [], service_binding_set p i w)"
| "pool_step (Call_sockevent_init i n) p = Some ([], [], service_sockevent_init p i n)"
| "pool_step (Call_setlabel i l) p = Some ([], [], snd (service_setlabel p i l))"
| "pool_step (Call_close i) p = Some ([], [], service_close p i)"
| "pool_step (Call_delete i) p = map_option (\<lambda>p'. ([], [], p')) (service_delete p i)"

text \<open>
  What the callers owe: a service is initialised once; only a service with a mailbox becomes
  idle, scheduled, running or done; receipts go to services that exist, and the receipt
  that says there is none carries no message.
\<close>

definition bare_service :: "service_pool \<Rightarrow> service_id \<Rightarrow> bool" where
  "bare_service p i = (case get_service p i of None \<Rightarrow> False
     | Some S \<Rightarrow> s_L S = 0 \<and> s_msg S = None \<and> s_status S = SERVICE_STATUS_UNINITIALIZED)"

fun pool_call_ok :: "service_pool \<Rightarrow> pool_call \<Rightarrow> bool" where
  "pool_call_ok p (Call_init i vm) = bare_service p i"
| "pool_call_ok p (Call_status_set i st) =
     (st = SERVICE_STATUS_UNINITIALIZED \<or> st = SERVICE_STATUS_DEAD \<or> has_mailbox p i)"
| "pool_call_ok p (Call_write_receipt i r b) =
     (get_service p i \<noteq> None \<and> (r = MESSAGE_RECEIPT_NONE \<longrightarrow> b = None))"
| "pool_call_ok p (Call_push i m) =
     (service_status_get p i = SERVICE_STATUS_DEAD \<or> has_mailbox p i)"
| "pool_call_ok p (Call_pop i) = has_mailbox p i"
| "pool_call_ok p _ = True"

text \<open>A history: \<^term>\<open>None\<close> only if a call aborts or breaks the contract.\<close>

fun pool_run :: "pool_call list \<Rightarrow> service_pool \<Rightarrow> (message list \<times> message list \<times> service_pool) option" where
  "pool_run [] p = Some ([], [], p)"
| "pool_run (c # cs) p =
     (if pool_call_ok p c
      then do {
        (ins, outs, p1) \<leftarrow> pool_step c p;
        (ins', outs', p2) \<leftarrow> pool_run cs p1;
        Some (ins @ ins', outs @ outs', p2)
      }
      else None)"

section \<open>Lua states\<close>

definition service_vms :: "service \<Rightarrow> ptr multiset" where
  "service_vms S = (if s_L S \<noteq> 0 then {#s_L S#} else {#})"

definition slot_vms :: "service option \<Rightarrow> ptr multiset" where
  "slot_vms s = (case s of None \<Rightarrow> {#} | Some S \<Rightarrow> service_vms S)"

lemma slot_vms_simps [simp]: "slot_vms None = {#}" "slot_vms (Some S) = service_vms S"
  by (simp_all add: slot_vms_def)

text \<open>The states the pool's services own and those it has closed.\<close>

definition pool_vms :: "service_pool \<Rightarrow> ptr multiset" where
  "pool_vms p = sum_list (map slot_vms (p_s p)) + mset (p_closed p)"

fun opened_vm :: "service_pool \<Rightarrow> pool_call \<Rightarrow> ptr list" where
  "opened_vm p (Call_init i vm) = (if vb_state vm = 0 then [] else [vb_state vm])"
| "opened_vm p _ = []"

fun pool_opened :: "pool_call list \<Rightarrow> service_pool \<Rightarrow> ptr list" where
  "pool_opened [] p = []"
| "pool_opened (c # cs) p = opened_vm p c @
     (case pool_step c p of None \<Rightarrow> [] | Some (ins, outs, p1) \<Rightarrow> pool_opened cs p1)"

lemma pool_vms_upd:
  assumes wf: "pool_wf p" and S: "get_service p i = Some S"
  shows "pool_vms (upd_service p i f) + service_vms S = pool_vms p + service_vms (f S)"
proof -
  have "sum_list (map slot_vms ((p_s p)[service_slot p i := Some (f S)])) + service_vms S
      = sum_list (map slot_vms (p_s p)) + service_vms (f S)"
    using sum_list_slot_update [OF service_slot_bound [OF wf, of i], of slot_vms "Some (f S)"]
      get_service_slot [OF S] by simp
  then show ?thesis by (simp add: pool_vms_def upd_service_def S ac_simps)
qed

lemma pool_vms_upd_same [simp]:
  assumes "\<And>S. s_L (f S) = s_L S" and "pool_wf p"
  shows "pool_vms (upd_service p i f) = pool_vms p"
proof (cases "get_service p i")
  case None
  then show ?thesis by (simp add: upd_service_def)
next
  case (Some S)
  have "service_vms (f S) = service_vms S" by (simp add: service_vms_def assms(1))
  with pool_vms_upd [OF assms(2) Some, of f] show ?thesis by simp
qed

lemma pool_vms_frame [simp]:
  "pool_vms (p\<lparr>p_malloc := a\<rparr>) = pool_vms p"
  "pool_vms (p\<lparr>p_freed := c\<rparr>) = pool_vms p"
  "pool_vms (p\<lparr>p_id := d\<rparr>) = pool_vms p"
  "pool_vms (p\<lparr>p_closed := v # p_closed p\<rparr>) = pool_vms p + {#v#}"
  by (auto simp: pool_vms_def)

section \<open>The account of each call\<close>

lemma place_service_account:
  assumes wf: "pool_wf p" and free: "slot_ref p i = None"
  shows "pool_msgs (snd (place_service p i)) = pool_msgs p"
    and "pool_vms (snd (place_service p i)) = pool_vms p"
proof -
  note b = service_slot_bound [OF wf, of i]
  have at: "p_s p ! service_slot p i = None" using free by (simp add: slot_ref_def)
  have "service_msgs (fresh_service i) = {#}" "service_vms (fresh_service i) = {#}"
    by (simp_all add: service_msgs_def service_vms_def fresh_service_def)
  then show "pool_msgs (snd (place_service p i)) = pool_msgs p"
    "pool_vms (snd (place_service p i)) = pool_vms p"
    using sum_list_slot_update [OF b, of slot_msgs "Some (fresh_service i)"]
      sum_list_slot_update [OF b, of slot_vms "Some (fresh_service i)"] at
    by (auto simp: place_service_def pool_msgs_def pool_vms_def Let_def split: prod.splits)
qed

lemma service_new_account:
  assumes wf: "pool_wf p"
  shows "pool_msgs (snd (service_new p sid)) = pool_msgs p"
    and "pool_vms (snd (service_new p sid)) = pool_vms p"
  using wf place_service_account [OF wf, of sid]
    place_service_account [of "p\<lparr>p_id := r + 1\<rparr>" r for r] new_scan_Some [of p "p_id p" 0]
  by (auto simp: service_new_def split: option.splits)

lemma pool_vms_def': "p_s p' = p_s p \<Longrightarrow> p_closed p' = p_closed p \<Longrightarrow> pool_vms p' = pool_vms p"
  by (simp add: pool_vms_def)

lemma init_vms:
  assumes wf: "pool_wf p" and bare: "bare_service p i" and res: "service_init p i vm = Some (r, p')"
  shows "pool_vms p' = pool_vms p + mset (opened_vm p (Call_init i vm))"
proof -
  from bare obtain S where S: "get_service p i = Some S" "s_L S = 0" "s_msg S = None"
    "s_status S = SERVICE_STATUS_UNINITIALIZED"
    by (auto simp: bare_service_def split: option.splits)
  let ?p1 = "upd_service p i (\<lambda>S. S\<lparr>s_stat := Some zero_stat\<rparr>)"
  have p1: "pool_wf ?p1" "pool_vms ?p1 = pool_vms p" "get_service ?p1 i = Some (S\<lparr>s_stat := Some zero_stat\<rparr>)"
    using wf S by (simp_all add: tab.inv_upd tab.get_upd service_keeps_fields)
  show ?thesis
  proof (cases "vb_state vm = 0 \<or> \<not> vb_ok vm")
    case True
    have "pool_vms (?p1\<lparr>p_closed := vb_state vm # p_closed p\<rparr>) = pool_vms p + {#vb_state vm#}"
      using p1(2) by (simp add: pool_vms_def)
    with True show ?thesis using res S p1 by (auto simp: service_init_def Let_def split: if_splits)
  next
    case False
    obtain ok mem where mal: "malloc (p_malloc p) = (ok, mem)" by fastforce
    from res False S mal obtain mq :: "message queue option"
      where new: "queue_new_ptr ok (p_queue_length p) = Some mq"
      by (auto simp: service_init_def Let_def bind_eq_Some_conv)
    let ?p2 = "?p1\<lparr>p_malloc := mem\<rparr>"
    let ?f = "\<lambda>S. S\<lparr>s_msg := mq\<rparr>" and ?g = "\<lambda>S. S\<lparr>s_L := vb_state vm, s_rL := vb_thread vm\<rparr>"
    let ?p3 = "upd_service ?p2 i ?f"
    have "queue_wf q" if "mq = Some q" for q
    proof -
      from wf obtain j where "p_queue_length p = 2 ^ j" by (auto simp: pool_wf_def)
      with new that have "q = empty_queue (2 ^ j)" 
        by (auto simp: queue_new_ptr_def queue_new_def ispow2_exp empty_queue_def split: if_splits)
      then show ?thesis by (simp add: empty_queue_wf)
    qed
    then have keeps: "service_wf (?f (S\<lparr>s_stat := Some zero_stat\<rparr>))"
      using get_service_wf(1) [OF wf S(1)] S by (auto simp: service_wf_def split: option.splits)
    have p2: "pool_wf ?p2" "pool_vms ?p2 = pool_vms p" using p1 by simp_all
    have p3: "pool_wf ?p3" "pool_vms ?p3 = pool_vms p" "get_service ?p3 i = Some (?f (S\<lparr>s_stat := Some zero_stat\<rparr>))"
      using pool_wf_upd [OF p2(1), of i ?f] p2 keeps p1(3) get_service_upd [OF p2(1), of ?f i i] by auto
    have "pool_vms (upd_service ?p3 i ?g) = pool_vms p + {#vb_state vm#}"
      using pool_vms_upd [OF p3(1,3), of ?g] p3(2) S False by (simp add: service_vms_def)
    moreover have "service_init p i vm = (if mq = None
        then Some (1, ?p3\<lparr>p_closed := vb_state vm # p_closed ?p3\<rparr>)
        else Some (0, upd_service ?p3 i ?g))"
      using False S by (simp add: service_init_def mal new Let_def)
    ultimately show ?thesis using res False p3(2) by (auto split: if_splits simp del: upd_service_simps)
  qed
qed

lemma close_vms:
  assumes wf: "pool_wf p"
  shows "pool_vms (service_close p i) = pool_vms p"
proof (cases "get_service p i")
  case None
  then show ?thesis by (simp add: service_close_def)
next
  case (Some S)
  let ?p1 = "if s_L S \<noteq> 0 then p\<lparr>p_closed := s_L S # p_closed p\<rparr> else p"
  have "pool_wf ?p1" "get_service ?p1 i = Some S" "pool_vms ?p1 = pool_vms p + service_vms S"
    using wf Some by (simp_all add: service_vms_def)
  from pool_vms_upd [OF this(1,2), of "\<lambda>S. S\<lparr>s_L := 0, s_status := SERVICE_STATUS_DEAD\<rparr>"] this(3)
  show ?thesis using Some by (simp add: service_close_def Let_def service_vms_def [of "_ \<lparr>s_L := 0, s_status := _\<rparr>"])
qed

lemma delete_vms:
  assumes wf: "pool_wf p" and res: "service_delete p i = Some p'"
  shows "pool_vms p' = pool_vms p"
proof (cases "get_service p i")
  case None
  then show ?thesis using res by (simp add: service_delete_def)
next
  case (Some S)
  let ?q = "p\<lparr>p_s := (p_s p)[service_slot p i := None]\<rparr>"
  from free_service_spec [OF get_service_wf(1) [OF wf Some], of ?q] res Some
  obtain freed where "p' = ?q\<lparr>p_freed := freed, p_closed := (if s_L S \<noteq> 0 then [s_L S] else []) @ p_closed ?q\<rparr>"
    by (auto simp: service_delete_def)
  then show ?thesis
    using sum_list_slot_update [OF service_slot_bound [OF wf, of i], of slot_vms None]
      get_service_slot [OF Some] by (auto simp: pool_vms_def service_vms_def)
qed

text \<open>One call: the pool stays well-formed, and both accounts balance.\<close>

lemma pool_vms_signal: "pool_vms (service_send_signal p i) = pool_vms p" if "pool_wf p"
  using that by (auto simp: service_send_signal_def Let_def split: option.splits prod.splits)

lemma pool_step_ok:
  assumes wf: "pool_wf p" and ok: "pool_call_ok p c" and st: "pool_step c p = Some (ins, outs, p')"
  shows "pool_wf p' \<and> pool_msgs p + mset ins = pool_msgs p' + mset outs
    \<and> pool_vms p' = pool_vms p + mset (opened_vm p c)"
proof -
  have opt: "mset (opt_list m) = opt_msgs m" for m by (simp add: opt_list_def opt_msgs_def split: option.splits)
  show ?thesis
  proof (cases c)
    case (Call_new sid)
    with st wf service_new_account [OF wf, of sid] service_new_result(1) [OF wf, of sid "fst (service_new p sid)" "snd (service_new p sid)"]
    show ?thesis by auto
  next
    case (Call_init i vm)
    with st obtain r where r: "service_init p i vm = Some (r, p')" "ins = []" "outs = []" by auto
    from ok Call_init have bare: "bare_service p i" by simp
    then have "\<And>S. get_service p i = Some S \<Longrightarrow> s_msg S = None" by (simp add: bare_service_def)
    from service_init_account [OF wf r(1) this] init_vms [OF wf bare r(1)] r Call_init
    show ?thesis by simp
  next
    case (Call_loadstring i err)
    obtain r where r: "service_loadstring p i err = (r, p')" and "ins = []" "outs = []"
      using st Call_loadstring by (cases "service_loadstring p i err") auto
    moreover have "pool_vms p' = pool_vms p"
      using r wf by (auto simp: service_loadstring_def split: option.splits if_splits)
    ultimately show ?thesis using loadstring_account [OF wf r] Call_loadstring by simp
  next
    case (Call_push i m)
    then obtain r where r: "service_push_message p i (Some m) = Some (r, p')"
      "ins = (if r = 0 then [m] else [])" "outs = []" using st by auto
    have "pool_vms p' = pool_vms p"
      using r(1) wf by (auto simp: service_push_message_def Let_def split: option.splits if_splits bind_splits)
    with push_message_account [OF wf r(1)] r Call_push show ?thesis by simp
  next
    case (Call_out i)
    then obtain m where r: "service_message_out p i = (m, p')" "ins = []" "outs = opt_list m"
      using st by (auto split: prod.splits)
    have "pool_vms p' = pool_vms p"
      using r(1) wf by (auto simp: service_message_out_def split: option.splits)
    with message_out_account [OF wf r(1)] r Call_out opt show ?thesis by simp
  next
    case (Call_send i m)
    then obtain r where r: "service_send_message p i m = (r, p')"
      "ins = (if r = 0 then opt_list m else [])" "outs = []"
      using st by (auto split: prod.splits)
    have "pool_vms p' = pool_vms p"
      using r(1) wf by (auto simp: service_send_message_def split: option.splits if_splits)
    with send_message_account [OF wf r(1)] r Call_send opt show ?thesis by simp
  next
    case (Call_write_receipt i r b)
    with ok obtain S where S: "get_service p i = Some S" "r = MESSAGE_RECEIPT_NONE \<longrightarrow> b = None" by auto
    from st Call_write_receipt have res: "service_write_receipt p i r b = Some p'" "ins = opt_list b" "outs = []"
      by auto
    have "pool_vms p' = pool_vms p"
      using wf S res(1) by (auto simp: service_write_receipt_def Let_def split: if_splits)
    with write_receipt_account [OF wf S res(1)] res Call_write_receipt opt show ?thesis by simp
  next
    case (Call_read_receipt i)
    then obtain m r where r: "service_read_receipt p i = (m, r, p')" "ins = []" "outs = opt_list m"
      using st by (auto split: prod.splits)
    have "pool_vms p' = pool_vms p"
      using r(1) wf by (auto simp: service_read_receipt_def split: option.splits)
    with read_receipt_account [OF wf r(1)] r Call_read_receipt opt show ?thesis by simp
  next
    case (Call_pop i)
    then obtain m where r: "service_pop_message p i = Some (m, p')" "ins = []" "outs = opt_list m"
      using st by auto
    have "pool_vms p' = pool_vms p"
      using r(1) wf by (auto simp: service_pop_message_def split: option.splits bind_splits)
    with pop_message_account [OF wf r(1)] r Call_pop opt show ?thesis by simp
  next
    case (Call_send_signal i)
    have "opt_list (signal_created p i) = ins" "outs = []" "p' = service_send_signal p i"
      using st Call_send_signal by auto
    moreover have "pool_msgs (service_send_signal p i) = pool_msgs p + opt_msgs (signal_created p i)"
      using send_signal_msgs [OF wf, of i] by (simp add: signal_created_def)
    ultimately show ?thesis
      using send_signal_account [OF wf, of i] pool_vms_signal [OF wf, of i] Call_send_signal opt by auto
  next
    case (Call_status_set i v)
    with ok have "v \<in> {SERVICE_STATUS_UNINITIALIZED, SERVICE_STATUS_DEAD} \<or> has_mailbox p i" by auto
    with status_set_wf [OF wf this] st Call_status_set wf show ?thesis
      by (auto simp: service_status_set_def)
  next
    case (Call_binding_set i w)
    with st wf show ?thesis
      by (auto simp: service_binding_set_def tab.inv_upd service_keeps_fields pool_msgs_upd_same service_msgs_def)
  next
    case (Call_sockevent_init i n)
    with st wf show ?thesis
      by (auto simp: service_sockevent_init_def tab.inv_upd service_keeps_fields pool_msgs_upd_same service_msgs_def)
  next
    case (Call_setlabel i l)
    with st wf show ?thesis
      by (auto simp: service_setlabel_def tab.inv_upd service_keeps_fields pool_msgs_upd_same service_msgs_def
          split: option.splits)
  next
    case (Call_close i)
    with st close_account [OF wf, of i] close_vms [OF wf, of i] show ?thesis by auto
  next
    case (Call_delete i)
    then have d: "service_delete p i = Some p'" "ins = []" "outs = []" using st by auto
    from service_delete_spec [OF wf, of i] d(1) delete_vms [OF wf d(1)] d Call_delete
    show ?thesis by auto
  qed
qed


section \<open>Histories\<close>

lemma pool_run_ok:
  assumes "pool_wf p" and "pool_run cs p = Some (ins, outs, p')"
  shows "pool_wf p' \<and> pool_msgs p + mset ins = pool_msgs p' + mset outs
    \<and> pool_vms p' = pool_vms p + mset (pool_opened cs p)"
  using assms
proof (induction cs arbitrary: p ins outs)
  case Nil
  then show ?case by simp
next
  case (Cons c cs)
  from Cons.prems(2) obtain ins1 outs1 p1 ins2 outs2 where
    c: "pool_call_ok p c" "pool_step c p = Some (ins1, outs1, p1)"
    and cs: "pool_run cs p1 = Some (ins2, outs2, p')"
    and io: "ins = ins1 @ ins2" "outs = outs1 @ outs2"
    by (auto simp: bind_eq_Some_conv split: if_splits)
  note one = pool_step_ok [OF Cons.prems(1) c]
  from one have "pool_wf p1" by simp
  note rest = Cons.IH [OF this cs]
  have "pool_msgs p + mset ins = (pool_msgs p + mset ins1) + mset ins2" by (simp add: io ac_simps)
  also have "\<dots> = (pool_msgs p1 + mset ins2) + mset outs1" using one by (simp add: ac_simps)
  also have "\<dots> = pool_msgs p' + mset outs" using rest by (simp add: io ac_simps)
  finally show ?case using rest one c(2) by (simp add: ac_simps)
qed

text \<open>A contract-abiding history never aborts.\<close>

lemma pool_step_total:
  assumes wf: "pool_wf p" and ok: "pool_call_ok p c"
  shows "pool_step c p \<noteq> None"
proof (cases c)
  case (Call_init i vm)
  with ok obtain S where "get_service p i = Some S" "s_L S = 0" "s_status S = SERVICE_STATUS_UNINITIALIZED"
    by (auto simp: bare_service_def split: option.splits)
  moreover from wf obtain j where "p_queue_length p = 2 ^ j" by (auto simp: pool_wf_def)
  ultimately show ?thesis
    using Call_init by (auto simp: service_init_def Let_def queue_new_ptr_def queue_new_def ispow2_exp
        split: prod.splits)
next
  case (Call_push i m)
  show ?thesis
  proof (cases "service_status_get p i = SERVICE_STATUS_DEAD")
    case True
    then show ?thesis using Call_push by (simp add: push_message_dead)
  next
    case False
    then obtain S where S: "get_service p i = Some S" "s_status S \<noteq> SERVICE_STATUS_DEAD"
      by (auto simp: service_status_get_def split: option.splits)
    with ok Call_push False obtain q where q: "s_msg S = Some q" by (auto simp: has_mailbox_def)
    show ?thesis
      using push_message_room [OF wf S q, of m] push_message_full [OF wf S q, of m] Call_push
      by (cases "queue_count q < queue_cap q") auto
  qed
next
  case (Call_pop i)
  show ?thesis
  proof (cases "get_service p i")
    case None
    then show ?thesis using Call_pop by (simp add: service_pop_message_def)
  next
    case (Some S)
    with ok Call_pop obtain q where q: "s_msg S = Some q" by (auto simp: has_mailbox_def)
    have "queue_wf q" using service_wf_mailbox [OF get_service_wf(1) [OF wf Some] q] .
    then show ?thesis using Call_pop Some q
      by (cases "queue_count q = 0")
        (auto simp: service_pop_message_def queue_pop_ptr_empty queue_pop_ptr_some split: option.splits)
  qed
next
  case (Call_delete i)
  then show ?thesis using service_delete_spec [OF wf, of i] by auto
next
  case (Call_write_receipt i r b)
  with ok show ?thesis by (auto simp: service_write_receipt_def Let_def)
qed (auto split: prod.splits)

text \<open>\<open>service_destory\<close> releases what is left.\<close>

lemma destroy_slots_spec:
  assumes "\<forall>S. Some S \<in> set ss \<longrightarrow> service_wf S"
  shows "\<exists>p'. destroy_slots ss p = Some p'
    \<and> mset (p_freed p') = mset (p_freed p) + sum_list (map slot_msgs ss)
    \<and> mset (p_closed p') = mset (p_closed p) + sum_list (map slot_vms ss)"
  using assms
proof (induction ss p rule: destroy_slots.induct)
  case (3 S ss p)
  then have "service_wf S" by simp
  from free_service_spec [OF this, of p] obtain freed where
    f: "free_service p S = Some (p\<lparr>p_freed := freed, p_closed := (if s_L S \<noteq> 0 then [s_L S] else []) @ p_closed p\<rparr>)"
      "mset freed = mset (p_freed p) + service_msgs S" by blast
  let ?p1 = "p\<lparr>p_freed := freed, p_closed := (if s_L S \<noteq> 0 then [s_L S] else []) @ p_closed p\<rparr>"
  have "\<exists>p'. destroy_slots ss ?p1 = Some p'
    \<and> mset (p_freed p') = mset (p_freed ?p1) + sum_list (map slot_msgs ss)
    \<and> mset (p_closed p') = mset (p_closed ?p1) + sum_list (map slot_vms ss)"
    using "3.IH" [OF f(1)] "3.prems" by simp
  then obtain p' where "destroy_slots ss ?p1 = Some p'"
    "mset (p_freed p') = mset freed + sum_list (map slot_msgs ss)"
    "mset (p_closed p') = mset ((if s_L S \<noteq> 0 then [s_L S] else []) @ p_closed p) + sum_list (map slot_vms ss)"
    by auto
  moreover have "mset (if s_L S \<noteq> 0 then [s_L S] else []) = service_vms S" by (simp add: service_vms_def)
  ultimately show ?case using f by (simp add: ac_simps)
qed auto

lemma service_destory_spec:
  assumes wf: "pool_wf p"
  shows "\<exists>freed closed. service_destory (Some p) = Some (freed, closed)
    \<and> mset freed = pool_msgs p \<and> mset closed = pool_vms p"
proof -
  have len: "take (nat (p_mask p + 1)) (p_s p) = p_s p" using wf by (simp add: pool_wf_def)
  have "\<forall>S. Some S \<in> set (p_s p) \<longrightarrow> service_wf S"
    using wf by (auto simp: pool_wf_def in_set_conv_nth split: option.splits) 
  from destroy_slots_spec [OF this, of p] obtain p' where
    "destroy_slots (p_s p) p = Some p'"
    "mset (p_freed p') = mset (p_freed p) + sum_list (map slot_msgs (p_s p))"
    "mset (p_closed p') = mset (p_closed p) + sum_list (map slot_vms (p_s p))" by blast
  then show ?thesis unfolding service_destory_def pool_msgs_def pool_vms_def
    by (simp add: len [unfolded add.commute [of _ 1]] len ac_simps del: take_all_iff)
qed

section \<open>The pool that \<open>service_create\<close> makes\<close>

definition config_sized :: "ltask_config \<Rightarrow> bool" where
  "config_sized c \<longleftrightarrow> (\<exists>k \<le> 30. c_max_service c = 2 ^ k) \<and> (\<exists>j. c_queue c = 2 ^ j)"

lemma service_create_wf:
  assumes "config_sized config" and "service_create mem config = Some (Some p)"
  shows "pool_wf p" and "pool_msgs p = {#}" and "pool_vms p = {#}" and "get_service p i = None"
proof -
  from assms(1) obtain k where k: "k \<le> 30" "c_max_service config = 2 ^ k"
    by (auto simp: config_sized_def)
  from assms(2) have s: "p_s p = replicate (2 ^ k) None" "p_mask p = 2 ^ k - 1" "p_freed p = []"
    "p_closed p = []" "p_queue_length p = c_queue config"
    by (auto simp: service_create_def k nat_power_eq split: prod.splits if_splits)
  show "pool_wf p"
    using k s assms(1) by (auto simp: pool_wf_def nat_power_eq config_sized_def)
  then show "get_service p i = None"
    using service_slot_bound [of p i] s by (simp add: get_service_def slot_ref_def)
  have "sum_list (replicate n {#}) = ({#} :: 'b multiset)" for n
    by (induction n) simp_all
  then show "pool_msgs p = {#}" "pool_vms p = {#}"
    using s by (simp_all add: pool_msgs_def pool_vms_def)
qed

definition pool_reach :: "service_pool \<Rightarrow> bool" where
  "pool_reach p \<longleftrightarrow> (\<exists>mem config p0 cs ins outs. config_sized config
     \<and> service_create mem config = Some (Some p0) \<and> pool_run cs p0 = Some (ins, outs, p))"

lemma pool_reach_wf: "pool_reach p \<Longrightarrow> pool_wf p"
  by (auto simp: pool_reach_def dest: service_create_wf(1) pool_run_ok)

section \<open>Properties\<close>

text \<open>
  C8: no message and no Lua state is leaked or released twice. Take any history of calls
  after \<open>service_create\<close>, and then \<open>service_destory\<close>: the messages the pool was given are
  exactly those it handed out and those it released, and the Lua states it opened are
  exactly those it closed, each counted with its multiplicity.
\<close>

theorem pool_accounts_for_everything:
  assumes "config_sized config" and "service_create mem config = Some (Some p0)"
    and "pool_run calls p0 = Some (ins, outs, p)"
  shows "\<exists>freed closed. service_destory (Some p) = Some (freed, closed)
    \<and> mset ins = mset outs + mset freed
    \<and> mset (pool_opened calls p0) = mset closed"
proof -
  note p0 = service_create_wf [OF assms(1,2)]
  note run = pool_run_ok [OF p0(1) assms(3)]
  then have "pool_wf p" by simp
  from service_destory_spec [OF this] run p0 show ?thesis by (auto simp: ac_simps)
qed

definition demo_config :: ltask_config where
  "demo_config = \<lparr>c_worker = 2, c_queue = 2, c_queue_sending = 2, c_max_service = 4,
     c_external_queue = 0, c_crashlog = []\<rparr>"

definition demo_pool :: service_pool where
  "demo_pool = \<lparr>p_mask = 3, p_queue_length = 2, p_id = 0, p_s = replicate 4 None,
     p_malloc = [], p_freed = [], p_closed = []\<rparr>"

definition demo_message :: message where
  "demo_message = \<lparr>m_from = 0, m_to = 2, m_session = 7, m_type = MESSAGE_REQUEST, m_msg = 0, m_sz = 0\<rparr>"

definition demo_calls :: "pool_call list" where
  "demo_calls = [Call_new 2, Call_init 2 \<lparr>vb_state = 64, vb_ok = True, vb_thread = 128\<rparr>,
     Call_loadstring 2 None, Call_push 2 demo_message, Call_push 2 demo_message, Call_pop 2,
     Call_send_signal 2]"

lemma demo_create: "service_create [] demo_config = Some (Some demo_pool)"
  by (simp add: service_create_def demo_config_def demo_pool_def ispow2_def)

lemma demo_sized: "config_sized demo_config"
  unfolding config_sized_def demo_config_def by (intro conjI exI [of _ 2] exI [of _ 1]) auto

lemma demo_run: "\<exists>p. pool_run demo_calls demo_pool = Some ([demo_message, signal_message 2], [demo_message], p)"
proof -
  have "map_option (\<lambda>(a, b, c). (a, b)) (pool_run demo_calls demo_pool)
      = Some ([demo_message, signal_message 2], [demo_message])"
    by code_simp
  then show ?thesis by auto
qed

theorem pool_accounts_for_everything_witness:
  "\<exists>p freed closed. pool_run demo_calls demo_pool = Some ([demo_message, signal_message 2], [demo_message], p)
    \<and> service_destory (Some p) = Some (freed, closed) \<and> mset freed = {#signal_message 2#}"
proof -
  from demo_run obtain p where
    p: "pool_run demo_calls demo_pool = Some ([demo_message, signal_message 2], [demo_message], p)" by blast
  from pool_accounts_for_everything [OF demo_sized demo_create p] p show ?thesis by auto
qed


text \<open>
  A call that keeps the contract never aborts (no failed assert, no NULL mailbox, no
  unwritten cell), in any state the pool can reach.
\<close>

theorem pool_calls_never_abort:
  assumes "pool_reach p" and "pool_call_ok p c"
  shows "\<exists>ins outs p'. pool_step c p = Some (ins, outs, p') \<and> pool_wf p'"
proof -
  note wf = pool_reach_wf [OF assms(1)]
  from pool_step_total [OF wf assms(2)] obtain ins outs p' where st: "pool_step c p = Some (ins, outs, p')"
    by fastforce
  with pool_step_ok [OF wf assms(2) st] show ?thesis by blast
qed

lemma demo_reach: "pool_reach demo_pool"
  unfolding pool_reach_def using demo_sized demo_create by (metis pool_run.simps(1))

theorem pool_calls_never_abort_witness:
  "\<exists>ins outs p'. pool_step (Call_new 2) demo_pool = Some (ins, outs, p') \<and> pool_wf p'"
  by (rule pool_calls_never_abort [OF demo_reach]) simp

text \<open>
  C21: \<open>service_new\<close> never hands out an id in use. A non-zero answer is an id that named no
  service, is the one asked for if one was asked for, names a fresh, uninitialised service
  afterwards, and every other id keeps its service.
\<close>

theorem service_new_unique_id:
  assumes "pool_reach p" and "service_new p sid = (r, p')"
  shows "pool_wf p'
    \<and> (r \<noteq> 0 \<longrightarrow> get_service p r = None \<and> get_service p' r = Some (fresh_service r)
      \<and> (sid \<noteq> 0 \<longrightarrow> r = sid))
    \<and> (\<forall>j. j \<noteq> r \<longrightarrow> get_service p' j = get_service p j)"
  using service_new_result [OF pool_reach_wf [OF assms(1)] assms(2)] by auto

theorem service_new_unique_id_witness:
  "\<exists>p'. service_new demo_pool 0 = (1, p') \<and> get_service p' 1 = Some (fresh_service 1)"
proof -
  have "fst (service_new demo_pool 0) = 1" by code_simp
  then obtain p' where n: "service_new demo_pool 0 = (1, p')" by (metis prod.collapse)
  from service_new_unique_id [OF demo_reach n] n show ?thesis by simp
qed

text \<open>
  C40: \<open>service_new\<close> fails only for lack of room. If it is asked for any id, finds memory
  and answers zero, then every slot but the first is taken, and the first is free only when
  the id that would go there is zero, the id reserved for the system.
\<close>

theorem service_new_complete:
  assumes "pool_reach p" and "fst (malloc (p_malloc p))" and "fst (service_new p 0) = 0"
    and "n < length (p_s p)" and "p_s p ! n = None"
  shows "n = 0 \<and> (p_id p = 0 \<or> 2 ^ 32 - unat (p_id p) < length (p_s p))"
proof -
  note wf = pool_reach_wf [OF assms(1)]
  from wf obtain k where k: "k \<le> 30" "p_mask p = 2 ^ k - 1" "length (p_s p) = 2 ^ k"
    by (rule pool_wfE)
  have none: "new_scan p (p_id p) 0 = None"
  proof (cases "new_scan p (p_id p) 0")
    case (Some i)
    with assms(2,3) new_scan_Some [OF Some] show ?thesis
      by (auto simp: service_new_def place_service_def Let_def split: prod.splits)
  qed
  define d where "d = (n + 2 ^ k - unat (p_id p) mod 2 ^ k) mod 2 ^ k"
  have d: "d < 2 ^ k" by (simp add: d_def)
  have "unat (p_id p) mod 2 ^ k < 2 ^ k" by simp
  then have le: "unat (p_id p) mod 2 ^ k \<le> n + 2 ^ k" by linarith
  have "(unat (p_id p) + d) mod 2 ^ k = (unat (p_id p) mod 2 ^ k + (n + 2 ^ k - unat (p_id p) mod 2 ^ k)) mod 2 ^ k"
    by (simp add: d_def mod_simps)
  also have "\<dots> = n" using le assms(4) k(3) by simp
  finally have slot: "service_slot p (p_id p + of_nat d) = n"
    by (simp add: candidate_slot [OF k(2,1)])
  have "int d \<le> p_mask p - 0" using d k(2) by simp
  with new_scan_None [OF none] k(2) slot assms(5) have zero: "p_id p + of_nat d = 0"
    by (auto simp: slot_ref_def)
  have "n = 0" using slot zero by (simp add: service_slot_def)
  moreover have "p_id p = 0 \<or> 2 ^ 32 - unat (p_id p) < length (p_s p)"
  proof (cases "p_id p = 0")
    case False
    have dlt: "d < 2 ^ 32" using d k(1) power_increasing [of k 32 "2::nat"] by simp
    have "unat (p_id p + of_nat d) = (unat (p_id p) + d) mod 2 ^ 32"
      by (simp add: unat_word_ariths unat_of_nat mod_simps)
    then have "(unat (p_id p) + d) mod 2 ^ 32 = 0" by (simp only: zero) simp
    moreover have "0 < unat (p_id p)" using False by (simp add: unat_gt_0)
    ultimately have "2 ^ 32 \<le> unat (p_id p) + d"
      by (metis add_gr_0 dvd_imp_le mod_0_imp_dvd)
    then show ?thesis using d k(3) by linarith
  qed simp
  ultimately show "n = 0 \<and> (p_id p = 0 \<or> 2 ^ 32 - unat (p_id p) < length (p_s p))" by blast
qed

definition full_calls :: "pool_call list" where
  "full_calls = [Call_new 1, Call_new 2, Call_new 3]"

theorem service_new_complete_witness:
  "\<exists>p. pool_run full_calls demo_pool = Some ([], [], p) \<and> fst (service_new p 0) = 0 \<and> p_s p ! 0 = None
    \<and> (p_id p = 0 \<or> 2 ^ 32 - unat (p_id p) < 4)"
proof -
  have run: "map_option (\<lambda>(a, b, p). (a, b, fst (malloc (p_malloc p)), fst (service_new p 0), length (p_s p), p_s p ! 0 = None))
      (pool_run full_calls demo_pool) = Some ([], [], True, 0, 4, True)"
    by code_simp
  then obtain p where p: "pool_run full_calls demo_pool = Some ([], [], p)" "fst (malloc (p_malloc p))"
    "fst (service_new p 0) = 0" "length (p_s p) = 4" "p_s p ! 0 = None" by auto
  have "pool_reach p" unfolding pool_reach_def using demo_sized demo_create p(1) by blast
  from service_new_complete [OF this p(2,3) _ p(5)] p show ?thesis by auto
qed

text \<open>
  What a service has still to read: the bounced message first, then its mailbox in order.
\<close>

definition inbox :: "service_pool \<Rightarrow> service_id \<Rightarrow> message list" where
  "inbox p i = (case get_service p i of None \<Rightarrow> []
     | Some S \<Rightarrow> opt_list (s_bounce S) @ mailbox_list (s_msg S))"

text \<open>One pop from a service that is there: only its bounced message or its mailbox moves.\<close>

lemma pop_inbox:
  assumes wf: "pool_wf p" and S: "get_service p i = Some S" and msg: "s_msg S = Some q"
  shows "\<exists>x p' S'. service_pop_message p i = Some (x, p') \<and> inbox p i = opt_list x @ inbox p' i
    \<and> (x = None \<longrightarrow> inbox p i = []) \<and> pool_wf p' \<and> p_freed p' = p_freed p \<and> p_closed p' = p_closed p
    \<and> get_service p' i = Some S' \<and> s_msg S' \<noteq> None
    \<and> S' = S\<lparr>s_bounce := s_bounce S', s_msg := s_msg S'\<rparr>
    \<and> (\<forall>j. j \<noteq> i \<longrightarrow> get_service p' j = get_service p j)"
proof -
  have q: "queue_wf q" using service_wf_mailbox [OF get_service_wf(1) [OF wf S] msg] .
  consider (bounced) b where "s_bounce S = Some b" | (empty) "s_bounce S = None" "queue_count q = 0"
    | (some) "s_bounce S = None" "0 < queue_count q" by (cases "s_bounce S") auto
  then show ?thesis
  proof cases
    case bounced
    then show ?thesis using S msg wf
      by (simp add: service_pop_message_def inbox_def opt_list_def tab.get_upd tab.inv_upd service_keeps_fields)
  next
    case empty
    then show ?thesis using S msg q wf
      by (simp add: service_pop_message_def inbox_def opt_list_def queue_pop_ptr_empty upd_service_same queue_list_empty_iff)
  next
    case some
    then show ?thesis using S msg q wf ring_deq_wf [OF q]
      by (simp add: service_pop_message_def inbox_def opt_list_def queue_pop_ptr_some tab.get_upd tab.inv_upd
          service_keeps_msg ring_deq_list queue_list_empty_iff)
  qed
qed

text \<open>
  The inbox of a service is a queue: pushing. A push appends the message exactly when it
  answers 0 and otherwise changes nothing at all; it answers -1 exactly for a missing or dead
  service; and it never touches the inbox of another service.
\<close>

theorem push_appends_to_inbox:
  assumes "pool_reach p" and "has_mailbox p i"
  shows "\<exists>r p'. service_push_message p i (Some m) = Some (r, p')
      \<and> (if r = 0 then inbox p' i = inbox p i @ [m] else p' = p)
      \<and> (r = -1 \<longleftrightarrow> service_status_get p i = SERVICE_STATUS_DEAD)
      \<and> r \<in> {0, 1, -1} \<and> (\<forall>j. j \<noteq> i \<longrightarrow> inbox p' j = inbox p j)"
proof (cases "service_status_get p i = SERVICE_STATUS_DEAD")
  case True
  then show ?thesis by (simp add: push_message_dead)
next
  case False
  note wf = pool_reach_wf [OF assms(1)]
  from False obtain S q where S: "get_service p i = Some S" "s_status S \<noteq> SERVICE_STATUS_DEAD" "s_msg S = Some q"
    using assms(2) by (auto simp: service_status_get_def has_mailbox_def split: option.splits)
  have q: "queue_wf q" using service_wf_mailbox [OF get_service_wf(1) [OF wf S(1)] S(3)] .
  show ?thesis
  proof (cases "queue_count q < queue_cap q")
    case room: True
    note wfq = ring_enq_wf [OF q room]
    show ?thesis
      using push_message_room [OF wf S room, of m] S wf wfq ring_enq_list [OF q room, of m]
      by (auto simp: inbox_def service_status_get_def tab.get_upd service_keeps_msg)
  next
    case full: False
    then show ?thesis
      using push_message_full [OF wf S full, of m] S by (simp add: service_status_get_def)
  qed
qed

text \<open>
  The inbox of a service is a queue: popping. A pop hands out the first element of the
  inbox and leaves the rest in order, answers nothing only if the inbox is empty, and never
  touches the inbox of another service.
\<close>

theorem pop_takes_head_of_inbox:
  assumes "pool_reach p" and "has_mailbox p i"
  shows "\<exists>x p'. service_pop_message p i = Some (x, p')
      \<and> inbox p i = opt_list x @ inbox p' i \<and> (x = None \<longrightarrow> inbox p i = [])
      \<and> (\<forall>j. j \<noteq> i \<longrightarrow> inbox p' j = inbox p j)"
proof (cases "get_service p i")
  case None
  then show ?thesis by (simp add: service_pop_message_def inbox_def opt_list_def)
next
  case S: (Some S)
  then obtain q where "s_msg S = Some q" using assms(2) by (auto simp: has_mailbox_def)
  from pop_inbox [OF pool_reach_wf [OF assms(1)] S this] show ?thesis by (auto simp: inbox_def)
qed

lemma demo_run_mailbox: "\<exists>p. pool_run demo_calls demo_pool = Some ([demo_message, signal_message 2], [demo_message], p)
    \<and> has_mailbox p 2 \<and> pool_reach p"
proof -
  have "map_option (\<lambda>(a, b, p). (a, b, has_mailbox p 2)) (pool_run demo_calls demo_pool)
      = Some ([demo_message, signal_message 2], [demo_message], True)"
    by code_simp
  then obtain p where p: "pool_run demo_calls demo_pool = Some ([demo_message, signal_message 2], [demo_message], p)"
    "has_mailbox p 2" by auto
  have "pool_reach p" unfolding pool_reach_def using demo_sized demo_create p(1) by blast
  with p show ?thesis by blast
qed

theorem push_appends_to_inbox_witness:
  "\<exists>p r p'. pool_run demo_calls demo_pool = Some ([demo_message, signal_message 2], [demo_message], p)
    \<and> service_push_message p 2 (Some demo_message) = Some (r, p')
    \<and> (if r = 0 then inbox p' 2 = inbox p 2 @ [demo_message] else p' = p)"
proof -
  from demo_run_mailbox obtain p where
    p: "pool_run demo_calls demo_pool = Some ([demo_message, signal_message 2], [demo_message], p)"
    "has_mailbox p 2" "pool_reach p" by blast
  from push_appends_to_inbox [OF p(3,2), of demo_message] p(1) show ?thesis by blast
qed

theorem pop_takes_head_of_inbox_witness:
  "\<exists>p x p'. pool_run demo_calls demo_pool = Some ([demo_message, signal_message 2], [demo_message], p)
    \<and> service_pop_message p 2 = Some (x, p') \<and> inbox p 2 = opt_list x @ inbox p' 2"
proof -
  from demo_run_mailbox obtain p where
    p: "pool_run demo_calls demo_pool = Some ([demo_message, signal_message 2], [demo_message], p)"
    "has_mailbox p 2" "pool_reach p" by blast
  from pop_takes_head_of_inbox [OF p(3,2)] p(1) show ?thesis by blast
qed

end
