(* ===== verification/Sched.thy ===== *)
theory Sched
  imports ServicePool Worker Sockevent
begin

text \<open>
  The scheduler of \<open>src/ltask.c\<close>: \<open>struct ltask\<close> and the functions from \<open>get_worker_id\<close>
  to \<open>trigger_all_sockevent\<close>. The thread that owns the scheduler runs them; what other
  threads do in between is the subject of \<open>Threads\<close>.

  A function returns \<^term>\<open>None\<close> where the code would fail an \<open>assert\<close>, dereference NULL or
  index outside an array. Arguments named \<open>fails\<close> say which compare-and-swaps fail
  spuriously. The pool's allocation oracle also answers for \<open>message_new\<close>.
\<close>

abbreviation (input) THREAD_NONE :: int where "THREAD_NONE \<equiv> -1"

record ltask =
  t_config :: ltask_config
  t_workers :: "worker_thread list"
  t_event_init :: "int list"
  t_event :: "sockevent list"
  t_services :: service_pool
  t_schedule :: "int queue"
  t_external_message :: "ptr queue option"
  t_external_last_message :: "message option"
  t_schedule_owner :: int
  t_active_worker :: int
  t_thread_count :: int
  t_blocked_service :: int

text \<open>\<open>&task->workers[i]\<close> and the writes through it.\<close>

definition worker_at :: "ltask \<Rightarrow> int \<Rightarrow> worker_thread option" where
  "worker_at t i = (if 0 \<le> i \<and> nat i < length (t_workers t) then Some (t_workers t ! nat i) else None)"

definition set_worker :: "ltask \<Rightarrow> int \<Rightarrow> worker_thread \<Rightarrow> ltask" where
  "set_worker t i w = t\<lparr>t_workers := (t_workers t)[nat i := w]\<rparr>"

text \<open>The loops \<open>for (i=0;i<worker_n;i++)\<close>.\<close>

definition worker_ids :: "ltask \<Rightarrow> int list" where
  "worker_ids t = map int [0 ..< nat (c_worker (t_config t))]"

fun find_running :: "ltask \<Rightarrow> service_id \<Rightarrow> int list \<Rightarrow> int option" where
  "find_running t i [] = Some (-1)"
| "find_running t i (n # ns) = do {
     w \<leftarrow> worker_at t n;
     if w_running w = i then Some n else find_running t i ns
   }"

definition get_worker_id :: "ltask \<Rightarrow> service_id \<Rightarrow> int option" where
  "get_worker_id t i = find_running t i (worker_ids t)"

definition schedule_back :: "ltask \<Rightarrow> service_id \<Rightarrow> ltask option" where
  "schedule_back t i = do {
     (r, q) \<leftarrow> queue_push_int (t_schedule t) (int_of_id i);
     c_assert (r = 0);
     Some (t\<lparr>t_schedule := q\<rparr>)
   }"

section \<open>Dispatching messages\<close>

definition dispatch_schedule_message :: "ltask \<Rightarrow> service_id \<Rightarrow> message \<Rightarrow> ltask option" where
  "dispatch_schedule_message t i msg =
     (let P = t_services t; sid = m_session msg in
      if i \<noteq> SERVICE_ID_ROOT
      then do {
        P1 \<leftarrow> service_write_receipt P i MESSAGE_RECEIPT_ERROR (Some msg);
        Some (t\<lparr>t_services := P1\<rparr>)
      }
      else if m_type msg = MESSAGE_SCHEDULE_NEW
      then (case service_new P sid of (to, P1) \<Rightarrow>
              let msg1 = msg\<lparr>m_to := to\<rparr> in do {
                P2 \<leftarrow> (if m_to msg1 = 0
                  then service_write_receipt P1 i MESSAGE_RECEIPT_ERROR (Some msg1)
                  else service_write_receipt P1 i MESSAGE_RECEIPT_RESPONCE (Some msg1));
                Some (t\<lparr>t_services := P2\<rparr>)
              })
      else if m_type msg = MESSAGE_SCHEDULE_DEL
      then do {
        P1 \<leftarrow> service_delete P sid;
        let P2 = P1\<lparr>p_freed := message_delete (Some msg) (p_freed P1)\<rparr>;
        P3 \<leftarrow> service_write_receipt P2 i MESSAGE_RECEIPT_DONE None;
        Some (t\<lparr>t_services := P3\<rparr>)
      }
      else do {
        P1 \<leftarrow> service_write_receipt P i MESSAGE_RECEIPT_ERROR (Some msg);
        Some (t\<lparr>t_services := P1\<rparr>)
      })"

text \<open>\<open>sockevent_trigger(&task->event[n])\<close>.\<close>

definition trigger_event :: "ltask \<Rightarrow> int \<Rightarrow> ltask option" where
  "trigger_event t n =
     (if 0 \<le> n \<and> nat n < length (t_event t)
      then Some (t\<lparr>t_event := (t_event t)[nat n := fst (sockevent_trigger (t_event t ! nat n))]\<rparr>)
      else None)"

definition check_message_to :: "ltask \<Rightarrow> service_id \<Rightarrow> ltask option" where
  "check_message_to t to =
     (if service_status_get (t_services t) to = SERVICE_STATUS_IDLE
      then schedule_back
        (t\<lparr>t_services := service_status_set (t_services t) to SERVICE_STATUS_SCHEDULE\<rparr>) to
      else (let sockid = service_sockevent_get (t_services t) to in
            if sockid \<ge> 0 then trigger_event t sockid else Some t))"

definition dispatch_out_message :: "ltask \<Rightarrow> service_id \<Rightarrow> message \<Rightarrow> ltask option" where
  "dispatch_out_message t i msg =
     (if m_to msg = SERVICE_ID_SYSTEM then dispatch_schedule_message t i msg
      else do {
        (r, P) \<leftarrow> service_push_message (t_services t) (m_to msg) (Some msg);
        P1 \<leftarrow> (if r = 0 then service_write_receipt P i MESSAGE_RECEIPT_DONE None
               else if r = 1 then service_write_receipt P i MESSAGE_RECEIPT_BLOCK (Some msg)
               else service_write_receipt P i MESSAGE_RECEIPT_ERROR (Some msg));
        check_message_to (t\<lparr>t_services := P1\<rparr>) (m_to msg)
      })"

text \<open>The local array \<open>jobs[MAX_WORKER]\<close>: writing past its end is undefined.\<close>

definition jobs_push :: "service_id list \<Rightarrow> service_id \<Rightarrow> service_id list option" where
  "jobs_push jobs i = (if int (length jobs) < MAX_WORKER then Some (jobs @ [i]) else None)"

fun collect_done_loop :: "ltask \<Rightarrow> service_id list \<Rightarrow> int list \<Rightarrow> (service_id list \<times> ltask) option" where
  "collect_done_loop t jobs [] = Some (jobs, t)"
| "collect_done_loop t jobs (n # ns) = do {
     w \<leftarrow> worker_at t n;
     (case worker_done_job w of (job, w1) \<Rightarrow>
        let t1 = set_worker t n w1 in
        if job \<noteq> 0
        then do {
          jobs1 \<leftarrow> jobs_push jobs job;
          collect_done_loop t1 jobs1 ns
        }
        else collect_done_loop t1 jobs ns)
   }"

definition collect_done_job :: "ltask \<Rightarrow> (service_id list \<times> ltask) option" where
  "collect_done_job t = collect_done_loop t [] (worker_ids t)"

definition idle_message :: "service_id \<Rightarrow> message" where
  "idle_message i = \<lparr>m_from = SERVICE_ID_SYSTEM, m_to = i, m_session = 0, m_type = MESSAGE_IDLE,
     m_msg = 0, m_sz = 0\<rparr>"

text \<open>The body of \<open>dispath_out_messages\<close> for a dead service, and for the others.\<close>

definition dispatch_dead :: "ltask \<Rightarrow> service_id \<Rightarrow> ltask option" where
  "dispatch_dead t i =
     (case service_message_out (t_services t) i of
        (None, _) \<Rightarrow> None
      | (Some msg, P) \<Rightarrow> do {
          c_assert (m_to msg = SERVICE_ID_ROOT \<and> m_type msg = MESSAGE_SIGNAL);
          (r, P1) \<leftarrow> service_push_message P (m_to msg) (Some msg);
          let t1 = t\<lparr>t_services := P1\<rparr>;
          if r = 0 then check_message_to t1 (m_to msg)
          else if r = 1 then schedule_back t1 i
          else do {
            P2 \<leftarrow> service_delete P1 i;
            Some (t1\<lparr>t_services := P2\<rparr>)
          }
        })"

definition dispatch_alive :: "ltask \<Rightarrow> service_id \<Rightarrow> int \<Rightarrow> ltask option" where
  "dispatch_alive t i status =
     (case service_message_out (t_services t) i of (msg, P) \<Rightarrow> do {
        t1 \<leftarrow> (case msg of
                 None \<Rightarrow> Some (t\<lparr>t_services := P\<rparr>)
               | Some m \<Rightarrow> dispatch_out_message (t\<lparr>t_services := P\<rparr>) i m);
        c_assert (status = SERVICE_STATUS_DONE);
        has \<leftarrow> service_has_message (t_services t1) i;
        if has = 0
        then (let sockid = service_sockevent_get (t_services t1) i in
              if sockid \<ge> 0
              then (case message_new (p_malloc (t_services t1)) (idle_message i) of (m, mem) \<Rightarrow> do {
                      (r, P2) \<leftarrow> service_push_message ((t_services t1)\<lparr>p_malloc := mem\<rparr>) i m;
                      schedule_back
                        (t1\<lparr>t_services := service_status_set P2 i SERVICE_STATUS_SCHEDULE\<rparr>) i
                    })
              else Some (t1\<lparr>t_services := service_status_set (t_services t1) i SERVICE_STATUS_IDLE\<rparr>))
        else schedule_back
               (t1\<lparr>t_services := service_status_set (t_services t1) i SERVICE_STATUS_SCHEDULE\<rparr>) i
      })"

definition dispatch_done :: "ltask \<Rightarrow> service_id \<Rightarrow> ltask option" where
  "dispatch_done t i =
     (let status = service_status_get (t_services t) i in
      if status = SERVICE_STATUS_DEAD then dispatch_dead t i else dispatch_alive t i status)"

fun dispath_out_messages :: "ltask \<Rightarrow> service_id list \<Rightarrow> ltask option" where
  "dispath_out_messages t [] = Some t"
| "dispath_out_messages t (i # is) = do {
     t1 \<leftarrow> dispatch_done t i;
     dispath_out_messages t1 is
   }"

section \<open>Finding work\<close>

text \<open>\<open>kick_running\<close> marks the worker and the scheduler.\<close>

definition kick_running :: "ltask \<Rightarrow> int \<Rightarrow> service_id \<Rightarrow> ltask option" where
  "kick_running t n i = do {
     w \<leftarrow> worker_at t n;
     Some ((set_worker t n (w\<lparr>w_waiting := i\<rparr>))\<lparr>t_blocked_service := 1\<rparr>)
   }"

definition wakeup_worker :: "ltask \<Rightarrow> int \<Rightarrow> ltask option" where
  "wakeup_worker t n = do {
     w \<leftarrow> worker_at t n;
     Some (set_worker t n (snd (worker_wakeup w)))
   }"

fun count_freeslot_loop :: "ltask \<Rightarrow> int \<Rightarrow> int list \<Rightarrow> (int \<times> ltask) option" where
  "count_freeslot_loop t free_slot [] = Some (free_slot, t)"
| "count_freeslot_loop t free_slot (n # ns) = do {
     w \<leftarrow> worker_at t n;
     if w_service_ready w = 0
     then do {
       (h, q) \<leftarrow> binding_pop (w_binding_queue w);
       (case h of
          None \<Rightarrow> count_freeslot_loop t (if \<not> worker_has_job w then free_slot + 1 else free_slot) ns
        | Some i \<Rightarrow> do {
            let t1 = set_worker t n (w\<lparr>w_binding_queue := q, w_service_ready := int_of_id i\<rparr>);
            t2 \<leftarrow> kick_running t1 n i;
            t3 \<leftarrow> wakeup_worker t2 n;
            count_freeslot_loop t3 free_slot ns
          })
     }
     else count_freeslot_loop t free_slot ns
   }"

definition count_freeslot :: "ltask \<Rightarrow> (int \<times> ltask) option" where
  "count_freeslot t = count_freeslot_loop t 0 (worker_ids t)"

text \<open>
  One turn of the loop of \<open>prepare_task\<close>, for a job just taken from the run queue: the new
  \<open>prepare\<close> array and by how much \<open>free_slot\<close> shrinks.
\<close>

definition prepare_job :: "ltask \<Rightarrow> service_id list \<Rightarrow> int \<Rightarrow> (service_id list \<times> nat \<times> ltask) option" where
  "prepare_job t prepare job =
     (let i = id_of_int job; worker = service_binding_get (t_services t) i in
      if worker < 0
      then do {
        prepare1 \<leftarrow> jobs_push prepare i;
        Some (prepare1, 0, t)
      }
      else do {
        w \<leftarrow> worker_at t worker;
        (r, w1) \<leftarrow> worker_binding_job w i;
        let t1 = set_worker t worker w1;
        if r \<noteq> 0
        then do {
          (r2, q) \<leftarrow> queue_push_int (t_schedule t1) job;
          Some (prepare, 0, t1\<lparr>t_schedule := q\<rparr>)
        }
        else do {
          (i', w2) \<leftarrow> worker_assign_job w1 i;
          let t2 = set_worker t1 worker w2;
          if i' \<noteq> 0
          then do {
            t3 \<leftarrow> kick_running t2 worker i';
            t4 \<leftarrow> wakeup_worker t3 worker;
            Some (prepare, 1, t4)
          }
          else Some (prepare, 0, t2)
        }
      })"

function prepare_loop ::
  "int \<Rightarrow> int \<Rightarrow> service_id list \<Rightarrow> ltask \<Rightarrow> (service_id list \<times> ltask) option" where
  "prepare_loop k free_slot prepare t =
     (if k < free_slot
      then (case queue_pop_int (t_schedule t) of
              None \<Rightarrow> None
            | Some (job, q) \<Rightarrow>
                if job = 0 then Some (prepare, t\<lparr>t_schedule := q\<rparr>)
                else (case prepare_job (t\<lparr>t_schedule := q\<rparr>) prepare job of
                        None \<Rightarrow> None
                      | Some (prepare1, d, t1) \<Rightarrow>
                          prepare_loop (k + 1) (free_slot - int d) prepare1 t1))
      else Some (prepare, t))"
  by pat_completeness auto
termination
  by (relation "measure (\<lambda>(k, free_slot, prepare, t). nat (free_slot - k))") auto

declare prepare_loop.simps [simp del]

text \<open>\<open>prepare\<close> comes in with the \<open>job_n\<close> stolen jobs.\<close>

definition prepare_task :: "ltask \<Rightarrow> service_id list \<Rightarrow> int \<Rightarrow> (service_id list \<times> ltask) option" where
  "prepare_task t prepare free_slot = prepare_loop 0 free_slot prepare t"

fun trigger_blocked_loop :: "ltask \<Rightarrow> int \<Rightarrow> int list \<Rightarrow> (int \<times> ltask) option" where
  "trigger_blocked_loop t blocked [] = Some (blocked, t)"
| "trigger_blocked_loop t blocked (n # ns) = do {
     w \<leftarrow> worker_at t n;
     if w_waiting w \<noteq> 0
     then (if w_running w \<noteq> 0
           then do {
             let sockevent_id = service_sockevent_get (t_services t) (w_running w);
             t1 \<leftarrow> (if sockevent_id \<ge> 0 then trigger_event t sockevent_id else Some t);
             trigger_blocked_loop (set_worker t1 n (w\<lparr>w_waiting := 0\<rparr>)) blocked ns
           }
           else trigger_blocked_loop t 1 ns)
     else trigger_blocked_loop t blocked ns
   }"

definition trigger_blocked_workers :: "ltask \<Rightarrow> ltask option" where
  "trigger_blocked_workers t =
     (if t_blocked_service t = 0 then Some t
      else do {
        (blocked, t1) \<leftarrow> trigger_blocked_loop t 0 (worker_ids t);
        Some (t1\<lparr>t_blocked_service := blocked\<rparr>)
      })"

text \<open>
  The head of the inner loop of \<open>assign_prepare_task\<close>: the worker to try next and the two
  flags; the assertion fails when the workers are exhausted for the third time.
\<close>

definition next_worker :: "int \<Rightarrow> int \<Rightarrow> int \<Rightarrow> int \<Rightarrow> (int \<times> int \<times> int) option" where
  "next_worker worker_n worker_id use_busy use_binding =
     (if worker_id \<ge> worker_n
      then (if use_busy = 0 then Some (0, 1, use_binding)
            else if use_binding = 0 then Some (0, use_busy, 1) else None)
      else Some (worker_id, use_busy, use_binding))"

function assign_one ::
  "ltask \<Rightarrow> service_id \<Rightarrow> int \<Rightarrow> int \<Rightarrow> int \<Rightarrow> (ltask \<times> int \<times> int \<times> int) option" where
  "assign_one t i worker_id use_busy use_binding =
     (case next_worker (c_worker (t_config t)) worker_id use_busy use_binding of
        None \<Rightarrow> None
      | Some (n, busy, binding) \<Rightarrow>
          (case worker_at t n of
             None \<Rightarrow> None
           | Some w \<Rightarrow>
               if (busy \<noteq> 0 \<or> w_busy w = 0) \<and> (w_binding w = 0 \<or> binding \<noteq> 0)
               then (case worker_assign_job w i of
                       None \<Rightarrow> None
                     | Some (assign, w1) \<Rightarrow>
                         if assign \<noteq> 0
                         then (let t1 = set_worker t n (snd (worker_wakeup w1)) in
                               if assign = i then Some (t1, n + 1, busy, binding)
                               else assign_one t1 i (n + 1) busy binding)
                         else assign_one (set_worker t n w1) i (n + 1) busy binding)
               else assign_one t i (n + 1) busy binding))"
  by pat_completeness auto
termination
  by (relation "measures [\<lambda>(t, i, worker_id, use_busy, use_binding).
        (if use_busy = 0 then 1 else 0) + (if use_binding = 0 then 1 else 0 :: nat),
        \<lambda>(t, i, worker_id, use_busy, use_binding). nat (c_worker (t_config t) - worker_id)]")
    (auto simp: next_worker_def set_worker_def split: if_splits)

declare assign_one.simps [simp del]

fun assign_prepare_loop :: "ltask \<Rightarrow> service_id list \<Rightarrow> int \<Rightarrow> int \<Rightarrow> int \<Rightarrow> ltask option" where
  "assign_prepare_loop t [] worker_id use_busy use_binding = Some t"
| "assign_prepare_loop t (i # is) worker_id use_busy use_binding = do {
     (t1, n, busy, binding) \<leftarrow> assign_one t i worker_id use_busy use_binding;
     assign_prepare_loop t1 is n busy binding
   }"

definition assign_prepare_task :: "ltask \<Rightarrow> service_id list \<Rightarrow> ltask option" where
  "assign_prepare_task t prepare = assign_prepare_loop t prepare 0 0 0"

fun pending_loop ::
  "(int \<Rightarrow> bool) \<Rightarrow> ltask \<Rightarrow> service_id list \<Rightarrow> int list \<Rightarrow> (service_id list \<times> ltask) option" where
  "pending_loop fails t jobs [] = Some (jobs, t)"
| "pending_loop fails t jobs (n # ns) = do {
     w \<leftarrow> worker_at t n;
     if w_busy w \<noteq> 0
     then (case worker_steal_job (fails n) w (t_services t) of (i, w1) \<Rightarrow>
             let t1 = set_worker t n w1 in
             if i \<noteq> 0
             then do {
               jobs1 \<leftarrow> jobs_push jobs i;
               pending_loop fails t1 jobs1 ns
             }
             else pending_loop fails t1 jobs ns)
     else pending_loop fails t jobs ns
   }"

definition get_pending_jobs :: "(int \<Rightarrow> bool) \<Rightarrow> ltask \<Rightarrow> (service_id list \<times> ltask) option" where
  "get_pending_jobs fails t = pending_loop fails t [] (worker_ids t)"

section \<open>External messages\<close>

definition send_external_message :: "ltask \<Rightarrow> message option \<Rightarrow> (int \<times> ltask) option" where
  "send_external_message t msg =
     (case msg of
        None \<Rightarrow> None
      | Some m \<Rightarrow> do {
          (r, P) \<leftarrow> service_push_message (t_services t) (m_to m) (Some m);
          if r = 0 then Some (0, t\<lparr>t_services := P\<rparr>)
          else if r = 1 then Some (1, t\<lparr>t_services := P\<rparr>)
          else Some (0, t\<lparr>t_services := P\<lparr>p_freed := message_delete (Some m) (p_freed P)\<rparr>\<rparr>)
        })"

text \<open>
  \<open>pack\<close> is where \<open>seri_packstring\<close> puts the packed message, and its size: the allocator's
  choice, for the pointer the sender gave.
\<close>

definition external_message_of :: "ptr \<times> u64 \<Rightarrow> message" where
  "external_message_of b = \<lparr>m_from = 0, m_to = 1, m_session = 0, m_type = MESSAGE_REQUEST,
     m_msg = fst b, m_sz = snd b\<rparr>"

text \<open>The loop of \<open>dispatch_external_messages\<close>; the flag of the answer is its return inside.\<close>

fun external_loop ::
  "nat \<Rightarrow> (ptr \<Rightarrow> ptr \<times> u64) \<Rightarrow> ptr queue \<Rightarrow> int \<Rightarrow> ltask \<Rightarrow> (bool \<times> int \<times> ltask) option" where
  "external_loop 0 pack q send t = None"
| "external_loop (Suc fuel) pack q send t = do {
     (msg, q1) \<leftarrow> queue_pop_ptr q;
     let t1 = t\<lparr>t_external_message := Some q1\<rparr>;
     (case msg of
        None \<Rightarrow> Some (False, send, t1)
      | Some v \<Rightarrow>
          (case message_new (p_malloc (t_services t1)) (external_message_of (pack v)) of
             (em, mem) \<Rightarrow> do {
               (r, t2) \<leftarrow> send_external_message (t1\<lparr>t_services := (t_services t1)\<lparr>p_malloc := mem\<rparr>\<rparr>) em;
               if r \<noteq> 0 then Some (True, send, t2\<lparr>t_external_last_message := em\<rparr>)
               else external_loop fuel pack q1 1 t2
             }))
   }"

definition external_finish :: "int \<Rightarrow> (ptr \<Rightarrow> ptr \<times> u64) \<Rightarrow> ltask \<Rightarrow> ltask option" where
  "external_finish send pack t =
     (case t_external_message t of
        None \<Rightarrow> None
      | Some q \<Rightarrow> do {
          (blocked, send1, t1) \<leftarrow> external_loop (nat (q_size q) + 1) pack q send t;
          if blocked then Some t1
          else if send1 \<noteq> 0 then check_message_to t1 1
          else Some t1
        })"

definition dispatch_external_messages :: "(ptr \<Rightarrow> ptr \<times> u64) \<Rightarrow> ltask \<Rightarrow> ltask option" where
  "dispatch_external_messages pack t =
     (if t_external_last_message t \<noteq> None
      then do {
        (r, t1) \<leftarrow> send_external_message t (t_external_last_message t);
        if r \<noteq> 0 then Some t1
        else external_finish 1 pack (t1\<lparr>t_external_last_message := None\<rparr>)
      }
      else external_finish 0 pack t)"

section \<open>A scheduling round\<close>

definition schedule_dispatch :: "(int \<Rightarrow> bool) \<Rightarrow> (ptr \<Rightarrow> ptr \<times> u64) \<Rightarrow> ltask \<Rightarrow> ltask option" where
  "schedule_dispatch fails pack t0 = do {
     t1 \<leftarrow> (if t_external_message t0 \<noteq> None then dispatch_external_messages pack t0 else Some t0);
     (done, t2) \<leftarrow> collect_done_job t1;
     t3 \<leftarrow> dispath_out_messages t2 done;
     (jobs, t4) \<leftarrow> get_pending_jobs fails t3;
     (free_slot, t5) \<leftarrow> count_freeslot t4;
     c_assert (free_slot \<ge> int (length jobs));
     (prepare, t6) \<leftarrow> prepare_task t5 jobs (free_slot - int (length jobs));
     t7 \<leftarrow> assign_prepare_task t6 prepare;
     trigger_blocked_workers t7
   }"

text \<open>\<open>acquire_scheduler\<close> and \<open>release_scheduler\<close>; 0 is success.\<close>

definition acquire_scheduler :: "bool \<Rightarrow> int \<Rightarrow> ltask \<Rightarrow> int \<times> ltask" where
  "acquire_scheduler fails worker_id t =
     (case atomic_int_cas fails (t_schedule_owner t) THREAD_NONE worker_id of
        (True, v) \<Rightarrow> (0, t\<lparr>t_schedule_owner := v\<rparr>)
      | (False, v) \<Rightarrow> (1, t\<lparr>t_schedule_owner := v\<rparr>))"

definition release_scheduler :: "int \<Rightarrow> ltask \<Rightarrow> ltask option" where
  "release_scheduler worker_id t = do {
     c_assert (t_schedule_owner t = worker_id);
     Some (t\<lparr>t_schedule_owner := THREAD_NONE\<rparr>)
   }"

fun steal_loop :: "(int \<Rightarrow> bool) \<Rightarrow> ltask \<Rightarrow> int list \<Rightarrow> (service_id \<times> ltask) option" where
  "steal_loop fails t [] = Some (0, t)"
| "steal_loop fails t (n # ns) = do {
     w \<leftarrow> worker_at t n;
     (case worker_steal_job (fails n) w (t_services t) of (job, w1) \<Rightarrow>
        let t1 = set_worker t n w1 in
        if job \<noteq> 0 then Some (job, t1) else steal_loop fails t1 ns)
   }"

definition steal_job :: "(int \<Rightarrow> bool) \<Rightarrow> ltask \<Rightarrow> (service_id \<times> ltask) option" where
  "steal_job fails t = steal_loop fails t (worker_ids t)"

text \<open>What \<open>schedule_dispatch_worker\<close> does after the round; 1 means no job.\<close>

definition find_job :: "(int \<Rightarrow> bool) \<Rightarrow> int \<Rightarrow> ltask \<Rightarrow> (int \<times> ltask) option" where
  "find_job fails n t = do {
     w \<leftarrow> worker_at t n;
     if \<not> worker_has_job w
     then (if w_binding w \<noteq> 0 then Some (1, t)
           else do {
             (job, t1) \<leftarrow> steal_job fails t;
             if job \<noteq> 0
             then do {
               w1 \<leftarrow> worker_at t1 n;
               Some (0, set_worker t1 n (w1\<lparr>w_service_ready := int_of_id job\<rparr>))
             }
             else Some (1, t1)
           })
     else Some (0, t)
   }"

definition schedule_dispatch_worker ::
  "(int \<Rightarrow> bool) \<Rightarrow> (ptr \<Rightarrow> ptr \<times> u64) \<Rightarrow> int \<Rightarrow> ltask \<Rightarrow> (int \<times> ltask) option" where
  "schedule_dispatch_worker fails pack n t = do {
     t1 \<leftarrow> schedule_dispatch fails pack t;
     find_job fails n t1
   }"

section \<open>When root quits\<close>

fun wakeup_loop :: "ltask \<Rightarrow> int list \<Rightarrow> ltask option" where
  "wakeup_loop t [] = Some t"
| "wakeup_loop t (n # ns) = do {
     t1 \<leftarrow> wakeup_worker t n;
     wakeup_loop t1 ns
   }"

definition wakeup_all_workers :: "ltask \<Rightarrow> ltask option" where
  "wakeup_all_workers t = wakeup_loop t (worker_ids t)"

fun quit_loop :: "ltask \<Rightarrow> int list \<Rightarrow> ltask option" where
  "quit_loop t [] = Some t"
| "quit_loop t (n # ns) = do {
     w \<leftarrow> worker_at t n;
     quit_loop (set_worker t n (w\<lparr>w_term_signal := 1\<rparr>)) ns
   }"

definition quit_all_workers :: "ltask \<Rightarrow> ltask option" where
  "quit_all_workers t = quit_loop t (worker_ids t)"

fun trigger_loop :: "ltask \<Rightarrow> int list \<Rightarrow> ltask option" where
  "trigger_loop t [] = Some t"
| "trigger_loop t (n # ns) = do {
     t1 \<leftarrow> trigger_event t n;
     trigger_loop t1 ns
   }"

definition trigger_all_sockevent :: "ltask \<Rightarrow> ltask option" where
  "trigger_all_sockevent t = trigger_loop t (map int [0 ..< MAX_SOCKEVENT])"

end
