(* ===== verification/SchedInv.thy ===== *)
theory SchedInv
  imports Sched
begin

text \<open>
  The scheduling round moves jobs: from the run queue to a worker's \<open>service_ready\<close> or its
  binding queue, from one worker to another. This theory shows that it does nothing else:
  every job that goes in comes out, none twice, no assertion fails, no access leaves an
  array, and the rest of the state is untouched (\<open>moves\<close>).
\<close>

section \<open>Where a job can be\<close>

definition opt_job :: "service_id \<Rightarrow> service_id multiset" where
  "opt_job i = (if i = 0 then {#} else {#i#})"

lemma opt_job_simps [simp]: "opt_job 0 = {#}" "i \<noteq> 0 \<Longrightarrow> opt_job i = {#i#}"
  by (simp_all add: opt_job_def)

definition worker_jobs :: "worker_thread \<Rightarrow> service_id multiset" where
  "worker_jobs w = opt_job (id_of_int (w_service_ready w)) + mset (binding_list (w_binding_queue w))"

definition run_queue :: "ltask \<Rightarrow> service_id list" where
  "run_queue t = map id_of_int (queue_list (t_schedule t))"

text \<open>The jobs waiting for a worker.\<close>

definition queued :: "ltask \<Rightarrow> service_id multiset" where
  "queued t = mset (run_queue t) + sum_list (map worker_jobs (t_workers t))"

definition job_ints :: "int set" where
  "job_ints = range int_of_id"

lemma job_ints_simps [simp]:
  "int_of_id i \<in> job_ints" "0 \<in> job_ints"
  "v \<in> job_ints \<Longrightarrow> int_of_id (id_of_int v) = v"
  by (auto simp: job_ints_def intro: range_eqI [of _ _ 0])

lemma id_of_int_0 [simp]: "id_of_int 0 = 0"
  by (simp add: id_of_int_def)

lemma id_of_int_eq_0: "v \<in> job_ints \<Longrightarrow> id_of_int v = 0 \<longleftrightarrow> v = 0"
  by (metis id_of_int_0 int_of_id_eq_0 job_ints_simps(3))

definition worker_wf :: "worker_thread \<Rightarrow> bool" where
  "worker_wf w \<longleftrightarrow> binding_wf (w_binding_queue w) \<and> 0 \<notin> set (binding_list (w_binding_queue w))
     \<and> w_service_ready w \<in> job_ints \<and> w_service_done w \<in> job_ints"

definition sched_wf :: "ltask \<Rightarrow> bool" where
  "sched_wf t \<longleftrightarrow>
     queue_wf (t_schedule t) \<and> set (queue_list (t_schedule t)) \<subseteq> job_ints - {0}
     \<and> 1 \<le> c_worker (t_config t) \<and> c_worker (t_config t) \<le> MAX_WORKER
     \<and> length (t_workers t) = nat (c_worker (t_config t))
     \<and> (\<forall>n < length (t_workers t). worker_wf (t_workers t ! n) \<and> w_worker_id (t_workers t ! n) = int n)
     \<and> (\<forall>i. service_binding_get (t_services t) i < c_worker (t_config t))
     \<and> (\<forall>i. service_sockevent_get (t_services t) i < int MAX_SOCKEVENT)
     \<and> length (t_event t) = MAX_SOCKEVENT"

lemma sched_wf_worker:
  assumes "sched_wf t" and "0 \<le> n" and "n < c_worker (t_config t)"
  shows "worker_at t n = Some (t_workers t ! nat n)" and "worker_wf (t_workers t ! nat n)"
    and "w_worker_id (t_workers t ! nat n) = n" and "nat n < length (t_workers t)"
  using assms by (auto simp: sched_wf_def worker_at_def)

lemma worker_at_wf:
  assumes "sched_wf t" and "worker_at t n = Some w"
  shows "worker_wf w" and "w_worker_id w = n" and "0 \<le> n" and "n < c_worker (t_config t)"
    and "w = t_workers t ! nat n" and "nat n < length (t_workers t)"
  using assms by (auto simp: sched_wf_def worker_at_def split: if_splits)

lemma worker_ids_range: "sched_wf t \<Longrightarrow> n \<in> set (worker_ids t) \<Longrightarrow> 0 \<le> n \<and> n < c_worker (t_config t)"
  by (auto simp: worker_ids_def)

text \<open>The part of a worker that scheduling leaves alone.\<close>

definition w_core :: "worker_thread \<Rightarrow> int \<times> service_id \<times> service_id \<times> int \<times> int \<times> int" where
  "w_core w = (w_worker_id w, w_running w, w_binding w, w_service_done w, w_busy w, w_term_signal w)"

definition moves :: "ltask \<Rightarrow> ltask \<Rightarrow> bool" where
  "moves t t' \<longleftrightarrow> sched_wf t' \<and> t_services t' = t_services t \<and> t_config t' = t_config t
     \<and> t_external_message t' = t_external_message t
     \<and> t_external_last_message t' = t_external_last_message t
     \<and> t_schedule_owner t' = t_schedule_owner t
     \<and> q_size (t_schedule t') = q_size (t_schedule t)
     \<and> map w_core (t_workers t') = map w_core (t_workers t)"

lemma moves_refl: "sched_wf t \<Longrightarrow> moves t t"
  by (simp add: moves_def)

lemma moves_trans: "moves t t1 \<Longrightarrow> moves t1 t2 \<Longrightarrow> moves t t2"
  by (simp add: moves_def)

lemma moves_wf: "moves t t' \<Longrightarrow> sched_wf t'"
  by (simp add: moves_def)

lemma moves_worker_ids: "moves t t' \<Longrightarrow> worker_ids t' = worker_ids t"
  by (simp add: moves_def worker_ids_def)

lemma queued_worker:
  assumes "n < length (t_workers t)" and "i \<in># worker_jobs (t_workers t ! n)"
  shows "i \<in># queued t"
proof -
  have "worker_jobs (t_workers t ! n) \<subseteq># sum_list (map worker_jobs (t_workers t))"
    using sum_list_map_remove1 [OF nth_mem [OF assms(1)], of worker_jobs] by simp
  with assms(2) show ?thesis by (auto simp: queued_def dest: mset_subset_eqD)
qed

section \<open>Updating one worker\<close>

lemma set_worker_simps [simp]:
  "t_services (set_worker t n w) = t_services t" "t_config (set_worker t n w) = t_config t"
  "t_schedule (set_worker t n w) = t_schedule t" "t_event (set_worker t n w) = t_event t"
  "t_external_message (set_worker t n w) = t_external_message t"
  "t_external_last_message (set_worker t n w) = t_external_last_message t"
  "t_schedule_owner (set_worker t n w) = t_schedule_owner t"
  "t_blocked_service (set_worker t n w) = t_blocked_service t"
  "length (t_workers (set_worker t n w)) = length (t_workers t)"
  "run_queue (set_worker t n w) = run_queue t"
  "worker_ids (set_worker t n w) = worker_ids t"
  by (simp_all add: set_worker_def run_queue_def worker_ids_def)

lemma worker_at_set [simp]:
  "worker_at t n = Some w0 \<Longrightarrow> worker_at (set_worker t n w) n = Some w"
  "worker_at t n = Some w0 \<Longrightarrow> set_worker (set_worker t n w) n w' = set_worker t n w'"
  by (auto simp: worker_at_def set_worker_def split: if_splits)

lemma set_worker_moves:
  assumes wf: "sched_wf t" and w: "worker_at t n = Some w" and "worker_wf w'" and "w_core w' = w_core w"
  shows "moves t (set_worker t n w')"
proof -
  note at = worker_at_wf [OF wf w]
  have "map w_core ((t_workers t)[nat n := w']) = map w_core (t_workers t)"
    using at(5,6) assms(4) by (metis list_update_id map_update)
  moreover have "sched_wf (set_worker t n w')"
  proof -
    have id: "w_worker_id w' = n" using assms(4) at(2) by (simp add: w_core_def)
    have "worker_wf ((t_workers t)[nat n := w'] ! m) \<and> w_worker_id ((t_workers t)[nat n := w'] ! m) = int m"
      if "m < length (t_workers t)" for m
    proof (cases "m = nat n")
      case True
      then show ?thesis using that assms(3) id at(3) by simp
    next
      case False
      then show ?thesis using that wf by (simp add: sched_wf_def)
    qed
    with wf show ?thesis by (simp add: sched_wf_def set_worker_def)
  qed
  ultimately show ?thesis by (simp add: moves_def set_worker_def)
qed

lemma queued_set_worker:
  assumes w: "worker_at t n = Some w"
  shows "queued (set_worker t n w') + worker_jobs w = queued t + worker_jobs w'"
proof -
  from w have "nat n < length (t_workers t)" "t_workers t ! nat n = w"
    by (auto simp: worker_at_def split: if_splits)
  with sum_list_slot_update [of "nat n" "t_workers t" worker_jobs w']
  have "sum_list (map worker_jobs ((t_workers t)[nat n := w'])) + worker_jobs w
      = sum_list (map worker_jobs (t_workers t)) + worker_jobs w'" by simp
  then show ?thesis by (simp add: queued_def set_worker_def run_queue_def ac_simps)
qed

lemma queued_same:
  "worker_at t n = Some w \<Longrightarrow> worker_jobs w' = worker_jobs w \<Longrightarrow> queued (set_worker t n w') = queued t"
  using queued_set_worker [of t n w w'] by simp

lemma kick_running_moves:
  assumes wf: "sched_wf t" and w: "worker_at t n = Some w"
  shows "\<exists>t'. kick_running t n i = Some t' \<and> moves t t' \<and> queued t' = queued t
    \<and> worker_at t' n = Some (w\<lparr>w_waiting := i\<rparr>)
    \<and> (\<forall>m. m \<noteq> n \<longrightarrow> worker_at t' m = worker_at t m)"
proof -
  let ?t1 = "set_worker t n (w\<lparr>w_waiting := i\<rparr>)"
  let ?t = "?t1\<lparr>t_blocked_service := 1\<rparr>"
  note at = worker_at_wf [OF wf w]
  have m: "moves t ?t1"
    using at(1) by (intro set_worker_moves [OF wf w]) (simp_all add: worker_wf_def w_core_def)
  then have "moves t ?t" by (simp add: moves_def sched_wf_def)
  moreover have "queued ?t1 = queued t" by (rule queued_same [OF w]) (simp add: worker_jobs_def)
  then have "queued ?t = queued t" by (simp add: queued_def run_queue_def)
  moreover have "worker_at ?t m = worker_at ?t1 m" for m by (simp add: worker_at_def)
  moreover have "worker_at ?t1 m = worker_at t m" if "m \<noteq> n" for m
    using that at(3) by (auto simp: worker_at_def set_worker_def)
  ultimately show ?thesis using w by (intro exI [of _ ?t]) (simp add: kick_running_def)
qed

lemma wakeup_worker_moves:
  assumes wf: "sched_wf t" and w: "worker_at t n = Some w"
  shows "\<exists>t'. wakeup_worker t n = Some t' \<and> moves t t' \<and> queued t' = queued t
    \<and> worker_at t' n = Some (w\<lparr>w_wakeup := 1\<rparr>)
    \<and> (\<forall>m. m \<noteq> n \<longrightarrow> worker_at t' m = worker_at t m)"
proof -
  let ?t = "set_worker t n (w\<lparr>w_wakeup := 1\<rparr>)"
  note at = worker_at_wf [OF wf w]
  have "moves t ?t"
    using at(1) by (intro set_worker_moves [OF wf w]) (simp_all add: worker_wf_def w_core_def)
  moreover have "queued ?t = queued t" by (rule queued_same [OF w]) (simp add: worker_jobs_def)
  moreover have "worker_at ?t m = worker_at t m" if "m \<noteq> n" for m
    using that at(3) by (auto simp: worker_at_def set_worker_def)
  ultimately show ?thesis using w by (intro exI [of _ ?t]) (simp add: wakeup_worker_def worker_wakeup_def)
qed

section \<open>Free workers\<close>

definition free_worker :: "worker_thread \<Rightarrow> bool" where
  "free_worker w \<longleftrightarrow> w_service_ready w = 0 \<and> binding_list (w_binding_queue w) = []"

definition nfree :: "ltask \<Rightarrow> nat" where
  "nfree t = length (filter free_worker (t_workers t))"

lemma length_filter_update:
  "n < length xs \<Longrightarrow>
     length (filter P (xs[n := y])) + (if P (xs ! n) then 1 else 0)
   = length (filter P xs) + (if P y then 1 else 0)"
proof (induction xs arbitrary: n)
  case Nil
  then show ?case by simp
next
  case (Cons x xs)
  then show ?case by (cases n) auto
qed

lemma nfree_set_worker:
  assumes "worker_at t n = Some w"
  shows "nfree (set_worker t n w') + (if free_worker w then 1 else 0)
    = nfree t + (if free_worker w' then 1 else 0)"
  using assms length_filter_update [of "nat n" "t_workers t" free_worker w']
  by (auto simp: nfree_def set_worker_def worker_at_def split: if_splits)

lemma nfree_le: "nfree t \<le> length (t_workers t)"
  by (simp add: nfree_def)

lemma blocked_frame [simp]:
  "nfree (t\<lparr>t_blocked_service := b\<rparr>) = nfree t"
  "queued (t\<lparr>t_blocked_service := b\<rparr>) = queued t"
  "sched_wf (t\<lparr>t_blocked_service := b\<rparr>) = sched_wf t"
  "moves t0 (t\<lparr>t_blocked_service := b\<rparr>) = moves t0 t"
  by (simp_all add: nfree_def queued_def run_queue_def sched_wf_def moves_def)

section \<open>The mailbox operations of a worker\<close>

lemma assign_job_cases:
  assumes wf: "worker_wf w" and i: "i \<noteq> 0"
  obtains (busy) "w_service_ready w \<noteq> 0" "worker_assign_job w i = Some (0, w)"
    | (free) "free_worker w" "worker_assign_job w i = Some (i, w\<lparr>w_service_ready := int_of_id i\<rparr>)"
    | (bound) b w' where "w_service_ready w = 0" "\<not> free_worker w" "b \<noteq> 0"
      "b \<in> set (binding_list (w_binding_queue w))"
      "worker_assign_job w i = Some (b, w')" "worker_wf w'" "w_core w' = w_core w"
      "worker_jobs w' = worker_jobs w" "w_service_ready w' \<noteq> 0" "w_waiting w' = w_waiting w"
proof (cases "w_service_ready w = 0")
  case False
  then show ?thesis using busy by (simp add: worker_assign_job_def)
next
  case ready: True
  have q: "binding_wf (w_binding_queue w)" using wf by (simp add: worker_wf_def)
  from q show ?thesis
  proof (cases rule: bq.pop_cases)
    case empty
    then have "worker_assign_job w i = Some (i, w\<lparr>w_service_ready := int_of_id i\<rparr>)"
      using ready by (simp add: worker_assign_job_def)
    moreover have "free_worker w" using ready empty by (simp add: free_worker_def)
    ultimately show ?thesis using free by blast
  next
    case (first b bs q')
    let ?w = "w\<lparr>w_binding_queue := q', w_service_ready := int_of_id b\<rparr>"
    have b: "b \<noteq> 0" "0 \<notin> set bs" using wf first(1) by (auto simp: worker_wf_def)
    show ?thesis
    proof (rule bound)
      show "worker_assign_job w i = Some (b, ?w)"
        using first ready by (simp add: worker_assign_job_def Let_def)
      show "worker_wf ?w" using wf first b by (simp add: worker_wf_def)
      show "worker_jobs ?w = worker_jobs w"
        using first ready b by (simp add: worker_jobs_def)
    qed (use first ready b in \<open>simp_all add: free_worker_def w_core_def\<close>)
  qed
qed

lemma binding_job_cases:
  assumes wf: "worker_wf w" and i: "i \<noteq> 0"
  obtains (full) "worker_binding_job w i = Some (1, w)"
    | (stored) w' where "worker_binding_job w i = Some (0, w')" "worker_wf w'" "w_core w' = w_core w"
      "worker_jobs w' = worker_jobs w + {#i#}" "w_service_ready w' = w_service_ready w"
      "binding_list (w_binding_queue w') = binding_list (w_binding_queue w) @ [i]"
proof -
  have q: "binding_wf (w_binding_queue w)" using wf by (simp add: worker_wf_def)
  show ?thesis
  proof (cases "length (binding_list (w_binding_queue w)) < 16")
    case True
    from binding_push_room [OF q this, of i] obtain q' where
      q': "binding_push (w_binding_queue w) i = Some (0, q')" "binding_wf q'"
        "binding_list q' = binding_list (w_binding_queue w) @ [i]" by blast
    show ?thesis
      by (rule stored [of "w\<lparr>w_binding_queue := q'\<rparr>"])
        (use q' wf i in \<open>simp_all add: worker_binding_job_def worker_wf_def w_core_def worker_jobs_def\<close>)
  next
    case False
    then show ?thesis using full binding_push_full [OF q, of i] by (simp add: worker_binding_job_def)
  qed
qed

lemma steal_job_cases:
  assumes wf: "worker_wf w"
  obtains (none) "worker_steal_job f w p = (0, w)"
    | (taken) j where "worker_steal_job f w p = (j, w\<lparr>w_service_ready := 0, w_waiting := 0\<rparr>)"
      "j \<noteq> 0" "worker_jobs w = {#j#} + worker_jobs (w\<lparr>w_service_ready := 0, w_waiting := 0\<rparr>)"
      "worker_wf (w\<lparr>w_service_ready := 0, w_waiting := 0\<rparr>)"
      "service_binding_get p j \<noteq> w_worker_id w"
proof (cases "w_service_ready w = 0 \<or> service_binding_get p (id_of_int (w_service_ready w)) = w_worker_id w \<or> f")
  case True
  then have "worker_steal_job f w p = (0, w)"
    by (auto simp: worker_steal_job_def Let_def atomic_int_cas_def)
  then show ?thesis by (rule none)
next
  case False
  then have "id_of_int (w_service_ready w) \<noteq> 0" using wf by (simp add: worker_wf_def id_of_int_eq_0)
  with False show ?thesis
    by (intro taken [of "id_of_int (w_service_ready w)"])
      (use wf in \<open>simp_all add: worker_steal_job_def Let_def atomic_int_cas_def worker_jobs_def worker_wf_def\<close>)
qed

lemma worker_wf_waiting [simp]:
  "worker_wf (w\<lparr>w_waiting := i\<rparr>) = worker_wf w" "worker_wf (w\<lparr>w_wakeup := k\<rparr>) = worker_wf w"
  "worker_jobs (w\<lparr>w_waiting := i\<rparr>) = worker_jobs w" "worker_jobs (w\<lparr>w_wakeup := k\<rparr>) = worker_jobs w"
  "free_worker (w\<lparr>w_waiting := i\<rparr>) = free_worker w" "free_worker (w\<lparr>w_wakeup := k\<rparr>) = free_worker w"
  "w_core (w\<lparr>w_waiting := i\<rparr>) = w_core w" "w_core (w\<lparr>w_wakeup := k\<rparr>) = w_core w"
  "w_core (w\<lparr>w_service_ready := v\<rparr>) = w_core w" "w_core (w\<lparr>w_binding_queue := q\<rparr>) = w_core w"
  by (simp_all add: worker_wf_def worker_jobs_def free_worker_def w_core_def)

section \<open>Taking back the jobs of busy workers\<close>

lemma pending_loop_spec:
  assumes "sched_wf t" and "\<forall>n \<in> set ns. 0 \<le> n \<and> n < c_worker (t_config t)"
    and "int (length jobs + length ns) \<le> MAX_WORKER" and "0 \<notin> set jobs"
  shows "\<exists>jobs' t'. pending_loop fails t jobs ns = Some (jobs', t') \<and> moves t t' \<and> 0 \<notin> set jobs'
    \<and> queued t' + mset jobs' = queued t + mset jobs \<and> length jobs' \<le> length jobs + length ns
    \<and> t_schedule t' = t_schedule t"
  using assms
proof (induction ns arbitrary: t jobs)
  case Nil
  then show ?case by (simp add: moves_refl)
next
  case (Cons n ns)
  let ?w = "t_workers t ! nat n"
  have n: "0 \<le> n" "n < c_worker (t_config t)" using Cons.prems(2) by auto
  note w = sched_wf_worker [OF Cons.prems(1) n]
  show ?case
  proof (cases "w_busy ?w = 0")
    case True
    from Cons.IH [OF Cons.prems(1), of jobs] Cons.prems obtain jobs' t' where
      "pending_loop fails t jobs ns = Some (jobs', t')" "moves t t'" "0 \<notin> set jobs'"
      "queued t' + mset jobs' = queued t + mset jobs" "length jobs' \<le> length jobs + length ns"
      "t_schedule t' = t_schedule t"
      by auto
    with True w(1) show ?thesis by auto
  next
    case busy: False
    from w(2) show ?thesis
    proof (cases rule: steal_job_cases [of _ "fails n" "t_services t"])
      case none
      have "set_worker t n ?w = t" using w(4) n by (simp add: set_worker_def)
      moreover from Cons.IH [OF Cons.prems(1), of jobs] Cons.prems obtain jobs' t' where
        "pending_loop fails t jobs ns = Some (jobs', t')" "moves t t'" "0 \<notin> set jobs'"
        "queued t' + mset jobs' = queued t + mset jobs" "length jobs' \<le> length jobs + length ns"
        "t_schedule t' = t_schedule t"
        by auto
      ultimately show ?thesis using none busy w(1) by auto
    next
      case (taken j)
      let ?w1 = "?w\<lparr>w_service_ready := 0, w_waiting := 0\<rparr>"
      let ?t1 = "set_worker t n ?w1"
      have m1: "moves t ?t1"
        using taken(4) by (intro set_worker_moves [OF Cons.prems(1) w(1)]) (simp_all add: w_core_def)
      have q1: "queued ?t1 + {#j#} = queued t"
      proof -
        have "(queued ?t1 + {#j#}) + worker_jobs ?w1 = queued ?t1 + worker_jobs ?w"
          by (simp only: taken(3) add.assoc)
        also have "\<dots> = queued t + worker_jobs ?w1" by (rule queued_set_worker [OF w(1)])
        finally show ?thesis by (rule add_right_imp_eq)
      qed
      have push: "jobs_push jobs j = Some (jobs @ [j])" using Cons.prems(3) by (simp add: jobs_push_def)
      have "\<exists>jobs' t'. pending_loop fails ?t1 (jobs @ [j]) ns = Some (jobs', t') \<and> moves ?t1 t' \<and> 0 \<notin> set jobs'
        \<and> queued t' + mset jobs' = queued ?t1 + mset (jobs @ [j]) \<and> length jobs' \<le> length (jobs @ [j]) + length ns
        \<and> t_schedule t' = t_schedule ?t1"
        using Cons.prems taken(2) moves_wf [OF m1] by (intro Cons.IH) auto
      then obtain jobs' t' where r: "pending_loop fails ?t1 (jobs @ [j]) ns = Some (jobs', t')" "moves ?t1 t'"
        "0 \<notin> set jobs'" "queued t' + mset jobs' = queued ?t1 + mset (jobs @ [j])"
        "length jobs' \<le> length (jobs @ [j]) + length ns" "t_schedule t' = t_schedule ?t1" by blast
      have "queued t' + mset jobs' = (queued ?t1 + {#j#}) + mset jobs" using r(4) by simp
      then have "queued t' + mset jobs' = queued t + mset jobs" by (simp only: q1)
      moreover have "pending_loop fails t jobs (n # ns) = Some (jobs', t')"
        using busy w(1) taken(1,2) push r(1) by simp
      ultimately show ?thesis using moves_trans [OF m1 r(2)] r(3,5,6) by auto
    qed
  qed
qed

lemma length_worker_ids [simp]: "length (worker_ids t) = nat (c_worker (t_config t))"
  by (simp add: worker_ids_def)

lemma get_pending_jobs_spec:
  assumes "sched_wf t"
  shows "\<exists>jobs t'. get_pending_jobs fails t = Some (jobs, t') \<and> moves t t' \<and> 0 \<notin> set jobs
    \<and> queued t' + mset jobs = queued t \<and> length jobs \<le> nat (c_worker (t_config t))
    \<and> t_schedule t' = t_schedule t"
  using pending_loop_spec [OF assms, of "worker_ids t" "[]" fails] worker_ids_range [OF assms] assms
  by (auto simp: get_pending_jobs_def sched_wf_def)

section \<open>Counting the free workers\<close>

lemma kick_wakeup:
  assumes wf: "sched_wf t" and w: "worker_at t n = Some w"
  shows "\<exists>t'. (do { t2 \<leftarrow> kick_running t n i; wakeup_worker t2 n }) = Some t' \<and> moves t t'
    \<and> queued t' = queued t \<and> nfree t' = nfree t \<and> t_schedule t' = t_schedule t
    \<and> (\<forall>m. 0 \<le> m \<longrightarrow> map_option free_worker (worker_at t' m) = map_option free_worker (worker_at t m))"
proof -
  let ?w1 = "w\<lparr>w_waiting := i\<rparr>" and ?w2 = "w\<lparr>w_waiting := i, w_wakeup := 1\<rparr>"
  let ?t1 = "(set_worker t n ?w1)\<lparr>t_blocked_service := 1\<rparr>"
  let ?t2 = "set_worker ?t1 n ?w2"
  have k: "kick_running t n i = Some ?t1" using w by (simp add: kick_running_def)
  note at = worker_at_wf [OF wf w]
  have w1: "worker_at ?t1 n = Some ?w1" using w by (auto simp: worker_at_def set_worker_def split: if_splits)
  have u: "wakeup_worker ?t1 n = Some ?t2" using w1 by (simp add: wakeup_worker_def worker_wakeup_def)
  from kick_running_moves [OF wf w, of i] k have m1: "moves t ?t1" "queued ?t1 = queued t" by simp_all
  from wakeup_worker_moves [OF moves_wf [OF m1(1)] w1] u have m2: "moves ?t1 ?t2" "queued ?t2 = queued ?t1"
    by simp_all
  have n: "nfree ?t2 = nfree t"
    using nfree_set_worker [OF w, of ?w1] nfree_set_worker [OF w1, of ?w2] by (simp split: if_splits)
  have f: "map_option free_worker (worker_at ?t2 m) = map_option free_worker (worker_at t m)" if "0 \<le> m" for m
    using w that at(3) by (cases "m = n") (auto simp: worker_at_def set_worker_def split: if_splits)
  show ?thesis
    using k u moves_trans [OF m1(1) m2(1)] m1(2) m2(2) n f
    by (intro exI [of _ ?t2]) simp
qed

definition free_at :: "ltask \<Rightarrow> int \<Rightarrow> bool" where
  "free_at t n \<longleftrightarrow> map_option free_worker (worker_at t n) = Some True"

lemma count_freeslot_loop_spec:
  assumes "sched_wf t" and "\<forall>n \<in> set ns. 0 \<le> n \<and> n < c_worker (t_config t)" and "distinct ns"
  shows "\<exists>t'. count_freeslot_loop t k ns = Some (k + int (length (filter (free_at t) ns)), t')
    \<and> moves t t' \<and> queued t' = queued t \<and> nfree t' = nfree t \<and> t_schedule t' = t_schedule t"
  using assms
proof (induction ns arbitrary: t k)
  case Nil
  then show ?case by (simp add: moves_refl)
next
  case (Cons n ns)
  let ?w = "t_workers t ! nat n"
  have n: "0 \<le> n" "n < c_worker (t_config t)" using Cons.prems(2) by auto
  note w = sched_wf_worker [OF Cons.prems(1) n]
  have free: "free_at t n = free_worker ?w" by (simp add: free_at_def w(1))
  show ?case
  proof (cases "w_service_ready ?w = 0")
    case False
    with Cons.IH [OF Cons.prems(1), of k] Cons.prems w(1) free show ?thesis by (auto simp: free_worker_def)
  next
    case ready: True
    have bwf: "binding_wf (w_binding_queue ?w)" using w(2) by (simp add: worker_wf_def)
    from bwf show ?thesis
    proof (cases rule: bq.pop_cases)
      case empty
      with Cons.IH [OF Cons.prems(1), of "k + 1"] Cons.prems w(1) free ready show ?thesis
        by (auto simp: free_worker_def worker_has_job_def)
    next
      case (first i js q')
      let ?w1 = "?w\<lparr>w_binding_queue := q', w_service_ready := int_of_id i\<rparr>"
      let ?t1 = "set_worker t n ?w1"
      have i: "i \<noteq> 0" "0 \<notin> set js" using w(2) first(1) by (auto simp: worker_wf_def)
      have w1: "worker_wf ?w1" "worker_jobs ?w1 = worker_jobs ?w"
        using w(2) first i ready by (simp_all add: worker_wf_def worker_jobs_def)
      have m1: "moves t ?t1" by (rule set_worker_moves [OF Cons.prems(1) w(1) w1(1)]) (simp add: w_core_def)
      have q1: "queued ?t1 = queued t" by (rule queued_same [OF w(1) w1(2)])
      have nf: "\<not> free_worker ?w" "\<not> free_worker ?w1" using first i by (simp_all add: free_worker_def)
      then have f1: "nfree ?t1 = nfree t" using nfree_set_worker [OF w(1), of ?w1] by simp
      have at1: "worker_at ?t1 n = Some ?w1" using w(1) by simp
      from kick_wakeup [OF moves_wf [OF m1] at1, of i] obtain t3 where
        t3: "(do { t2 \<leftarrow> kick_running ?t1 n i; wakeup_worker t2 n }) = Some t3" "moves ?t1 t3"
        "queued t3 = queued ?t1" "nfree t3 = nfree ?t1" "t_schedule t3 = t_schedule ?t1"
        and same: "\<forall>m. 0 \<le> m \<longrightarrow> map_option free_worker (worker_at t3 m) = map_option free_worker (worker_at ?t1 m)"
        by blast
      have m3: "moves t t3" by (rule moves_trans [OF m1 t3(2)])
      have "free_at t3 m = free_at t m" if "m \<in> set ns" for m
      proof -
        have "m \<noteq> n" "0 \<le> m" using that Cons.prems(2,3) by auto
        then have "worker_at ?t1 m = worker_at t m" using n by (auto simp: worker_at_def set_worker_def)
        with same \<open>0 \<le> m\<close> show ?thesis by (simp add: free_at_def)
      qed
      then have fl: "filter (free_at t3) ns = filter (free_at t) ns" by (auto intro: filter_cong)
      have "t_config t3 = t_config t" using m3 by (simp add: moves_def)
      with Cons.IH [OF moves_wf [OF m3], of k] Cons.prems obtain t' where
        r: "count_freeslot_loop t3 k ns = Some (k + int (length (filter (free_at t) ns)), t')"
        "moves t3 t'" "queued t' = queued t3" "nfree t' = nfree t3" "t_schedule t' = t_schedule t3"
        by (auto simp: fl)
      from t3(1) obtain t2 where k: "kick_running ?t1 n i = Some t2" "wakeup_worker t2 n = Some t3"
        by (auto simp: bind_eq_Some_conv)
      have "count_freeslot_loop t k (n # ns) = count_freeslot_loop t3 k ns"
        using w(1) ready first(2) k by (simp add: Let_def)
      then show ?thesis
        using r moves_trans [OF m3 r(2)] q1 f1 t3(3-5) free nf(1) by simp
    qed
  qed
qed

lemma filter_free_at:
  assumes "sched_wf t"
  shows "length (filter (free_at t) (worker_ids t)) = nfree t"
proof -
  let ?m = "length (t_workers t)"
  have ids: "worker_ids t = map int [0 ..< ?m]" using assms by (simp add: worker_ids_def sched_wf_def)
  have "filter (free_at t) (map int [0 ..< ?m]) = map int (filter (free_at t \<circ> int) [0 ..< ?m])"
    by (simp add: filter_map)
  also have "length \<dots> = length (filter (\<lambda>n. free_worker (t_workers t ! n)) [0 ..< ?m])"
    by (auto simp: free_at_def worker_at_def intro!: arg_cong [of _ _ length] filter_cong)
  also have "\<dots> = nfree t"
    using length_filter_map [of free_worker "\<lambda>n. t_workers t ! n" "[0 ..< ?m]"]
    by (simp add: nfree_def map_nth comp_def)
  finally show ?thesis by (simp add: ids)
qed

lemma count_freeslot_spec:
  assumes "sched_wf t"
  shows "\<exists>t'. count_freeslot t = Some (int (nfree t), t') \<and> moves t t' \<and> queued t' = queued t
    \<and> nfree t' = nfree t \<and> t_schedule t' = t_schedule t"
  using count_freeslot_loop_spec [OF assms, of "worker_ids t" 0] worker_ids_range [OF assms]
    filter_free_at [OF assms]
  by (auto simp: count_freeslot_def worker_ids_def distinct_map)

section \<open>The run queue\<close>

lemma set_schedule_moves:
  assumes "sched_wf t" and "queue_wf q" and "set (queue_list q) \<subseteq> job_ints - {0}"
    and "q_size q = q_size (t_schedule t)"
  shows "moves t (t\<lparr>t_schedule := q\<rparr>)"
  using assms by (simp add: moves_def sched_wf_def)

lemma queued_schedule:
  "queued (t\<lparr>t_schedule := q\<rparr>) + mset (run_queue t) = queued t + image_mset id_of_int (mset (queue_list q))"
  by (simp add: queued_def run_queue_def ac_simps)

lemma schedule_frame [simp]:
  "worker_at (t\<lparr>t_schedule := q\<rparr>) = worker_at t" "nfree (t\<lparr>t_schedule := q\<rparr>) = nfree t"
  "worker_ids (t\<lparr>t_schedule := q\<rparr>) = worker_ids t"
  by (simp_all add: worker_at_def nfree_def worker_ids_def fun_eq_iff)

lemma run_queue_pop:
  assumes wf: "sched_wf t" and some: "0 < queue_count (t_schedule t)"
  shows "\<exists>job q. queue_pop_int (t_schedule t) = Some (job, q) \<and> job \<noteq> 0 \<and> job \<in> job_ints
    \<and> moves t (t\<lparr>t_schedule := q\<rparr>) \<and> queued t = queued (t\<lparr>t_schedule := q\<rparr>) + {#id_of_int job#}
    \<and> queue_count q < queue_cap q"
proof -
  let ?q = "t_schedule t" let ?d = "ring_deq ?q" and ?job = "hd (queue_list ?q)"
  have q: "queue_wf ?q" "set (queue_list ?q) \<subseteq> job_ints - {0}" using wf by (simp_all add: sched_wf_def)
  have l: "queue_list ?q = ?job # queue_list ?d"
    using some ring_deq_list [OF q(1) some] queue_list_empty_iff [of ?q] by simp
  then have sub: "?job \<in> job_ints - {0}" "set (queue_list ?d) \<subseteq> job_ints - {0}"
    using q(2) by (metis insert_subset list.simps(15))+
  have "mset (run_queue t) = {#id_of_int ?job#} + image_mset id_of_int (mset (queue_list ?d))"
    by (simp add: run_queue_def) (subst l, simp)
  with queued_schedule [of ?d t]
  have "(queued (t\<lparr>t_schedule := ?d\<rparr>) + {#id_of_int ?job#}) + image_mset id_of_int (mset (queue_list ?d))
      = queued t + image_mset id_of_int (mset (queue_list ?d))"
    by (simp only: ac_simps)
  then have "queued (t\<lparr>t_schedule := ?d\<rparr>) + {#id_of_int ?job#} = queued t" by (rule add_right_imp_eq)
  moreover have "queue_count ?d < queue_cap ?d"
    using ring_deq_count [OF q(1) some] queue_count_le_cap [OF q(1)] some by (simp add: queue_cap_def)
  moreover have "moves t (t\<lparr>t_schedule := ?d\<rparr>)"
    by (rule set_schedule_moves [OF wf ring_deq_wf [OF q(1) some] sub(2)]) simp
  ultimately show ?thesis
    using queue_pop_int_some [OF q(1) some] sub(1) by auto
qed

lemma run_queue_push:
  assumes wf: "sched_wf t" and room: "queue_count (t_schedule t) < queue_cap (t_schedule t)"
    and v: "v \<in> job_ints" "v \<noteq> 0"
  shows "\<exists>q. queue_push_int (t_schedule t) v = Some (0, q) \<and> moves t (t\<lparr>t_schedule := q\<rparr>)
    \<and> queued (t\<lparr>t_schedule := q\<rparr>) = queued t + {#id_of_int v#}
    \<and> queue_count q = Suc (queue_count (t_schedule t))"
proof -
  let ?q = "ring_enq (t_schedule t) v"
  have q: "queue_wf (t_schedule t)" "set (queue_list (t_schedule t)) \<subseteq> job_ints - {0}"
    using wf by (simp_all add: sched_wf_def)
  note l = ring_enq_list [OF q(1) room, of v]
  have "moves t (t\<lparr>t_schedule := ?q\<rparr>)"
    using q(2) v by (intro set_schedule_moves [OF wf ring_enq_wf [OF q(1) room]]) (simp_all add: l)
  moreover have "queued (t\<lparr>t_schedule := ?q\<rparr>) = queued t + {#id_of_int v#}"
    by (simp add: queued_def run_queue_def l ac_simps)
  ultimately show ?thesis
    using queue_push_int_room [OF q(1) v(2) room] ring_enq_count [OF q(1) room, of v] by blast
qed

section \<open>Preparing jobs\<close>

lemma prepare_job_spec:
  assumes wf: "sched_wf t" and job: "job \<noteq> 0" "job \<in> job_ints"
    and room: "queue_count (t_schedule t) < queue_cap (t_schedule t)"
    and len: "length prepare < nfree t" and nz: "0 \<notin> set prepare"
  shows "\<exists>prepare' d t'. prepare_job t prepare job = Some (prepare', d, t') \<and> moves t t'
    \<and> queued t' + mset prepare' = queued t + mset prepare + {#id_of_int job#} \<and> 0 \<notin> set prepare'
    \<and> (prepare' = prepare \<longrightarrow> nfree t \<le> nfree t' + d) \<and> length prepare' + d \<le> length prepare + 1
    \<and> (prepare' \<noteq> prepare \<longrightarrow> nfree t' = nfree t)"
proof -
  let ?i = "id_of_int job" and ?n = "service_binding_get (t_services t) (id_of_int job)"
  have i: "?i \<noteq> 0" using job by (simp add: id_of_int_eq_0)
  show ?thesis
  proof (cases "?n < 0")
    case True
    have "length prepare < 256" using len nfree_le [of t] wf by (auto simp: sched_wf_def)
    with True show ?thesis using wf i nz by (simp add: prepare_job_def jobs_push_def moves_refl Let_def)
  next
    case False
    then have n: "0 \<le> ?n" "?n < c_worker (t_config t)" using wf by (auto simp: sched_wf_def)
    let ?w = "t_workers t ! nat ?n"
    note w = sched_wf_worker [OF wf n]
    from w(2) i show ?thesis
    proof (cases rule: binding_job_cases)
      case full
      have same: "set_worker t ?n ?w = t" using w(4) by (simp add: set_worker_def)
      from run_queue_push [OF wf room job(2,1)] obtain q where
        "queue_push_int (t_schedule t) job = Some (0, q)" "moves t (t\<lparr>t_schedule := q\<rparr>)"
        "queued (t\<lparr>t_schedule := q\<rparr>) = queued t + {#id_of_int job#}" by blast
      with False w(1) full same nz show ?thesis by (simp add: prepare_job_def Let_def)
    next
      case (stored w1)
      let ?t1 = "set_worker t ?n w1"
      have m1: "moves t ?t1" by (rule set_worker_moves [OF wf w(1) stored(2,3)])
      have at1: "worker_at ?t1 ?n = Some w1" using w(1) by simp
      have "queued ?t1 + worker_jobs ?w = (queued t + {#?i#}) + worker_jobs ?w"
        using queued_set_worker [OF w(1), of w1] by (simp only: stored(4)) (simp only: ac_simps)
      then have q1: "queued ?t1 = queued t + {#?i#}" by (rule add_right_imp_eq)
      have nf1: "\<not> free_worker w1" using stored(6) by (simp add: free_worker_def)
      then have f1: "nfree t \<le> nfree ?t1 + 1" "w_service_ready w1 \<noteq> 0 \<longrightarrow> nfree ?t1 = nfree t"
        using nfree_set_worker [OF w(1), of w1] stored(5) by (auto simp: free_worker_def split: if_splits)
      from stored(2) i show ?thesis
      proof (cases rule: assign_job_cases)
        case busy
        have "set_worker ?t1 ?n w1 = ?t1" using w(1) by simp
        with busy False w(1) stored(1) m1 q1 f1 nz show ?thesis by (simp add: prepare_job_def Let_def)
      next
        case free
        then show ?thesis using nf1 by simp
      next
        case (bound b w2)
        let ?t2 = "set_worker ?t1 ?n w2"
        have at2: "worker_at ?t2 ?n = Some w2" using at1 by simp
        have m2: "moves ?t1 ?t2" by (rule set_worker_moves [OF moves_wf [OF m1] at1 bound(6,7)])
        have q2: "queued ?t2 = queued ?t1" by (rule queued_same [OF at1 bound(8)])
        have "\<not> free_worker w2" using bound(9) by (simp add: free_worker_def)
        then have f2: "nfree ?t2 = nfree ?t1" using nf1 nfree_set_worker [OF at1, of w2] by simp
        from kick_wakeup [OF moves_wf [OF m2] at2, of b] obtain t4 where
          t4: "(do { t3 \<leftarrow> kick_running ?t2 ?n b; wakeup_worker t3 ?n }) = Some t4" "moves ?t2 t4"
            "queued t4 = queued ?t2" "nfree t4 = nfree ?t2" by blast
        from t4(1) obtain t3 where k: "kick_running ?t2 ?n b = Some t3" "wakeup_worker t3 ?n = Some t4"
          by (auto simp: bind_eq_Some_conv)
        have "prepare_job t prepare job = Some (prepare, 1, t4)"
          using False w(1) stored(1) bound(3,5) k by (simp add: prepare_job_def Let_def)
        then show ?thesis
          using moves_trans [OF m1 moves_trans [OF m2 t4(2)]] t4(3,4) q1 q2 f1(1) f2 nz by simp
      qed
    qed
  qed
qed

lemma prepare_loop_spec:
  assumes "sched_wf t" and "0 \<notin> set prepare"
    and "int (length prepare) + (free_slot - k) \<le> int (nfree t)" and "length prepare \<le> nfree t"
  shows "\<exists>prepare' t'. prepare_loop k free_slot prepare t = Some (prepare', t') \<and> moves t t'
    \<and> queued t' + mset prepare' = queued t + mset prepare \<and> 0 \<notin> set prepare' \<and> length prepare' \<le> nfree t'"
  using assms
proof (induction "nat (free_slot - k)" arbitrary: k free_slot prepare t rule: less_induct)
  case less
  show ?case
  proof (cases "k < free_slot")
    case False
    then show ?thesis using less.prems by (simp add: prepare_loop.simps moves_refl)
  next
    case k: True
    show ?thesis
    proof (cases "queue_count (t_schedule t) = 0")
      case True
      then have "queue_pop_int (t_schedule t) = Some (0, t_schedule t)"
        using less.prems(1) by (simp add: sched_wf_def queue_pop_int_empty)
      then show ?thesis using k less.prems by (simp add: prepare_loop.simps [of k] moves_refl)
    next
      case False
      then have "0 < queue_count (t_schedule t)" by simp
      from run_queue_pop [OF less.prems(1) this] obtain job q where
        pop: "queue_pop_int (t_schedule t) = Some (job, q)" "job \<noteq> 0" "job \<in> job_ints"
          "moves t (t\<lparr>t_schedule := q\<rparr>)" "queued t = queued (t\<lparr>t_schedule := q\<rparr>) + {#id_of_int job#}"
          "queue_count q < queue_cap q" by blast
      let ?t0 = "t\<lparr>t_schedule := q\<rparr>"
      have "length prepare < nfree ?t0" using k less.prems(3) by simp
      from prepare_job_spec [OF moves_wf [OF pop(4)] pop(2,3) _ this less.prems(2)] pop(6)
      obtain prepare1 d t1 where
        j: "prepare_job ?t0 prepare job = Some (prepare1, d, t1)" "moves ?t0 t1"
          "queued t1 + mset prepare1 = queued ?t0 + mset prepare + {#id_of_int job#}" "0 \<notin> set prepare1"
          "prepare1 = prepare \<longrightarrow> nfree ?t0 \<le> nfree t1 + d"
          "length prepare1 + d \<le> length prepare + 1"
          "prepare1 \<noteq> prepare \<longrightarrow> nfree t1 = nfree ?t0"
        by auto
      have "\<exists>prepare' t'. prepare_loop (k + 1) (free_slot - int d) prepare1 t1 = Some (prepare', t') \<and> moves t1 t'
        \<and> queued t' + mset prepare' = queued t1 + mset prepare1 \<and> 0 \<notin> set prepare' \<and> length prepare' \<le> nfree t'"
      proof (rule less.hyps)
        show "nat (free_slot - int d - (k + 1)) < nat (free_slot - k)" using k by simp
        show "sched_wf t1" "0 \<notin> set prepare1" using moves_wf [OF j(2)] j(4) by simp_all
        show "int (length prepare1) + (free_slot - int d - (k + 1)) \<le> int (nfree t1)"
          using j(5-7) less.prems(3) by (cases "prepare1 = prepare") auto
        show "length prepare1 \<le> nfree t1"
          using j(5-7) less.prems(3,4) k by (cases "prepare1 = prepare") auto
      qed
      then obtain prepare' t' where r: "prepare_loop (k + 1) (free_slot - int d) prepare1 t1 = Some (prepare', t')"
        "moves t1 t'" "queued t' + mset prepare' = queued t1 + mset prepare1" "0 \<notin> set prepare'"
        "length prepare' \<le> nfree t'" by blast
      have "prepare_loop k free_slot prepare t = Some (prepare', t')"
        using k pop(1,2) j(1) r(1) by (simp add: prepare_loop.simps [of k])
      moreover have "queued t' + mset prepare' = queued t + mset prepare"
        unfolding r(3) j(3) pop(5) by (simp add: ac_simps)
      ultimately show ?thesis
        using moves_trans [OF pop(4) moves_trans [OF j(2) r(2)]] r(4,5) by blast
    qed
  qed
qed

lemma prepare_task_spec:
  assumes "sched_wf t" and "0 \<notin> set prepare" and "length prepare \<le> nfree t"
  shows "\<exists>prepare' t'. prepare_task t prepare (int (nfree t) - int (length prepare)) = Some (prepare', t')
    \<and> moves t t' \<and> queued t' + mset prepare' = queued t + mset prepare \<and> 0 \<notin> set prepare'
    \<and> length prepare' \<le> nfree t'"
  using prepare_loop_spec [OF assms(1,2), of "int (nfree t) - int (length prepare)" 0] assms(3)
  by (simp add: prepare_task_def)

section \<open>Assigning jobs\<close>

text \<open>
  The free workers the search can still reach: in its last pass only those from the current
  position on, before that all of them.
\<close>

definition ahead :: "ltask \<Rightarrow> int \<Rightarrow> int \<Rightarrow> nat" where
  "ahead t n use_binding = (if use_binding = 0 then nfree t
     else length (filter (\<lambda>m. free_at t (int m)) [nat n ..< length (t_workers t)]))"

lemma ahead_start: "sched_wf t \<Longrightarrow> ahead t 0 b = nfree t"
  using filter_free_at [of t]
  by (simp add: ahead_def worker_ids_def filter_map sched_wf_def comp_def)

lemma ahead_next:
  assumes "b \<noteq> 0" and "0 \<le> n" and "nat n < length (t_workers t)"
  shows "ahead t n b = (if free_at t n then 1 else 0) + ahead t (n + 1) b"
  using assms by (simp add: ahead_def upt_conv_Cons nat_add_distrib)

lemma ahead_set_worker:
  assumes "worker_at t n = Some w" and "b \<noteq> 0"
  shows "ahead (set_worker t n w') (n + 1) b = ahead t (n + 1) b"
proof -
  have "free_at (set_worker t n w') (int m) = free_at t (int m)" if "m \<ge> nat (n + 1)" for m
    using that assms(1) by (auto simp: free_at_def worker_at_def set_worker_def split: if_splits)
  then show ?thesis using assms(2) by (auto simp: ahead_def intro!: arg_cong [of _ _ length] filter_cong)
qed

lemma assign_one_spec:
  assumes "sched_wf t" and "i \<noteq> 0" and "i \<notin># queued t" and "0 \<le> n" and "n \<le> c_worker (t_config t)"
    and "Suc k \<le> ahead t n binding" and "binding \<noteq> 0 \<longrightarrow> busy \<noteq> 0"
  shows "\<exists>t' n' busy' binding'. assign_one t i n busy binding = Some (t', n', busy', binding')
    \<and> moves t t' \<and> queued t' = queued t + {#i#} \<and> 0 \<le> n' \<and> n' \<le> c_worker (t_config t')
    \<and> k \<le> ahead t' n' binding' \<and> (binding' \<noteq> 0 \<longrightarrow> busy' \<noteq> 0)"
  using assms
proof (induction "((if busy = 0 then 1 else 0) + (if binding = 0 then 1 else 0)) * (length (t_workers t) + 1)
      + nat (c_worker (t_config t) - n)" arbitrary: t n busy binding rule: less_induct)
  case less
  let ?N = "c_worker (t_config t)"
  have N: "1 \<le> ?N" "length (t_workers t) = nat ?N" using less.prems(1) by (auto simp: sched_wf_def)
  let ?f = "\<lambda>busy binding. (if busy = (0::int) then 1 else 0) + (if binding = (0::int) then 1 else (0::nat))"
  obtain n1 busy1 binding1 where nx: "next_worker ?N n busy binding = Some (n1, busy1, binding1)"
    and n1: "0 \<le> n1" "n1 < ?N" and flags: "binding1 \<noteq> 0 \<longrightarrow> busy1 \<noteq> 0"
    and ah: "Suc k \<le> ahead t n1 binding1"
    and ms: "?f busy1 binding1 * (nat ?N + 1) + nat (?N - (n1 + 1)) < ?f busy binding * (nat ?N + 1) + nat (?N - n)"
  proof (cases "n < ?N")
    case True
    then show ?thesis using that [of n busy binding] less.prems by (simp add: next_worker_def)
  next
    case False
    have s0: "ahead t 0 b = nfree t" for b by (rule ahead_start [OF less.prems(1)])
    show ?thesis
    proof (cases "busy = 0")
      case True
      then have "binding = 0" using less.prems(7) by simp
      with True False show ?thesis
        using that [of 0 1 binding] N less.prems(6) s0 by (simp add: next_worker_def ahead_def)
    next
      case busy: False
      have "binding = 0"
      proof (rule ccontr)
        assume "binding \<noteq> 0"
        moreover have "nat n \<ge> length (t_workers t)" using False N by simp
        ultimately show False using less.prems(6) by (simp add: ahead_def)
      qed
      moreover from this have "Suc k \<le> nfree t" using less.prems(6) by (simp add: ahead_def)
      then have "Suc k \<le> ahead t 0 1" by (simp only: s0)
      ultimately show ?thesis
        using that [of 0 busy 1] N busy False by (simp add: next_worker_def)
    qed
  qed
  let ?w = "t_workers t ! nat n1"
  note w = sched_wf_worker [OF less.prems(1) n1]
  have free: "free_at t n1 = free_worker ?w" by (simp add: free_at_def w(1))
  \<comment> \<open>moving on to the next worker with a state whose free workers are the same\<close>
  have go: "\<exists>t' n' busy' binding'. assign_one t1 i (n1 + 1) busy1 binding1 = Some (t', n', busy', binding')
      \<and> moves t t' \<and> queued t' = queued t + {#i#} \<and> 0 \<le> n' \<and> n' \<le> c_worker (t_config t')
      \<and> k \<le> ahead t' n' binding' \<and> (binding' \<noteq> 0 \<longrightarrow> busy' \<noteq> 0)"
    if t1: "moves t t1" "queued t1 = queued t" "Suc k \<le> ahead t1 (n1 + 1) binding1" for t1
  proof -
    have c: "t_config t1 = t_config t" "length (t_workers t1) = length (t_workers t)"
      using t1(1) by (auto simp: moves_def sched_wf_def dest: map_eq_imp_length_eq)
    have "\<exists>t' n' busy' binding'. assign_one t1 i (n1 + 1) busy1 binding1 = Some (t', n', busy', binding')
      \<and> moves t1 t' \<and> queued t' = queued t1 + {#i#} \<and> 0 \<le> n' \<and> n' \<le> c_worker (t_config t')
      \<and> k \<le> ahead t' n' binding' \<and> (binding' \<noteq> 0 \<longrightarrow> busy' \<noteq> 0)"
      using ms N t1 less.prems(2,3) n1 flags moves_wf [OF t1(1)] by (intro less.hyps) (simp_all add: c)
    then show ?thesis using t1(1,2) moves_trans by (metis (no_types, lifting))
  qed
  have step: "assign_one t i n busy binding =
     (if (busy1 \<noteq> 0 \<or> w_busy ?w = 0) \<and> (w_binding ?w = 0 \<or> binding1 \<noteq> 0)
      then (case worker_assign_job ?w i of None \<Rightarrow> None
        | Some (assign, w1) \<Rightarrow>
            if assign \<noteq> 0
            then (let t1 = set_worker t n1 (snd (worker_wakeup w1)) in
                  if assign = i then Some (t1, n1 + 1, busy1, binding1)
                  else assign_one t1 i (n1 + 1) busy1 binding1)
            else assign_one (set_worker t n1 w1) i (n1 + 1) busy1 binding1)
      else assign_one t i (n1 + 1) busy1 binding1)"
    by (subst assign_one.simps) (simp add: nx w(1))
  have skip: "Suc k \<le> ahead t (n1 + 1) binding1" if "\<not> free_worker ?w \<or> binding1 = 0"
    using ah that free ahead_next [of binding1 n1 t] n1 w(4) by (cases "binding1 = 0") (auto simp: ahead_def)
  show ?case
  proof (cases "(busy1 \<noteq> 0 \<or> w_busy ?w = 0) \<and> (w_binding ?w = 0 \<or> binding1 \<noteq> 0)")
    case False
    then have "binding1 = 0" using flags by auto
    then have sk: "Suc k \<le> ahead t (n1 + 1) binding1" using skip by blast
    have "assign_one t i n busy binding = assign_one t i (n1 + 1) busy1 binding1"
      using step by (simp only: False if_False)
    with go [OF moves_refl [OF less.prems(1)] refl sk] show ?thesis by (simp only:)
  next
    case take: True
    from w(2) less.prems(2) show ?thesis
    proof (cases rule: assign_job_cases)
      case busy
      have same: "set_worker t n1 ?w = t" using w(4) n1 by (simp add: set_worker_def)
      have "\<not> free_worker ?w" using busy by (simp add: free_worker_def)
      with go [OF moves_refl [OF less.prems(1)] refl] skip step take busy same show ?thesis by simp
    next
      case fr: free
      let ?w1 = "snd (worker_wakeup (?w\<lparr>w_service_ready := int_of_id i\<rparr>))"
      let ?t1 = "set_worker t n1 ?w1"
      have w1: "worker_wf ?w1" "w_core ?w1 = w_core ?w"
        using w(2) by (simp_all add: worker_wakeup_def worker_wf_def w_core_def)
      have m1: "moves t ?t1" by (rule set_worker_moves [OF less.prems(1) w(1) w1])
      have "worker_jobs ?w = {#}" "worker_jobs ?w1 = {#i#}"
        using fr(1) less.prems(2) by (simp_all add: worker_jobs_def free_worker_def worker_wakeup_def)
      with queued_set_worker [OF w(1), of ?w1] have q1: "queued ?t1 = queued t + {#i#}" by simp
      have "\<not> free_worker ?w1" using less.prems(2) by (simp add: free_worker_def worker_wakeup_def)
      then have nf: "nfree ?t1 + 1 = nfree t" using nfree_set_worker [OF w(1), of ?w1] fr(1) by simp
      have ah1: "k \<le> ahead ?t1 (n1 + 1) binding1"
        using ah nf ahead_next [of binding1 n1 t] ahead_set_worker [OF w(1), of binding1 ?w1] n1 w(4) free fr(1)
        by (cases "binding1 = 0") (auto simp: ahead_def)
      have "assign_one t i n busy binding = Some (?t1, n1 + 1, busy1, binding1)"
        using step take fr(2) less.prems(2) by simp
      then show ?thesis using m1 q1 ah1 n1 flags by simp
    next
      case (bound b w')
      let ?w1 = "snd (worker_wakeup w')"
      let ?t1 = "set_worker t n1 ?w1"
      have w1: "worker_wf ?w1" "w_core ?w1 = w_core ?w" "worker_jobs ?w1 = worker_jobs ?w"
        using bound(6-8) by (simp_all add: worker_wakeup_def)
      have m1: "moves t ?t1" by (rule set_worker_moves [OF less.prems(1) w(1) w1(1,2)])
      have q1: "queued ?t1 = queued t" by (rule queued_same [OF w(1) w1(3)])
      have "\<not> free_worker ?w1" using bound(9) by (simp add: free_worker_def worker_wakeup_def)
      then have nf: "nfree ?t1 = nfree t" using nfree_set_worker [OF w(1), of ?w1] bound(2) by simp
      have ah1: "Suc k \<le> ahead ?t1 (n1 + 1) binding1"
        using skip bound(2) nf ahead_set_worker [OF w(1), of binding1 ?w1]
        by (cases "binding1 = 0") (auto simp: ahead_def)
      have "b \<in># worker_jobs ?w" using bound(4) by (simp add: worker_jobs_def)
      then have "b \<in># queued t" by (rule queued_worker [OF w(4)])
      then have "b \<noteq> i" using less.prems(3) by auto
      with step take bound(3,5) go [OF m1 q1 ah1] show ?thesis by (simp add: Let_def)
    qed
  qed
qed

lemma assign_prepare_loop_spec:
  assumes "sched_wf t" and "0 \<notin> set jobs" and "\<forall>i. count (queued t + mset jobs) i \<le> 1"
    and "0 \<le> n" and "n \<le> c_worker (t_config t)"
    and "length jobs \<le> ahead t n binding" and "binding \<noteq> 0 \<longrightarrow> busy \<noteq> 0"
  shows "\<exists>t'. assign_prepare_loop t jobs n busy binding = Some t' \<and> moves t t'
    \<and> queued t' = queued t + mset jobs"
  using assms
proof (induction jobs arbitrary: t n busy binding)
  case Nil
  then show ?case by (simp add: moves_refl)
next
  case (Cons i jobs)
  have "count (queued t + mset (i # jobs)) i \<le> 1" using Cons.prems(3) by blast
  then have fresh: "i \<notin># queued t" by (simp add: not_in_iff)
  have "Suc (length jobs) \<le> ahead t n binding" using Cons.prems(6) by simp
  from assign_one_spec [OF Cons.prems(1) _ fresh Cons.prems(4,5) this Cons.prems(7)] Cons.prems(2)
  obtain t1 n1 busy1 binding1 where one: "assign_one t i n busy binding = Some (t1, n1, busy1, binding1)"
    "moves t t1" "queued t1 = queued t + {#i#}" "0 \<le> n1" "n1 \<le> c_worker (t_config t1)"
    "length jobs \<le> ahead t1 n1 binding1" "binding1 \<noteq> 0 \<longrightarrow> busy1 \<noteq> 0" by auto
  have "\<forall>j. count (queued t1 + mset jobs) j \<le> 1"
    using Cons.prems(3) by (simp add: one(3) ac_simps)
  from Cons.IH [OF moves_wf [OF one(2)] _ this one(4-7)] Cons.prems(2)
  obtain t' where "assign_prepare_loop t1 jobs n1 busy1 binding1 = Some t'" "moves t1 t'"
    "queued t' = queued t1 + mset jobs" by auto
  then show ?case using one(1-3) moves_trans [OF one(2)] by simp
qed

lemma assign_prepare_task_spec:
  assumes wf: "sched_wf t" and "0 \<notin> set jobs" and "\<forall>i. count (queued t + mset jobs) i \<le> 1"
    and "length jobs \<le> nfree t"
  shows "\<exists>t'. assign_prepare_task t jobs = Some t' \<and> moves t t' \<and> queued t' = queued t + mset jobs"
  unfolding assign_prepare_task_def
  using assms by (intro assign_prepare_loop_spec) (auto simp: ahead_start sched_wf_def)

section \<open>Touching blocked workers, stealing\<close>

lemma trigger_event_moves:
  assumes "sched_wf t" and "0 \<le> n" and "n < int MAX_SOCKEVENT"
  shows "\<exists>t'. trigger_event t n = Some t' \<and> moves t t' \<and> queued t' = queued t
    \<and> t_workers t' = t_workers t \<and> t_schedule t' = t_schedule t"
  using assms by (simp add: trigger_event_def sched_wf_def moves_def queued_def run_queue_def nat_less_iff)

lemma trigger_blocked_loop_spec:
  assumes "sched_wf t" and "\<forall>n \<in> set ns. 0 \<le> n \<and> n < c_worker (t_config t)"
  shows "\<exists>b' t'. trigger_blocked_loop t b ns = Some (b', t') \<and> moves t t' \<and> queued t' = queued t"
  using assms
proof (induction ns arbitrary: t b)
  case Nil
  then show ?case by (simp add: moves_refl)
next
  case (Cons n ns)
  let ?w = "t_workers t ! nat n"
  have n: "0 \<le> n" "n < c_worker (t_config t)" using Cons.prems(2) by auto
  note w = sched_wf_worker [OF Cons.prems(1) n]
  show ?case
  proof (cases "w_waiting ?w \<noteq> 0 \<and> w_running ?w \<noteq> 0")
    case False
    then show ?thesis
      using Cons.IH [OF Cons.prems(1), of b] Cons.IH [OF Cons.prems(1), of 1] Cons.prems w(1) by auto
  next
    case True
    let ?s = "service_sockevent_get (t_services t) (w_running ?w)"
    have "?s < int MAX_SOCKEVENT" using Cons.prems(1) by (auto simp: sched_wf_def)
    then obtain t1 where t1: "(if ?s \<ge> 0 then trigger_event t ?s else Some t) = Some t1"
      "moves t t1" "queued t1 = queued t" "t_workers t1 = t_workers t"
      using trigger_event_moves [OF Cons.prems(1), of ?s] moves_refl [OF Cons.prems(1)] by (cases "?s \<ge> 0") auto
    let ?t2 = "set_worker t1 n (?w\<lparr>w_waiting := 0\<rparr>)"
    have at1: "worker_at t1 n = Some ?w" using w(1) t1(4) by (simp add: worker_at_def split: if_splits)
    have m2: "moves t1 ?t2" using w(2) by (intro set_worker_moves [OF moves_wf [OF t1(2)] at1]) simp_all
    have q2: "queued ?t2 = queued t1" by (rule queued_same [OF at1]) simp
    have "t_config ?t2 = t_config t" using t1(2) by (simp add: moves_def)
    with Cons.IH [OF moves_wf [OF m2], of b] Cons.prems(2) obtain b' t' where
      "trigger_blocked_loop ?t2 b ns = Some (b', t')" "moves ?t2 t'" "queued t' = queued ?t2" by auto
    then show ?thesis
      using True w(1) t1(1,3) q2 moves_trans [OF t1(2) moves_trans [OF m2]] by (auto simp: Let_def)
  qed
qed

lemma trigger_blocked_workers_spec:
  assumes "sched_wf t"
  shows "\<exists>t'. trigger_blocked_workers t = Some t' \<and> moves t t' \<and> queued t' = queued t"
proof (cases "t_blocked_service t = 0")
  case True
  then show ?thesis using assms by (simp add: trigger_blocked_workers_def moves_refl)
next
  case False
  from trigger_blocked_loop_spec [OF assms, of "worker_ids t" 0] worker_ids_range [OF assms] obtain b t1 where
    "trigger_blocked_loop t 0 (worker_ids t) = Some (b, t1)" "moves t t1" "queued t1 = queued t" by auto
  with False show ?thesis by (simp add: trigger_blocked_workers_def)
qed

lemma steal_loop_spec:
  assumes "sched_wf t" and "\<forall>n \<in> set ns. 0 \<le> n \<and> n < c_worker (t_config t)"
  shows "\<exists>j t'. steal_loop fails t ns = Some (j, t') \<and> moves t t' \<and> queued t' + opt_job j = queued t
    \<and> (\<forall>n. 0 \<le> n \<longrightarrow> w_service_ready (t_workers t ! nat n) = 0 \<longrightarrow> w_service_ready (t_workers t' ! nat n) = 0)"
  using assms
proof (induction ns arbitrary: t)
  case Nil
  then show ?case by (simp add: moves_refl)
next
  case (Cons n ns)
  let ?w = "t_workers t ! nat n"
  have n: "0 \<le> n" "n < c_worker (t_config t)" using Cons.prems(2) by auto
  note w = sched_wf_worker [OF Cons.prems(1) n]
  from w(2) show ?case
  proof (cases rule: steal_job_cases [of _ "fails n" "t_services t"])
    case none
    have "set_worker t n ?w = t" using w(4) n by (simp add: set_worker_def)
    with none Cons.IH [OF Cons.prems(1)] Cons.prems(2) w(1) show ?thesis by simp
  next
    case (taken j)
    let ?w1 = "?w\<lparr>w_service_ready := 0, w_waiting := 0\<rparr>"
    let ?t1 = "set_worker t n ?w1"
    have "moves t ?t1"
      using taken(4) by (intro set_worker_moves [OF Cons.prems(1) w(1)]) (simp_all add: w_core_def)
    moreover have "queued ?t1 + {#j#} = queued t"
    proof -
      have "(queued ?t1 + {#j#}) + worker_jobs ?w1 = queued ?t1 + worker_jobs ?w"
        by (simp only: taken(3) add.assoc)
      also have "\<dots> = queued t + worker_jobs ?w1" by (rule queued_set_worker [OF w(1)])
      finally show ?thesis by (rule add_right_imp_eq)
    qed
    moreover have "w_service_ready (t_workers ?t1 ! nat m) = 0"
      if "w_service_ready (t_workers t ! nat m) = 0" for m
      using that w(4) by (cases "nat m = nat n") (simp_all add: set_worker_def)
    ultimately show ?thesis using w(1) taken(1,2) by simp
  qed
qed

lemma find_job_spec:
  assumes wf: "sched_wf t" and n: "0 \<le> n" "n < c_worker (t_config t)"
  shows "\<exists>r t'. find_job fails n t = Some (r, t') \<and> moves t t' \<and> queued t' = queued t"
proof -
  let ?w = "t_workers t ! nat n"
  note w = sched_wf_worker [OF wf n]
  show ?thesis
  proof (cases "worker_has_job ?w \<or> w_binding ?w \<noteq> 0")
    case True
    then show ?thesis using w(1) wf by (auto simp: find_job_def moves_refl)
  next
    case False
    then have ready: "w_service_ready ?w = 0" by (simp add: worker_has_job_def)
    from steal_loop_spec [OF wf, of "worker_ids t" fails] worker_ids_range [OF wf] obtain j t1 where
      s: "steal_job fails t = Some (j, t1)" "moves t t1" "queued t1 + opt_job j = queued t"
      and r: "\<forall>n. 0 \<le> n \<longrightarrow> w_service_ready (t_workers t ! nat n) = 0 \<longrightarrow> w_service_ready (t_workers t1 ! nat n) = 0"
      by (auto simp: steal_job_def)
    show ?thesis
    proof (cases "j = 0")
      case True
      then show ?thesis using s False w(1) by (simp add: find_job_def)
    next
      case j: False
      let ?w1 = "t_workers t1 ! nat n"
      have c: "t_config t1 = t_config t" using s(2) by (simp add: moves_def)
      note w1 = sched_wf_worker [OF moves_wf [OF s(2)] n(1) n(2) [folded c]]
      let ?w2 = "?w1\<lparr>w_service_ready := int_of_id j\<rparr>"
      have r1: "w_service_ready ?w1 = 0" using r ready n(1) by blast
      have m2: "moves t1 (set_worker t1 n ?w2)"
        using w1(2) by (intro set_worker_moves [OF moves_wf [OF s(2)] w1(1)]) (simp_all add: worker_wf_def)
      have "worker_jobs ?w2 = worker_jobs ?w1 + {#j#}" using r1 j by (simp add: worker_jobs_def)
      with queued_set_worker [OF w1(1), of ?w2]
      have "queued (set_worker t1 n ?w2) + worker_jobs ?w1 = (queued t1 + {#j#}) + worker_jobs ?w1"
        by (simp add: ac_simps)
      then have "queued (set_worker t1 n ?w2) = queued t1 + {#j#}" by (rule add_right_imp_eq)
      then show ?thesis
        using s j False w(1) w1(1) moves_trans [OF s(2) m2] by (simp add: find_job_def)
    qed
  qed
qed

end
