(* ===== verification/DispatchInv.thy ===== *)
theory DispatchInv
  imports SchedInv
begin

text \<open>
  The dispatching half of a scheduling round: what \<open>dispath_out_messages\<close> does to the
  statuses of the services and to the run queue. \<open>sched_inv\<close> is the invariant that links
  the two: a service is in at most one place, its status says where, and an idle service is
  in none.
\<close>

section \<open>What an operation on the pool shows\<close>

text \<open>Status, socket event, binding thread, and whether there is a mailbox.\<close>

definition svc_view :: "service_pool \<Rightarrow> service_id \<Rightarrow> (int \<times> int \<times> int \<times> bool) option" where
  "svc_view p i = map_option (\<lambda>S. (s_status S, s_sockevent_id S, s_binding_thread S, s_msg S \<noteq> None))
     (get_service p i)"

definition out_of :: "service_pool \<Rightarrow> service_id \<Rightarrow> message option" where
  "out_of p i = (case get_service p i of None \<Rightarrow> None | Some S \<Rightarrow> s_out S)"

lemma status_view: "service_status_get p i = (case svc_view p i of None \<Rightarrow> SERVICE_STATUS_DEAD | Some (s, _) \<Rightarrow> s)"
  by (simp add: service_status_get_def svc_view_def split: option.splits)

lemma sockevent_view: "service_sockevent_get p i = (case svc_view p i of None \<Rightarrow> -1 | Some (_, e, _) \<Rightarrow> e)"
  by (simp add: service_sockevent_get_def svc_view_def split: option.splits)

lemma binding_view: "service_binding_get p i = (case svc_view p i of None \<Rightarrow> -1 | Some (_, _, b, _) \<Rightarrow> b)"
  by (simp add: service_binding_get_def svc_view_def split: option.splits)

lemma mailbox_view: "has_mailbox p i = (case svc_view p i of None \<Rightarrow> True | Some (_, _, _, m) \<Rightarrow> m)"
  by (simp add: has_mailbox_def svc_view_def split: option.splits)

lemma present_view: "get_service p i = None \<longleftrightarrow> svc_view p i = None"
  by (simp add: svc_view_def)

lemma view_frame [simp]:
  "svc_view (p\<lparr>p_malloc := a\<rparr>) = svc_view p" "out_of (p\<lparr>p_malloc := a\<rparr>) = out_of p"
  "svc_view (p\<lparr>p_freed := b\<rparr>) = svc_view p" "out_of (p\<lparr>p_freed := b\<rparr>) = out_of p"
  "svc_view (p\<lparr>p_closed := c\<rparr>) = svc_view p" "out_of (p\<lparr>p_closed := c\<rparr>) = out_of p"
  by (simp_all add: svc_view_def out_of_def fun_eq_iff)

lemma view_upd_same:
  assumes "pool_wf p"
    and "\<And>S. get_service p i = Some S \<Longrightarrow> s_id (f S) = s_id S \<and> s_status (f S) = s_status S \<and> s_sockevent_id (f S) = s_sockevent_id S
      \<and> s_binding_thread (f S) = s_binding_thread S \<and> (s_msg (f S) \<noteq> None) = (s_msg S \<noteq> None)"
    and "\<And>S. s_id (f S) = s_id S"
  shows "svc_view (upd_service p i f) = svc_view p"
proof
  fix j
  from get_service_upd [OF assms(1), of f i j] assms(2,3)
  show "svc_view (upd_service p i f) j = svc_view p j"
    by (cases "get_service p i") (auto simp: svc_view_def)
qed

lemma out_upd_same:
  assumes "pool_wf p" and "\<And>S. s_id (f S) = s_id S \<and> s_out (f S) = s_out S"
  shows "out_of (upd_service p i f) = out_of p"
proof
  fix j
  from get_service_upd [OF assms(1), of f i j] assms(2)
  show "out_of (upd_service p i f) j = out_of p j"
    by (cases "get_service p i") (auto simp: out_of_def)
qed

lemma push_message_view:
  assumes wf: "pool_wf p" and res: "service_push_message p i (Some m) = Some (r, p')"
  shows "svc_view p' = svc_view p \<and> out_of p' = out_of p \<and> p_mask p' = p_mask p \<and> p_malloc p' = p_malloc p"
proof (cases "service_status_get p i = SERVICE_STATUS_DEAD")
  case True
  then show ?thesis using res by (simp add: push_message_dead)
next
  case False
  then obtain S where S: "get_service p i = Some S" "s_status S \<noteq> SERVICE_STATUS_DEAD"
    by (auto simp: service_status_get_def split: option.splits)
  with res obtain q where q: "s_msg S = Some q"
    by (auto simp: service_push_message_def split: option.splits)
  show ?thesis
  proof (cases "queue_count q < queue_cap q")
    case True
    with push_message_room [OF wf S q True, of m] res
    have "p' = upd_service p i (\<lambda>S. S\<lparr>s_msg := Some (ring_enq q m)\<rparr>)" by simp
    moreover have "svc_view (upd_service p i (\<lambda>S. S\<lparr>s_msg := Some (ring_enq q m)\<rparr>)) = svc_view p"
      by (rule view_upd_same [OF wf]) (use S q in auto)
    ultimately show ?thesis by (simp add: out_upd_same [OF wf])
  next
    case False
    with push_message_full [OF wf S q False, of m] res show ?thesis by simp
  qed
qed

lemma write_receipt_view:
  assumes wf: "pool_wf p" and res: "service_write_receipt p i r b = Some p'"
  shows "svc_view p' = svc_view p" and "out_of p' = out_of p"
    and "p_mask p' = p_mask p" and "p_malloc p' = p_malloc p"
  using wf res
  by (auto simp: service_write_receipt_def Let_def view_upd_same out_upd_same split: option.splits if_splits)

lemma message_out_view:
  assumes wf: "pool_wf p" and res: "service_message_out p i = (m, p')"
  shows "svc_view p' = svc_view p \<and> out_of p' = (out_of p)(i := None) \<and> m = out_of p i
    \<and> p_mask p' = p_mask p \<and> p_malloc p' = p_malloc p"
proof -
  have upd: "out_of (upd_service p i (\<lambda>S. S\<lparr>s_out := None\<rparr>)) = (out_of p)(i := None)"
  proof
    fix j show "out_of (upd_service p i (\<lambda>S. S\<lparr>s_out := None\<rparr>)) j = ((out_of p)(i := None)) j"
      using get_service_upd [OF wf, of "\<lambda>S. S\<lparr>s_out := None\<rparr>" i j]
      by (cases "get_service p i") (auto simp: out_of_def)
  qed
  show ?thesis
  proof (cases "get_service p i")
    case None
    then show ?thesis using res by (auto simp: service_message_out_def out_of_def fun_eq_iff)
  next
    case (Some S)
    show ?thesis
    proof (cases "s_out S")
      case None
      then show ?thesis using res Some by (auto simp: service_message_out_def out_of_def fun_eq_iff)
    next
      case (Some m')
      then show ?thesis using res \<open>get_service p i = Some S\<close> upd wf
        by (auto simp: service_message_out_def out_of_def view_upd_same)
    qed
  qed
qed

lemma status_set_view:
  assumes wf: "pool_wf p"
  shows "svc_view (service_status_set p i st) =
      (svc_view p)(i := map_option (\<lambda>(_, x). (st, x)) (svc_view p i))"
    and "out_of (service_status_set p i st) = out_of p"
    and "p_mask (service_status_set p i st) = p_mask p"
    and "p_malloc (service_status_set p i st) = p_malloc p"
proof -
  show "svc_view (service_status_set p i st) = (svc_view p)(i := map_option (\<lambda>(_, x). (st, x)) (svc_view p i))"
  proof
    fix j show "svc_view (service_status_set p i st) j
        = ((svc_view p)(i := map_option (\<lambda>(_, x). (st, x)) (svc_view p i))) j"
      using get_service_upd [OF wf, of "\<lambda>S. S\<lparr>s_status := st\<rparr>" i j]
      by (cases "get_service p i") (auto simp: svc_view_def service_status_set_def)
  qed
qed (simp_all add: service_status_set_def out_upd_same wf)

lemma status_set_status:
  assumes "pool_wf p" and "get_service p i \<noteq> None"
  shows "service_status_get (service_status_set p i st) j = (if j = i then st else service_status_get p j)"
    and "service_sockevent_get (service_status_set p i st) j = service_sockevent_get p j"
    and "service_binding_get (service_status_set p i st) j = service_binding_get p j"
    and "get_service (service_status_set p i st) j = None \<longleftrightarrow> get_service p j = None"
  using assms unfolding status_view sockevent_view binding_view present_view
  by (auto simp: status_set_view [OF assms(1)] split: option.splits)

lemma service_new_view:
  assumes wf: "pool_wf p" and res: "service_new p sid = (r, p')"
  shows "\<forall>j. j \<noteq> r \<longrightarrow> svc_view p' j = svc_view p j \<and> out_of p' j = out_of p j"
    and "r \<noteq> 0 \<Longrightarrow> svc_view p r = None \<and>
      svc_view p' r = Some (SERVICE_STATUS_UNINITIALIZED, -1, -1, False) \<and> out_of p' r = None"
    and "p_mask p' = p_mask p" and "p_malloc p = [] \<Longrightarrow> p_malloc p' = []"
proof -
  note r = service_new_result [OF wf res]
  show "\<forall>j. j \<noteq> r \<longrightarrow> svc_view p' j = svc_view p j \<and> out_of p' j = out_of p j"
    using r(3) by (simp add: svc_view_def out_of_def)
  show "r \<noteq> 0 \<Longrightarrow> svc_view p r = None \<and>
      svc_view p' r = Some (SERVICE_STATUS_UNINITIALIZED, -1, -1, False) \<and> out_of p' r = None"
    using r(2) by (simp add: svc_view_def out_of_def fresh_service_def)
  show "p_mask p' = p_mask p" "p_malloc p = [] \<Longrightarrow> p_malloc p' = []"
    using res by (auto simp: service_new_def place_service_def Let_def split: if_splits option.splits prod.splits)
qed

lemma service_delete_view:
  assumes wf: "pool_wf p"
  shows "\<exists>p'. service_delete p i = Some p' \<and> pool_wf p' \<and> svc_view p' = (svc_view p)(i := None)
    \<and> out_of p' = (out_of p)(i := None) \<and> p_mask p' = p_mask p \<and> p_malloc p' = p_malloc p"
proof -
  from service_delete_spec [OF wf, of i] obtain p' where
    p': "service_delete p i = Some p'" "pool_wf p'" by blast
  have g: "get_service p' j = (if j = i then None else get_service p j)" for j
    using service_delete_spec [OF wf, of i j] p' by simp
  have "p_mask p' = p_mask p \<and> p_malloc p' = p_malloc p"
  proof (cases "get_service p i")
    case None
    then show ?thesis using p' by (simp add: service_delete_def)
  next
    case (Some S)
    with p' free_service_spec [OF get_service_wf(1) [OF wf Some], of "p\<lparr>p_s := (p_s p)[service_slot p i := None]\<rparr>"]
    show ?thesis by (auto simp: service_delete_def)
  qed
  then show ?thesis using p' g by (auto simp: svc_view_def out_of_def fun_eq_iff)
qed

section \<open>The invariant of the scheduler\<close>

definition live :: "service_pool \<Rightarrow> service_id set" where
  "live p = {i. get_service p i \<noteq> None}"

lemma finite_live [simp]: "finite (live p)"
  by simp

text \<open>
  \<open>sched_inv t A\<close>: \<open>A\<close> holds the services that workers are running or have finished with.
  The run queue has one entry for each of the \<open>max_service\<close> slots; allocations succeed.
\<close>

definition active_status :: "int set" where
  "active_status = {SERVICE_STATUS_SCHEDULE, SERVICE_STATUS_RUNNING, SERVICE_STATUS_DONE}"

definition sched_inv :: "ltask \<Rightarrow> service_id multiset \<Rightarrow> bool" where
  "sched_inv t A \<longleftrightarrow> sched_wf t \<and> pool_wf (t_services t)
     \<and> q_size (t_schedule t) = p_mask (t_services t) + 1 \<and> p_malloc (t_services t) = []
     \<and> (\<forall>i. count (queued t + A) i \<le> 1)
     \<and> (\<forall>i. i \<in># queued t \<longrightarrow> service_status_get (t_services t) i = SERVICE_STATUS_SCHEDULE)
     \<and> (\<forall>i. i \<in># A \<longrightarrow> service_status_get (t_services t) i
            \<notin> {SERVICE_STATUS_UNINITIALIZED, SERVICE_STATUS_IDLE}
          \<and> get_service (t_services t) i \<noteq> None)
     \<and> (\<forall>i. i \<notin># queued t + A \<longrightarrow> service_status_get (t_services t) i \<notin> active_status)"

text \<open>Only moving jobs keeps the invariant.\<close>

lemma sched_inv_moves:
  assumes "sched_inv t A" and "moves t t'" and "queued t' = queued t"
  shows "sched_inv t' A"
  using assms by (simp add: sched_inv_def moves_def)

text \<open>There is always room in the run queue for one more service.\<close>

definition table_room :: "ltask \<Rightarrow> bool" where
  "table_room t \<longleftrightarrow> int (card (live (t_services t))) < p_mask (t_services t)"

lemma live_view: "live p = {i. svc_view p i \<noteq> None}"
  by (simp add: live_def svc_view_def)

lemma run_queue_subset: "mset (run_queue t) \<subseteq># queued t"
  by (simp add: queued_def)

lemma run_queue_room:
  assumes wf: "sched_wf t" and size: "q_size (t_schedule t) = p_mask (t_services t) + 1"
    and dist: "\<forall>j. count (queued t) j \<le> 1"
    and stat: "\<forall>j. j \<in># queued t \<longrightarrow> get_service (t_services t) j \<noteq> None"
    and i: "i \<notin># queued t" "get_service (t_services t) i \<noteq> None"
    and room: "int (card (live (t_services t))) \<le> p_mask (t_services t)"
  shows "queue_count (t_schedule t) < queue_cap (t_schedule t)"
proof -
  have sub: "mset (run_queue t) \<subseteq># queued t" by (rule run_queue_subset)
  have le: "count (mset (run_queue t)) j \<le> 1" for j
    using mset_subset_eq_count [OF sub, of j] dist by (meson le_trans)
  have "count (mset (run_queue t)) j = (if j \<in> set (run_queue t) then 1 else 0)" for j
    using le [of j] count_greater_zero_iff [of "mset (run_queue t)" j] by (auto simp: not_in_iff le_Suc_eq)
  then have "distinct (run_queue t)" by (simp add: distinct_count_atmost_1)
  moreover have "set (run_queue t) \<subseteq> live (t_services t)"
    using stat mset_subset_eqD [OF sub] by (fastforce simp: live_def)
  moreover have "i \<notin> set (run_queue t)" using i(1) mset_subset_eqD [OF sub] by fastforce
  ultimately have "card (insert i (set (run_queue t))) \<le> card (live (t_services t))"
    using i(2) by (intro card_mono) (auto simp: live_def)
  then have "length (run_queue t) + 1 \<le> card (live (t_services t))"
    using \<open>distinct (run_queue t)\<close> \<open>i \<notin> set (run_queue t)\<close> by (simp add: distinct_card)
  moreover have "length (run_queue t) = queue_count (t_schedule t)" by (simp add: run_queue_def)
  ultimately show ?thesis using room size by (simp add: queue_cap_def)
qed

lemma status_active: "service_status_get p i \<noteq> SERVICE_STATUS_DEAD \<Longrightarrow> get_service p i \<noteq> None"
  by (auto simp: service_status_get_def split: option.splits)

lemma status_mailbox:
  "pool_wf p \<Longrightarrow> service_status_get p i \<notin> {SERVICE_STATUS_UNINITIALIZED, SERVICE_STATUS_DEAD} \<Longrightarrow> has_mailbox p i"
  using get_service_wf(1) [of p i] by (auto simp: service_status_get_def has_mailbox_def service_wf_def split: option.splits)

lemma sched_invD:
  assumes "sched_inv t A"
  shows "sched_wf t" "pool_wf (t_services t)" "q_size (t_schedule t) = p_mask (t_services t) + 1"
    "p_malloc (t_services t) = []" "count (queued t + A) i \<le> 1"
    "i \<in># queued t \<Longrightarrow> service_status_get (t_services t) i = SERVICE_STATUS_SCHEDULE"
    "i \<in># A \<Longrightarrow> service_status_get (t_services t) i \<notin> {SERVICE_STATUS_UNINITIALIZED, SERVICE_STATUS_IDLE}"
    "i \<in># A \<Longrightarrow> get_service (t_services t) i \<noteq> None"
    "i \<notin># queued t + A \<Longrightarrow> service_status_get (t_services t) i \<notin> active_status"
  using assms by (auto simp: sched_inv_def)

lemma sched_inv_disjoint: "sched_inv t A \<Longrightarrow> i \<in># A \<Longrightarrow> i \<notin># queued t"
  using sched_invD(5) [of t A i] by (metis add_le_same_cancel2 count_greater_eq_one_iff count_union
      le_add1 not_in_iff not_one_le_zero order_trans)

text \<open>What the dispatcher leaves alone.\<close>

definition same_threads :: "ltask \<Rightarrow> ltask \<Rightarrow> bool" where
  "same_threads t t' \<longleftrightarrow> t_workers t' = t_workers t \<and> t_config t' = t_config t
     \<and> t_external_message t' = t_external_message t
     \<and> t_external_last_message t' = t_external_last_message t
     \<and> t_schedule_owner t' = t_schedule_owner t
     \<and> p_mask (t_services t') = p_mask (t_services t)"

text \<open>The services in \<open>A\<close> look the same afterwards.\<close>

definition same_on :: "service_id multiset \<Rightarrow> service_pool \<Rightarrow> service_pool \<Rightarrow> bool" where
  "same_on A p p' \<longleftrightarrow> (\<forall>i. i \<in># A \<longrightarrow> svc_view p' i = svc_view p i \<and> out_of p' i = out_of p i)"

lemma same_threads_refl [simp]: "same_threads t t"
  by (simp add: same_threads_def)

lemma same_threads_trans: "same_threads t t1 \<Longrightarrow> same_threads t1 t2 \<Longrightarrow> same_threads t t2"
  by (simp add: same_threads_def)

lemma same_on_refl [simp]: "same_on A p p"
  by (simp add: same_on_def)

lemma same_on_trans: "same_on A p p1 \<Longrightarrow> same_on A p1 p2 \<Longrightarrow> same_on A p p2"
  by (simp add: same_on_def)

lemma same_on_status: "same_on A p p' \<Longrightarrow> i \<in># A \<Longrightarrow> service_status_get p' i = service_status_get p i"
  by (simp add: same_on_def status_view)

lemma services_frame [simp]:
  "queued (t\<lparr>t_services := P\<rparr>) = queued t" "worker_ids (t\<lparr>t_services := P\<rparr>) = worker_ids t"
  by (simp_all add: queued_def run_queue_def worker_ids_def)

lemma sched_wf_services:
  assumes "sched_wf t" and "\<And>i. service_binding_get P i < c_worker (t_config t)"
    and "\<And>i. service_sockevent_get P i < int MAX_SOCKEVENT"
  shows "sched_wf (t\<lparr>t_services := P\<rparr>)"
  using assms by (simp add: sched_wf_def)

lemma sched_inv_pool:
  assumes inv: "sched_inv t A" and "pool_wf P" and view: "svc_view P = svc_view (t_services t)"
    and "p_mask P = p_mask (t_services t)" and "p_malloc P = []"
  shows "sched_inv (t\<lparr>t_services := P\<rparr>) A"
proof -
  have "sched_wf (t\<lparr>t_services := P\<rparr>)"
    using sched_invD(1) [OF inv] by (intro sched_wf_services) (simp_all add: binding_view sockevent_view view sched_wf_def)
  then show ?thesis
    using inv assms(2,4,5) unfolding sched_inv_def by (simp add: status_view present_view view)
qed

text \<open>Making a service ready: the status and the run queue together.\<close>

lemma activate_spec:
  assumes inv: "sched_inv t A" and i: "i \<notin># queued t" "get_service (t_services t) i \<noteq> None"
    "has_mailbox (t_services t) i" and room: "int (card (live (t_services t))) \<le> p_mask (t_services t)"
  shows "\<exists>t'. schedule_back (t\<lparr>t_services := service_status_set (t_services t) i SERVICE_STATUS_SCHEDULE\<rparr>) i = Some t'
    \<and> sched_inv t' (A - {#i#}) \<and> same_threads t t'
    \<and> (\<forall>j. j \<noteq> i \<longrightarrow> svc_view (t_services t') j = svc_view (t_services t) j)
    \<and> out_of (t_services t') = out_of (t_services t) \<and> live (t_services t') = live (t_services t)
    \<and> queued t' = queued t + {#i#}"
proof -
  note D = sched_invD [OF inv]
  let ?P = "service_status_set (t_services t) i SERVICE_STATUS_SCHEDULE"
  let ?t = "t\<lparr>t_services := ?P\<rparr>"
  have pw: "pool_wf ?P" by (rule status_set_wf(1) [OF D(2)]) (use i in simp)
  note st = status_set_status [OF D(2) i(2), of SERVICE_STATUS_SCHEDULE]
  note vw = status_set_view [OF D(2), of i SERVICE_STATUS_SCHEDULE]
  have wf: "sched_wf ?t"
    using D(1) by (intro sched_wf_services [OF D(1)]) (simp_all add: st sched_wf_def)
  have lv: "live ?P = live (t_services t)" by (simp add: live_def st(4))
  have i0: "i \<noteq> 0" using i(2) get_service_zero [OF D(2)] by auto
  have "count (queued t) j \<le> 1" for j using D(5) [of j] by simp
  moreover have "get_service (t_services t) j \<noteq> None" if "j \<in># queued t" for j
    using D(6) [OF that] status_active [of "t_services t" j] by simp
  ultimately have "queue_count (t_schedule t) < queue_cap (t_schedule t)"
    using run_queue_room [OF D(1,3) _ _ i(1,2) room] by blast
  then have rq: "queue_count (t_schedule ?t) < queue_cap (t_schedule ?t)" by simp
  from run_queue_push [OF wf rq, of "int_of_id i"] i0 obtain q where
    q: "queue_push_int (t_schedule t) (int_of_id i) = Some (0, q)" "moves ?t (?t\<lparr>t_schedule := q\<rparr>)"
      "queued (?t\<lparr>t_schedule := q\<rparr>) = queued t + {#i#}" by auto
  let ?t' = "?t\<lparr>t_schedule := q\<rparr>"
  have pushed: "schedule_back ?t i = Some ?t'" using q(1) by (simp add: schedule_back_def)
  have size: "q_size q = q_size (t_schedule t)" using q(2) by (simp add: moves_def)
  have "count (queued ?t' + (A - {#i#})) j \<le> 1" for j
  proof (cases "j = i")
    case True
    then show ?thesis using D(5) [of i] i(1) q(3) by (simp add: not_in_iff)
  next
    case False
    then show ?thesis using D(5) [of j] q(3) by simp
  qed
  moreover have "service_status_get (t_services ?t') j = SERVICE_STATUS_SCHEDULE" if "j \<in># queued ?t'" for j
    using that D(6) [of j] q(3) st(1) by (cases "j = i") auto
  moreover have "service_status_get (t_services ?t') j \<notin> {SERVICE_STATUS_UNINITIALIZED, SERVICE_STATUS_IDLE}
      \<and> get_service (t_services ?t') j \<noteq> None" if "j \<in># A - {#i#}" for j
  proof -
    have "j \<in># A" using that by (rule in_diffD)
    then show ?thesis using D(7) [of j] D(8) [of j] st(1,4) by auto
  qed
  moreover have "service_status_get (t_services ?t') j \<notin> active_status"
    if "j \<notin># queued ?t' + (A - {#i#})" for j
  proof -
    have "j \<noteq> i" "j \<notin># queued t + A" using that q(3) by (auto simp: in_diff_count)
    then show ?thesis using D(9) [of j] st(1) by simp
  qed
  ultimately have "sched_inv ?t' (A - {#i#})"
    using moves_wf [OF q(2)] pw D(3,4) size vw(3,4) unfolding sched_inv_def by simp
  then show ?thesis
    using pushed q(3) vw lv by (intro exI [of _ ?t']) (auto simp: same_threads_def)
qed

lemma check_message_to_spec:
  assumes inv: "sched_inv t A" and room: "int (card (live (t_services t))) \<le> p_mask (t_services t)"
  shows "\<exists>t'. check_message_to t to = Some t' \<and> sched_inv t' A \<and> same_threads t t'
    \<and> same_on A (t_services t) (t_services t') \<and> live (t_services t') = live (t_services t)
    \<and> out_of (t_services t') = out_of (t_services t)
    \<and> service_status_get (t_services t') to \<noteq> SERVICE_STATUS_IDLE"
proof (cases "service_status_get (t_services t) to = SERVICE_STATUS_IDLE")
  case True
  note D = sched_invD [OF inv]
  have nq: "to \<notin># queued t" using D(6) [of to] True by auto
  have nA: "to \<notin># A" using D(7) [of to] True by auto
  have "get_service (t_services t) to \<noteq> None" using True status_active [of "t_services t" to] by simp
  moreover have "has_mailbox (t_services t) to" using status_mailbox [OF D(2), of to] True by simp
  ultimately obtain t' where t': "schedule_back (t\<lparr>t_services := service_status_set (t_services t) to SERVICE_STATUS_SCHEDULE\<rparr>) to = Some t'"
    "sched_inv t' (A - {#to#})" "same_threads t t'"
    "\<forall>j. j \<noteq> to \<longrightarrow> svc_view (t_services t') j = svc_view (t_services t) j"
    "out_of (t_services t') = out_of (t_services t)" "live (t_services t') = live (t_services t)"
    "queued t' = queued t + {#to#}"
    using activate_spec [OF inv nq _ _ room] by blast
  have "A - {#to#} = A" using nA by simp
  moreover have "service_status_get (t_services t') to = SERVICE_STATUS_SCHEDULE"
    using sched_invD(6) [OF t'(2), of to] t'(7) by simp
  ultimately show ?thesis
    using True t' nA by (auto simp: check_message_to_def same_on_def)
next
  case False
  let ?s = "service_sockevent_get (t_services t) to"
  note D = sched_invD [OF inv]
  show ?thesis
  proof (cases "?s \<ge> 0")
    case True
    have "?s < int MAX_SOCKEVENT" using D(1) by (auto simp: sched_wf_def)
    from trigger_event_moves [OF D(1) True this] obtain t' where
      t': "trigger_event t ?s = Some t'" "moves t t'" "queued t' = queued t" "t_workers t' = t_workers t" by blast
    from sched_inv_moves [OF inv t'(2,3)] t' False True show ?thesis
      by (simp add: check_message_to_def moves_def same_threads_def)
  next
    case neg: False
    with False inv show ?thesis by (simp add: check_message_to_def)
  qed
qed

lemma pool_step_push:
  assumes wf: "pool_wf p" and "service_status_get p i = SERVICE_STATUS_DEAD \<or> has_mailbox p i"
  shows "\<exists>r p'. service_push_message p i (Some m) = Some (r, p')"
proof (cases "service_status_get p i = SERVICE_STATUS_DEAD")
  case True
  then show ?thesis by (simp add: push_message_dead)
next
  case False
  then obtain S q where S: "get_service p i = Some S" "s_status S \<noteq> SERVICE_STATUS_DEAD" "s_msg S = Some q"
    using assms(2) by (auto simp: service_status_get_def has_mailbox_def split: option.splits)
  show ?thesis
    using push_message_room [OF wf S, of m] push_message_full [OF wf S, of m]
    by (cases "queue_count q < queue_cap q") auto
qed

section \<open>Dispatching one message\<close>

text \<open>
  What the senders owe: a message goes to a service that has been initialised (or to one
  that is dead or gone), and root asks to delete a service only when it is in no queue and
  on no worker.
\<close>

definition message_ok :: "ltask \<Rightarrow> service_id multiset \<Rightarrow> service_id \<Rightarrow> message \<Rightarrow> bool" where
  "message_ok t A i msg =
     (if m_to msg = SERVICE_ID_SYSTEM
      then i = SERVICE_ID_ROOT \<and> m_type msg = MESSAGE_SCHEDULE_DEL \<longrightarrow>
             m_session msg \<notin># queued t + A
      else service_status_get (t_services t) (m_to msg) = SERVICE_STATUS_DEAD
           \<or> has_mailbox (t_services t) (m_to msg))"

lemma sched_inv_receipt:
  assumes inv: "sched_inv t A" and i: "i \<in># A" and rb: "r = MESSAGE_RECEIPT_NONE \<longrightarrow> b = None"
  obtains P where "service_write_receipt (t_services t) i r b = Some P"
    and "sched_inv (t\<lparr>t_services := P\<rparr>) A" and "live P = live (t_services t)"
    and "same_on A (t_services t) P" and "same_threads t (t\<lparr>t_services := P\<rparr>)"
proof -
  note D = sched_invD [OF inv]
  from D(8) [OF i] obtain S where S: "get_service (t_services t) i = Some S" by auto
  then obtain P where P: "service_write_receipt (t_services t) i r b = Some P"
    by (cases "s_receipt S = MESSAGE_RECEIPT_NONE") (simp_all add: service_write_receipt_def Let_def)
  note v = write_receipt_view [OF D(2) P]
  have "sched_inv (t\<lparr>t_services := P\<rparr>) A"
    using write_receipt_account(1) [OF D(2) S rb P] D(4)
    by (intro sched_inv_pool [OF inv]) (simp_all add: v)
  with P show thesis by (rule that) (simp_all add: live_view same_on_def same_threads_def v)
qed

lemma dispatch_new_spec:
  assumes inv: "sched_inv t A" and new: "service_new (t_services t) sid = (to, P)"
  shows "sched_inv (t\<lparr>t_services := P\<rparr>) A" and "same_on A (t_services t) P"
    and "card (live P) \<le> Suc (card (live (t_services t)))"
    and "same_threads t (t\<lparr>t_services := P\<rparr>)"
proof -
  note D = sched_invD [OF inv]
  note r = service_new_result(1) [OF D(2) new] and v = service_new_view [OF D(2) new]
  have toA: "to \<notin># A" if "to \<noteq> 0"
  proof
    assume "to \<in># A"
    from D(8) [OF this] v(2) [OF that] show False by (simp add: present_view)
  qed
  have zero: "get_service P 0 = None" by (rule get_service_zero [OF r])
  have z0: "get_service (t_services t) 0 = None" by (rule get_service_zero [OF D(2)])
  have all: "svc_view P j = (if j = to \<and> to \<noteq> 0 then Some (SERVICE_STATUS_UNINITIALIZED, -1, -1, False)
      else svc_view (t_services t) j)" for j
  proof (cases "j = 0")
    case True
    then show ?thesis using zero z0 by (auto simp: present_view)
  next
    case False
    then show ?thesis using v(1,2) by (cases "j = to") auto
  qed
  have toq: "to \<notin># queued t" if "to \<noteq> 0"
  proof
    assume "to \<in># queued t"
    from D(6) [OF this] v(2) [OF that] show False by (simp add: status_view)
  qed
  have wf: "sched_wf (t\<lparr>t_services := P\<rparr>)"
    using D(1) by (intro sched_wf_services) (auto simp: binding_view sockevent_view all sched_wf_def)
  have st: "service_status_get P j = (if j = to \<and> to \<noteq> 0 then SERVICE_STATUS_UNINITIALIZED
      else service_status_get (t_services t) j)" for j
    by (simp add: status_view all)
  have "get_service P j \<noteq> None" if "j \<in># A" for j
    using D(8) [OF that] by (auto simp: present_view all)
  then show "sched_inv (t\<lparr>t_services := P\<rparr>) A"
    using wf r D v(3,4) toA toq unfolding sched_inv_def by (auto simp: st active_status_def)
  have "live P \<subseteq> insert to (live (t_services t))" by (auto simp: live_view all split: if_splits)
  then have "card (live P) \<le> card (insert to (live (t_services t)))" by (intro card_mono) auto
  then show "card (live P) \<le> Suc (card (live (t_services t)))"
    by (auto simp: card_insert_if split: if_splits)
  show "same_on A (t_services t) P"
    unfolding same_on_def
  proof (intro allI impI)
    fix j assume j: "j \<in># A"
    from D(8) [OF j] z0 have "j \<noteq> 0" by auto
    then have "j \<noteq> to" using j toA by auto
    with v(1) show "svc_view P j = svc_view (t_services t) j \<and> out_of P j = out_of (t_services t) j" by blast
  qed
  show "same_threads t (t\<lparr>t_services := P\<rparr>)" using v(3) by (simp add: same_threads_def)
qed

lemma dispatch_delete_spec:
  assumes inv: "sched_inv t A" and sid: "sid \<notin># queued t + A"
  shows "\<exists>P. service_delete (t_services t) sid = Some P \<and> sched_inv (t\<lparr>t_services := P\<rparr>) A
    \<and> same_on A (t_services t) P \<and> live P \<subseteq> live (t_services t)
    \<and> same_threads t (t\<lparr>t_services := P\<rparr>)"
proof -
  note D = sched_invD [OF inv]
  from service_delete_view [OF D(2), of sid] obtain P where
    P: "service_delete (t_services t) sid = Some P" "pool_wf P" "svc_view P = (svc_view (t_services t))(sid := None)"
      "out_of P = (out_of (t_services t))(sid := None)" "p_mask P = p_mask (t_services t)"
      "p_malloc P = p_malloc (t_services t)" by blast
  have nA: "sid \<notin># A" and nq: "sid \<notin># queued t" using sid by auto
  have wf: "sched_wf (t\<lparr>t_services := P\<rparr>)"
    using D(1) by (intro sched_wf_services) (auto simp: binding_view sockevent_view P(3) sched_wf_def)
  have "sched_inv (t\<lparr>t_services := P\<rparr>) A"
    using wf P D nA nq unfolding sched_inv_def by (auto simp: status_view present_view active_status_def)
  then show ?thesis
    using P nA by (auto simp: same_on_def live_view same_threads_def)
qed

text \<open>Dispatching the message a service leaves: the invariant, and nothing lost or gained in \<open>A\<close>.\<close>

lemma dispatch_schedule_message_spec:
  assumes inv: "sched_inv t A" and i: "i \<in># A" and to: "m_to msg = SERVICE_ID_SYSTEM"
    and ok: "message_ok t A i msg" and room: "table_room t"
  shows "\<exists>t'. dispatch_schedule_message t i msg = Some t' \<and> sched_inv t' A \<and> same_threads t t'
    \<and> same_on A (t_services t) (t_services t')
    \<and> int (card (live (t_services t'))) \<le> p_mask (t_services t')"
proof -
  note D = sched_invD [OF inv]
  have room': "int (card (live (t_services t))) \<le> p_mask (t_services t)" using room by (simp add: table_room_def)
  obtain Pe where err: "service_write_receipt (t_services t) i MESSAGE_RECEIPT_ERROR (Some msg) = Some Pe"
    "sched_inv (t\<lparr>t_services := Pe\<rparr>) A" "live Pe = live (t_services t)" "same_on A (t_services t) Pe"
    "same_threads t (t\<lparr>t_services := Pe\<rparr>)"
    by (rule sched_inv_receipt [OF inv i, of MESSAGE_RECEIPT_ERROR "Some msg"]) simp_all
  let ?err = "t\<lparr>t_services := Pe\<rparr>"
  have E: "sched_inv ?err A \<and> same_threads t ?err \<and> same_on A (t_services t) (t_services ?err)
    \<and> int (card (live (t_services ?err))) \<le> p_mask (t_services ?err)"
    using err room' by (simp add: same_threads_def)
  have "dispatch_schedule_message t i msg = Some ?err"
    if "i \<noteq> SERVICE_ID_ROOT \<or> m_type msg \<noteq> MESSAGE_SCHEDULE_NEW \<and> m_type msg \<noteq> MESSAGE_SCHEDULE_DEL"
    using that err(1) by (cases "i = SERVICE_ID_ROOT") (simp_all add: dispatch_schedule_message_def Let_def)
  then consider (new) "i = SERVICE_ID_ROOT" "m_type msg = MESSAGE_SCHEDULE_NEW"
    | (del) "i = SERVICE_ID_ROOT" "m_type msg = MESSAGE_SCHEDULE_DEL"
    | (other) "dispatch_schedule_message t i msg = Some ?err"
    by blast
  then show ?thesis
  proof cases
    case new
    obtain j P where sn: "service_new (t_services t) (m_session msg) = (j, P)" by fastforce
    note N = dispatch_new_spec [OF inv sn]
    let ?r = "if j = 0 then MESSAGE_RECEIPT_ERROR else MESSAGE_RECEIPT_RESPONCE"
    let ?t1 = "t\<lparr>t_services := P\<rparr>"
    obtain Pr where pr: "service_write_receipt (t_services ?t1) i ?r (Some (msg\<lparr>m_to := j\<rparr>)) = Some Pr"
      "sched_inv (?t1\<lparr>t_services := Pr\<rparr>) A" "live Pr = live (t_services ?t1)"
      "same_on A (t_services ?t1) Pr" "same_threads ?t1 (?t1\<lparr>t_services := Pr\<rparr>)"
      by (rule sched_inv_receipt [OF N(1) i, of ?r "Some (msg\<lparr>m_to := j\<rparr>)"]) simp_all
    let ?t = "t\<lparr>t_services := Pr\<rparr>"
    from pr have R: "sched_inv ?t A" "live (t_services ?t) = live P" "same_on A P (t_services ?t)"
      "same_threads ?t1 ?t" by simp_all
    have "dispatch_schedule_message t i msg = Some ?t"
      using new sn pr(1) by (cases "j = 0") (simp_all add: dispatch_schedule_message_def Let_def)
    moreover have "int (card (live P)) \<le> p_mask P"
      using N(3,4) room by (simp add: table_room_def same_threads_def)
    moreover have "p_mask (t_services ?t) = p_mask P" using R(4) by (simp add: same_threads_def)
    ultimately show ?thesis
      using R same_on_trans [OF N(2) R(3)] same_threads_trans [OF N(4) R(4)] by simp
  next
    case del
    with ok to have "m_session msg \<notin># queued t + A" by (simp add: message_ok_def)
    from dispatch_delete_spec [OF inv this] obtain P where
      P: "service_delete (t_services t) (m_session msg) = Some P" "sched_inv (t\<lparr>t_services := P\<rparr>) A"
        "same_on A (t_services t) P" "live P \<subseteq> live (t_services t)" "same_threads t (t\<lparr>t_services := P\<rparr>)" by blast
    let ?P2 = "P\<lparr>p_freed := message_delete (Some msg) (p_freed P)\<rparr>"
    let ?t2 = "t\<lparr>t_services := ?P2\<rparr>"
    have inv2: "sched_inv ?t2 A"
      using sched_inv_pool [OF P(2), of ?P2] sched_invD [OF P(2)] by simp
    obtain Pr where pr: "service_write_receipt (t_services ?t2) i MESSAGE_RECEIPT_DONE None = Some Pr"
      "sched_inv (?t2\<lparr>t_services := Pr\<rparr>) A" "live Pr = live (t_services ?t2)"
      "same_on A (t_services ?t2) Pr" "same_threads ?t2 (?t2\<lparr>t_services := Pr\<rparr>)"
      by (rule sched_inv_receipt [OF inv2 i, of MESSAGE_RECEIPT_DONE None]) simp_all
    let ?t = "t\<lparr>t_services := Pr\<rparr>"
    from pr have R: "sched_inv ?t A" "live (t_services ?t) = live ?P2" "same_on A ?P2 (t_services ?t)" "same_threads ?t2 ?t"
      by simp_all
    have "card (live P) \<le> card (live (t_services t))" using P(4) by (intro card_mono) auto
    then have "int (card (live P)) \<le> p_mask P" using room' P(5) by (simp add: same_threads_def)
    moreover have "live ?P2 = live P" by (simp add: live_view)
    moreover have "p_mask (t_services ?t) = p_mask P" using R(4) by (simp add: same_threads_def)
    moreover have "dispatch_schedule_message t i msg = Some ?t"
      using del P(1) pr(1) by (simp add: dispatch_schedule_message_def Let_def)
    moreover have "same_on A (t_services t) ?P2" using P(3) by (simp add: same_on_def)
    moreover have "same_threads t ?t2" using P(5) by (simp add: same_threads_def)
    ultimately show ?thesis
      using R same_on_trans [OF _ R(3)] same_threads_trans [OF _ R(4)] by (intro exI [of _ ?t]) simp
  next
    case other
    then show ?thesis using E by blast
  qed
qed

lemma dispatch_out_message_spec:
  assumes inv: "sched_inv t A" and i: "i \<in># A" and ok: "message_ok t A i msg" and room: "table_room t"
  shows "\<exists>t'. dispatch_out_message t i msg = Some t' \<and> sched_inv t' A \<and> same_threads t t'
    \<and> same_on A (t_services t) (t_services t')
    \<and> int (card (live (t_services t'))) \<le> p_mask (t_services t')"
proof (cases "m_to msg = SERVICE_ID_SYSTEM")
  case True
  then show ?thesis
    using dispatch_schedule_message_spec [OF inv i True ok room] by (simp add: dispatch_out_message_def)
next
  case False
  note D = sched_invD [OF inv]
  have room': "int (card (live (t_services t))) \<le> p_mask (t_services t)" using room by (simp add: table_room_def)
  from pool_step_push [OF D(2), of "m_to msg" msg] ok False obtain r P where
    push: "service_push_message (t_services t) (m_to msg) (Some msg) = Some (r, P)"
    by (auto simp: message_ok_def)
  note v = push_message_view [OF D(2) push]
  have invP: "sched_inv (t\<lparr>t_services := P\<rparr>) A"
    using push_message_account(1) [OF D(2) push] v D(4) by (intro sched_inv_pool [OF inv]) simp_all
  let ?rc = "if r = 0 then MESSAGE_RECEIPT_DONE else if r = 1 then MESSAGE_RECEIPT_BLOCK else MESSAGE_RECEIPT_ERROR"
  let ?b = "if r = 0 then None else Some msg"
  let ?tP = "t\<lparr>t_services := P\<rparr>"
  obtain Pr where pr: "service_write_receipt (t_services ?tP) i ?rc ?b = Some Pr"
    "sched_inv (?tP\<lparr>t_services := Pr\<rparr>) A" "live Pr = live (t_services ?tP)"
    "same_on A (t_services ?tP) Pr" "same_threads ?tP (?tP\<lparr>t_services := Pr\<rparr>)"
    by (rule sched_inv_receipt [OF invP i, of ?rc ?b]) simp_all
  let ?t1 = "t\<lparr>t_services := Pr\<rparr>"
  from pr have R: "sched_inv ?t1 A" "live (t_services ?t1) = live P" "same_on A P (t_services ?t1)"
    "same_threads (t\<lparr>t_services := P\<rparr>) ?t1" by simp_all
  have lv: "live P = live (t_services t)" using v by (simp add: live_view)
  have pm: "p_mask (t_services ?t1) = p_mask (t_services t)" using R(4) v by (simp add: same_threads_def)
  from check_message_to_spec [OF R(1), of "m_to msg"] room' R(2) lv pm obtain t' where
    t': "check_message_to ?t1 (m_to msg) = Some t'" "sched_inv t' A" "same_threads ?t1 t'"
      "same_on A (t_services ?t1) (t_services t')" "live (t_services t') = live (t_services ?t1)" by auto
  have "dispatch_out_message t i msg = Some t'"
  proof -
    have "dispatch_out_message t i msg = check_message_to ?t1 (m_to msg)"
      using False push pr(1) by (cases "r = 0"; cases "r = 1") (simp_all add: dispatch_out_message_def Let_def)
    then show ?thesis using t'(1) by simp
  qed
  moreover have "same_threads t ?t1" using R(4) v by (simp add: same_threads_def)
  moreover have "same_on A (t_services t) P" using v by (simp add: same_on_def)
  ultimately show ?thesis
    using t' same_threads_trans [OF _ t'(3)] same_on_trans [OF _ same_on_trans [OF R(3) t'(4)]] R(2) lv room'
    by (intro exI [of _ t']) (simp add: same_threads_def)
qed

section \<open>Dispatching a finished service\<close>

lemma sched_inv_drop:
  assumes inv: "sched_inv t (A + {#i#})" and "service_status_get (t_services t) i \<notin> active_status"
  shows "sched_inv t A"
proof -
  note D = sched_invD [OF inv]
  have "count (queued t + A) j \<le> 1" for j using D(5) [of j] by (simp split: if_splits)
  moreover have "service_status_get (t_services t) j \<notin> active_status" if "j \<notin># queued t + A" for j
    using D(9) [of j] that assms(2) by (cases "j = i") auto
  ultimately show ?thesis using D unfolding sched_inv_def by auto
qed

lemma sched_inv_idle:
  assumes inv: "sched_inv t (A + {#i#})" and mb: "has_mailbox (t_services t) i"
  shows "sched_inv (t\<lparr>t_services := service_status_set (t_services t) i SERVICE_STATUS_IDLE\<rparr>) A"
    and "same_on A (t_services t) (service_status_set (t_services t) i SERVICE_STATUS_IDLE)"
    and "same_threads t (t\<lparr>t_services := service_status_set (t_services t) i SERVICE_STATUS_IDLE\<rparr>)"
proof -
  note D = sched_invD [OF inv]
  let ?P = "service_status_set (t_services t) i SERVICE_STATUS_IDLE"
  have iA: "i \<in># A + {#i#}" by simp
  have nq: "i \<notin># queued t" by (rule sched_inv_disjoint [OF inv iA])
  have nA: "i \<notin># A" using D(5) [of i] by (simp add: not_in_iff)
  note st = status_set_status [OF D(2) D(8) [OF iA], of SERVICE_STATUS_IDLE]
  note vw = status_set_view [OF D(2), of i SERVICE_STATUS_IDLE]
  have pw: "pool_wf ?P" by (rule status_set_wf(1) [OF D(2)]) (use mb in simp)
  have wf: "sched_wf (t\<lparr>t_services := ?P\<rparr>)"
    using D(1) by (intro sched_wf_services [OF D(1)]) (simp_all add: st sched_wf_def)
  have "count (queued t + A) j \<le> 1" for j using D(5) [of j] by (simp split: if_splits)
  moreover have "service_status_get ?P j \<notin> active_status" if "j \<notin># queued t + A" for j
    using that D(9) [of j] by (cases "j = i") (auto simp: st active_status_def)
  ultimately show "sched_inv (t\<lparr>t_services := ?P\<rparr>) A"
    using D wf pw nq nA vw(3,4) unfolding sched_inv_def by (auto simp: st)
  show "same_on A (t_services t) ?P" using nA by (auto simp: same_on_def vw)
  show "same_threads t (t\<lparr>t_services := ?P\<rparr>)" by (simp add: same_threads_def vw)
qed

lemma same_on_mono: "same_on (A + B) p p' \<Longrightarrow> same_on A p p'"
  by (simp add: same_on_def)

lemma dispatch_alive_spec:
  assumes inv: "sched_inv t (A + {#i#})" and st: "service_status_get (t_services t) i = SERVICE_STATUS_DONE"
    and ok: "\<And>m. out_of (t_services t) i = Some m \<Longrightarrow> message_ok t (A + {#i#}) i m"
    and room: "table_room t"
  shows "\<exists>t'. dispatch_alive t i SERVICE_STATUS_DONE = Some t' \<and> sched_inv t' A \<and> same_threads t t'
    \<and> same_on A (t_services t) (t_services t')"
proof -
  note D = sched_invD [OF inv]
  have iA: "i \<in># A + {#i#}" by simp
  have nA: "i \<notin># A" using D(5) [of i] by (simp add: not_in_iff)
  obtain msg P where out: "service_message_out (t_services t) i = (msg, P)" by fastforce
  note v = message_out_view [OF D(2) out]
  have inv0: "sched_inv (t\<lparr>t_services := P\<rparr>) (A + {#i#})"
    using message_out_account(1) [OF D(2) out] v D(4) by (intro sched_inv_pool [OF inv]) simp_all
  have same0: "same_threads t (t\<lparr>t_services := P\<rparr>)" "same_on A (t_services t) P"
    using v nA by (auto simp: same_threads_def same_on_def)
  have lv: "live P = live (t_services t)" using v by (simp add: live_view)
  have room0: "table_room (t\<lparr>t_services := P\<rparr>)" using room v lv by (simp add: table_room_def)
  have "\<exists>t1. (case msg of None \<Rightarrow> Some (t\<lparr>t_services := P\<rparr>)
        | Some m \<Rightarrow> dispatch_out_message (t\<lparr>t_services := P\<rparr>) i m) = Some t1
    \<and> sched_inv t1 (A + {#i#}) \<and> same_threads t t1 \<and> same_on (A + {#i#}) P (t_services t1)
    \<and> int (card (live (t_services t1))) \<le> p_mask (t_services t1)"
  proof (cases msg)
    case None
    then show ?thesis using inv0 same0 room0 by (simp add: table_room_def)
  next
    case (Some m)
    have "message_ok t (A + {#i#}) i m" using ok v Some by simp
    moreover have "service_status_get P j = service_status_get (t_services t) j"
      "has_mailbox P j = has_mailbox (t_services t) j" for j using v by (simp_all add: status_view mailbox_view)
    ultimately have "message_ok (t\<lparr>t_services := P\<rparr>) (A + {#i#}) i m"
      by (auto simp: message_ok_def split: if_splits)
    from dispatch_out_message_spec [OF inv0 iA this room0] Some same_threads_trans [OF same0(1)]
    show ?thesis by auto
  qed
  then obtain t1 where t1: "(case msg of None \<Rightarrow> Some (t\<lparr>t_services := P\<rparr>)
        | Some m \<Rightarrow> dispatch_out_message (t\<lparr>t_services := P\<rparr>) i m) = Some t1"
    "sched_inv t1 (A + {#i#})" "same_threads t t1" "same_on (A + {#i#}) P (t_services t1)"
    "int (card (live (t_services t1))) \<le> p_mask (t_services t1)" by blast
  note D1 = sched_invD [OF t1(2)]
  have st1: "service_status_get (t_services t1) i = SERVICE_STATUS_DONE"
    using same_on_status [OF t1(4) iA] st v by (simp add: status_view)
  have so1: "same_on A (t_services t) (t_services t1)"
    by (rule same_on_trans [OF same0(2) same_on_mono [OF t1(4)]])
  have nq: "i \<notin># queued t1" by (rule sched_inv_disjoint [OF t1(2) iA])
  have mb: "has_mailbox (t_services t1) i" using status_mailbox [OF D1(2), of i] st1 by simp
  from D1(8) [OF iA] obtain S where S: "get_service (t_services t1) i = Some S" by auto
  from mb S obtain q where q: "s_msg S = Some q" by (auto simp: has_mailbox_def)
  obtain has where has: "service_has_message (t_services t1) i = Some has"
    using S q by (cases "s_receipt S = MESSAGE_RECEIPT_NONE") (simp_all add: service_has_message_def)
  have diff: "A + {#i#} - {#i#} = A" by simp
  show ?thesis
  proof (cases "has = 0")
    case has0: True
    show ?thesis
    proof (cases "service_sockevent_get (t_services t1) i \<ge> 0")
      case False
      let ?t' = "t1\<lparr>t_services := service_status_set (t_services t1) i SERVICE_STATUS_IDLE\<rparr>"
      have "dispatch_alive t i SERVICE_STATUS_DONE = Some ?t'"
        using out t1(1) has has0 False by (simp add: dispatch_alive_def Let_def)
      then show ?thesis
        using sched_inv_idle [OF t1(2) mb] same_threads_trans [OF t1(3)] same_on_trans [OF so1] by auto
    next
      case True
      let ?Pm = "(t_services t1)\<lparr>p_malloc := []\<rparr>"
      have new: "message_new (p_malloc (t_services t1)) (idle_message i) = (Some (idle_message i), [])"
        by (simp add: D1(4) message_new_def)
      have Pm: "?Pm = t_services t1" using D1(4) by (metis service_pool.surjective service_pool.update_convs(5))
      from pool_step_push [OF D1(2), of i "idle_message i"] mb obtain r P2 where
        push: "service_push_message (t_services t1) i (Some (idle_message i)) = Some (r, P2)" by blast
      note pv = push_message_view [OF D1(2) push]
      have inv2: "sched_inv (t1\<lparr>t_services := P2\<rparr>) (A + {#i#})"
        using push_message_account(1) [OF D1(2) push] pv D1(4) by (intro sched_inv_pool [OF t1(2)]) simp_all
      have lv2: "live P2 = live (t_services t1)" using pv by (simp add: live_view)
      have "has_mailbox P2 i" using mb pv by (simp add: mailbox_view)
      moreover have "get_service P2 i \<noteq> None"
        using S pv present_view [of P2 i] present_view [of "t_services t1" i] by simp
      ultimately have P2: "has_mailbox P2 i" "get_service P2 i \<noteq> None" by simp_all
      have "i \<notin># queued (t1\<lparr>t_services := P2\<rparr>)"
        "int (card (live (t_services (t1\<lparr>t_services := P2\<rparr>)))) \<le> p_mask (t_services (t1\<lparr>t_services := P2\<rparr>))"
        using nq t1(5) lv2 pv by simp_all
      from activate_spec [OF inv2 this(1) _ _ this(2)] P2 obtain t' where
        t': "schedule_back (t1\<lparr>t_services := service_status_set P2 i SERVICE_STATUS_SCHEDULE\<rparr>) i = Some t'"
          "sched_inv t' A" "same_threads (t1\<lparr>t_services := P2\<rparr>) t'"
          "\<forall>j. j \<noteq> i \<longrightarrow> svc_view (t_services t') j = svc_view P2 j" "out_of (t_services t') = out_of P2"
        by (auto simp: diff)
      have "dispatch_alive t i SERVICE_STATUS_DONE = Some t'"
        using out t1(1) has has0 True new push t'(1) Pm by (simp add: dispatch_alive_def Let_def)
      moreover have "same_threads t1 t'" using t'(3) pv by (simp add: same_threads_def)
      moreover have "same_on A (t_services t1) (t_services t')" using t'(4,5) pv nA by (auto simp: same_on_def)
      ultimately show ?thesis
        using t'(2) same_threads_trans [OF t1(3)] same_on_trans [OF so1] by blast
    qed
  next
    case False
    from activate_spec [OF t1(2) nq D1(8) [OF iA] mb t1(5)] obtain t' where
      t': "schedule_back (t1\<lparr>t_services := service_status_set (t_services t1) i SERVICE_STATUS_SCHEDULE\<rparr>) i = Some t'"
        "sched_inv t' A" "same_threads t1 t'"
        "\<forall>j. j \<noteq> i \<longrightarrow> svc_view (t_services t') j = svc_view (t_services t1) j"
        "out_of (t_services t') = out_of (t_services t1)"
      by (auto simp: diff)
    have "dispatch_alive t i SERVICE_STATUS_DONE = Some t'"
      using out t1(1) has False t'(1) by (simp add: dispatch_alive_def Let_def)
    moreover have "same_on A (t_services t1) (t_services t')" using t'(4,5) nA by (auto simp: same_on_def)
    ultimately show ?thesis
      using t'(2,3) same_threads_trans [OF t1(3)] same_on_trans [OF so1] by blast
  qed
qed

text \<open>Root can take one more message, or is gone.\<close>

definition root_ready :: "ltask \<Rightarrow> bool" where
  "root_ready t \<longleftrightarrow> service_status_get (t_services t) SERVICE_ID_ROOT = SERVICE_STATUS_DEAD
     \<or> (\<exists>S q. get_service (t_services t) SERVICE_ID_ROOT = Some S \<and> s_msg S = Some q
          \<and> queue_count q < queue_cap q)"

lemma message_out_get:
  assumes "pool_wf p" and "service_message_out p i = (m, p')" and "get_service p j = Some S"
  shows "\<exists>S'. get_service p' j = Some S' \<and> s_msg S' = s_msg S \<and> s_status S' = s_status S"
  using assms get_service_upd [OF assms(1), of "\<lambda>S. S\<lparr>s_out := None\<rparr>" i j]
  by (auto simp: service_message_out_def split: option.splits)

lemma dispatch_dead_spec:
  assumes inv: "sched_inv t (A + {#i#})" and st: "service_status_get (t_services t) i = SERVICE_STATUS_DEAD"
    and out: "out_of (t_services t) i = Some (signal_message i)"
    and root: "root_ready t" and room: "int (card (live (t_services t))) \<le> p_mask (t_services t)"
  shows "\<exists>t'. dispatch_dead t i = Some t' \<and> sched_inv t' A \<and> same_threads t t'
    \<and> same_on A (t_services t) (t_services t')"
proof -
  note D = sched_invD [OF inv]
  have nA: "i \<notin># A" using D(5) [of i] by (simp add: not_in_iff)
  have nq: "i \<notin># queued t" by (rule sched_inv_disjoint [OF inv]) simp
  obtain m P where mo: "service_message_out (t_services t) i = (m, P)" by fastforce
  note v = message_out_view [OF D(2) mo]
  have m: "m = Some (signal_message i)" using v out by simp
  have pw: "pool_wf P" by (rule message_out_account(1) [OF D(2) mo])
  have inv0: "sched_inv (t\<lparr>t_services := P\<rparr>) (A + {#i#})"
    using pw v D(4) by (intro sched_inv_pool [OF inv]) simp_all
  have so0: "same_on A (t_services t) P" using v nA by (auto simp: same_on_def)
  have toroot: "m_to (signal_message i) = SERVICE_ID_ROOT" "m_type (signal_message i) = MESSAGE_SIGNAL"
    by (simp_all add: signal_message_def)
  show ?thesis
  proof (cases "service_status_get (t_services t) SERVICE_ID_ROOT = SERVICE_STATUS_DEAD")
    case True
    then have "service_status_get P SERVICE_ID_ROOT = SERVICE_STATUS_DEAD" using v by (simp add: status_view)
    then have push: "service_push_message P SERVICE_ID_ROOT (Some (signal_message i)) = Some (-1, P)"
      by (rule push_message_dead)
    have "service_status_get P i \<notin> active_status" using st v by (simp add: status_view active_status_def)
    with sched_inv_drop [OF inv0] have inv1: "sched_inv (t\<lparr>t_services := P\<rparr>) A" by simp
    from dispatch_delete_spec [OF inv1, of i] nA nq obtain P2 where
      P2: "service_delete P i = Some P2" "sched_inv (t\<lparr>t_services := P2\<rparr>) A" "same_on A P P2"
        "same_threads (t\<lparr>t_services := P\<rparr>) (t\<lparr>t_services := P2\<rparr>)" by auto
    have "dispatch_dead t i = Some (t\<lparr>t_services := P2\<rparr>)"
      using mo m push P2(1) toroot by (simp add: dispatch_dead_def Let_def)
    moreover have "same_threads t (t\<lparr>t_services := P2\<rparr>)" using P2(4) v by (simp add: same_threads_def)
    ultimately show ?thesis using P2(2,3) same_on_trans [OF so0] by auto
  next
    case False
    with root obtain S q where S: "get_service (t_services t) SERVICE_ID_ROOT = Some S" "s_msg S = Some q"
      "queue_count q < queue_cap q" by (auto simp: root_ready_def)
    from message_out_get [OF D(2) mo S(1)] obtain S' where
      S': "get_service P SERVICE_ID_ROOT = Some S'" "s_msg S' = Some q" "s_status S' = s_status S"
      using S(2) by auto
    have "s_status S' \<noteq> SERVICE_STATUS_DEAD" using False S(1) S'(3) by (simp add: service_status_get_def)
    from push_message_room [OF pw S'(1) this S'(2) S(3), of "signal_message i"] obtain P1 where
      push: "service_push_message P SERVICE_ID_ROOT (Some (signal_message i)) = Some (0, P1)" by blast
    note pv = push_message_view [OF pw push]
    have inv1: "sched_inv (t\<lparr>t_services := P1\<rparr>) (A + {#i#})"
      using push_message_account(1) [OF pw push] pv v D(4) sched_inv_pool [OF inv, of P1] by simp
    have "int (card (live P1)) \<le> p_mask P1" using room v pv by (simp add: live_view)
    with check_message_to_spec [OF inv1, of SERVICE_ID_ROOT] obtain t' where
      t': "check_message_to (t\<lparr>t_services := P1\<rparr>) SERVICE_ID_ROOT = Some t'" "sched_inv t' (A + {#i#})"
        "same_threads (t\<lparr>t_services := P1\<rparr>) t'" "same_on (A + {#i#}) P1 (t_services t')" by auto
    have "service_status_get (t_services t') i = SERVICE_STATUS_DEAD"
      using same_on_status [OF t'(4), of i] st v pv by (simp add: status_view)
    with sched_inv_drop [OF t'(2)] have "sched_inv t' A" by (simp add: active_status_def)
    moreover have "dispatch_dead t i = Some t'"
      using mo m push t'(1) toroot by (simp add: dispatch_dead_def Let_def)
    moreover have "same_threads t t'" using t'(3) v pv by (simp add: same_threads_def)
    moreover have "same_on A P P1" using pv by (simp add: same_on_def)
    ultimately show ?thesis
      using same_on_trans [OF so0 same_on_trans [OF _ same_on_mono [OF t'(4)]]] by blast
  qed
qed

text \<open>The signal of a dead service while root's mailbox is full: it is gone afterwards.\<close>

lemma dispatch_dead_full:
  assumes inv: "sched_inv t (A + {#i#})" and st: "service_status_get (t_services t) i = SERVICE_STATUS_DEAD"
    and out: "out_of (t_services t) i = Some (signal_message i)"
    and root: "get_service (t_services t) SERVICE_ID_ROOT = Some R" "s_status R \<noteq> SERVICE_STATUS_DEAD"
      "s_msg R = Some q" "queue_count q = queue_cap q"
    and room: "int (card (live (t_services t))) \<le> p_mask (t_services t)"
  shows "\<exists>t'. dispatch_dead t i = Some t' \<and> i \<in># queued t' \<and> out_of (t_services t') i = None
    \<and> service_status_get (t_services t') i = SERVICE_STATUS_DEAD \<and> p_freed (t_services t') = p_freed (t_services t)"
proof -
  note D = sched_invD [OF inv]
  have iA: "i \<in># A + {#i#}" by simp
  obtain m P where mo: "service_message_out (t_services t) i = (m, P)" by fastforce
  note v = message_out_view [OF D(2) mo]
  have m: "m = Some (signal_message i)" using v out by simp
  have pw: "pool_wf P" by (rule message_out_account(1) [OF D(2) mo])
  from message_out_get [OF D(2) mo root(1)] obtain R' where
    R': "get_service P SERVICE_ID_ROOT = Some R'" "s_msg R' = Some q" "s_status R' = s_status R"
    using root(3) by auto
  have "s_status R' \<noteq> SERVICE_STATUS_DEAD" "\<not> queue_count q < queue_cap q" using root(2,4) R'(3) by simp_all
  from push_message_full [OF pw R'(1) this(1) R'(2) this(2)]
  have push: "service_push_message P SERVICE_ID_ROOT (Some (signal_message i)) = Some (1, P)" .
  have inv0: "sched_inv (t\<lparr>t_services := P\<rparr>) (A + {#i#})"
    using pw v D(4) by (intro sched_inv_pool [OF inv]) simp_all
  note D0 = sched_invD [OF inv0]
  have nq: "i \<notin># queued (t\<lparr>t_services := P\<rparr>)" by (rule sched_inv_disjoint [OF inv0 iA])
  have le: "count (queued (t\<lparr>t_services := P\<rparr>)) j \<le> 1" for j using D0(5) [of j] by (simp split: if_splits)
  have ex: "get_service (t_services (t\<lparr>t_services := P\<rparr>)) j \<noteq> None" if "j \<in># queued (t\<lparr>t_services := P\<rparr>)" for j
    using D0(6) [OF that] status_active [of "t_services (t\<lparr>t_services := P\<rparr>)" j] by simp
  have "int (card (live (t_services (t\<lparr>t_services := P\<rparr>)))) \<le> p_mask (t_services (t\<lparr>t_services := P\<rparr>))"
    using room v by (simp add: live_view)
  from run_queue_room [OF D0(1,3) _ _ nq D0(8) [OF iA] this] le ex
  have rq: "queue_count (t_schedule (t\<lparr>t_services := P\<rparr>)) < queue_cap (t_schedule (t\<lparr>t_services := P\<rparr>))" by blast
  have "i \<noteq> 0" using D(8) [OF iA] get_service_zero [OF D(2)] by auto
  with run_queue_push [OF D0(1) rq, of "int_of_id i"] obtain qs where
    qs: "queue_push_int (t_schedule t) (int_of_id i) = Some (0, qs)"
      "queued (t\<lparr>t_services := P, t_schedule := qs\<rparr>) = queued t + {#i#}" by auto
  have "dispatch_dead t i = Some (t\<lparr>t_services := P, t_schedule := qs\<rparr>)"
    using mo m push qs(1) by (simp add: dispatch_dead_def schedule_back_def signal_message_def Let_def)
  moreover have "p_freed P = p_freed (t_services t)"
    using mo by (auto simp: service_message_out_def split: option.splits)
  ultimately show ?thesis using qs(2) v st by (simp add: status_view)
qed

lemma dispatch_dead_no_signal:
  "out_of (t_services t) i = None \<Longrightarrow> pool_wf (t_services t) \<Longrightarrow> dispatch_dead t i = None"
  using message_out_view [of "t_services t" i] by (auto simp: dispatch_dead_def split: prod.splits option.splits)

end
