(* ===== verification/Threads.thy ===== *)
theory Threads
  imports DispatchInv PoolHistory
begin

text \<open>
  The worker threads: \<open>thread_worker\<close> of \<open>src/ltask.c\<close> as a step relation over the shared
  \<open>struct ltask\<close> and one program counter per thread. A thread that owns the scheduler goes
  through the phases of \<open>schedule_dispatch\<close> and \<open>schedule_dispatch_worker\<close>; each phase (and
  the dispatch of each finished service) is one step, so that the other threads take jobs,
  run services and complete them in between. The Lua code of a running service is any
  sequence of calls it is entitled to make (\<open>lua_call_ok\<close>).

  A worker that finds no job sleeps in \<open>worker_sleep\<close>: it tests \<open>term_signal\<close>, then under the lock
  its mailbox and \<open>wakeup\<close>, and then waits until a \<open>worker_wakeup\<close>. The flag of the condition variable
  is set by a \<open>worker_wakeup\<close> that finds the worker asleep, which sets \<open>wakeup\<close> too; \<open>wakeup\<close> was 0 when
  the worker went to wait and nobody else clears it, so the wait ends when \<open>wakeup\<close> is set
  (\<open>WorkerThreads\<close> and \<open>Cond\<close> have the flag and the mutex). The counters \<open>active_worker\<close> and
  \<open>thread_count\<close>, which only the debug log shows, are left out.
\<close>

datatype phase =
    PhExternal
  | PhCollect
  | PhDispatch "service_id list"
  | PhPending
  | PhCount "service_id list"
  | PhPrepare "service_id list" int
  | PhAssign "service_id list"
  | PhTouch
  | PhFind
  | PhRelease int

text \<open>
  Why a thread runs a round: to empty its own \<open>service_done\<close> (line 730), as the second half
  of completing a job (line 733), or because it found no job (line 744).
\<close>

datatype round = RInner service_id | RFinal | RIdle int

datatype thread_pc =
    TTop
  | TStart service_id
  | TRun service_id
  | TComplete service_id
  | TAcquire service_id
  | TOwner service_id
  | TSpin service_id
  | TRound round phase
  | TNoJob int
  | TRetry int
  | TSleep     \<comment> \<open>in \<open>worker_sleep\<close>, before its test of \<open>term_signal\<close>\<close>
  | TLock      \<comment> \<open>after that test, before \<open>cond_wait_begin\<close>\<close>
  | TWait      \<comment> \<open>in \<open>cond_wait\<close>\<close>
  | TQuit
  | TAbort      \<comment> \<open>a failed assertion or undefined behaviour\<close>
  | TSlots "service_id list"  \<comment> \<open>the assertion \<open>free_slot >= job_n\<close> failed with these jobs in hand\<close>

record sys =
  sy_task :: ltask
  sy_pcs :: "thread_pc list"

definition pc_at :: "sys \<Rightarrow> nat \<Rightarrow> thread_pc" where
  "pc_at s k = sy_pcs s ! k"

definition put :: "sys \<Rightarrow> nat \<Rightarrow> ltask \<Rightarrow> thread_pc \<Rightarrow> sys" where
  "put s k t pc = s\<lparr>sy_task := t, sy_pcs := (sy_pcs s)[k := pc]\<rparr>"

definition put_worker :: "sys \<Rightarrow> nat \<Rightarrow> worker_thread \<Rightarrow> thread_pc \<Rightarrow> sys" where
  "put_worker s k w pc = put s k (set_worker (sy_task s) (int k) w) pc"

definition put_pool :: "sys \<Rightarrow> nat \<Rightarrow> service_pool \<Rightarrow> thread_pc \<Rightarrow> sys" where
  "put_pool s k P pc = put s k ((sy_task s)\<lparr>t_services := P\<rparr>) pc"

section \<open>A scheduling round, phase by phase\<close>

definition end_round :: "round \<Rightarrow> thread_pc" where
  "end_round r = (case r of RInner i \<Rightarrow> TSpin i | RFinal \<Rightarrow> TRound r PhFind | RIdle n \<Rightarrow> TRound r PhFind)"

fun round_step ::
  "(int \<Rightarrow> bool) \<Rightarrow> (ptr \<Rightarrow> ptr \<times> u64) \<Rightarrow> int \<Rightarrow> round \<Rightarrow> phase \<Rightarrow> ltask \<Rightarrow> (thread_pc \<times> ltask) option"
where
  "round_step fails pack k r PhExternal t =
     (if t_external_message t \<noteq> None
      then map_option (Pair (TRound r PhCollect)) (dispatch_external_messages pack t)
      else Some (TRound r PhCollect, t))"
| "round_step fails pack k r PhCollect t =
     map_option (\<lambda>(jobs, t1). (TRound r (PhDispatch jobs), t1)) (collect_done_job t)"
| "round_step fails pack k r (PhDispatch []) t = Some (TRound r PhPending, t)"
| "round_step fails pack k r (PhDispatch (i # is)) t =
     map_option (Pair (TRound r (PhDispatch is))) (dispatch_done t i)"
| "round_step fails pack k r PhPending t =
     map_option (\<lambda>(jobs, t1). (TRound r (PhCount jobs), t1)) (get_pending_jobs fails t)"
| "round_step fails pack k r (PhCount jobs) t =
     map_option (\<lambda>(free_slot, t1).
        (if free_slot \<ge> int (length jobs)
         then TRound r (PhPrepare jobs (free_slot - int (length jobs))) else TSlots jobs, t1))
       (count_freeslot t)"
| "round_step fails pack k r (PhPrepare jobs n) t =
     map_option (\<lambda>(prepare, t1). (TRound r (PhAssign prepare), t1)) (prepare_task t jobs n)"
| "round_step fails pack k r (PhAssign jobs) t =
     map_option (Pair (TRound r PhTouch)) (assign_prepare_task t jobs)"
| "round_step fails pack k r PhTouch t =
     map_option (Pair (end_round r)) (trigger_blocked_workers t)"
| "round_step fails pack k r PhFind t =
     map_option (\<lambda>(nojob, t1). (TRound r (PhRelease nojob), t1)) (find_job fails k t)"
| "round_step fails pack k r (PhRelease nojob) t =
     map_option (\<lambda>t1. (case r of RIdle n \<Rightarrow> TRetry nojob | _ \<Rightarrow> TTop, t1)) (release_scheduler k t)"

text \<open>The phases in sequence are the code's \<open>schedule_dispatch\<close>.\<close>

fun run_round ::
  "nat \<Rightarrow> (int \<Rightarrow> bool) \<Rightarrow> (ptr \<Rightarrow> ptr \<times> u64) \<Rightarrow> int \<Rightarrow> round \<Rightarrow> phase \<Rightarrow> ltask \<Rightarrow> (thread_pc \<times> ltask) option"
where
  "run_round 0 fails pack k r ph t = None"
| "run_round (Suc fuel) fails pack k r ph t =
     (case round_step fails pack k r ph t of
        None \<Rightarrow> None
      | Some (pc, t1) \<Rightarrow>
          (case pc of TRound r1 ph1 \<Rightarrow> (if ph1 = PhFind then Some (pc, t1) else run_round fuel fails pack k r1 ph1 t1)
           | _ \<Rightarrow> Some (pc, t1)))"

section \<open>Where every service is\<close>

text \<open>What a thread holds: the service it runs or has finished, and what a round carries.\<close>

definition hold :: "worker_thread \<Rightarrow> service_id multiset" where
  "hold w = opt_job (w_running w) + opt_job (id_of_int (w_service_done w))"

fun phase_done :: "thread_pc \<Rightarrow> service_id multiset" where
  "phase_done (TRound r (PhDispatch is)) = mset is"
| "phase_done _ = {#}"

fun phase_jobs :: "thread_pc \<Rightarrow> service_id multiset" where
  "phase_jobs (TRound r (PhCount is)) = mset is"
| "phase_jobs (TRound r (PhPrepare is n)) = mset is"
| "phase_jobs (TRound r (PhAssign is)) = mset is"
| "phase_jobs (TSlots is) = mset is"
| "phase_jobs _ = {#}"

definition waiting_jobs :: "sys \<Rightarrow> service_id multiset" where
  "waiting_jobs s = queued (sy_task s) + sum_list (map phase_jobs (sy_pcs s))"

definition active_jobs :: "sys \<Rightarrow> service_id multiset" where
  "active_jobs s = sum_list (map hold (t_workers (sy_task s))) + sum_list (map phase_done (sy_pcs s))"

section \<open>What the Lua code may do\<close>

text \<open>
  A running service reads its inbox and receipts, sends one message at a time, binds itself
  to a worker that exists and opens its socket event. Root also builds and removes other
  services: those that are in no queue and on no worker.
\<close>

fun lua_call_ok :: "sys \<Rightarrow> service_id \<Rightarrow> pool_call \<Rightarrow> bool" where
  "lua_call_ok s i (Call_send j m) = (j = i)"
| "lua_call_ok s i (Call_read_receipt j) = (j = i)"
| "lua_call_ok s i (Call_pop j) =
     (j = i \<or> i = SERVICE_ID_ROOT \<and> j \<notin># waiting_jobs s + active_jobs s)"
| "lua_call_ok s i (Call_sockevent_init j n) = (j = i \<and> n < int MAX_SOCKEVENT)"
| "lua_call_ok s i (Call_binding_set j w) =
     (w < c_worker (t_config (sy_task s))
      \<and> (j = i \<or> i = SERVICE_ID_ROOT \<and> j \<notin># waiting_jobs s + active_jobs s))"
| "lua_call_ok s i (Call_setlabel j l) = True"
| "lua_call_ok s i (Call_init j vm) = (i = SERVICE_ID_ROOT \<and> j \<notin># waiting_jobs s + active_jobs s)"
| "lua_call_ok s i (Call_loadstring j err) = (i = SERVICE_ID_ROOT \<and> j \<notin># waiting_jobs s + active_jobs s)"
| "lua_call_ok s i (Call_delete j) = (i = SERVICE_ID_ROOT \<and> j \<notin># waiting_jobs s + active_jobs s)"
| "lua_call_ok s i _ = False"

text \<open>
  What the scheduler relies on when it dispatches: the messages satisfy \<open>message_ok\<close>, the
  service table keeps a slot free for the run queue, and root is known and can take the
  signal of a dead service.
\<close>

fun phase_ok :: "sys \<Rightarrow> phase \<Rightarrow> bool" where
  "phase_ok s PhExternal =
     (t_external_message (sy_task s) = None
      \<or> (service_status_get (t_services (sy_task s)) SERVICE_ID_ROOT = SERVICE_STATUS_DEAD
          \<or> has_mailbox (t_services (sy_task s)) SERVICE_ID_ROOT) \<and> table_room (sy_task s))"
| "phase_ok s (PhDispatch (i # is)) =
     (table_room (sy_task s)
      \<and> (if service_status_get (t_services (sy_task s)) i = SERVICE_STATUS_DEAD then root_ready (sy_task s)
         else (case out_of (t_services (sy_task s)) i of None \<Rightarrow> True
               | Some m \<Rightarrow> message_ok (sy_task s) (active_jobs s) i m)))"
| "phase_ok s _ = True"

section \<open>The steps of a thread\<close>

definition start_worker :: "worker_thread \<Rightarrow> service_id \<Rightarrow> worker_thread" where
  "start_worker w i = w\<lparr>w_busy := 1, w_running := i,
     w_waiting := (if w_waiting w = i then 0 else w_waiting w)\<rparr>"

text \<open>Lines 714 to 723: no longer busy, and the worker's binding.\<close>

definition stop_worker :: "service_pool \<Rightarrow> bool \<Rightarrow> service_id \<Rightarrow> worker_thread \<Rightarrow> worker_thread" where
  "stop_worker P dead i w =
     (let w1 = w\<lparr>w_busy := 0\<rparr> in
      if dead then (if w_binding w1 = i then w1\<lparr>w_binding := 0\<rparr> else w1)
      else if service_binding_get P i = w_worker_id w1 then w1\<lparr>w_binding := i\<rparr> else w1)"

definition root_quit :: "ltask \<Rightarrow> ltask option" where
  "root_quit t = do {
     t1 \<leftarrow> quit_all_workers t;
     t2 \<leftarrow> trigger_all_sockevent t1;
     wakeup_all_workers t2
   }"

text \<open>The callback \<open>external_send\<close> that \<open>ltask_external_sender\<close> hands out.\<close>

definition external_send :: "ptr queue \<Rightarrow> ptr \<Rightarrow> (int \<times> ptr queue) option" where
  "external_send q v = queue_push_ptr q (if v = 0 then None else Some v)"

inductive thread_step :: "sys \<Rightarrow> sys \<Rightarrow> bool" where
  th_quit: "k < length (sy_pcs s) \<Longrightarrow> pc_at s k = TTop \<Longrightarrow> worker_at (sy_task s) (int k) = Some w \<Longrightarrow>
     w_term_signal w \<noteq> 0 \<Longrightarrow>
     thread_step s (put_worker s k (worker_quit w) TQuit)"
| th_get: "k < length (sy_pcs s) \<Longrightarrow> pc_at s k = TTop \<Longrightarrow> worker_at (sy_task s) (int k) = Some w \<Longrightarrow>
     w_term_signal w = 0 \<Longrightarrow> worker_get_job fails w = (i, w1) \<Longrightarrow> i \<noteq> 0 \<Longrightarrow>
     thread_step s (put_worker s k (start_worker w1 i) (TStart i))"
| th_none: "k < length (sy_pcs s) \<Longrightarrow> pc_at s k = TTop \<Longrightarrow> worker_at (sy_task s) (int k) = Some w \<Longrightarrow>
     w_term_signal w = 0 \<Longrightarrow> worker_get_job fails w = (0, w1) \<Longrightarrow>
     thread_step s (put_worker s k w1 (TNoJob 1))"
| th_start: "k < length (sy_pcs s) \<Longrightarrow> pc_at s k = TStart i \<Longrightarrow>
     service_status_get (t_services (sy_task s)) i = SERVICE_STATUS_SCHEDULE \<Longrightarrow>
     thread_step s (put_pool s k (service_status_set (t_services (sy_task s)) i SERVICE_STATUS_RUNNING) (TRun i))"
| th_start_dead: "k < length (sy_pcs s) \<Longrightarrow> pc_at s k = TStart i \<Longrightarrow> worker_at (sy_task s) (int k) = Some w \<Longrightarrow>
     service_status_get (t_services (sy_task s)) i = SERVICE_STATUS_DEAD \<Longrightarrow>
     thread_step s (put_worker s k (stop_worker (t_services (sy_task s)) False i w) (TComplete i))"
| th_start_bad: "k < length (sy_pcs s) \<Longrightarrow> pc_at s k = TStart i \<Longrightarrow>
     service_status_get (t_services (sy_task s)) i \<notin> {SERVICE_STATUS_SCHEDULE, SERVICE_STATUS_DEAD} \<Longrightarrow>
     thread_step s (put s k (sy_task s) TAbort)"
| th_lua: "k < length (sy_pcs s) \<Longrightarrow> pc_at s k = TRun i \<Longrightarrow> lua_call_ok s i c \<Longrightarrow>
     pool_call_ok (t_services (sy_task s)) c \<Longrightarrow>
     pool_step c (t_services (sy_task s)) = Some (ins, outs, P) \<Longrightarrow>
     thread_step s (put_pool s k P (TRun i))"
| th_lua_bad: "k < length (sy_pcs s) \<Longrightarrow> pc_at s k = TRun i \<Longrightarrow> lua_call_ok s i c \<Longrightarrow>
     pool_call_ok (t_services (sy_task s)) c \<Longrightarrow>
     pool_step c (t_services (sy_task s)) = None \<Longrightarrow>
     thread_step s (put s k (sy_task s) TAbort)"
| th_yield: "k < length (sy_pcs s) \<Longrightarrow> pc_at s k = TRun i \<Longrightarrow> worker_at (sy_task s) (int k) = Some w \<Longrightarrow>
     P = service_status_set (t_services (sy_task s)) i SERVICE_STATUS_DONE \<Longrightarrow>
     thread_step s (put s k ((set_worker (sy_task s) (int k) (stop_worker P False i w))\<lparr>t_services := P\<rparr>) (TComplete i))"
| th_term: "k < length (sy_pcs s) \<Longrightarrow> pc_at s k = TRun i \<Longrightarrow> worker_at (sy_task s) (int k) = Some w \<Longrightarrow>
     i \<noteq> SERVICE_ID_ROOT \<Longrightarrow>
     P = service_send_signal (service_status_set (t_services (sy_task s)) i SERVICE_STATUS_DEAD) i \<Longrightarrow>
     thread_step s (put s k ((set_worker (sy_task s) (int k) (stop_worker P True i w))\<lparr>t_services := P\<rparr>) (TComplete i))"
| th_root: "k < length (sy_pcs s) \<Longrightarrow> pc_at s k = TRun SERVICE_ID_ROOT \<Longrightarrow>
     P = service_status_set (t_services (sy_task s)) SERVICE_ID_ROOT SERVICE_STATUS_DEAD \<Longrightarrow>
     root_quit ((sy_task s)\<lparr>t_services := P\<rparr>) = Some t \<Longrightarrow>
     thread_step s (put s k t TQuit)"
| th_root_bad: "k < length (sy_pcs s) \<Longrightarrow> pc_at s k = TRun SERVICE_ID_ROOT \<Longrightarrow>
     P = service_status_set (t_services (sy_task s)) SERVICE_ID_ROOT SERVICE_STATUS_DEAD \<Longrightarrow>
     root_quit ((sy_task s)\<lparr>t_services := P\<rparr>) = None \<Longrightarrow>
     thread_step s (put s k (sy_task s) TAbort)"
| th_complete: "k < length (sy_pcs s) \<Longrightarrow> pc_at s k = TComplete i \<Longrightarrow> worker_at (sy_task s) (int k) = Some w \<Longrightarrow>
     worker_complete_job fails w = (0, w1) \<Longrightarrow>
     thread_step s (put_worker s k w1 TTop)"
| th_complete_full: "k < length (sy_pcs s) \<Longrightarrow> pc_at s k = TComplete i \<Longrightarrow> worker_at (sy_task s) (int k) = Some w \<Longrightarrow>
     worker_complete_job fails w = (1, w1) \<Longrightarrow>
     thread_step s (put_worker s k w1 (TAcquire i))"
| th_acquire: "k < length (sy_pcs s) \<Longrightarrow> pc_at s k = TAcquire i \<Longrightarrow>
     acquire_scheduler fails (int k) (sy_task s) = (0, t) \<Longrightarrow>
     thread_step s (put s k t (TOwner i))"
| th_acquire_fail: "k < length (sy_pcs s) \<Longrightarrow> pc_at s k = TAcquire i \<Longrightarrow>
     acquire_scheduler fails (int k) (sy_task s) = (1, t) \<Longrightarrow>
     thread_step s (put s k t (TComplete i))"
| th_owner: "k < length (sy_pcs s) \<Longrightarrow> pc_at s k = TOwner i \<or> pc_at s k = TSpin i \<Longrightarrow>
     worker_at (sy_task s) (int k) = Some w \<Longrightarrow> worker_complete_job fails w = (0, w1) \<Longrightarrow>
     thread_step s (put_worker s k w1 (TRound RFinal PhExternal))"
| th_owner_full: "k < length (sy_pcs s) \<Longrightarrow> pc_at s k = TOwner i \<Longrightarrow>
     worker_at (sy_task s) (int k) = Some w \<Longrightarrow> worker_complete_job fails w = (1, w1) \<Longrightarrow>
     thread_step s (put_worker s k w1 (TRound (RInner i) PhExternal))"
| th_round: "k < length (sy_pcs s) \<Longrightarrow> pc_at s k = TRound r ph \<Longrightarrow> phase_ok s ph \<Longrightarrow>
     round_step fails pack (int k) r ph (sy_task s) = Some (pc, t) \<Longrightarrow>
     thread_step s (put s k t pc)"
| th_round_bad: "k < length (sy_pcs s) \<Longrightarrow> pc_at s k = TRound r ph \<Longrightarrow> phase_ok s ph \<Longrightarrow>
     round_step fails pack (int k) r ph (sy_task s) = None \<Longrightarrow>
     thread_step s (put s k (sy_task s) TAbort)"
| th_nojob: "k < length (sy_pcs s) \<Longrightarrow> pc_at s k = TNoJob n \<Longrightarrow>
     acquire_scheduler fails (int k) (sy_task s) = (0, t) \<Longrightarrow>
     thread_step s (put s k t (TRound (RIdle n) PhExternal))"
| th_nojob_fail: "k < length (sy_pcs s) \<Longrightarrow> pc_at s k = TNoJob n \<Longrightarrow>
     acquire_scheduler fails (int k) (sy_task s) = (1, t) \<Longrightarrow>
     thread_step s (put s k t (TRetry n))"
| th_retry: "k < length (sy_pcs s) \<Longrightarrow> pc_at s k = TRetry n \<Longrightarrow> worker_at (sy_task s) (int k) = Some w \<Longrightarrow>
     thread_step s (put s k (sy_task s)
       (if w_service_done w \<noteq> 0 then TNoJob n
        else if n \<noteq> 0 \<and> t_blocked_service (sy_task s) = 0 then TSleep else TTop))"
| th_spin: "k < length (sy_pcs s) \<Longrightarrow> pc_at s k = TSpin i \<Longrightarrow> worker_at (sy_task s) (int k) = Some w \<Longrightarrow>
     worker_complete_job fails w = (1, w1) \<Longrightarrow>
     thread_step s (put_worker s k w1 (TSpin i))"
| th_sleep_quit: "k < length (sy_pcs s) \<Longrightarrow> pc_at s k = TSleep \<Longrightarrow> worker_at (sy_task s) (int k) = Some w \<Longrightarrow>
     w_term_signal w \<noteq> 0 \<Longrightarrow>
     thread_step s (put s k (sy_task s) TTop)"
| th_sleep: "k < length (sy_pcs s) \<Longrightarrow> pc_at s k = TSleep \<Longrightarrow> worker_at (sy_task s) (int k) = Some w \<Longrightarrow>
     w_term_signal w = 0 \<Longrightarrow>
     thread_step s (put s k (sy_task s) TLock)"
| th_awake: "k < length (sy_pcs s) \<Longrightarrow> pc_at s k = TLock \<Longrightarrow> worker_at (sy_task s) (int k) = Some w \<Longrightarrow>
     worker_sleep_begin w = (False, w1) \<Longrightarrow>
     thread_step s (put_worker s k w1 TTop)"
| th_wait: "k < length (sy_pcs s) \<Longrightarrow> pc_at s k = TLock \<Longrightarrow> worker_at (sy_task s) (int k) = Some w \<Longrightarrow>
     worker_sleep_begin w = (True, w1) \<Longrightarrow>
     thread_step s (put_worker s k w1 TWait)"
| th_wake: "k < length (sy_pcs s) \<Longrightarrow> pc_at s k = TWait \<Longrightarrow> worker_at (sy_task s) (int k) = Some w \<Longrightarrow>
     w_wakeup w \<noteq> 0 \<Longrightarrow>
     thread_step s (put_worker s k (w\<lparr>w_sleeping := 0\<rparr>) TTop)"
| th_external: "t_external_message (sy_task s) = Some q \<Longrightarrow> v \<noteq> 0 \<Longrightarrow> external_send q v = Some (r, q1) \<Longrightarrow>
     thread_step s (s\<lparr>sy_task := (sy_task s)\<lparr>t_external_message := Some q1\<rparr>\<rparr>)"

text \<open>
  The code does not check \<open>phase_ok\<close>: \<open>code_step\<close> is \<open>thread_step\<close> with the phases of a round run
  whether it holds or not. \<open>contract_broken s0 s\<close>: on the way from \<open>s0\<close> to \<open>s\<close> there was a state, reached
  without a break before it, in which a thread was in a phase whose \<open>phase_ok\<close> did not hold.
\<close>

inductive code_step :: "sys \<Rightarrow> sys \<Rightarrow> bool" where
  code_thread: "thread_step s s' \<Longrightarrow> code_step s s'"
| code_round: "k < length (sy_pcs s) \<Longrightarrow> pc_at s k = TRound r ph \<Longrightarrow>
     round_step fails pack (int k) r ph (sy_task s) = Some (pc, t) \<Longrightarrow>
     code_step s (put s k t pc)"
| code_round_bad: "k < length (sy_pcs s) \<Longrightarrow> pc_at s k = TRound r ph \<Longrightarrow>
     round_step fails pack (int k) r ph (sy_task s) = None \<Longrightarrow>
     code_step s (put s k (sy_task s) TAbort)"

text \<open>
  The system when the threads start: the workers have nothing, the run queue holds the
  services that are scheduled, nobody owns the scheduler.
\<close>

definition sys_booted :: "sys \<Rightarrow> bool" where
  "sys_booted s \<longleftrightarrow> (let t = sy_task s in
     sched_wf t \<and> pool_wf (t_services t) \<and> p_malloc (t_services t) = []
     \<and> q_size (t_schedule t) = p_mask (t_services t) + 1
     \<and> (case t_external_message t of None \<Rightarrow> True | Some q \<Rightarrow> queue_wf q) \<and> t_external_last_message t = None
     \<and> t_schedule_owner t = THREAD_NONE
     \<and> length (sy_pcs s) = length (t_workers t) \<and> set (sy_pcs s) \<subseteq> {TTop}
     \<and> (\<forall>w \<in> set (t_workers t). w_running w = 0 \<and> w_service_ready w = 0 \<and> w_service_done w = 0
          \<and> binding_list (w_binding_queue w) = [])
     \<and> distinct (run_queue t)
     \<and> (\<forall>i \<in> set (run_queue t). service_status_get (t_services t) i = SERVICE_STATUS_SCHEDULE)
     \<and> (\<forall>i. i \<notin> set (run_queue t) \<longrightarrow> service_status_get (t_services t) i \<notin> active_status))"

inductive sys_reach :: "sys \<Rightarrow> sys \<Rightarrow> bool" for s0 where
  reach_init: "sys_reach s0 s0"
| reach_step: "sys_reach s0 s \<Longrightarrow> thread_step s s' \<Longrightarrow> sys_reach s0 s'"

inductive code_reach :: "sys \<Rightarrow> sys \<Rightarrow> bool" for s0 where
  code_init: "code_reach s0 s0"
| code_more: "code_reach s0 s \<Longrightarrow> code_step s s' \<Longrightarrow> code_reach s0 s'"

definition contract_broken :: "sys \<Rightarrow> sys \<Rightarrow> bool" where
  "contract_broken s0 s \<longleftrightarrow> (\<exists>s1 k r ph. sys_reach s0 s1 \<and> code_reach s1 s \<and> k < length (sy_pcs s1)
     \<and> pc_at s1 k = TRound r ph \<and> \<not> phase_ok s1 ph)"

lemma sys_code_reach: "sys_reach s0 s \<Longrightarrow> code_reach s0 s"
  by (induction rule: sys_reach.induct) (auto intro: code_init code_more code_thread)

lemma code_reach_split:
  assumes "code_reach s0 s"
  shows "sys_reach s0 s \<or> contract_broken s0 s"
  using assms
proof induction
  case code_init
  show ?case by (simp add: reach_init)
next
  case (code_more s s')
  show ?case
  proof (cases "thread_step s s' \<and> sys_reach s0 s")
    case True
    then show ?thesis using reach_step by blast
  next
    case False
    have broken: "contract_broken s0 s'" if "sys_reach s0 s" "k < length (sy_pcs s)" "pc_at s k = TRound r ph"
      "\<not> phase_ok s ph" for k r ph
      using that code_reach.code_more [OF code_reach.code_init code_more.hyps(2)]
      unfolding contract_broken_def by blast
    from code_more.IH show ?thesis
    proof
      assume r: "sys_reach s0 s"
      with False have "\<not> thread_step s s'" by simp
      with code_more.hyps(2) show ?thesis
        by cases (use th_round th_round_bad broken [OF r] in blast)+
    next
      assume "contract_broken s0 s"
      then show ?thesis unfolding contract_broken_def using code_reach.code_more code_more.hyps(2) by blast
    qed
  qed
qed

end
