(* ===== verification/ThreadsInv.thy ===== *)
theory ThreadsInv
  imports Threads
begin

text \<open>
  The invariant of the whole system of threads. Every service is in at most one place: the
  run queue, a worker's \<open>service_ready\<close> or binding queue, the hands of the thread that
  schedules, a worker that runs it or a worker that has finished with it. Its status follows
  its place, and only one thread owns the scheduler.
\<close>

section \<open>The invariant\<close>

definition core :: "service_pool \<Rightarrow> service_id multiset \<Rightarrow> service_id multiset \<Rightarrow> bool" where
  "core P Q A \<longleftrightarrow> pool_wf P \<and> p_malloc P = []
     \<and> (\<forall>i. count (Q + A) i \<le> 1)
     \<and> (\<forall>i. i \<in># Q \<longrightarrow> service_status_get P i = SERVICE_STATUS_SCHEDULE)
     \<and> (\<forall>i. i \<in># A \<longrightarrow> service_status_get P i \<notin> {SERVICE_STATUS_UNINITIALIZED, SERVICE_STATUS_IDLE}
            \<and> get_service P i \<noteq> None)
     \<and> (\<forall>i. i \<notin># Q + A \<longrightarrow> service_status_get P i \<notin> active_status)"

lemma sched_inv_core:
  "sched_inv t A \<longleftrightarrow> sched_wf t \<and> q_size (t_schedule t) = p_mask (t_services t) + 1
     \<and> core (t_services t) (queued t) A"
  by (auto simp: sched_inv_def core_def)

text \<open>A service a worker has finished with: it yielded, or it died and left its signal.\<close>

definition finished :: "service_pool \<Rightarrow> service_id \<Rightarrow> bool" where
  "finished P i \<longleftrightarrow> service_status_get P i = SERVICE_STATUS_DONE
     \<or> service_status_get P i = SERVICE_STATUS_DEAD \<and> out_of P i = Some (signal_message i)"

fun owns :: "thread_pc \<Rightarrow> bool" where
  "owns (TOwner i) = True"
| "owns (TSpin i) = True"
| "owns (TRound r ph) = True"
| "owns (TSlots jobs) = True"
| "owns _ = False"

text \<open>The phases of \<open>schedule_dispatch\<close>; the other two follow it.\<close>

fun inner_phase :: "phase \<Rightarrow> bool" where
  "inner_phase PhFind = False"
| "inner_phase (PhRelease n) = False"
| "inner_phase _ = True"

text \<open>What the program counter says about the service the worker runs.\<close>

fun pc_ok :: "service_pool \<Rightarrow> service_id \<Rightarrow> thread_pc \<Rightarrow> bool" where
  "pc_ok P running (TStart i) = (running = i \<and> i \<noteq> 0 \<and> service_status_get P i = SERVICE_STATUS_SCHEDULE)"
| "pc_ok P running (TRun i) = (running = i \<and> i \<noteq> 0 \<and> service_status_get P i = SERVICE_STATUS_RUNNING)"
| "pc_ok P running (TComplete i) = (running = i \<and> i \<noteq> 0 \<and> finished P i)"
| "pc_ok P running (TAcquire i) = (running = i \<and> i \<noteq> 0 \<and> finished P i)"
| "pc_ok P running (TOwner i) = (running = i \<and> i \<noteq> 0 \<and> finished P i)"
| "pc_ok P running (TSpin i) = (running = i \<and> i \<noteq> 0 \<and> finished P i)"
| "pc_ok P running (TRound (RInner i) ph) = (inner_phase ph \<and> running = i \<and> i \<noteq> 0 \<and> finished P i)"
| "pc_ok P running (TRound r ph) = (running = 0)"
| "pc_ok P running TQuit = True"
| "pc_ok P running (TSlots jobs) = True"
| "pc_ok P running TAbort = False"
| "pc_ok P running pc = (running = 0)"

definition thread_ok :: "service_pool \<Rightarrow> worker_thread \<Rightarrow> thread_pc \<Rightarrow> bool" where
  "thread_ok P w pc \<longleftrightarrow> pc_ok P (w_running w) pc
     \<and> (w_service_done w \<noteq> 0 \<longrightarrow> finished P (id_of_int (w_service_done w)))
     \<and> (\<forall>i. i \<in># phase_done pc \<longrightarrow> finished P i) \<and> 0 \<notin># phase_jobs pc \<and> 0 \<notin># phase_done pc"

text \<open>The jobs in hand never outnumber the free workers.\<close>

fun slots_ok :: "nat \<Rightarrow> thread_pc \<Rightarrow> bool" where
  "slots_ok free (TRound r (PhPrepare jobs n)) = (0 \<le> n \<and> int (length jobs) + n \<le> int free)"
| "slots_ok free (TRound r (PhAssign jobs)) = (length jobs \<le> free)"
| "slots_ok free _ = True"

definition ext_wf :: "ltask \<Rightarrow> bool" where
  "ext_wf t \<longleftrightarrow> (case t_external_message t of None \<Rightarrow> True | Some q \<Rightarrow> queue_wf q)
     \<and> (case t_external_last_message t of None \<Rightarrow> True | Some m \<Rightarrow> m_to m = SERVICE_ID_ROOT)"

definition sys_inv :: "sys \<Rightarrow> bool" where
  "sys_inv s \<longleftrightarrow> sched_wf (sy_task s)
     \<and> q_size (t_schedule (sy_task s)) = p_mask (t_services (sy_task s)) + 1
     \<and> ext_wf (sy_task s)
     \<and> core (t_services (sy_task s)) (waiting_jobs s) (active_jobs s)
     \<and> length (sy_pcs s) = length (t_workers (sy_task s))
     \<and> (\<forall>k < length (sy_pcs s).
          (owns (pc_at s k) \<longleftrightarrow> t_schedule_owner (sy_task s) = int k)
          \<and> thread_ok (t_services (sy_task s)) (t_workers (sy_task s) ! k) (pc_at s k)
          \<and> slots_ok (nfree (sy_task s)) (pc_at s k))"

lemma put_simps [simp]:
  "sy_task (put s k t pc) = t" "length (sy_pcs (put s k t pc)) = length (sy_pcs s)"
  "k < length (sy_pcs s) \<Longrightarrow> pc_at (put s k t pc) k = pc"
  "l \<noteq> k \<Longrightarrow> pc_at (put s k t pc) l = pc_at s l"
  by (simp_all add: put_def pc_at_def)

lemma put_inv:
  assumes inv: "sys_inv s" and k: "k < length (sy_pcs s)"
    and "sched_wf t" and "q_size (t_schedule t) = p_mask (t_services t) + 1" and "ext_wf t"
    and "core (t_services t) (waiting_jobs (put s k t pc)) (active_jobs (put s k t pc))"
    and "length (t_workers t) = length (t_workers (sy_task s))"
    and other: "\<And>l. l < length (sy_pcs s) \<Longrightarrow> l \<noteq> k \<Longrightarrow>
        (owns (pc_at s l) \<longleftrightarrow> t_schedule_owner t = int l)
        \<and> thread_ok (t_services t) (t_workers t ! l) (pc_at s l) \<and> slots_ok (nfree t) (pc_at s l)"
    and self: "(owns pc \<longleftrightarrow> t_schedule_owner t = int k) \<and> thread_ok (t_services t) (t_workers t ! k) pc
        \<and> slots_ok (nfree t) pc"
  shows "sys_inv (put s k t pc)"
proof -
  have "(owns (pc_at (put s k t pc) l) \<longleftrightarrow> t_schedule_owner t = int l)
      \<and> thread_ok (t_services t) (t_workers t ! l) (pc_at (put s k t pc) l)
      \<and> slots_ok (nfree t) (pc_at (put s k t pc) l)" if "l < length (sy_pcs s)" for l
    using other [OF that] self k by (cases "l = k") simp_all
  then show ?thesis using assms unfolding sys_inv_def by simp
qed

text \<open>What the multisets of places become.\<close>

lemma waiting_put:
  assumes "k < length (sy_pcs s)"
  shows "waiting_jobs (put s k t pc) + phase_jobs (pc_at s k) + queued (sy_task s)
    = waiting_jobs s + phase_jobs pc + queued t"
  using sum_list_slot_update [OF assms, of phase_jobs pc]
  by (simp add: waiting_jobs_def put_def pc_at_def ac_simps)

lemma active_put:
  assumes "k < length (sy_pcs s)"
  shows "active_jobs (put s k t pc) + phase_done (pc_at s k) + sum_list (map hold (t_workers (sy_task s)))
    = active_jobs s + phase_done pc + sum_list (map hold (t_workers t))"
  using sum_list_slot_update [OF assms, of phase_done pc]
  by (simp add: active_jobs_def put_def pc_at_def ac_simps)

lemma hold_set_worker:
  assumes "worker_at t n = Some w"
  shows "sum_list (map hold (t_workers (set_worker t n w'))) + hold w
    = sum_list (map hold (t_workers t)) + hold w'"
  using assms sum_list_slot_update [of "nat n" "t_workers t" hold w']
  by (auto simp: set_worker_def worker_at_def split: if_splits)

lemma hold_core: "map w_core ws = map w_core ws' \<Longrightarrow> map hold ws = map hold ws'"
proof -
  assume a: "map w_core ws = map w_core ws'"
  have "hold w = (\<lambda>(a, r, b, d, c, e). opt_job r + opt_job (id_of_int d)) (w_core w)" for w
    by (simp add: hold_def w_core_def)
  then have "map hold vs = map (\<lambda>(a, r, b, d, c, e). opt_job r + opt_job (id_of_int d)) (map w_core vs)" for vs
    by simp
  with a show ?thesis by metis
qed

section \<open>Threads that do not move\<close>

lemma thread_ok_same:
  assumes "thread_ok P w pc" and "same_on (hold w + phase_done pc) P P'" and "w_service_done w \<in> job_ints"
  shows "thread_ok P' w pc"
proof -
  have st: "service_status_get P' i = service_status_get P i" "out_of P' i = out_of P i"
    if "i \<in># hold w + phase_done pc" for i
  proof -
    have "svc_view P' i = svc_view P i \<and> out_of P' i = out_of P i"
      using assms(2) that unfolding same_on_def by blast
    then show "service_status_get P' i = service_status_get P i" "out_of P' i = out_of P i"
      by (simp_all add: status_view)
  qed
  then have fin: "finished P' i = finished P i" if "i \<in># hold w + phase_done pc" for i
    using that by (simp add: finished_def)
  have run: "w_running w \<in># hold w + phase_done pc" if "w_running w \<noteq> 0" using that by (simp add: hold_def)
  have "pc_ok P' (w_running w) pc"
    using assms(1) st [OF run] fin [OF run] unfolding thread_ok_def
    by (cases "(P', w_running w, pc)" rule: pc_ok.cases) auto
  moreover have "finished P' (id_of_int (w_service_done w))" if "w_service_done w \<noteq> 0"
    using that assms(1,3) fin [of "id_of_int (w_service_done w)"]
    by (simp add: thread_ok_def hold_def id_of_int_eq_0)
  ultimately show ?thesis using assms(1) fin by (simp add: thread_ok_def)
qed

lemma sum_list_two:
  fixes g :: "'a \<Rightarrow> 'b multiset"
  assumes "k < length xs" and "l < length xs" and "k \<noteq> l"
  shows "g (xs ! k) + g (xs ! l) \<subseteq># sum_list (map g xs)"
  using assms
proof (induction xs arbitrary: k l)
  case Nil
  then show ?case by simp
next
  case (Cons x xs)
  have one: "g (xs ! n) \<subseteq># sum_list (map g xs)" if "n < length xs" for n
    using sum_list_map_remove1 [OF nth_mem [OF that], of g] by simp
  show ?case
  proof (cases k)
    case 0
    then obtain l' where "l = Suc l'" "l' < length xs" using Cons.prems by (cases l) auto
    then show ?thesis using 0 one by (simp add: mset_subset_eq_mono_add)
  next
    case (Suc k')
    show ?thesis
    proof (cases l)
      case 0
      then show ?thesis using Suc one [of k'] Cons.prems by (simp add: union_commute mset_subset_eq_mono_add)
    next
      case (Suc l')
      with Cons.IH [of k' l'] Cons.prems \<open>k = Suc k'\<close> show ?thesis
        by (simp add: mset_subset_eq_mono_add subset_mset.add_increasing)
    qed
  qed
qed

lemma active_member:
  assumes "length (sy_pcs s) = length (t_workers (sy_task s))" and "k < length (sy_pcs s)"
    and "i \<in># hold (t_workers (sy_task s) ! k) + phase_done (pc_at s k)"
  shows "i \<in># active_jobs s"
proof -
  have "hold (t_workers (sy_task s) ! k) \<subseteq># sum_list (map hold (t_workers (sy_task s)))"
    using sum_list_map_remove1 [OF nth_mem [of k "t_workers (sy_task s)"], of hold] assms(1,2) by simp
  moreover have "phase_done (pc_at s k) \<subseteq># sum_list (map phase_done (sy_pcs s))"
    using sum_list_map_remove1 [OF nth_mem [OF assms(2)], of phase_done] by (simp add: pc_at_def)
  ultimately have "hold (t_workers (sy_task s) ! k) + phase_done (pc_at s k) \<subseteq># active_jobs s"
    by (simp add: active_jobs_def subset_mset.add_mono)
  with assms(3) show ?thesis by (rule mset_subset_eqD [rotated])
qed

lemma places_disjoint:
  assumes len: "length (sy_pcs s) = length (t_workers (sy_task s))" and "k < length (sy_pcs s)"
    and "l < length (sy_pcs s)" and "k \<noteq> l" and one: "\<And>i. count (active_jobs s) i \<le> 1"
    and i: "i \<in># hold (t_workers (sy_task s) ! k) + phase_done (pc_at s k)"
  shows "i \<notin># hold (t_workers (sy_task s) ! l) + phase_done (pc_at s l)"
proof
  assume j: "i \<in># hold (t_workers (sy_task s) ! l) + phase_done (pc_at s l)"
  let ?w = "\<lambda>n. hold (t_workers (sy_task s) ! n)" and ?p = "\<lambda>n. phase_done (pc_at s n)"
  have "?w k + ?w l \<subseteq># sum_list (map hold (t_workers (sy_task s)))"
    using sum_list_two [of k "t_workers (sy_task s)" l hold] assms(2-4) len by simp
  moreover have "?p k + ?p l \<subseteq># sum_list (map phase_done (sy_pcs s))"
    using sum_list_two [of k "sy_pcs s" l phase_done] assms(2-4) by (simp add: pc_at_def)
  ultimately have "(?w k + ?w l) + (?p k + ?p l) \<subseteq># active_jobs s"
    by (simp add: active_jobs_def subset_mset.add_mono)
  then have "count ((?w k + ?p k) + (?w l + ?p l)) i \<le> 1"
    using one [of i] by (metis (no_types, lifting) mset_subset_eq_count le_trans union_assoc union_commute
        union_lcomm)
  moreover have "1 \<le> count (?w k + ?p k) i" "1 \<le> count (?w l + ?p l) i"
    using i j by (simp_all add: Suc_le_eq)
  ultimately show False by simp
qed

lemma coreD:
  assumes "core P Q A"
  shows "pool_wf P" "p_malloc P = []" "count (Q + A) i \<le> 1"
    "i \<in># Q \<Longrightarrow> service_status_get P i = SERVICE_STATUS_SCHEDULE"
    "i \<in># A \<Longrightarrow> service_status_get P i \<notin> {SERVICE_STATUS_UNINITIALIZED, SERVICE_STATUS_IDLE}"
    "i \<in># A \<Longrightarrow> get_service P i \<noteq> None"
    "i \<notin># Q + A \<Longrightarrow> service_status_get P i \<notin> active_status"
    "count A i \<le> 1"
  using assms by (auto simp: core_def) (metis add_leD2)

lemma sys_invD:
  assumes "sys_inv s"
  shows "sched_wf (sy_task s)" "q_size (t_schedule (sy_task s)) = p_mask (t_services (sy_task s)) + 1"
    "ext_wf (sy_task s)" "core (t_services (sy_task s)) (waiting_jobs s) (active_jobs s)"
    "length (sy_pcs s) = length (t_workers (sy_task s))"
    "k < length (sy_pcs s) \<Longrightarrow> owns (pc_at s k) \<longleftrightarrow> t_schedule_owner (sy_task s) = int k"
    "k < length (sy_pcs s) \<Longrightarrow> thread_ok (t_services (sy_task s)) (t_workers (sy_task s) ! k) (pc_at s k)"
    "k < length (sy_pcs s) \<Longrightarrow> slots_ok (nfree (sy_task s)) (pc_at s k)"
  using assms by (auto simp: sys_inv_def)

lemma slots_ok_mono: "slots_ok m pc \<Longrightarrow> m \<le> n \<Longrightarrow> slots_ok n pc"
  by (cases "(m, pc)" rule: slots_ok.cases) auto

lemma sys_worker:
  assumes "sys_inv s" and "k < length (sy_pcs s)"
  shows "worker_at (sy_task s) (int k) = Some (t_workers (sy_task s) ! k)"
    and "worker_wf (t_workers (sy_task s) ! k)" and "w_worker_id (t_workers (sy_task s) ! k) = int k"
proof -
  note D = sys_invD [OF assms(1)]
  have "int k < c_worker (t_config (sy_task s))" using D(1,5) assms(2) by (auto simp: sched_wf_def)
  from sched_wf_worker [OF D(1) _ this]
  show "worker_at (sy_task s) (int k) = Some (t_workers (sy_task s) ! k)"
    "worker_wf (t_workers (sy_task s) ! k)" "w_worker_id (t_workers (sy_task s) ! k) = int k" by simp_all
qed

text \<open>A step of one thread on its own worker and on the pool.\<close>

lemma local_inv:
  assumes inv: "sys_inv s" and k: "k < length (sy_pcs s)" and w: "w = t_workers (sy_task s) ! k"
    and w': "worker_wf w'" "w_worker_id w' = int k" "free_worker w \<Longrightarrow> free_worker w'"
    and P: "p_mask P = p_mask (t_services (sy_task s))"
      "\<And>i. service_binding_get P i < c_worker (t_config (sy_task s))"
      "\<And>i. service_sockevent_get P i < int MAX_SOCKEVENT"
    and pcs: "phase_jobs pc = phase_jobs (pc_at s k)" "phase_done pc = phase_done (pc_at s k)"
      "owns pc \<longleftrightarrow> owns (pc_at s k)" "slots_ok (nfree (sy_task s)) pc"
    and core: "\<And>Q A. Q + worker_jobs w = waiting_jobs s + worker_jobs w' \<Longrightarrow>
        A + hold w = active_jobs s + hold w' \<Longrightarrow> core P Q A"
    and others: "\<And>i. i \<in># active_jobs s \<Longrightarrow> i \<notin># hold w \<Longrightarrow>
        svc_view P i = svc_view (t_services (sy_task s)) i \<and> out_of P i = out_of (t_services (sy_task s)) i"
    and self: "thread_ok P w' pc"
  shows "sys_inv (put s k ((set_worker (sy_task s) (int k) w')\<lparr>t_services := P\<rparr>) pc)"
proof -
  note D = sys_invD [OF inv]
  let ?t = "sy_task s" let ?t1 = "set_worker ?t (int k) w'" let ?t' = "?t1\<lparr>t_services := P\<rparr>"
  note at = sys_worker [OF inv k]
  have at': "worker_at ?t (int k) = Some w" using at(1) w by simp
  have kw: "k < length (t_workers ?t)" using k D(5) by simp
  have nth: "t_workers ?t' ! l = (if l = k then w' else t_workers ?t ! l)" for l
    using kw by (simp add: set_worker_def)
  have each: "worker_wf (t_workers ?t' ! n) \<and> w_worker_id (t_workers ?t' ! n) = int n"
    if "n < length (t_workers ?t)" for n
    using that D(1) w'(1,2) nth [of n] by (cases "n = k") (simp_all add: sched_wf_def)
  have wf: "sched_wf ?t'"
    using D(1) P each by (simp add: sched_wf_def)
  have nf: "nfree ?t \<le> nfree ?t'"
    using nfree_set_worker [OF at', of w'] w'(3) by (auto simp: nfree_def split: if_splits)
  have q: "queued ?t' + worker_jobs w = queued ?t + worker_jobs w'"
    using queued_set_worker [OF at', of w'] by simp
  have Q: "waiting_jobs (put s k ?t' pc) + worker_jobs w = waiting_jobs s + worker_jobs w'"
  proof -
    have "(waiting_jobs (put s k ?t' pc) + worker_jobs w) + (phase_jobs pc + queued ?t)
        = (waiting_jobs s + worker_jobs w') + (phase_jobs pc + queued ?t)"
      using waiting_put [OF k, of ?t' pc] q pcs(1)
      by (metis (no_types, lifting) union_assoc union_commute union_lcomm)
    then show ?thesis by (rule add_right_imp_eq)
  qed
  have A: "active_jobs (put s k ?t' pc) + hold w = active_jobs s + hold w'"
  proof -
    have "sum_list (map hold (t_workers ?t')) + hold w = sum_list (map hold (t_workers ?t)) + hold w'"
      using hold_set_worker [OF at', of w'] by simp
    then have "(active_jobs (put s k ?t' pc) + hold w) + (phase_done pc + sum_list (map hold (t_workers ?t)))
        = (active_jobs s + hold w') + (phase_done pc + sum_list (map hold (t_workers ?t)))"
      using active_put [OF k, of ?t' pc] pcs(2)
      by (metis (no_types, lifting) union_assoc union_commute union_lcomm)
    then show ?thesis by (rule add_right_imp_eq)
  qed
  show ?thesis
  proof (rule put_inv [OF inv k wf])
    show "q_size (t_schedule ?t') = p_mask (t_services ?t') + 1" using D(2) P(1) by simp
    show "ext_wf ?t'" using D(3) by (simp add: ext_wf_def)
    show "core (t_services ?t') (waiting_jobs (put s k ?t' pc)) (active_jobs (put s k ?t' pc))"
      using core [OF Q A] by simp
    show "length (t_workers ?t') = length (t_workers ?t)" by simp
    show "(owns pc \<longleftrightarrow> t_schedule_owner ?t' = int k) \<and> thread_ok (t_services ?t') (t_workers ?t' ! k) pc
        \<and> slots_ok (nfree ?t') pc"
      using D(6) [OF k] pcs(3,4) self slots_ok_mono [OF _ nf] nth [of k] by simp
  next
    fix l assume l: "l < length (sy_pcs s)" "l \<noteq> k"
    have "same_on (hold (t_workers ?t ! l) + phase_done (pc_at s l)) (t_services ?t) P"
      unfolding same_on_def
    proof (intro allI impI)
      fix i assume i: "i \<in># hold (t_workers ?t ! l) + phase_done (pc_at s l)"
      have "i \<notin># hold w"
        using places_disjoint [OF D(5) l(1) k l(2) coreD(8) [OF D(4)] i] w by auto
      with others active_member [OF D(5) l(1) i]
      show "svc_view P i = svc_view (t_services ?t) i \<and> out_of P i = out_of (t_services ?t) i" by blast
    qed
    moreover have "w_service_done (t_workers ?t ! l) \<in> job_ints"
      using sys_worker(2) [OF inv l(1)] by (simp add: worker_wf_def)
    ultimately have "thread_ok P (t_workers ?t ! l) (pc_at s l)" by (rule thread_ok_same [OF D(7) [OF l(1)]])
    then show "(owns (pc_at s l) \<longleftrightarrow> t_schedule_owner ?t' = int l)
        \<and> thread_ok (t_services ?t') (t_workers ?t' ! l) (pc_at s l) \<and> slots_ok (nfree ?t') (pc_at s l)"
      using D(6,8) [OF l(1)] l(2) slots_ok_mono [OF _ nf] nth [of l] by simp
  qed
qed

section \<open>Steps on the worker alone\<close>

lemma get_job_result:
  assumes "worker_get_job fails w = (i, w1)" and "worker_wf w"
  shows "i \<noteq> 0 \<Longrightarrow> w_service_ready w \<noteq> 0 \<and> i = id_of_int (w_service_ready w) \<and> w1 = w\<lparr>w_service_ready := 0\<rparr>"
    and "i = 0 \<Longrightarrow> w1 = w"
proof (atomize (full), use assms in \<open>induction fails w rule: worker_get_job.induct\<close>)
  case (1 fails w)
  show ?case
  proof (cases "w_service_ready w = 0")
    case True
    then show ?thesis using "1.prems" by (auto simp: Let_def)
  next
    case False
    have nz: "id_of_int (w_service_ready w) \<noteq> 0"
      using "1.prems"(2) False by (simp add: worker_wf_def id_of_int_eq_0)
    show ?thesis
    proof (cases fails)
      case Nil
      then show ?thesis using "1.prems" False nz by (auto simp: Let_def atomic_int_cas_def)
    next
      case (Cons b bs)
      show ?thesis
      proof (cases b)
        case True
        then have "worker_get_job bs w = (i, w1)"
          using "1.prems"(1) Cons False by (simp add: Let_def atomic_int_cas_def)
        then show ?thesis using "1.IH" Cons True False "1.prems"(2) by (auto simp: atomic_int_cas_def)
      next
        case b: False
        then show ?thesis using "1.prems" Cons False nz by (auto simp: Let_def atomic_int_cas_def)
      qed
    qed
  qed
qed

lemma core_move:
  assumes c: "core P (Q + {#i#}) A"
  shows "core P Q (A + {#i#})"
proof -
  note D = coreD [OF c]
  have "service_status_get P i = SERVICE_STATUS_SCHEDULE" by (rule D(4)) simp
  moreover from this have "get_service P i \<noteq> None" by (intro status_active) simp
  ultimately show ?thesis using c unfolding core_def by (auto simp: ac_simps)
qed

lemma stop_worker_simps [simp]:
  "w_running (stop_worker P d i w) = w_running w" "w_service_done (stop_worker P d i w) = w_service_done w"
  "w_worker_id (stop_worker P d i w) = w_worker_id w" "worker_jobs (stop_worker P d i w) = worker_jobs w"
  "hold (stop_worker P d i w) = hold w" "worker_wf (stop_worker P d i w) = worker_wf w"
  "free_worker (stop_worker P d i w) = free_worker w"
  by (simp_all add: stop_worker_def Let_def worker_jobs_def hold_def worker_wf_def free_worker_def)

lemma start_worker_simps [simp]:
  "w_running (start_worker w i) = i" "w_service_done (start_worker w i) = w_service_done w"
  "w_worker_id (start_worker w i) = w_worker_id w" "worker_jobs (start_worker w i) = worker_jobs w"
  "worker_wf (start_worker w i) = worker_wf w" "free_worker (start_worker w i) = free_worker w"
  by (simp_all add: start_worker_def worker_jobs_def worker_wf_def free_worker_def)

lemma worker_quit_simps [simp]:
  "w_running (worker_quit w) = w_running w" "w_service_done (worker_quit w) = w_service_done w"
  "w_worker_id (worker_quit w) = w_worker_id w" "worker_jobs (worker_quit w) = worker_jobs w"
  "hold (worker_quit w) = hold w" "worker_wf (worker_quit w) = worker_wf w"
  "free_worker (worker_quit w) = free_worker w"
  by (simp_all add: worker_quit_def worker_jobs_def hold_def worker_wf_def free_worker_def)

lemma put_worker_pool:
  "put_worker s k w pc = put s k ((set_worker (sy_task s) (int k) w)\<lparr>t_services := t_services (sy_task s)\<rparr>) pc"
  by (simp add: put_worker_def set_worker_def)

lemma worker_step_inv:
  assumes inv: "sys_inv s" and k: "k < length (sy_pcs s)" and w: "w = t_workers (sy_task s) ! k"
    and w': "worker_wf w'" "w_worker_id w' = int k" "free_worker w \<Longrightarrow> free_worker w'"
    and pcs: "phase_jobs pc = phase_jobs (pc_at s k)" "phase_done pc = phase_done (pc_at s k)"
      "owns pc \<longleftrightarrow> owns (pc_at s k)" "slots_ok (nfree (sy_task s)) pc"
    and core: "\<And>Q A. Q + worker_jobs w = waiting_jobs s + worker_jobs w' \<Longrightarrow>
        A + hold w = active_jobs s + hold w' \<Longrightarrow> core (t_services (sy_task s)) Q A"
    and self: "thread_ok (t_services (sy_task s)) w' pc"
  shows "sys_inv (put_worker s k w' pc)"
  unfolding put_worker_pool
  using sys_invD(1) [OF inv]
  by (intro local_inv [OF inv k w w' refl _ _ pcs core _ self]) (auto simp: sched_wf_def)

lemma step_quit:
  assumes inv: "sys_inv s" and k: "k < length (sy_pcs s)" and pc: "pc_at s k = TTop"
    and w: "worker_at (sy_task s) (int k) = Some w"
  shows "sys_inv (put_worker s k (worker_quit w) TQuit)"
proof -
  note D = sys_invD [OF inv] and at = sys_worker [OF inv k]
  have w: "w = t_workers (sy_task s) ! k" using w at(1) by simp
  show ?thesis
    using at(2,3) D(4) D(7) [OF k] pc w
    by (intro worker_step_inv [OF inv k w]) (auto simp: thread_ok_def)
qed

lemma step_get:
  assumes inv: "sys_inv s" and k: "k < length (sy_pcs s)" and pc: "pc_at s k = TTop"
    and w: "worker_at (sy_task s) (int k) = Some w" and get: "worker_get_job fails w = (i, w1)" and i: "i \<noteq> 0"
  shows "sys_inv (put_worker s k (start_worker w1 i) (TStart i))"
proof -
  note D = sys_invD [OF inv] and at = sys_worker [OF inv k]
  have we: "w = t_workers (sy_task s) ! k" using w at(1) by simp
  have ww: "worker_wf w" using at(2) we by simp
  from get_job_result(1) [OF get ww i] have r: "w_service_ready w \<noteq> 0" "i = id_of_int (w_service_ready w)"
    "w1 = w\<lparr>w_service_ready := 0\<rparr>" by auto
  have run: "w_running w = 0" using D(7) [OF k] pc we by (simp add: thread_ok_def)
  have jobs: "worker_jobs w = {#i#} + worker_jobs (start_worker w1 i)"
    using r i by (simp add: worker_jobs_def start_worker_def)
  have hold': "hold (start_worker w1 i) = {#i#} + hold w"
    using r(3) run i by (simp add: hold_def start_worker_def)
  have "i \<in># worker_jobs (t_workers (sy_task s) ! k)" using jobs we by simp
  then have iq: "i \<in># waiting_jobs s"
    using queued_worker [of k "sy_task s" i] k D(5) by (simp add: waiting_jobs_def)
  show ?thesis
  proof (rule worker_step_inv [OF inv k we])
    fix Q A
    assume "Q + worker_jobs w = waiting_jobs s + worker_jobs (start_worker w1 i)"
      and "A + hold w = active_jobs s + hold (start_worker w1 i)"
    then have "(Q + {#i#}) + worker_jobs (start_worker w1 i) = waiting_jobs s + worker_jobs (start_worker w1 i)"
      "A + hold w = (active_jobs s + {#i#}) + hold w"
      by (simp_all only: jobs hold' union_assoc)
    then have "Q + {#i#} = waiting_jobs s" "A = active_jobs s + {#i#}" by simp_all
    then show "core (t_services (sy_task s)) Q A" using D(4) core_move by metis
  next
    show "thread_ok (t_services (sy_task s)) (start_worker w1 i) (TStart i)"
      using D(7) [OF k] coreD(4) [OF D(4) iq] pc we i r(3) by (simp add: thread_ok_def)
    show "worker_wf (start_worker w1 i)" using ww r(3) by (simp add: worker_wf_def [of "w\<lparr>w_service_ready := 0\<rparr>"]) (simp add: worker_wf_def)
    show "free_worker (start_worker w1 i)" if "free_worker w" using that r(1) by (simp add: free_worker_def)
  qed (use at(3) we r(3) pc in simp_all)
qed

lemma step_none:
  assumes inv: "sys_inv s" and k: "k < length (sy_pcs s)" and pc: "pc_at s k = TTop"
    and w: "worker_at (sy_task s) (int k) = Some w" and get: "worker_get_job fails w = (0, w1)"
  shows "sys_inv (put_worker s k w1 (TNoJob 1))"
proof -
  note D = sys_invD [OF inv] and at = sys_worker [OF inv k]
  have we: "w = t_workers (sy_task s) ! k" using w at(1) by simp
  have "w1 = w" using get_job_result(2) [OF get] at(2) we by simp
  then show ?thesis
    using at(2,3) D(4) D(7) [OF k] pc we
    by (intro worker_step_inv [OF inv k we]) (auto simp: thread_ok_def)
qed

lemma complete_job_cases:
  assumes "worker_complete_job fails w = (r, w1)"
  shows "(r = 0 \<and> w_service_done w = 0 \<and> w1 = w\<lparr>w_service_done := int_of_id (w_running w), w_running := 0\<rparr>)
    \<or> (r = 1 \<and> w1 = w)"
  using assms by (auto simp: worker_complete_job_def atomic_int_cas_def split: if_splits)

lemma step_complete:
  assumes inv: "sys_inv s" and k: "k < length (sy_pcs s)"
    and pc: "pc_at s k = TComplete i \<and> pc' = TTop
      \<or> (pc_at s k = TOwner i \<or> pc_at s k = TSpin i) \<and> pc' = TRound RFinal PhExternal"
    and w: "worker_at (sy_task s) (int k) = Some w" and comp: "worker_complete_job fails w = (0, w1)"
  shows "sys_inv (put_worker s k w1 pc')"
proof -
  note D = sys_invD [OF inv] and at = sys_worker [OF inv k]
  have we: "w = t_workers (sy_task s) ! k" using w at(1) by simp
  from complete_job_cases [OF comp] have r: "w_service_done w = 0"
    "w1 = w\<lparr>w_service_done := int_of_id (w_running w), w_running := 0\<rparr>" by auto
  have run: "w_running w = i" "i \<noteq> 0" "finished (t_services (sy_task s)) i"
    using D(7) [OF k] pc we by (auto simp: thread_ok_def)
  have same: "worker_jobs w1 = worker_jobs w" "hold w1 = hold w"
    using r run by (simp_all add: worker_jobs_def hold_def)
  show ?thesis
  proof (rule worker_step_inv [OF inv k we])
    show "worker_wf w1" "w_worker_id w1 = int k" using at(2,3) we r(2) by (simp_all add: worker_wf_def)
    show "free_worker w1" if "free_worker w" using that r(2) by (simp add: free_worker_def)
    show "thread_ok (t_services (sy_task s)) w1 pc'" using r(2) run pc by (auto simp: thread_ok_def)
  qed (use pc D(4) same in auto)
qed

lemma step_complete_full:
  assumes inv: "sys_inv s" and k: "k < length (sy_pcs s)"
    and pc: "pc_at s k = TComplete i \<and> pc' = TAcquire i \<or> pc_at s k = TOwner i \<and> pc' = TRound (RInner i) PhExternal"
    and w: "worker_at (sy_task s) (int k) = Some w" and comp: "worker_complete_job fails w = (1, w1)"
  shows "sys_inv (put_worker s k w1 pc')"
proof -
  note D = sys_invD [OF inv] and at = sys_worker [OF inv k]
  have we: "w = t_workers (sy_task s) ! k" using w at(1) by simp
  from complete_job_cases [OF comp] have r: "w1 = w" by auto
  show ?thesis
    using at(2,3) we r D(4) D(7) [OF k] pc
    by (intro worker_step_inv [OF inv k we]) (auto simp: thread_ok_def)
qed

section \<open>Steps that change the pool\<close>

lemma core_status:
  assumes c: "core P Q A" and i: "i \<in># A" and st: "st \<notin> {SERVICE_STATUS_UNINITIALIZED, SERVICE_STATUS_IDLE}"
    and mb: "st = SERVICE_STATUS_DEAD \<or> has_mailbox P i"
  shows "core (service_status_set P i st) Q A"
proof -
  note D = coreD [OF c]
  note set = status_set_status [OF D(1) D(6) [OF i], of st]
  have "pool_wf (service_status_set P i st)"
    by (rule status_set_wf(1) [OF D(1)]) (use mb in auto)
  moreover have "i \<notin># Q" using D(3) [of i] i by (metis add_le_same_cancel2 count_greater_eq_one_iff
        count_union le_zero_eq not_in_iff add_le_cancel_right add_leD2 le_antisym)
  ultimately show ?thesis
    using c i st status_set_view(4) [OF D(1), of i st] unfolding core_def by (auto simp: set)
qed

lemma core_view:
  assumes c: "core P Q A" and "pool_wf P'" and v: "svc_view P' = svc_view P" and "p_malloc P' = []"
  shows "core P' Q A"
  using assms unfolding core_def by (simp add: status_view present_view v)

lemma send_signal_view:
  assumes wf: "pool_wf P" and "p_malloc P = []" and "get_service P i \<noteq> None"
  shows "svc_view (service_send_signal P i) = svc_view P"
    and "out_of (service_send_signal P i) = (out_of P)(i := Some (signal_message i))"
    and "p_mask (service_send_signal P i) = p_mask P" and "p_malloc (service_send_signal P i) = []"
proof -
  from assms(3) obtain S where S: "get_service P i = Some S" by auto
  let ?p1 = "P\<lparr>p_freed := message_delete (s_out S) (p_freed P)\<rparr>"
  let ?f = "\<lambda>S. S\<lparr>s_out := Some (signal_message i)\<rparr>"
  have Pm: "P\<lparr>p_freed := X, p_malloc := []\<rparr> = P\<lparr>p_freed := X\<rparr>" for X using assms(2) by (cases P) simp
  have r: "service_send_signal P i = upd_service ?p1 i ?f"
    using S assms(2) by (simp add: service_send_signal_def message_new_def Let_def Pm)
  have wf1: "pool_wf ?p1" using wf by simp
  have "svc_view (upd_service ?p1 i ?f) = svc_view ?p1" by (rule view_upd_same [OF wf1]) auto
  then show "svc_view (service_send_signal P i) = svc_view P" by (simp add: r)
  show "out_of (service_send_signal P i) = (out_of P)(i := Some (signal_message i))"
  proof
    fix j show "out_of (service_send_signal P i) j = ((out_of P)(i := Some (signal_message i))) j"
      using get_service_upd [OF wf1, of ?f i j] S by (auto simp: r out_of_def)
  qed
  show "p_mask (service_send_signal P i) = p_mask P" "p_malloc (service_send_signal P i) = []"
    using assms(2) by (simp_all add: r)
qed

lemma running_active:
  assumes inv: "sys_inv s" and k: "k < length (sy_pcs s)" and r: "w_running (t_workers (sy_task s) ! k) = i" "i \<noteq> 0"
  shows "i \<in># active_jobs s" and "i \<in># hold (t_workers (sy_task s) ! k)"
    and "w_service_done (t_workers (sy_task s) ! k) \<noteq> 0 \<Longrightarrow> id_of_int (w_service_done (t_workers (sy_task s) ! k)) \<noteq> i"
proof -
  note D = sys_invD [OF inv]
  show h: "i \<in># hold (t_workers (sy_task s) ! k)" using r by (simp add: hold_def)
  then show "i \<in># active_jobs s" using active_member [OF D(5) k, of i] by simp
  show "id_of_int (w_service_done (t_workers (sy_task s) ! k)) \<noteq> i"
    if "w_service_done (t_workers (sy_task s) ! k) \<noteq> 0"
  proof
    assume e: "id_of_int (w_service_done (t_workers (sy_task s) ! k)) = i"
    have "hold (t_workers (sy_task s) ! k) \<subseteq># sum_list (map hold (t_workers (sy_task s)))"
      using sum_list_map_remove1 [OF nth_mem [of k "t_workers (sy_task s)"], of hold] k D(5) by simp
    then have "count (hold (t_workers (sy_task s) ! k)) i \<le> count (active_jobs s) i"
      using mset_subset_eq_count [of _ "sum_list (map hold (t_workers (sy_task s)))" i]
      by (force simp: active_jobs_def)
    moreover have "count (hold (t_workers (sy_task s) ! k)) i = 2" using e r by (simp add: hold_def)
    ultimately show False using coreD(8) [OF D(4), of i] by simp
  qed
qed

lemma status_set_other:
  assumes "pool_wf P" and "j \<noteq> i"
  shows "svc_view (service_status_set P i st) j = svc_view P j" "out_of (service_status_set P i st) j = out_of P j"
  using assms by (simp_all add: status_set_view)

lemma status_set_bounds:
  assumes "pool_wf P"
  shows "service_binding_get (service_status_set P i st) j = service_binding_get P j"
    and "service_sockevent_get (service_status_set P i st) j = service_sockevent_get P j"
  using assms by (auto simp: binding_view sockevent_view status_set_view split: option.splits)

lemma finished_cong:
  "svc_view P' j = svc_view P j \<Longrightarrow> out_of P' j = out_of P j \<Longrightarrow> finished P' j = finished P j"
  by (simp add: finished_def status_view)

text \<open>A step that changes only what is known of the service the worker runs.\<close>

lemma own_step_inv:
  assumes inv: "sys_inv s" and k: "k < length (sy_pcs s)" and w: "w = t_workers (sy_task s) ! k"
    and run: "w_running w = i" "i \<noteq> 0"
    and w': "worker_wf w'" "w_worker_id w' = int k" "free_worker w \<Longrightarrow> free_worker w'"
      "worker_jobs w' = worker_jobs w" "hold w' = hold w" "w_running w' = i" "w_service_done w' = w_service_done w"
    and P: "p_mask P = p_mask (t_services (sy_task s))"
      "\<And>i. service_binding_get P i < c_worker (t_config (sy_task s))"
      "\<And>i. service_sockevent_get P i < int MAX_SOCKEVENT"
    and pcs: "phase_jobs pc = {#}" "phase_done pc = {#}" "phase_jobs (pc_at s k) = {#}"
      "phase_done (pc_at s k) = {#}" "\<not> owns pc" "\<not> owns (pc_at s k)"
    and core: "core P (waiting_jobs s) (active_jobs s)"
    and others: "\<And>j. j \<in># active_jobs s \<Longrightarrow> j \<noteq> i \<Longrightarrow>
        svc_view P j = svc_view (t_services (sy_task s)) j \<and> out_of P j = out_of (t_services (sy_task s)) j"
    and self: "pc_ok P i pc"
  shows "sys_inv (put s k ((set_worker (sy_task s) (int k) w')\<lparr>t_services := P\<rparr>) pc)"
proof -
  note D = sys_invD [OF inv]
  have run': "w_running (t_workers (sy_task s) ! k) = i" using run(1) w by simp
  note ra = running_active [OF inv k run' run(2)]
  have dn: "finished P (id_of_int (w_service_done w'))" if "w_service_done w' \<noteq> 0"
  proof -
    let ?j = "id_of_int (w_service_done w')"
    have d: "w_service_done w \<noteq> 0" using that w'(7) by simp
    have "?j \<noteq> i" using ra(3) d w w'(7) by simp
    moreover have "?j \<noteq> 0" using d w'(1,7) by (simp add: worker_wf_def id_of_int_eq_0)
    then have "?j \<in># hold (t_workers (sy_task s) ! k)" using w w'(7) by (simp add: hold_def)
    then have "?j \<in># active_jobs s" using active_member [OF D(5) k, of ?j] by simp
    ultimately have "finished P ?j = finished (t_services (sy_task s)) ?j"
      using others by (intro finished_cong) auto
    moreover have "finished (t_services (sy_task s)) ?j" using D(7) [OF k] d w w'(7) by (simp add: thread_ok_def)
    ultimately show ?thesis by simp
  qed
  have so: "slots_ok (nfree (sy_task s)) pc" using pcs(5) by (cases "(nfree (sy_task s), pc)" rule: slots_ok.cases) auto
  show ?thesis
  proof (rule local_inv [OF inv k w w'(1-3) P])
    show "phase_jobs pc = phase_jobs (pc_at s k)" "phase_done pc = phase_done (pc_at s k)"
      "owns pc \<longleftrightarrow> owns (pc_at s k)" using pcs by simp_all
    show "slots_ok (nfree (sy_task s)) pc" by (rule so)
    show "core P Q A" if "Q + worker_jobs w = waiting_jobs s + worker_jobs w'"
      "A + hold w = active_jobs s + hold w'" for Q A
      using that core w'(4,5) by simp
    show "svc_view P j = svc_view (t_services (sy_task s)) j \<and> out_of P j = out_of (t_services (sy_task s)) j"
      if "j \<in># active_jobs s" "j \<notin># hold w" for j
      using others [OF that(1)] that(2) ra(2) w by auto
    show "thread_ok P w' pc" using self dn pcs(1,2) w'(6) by (simp add: thread_ok_def)
  qed
qed

end
