(* ===== verification/ThreadSteps.thy ===== *)
theory ThreadSteps
  imports ThreadsInv
begin

text \<open>
  The steps of a thread that change the pool: starting, running and stopping a service, and
  what the Lua code of a running service may do to the others.
\<close>

section \<open>Pool calls seen from outside\<close>

text \<open>
  \<open>touches i p p'\<close>: only the entry of \<open>i\<close> changed. The table itself need not be well-formed
  in between, only large enough.
\<close>

definition sized :: "service_pool \<Rightarrow> bool" where
  "sized p \<longleftrightarrow> (\<forall>i. service_slot p i < length (p_s p))"

definition fixed :: "service \<Rightarrow> int \<times> int \<times> int" where
  "fixed S = (s_status S, s_sockevent_id S, s_binding_thread S)"

definition touches :: "service_id \<Rightarrow> service_pool \<Rightarrow> service_pool \<Rightarrow> bool" where
  "touches i p p' \<longleftrightarrow> sized p' \<and> p_mask p' = p_mask p \<and> (\<forall>j. j \<noteq> i \<longrightarrow> get_service p' j = get_service p j)
     \<and> map_option fixed (get_service p' i) = map_option fixed (get_service p i)"

lemma sized_wf: "pool_wf p \<Longrightarrow> sized p"
  by (simp add: sized_def service_slot_bound)

lemma sized_frame [simp]:
  "sized (p\<lparr>p_malloc := a\<rparr>) = sized p" "sized (p\<lparr>p_closed := c\<rparr>) = sized p"
  "sized (upd_service p i f) = sized p"
  by (simp_all add: sized_def)

lemma get_upd_sized:
  assumes sz: "sized p" and key: "\<And>S. s_id (f S) = s_id S"
  shows "get_service (upd_service p i f) j = (if j = i then map_option f (get_service p i) else get_service p j)"
proof (cases "get_service p i")
  case None
  then show ?thesis by (simp add: upd_service_def)
next
  case (Some S)
  note at = get_service_slot [OF Some] and ident = get_service_id [OF Some]
  have b: "service_slot p i < length (p_s p)" using sz by (simp add: sized_def)
  have slot: "slot_ref (upd_service p i f) j =
      (if service_slot p j = service_slot p i then Some (f S) else slot_ref p j)" for j
    using b Some by (simp add: upd_service_def slot_ref_def service_slot_def nth_list_update)
  show ?thesis
    using Some ident at by (auto simp: get_service_def slot key) (auto simp: slot_ref_def)
qed

lemma touches_upd:
  assumes "sized p" and "\<And>S. s_id (f S) = s_id S" and "\<And>S. fixed (f S) = fixed S"
  shows "touches i p (upd_service p i f)"
  using assms by (simp add: touches_def get_upd_sized option.map_comp comp_def)

lemma touches_trans: "touches i p p1 \<Longrightarrow> touches i p1 p2 \<Longrightarrow> touches i p p2"
  by (simp add: touches_def)

lemma touches_frame:
  "touches i p q \<Longrightarrow> touches i p (q\<lparr>p_malloc := a\<rparr>)" "touches i p q \<Longrightarrow> touches i p (q\<lparr>p_closed := c\<rparr>)"
  by (simp_all add: touches_def)

lemma touches_other:
  assumes "touches i p p'"
  shows "j \<noteq> i \<Longrightarrow> svc_view p' j = svc_view p j \<and> out_of p' j = out_of p j"
    and "service_status_get p' j = service_status_get p j"
    and "service_binding_get p' j = service_binding_get p j"
    and "service_sockevent_get p' j = service_sockevent_get p j"
    and "get_service p' j = None \<longleftrightarrow> get_service p j = None"
proof -
  have f: "map_option fixed (get_service p' j) = map_option fixed (get_service p j)" for j
    using assms by (cases "j = i") (auto simp: touches_def)
  show "j \<noteq> i \<Longrightarrow> svc_view p' j = svc_view p j \<and> out_of p' j = out_of p j"
    using assms by (simp add: touches_def svc_view_def out_of_def)
  show "service_status_get p' j = service_status_get p j" "service_binding_get p' j = service_binding_get p j"
    "service_sockevent_get p' j = service_sockevent_get p j" "get_service p' j = None \<longleftrightarrow> get_service p j = None"
    using f [of j] by (auto simp: service_status_get_def service_binding_get_def service_sockevent_get_def
        fixed_def split: option.splits)
qed

lemma init_touches:
  assumes wf: "pool_wf p" and mem: "p_malloc p = []" and res: "service_init p i vm = Some (r, p')"
  shows "touches i p p'" and "p_malloc p' = []"
proof -
  have sz: "sized p" by (rule sized_wf [OF wf])
  from res obtain S where S: "get_service p i = Some S" "s_L S = 0" "s_status S = SERVICE_STATUS_UNINITIALIZED"
    by (auto simp: service_init_def split: option.splits)
  let ?p1 = "upd_service p i (\<lambda>S. S\<lparr>s_stat := Some zero_stat\<rparr>)"
  have t1: "touches i p ?p1" by (rule touches_upd [OF sz]) (simp_all add: fixed_def)
  have mal: "malloc (p_malloc ?p1) = (True, [])" by (simp add: mem)
  show "touches i p p'" and "p_malloc p' = []"
  proof (atomize (full), cases "vb_state vm = 0 \<or> \<not> vb_ok vm")
    case True
    then show "touches i p p' \<and> p_malloc p' = []"
      using res S t1 mem by (auto simp: service_init_def Let_def intro: touches_frame split: if_splits)
  next
    case False
    with res S mal obtain mq :: "message queue option" where
      mq: "queue_new_ptr True (p_queue_length p) = Some mq"
      by (auto simp: service_init_def Let_def bind_eq_Some_conv)
    let ?p2 = "?p1\<lparr>p_malloc := []\<rparr>"
    let ?p3 = "upd_service ?p2 i (\<lambda>S. S\<lparr>s_msg := mq\<rparr>)"
    have t3: "touches i p ?p3"
      by (rule touches_trans [OF touches_frame(1) [OF t1] touches_upd])
        (use sz in \<open>simp_all add: fixed_def\<close>)
    have t4: "touches i p (upd_service ?p3 i (\<lambda>S. S\<lparr>s_L := vb_state vm, s_rL := vb_thread vm\<rparr>))"
      by (rule touches_trans [OF t3 touches_upd]) (use sz in \<open>simp_all add: fixed_def\<close>)
    have "service_init p i vm = (if mq = None then Some (1, ?p3\<lparr>p_closed := vb_state vm # p_closed ?p3\<rparr>)
        else Some (0, upd_service ?p3 i (\<lambda>S. S\<lparr>s_L := vb_state vm, s_rL := vb_thread vm\<rparr>)))"
      using False S mal mq by (simp add: service_init_def Let_def del: upd_service_simps)
    then show "touches i p p' \<and> p_malloc p' = []"
      using res t3 t4 touches_frame(2) [OF t3] by (auto split: if_splits)
  qed
qed

lemma upd_field:
  assumes sz: "sized p" and key: "\<And>S. s_id (f S) = s_id S"
  shows "j \<noteq> i \<Longrightarrow> svc_view (upd_service p i f) j = svc_view p j \<and> out_of (upd_service p i f) j = out_of p j"
    and "get_service (upd_service p i f) j = None \<longleftrightarrow> get_service p j = None"
    and "(\<And>S. s_status (f S) = s_status S) \<Longrightarrow>
      service_status_get (upd_service p i f) j = service_status_get p j"
    and "(\<And>S. s_sockevent_id (f S) = s_sockevent_id S) \<Longrightarrow>
      service_sockevent_get (upd_service p i f) j = service_sockevent_get p j"
    and "(\<And>S. s_binding_thread (f S) = s_binding_thread S) \<Longrightarrow>
      service_binding_get (upd_service p i f) j = service_binding_get p j"
  using get_upd_sized [OF sz, of f i j] key
  by (auto simp: svc_view_def out_of_def service_status_get_def service_sockevent_get_def
      service_binding_get_def split: option.splits)

text \<open>What a call of the Lua code does: \<open>target\<close> is the service it is about.\<close>

fun target :: "pool_call \<Rightarrow> service_id" where
  "target (Call_new j) = j"
| "target (Call_init j vm) = j"
| "target (Call_loadstring j err) = j"
| "target (Call_push j m) = j"
| "target (Call_out j) = j"
| "target (Call_send j m) = j"
| "target (Call_write_receipt j r b) = j"
| "target (Call_read_receipt j) = j"
| "target (Call_pop j) = j"
| "target (Call_send_signal j) = j"
| "target (Call_status_set j st) = j"
| "target (Call_binding_set j w) = j"
| "target (Call_sockevent_init j n) = j"
| "target (Call_setlabel j l) = j"
| "target (Call_close j) = j"
| "target (Call_delete j) = j"

definition lua_effect :: "sys \<Rightarrow> service_id \<Rightarrow> service_id \<Rightarrow> service_pool \<Rightarrow> service_pool \<Rightarrow> bool" where
  "lua_effect s i j p p' \<longleftrightarrow> p_mask p' = p_mask p \<and> p_malloc p' = []
     \<and> (\<forall>k. k \<noteq> j \<longrightarrow> svc_view p' k = svc_view p k \<and> out_of p' k = out_of p k)
     \<and> (svc_view p' j = svc_view p j \<and> out_of p' j = out_of p j
        \<or> j = i \<and> service_status_get p' j = service_status_get p j
            \<and> (get_service p' j = None \<longleftrightarrow> get_service p j = None)
        \<or> j \<notin># waiting_jobs s + active_jobs s \<and> service_status_get p' j \<notin> active_status)
     \<and> (service_binding_get p' j \<le> max (service_binding_get p j) (c_worker (t_config (sy_task s)) - 1))
     \<and> (service_sockevent_get p' j \<le> max (service_sockevent_get p j) (int MAX_SOCKEVENT - 1))"

lemma same_effect:
  assumes "p_mask p' = p_mask p" "p_malloc p' = []" "svc_view p' = svc_view p" "out_of p' = out_of p"
  shows "lua_effect s i j p p'"
  using assms by (simp add: lua_effect_def binding_view sockevent_view)

lemma lua_call_effect:
  assumes core: "core p (waiting_jobs s) (active_jobs s)" and i: "i \<in># active_jobs s"
    and N: "1 \<le> c_worker (t_config (sy_task s))"
    and lua: "lua_call_ok s i c" and ok: "pool_call_ok p c" and st: "pool_step c p = Some (ins, outs, p')"
  shows "lua_effect s i (target c) p p'"
proof -
  note D = coreD [OF core]
  have sz: "sized p" by (rule sized_wf [OF D(1)])
  note U = upd_field [OF sz]
  have out: "j \<notin># waiting_jobs s + active_jobs s \<Longrightarrow> service_status_get p j \<notin> active_status" for j
    by (rule D(7))
  show ?thesis
  proof (cases c)
    case (Call_send j m)
    then have j: "j = i" and p': "p' = p \<or> p' = upd_service p i (\<lambda>S. S\<lparr>s_out := m\<rparr>)"
      using lua st by (auto simp: service_send_message_def split: option.splits if_splits)
    from p' show ?thesis
    proof
      assume "p' = p"
      then show ?thesis using D(2) by (simp add: same_effect)
    next
      assume "p' = upd_service p i (\<lambda>S. S\<lparr>s_out := m\<rparr>)"
      then show ?thesis using j Call_send D(2) U [of "\<lambda>S. S\<lparr>s_out := m\<rparr>"] by (simp add: lua_effect_def)
    qed
  next
    case (Call_read_receipt j)
    then have "p' = p \<or> p' = upd_service p j (\<lambda>S. S\<lparr>s_receipt := MESSAGE_RECEIPT_NONE, s_bounce := None\<rparr>)"
      using st by (auto simp: service_read_receipt_def split: option.splits)
    then show ?thesis using D(2) by (auto intro!: same_effect simp: view_upd_same [OF D(1)] out_upd_same [OF D(1)])
  next
    case (Call_pop j)
    then obtain m where pop: "service_pop_message p j = Some (m, p')" using st by auto
    show ?thesis
    proof (cases "get_service p j")
      case None
      then show ?thesis using pop D(2) by (auto intro!: same_effect simp: service_pop_message_def)
    next
      case (Some S)
      show ?thesis
      proof (cases "s_bounce S")
        case b: (Some b)
        then have "p' = upd_service p j (\<lambda>S. S\<lparr>s_bounce := None\<rparr>)"
          using pop Some by (simp add: service_pop_message_def)
        then show ?thesis using D(2) by (auto intro!: same_effect simp: view_upd_same [OF D(1)] out_upd_same [OF D(1)])
      next
        case None
        with pop Some obtain q q' where q: "s_msg S = Some q" "p' = upd_service p j (\<lambda>S. S\<lparr>s_msg := Some q'\<rparr>)"
          by (auto simp: service_pop_message_def bind_eq_Some_conv split: option.splits)
        have "svc_view p' = svc_view p" unfolding q(2) using q(1) Some by (intro view_upd_same [OF D(1)]) auto
        then show ?thesis using D(2) q(2) by (auto intro!: same_effect simp: out_upd_same [OF D(1)])
      qed
    qed
  next
    case (Call_sockevent_init j n)
    then have j: "j = i" "n < int MAX_SOCKEVENT" "p' = upd_service p i (\<lambda>S. S\<lparr>s_sockevent_id := n\<rparr>)"
      using lua st by (auto simp: service_sockevent_init_def)
    from D(6) [OF i] obtain S where S: "get_service p i = Some S" by auto
    have "service_sockevent_get p' i = n"
      using S get_upd_sized [OF sz, of "\<lambda>S. S\<lparr>s_sockevent_id := n\<rparr>" i i] j(3) by (simp add: service_sockevent_get_def)
    then show ?thesis
      using j Call_sockevent_init D(2) U [of "\<lambda>S. S\<lparr>s_sockevent_id := n\<rparr>"] by (simp add: lua_effect_def)
  next
    case (Call_binding_set j n)
    then have j: "n < c_worker (t_config (sy_task s))" "p' = upd_service p j (\<lambda>S. S\<lparr>s_binding_thread := n\<rparr>)"
      "j = i \<or> j \<notin># waiting_jobs s + active_jobs s"
      using lua st by (auto simp: service_binding_set_def)
    have "service_binding_get p' j = (if get_service p j = None then -1 else n)"
      using get_upd_sized [OF sz, of "\<lambda>S. S\<lparr>s_binding_thread := n\<rparr>" j j] j(2)
      by (simp add: service_binding_get_def split: option.splits)
    then show ?thesis
      using j Call_binding_set D(2) U [of "\<lambda>S. S\<lparr>s_binding_thread := n\<rparr>"] out [of j] N by (auto simp: lua_effect_def)
  next
    case (Call_setlabel j l)
    then have "p' = p \<or> p' = upd_service p j (\<lambda>S. S\<lparr>s_label := Some (take 31 l)\<rparr>)"
      using st by (auto simp: service_setlabel_def split: option.splits)
    then show ?thesis using D(2) by (auto intro!: same_effect simp: view_upd_same [OF D(1)] out_upd_same [OF D(1)])
  next
    case (Call_init j vm)
    then obtain r where r: "service_init p j vm = Some (r, p')" using st by auto
    note t = init_touches [OF D(1,2) r]
    show ?thesis
      using touches_other [OF t(1)] t(2) Call_init lua out [of j] t(1) by (simp add: lua_effect_def touches_def)
  next
    case (Call_loadstring j err)
    obtain r where r: "service_loadstring p j err = (r, p')"
      using st Call_loadstring by (cases "service_loadstring p j err") auto
    have nj: "j \<notin># waiting_jobs s + active_jobs s" using lua Call_loadstring by simp
    have "p' = p \<or> (\<exists>st. p' = upd_service p j (\<lambda>S. S\<lparr>s_status := st\<rparr>) \<and> st \<notin> active_status \<and> get_service p j \<noteq> None)"
      using r by (auto simp: service_loadstring_def active_status_def split: option.splits if_splits)
    then show ?thesis
    proof
      assume "p' = p"
      then show ?thesis using D(2) by (simp add: same_effect)
    next
      assume "\<exists>st. p' = upd_service p j (\<lambda>S. S\<lparr>s_status := st\<rparr>) \<and> st \<notin> active_status \<and> get_service p j \<noteq> None"
      then obtain st where p': "p' = upd_service p j (\<lambda>S. S\<lparr>s_status := st\<rparr>)" "st \<notin> active_status"
        and e: "get_service p j \<noteq> None" by blast
      have "service_status_get p' j = st"
        using e get_upd_sized [OF sz, of "\<lambda>S. S\<lparr>s_status := st\<rparr>" j j] p'(1) by (auto simp: service_status_get_def)
      then show ?thesis
        using p' nj Call_loadstring D(2) U [of "\<lambda>S. S\<lparr>s_status := st\<rparr>"] by (simp add: lua_effect_def)
    qed
  next
    case (Call_delete j)
    then have del: "service_delete p j = Some p'" and nj: "j \<notin># waiting_jobs s + active_jobs s"
      using st lua by auto
    from service_delete_view [OF D(1), of j] del have
      "svc_view p' = (svc_view p)(j := None)" "out_of p' = (out_of p)(j := None)" "p_mask p' = p_mask p"
      "p_malloc p' = p_malloc p" by auto
    then show ?thesis
      using nj Call_delete D(2) N
      by (simp add: lua_effect_def status_view binding_view sockevent_view active_status_def le_max_iff_disj)
  qed (use lua in simp_all)
qed

lemma core_lua:
  assumes core: "core p (waiting_jobs s) (active_jobs s)" and i: "i \<in># active_jobs s"
    and eff: "lua_effect s i j p p'" and wf: "pool_wf p'"
  shows "core p' (waiting_jobs s) (active_jobs s)"
proof -
  note D = coreD [OF core]
  have st: "(k \<in># waiting_jobs s + active_jobs s \<longrightarrow> service_status_get p' k = service_status_get p k
        \<and> (get_service p' k = None \<longleftrightarrow> get_service p k = None))
      \<and> (k \<notin># waiting_jobs s + active_jobs s \<longrightarrow> service_status_get p' k \<notin> active_status)" for k
  proof (cases "svc_view p' k = svc_view p k")
    case True
    then show ?thesis using D(7) [of k] by (simp add: status_view present_view)
  next
    case False
    with eff have "k = j" by (auto simp: lua_effect_def)
    with eff False i show ?thesis by (auto simp: lua_effect_def)
  qed
  have "p_malloc p' = []" using eff by (simp add: lua_effect_def)
  then show ?thesis using wf core st unfolding core_def by auto
qed

section \<open>Starting and running a service\<close>

lemma put_pool_worker:
  assumes "w = t_workers (sy_task s) ! k"
  shows "put_pool s k P pc = put s k ((set_worker (sy_task s) (int k) w)\<lparr>t_services := P\<rparr>) pc"
  using assms by (simp add: put_pool_def set_worker_def)

lemma sched_bounds:
  assumes "sched_wf t"
  shows "service_binding_get (t_services t) i < c_worker (t_config t)"
    and "service_sockevent_get (t_services t) i < int MAX_SOCKEVENT" and "1 \<le> c_worker (t_config t)"
  using assms by (auto simp: sched_wf_def)

lemma sys_running:
  assumes inv: "sys_inv s" and k: "k < length (sy_pcs s)" and pc: "pc_at s k \<in> {TStart i, TRun i}"
  shows "w_running (t_workers (sy_task s) ! k) = i" "i \<noteq> 0" "i \<in># active_jobs s"
    "service_status_get (t_services (sy_task s)) i =
      (if pc_at s k = TStart i then SERVICE_STATUS_SCHEDULE else SERVICE_STATUS_RUNNING)"
    "has_mailbox (t_services (sy_task s)) i"
proof -
  note D = sys_invD [OF inv]
  show r: "w_running (t_workers (sy_task s) ! k) = i" "i \<noteq> 0"
    and st: "service_status_get (t_services (sy_task s)) i =
      (if pc_at s k = TStart i then SERVICE_STATUS_SCHEDULE else SERVICE_STATUS_RUNNING)"
    using D(7) [OF k] pc by (auto simp: thread_ok_def)
  show "i \<in># active_jobs s" by (rule running_active(1) [OF inv k r])
  show "has_mailbox (t_services (sy_task s)) i"
    using st by (intro status_mailbox [OF coreD(1) [OF D(4)]]) auto
qed

lemma step_start:
  assumes inv: "sys_inv s" and k: "k < length (sy_pcs s)" and pc: "pc_at s k = TStart i"
  shows "sys_inv (put_pool s k (service_status_set (t_services (sy_task s)) i SERVICE_STATUS_RUNNING) (TRun i))"
proof -
  note D = sys_invD [OF inv] and at = sys_worker [OF inv k]
  note r = sys_running [OF inv k, of i, unfolded pc, simplified]
  have wf: "pool_wf (t_services (sy_task s))" by (rule coreD(1) [OF D(4)])
  show ?thesis
    unfolding put_pool_worker [OF refl]
  proof (rule own_step_inv [OF inv k refl r(1,2) at(2,3) _ refl refl r(1) refl])
    show "core (service_status_set (t_services (sy_task s)) i SERVICE_STATUS_RUNNING) (waiting_jobs s) (active_jobs s)"
      using r(5) by (intro core_status [OF D(4) r(3)]) auto
    show "pc_ok (service_status_set (t_services (sy_task s)) i SERVICE_STATUS_RUNNING) i (TRun i)"
      using r(2) status_set_status(1) [OF wf coreD(6) [OF D(4) r(3)]] by simp
  qed (use pc sched_bounds [OF D(1)] in \<open>simp_all add: status_set_bounds [OF wf] status_set_view [OF wf]\<close>)
qed

lemma step_lua:
  assumes inv: "sys_inv s" and k: "k < length (sy_pcs s)" and pc: "pc_at s k = TRun i"
    and lua: "lua_call_ok s i c" and ok: "pool_call_ok (t_services (sy_task s)) c"
    and st: "pool_step c (t_services (sy_task s)) = Some (ins, outs, P)"
  shows "sys_inv (put_pool s k P (TRun i))"
proof -
  note D = sys_invD [OF inv] and at = sys_worker [OF inv k]
  note r = sys_running [OF inv k, of i, unfolded pc, simplified]
  note B = sched_bounds [OF D(1)]
  have wf: "pool_wf P" using pool_step_ok [OF coreD(1) [OF D(4)] ok st] by blast
  have eff: "lua_effect s i (target c) (t_services (sy_task s)) P"
    by (rule lua_call_effect [OF D(4) r(3) B(3) lua ok st])
  have status: "service_status_get P i = SERVICE_STATUS_RUNNING"
    using eff r(3,4) by (cases "i = target c") (auto simp: lua_effect_def status_view)
  have other: "svc_view P j = svc_view (t_services (sy_task s)) j \<and> out_of P j = out_of (t_services (sy_task s)) j"
    if "j \<in># active_jobs s" "j \<noteq> i" for j
    using that eff by (cases "j = target c") (auto simp: lua_effect_def)
  show ?thesis
    unfolding put_pool_worker [OF refl]
  proof (rule own_step_inv [OF inv k refl r(1,2) at(2,3) _ refl refl r(1) refl])
    show "core P (waiting_jobs s) (active_jobs s)" by (rule core_lua [OF D(4) r(3) eff wf])
    show "service_binding_get P j < c_worker (t_config (sy_task s))" for j
      using eff B(1) [of j] by (cases "j = target c") (auto simp: lua_effect_def binding_view)
    show "service_sockevent_get P j < int MAX_SOCKEVENT" for j
      using eff B(2) [of j] by (cases "j = target c") (auto simp: lua_effect_def sockevent_view)
    show "p_mask P = p_mask (t_services (sy_task s))" using eff by (simp add: lua_effect_def)
  qed (use pc status r(2) other in simp_all)
qed

lemma step_yield:
  assumes inv: "sys_inv s" and k: "k < length (sy_pcs s)" and pc: "pc_at s k = TRun i"
    and w: "worker_at (sy_task s) (int k) = Some w"
    and P: "P = service_status_set (t_services (sy_task s)) i SERVICE_STATUS_DONE"
  shows "sys_inv (put s k ((set_worker (sy_task s) (int k) (stop_worker P False i w))\<lparr>t_services := P\<rparr>) (TComplete i))"
proof -
  note D = sys_invD [OF inv] and at = sys_worker [OF inv k]
  note r = sys_running [OF inv k, of i, unfolded pc, simplified]
  have wf: "pool_wf (t_services (sy_task s))" by (rule coreD(1) [OF D(4)])
  have we: "w = t_workers (sy_task s) ! k" using w at(1) by simp
  have st: "service_status_get P i = SERVICE_STATUS_DONE"
    unfolding P using status_set_status(1) [OF wf coreD(6) [OF D(4) r(3)]] by simp
  show ?thesis
  proof (rule own_step_inv [OF inv k we])
    show "core P (waiting_jobs s) (active_jobs s)"
      unfolding P using r(5) by (intro core_status [OF D(4) r(3)]) auto
    show "pc_ok P i (TComplete i)" using r(2) st by (simp add: finished_def)
  qed (use pc at r we sched_bounds [OF D(1)] in
      \<open>simp_all add: P status_set_bounds [OF wf] status_set_view [OF wf]\<close>)
qed

lemma step_term:
  assumes inv: "sys_inv s" and k: "k < length (sy_pcs s)" and pc: "pc_at s k = TRun i"
    and w: "worker_at (sy_task s) (int k) = Some w"
    and P: "P = service_send_signal (service_status_set (t_services (sy_task s)) i SERVICE_STATUS_DEAD) i"
  shows "sys_inv (put s k ((set_worker (sy_task s) (int k) (stop_worker P True i w))\<lparr>t_services := P\<rparr>) (TComplete i))"
proof -
  note D = sys_invD [OF inv] and at = sys_worker [OF inv k]
  note r = sys_running [OF inv k, of i, unfolded pc, simplified]
  let ?P = "service_status_set (t_services (sy_task s)) i SERVICE_STATUS_DEAD"
  have wf: "pool_wf (t_services (sy_task s))" by (rule coreD(1) [OF D(4)])
  have we: "w = t_workers (sy_task s) ! k" using w at(1) by simp
  have c1: "core ?P (waiting_jobs s) (active_jobs s)" by (rule core_status [OF D(4) r(3)]) simp_all
  note wf1 = coreD(1) [OF c1]
  note sg = send_signal_view [OF wf1 coreD(2) [OF c1] coreD(6) [OF c1 r(3)], folded P]
  have st: "service_status_get P i = SERVICE_STATUS_DEAD"
    using status_set_status(1) [OF wf coreD(6) [OF D(4) r(3)], of SERVICE_STATUS_DEAD i]
    by (simp add: status_view sg(1))
  have b: "service_binding_get P j = service_binding_get (t_services (sy_task s)) j"
    "service_sockevent_get P j = service_sockevent_get (t_services (sy_task s)) j" for j
    using status_set_bounds [OF wf, of i SERVICE_STATUS_DEAD j] by (simp_all add: binding_view sockevent_view sg(1))
  show ?thesis
  proof (rule own_step_inv [OF inv k we])
    show "core P (waiting_jobs s) (active_jobs s)"
      by (rule core_view [OF c1 _ sg(1,4)]) (use send_signal_account(1) [OF wf1, of i] P in simp)
    show "pc_ok P i (TComplete i)" using r(2) st sg(2) by (simp add: finished_def)
  qed (use pc at r we sched_bounds [OF D(1)] in
      \<open>simp_all add: sg b status_set_view [OF wf]\<close>)
qed

end
