(* ===== verification/ThreadRounds.thy ===== *)
theory ThreadRounds
  imports ThreadSteps
begin

text \<open>
  The steps of the thread that owns the scheduler: each phase of a round keeps the invariant
  of the whole system, whatever the other threads did since the previous phase.
\<close>

section \<open>External messages\<close>

text \<open>Only mailboxes changed.\<close>

definition pool_quiet :: "service_pool \<Rightarrow> service_pool \<Rightarrow> bool" where
  "pool_quiet P P' \<longleftrightarrow> pool_wf P' \<and> svc_view P' = svc_view P \<and> out_of P' = out_of P
     \<and> p_mask P' = p_mask P \<and> p_malloc P' = []"

lemma pool_quiet_trans: "pool_quiet P P1 \<Longrightarrow> pool_quiet P1 P2 \<Longrightarrow> pool_quiet P P2"
  by (simp add: pool_quiet_def)

lemma pool_quiet_refl: "pool_wf P \<Longrightarrow> p_malloc P = [] \<Longrightarrow> pool_quiet P P"
  by (simp add: pool_quiet_def)

definition can_receive :: "service_pool \<Rightarrow> service_id \<Rightarrow> bool" where
  "can_receive P i \<longleftrightarrow> service_status_get P i = SERVICE_STATUS_DEAD \<or> has_mailbox P i"

lemma can_receive_quiet: "pool_quiet P P' \<Longrightarrow> can_receive P' i = can_receive P i"
  by (simp add: can_receive_def pool_quiet_def status_view mailbox_view)

lemma send_external_spec:
  assumes wf: "pool_wf (t_services t)" and mem: "p_malloc (t_services t) = []"
    and ok: "can_receive (t_services t) (m_to m)"
  shows "\<exists>r P. send_external_message t (Some m) = Some (r, t\<lparr>t_services := P\<rparr>) \<and> pool_quiet (t_services t) P"
proof -
  from pool_step_push [OF wf ok [unfolded can_receive_def]] obtain r P where
    push: "service_push_message (t_services t) (m_to m) (Some m) = Some (r, P)" by blast
  have q: "pool_quiet (t_services t) P"
    using push_message_view [OF wf push] push_message_account(1) [OF wf push] mem by (simp add: pool_quiet_def)
  moreover have "pool_quiet (t_services t) (P\<lparr>p_freed := message_delete (Some m) (p_freed P)\<rparr>)"
    using q by (simp add: pool_quiet_def)
  ultimately show ?thesis using push by (auto simp: send_external_message_def)
qed

lemma external_loop_spec:
  assumes "pool_wf (t_services t)" and "p_malloc (t_services t) = []" and "can_receive (t_services t) 1"
    and "queue_wf q" and "queue_count q < fuel"
  shows "\<exists>b send' P q' l. external_loop fuel pack q send t =
      Some (b, send', t\<lparr>t_services := P, t_external_message := Some q', t_external_last_message := l\<rparr>)
    \<and> pool_quiet (t_services t) P \<and> queue_wf q'
    \<and> (l = t_external_last_message t \<or> (\<exists>m. l = Some m \<and> m_to m = 1))"
  using assms
proof (induction fuel arbitrary: q send t)
  case 0
  then show ?case by simp
next
  case (Suc fuel)
  note prems = Suc.prems
  show ?case
  proof (cases "queue_count q = 0")
    case True
    have "external_loop (Suc fuel) pack q send t = Some (False, send, t\<lparr>t_services := t_services t,
        t_external_message := Some q, t_external_last_message := t_external_last_message t\<rparr>)"
      using queue_pop_ptr_empty [OF prems(4) True] by simp
    then show ?thesis using prems(4) pool_quiet_refl [OF prems(1,2)] by blast
  next
    case False
    then have some: "0 < queue_count q" by simp
    let ?q1 = "ring_deq q" and ?m = "external_message_of (pack (hd (queue_list q)))"
    let ?t1 = "t\<lparr>t_external_message := Some ?q1\<rparr>"
    have to: "m_to ?m = 1" by (simp add: external_message_of_def)
    have pm: "(t_services t)\<lparr>p_malloc := []\<rparr> = t_services t" using prems(2) by (cases "t_services t") simp
    have new: "message_new (p_malloc (t_services ?t1)) ?m = (Some ?m, [])"
      using prems(2) by (simp add: message_new_def)
    have q1: "queue_wf ?q1" "queue_count ?q1 < fuel"
      using ring_deq_wf [OF prems(4) some] ring_deq_count [OF prems(4) some] prems(5) some by auto
    from send_external_spec [of ?t1 ?m] prems(1-3) to obtain r P where
      sent: "send_external_message ?t1 (Some ?m) = Some (r, ?t1\<lparr>t_services := P\<rparr>)" "pool_quiet (t_services t) P"
      by auto
    show ?thesis
    proof (cases "r = 0")
      case False
      have "external_loop (Suc fuel) pack q send t = Some (True, send, t\<lparr>t_services := P,
          t_external_message := Some ?q1, t_external_last_message := Some ?m\<rparr>)"
        using queue_pop_ptr_some [OF prems(4) some] new sent(1) False pm by (simp add: Let_def)
      then show ?thesis using sent(2) q1(1) to by blast
    next
      case True
      let ?t2 = "?t1\<lparr>t_services := P\<rparr>"
      have P: "pool_wf (t_services ?t2)" "p_malloc (t_services ?t2) = []" "can_receive (t_services ?t2) 1"
        using sent(2) can_receive_quiet [OF sent(2)] prems(3) by (simp_all add: pool_quiet_def)
      from Suc.IH [OF P q1, of 1] obtain b send' P' q' l where
        IH: "external_loop fuel pack ?q1 1 ?t2 = Some (b, send',
            ?t2\<lparr>t_services := P', t_external_message := Some q', t_external_last_message := l\<rparr>)"
          "pool_quiet (t_services ?t2) P'" "queue_wf q'"
          "l = t_external_last_message ?t2 \<or> (\<exists>m. l = Some m \<and> m_to m = 1)" by blast
      have "external_loop (Suc fuel) pack q send t = external_loop fuel pack ?q1 1 ?t2"
        using queue_pop_ptr_some [OF prems(4) some] new sent(1) True pm by (simp add: Let_def)
      then have "external_loop (Suc fuel) pack q send t = Some (b, send', t\<lparr>t_services := P',
          t_external_message := Some q', t_external_last_message := l\<rparr>)" using IH(1) by simp
      moreover have "pool_quiet (t_services t) P'" using IH(2) pool_quiet_trans [OF sent(2)] by simp
      moreover have "l = t_external_last_message t \<or> (\<exists>m. l = Some m \<and> m_to m = 1)" using IH(4) by simp
      ultimately show ?thesis using IH(3) by blast
    qed
  qed
qed

text \<open>The part of the state a dispatch of external messages leaves alone.\<close>

definition same_workers :: "ltask \<Rightarrow> ltask \<Rightarrow> bool" where
  "same_workers t t' \<longleftrightarrow> t_workers t' = t_workers t \<and> t_config t' = t_config t
     \<and> t_schedule_owner t' = t_schedule_owner t \<and> p_mask (t_services t') = p_mask (t_services t)"

lemma sched_inv_external:
  assumes inv: "sched_inv t A" and q: "pool_quiet (t_services t) P"
  shows "sched_inv (t\<lparr>t_services := P, t_external_message := e, t_external_last_message := l\<rparr>) A"
proof -
  have "sched_inv (t\<lparr>t_services := P\<rparr>) A" using q by (intro sched_inv_pool [OF inv]) (simp_all add: pool_quiet_def)
  then show ?thesis by (simp add: sched_inv_def sched_wf_def queued_def run_queue_def)
qed

lemma external_finish_spec:
  assumes inv: "sched_inv t A" and ext: "ext_wf t" and q: "t_external_message t \<noteq> None"
    and root: "can_receive (t_services t) 1" and room: "int (card (live (t_services t))) \<le> p_mask (t_services t)"
  shows "\<exists>t'. external_finish send pack t = Some t' \<and> sched_inv t' A \<and> ext_wf t' \<and> same_workers t t'
    \<and> same_on A (t_services t) (t_services t')"
proof -
  note D = sched_invD [OF inv]
  from q obtain e where e: "t_external_message t = Some e" by auto
  have ewf: "queue_wf e" using ext e by (simp add: ext_wf_def)
  have "queue_count e < nat (q_size e) + 1" using queue_count_less [OF ewf] by simp
  from external_loop_spec [OF D(2,4) root ewf this, of pack send] obtain b send' P e' l where
    loop: "external_loop (nat (q_size e) + 1) pack e send t =
        Some (b, send', t\<lparr>t_services := P, t_external_message := Some e', t_external_last_message := l\<rparr>)"
    and quiet: "pool_quiet (t_services t) P" and e': "queue_wf e'"
    and l: "l = t_external_last_message t \<or> (\<exists>m. l = Some m \<and> m_to m = 1)" by blast
  let ?t1 = "t\<lparr>t_services := P, t_external_message := Some e', t_external_last_message := l\<rparr>"
  have inv1: "sched_inv ?t1 A" by (rule sched_inv_external [OF inv quiet])
  have ext1: "ext_wf ?t1" using ext e' l by (auto simp: ext_wf_def)
  have so1: "same_on A (t_services t) (t_services ?t1)" using quiet by (simp add: pool_quiet_def same_on_def)
  have sw1: "same_workers t ?t1" using quiet by (simp add: pool_quiet_def same_workers_def)
  have "int (card (live (t_services ?t1))) \<le> p_mask (t_services ?t1)"
    using room quiet by (simp add: pool_quiet_def live_view)
  from check_message_to_spec [OF inv1 this, of 1] obtain t' where
    t': "check_message_to ?t1 1 = Some t'" "sched_inv t' A" "same_threads ?t1 t'"
      "same_on A (t_services ?t1) (t_services t')" by blast
  have sw': "same_workers t t'" using sw1 t'(3) by (simp add: same_workers_def same_threads_def)
  have ext': "ext_wf t'" using ext1 t'(3) by (simp add: ext_wf_def same_threads_def)
  consider "external_finish send pack t = Some ?t1" | "external_finish send pack t = Some t'"
    using e loop t'(1) by (cases b; cases "send' = 0")
      (simp_all add: external_finish_def del: external_loop.simps)
  then show ?thesis
  proof cases
    case 1
    then show ?thesis using inv1 ext1 sw1 so1 by blast
  next
    case 2
    then show ?thesis using t'(2) ext' sw' same_on_trans [OF so1 t'(4)] by blast
  qed
qed

lemma dispatch_external_spec:
  assumes inv: "sched_inv t A" and ext: "ext_wf t" and q: "t_external_message t \<noteq> None"
    and root: "can_receive (t_services t) 1" and room: "int (card (live (t_services t))) \<le> p_mask (t_services t)"
  shows "\<exists>t'. dispatch_external_messages pack t = Some t' \<and> sched_inv t' A \<and> ext_wf t' \<and> same_workers t t'
    \<and> same_on A (t_services t) (t_services t')"
proof (cases "t_external_last_message t")
  case None
  then show ?thesis using external_finish_spec [OF assms] by (simp add: dispatch_external_messages_def)
next
  case (Some m)
  note D = sched_invD [OF inv]
  have "m_to m = 1" using ext Some by (simp add: ext_wf_def)
  with send_external_spec [OF D(2,4), of m] root obtain r P where
    sent: "send_external_message t (Some m) = Some (r, t\<lparr>t_services := P\<rparr>)" "pool_quiet (t_services t) P" by auto
  have so: "same_on A (t_services t) P" using sent(2) by (simp add: pool_quiet_def same_on_def)
  have form: "t\<lparr>t_services := P\<rparr> = t\<lparr>t_services := P, t_external_message := t_external_message t,
      t_external_last_message := t_external_last_message t\<rparr>" by simp
  show ?thesis
  proof (cases "r = 0")
    case False
    have "sched_inv (t\<lparr>t_services := P\<rparr>) A" by (subst form) (rule sched_inv_external [OF inv sent(2)])
    moreover have "same_workers t (t\<lparr>t_services := P\<rparr>)" using sent(2) by (simp add: pool_quiet_def same_workers_def)
    moreover have "ext_wf (t\<lparr>t_services := P\<rparr>)" using ext by (simp add: ext_wf_def)
    ultimately show ?thesis using Some sent(1) False so by (simp add: dispatch_external_messages_def)
  next
    case True
    let ?t1 = "t\<lparr>t_services := P, t_external_last_message := None\<rparr>"
    have "?t1 = t\<lparr>t_services := P, t_external_message := t_external_message t, t_external_last_message := None\<rparr>" by simp
    then have inv1: "sched_inv ?t1 A" using sched_inv_external [OF inv sent(2)] by (simp only:)
    have ext1: "ext_wf ?t1" using ext by (simp add: ext_wf_def)
    have room1: "int (card (live (t_services ?t1))) \<le> p_mask (t_services ?t1)"
      using room sent(2) by (simp add: pool_quiet_def live_view)
    have root1: "can_receive (t_services ?t1) 1" using root can_receive_quiet [OF sent(2)] by simp
    from external_finish_spec [OF inv1 ext1 _ root1 room1, of 1 pack] q obtain t' where
      t': "external_finish 1 pack ?t1 = Some t'" "sched_inv t' A" "ext_wf t'" "same_workers ?t1 t'"
        "same_on A (t_services ?t1) (t_services t')" by auto
    have "dispatch_external_messages pack t = Some t'"
      using Some sent(1) True t'(1) by (simp add: dispatch_external_messages_def)
    moreover have "same_workers t t'" using t'(4) sent(2) by (simp add: pool_quiet_def same_workers_def)
    ultimately show ?thesis using t'(2,3) same_on_trans [OF so] t'(5) by auto
  qed
qed

section \<open>The owner of the scheduler\<close>

lemma sum_list_alone:
  fixes g :: "'a \<Rightarrow> 'b multiset"
  assumes "k < length xs" and "\<And>l. l < length xs \<Longrightarrow> l \<noteq> k \<Longrightarrow> g (xs ! l) = {#}"
  shows "sum_list (map g xs) = g (xs ! k)"
proof -
  have "sum_list (map g xs) = (\<Sum>l = 0..<length xs. g (xs ! l))" by (simp add: sum_list_sum_nth)
  also have "\<dots> = g (xs ! k) + (\<Sum>l \<in> {0..<length xs} - {k}. g (xs ! l))"
    by (rule sum.remove) (use assms(1) in auto)
  also have "(\<Sum>l \<in> {0..<length xs} - {k}. g (xs ! l)) = {#}" by (rule sum.neutral) (use assms(2) in auto)
  finally show ?thesis by simp
qed

lemma not_owns: "\<not> owns pc \<Longrightarrow> phase_jobs pc = {#} \<and> phase_done pc = {#} \<and> slots_ok n pc"
  by (cases pc) auto

lemma owner_places:
  assumes k: "k < length (sy_pcs s)" and alone: "\<And>l. l < length (sy_pcs s) \<Longrightarrow> l \<noteq> k \<Longrightarrow> \<not> owns (pc_at s l)"
  shows "waiting_jobs s = queued (sy_task s) + phase_jobs (pc_at s k)"
    and "active_jobs s = sum_list (map hold (t_workers (sy_task s))) + phase_done (pc_at s k)"
  using sum_list_alone [OF k, of phase_jobs] sum_list_alone [OF k, of phase_done] alone not_owns
  by (simp_all add: waiting_jobs_def active_jobs_def pc_at_def)

lemma owner_alone:
  assumes inv: "sys_inv s" and k: "k < length (sy_pcs s)" and own: "owns (pc_at s k)"
    and "l < length (sy_pcs s)" "l \<noteq> k"
  shows "\<not> owns (pc_at s l)"
  using sys_invD(6) [OF inv k] sys_invD(6) [OF inv assms(4)] own assms(5) by auto

lemma sys_sched_inv:
  assumes inv: "sys_inv s" and k: "k < length (sy_pcs s)" and own: "owns (pc_at s k)"
    and "phase_jobs (pc_at s k) = {#}"
  shows "sched_inv (sy_task s) (active_jobs s)"
  using sys_invD(1,2,4) [OF inv] owner_places(1) [OF k owner_alone [OF inv k own]] assms(4)
  by (simp add: sched_inv_core)

text \<open>A step of the only thread that may own the scheduler.\<close>

lemma owner_step:
  assumes inv: "sys_inv s" and k: "k < length (sy_pcs s)"
    and alone: "\<And>l. l < length (sy_pcs s) \<Longrightarrow> l \<noteq> k \<Longrightarrow> \<not> owns (pc_at s l)"
    and t: "sched_wf t" "q_size (t_schedule t) = p_mask (t_services t) + 1" "ext_wf t"
    and core: "core (t_services t) (queued t + phase_jobs pc) (sum_list (map hold (t_workers t)) + phase_done pc)"
    and len: "length (t_workers t) = length (t_workers (sy_task s))"
    and workers: "\<And>l. l < length (t_workers t) \<Longrightarrow> w_running (t_workers t ! l) = w_running (t_workers (sy_task s) ! l)
        \<and> w_service_done (t_workers t ! l) \<in> {0, w_service_done (t_workers (sy_task s) ! l)}"
    and same: "same_on (sum_list (map hold (t_workers t))) (t_services (sy_task s)) (t_services t)"
    and owner: "t_schedule_owner t = (if owns pc then int k else -1)"
    and self: "thread_ok (t_services t) (t_workers t ! k) pc" "slots_ok (nfree t) pc"
  shows "sys_inv (put s k t pc)"
proof (rule put_inv [OF inv k t])
  note D = sys_invD [OF inv]
  have "l < length (sy_pcs (put s k t pc)) \<Longrightarrow> l \<noteq> k \<Longrightarrow> \<not> owns (pc_at (put s k t pc) l)" for l
    using alone by simp
  from owner_places [OF _ this] k core
  show "core (t_services t) (waiting_jobs (put s k t pc)) (active_jobs (put s k t pc))" by simp
  show "length (t_workers t) = length (t_workers (sy_task s))" by (rule len)
  show "(owns pc \<longleftrightarrow> t_schedule_owner t = int k) \<and> thread_ok (t_services t) (t_workers t ! k) pc
        \<and> slots_ok (nfree t) pc" using owner self by simp
  fix l assume l: "l < length (sy_pcs s)" "l \<noteq> k"
  have lw: "l < length (t_workers t)" using l(1) D(5) len by simp
  note no = not_owns [OF alone [OF l]]
  let ?w = "t_workers t ! l"
  have "worker_wf ?w" using t(1) lw by (simp add: sched_wf_def)
  have "same_on (hold ?w) (t_services (sy_task s)) (t_services t)"
    using same nth_mem [OF lw] by (auto simp: same_on_def)
  then have so: "same_on (hold ?w + phase_done (pc_at s l)) (t_services (sy_task s)) (t_services t)" by (simp only: no) simp
  have "thread_ok (t_services (sy_task s)) ?w (pc_at s l)"
    using D(7) [OF l(1)] workers [OF lw] by (auto simp: thread_ok_def)
  from thread_ok_same [OF this so] \<open>worker_wf ?w\<close>
  have "thread_ok (t_services t) ?w (pc_at s l)" by (simp add: worker_wf_def)
  moreover have "t_schedule_owner t \<noteq> int l" using owner l(2) by simp
  moreover have "slots_ok (nfree t) (pc_at s l)" using not_owns [OF alone [OF l]] by blast
  ultimately show "(owns (pc_at s l) \<longleftrightarrow> t_schedule_owner t = int l)
        \<and> thread_ok (t_services t) ?w (pc_at s l) \<and> slots_ok (nfree t) (pc_at s l)"
    using alone [OF l] by blast
qed

lemma thread_ok_core: "w_core w' = w_core w \<Longrightarrow> thread_ok P w' pc = thread_ok P w pc"
  by (simp add: thread_ok_def w_core_def)

lemma moves_worker:
  assumes "moves t t'" and "l < length (t_workers t)"
  shows "w_core (t_workers t' ! l) = w_core (t_workers t ! l)" and "length (t_workers t') = length (t_workers t)"
proof -
  have m: "map w_core (t_workers t') = map w_core (t_workers t)" using assms(1) by (simp add: moves_def)
  then show len: "length (t_workers t') = length (t_workers t)" by (rule map_eq_imp_length_eq)
  show "w_core (t_workers t' ! l) = w_core (t_workers t ! l)"
    using arg_cong [OF m, of "\<lambda>xs. xs ! l"] assms(2) len by simp
qed

lemma moves_step:
  assumes inv: "sys_inv s" and k: "k < length (sy_pcs s)" and pc: "pc_at s k = TRound r ph"
    and m: "moves (sy_task s) t" and jobs: "queued t + phase_jobs pc' = queued (sy_task s) + phase_jobs (TRound r ph)"
    and none: "phase_done (TRound r ph) = {#}" "phase_done pc' = {#}" "0 \<notin># phase_jobs pc'"
    and own: "owns pc'" and ok: "\<And>P x. pc_ok P x (TRound r ph) \<Longrightarrow> pc_ok P x pc'"
    and slots: "slots_ok (nfree t) pc'"
  shows "sys_inv (put s k t pc')"
proof -
  note D = sys_invD [OF inv]
  have o: "owns (pc_at s k)" using pc by simp
  note alone = owner_alone [OF inv k o] and places = owner_places [OF k owner_alone [OF inv k o]]
  have kw: "k < length (t_workers (sy_task s))" using k D(5) by simp
  have h: "map hold (t_workers t) = map hold (t_workers (sy_task s))"
    using m by (intro hold_core) (simp add: moves_def)
  have sv: "t_services t = t_services (sy_task s)" "q_size (t_schedule t) = q_size (t_schedule (sy_task s))"
    "t_schedule_owner t = t_schedule_owner (sy_task s)"
    using m by (simp_all add: moves_def)
  show ?thesis
  proof (rule owner_step [OF inv k alone moves_wf [OF m]])
    show "q_size (t_schedule t) = p_mask (t_services t) + 1" using D(2) sv by simp
    show "ext_wf t" using D(3) m by (simp add: ext_wf_def moves_def)
    show "core (t_services t) (queued t + phase_jobs pc') (sum_list (map hold (t_workers t)) + phase_done pc')"
      using D(4) places jobs none pc h sv(1) by simp
    show "length (t_workers t) = length (t_workers (sy_task s))" by (rule moves_worker(2) [OF m kw])
    show "w_running (t_workers t ! l) = w_running (t_workers (sy_task s) ! l)
        \<and> w_service_done (t_workers t ! l) \<in> {0, w_service_done (t_workers (sy_task s) ! l)}"
      if "l < length (t_workers t)" for l
      using that moves_worker [OF m, of l] moves_worker(2) [OF m kw] by (simp add: w_core_def)
    show "t_schedule_owner t = (if owns pc' then int k else - 1)" using own D(6) [OF k] o sv(3) by simp
    have "thread_ok (t_services (sy_task s)) (t_workers (sy_task s) ! k) pc'"
      using D(7) [OF k] ok none pc by (simp add: thread_ok_def)
    then show "thread_ok (t_services t) (t_workers t ! k) pc'"
      using thread_ok_core [OF moves_worker(1) [OF m kw]] sv(1) by simp
  qed (use slots sv in simp_all)
qed

lemma pc_ok_round:
  "pc_ok P x (TRound r ph) \<Longrightarrow> inner_phase ph' \<Longrightarrow> pc_ok P x (TRound r ph')"
  "pc_ok P x (TRound r PhTouch) \<Longrightarrow> pc_ok P x (end_round r)"
  by (cases r; simp add: end_round_def)+

lemma owner_waiting:
  assumes inv: "sys_inv s" and k: "k < length (sy_pcs s)" and pc: "pc_at s k = TRound r ph"
  shows "waiting_jobs s = queued (sy_task s) + phase_jobs (TRound r ph)"
    and "count (queued (sy_task s) + phase_jobs (TRound r ph)) i \<le> 1"
    and "0 \<notin># phase_jobs (TRound r ph)" and "0 \<notin># phase_done (TRound r ph)"
proof -
  have o: "owns (pc_at s k)" using pc by simp
  show w: "waiting_jobs s = queued (sy_task s) + phase_jobs (TRound r ph)"
    using owner_places(1) [OF k owner_alone [OF inv k o]] pc by simp
  show "count (queued (sy_task s) + phase_jobs (TRound r ph)) i \<le> 1"
    using coreD(3) [OF sys_invD(4) [OF inv], of i] w by simp
  show "0 \<notin># phase_jobs (TRound r ph)" "0 \<notin># phase_done (TRound r ph)"
    using sys_invD(7) [OF inv k] pc by (simp_all add: thread_ok_def)
qed

section \<open>The phases that only move jobs\<close>

lemma step_pending:
  assumes inv: "sys_inv s" and k: "k < length (sy_pcs s)" and pc: "pc_at s k = TRound r PhPending"
  shows "\<exists>jobs t. round_step fails pack n r PhPending (sy_task s) = Some (TRound r (PhCount jobs), t)
    \<and> sys_inv (put s k t (TRound r (PhCount jobs)))"
proof -
  from get_pending_jobs_spec [OF sys_invD(1) [OF inv], of fails] obtain jobs t where
    t: "get_pending_jobs fails (sy_task s) = Some (jobs, t)" "moves (sy_task s) t" "0 \<notin> set jobs"
      "queued t + mset jobs = queued (sy_task s)" by auto
  have "sys_inv (put s k t (TRound r (PhCount jobs)))"
    by (rule moves_step [OF inv k pc t(2)]) (use t(3,4) pc_ok_round in simp_all)
  with t(1) show ?thesis by simp
qed

lemma step_count:
  assumes inv: "sys_inv s" and k: "k < length (sy_pcs s)" and pc: "pc_at s k = TRound r (PhCount jobs)"
  shows "\<exists>t. round_step fails pack n r (PhCount jobs) (sy_task s) =
      Some (if length jobs \<le> nfree (sy_task s)
            then TRound r (PhPrepare jobs (int (nfree (sy_task s)) - int (length jobs))) else TSlots jobs, t)
    \<and> sys_inv (put s k t (if length jobs \<le> nfree (sy_task s)
            then TRound r (PhPrepare jobs (int (nfree (sy_task s)) - int (length jobs))) else TSlots jobs))"
proof -
  from count_freeslot_spec [OF sys_invD(1) [OF inv]] obtain t where
    t: "count_freeslot (sy_task s) = Some (int (nfree (sy_task s)), t)" "moves (sy_task s) t"
      "queued t = queued (sy_task s)" "nfree t = nfree (sy_task s)" by auto
  have "sys_inv (put s k t (if length jobs \<le> nfree (sy_task s)
            then TRound r (PhPrepare jobs (int (nfree (sy_task s)) - int (length jobs))) else TSlots jobs))"
    by (rule moves_step [OF inv k pc t(2)])
      (use t(3,4) pc_ok_round owner_waiting(3) [OF inv k pc] in \<open>simp_all split: if_splits\<close>)
  with t(1) show ?thesis by simp
qed

lemma step_prepare:
  assumes inv: "sys_inv s" and k: "k < length (sy_pcs s)" and pc: "pc_at s k = TRound r (PhPrepare jobs m)"
  shows "\<exists>jobs' t. round_step fails pack n r (PhPrepare jobs m) (sy_task s) = Some (TRound r (PhAssign jobs'), t)
    \<and> sys_inv (put s k t (TRound r (PhAssign jobs')))"
proof -
  have sl: "0 \<le> m" "int (length jobs) + m \<le> int (nfree (sy_task s))"
    using sys_invD(8) [OF inv k] pc by simp_all
  have nz: "0 \<notin> set jobs" using owner_waiting(3) [OF inv k pc] by simp
  from prepare_loop_spec [OF sys_invD(1) [OF inv] nz, of m 0] sl obtain jobs' t where
    t: "prepare_task (sy_task s) jobs m = Some (jobs', t)" "moves (sy_task s) t"
      "queued t + mset jobs' = queued (sy_task s) + mset jobs" "0 \<notin> set jobs'" "length jobs' \<le> nfree t"
    by (auto simp: prepare_task_def)
  have "sys_inv (put s k t (TRound r (PhAssign jobs')))"
    by (rule moves_step [OF inv k pc t(2)]) (use t(3-5) pc_ok_round in simp_all)
  with t(1) show ?thesis by simp
qed

lemma step_assign:
  assumes inv: "sys_inv s" and k: "k < length (sy_pcs s)" and pc: "pc_at s k = TRound r (PhAssign jobs)"
  shows "\<exists>t. round_step fails pack n r (PhAssign jobs) (sy_task s) = Some (TRound r PhTouch, t)
    \<and> sys_inv (put s k t (TRound r PhTouch))"
proof -
  have sl: "length jobs \<le> nfree (sy_task s)" using sys_invD(8) [OF inv k] pc by simp
  have nz: "0 \<notin> set jobs" using owner_waiting(3) [OF inv k pc] by simp
  have le: "\<forall>i. count (queued (sy_task s) + mset jobs) i \<le> 1" using owner_waiting(2) [OF inv k pc] by simp
  from assign_prepare_task_spec [OF sys_invD(1) [OF inv] nz le sl] obtain t where
    t: "assign_prepare_task (sy_task s) jobs = Some t" "moves (sy_task s) t"
      "queued t = queued (sy_task s) + mset jobs" by blast
  have "sys_inv (put s k t (TRound r PhTouch))"
    by (rule moves_step [OF inv k pc t(2)]) (use t(3) pc_ok_round in simp_all)
  with t(1) show ?thesis by simp
qed

lemma step_touch:
  assumes inv: "sys_inv s" and k: "k < length (sy_pcs s)" and pc: "pc_at s k = TRound r PhTouch"
  shows "\<exists>t. round_step fails pack n r PhTouch (sy_task s) = Some (end_round r, t)
    \<and> sys_inv (put s k t (end_round r))"
proof -
  from trigger_blocked_workers_spec [OF sys_invD(1) [OF inv]] obtain t where
    t: "trigger_blocked_workers (sy_task s) = Some t" "moves (sy_task s) t" "queued t = queued (sy_task s)" by blast
  have e: "phase_jobs (end_round r) = {#}" "phase_done (end_round r) = {#}" "owns (end_round r)"
    "slots_ok m (end_round r)" for m
    by (cases r; simp add: end_round_def)+
  have "sys_inv (put s k t (end_round r))"
    by (rule moves_step [OF inv k pc t(2)]) (use t(3) e pc_ok_round(2) in simp_all)
  with t(1) show ?thesis by simp
qed

lemma step_find:
  assumes inv: "sys_inv s" and k: "k < length (sy_pcs s)" and pc: "pc_at s k = TRound r PhFind"
  shows "\<exists>m t. round_step fails pack (int k) r PhFind (sy_task s) = Some (TRound r (PhRelease m), t)
    \<and> sys_inv (put s k t (TRound r (PhRelease m)))"
proof -
  have n: "int k < c_worker (t_config (sy_task s))"
    using worker_at_wf(4) [OF sys_invD(1) [OF inv] sys_worker(1) [OF inv k]] .
  from find_job_spec [OF sys_invD(1) [OF inv] _ n] obtain m t where
    t: "find_job fails (int k) (sy_task s) = Some (m, t)" "moves (sy_task s) t" "queued t = queued (sy_task s)"
    by fastforce
  have "sys_inv (put s k t (TRound r (PhRelease m)))"
    by (rule moves_step [OF inv k pc t(2)]) (use t(3) in \<open>cases r; simp\<close>)+
  with t(1) show ?thesis by simp
qed

lemma step_release:
  assumes inv: "sys_inv s" and k: "k < length (sy_pcs s)" and pc: "pc_at s k = TRound r (PhRelease m)"
  shows "\<exists>pc' t. round_step fails pack (int k) r (PhRelease m) (sy_task s) = Some (pc', t)
    \<and> sys_inv (put s k t pc') \<and> \<not> owns pc'"
proof -
  note D = sys_invD [OF inv]
  have o: "owns (pc_at s k)" using pc by simp
  note alone = owner_alone [OF inv k o] and places = owner_places [OF k owner_alone [OF inv k o]]
  let ?t = "(sy_task s)\<lparr>t_schedule_owner := -1\<rparr>"
  let ?pc = "case r of RIdle n \<Rightarrow> TRetry m | _ \<Rightarrow> TTop"
  have r: "r \<noteq> RInner i" for i using D(7) [OF k] pc by (cases r) (auto simp: thread_ok_def)
  have run: "w_running (t_workers (sy_task s) ! k) = 0" using D(7) [OF k] pc r by (cases r) (auto simp: thread_ok_def)
  have "sys_inv (put s k ?t ?pc)"
  proof (rule owner_step [OF inv k alone])
    show "core (t_services ?t) (queued ?t + phase_jobs ?pc) (sum_list (map hold (t_workers ?t)) + phase_done ?pc)"
      using D(4) places pc by (cases r) (simp_all add: queued_def run_queue_def)
    show "thread_ok (t_services ?t) (t_workers ?t ! k) ?pc"
      using D(7) [OF k] run pc by (cases r) (simp_all add: thread_ok_def)
  qed (use D(1-3,5) r in \<open>cases r; simp add: ext_wf_def sched_wf_def\<close>)+
  moreover have "round_step fails pack (int k) r (PhRelease m) (sy_task s) = Some (?pc, ?t)"
    using D(6) [OF k] o by (simp add: release_scheduler_def)
  moreover have "\<not> owns ?pc" by (cases r) simp_all
  ultimately show ?thesis by blast
qed

section \<open>The phases that collect and dispatch\<close>

lemma collect_done_loop_spec:
  assumes "sched_wf t" and "\<forall>n \<in> set ns. 0 \<le> n \<and> n < c_worker (t_config t)"
    and "int (length jobs + length ns) \<le> MAX_WORKER" and "0 \<notin> set jobs"
  shows "\<exists>jobs' ws. collect_done_loop t jobs ns = Some (jobs', t\<lparr>t_workers := ws\<rparr>)
    \<and> length ws = length (t_workers t)
    \<and> (\<forall>l < length ws. ws ! l \<in> {t_workers t ! l, (t_workers t ! l)\<lparr>w_service_done := 0\<rparr>})
    \<and> mset jobs' + sum_list (map hold ws) = mset jobs + sum_list (map hold (t_workers t))
    \<and> 0 \<notin> set jobs'
    \<and> (\<forall>i \<in> set jobs'. i \<in> set jobs \<or> (\<exists>l < length ws. w_service_done (t_workers t ! l) \<noteq> 0
          \<and> i = id_of_int (w_service_done (t_workers t ! l))))"
  using assms
proof (induction ns arbitrary: t jobs)
  case Nil
  then show ?case by (intro exI [of _ jobs] exI [of _ "t_workers t"]) simp
next
  case (Cons n ns)
  let ?w = "t_workers t ! nat n"
  have n: "0 \<le> n" "n < c_worker (t_config t)" using Cons.prems(2) by auto
  note w = sched_wf_worker [OF Cons.prems(1) n]
  show ?case
  proof (cases "w_service_done ?w = 0")
    case True
    have "set_worker t n ?w = t" using w(4) n by (simp add: set_worker_def)
    then have "collect_done_loop t jobs (n # ns) = collect_done_loop t jobs ns"
      using w(1) True by (simp add: worker_done_job_def Let_def)
    then show ?thesis using Cons.IH [OF Cons.prems(1)] Cons.prems(2-4) by simp
  next
    case False
    let ?i = "id_of_int (w_service_done ?w)" and ?w1 = "?w\<lparr>w_service_done := 0\<rparr>"
    let ?ws = "(t_workers t)[nat n := ?w1]"
    let ?t1 = "t\<lparr>t_workers := ?ws\<rparr>"
    have i: "?i \<noteq> 0" using w(2) False by (simp add: worker_wf_def id_of_int_eq_0)
    have wf1: "sched_wf ?t1"
    proof -
      have "worker_wf (?ws ! m) \<and> w_worker_id (?ws ! m) = int m" if "m < length (t_workers t)" for m
        using that Cons.prems(1) w(2,3) n by (cases "m = nat n") (simp_all add: sched_wf_def worker_wf_def)
      then show ?thesis using Cons.prems(1) by (simp add: sched_wf_def)
    qed
    have "sum_list (map hold ?ws) + hold ?w = sum_list (map hold (t_workers t)) + hold ?w1"
      using sum_list_slot_update [OF w(4), of hold ?w1] .
    moreover have "hold ?w = hold ?w1 + {#?i#}" using i by (simp add: hold_def)
    ultimately have "(sum_list (map hold ?ws) + {#?i#}) + hold ?w1 = sum_list (map hold (t_workers t)) + hold ?w1"
      by (simp add: ac_simps)
    then have h1: "sum_list (map hold ?ws) + {#?i#} = sum_list (map hold (t_workers t))" by (rule add_right_imp_eq)
    have "\<forall>m \<in> set ns. 0 \<le> m \<and> m < c_worker (t_config ?t1)" "0 \<notin> set (jobs @ [?i])"
      "int (length (jobs @ [?i]) + length ns) \<le> MAX_WORKER" using Cons.prems(2-4) i by auto
    from Cons.IH [OF wf1 this(1,3,2)] obtain jobs' ws where
      IH: "collect_done_loop ?t1 (jobs @ [?i]) ns = Some (jobs', ?t1\<lparr>t_workers := ws\<rparr>)"
        "length ws = length ?ws" "\<forall>l < length ws. ws ! l \<in> {?ws ! l, (?ws ! l)\<lparr>w_service_done := 0\<rparr>}"
        "mset jobs' + sum_list (map hold ws) = mset (jobs @ [?i]) + sum_list (map hold ?ws)" "0 \<notin> set jobs'"
        "\<forall>j \<in> set jobs'. j \<in> set (jobs @ [?i]) \<or> (\<exists>l < length ws. w_service_done (?ws ! l) \<noteq> 0
          \<and> j = id_of_int (w_service_done (?ws ! l)))" by auto
    have "collect_done_loop t jobs (n # ns) = Some (jobs', t\<lparr>t_workers := ws\<rparr>)"
      using w(1) False i IH(1) Cons.prems(3)
      by (simp add: worker_done_job_def Let_def jobs_push_def set_worker_def)
    moreover have "ws ! l \<in> {t_workers t ! l, (t_workers t ! l)\<lparr>w_service_done := 0\<rparr>}" if "l < length ws" for l
      using IH(3) [rule_format, OF that] w(4) by (cases "l = nat n") auto
    moreover have "mset jobs' + sum_list (map hold ws) = mset jobs + sum_list (map hold (t_workers t))"
      using IH(4) h1 by (simp add: ac_simps)
    moreover have "j \<in> set jobs \<or> (\<exists>l < length ws. w_service_done (t_workers t ! l) \<noteq> 0
          \<and> j = id_of_int (w_service_done (t_workers t ! l)))" if "j \<in> set jobs'" for j
      using IH(6) [rule_format, OF that] IH(2) w(4) False by (auto simp: nth_list_update split: if_splits)
    ultimately show ?thesis using IH(2,5) by (intro exI [of _ jobs'] exI [of _ ws]) simp
  qed
qed

lemma step_collect:
  assumes inv: "sys_inv s" and k: "k < length (sy_pcs s)" and pc: "pc_at s k = TRound r PhCollect"
  shows "\<exists>jobs t. round_step fails pack n r PhCollect (sy_task s) = Some (TRound r (PhDispatch jobs), t)
    \<and> sys_inv (put s k t (TRound r (PhDispatch jobs)))"
proof -
  note D = sys_invD [OF inv]
  let ?t = "sy_task s"
  have o: "owns (pc_at s k)" using pc by simp
  note alone = owner_alone [OF inv k o] and places = owner_places [OF k owner_alone [OF inv k o]]
  have c: "c_worker (t_config ?t) \<le> MAX_WORKER" using D(1) by (simp add: sched_wf_def)
  have rng: "\<forall>n \<in> set (worker_ids ?t). 0 \<le> n \<and> n < c_worker (t_config ?t)" using worker_ids_range [OF D(1)] by blast
  have le: "int (length ([] :: service_id list) + length (worker_ids ?t)) \<le> MAX_WORKER" using c by simp
  from collect_done_loop_spec [OF D(1) rng le] obtain jobs ws where
    col: "collect_done_job ?t = Some (jobs, ?t\<lparr>t_workers := ws\<rparr>)" and len: "length ws = length (t_workers ?t)"
    and ws: "\<And>l. l < length ws \<Longrightarrow> ws ! l \<in> {t_workers ?t ! l, (t_workers ?t ! l)\<lparr>w_service_done := 0\<rparr>}"
    and hold: "mset jobs + sum_list (map hold ws) = sum_list (map hold (t_workers ?t))"
    and nz: "0 \<notin> set jobs"
    and came: "\<And>i. i \<in> set jobs \<Longrightarrow> \<exists>l < length ws. w_service_done (t_workers ?t ! l) \<noteq> 0
          \<and> i = id_of_int (w_service_done (t_workers ?t ! l))"
    unfolding collect_done_job_def by fastforce
  let ?t' = "?t\<lparr>t_workers := ws\<rparr>" and ?pc = "TRound r (PhDispatch jobs)"
  have kw: "k < length ws" using k D(5) len by simp
  have fin: "finished (t_services ?t) i" if i: "i \<in> set jobs" for i
  proof -
    from came [OF i] obtain l where l: "l < length ws" "w_service_done (t_workers ?t ! l) \<noteq> 0"
      "i = id_of_int (w_service_done (t_workers ?t ! l))" by blast
    then show ?thesis using D(7) [of l] D(5) len by (simp add: thread_ok_def)
  qed
  have wf: "sched_wf ?t'"
  proof -
    have "worker_wf (ws ! l) \<and> w_worker_id (ws ! l) = int l" if "l < length ws" for l
      using ws [OF that] that D(1) len by (auto simp: sched_wf_def worker_wf_def)
    then show ?thesis using D(1) len by (simp add: sched_wf_def)
  qed
  have q: "queued ?t' = queued ?t"
  proof -
    have "map worker_jobs ws = map worker_jobs (t_workers ?t)"
      using ws len by (intro nth_equalityI) (fastforce simp: worker_jobs_def)+
    then show ?thesis by (simp add: queued_def run_queue_def)
  qed
  have "sys_inv (put s k ?t' ?pc)"
  proof (rule owner_step [OF inv k alone wf])
    have "sum_list (map hold ws) + mset jobs = sum_list (map hold (t_workers ?t))" using hold by (simp add: ac_simps)
    then show "core (t_services ?t') (queued ?t' + phase_jobs ?pc) (sum_list (map hold (t_workers ?t')) + phase_done ?pc)"
      using D(4) places pc q by simp
    show "w_running (t_workers ?t' ! l) = w_running (t_workers ?t ! l)
        \<and> w_service_done (t_workers ?t' ! l) \<in> {0, w_service_done (t_workers ?t ! l)}"
      if "l < length (t_workers ?t')" for l
      using ws [of l] that by auto
    show "thread_ok (t_services ?t') (t_workers ?t' ! k) ?pc"
      using D(7) [OF k] pc ws [OF kw] fin nz pc_ok_round(1) [of _ _ r PhCollect "PhDispatch jobs"]
      by (auto simp: thread_ok_def)
  qed (use D(2,3) D(6) [OF k] o len in \<open>simp_all add: ext_wf_def\<close>)
  then show ?thesis using col by simp
qed

text \<open>A phase that dispatches: the workers stay, the pool and the run queue change.\<close>

lemma dispatch_step:
  assumes inv: "sys_inv s" and k: "k < length (sy_pcs s)" and pc: "pc_at s k = TRound r ph"
    and ph: "inner_phase ph'" "phase_jobs (TRound r ph') = {#}" "slots_ok (nfree t) (TRound r ph')"
    and A: "active_jobs s = sum_list (map hold (t_workers (sy_task s))) + phase_done (TRound r ph') + J"
    and t: "sched_inv t (sum_list (map hold (t_workers (sy_task s))) + phase_done (TRound r ph'))" "ext_wf t"
    and w: "same_workers (sy_task s) t"
    and same: "same_on (sum_list (map hold (t_workers (sy_task s))) + phase_done (TRound r ph'))
        (t_services (sy_task s)) (t_services t)"
    and sub: "phase_done (TRound r ph') \<subseteq># phase_done (TRound r ph)"
  shows "sys_inv (put s k t (TRound r ph'))"
proof -
  note D = sys_invD [OF inv]
  let ?pc = "TRound r ph'"
  have o: "owns (pc_at s k)" using pc by simp
  note alone = owner_alone [OF inv k o]
  have tw: "t_workers t = t_workers (sy_task s)" "t_schedule_owner t = t_schedule_owner (sy_task s)"
    using w by (simp_all add: same_workers_def)
  have kw: "k < length (t_workers (sy_task s))" using k D(5) by simp
  let ?w = "t_workers (sy_task s) ! k"
  show ?thesis
  proof (rule owner_step [OF inv k alone])
    show "sched_wf t" "q_size (t_schedule t) = p_mask (t_services t) + 1"
      "core (t_services t) (queued t + phase_jobs ?pc) (sum_list (map hold (t_workers t)) + phase_done ?pc)"
      using t(1) ph(2) by (simp_all add: sched_inv_core tw)
    show "same_on (sum_list (map hold (t_workers t))) (t_services (sy_task s)) (t_services t)"
      using same_on_mono [OF same] tw by simp
    have "0 \<notin># phase_done ?pc"
      using owner_waiting(4) [OF inv k pc] mset_subset_eqD [OF sub] by blast
    then have ok: "thread_ok (t_services (sy_task s)) ?w ?pc"
      using D(7) [OF k] pc pc_ok_round(1) [OF _ ph(1)] mset_subset_eqD [OF sub] ph(2)
      by (auto simp: thread_ok_def)
    have "same_on (hold ?w + phase_done ?pc) (t_services (sy_task s)) (t_services t)"
      using same nth_mem [OF kw] by (auto simp: same_on_def)
    from thread_ok_same [OF ok this] sys_worker(2) [OF inv k]
    show "thread_ok (t_services t) (t_workers t ! k) ?pc" by (simp add: tw worker_wf_def)
  qed (use t(2) ph(3) D(6) [OF k] o in \<open>simp_all add: tw\<close>)
qed

lemma step_external:
  assumes inv: "sys_inv s" and k: "k < length (sy_pcs s)" and pc: "pc_at s k = TRound r PhExternal"
    and ok: "phase_ok s PhExternal"
  shows "\<exists>t. round_step fails pack n r PhExternal (sy_task s) = Some (TRound r PhCollect, t)
    \<and> sys_inv (put s k t (TRound r PhCollect))"
proof -
  note D = sys_invD [OF inv]
  let ?t = "sy_task s"
  have o: "owns (pc_at s k)" using pc by simp
  have sinv: "sched_inv ?t (active_jobs s)" by (rule sys_sched_inv [OF inv k o]) (simp add: pc)
  have A: "active_jobs s = sum_list (map hold (t_workers ?t))"
    using owner_places(2) [OF k owner_alone [OF inv k o]] pc by simp
  have go: "sys_inv (put s k t (TRound r PhCollect))"
    if "sched_inv t (active_jobs s)" "ext_wf t" "same_workers ?t t" "same_on (active_jobs s) (t_services ?t) (t_services t)" for t
    by (rule dispatch_step [OF inv k pc, of PhCollect t "{#}"]) (use that A in simp_all)
  show ?thesis
  proof (cases "t_external_message ?t = None")
    case True
    then show ?thesis using go [OF sinv D(3)] by (simp add: same_workers_def)
  next
    case False
    from ok False have "can_receive (t_services ?t) 1" "int (card (live (t_services ?t))) \<le> p_mask (t_services ?t)"
      by (auto simp: can_receive_def table_room_def)
    from dispatch_external_spec [OF sinv D(3) False this, of pack] obtain t where
      "dispatch_external_messages pack ?t = Some t" "sched_inv t (active_jobs s)" "ext_wf t" "same_workers ?t t"
      "same_on (active_jobs s) (t_services ?t) (t_services t)" by blast
    then show ?thesis using False go by simp
  qed
qed

lemma step_dispatch:
  assumes inv: "sys_inv s" and k: "k < length (sy_pcs s)" and pc: "pc_at s k = TRound r (PhDispatch (i # js))"
    and ok: "phase_ok s (PhDispatch (i # js))"
  shows "\<exists>t. round_step fails pack n r (PhDispatch (i # js)) (sy_task s) = Some (TRound r (PhDispatch js), t)
    \<and> sys_inv (put s k t (TRound r (PhDispatch js)))"
proof -
  note D = sys_invD [OF inv]
  let ?t = "sy_task s" and ?A = "sum_list (map hold (t_workers (sy_task s))) + mset js"
  have o: "owns (pc_at s k)" using pc by simp
  have A: "active_jobs s = ?A + {#i#}"
    using owner_places(2) [OF k owner_alone [OF inv k o]] pc by simp
  have sinv: "sched_inv ?t (?A + {#i#})"
    using sys_sched_inv [OF inv k o] pc A by simp
  have fin: "finished (t_services ?t) i" using D(7) [OF k] pc by (simp add: thread_ok_def)
  have room: "table_room ?t" using ok by simp
  have "\<exists>t. dispatch_done ?t i = Some t \<and> sched_inv t ?A \<and> same_threads ?t t
    \<and> same_on ?A (t_services ?t) (t_services t)"
  proof (cases "service_status_get (t_services ?t) i = SERVICE_STATUS_DEAD")
    case True
    then have "out_of (t_services ?t) i = Some (signal_message i)" using fin by (simp add: finished_def)
    from dispatch_dead_spec [OF sinv True this] True ok room
    show ?thesis by (simp add: dispatch_done_def table_room_def)
  next
    case False
    then have st: "service_status_get (t_services ?t) i = SERVICE_STATUS_DONE" using fin by (simp add: finished_def)
    have "message_ok ?t (?A + {#i#}) i m" if "out_of (t_services ?t) i = Some m" for m
      using ok False that A by simp
    from dispatch_alive_spec [OF sinv st this room] show ?thesis by (simp add: dispatch_done_def st)
  qed
  then obtain t where t: "dispatch_done ?t i = Some t" "sched_inv t ?A" "same_threads ?t t"
    "same_on ?A (t_services ?t) (t_services t)" by blast
  have "ext_wf t" "same_workers ?t t"
    using t(3) D(3) by (simp_all add: same_threads_def same_workers_def ext_wf_def)
  then have "sys_inv (put s k t (TRound r (PhDispatch js)))"
    by (intro dispatch_step [OF inv k pc, of "PhDispatch js" t "{#i#}"]) (use t A in simp_all)
  with t(1) show ?thesis by simp
qed

lemma step_dispatched:
  assumes inv: "sys_inv s" and k: "k < length (sy_pcs s)" and pc: "pc_at s k = TRound r (PhDispatch [])"
  shows "sys_inv (put s k (sy_task s) (TRound r PhPending))"
  by (rule moves_step [OF inv k pc moves_refl [OF sys_invD(1) [OF inv]]]) (simp_all add: pc_ok_round)

text \<open>Every phase of every round.\<close>

lemma step_round:
  assumes inv: "sys_inv s" and k: "k < length (sy_pcs s)" and pc: "pc_at s k = TRound r ph" and ok: "phase_ok s ph"
  shows "\<exists>pc' t. round_step fails pack (int k) r ph (sy_task s) = Some (pc', t) \<and> sys_inv (put s k t pc')"
proof (cases ph)
  case PhExternal
  then show ?thesis using step_external [OF inv k] pc ok by blast
next
  case PhCollect
  then show ?thesis using step_collect [OF inv k] pc by blast
next
  case (PhDispatch js)
  show ?thesis
  proof (cases js)
    case Nil
    then show ?thesis using step_dispatched [OF inv k] pc PhDispatch by simp
  next
    case (Cons i is')
    then show ?thesis using step_dispatch [OF inv k] pc ok PhDispatch by blast
  qed
next
  case PhPending
  then show ?thesis using step_pending [OF inv k] pc by blast
next
  case (PhCount jobs)
  then show ?thesis using step_count [OF inv k] pc by blast
next
  case (PhPrepare jobs m)
  then show ?thesis using step_prepare [OF inv k] pc by blast
next
  case (PhAssign jobs)
  then show ?thesis using step_assign [OF inv k] pc by blast
next
  case PhTouch
  then show ?thesis using step_touch [OF inv k] pc by blast
next
  case PhFind
  then show ?thesis using step_find [OF inv k] pc by blast
next
  case (PhRelease m)
  then show ?thesis using step_release [OF inv k] pc by blast
qed

end
