(* ===== verification/ThreadSafe.thy ===== *)
theory ThreadSafe
  imports ThreadRounds
begin

text \<open>
  The rest of the steps, and what holds in every state the threads can reach from the start:
  no assertion fails, no service is in two places, one thread schedules at a time.
\<close>

section \<open>Acquiring the scheduler and idling\<close>

lemma acquire_cases:
  assumes "acquire_scheduler fails n t = (r, t')"
  shows "(r = 0 \<and> t_schedule_owner t = -1 \<and> t' = t\<lparr>t_schedule_owner := n\<rparr>) \<or> (r = 1 \<and> t' = t)"
  using assms by (auto simp: acquire_scheduler_def atomic_int_cas_def split: if_splits)

lemma step_acquire:
  assumes inv: "sys_inv s" and k: "k < length (sy_pcs s)"
    and pc: "pc_at s k = TAcquire i \<and> pc' = TOwner i \<or> pc_at s k = TNoJob n \<and> pc' = TRound (RIdle n) PhExternal"
    and acq: "acquire_scheduler fails (int k) (sy_task s) = (0, t)"
  shows "sys_inv (put s k t pc')"
proof -
  note D = sys_invD [OF inv]
  from acquire_cases [OF acq] have t: "t_schedule_owner (sy_task s) = -1" "t = (sy_task s)\<lparr>t_schedule_owner := int k\<rparr>"
    by auto
  have none: "\<not> owns (pc_at s l)" if "l < length (sy_pcs s)" for l using D(6) [OF that] t(1) by simp
  note places = owner_places [OF k none]
  show ?thesis
  proof (rule owner_step [OF inv k none])
    show "core (t_services t) (queued t + phase_jobs pc') (sum_list (map hold (t_workers t)) + phase_done pc')"
      using D(4) places pc t(2) by (auto simp: queued_def run_queue_def)
    show "thread_ok (t_services t) (t_workers t ! k) pc'" using D(7) [OF k] pc t(2) by (auto simp: thread_ok_def)
    show "t_schedule_owner t = (if owns pc' then int k else - 1)" using t pc by auto
    show "slots_ok (nfree t) pc'" using pc by auto
  qed (use D(1-3,5) t(2) in \<open>simp_all add: ext_wf_def sched_wf_def\<close>)
qed

lemma step_stay:
  assumes inv: "sys_inv s" and k: "k < length (sy_pcs s)"
    and pcs: "\<not> owns (pc_at s k)" "\<not> owns pc'" "\<And>P x. pc_ok P x (pc_at s k) \<Longrightarrow> pc_ok P x pc'"
  shows "sys_inv (put s k (sy_task s) pc')"
proof -
  note D = sys_invD [OF inv] and at = sys_worker [OF inv k]
  let ?w = "t_workers (sy_task s) ! k"
  have "put s k (sy_task s) pc' = put_worker s k ?w pc'"
    by (simp add: put_worker_def set_worker_def)
  moreover have "sys_inv (put_worker s k ?w pc')"
    using at(2,3) D(4) D(7) [OF k] not_owns [OF pcs(1)] not_owns [OF pcs(2)] pcs
    by (intro worker_step_inv [OF inv k refl]) (auto simp: thread_ok_def)
  ultimately show ?thesis by simp
qed

text \<open>Going to sleep and waking up: the flags of the own worker.\<close>

lemma step_flags:
  assumes inv: "sys_inv s" and k: "k < length (sy_pcs s)"
    and pcs: "\<not> owns (pc_at s k)" "\<not> owns pc'" "\<And>P x. pc_ok P x (pc_at s k) \<Longrightarrow> pc_ok P x pc'"
  shows "sys_inv (put_worker s k ((t_workers (sy_task s) ! k)\<lparr>w_sleeping := a, w_wakeup := b\<rparr>) pc')"
proof -
  note D = sys_invD [OF inv] and at = sys_worker [OF inv k]
  show ?thesis
    using at(2,3) D(4) D(7) [OF k] not_owns [OF pcs(1)] not_owns [OF pcs(2)] pcs
    by (intro worker_step_inv [OF inv k refl])
      (auto simp: thread_ok_def worker_wf_def free_worker_def worker_jobs_def hold_def)
qed

lemma complete_again: "worker_complete_job fails w = (1, w1) \<Longrightarrow> w1 = w"
  by (auto simp: worker_complete_job_def split: prod.splits bool.splits)

lemma put_same: "k < length (sy_pcs s) \<Longrightarrow> pc_at s k = pc \<Longrightarrow> put_worker s k (t_workers (sy_task s) ! k) pc = s"
  by (auto simp: put_worker_def put_def set_worker_def pc_at_def)

section \<open>When root quits\<close>

text \<open>Only wake-up and termination flags of the workers and the socket events change.\<close>

definition flagged :: "worker_thread \<Rightarrow> worker_thread \<Rightarrow> bool" where
  "flagged w w' \<longleftrightarrow> (\<exists>a b. w' = w\<lparr>w_term_signal := a, w_wakeup := b\<rparr>)"

definition signals :: "ltask \<Rightarrow> ltask \<Rightarrow> bool" where
  "signals t t' \<longleftrightarrow> (\<exists>ws es. t' = t\<lparr>t_workers := ws, t_event := es\<rparr> \<and> length es = length (t_event t)
     \<and> list_all2 flagged (t_workers t) ws)"

lemma flagged_refl [simp]: "flagged w w"
  unfolding flagged_def by (intro exI [of _ "w_term_signal w"] exI [of _ "w_wakeup w"]) simp

lemma flagged_trans: "flagged w w1 \<Longrightarrow> flagged w1 w2 \<Longrightarrow> flagged w w2"
  by (auto simp: flagged_def) blast

lemma flagged_fields:
  "flagged w (w\<lparr>w_term_signal := a\<rparr>)" "flagged w (w\<lparr>w_wakeup := b\<rparr>)"
  unfolding flagged_def
  by (intro exI [of _ a] exI [of _ "w_wakeup w"], simp) (intro exI [of _ "w_term_signal w"] exI [of _ b], simp)

lemma signals_refl: "signals t t"
  unfolding signals_def
  by (intro exI [of _ "t_workers t"] exI [of _ "t_event t"]) (simp add: list.rel_refl)

lemma signals_trans:
  assumes "signals t t1" and "signals t1 t2"
  shows "signals t t2"
proof -
  from assms(1) obtain ws es where 1: "t1 = t\<lparr>t_workers := ws, t_event := es\<rparr>" "length es = length (t_event t)"
    "list_all2 flagged (t_workers t) ws" by (auto simp: signals_def)
  from assms(2) obtain vs ds where 2: "t2 = t1\<lparr>t_workers := vs, t_event := ds\<rparr>" "length ds = length (t_event t1)"
    "list_all2 flagged (t_workers t1) vs" by (auto simp: signals_def)
  have "list_all2 flagged (t_workers t) vs"
    using list_all2_trans [OF _ 1(3), of flagged flagged vs] flagged_trans 2(3) 1(1) by simp
  then show ?thesis
    unfolding signals_def by (intro exI [of _ vs] exI [of _ ds]) (use 1 2 in simp)
qed

lemma signals_worker:
  assumes "worker_at t n = Some w" and "flagged w w'"
  shows "signals t (set_worker t n w')"
proof -
  have n: "nat n < length (t_workers t)" "t_workers t ! nat n = w"
    using assms(1) by (auto simp: worker_at_def split: if_splits)
  have "list_all2 flagged (t_workers t) ((t_workers t)[nat n := w'])"
    using n assms(2) by (auto simp: list_all2_conv_all_nth nth_list_update)
  then show ?thesis
    unfolding signals_def
    by (intro exI [of _ "(t_workers t)[nat n := w']"] exI [of _ "t_event t"]) (simp add: set_worker_def)
qed

lemma signals_event:
  assumes "0 \<le> n" and "nat n < length (t_event t)"
  shows "\<exists>t'. trigger_event t n = Some t' \<and> signals t t'"
proof -
  let ?es = "(t_event t)[nat n := fst (sockevent_trigger (t_event t ! nat n))]"
  have "signals t (t\<lparr>t_event := ?es\<rparr>)"
    unfolding signals_def by (intro exI [of _ "t_workers t"] exI [of _ ?es]) (simp add: list.rel_refl)
  then show ?thesis using assms by (simp add: trigger_event_def)
qed

lemma signals_frame:
  assumes "signals t t'"
  shows "length (t_workers t') = length (t_workers t)" "length (t_event t') = length (t_event t)"
    "t_config t' = t_config t"
  using assms by (auto simp: signals_def dest: list_all2_lengthD)

lemma signals_loops:
  assumes "\<forall>n \<in> set ns. 0 \<le> n \<and> nat n < length (t_workers t)"
  shows "\<exists>t'. quit_loop t ns = Some t' \<and> signals t t'"
    and "\<exists>t'. wakeup_loop t ns = Some t' \<and> signals t t'"
proof -
  show "\<exists>t'. quit_loop t ns = Some t' \<and> signals t t'"
    using assms
  proof (induction ns arbitrary: t)
    case Nil
    then show ?case by (simp add: signals_refl)
  next
    case (Cons n ns)
    then obtain w where w: "worker_at t n = Some w" by (simp add: worker_at_def)
    let ?t1 = "set_worker t n (w\<lparr>w_term_signal := 1\<rparr>)"
    have s1: "signals t ?t1" by (rule signals_worker [OF w flagged_fields(1)])
    from Cons.IH [of ?t1] Cons.prems show ?case using w signals_trans [OF s1] by auto
  qed
  show "\<exists>t'. wakeup_loop t ns = Some t' \<and> signals t t'"
    using assms
  proof (induction ns arbitrary: t)
    case Nil
    then show ?case by (simp add: signals_refl)
  next
    case (Cons n ns)
    then obtain w where w: "worker_at t n = Some w" by (simp add: worker_at_def)
    let ?t1 = "set_worker t n (w\<lparr>w_wakeup := 1\<rparr>)"
    have s1: "signals t ?t1" by (rule signals_worker [OF w flagged_fields(2)])
    from Cons.IH [of ?t1] Cons.prems show ?case
      using w signals_trans [OF s1] by (auto simp: wakeup_worker_def worker_wakeup_def)
  qed
qed

lemma signals_trigger:
  assumes "\<forall>n \<in> set ns. 0 \<le> n \<and> nat n < length (t_event t)"
  shows "\<exists>t'. trigger_loop t ns = Some t' \<and> signals t t'"
  using assms
proof (induction ns arbitrary: t)
  case Nil
  then show ?case by (simp add: signals_refl)
next
  case (Cons n ns)
  then obtain t1 where t1: "trigger_event t n = Some t1" "signals t t1" using signals_event [of n t] by auto
  from Cons.IH [of t1] Cons.prems signals_frame(2) [OF t1(2)] show ?case
    using t1(1) signals_trans [OF t1(2)] by auto
qed

lemma root_quit_signals:
  assumes wf: "sched_wf t"
  shows "\<exists>t'. root_quit t = Some t' \<and> signals t t'"
proof -
  have rng: "\<forall>n \<in> set (worker_ids t'). 0 \<le> n \<and> nat n < length (t_workers t')" if "signals t t'" for t'
    using wf signals_frame [OF that] by (auto simp: worker_ids_def sched_wf_def)
  from signals_loops(1) [OF rng [OF signals_refl]] obtain t1 where
    t1: "quit_all_workers t = Some t1" "signals t t1" by (auto simp: quit_all_workers_def)
  have "\<forall>n \<in> set (map int [0..<MAX_SOCKEVENT]). 0 \<le> n \<and> nat n < length (t_event t1)"
    using wf signals_frame(2) [OF t1(2)] by (auto simp: sched_wf_def)
  from signals_trigger [OF this] obtain t2 where
    t2: "trigger_all_sockevent t1 = Some t2" "signals t1 t2" by (auto simp: trigger_all_sockevent_def)
  note s2 = signals_trans [OF t1(2) t2(2)]
  from signals_loops(2) [OF rng [OF s2]] obtain t3 where
    "wakeup_all_workers t2 = Some t3" "signals t2 t3" by (auto simp: wakeup_all_workers_def)
  then show ?thesis using t1(1) t2(1) signals_trans [OF s2] by (simp add: root_quit_def)
qed

lemma flagged_same:
  assumes "flagged w w'"
  shows "worker_jobs w' = worker_jobs w" "hold w' = hold w" "worker_wf w' = worker_wf w"
    "free_worker w' = free_worker w" "w_worker_id w' = w_worker_id w" "thread_ok P w' pc = thread_ok P w pc"
  using assms by (auto simp: flagged_def worker_jobs_def hold_def worker_wf_def free_worker_def thread_ok_def)

lemma signals_inv:
  assumes inv: "sys_inv s" and sig: "signals (sy_task s) t"
  shows "sys_inv (s\<lparr>sy_task := t\<rparr>)"
proof -
  note D = sys_invD [OF inv]
  from sig obtain ws es where t: "t = (sy_task s)\<lparr>t_workers := ws, t_event := es\<rparr>"
    "length es = length (t_event (sy_task s))" and ws: "list_all2 flagged (t_workers (sy_task s)) ws"
    by (auto simp: signals_def)
  have len: "length ws = length (t_workers (sy_task s))" using list_all2_lengthD [OF ws] by simp
  have fl: "flagged (t_workers (sy_task s) ! l) (ws ! l)" if "l < length ws" for l
    using list_all2_nthD [OF ws] that len by simp
  have maps: "map worker_jobs ws = map worker_jobs (t_workers (sy_task s))" "map hold ws = map hold (t_workers (sy_task s))"
    "map free_worker ws = map free_worker (t_workers (sy_task s))"
    using flagged_same(1,2,4) [OF fl] len by (auto intro!: nth_equalityI)
  have wf: "sched_wf t"
    using D(1) flagged_same(3,5) [OF fl] len t(2) by (simp add: t(1) sched_wf_def)
  have "length (filter free_worker xs) = length (filter id (map free_worker xs))" for xs
    by (simp add: filter_map comp_def)
  then have nf: "nfree t = nfree (sy_task s)"
    using arg_cong [OF maps(3), of "\<lambda>bs. length (filter id bs)"] unfolding nfree_def t(1) by simp
  have w: "waiting_jobs (s\<lparr>sy_task := t\<rparr>) = waiting_jobs s" "active_jobs (s\<lparr>sy_task := t\<rparr>) = active_jobs s"
    using maps by (simp_all add: waiting_jobs_def active_jobs_def queued_def run_queue_def t(1))
  have pcs: "pc_at (s\<lparr>sy_task := t\<rparr>) l = pc_at s l" for l by (simp add: pc_at_def)
  show ?thesis
    unfolding sys_inv_def
    using wf D flagged_same(6) [OF fl] len nf
    by (simp add: w pcs) (simp add: t(1) ext_wf_def)
qed

lemma step_root:
  assumes inv: "sys_inv s" and k: "k < length (sy_pcs s)" and pc: "pc_at s k = TRun SERVICE_ID_ROOT"
    and P: "P = service_status_set (t_services (sy_task s)) SERVICE_ID_ROOT SERVICE_STATUS_DEAD"
  shows "\<exists>t. root_quit ((sy_task s)\<lparr>t_services := P\<rparr>) = Some t \<and> sys_inv (put s k t TQuit)"
proof -
  note D = sys_invD [OF inv] and at = sys_worker [OF inv k]
  note r = sys_running [OF inv k, of SERVICE_ID_ROOT, unfolded pc, simplified]
  have wf: "pool_wf (t_services (sy_task s))" by (rule coreD(1) [OF D(4)])
  let ?w = "t_workers (sy_task s) ! k" and ?t = "(sy_task s)\<lparr>t_services := P\<rparr>"
  have "set_worker (sy_task s) (int k) ?w = sy_task s" by (simp add: set_worker_def)
  moreover have "sys_inv (put s k ((set_worker (sy_task s) (int k) ?w)\<lparr>t_services := P\<rparr>) TQuit)"
  proof (rule own_step_inv [OF inv k refl r(1) _ at(2,3) _ refl refl r(1) refl])
    show "core P (waiting_jobs s) (active_jobs s)" unfolding P by (rule core_status [OF D(4) r(3)]) simp_all
  qed (use pc sched_bounds [OF D(1)] in \<open>simp_all add: P status_set_bounds [OF wf] status_set_view [OF wf]\<close>)
  ultimately have inv1: "sys_inv (put s k ?t TQuit)" by simp
  from root_quit_signals [OF sys_invD(1) [OF inv1]] obtain t where
    t: "root_quit ?t = Some t" "signals ?t t" by auto
  have eq: "(put s k ?t TQuit)\<lparr>sy_task := t\<rparr> = put s k t TQuit" unfolding put_def by (cases s) simp
  have "sys_inv ((put s k ?t TQuit)\<lparr>sy_task := t\<rparr>)" by (rule signals_inv [OF inv1]) (use t(2) in simp)
  then show ?thesis using t(1) unfolding eq by blast
qed

lemma step_external_send:
  assumes inv: "sys_inv s" and q: "t_external_message (sy_task s) = Some q" and v: "v \<noteq> 0"
    and push: "external_send q v = Some (r, q1)"
  shows "sys_inv (s\<lparr>sy_task := (sy_task s)\<lparr>t_external_message := Some q1\<rparr>\<rparr>)"
proof -
  note D = sys_invD [OF inv]
  have wf: "queue_wf q" using D(3) q by (simp add: ext_wf_def)
  have "queue_wf q1"
    using push v queue_push_ptr_room [OF wf, of v] queue_push_ptr_full [OF wf, of v] ring_enq_wf [OF wf, of v] wf
    by (cases "queue_count q < queue_cap q") (auto simp: external_send_def)
  then show ?thesis
    using inv unfolding sys_inv_def
    by (simp add: waiting_jobs_def active_jobs_def queued_def run_queue_def sched_wf_def ext_wf_def nfree_def pc_at_def)
qed

section \<open>Every step\<close>

lemma step_start_status:
  assumes "sys_inv s" and "k < length (sy_pcs s)" and "pc_at s k = TStart i"
  shows "service_status_get (t_services (sy_task s)) i = SERVICE_STATUS_SCHEDULE"
  using sys_running(4) [OF assms(1,2), of i] assms(3) by simp

lemma thread_step_inv:
  assumes step: "thread_step s s'" and inv: "sys_inv s"
  shows "sys_inv s'"
  using step
proof cases
  case (th_lua_bad k i c)
  then show ?thesis
    using pool_step_total [OF coreD(1) [OF sys_invD(4) [OF inv]]] by blast
next
  case (th_root_bad k P)
  then show ?thesis using step_root [OF inv] by fastforce
next
  case (th_root k P t)
  then show ?thesis using step_root [OF inv th_root(2,3,4)] by fastforce
next
  case (th_round k r ph fails pack pc t)
  then show ?thesis using step_round [OF inv th_round(2-4), of fails pack] by auto
next
  case (th_round_bad k r ph fails pack)
  then show ?thesis using step_round [OF inv th_round_bad(2-4), of fails pack] by simp
next
  case (th_start_dead k i w)
  then show ?thesis using step_start_status [OF inv th_start_dead(2,3)] by simp
next
  case (th_start_bad k i)
  then show ?thesis using step_start_status [OF inv th_start_bad(2,3)] by simp
next
  case (th_retry k n w)
  then show ?thesis by (auto intro!: step_stay [OF inv])
next
  case (th_acquire_fail k i fails t)
  then show ?thesis using acquire_cases [of fails "int k" "sy_task s" 1 t] by (auto intro!: step_stay [OF inv])
next
  case (th_nojob_fail k n fails t)
  then show ?thesis using acquire_cases [of fails "int k" "sy_task s" 1 t] by (auto intro!: step_stay [OF inv])
next
  case (th_spin k i w fails w1)
  then have "w1 = t_workers (sy_task s) ! k"
    using sys_worker(1) [OF inv th_spin(2)] complete_again by simp
  then have "s' = s" using th_spin(1-3) by (simp add: put_same)
  then show ?thesis using inv by simp
next
  case (th_sleep_quit k w)
  then show ?thesis by (auto intro!: step_stay [OF inv])
next
  case (th_sleep k w)
  then show ?thesis by (auto intro!: step_stay [OF inv])
next
  case (th_awake k w w1)
  then show ?thesis
    using step_flags [OF inv th_awake(2), where pc' = TTop and a = "w_sleeping w" and b = 0] sys_worker(1) [OF inv th_awake(2)]
    by (auto simp: worker_sleep_begin_def split: if_splits)
next
  case (th_wait k w w1)
  then show ?thesis
    using step_flags [OF inv th_wait(2), where pc' = TWait and a = 1 and b = "w_wakeup w"] sys_worker(1) [OF inv th_wait(2)]
    by (auto simp: worker_sleep_begin_def split: if_splits)
next
  case (th_wake k w)
  then show ?thesis
    using step_flags [OF inv th_wake(2), where pc' = TTop and a = 0 and b = "w_wakeup w"] sys_worker(1) [OF inv th_wake(2)] by auto
qed (auto intro: step_quit [OF inv] step_get [OF inv] step_none [OF inv] step_start [OF inv] step_lua [OF inv]
    step_yield [OF inv] step_term [OF inv] step_complete [OF inv] step_complete_full [OF inv]
    step_acquire [OF inv] step_external_send [OF inv])

end
