(* ===== verification/Boot.thy ===== *)
theory Boot
  imports ThreadSafe Config
begin

text \<open>
  Building the system, \<open>ltask_init\<close> to \<open>ltask_run\<close> of \<open>src/ltask.c\<close>: the functions the boot
  script calls before the threads start, and the proof that what they build is a state the
  threads may start from (\<open>sys_booted\<close>).
\<close>

section \<open>The operations\<close>

text \<open>
  \<open>ltask_init\<close> on an accepted configuration. It stores the NULL of a failed allocation and
  goes on; the first use of the pool or of the run queue then fails, which is \<^term>\<open>None\<close> here.
  The log queue and the timer have theories of their own.
\<close>

definition ltask_init :: "malloc_oracle \<Rightarrow> ltask_config \<Rightarrow> ltask option" where
  "ltask_init mem config = do {
     pool \<leftarrow> service_create mem config;
     P \<leftarrow> pool;
     (case malloc (p_malloc P) of (ok, mem1) \<Rightarrow> do {
        new \<leftarrow> queue_new_int ok (c_max_service config);
        sch \<leftarrow> new;
        (ext, mem2) \<leftarrow> (if c_external_queue config \<noteq> 0
          then (case malloc mem1 of (ok2, mem2) \<Rightarrow>
                 map_option (\<lambda>q. (q, mem2)) (queue_new_ptr ok2 (c_external_queue config)))
          else Some (None, mem1));
        Some \<lparr>t_config = config, t_workers = map worker_init (map int [0 ..< nat (c_worker config)]),
          t_event_init = replicate MAX_SOCKEVENT 0, t_event = replicate MAX_SOCKEVENT sockevent_init,
          t_services = P\<lparr>p_malloc := mem2\<rparr>, t_schedule = sch,
          t_external_message = ext, t_external_last_message = None,
          t_schedule_owner = THREAD_NONE, t_active_worker = 0, t_thread_count = 0, t_blocked_service = 0\<rparr>
      })
   }"

text \<open>What the Lua library answers while a service is made: \<open>vm\<close>, \<open>require_ok\<close>, \<open>load_error\<close>.\<close>

record vm_answers =
  va_boot :: vm_boot
  va_require :: bool
  va_load :: "string option"

text \<open>\<open>newservice\<close>: 0 on success; on failure the service is deleted and the answer is -1.\<close>

definition newservice :: "ltask \<Rightarrow> service_id \<Rightarrow> string \<Rightarrow> vm_answers \<Rightarrow> int \<Rightarrow> (int \<times> ltask) option" where
  "newservice t i label va worker_id = do {
     (r, P1) \<leftarrow> service_init (t_services t) i (va_boot va);
     if r \<noteq> 0 \<or> service_requiref P1 i (va_require va) \<noteq> 0
     then do {
       P2 \<leftarrow> service_delete P1 i;
       Some (-1, t\<lparr>t_services := P2\<rparr>)
     }
     else (case service_setlabel (service_binding_set P1 i worker_id) i label of (r2, P3) \<Rightarrow>
       if r2 \<noteq> 0
       then do {
         P4 \<leftarrow> service_delete P3 i;
         Some (-1, t\<lparr>t_services := P4\<rparr>)
       }
       else (case service_loadstring P3 i (va_load va) of
               (Some err, P4) \<Rightarrow> do {
                 P5 \<leftarrow> service_delete P4 i;
                 Some (-1, t\<lparr>t_services := P5\<rparr>)
               }
             | (None, P4) \<Rightarrow> Some (0, t\<lparr>t_services := P4\<rparr>)))
   }"

text \<open>\<open>ltask_newservice\<close>: the id, or 0 for the Lua \<open>false\<close>.\<close>

definition ltask_newservice ::
  "ltask \<Rightarrow> string \<Rightarrow> vm_answers \<Rightarrow> u32 \<Rightarrow> int \<Rightarrow> (service_id \<times> ltask) option" where
  "ltask_newservice t label va sid worker_id =
     (case service_new (t_services t) sid of (i, P) \<Rightarrow> do {
        (r, t1) \<leftarrow> newservice (t\<lparr>t_services := P\<rparr>) i label va worker_id;
        Some (if r \<noteq> 0 then 0 else i, t1)
      })"

text \<open>\<open>lpost_message\<close>: 0, or 1 for the Lua error \<open>push message failed\<close>.\<close>

definition lpost_message :: "ltask \<Rightarrow> message \<Rightarrow> (int \<times> ltask) option" where
  "lpost_message t msg =
     (case message_new (p_malloc (t_services t)) msg of (m, mem) \<Rightarrow> do {
        (r, P) \<leftarrow> service_push_message ((t_services t)\<lparr>p_malloc := mem\<rparr>) (m_to msg) m;
        if r \<noteq> 0 then Some (1, t\<lparr>t_services := P\<lparr>p_freed := message_delete m (p_freed P)\<rparr>\<rparr>)
        else do {
          t1 \<leftarrow> check_message_to (t\<lparr>t_services := P\<rparr>) (m_to msg);
          Some (0, t1)
        }
      })"

text \<open>\<open>ltask_run\<close>: one thread per worker.\<close>

definition ltask_run :: "ltask \<Rightarrow> sys" where
  "ltask_run t = \<lparr>sy_task = t\<lparr>t_thread_count := c_worker (t_config t)\<rparr>,
     sy_pcs = replicate (nat (c_worker (t_config t))) TTop\<rparr>"

section \<open>Boot scripts\<close>

datatype boot_call =
    Boot_new string vm_answers u32 int
  | Boot_post message

text \<open>
  What a boot script owes: room in the service table for one more service, a worker that
  exists, an id that is free; and messages only to services that can take them.
\<close>

fun boot_call_ok :: "ltask \<Rightarrow> boot_call \<Rightarrow> bool" where
  "boot_call_ok t (Boot_new label va sid worker) =
     (table_room t \<and> worker < c_worker (t_config t) \<and> fst (service_new (t_services t) sid) \<noteq> 0)"
| "boot_call_ok t (Boot_post m) =
     (service_status_get (t_services t) (m_to m) = SERVICE_STATUS_DEAD \<or> has_mailbox (t_services t) (m_to m))"

fun boot_step :: "ltask \<Rightarrow> boot_call \<Rightarrow> ltask option" where
  "boot_step t (Boot_new label va sid worker) = map_option snd (ltask_newservice t label va sid worker)"
| "boot_step t (Boot_post m) = map_option snd (lpost_message t m)"

text \<open>\<^term>\<open>Some None\<close> where the script breaks its contract, \<^term>\<open>None\<close> where the code fails.\<close>

fun boot_run :: "ltask \<Rightarrow> boot_call list \<Rightarrow> ltask option option" where
  "boot_run t [] = Some (Some t)"
| "boot_run t (c # cs) =
     (if boot_call_ok t c
      then (case boot_step t c of None \<Rightarrow> None | Some t1 \<Rightarrow> boot_run t1 cs)
      else Some None)"

section \<open>Making a service\<close>

text \<open>Only the entry of \<open>i\<close> differs.\<close>

definition pool_only :: "service_id \<Rightarrow> service_pool \<Rightarrow> service_pool \<Rightarrow> bool" where
  "pool_only i P P' \<longleftrightarrow> pool_wf P' \<and> p_malloc P' = [] \<and> p_mask P' = p_mask P
     \<and> (\<forall>j. j \<noteq> i \<longrightarrow> svc_view P' j = svc_view P j)"

lemma pool_only_trans: "pool_only i P P1 \<Longrightarrow> pool_only i P1 P2 \<Longrightarrow> pool_only i P P2"
  by (simp add: pool_only_def)

lemma pool_only_upd:
  assumes wf: "pool_wf P" "p_malloc P = []" and "service_keeps f"
  shows "pool_only i P (upd_service P i f)"
  using assms upd_field(1) [OF sized_wf [OF wf(1)], of f _ i] tab.inv_upd [OF wf(1) assms(3)]
  by (simp add: pool_only_def service_keeps_def)

lemma delete_only:
  assumes "pool_wf P" "p_malloc P = []"
  shows "\<exists>P'. service_delete P i = Some P' \<and> pool_only i P P' \<and> svc_view P' i = None"
  using service_delete_view [OF assms(1), of i] assms(2) by (auto simp: pool_only_def)

lemma sched_inv_only:
  assumes inv: "sched_inv t {#}" and i: "i \<notin># queued t" and only: "pool_only i (t_services t) P"
    and st: "service_status_get P i \<notin> active_status" and b: "service_binding_get P i < c_worker (t_config t)"
    and e: "service_sockevent_get P i < int MAX_SOCKEVENT"
  shows "sched_inv (t\<lparr>t_services := P\<rparr>) {#}"
proof -
  note D = sched_invD [OF inv] and B = sched_bounds [OF sched_invD(1) [OF inv]]
  have v: "j \<noteq> i \<Longrightarrow> svc_view P j = svc_view (t_services t) j" for j using only by (simp add: pool_only_def)
  have wf: "sched_wf (t\<lparr>t_services := P\<rparr>)"
  proof (rule sched_wf_services [OF D(1)])
    show "service_binding_get P j < c_worker (t_config t)" for j
      using b B(1) [of j] v [of j] by (cases "j = i") (simp_all add: binding_view)
    show "service_sockevent_get P j < int MAX_SOCKEVENT" for j
      using e B(2) [of j] v [of j] by (cases "j = i") (simp_all add: sockevent_view)
  qed
  have status: "service_status_get P j = service_status_get (t_services t) j" if "j \<noteq> i" for j
    using v [OF that] by (simp add: status_view)
  have q: "service_status_get P j = SERVICE_STATUS_SCHEDULE" if "j \<in># queued t" for j
    using that i D(6) [OF that] status [of j] by (cases "j = i") auto
  have nq: "service_status_get P j \<notin> active_status" if "j \<notin># queued t" for j
    using that st D(9) [of j] status [of j] by (cases "j = i") auto
  have "pool_wf P" "p_malloc P = []" "p_mask P = p_mask (t_services t)" using only by (simp_all add: pool_only_def)
  moreover have "count (queued t) j \<le> 1" for j using D(5) [of j] by simp
  ultimately show ?thesis using wf q nq D(3) unfolding sched_inv_def by simp
qed

lemma newservice_spec:
  assumes inv: "sched_inv t {#}" and new: "bare_service (t_services t) i"
    and b: "service_binding_get (t_services t) i < c_worker (t_config t)"
    and e: "service_sockevent_get (t_services t) i < int MAX_SOCKEVENT" and worker: "worker < c_worker (t_config t)"
  shows "\<exists>r P. newservice t i label va worker = Some (r, t\<lparr>t_services := P\<rparr>)
    \<and> sched_inv (t\<lparr>t_services := P\<rparr>) {#} \<and> live P \<subseteq> live (t_services t)"
proof -
  note D = sched_invD [OF inv] and B = sched_bounds [OF sched_invD(1) [OF inv]]
  from new obtain S where S: "get_service (t_services t) i = Some S" "s_L S = 0" "s_msg S = None"
    "s_status S = SERVICE_STATUS_UNINITIALIZED" by (auto simp: bare_service_def split: option.splits)
  have st: "service_status_get (t_services t) i = SERVICE_STATUS_UNINITIALIZED"
    using S by (simp add: service_status_get_def)
  have nq: "i \<notin># queued t" using D(6) [of i] st by auto
  have "pool_step (Call_init i (va_boot va)) (t_services t) \<noteq> None"
    using pool_step_total [OF D(2), of "Call_init i (va_boot va)"] new by simp
  then obtain r P1 where init: "service_init (t_services t) i (va_boot va) = Some (r, P1)" by auto
  have wf1: "pool_wf P1" using service_init_account [OF D(2) init] S(1,3) by simp
  note t1 = init_touches [OF D(2,4) init] and o1 = touches_other [OF init_touches(1) [OF D(2,4) init]]
  have only1: "pool_only i (t_services t) P1" using wf1 t1 o1(1) by (simp add: pool_only_def touches_def)
  have kept: "sched_inv (t\<lparr>t_services := P\<rparr>) {#} \<and> live P \<subseteq> live (t_services t)"
    if "pool_only i (t_services t) P" "service_status_get P i \<notin> active_status"
      "service_binding_get P i < c_worker (t_config t)" "service_sockevent_get P i < int MAX_SOCKEVENT" for P
  proof
    show "sched_inv (t\<lparr>t_services := P\<rparr>) {#}" by (rule sched_inv_only [OF inv nq that])
    show "live P \<subseteq> live (t_services t)"
    proof
      fix j assume "j \<in> live P"
      then show "j \<in> live (t_services t)"
        using that(1) S(1) by (cases "j = i") (simp_all add: live_view pool_only_def, simp add: svc_view_def)
    qed
  qed
  have del: "\<exists>P. service_delete Q i = Some P \<and> sched_inv (t\<lparr>t_services := P\<rparr>) {#} \<and> live P \<subseteq> live (t_services t)"
    if "pool_only i (t_services t) Q" for Q
  proof -
    from delete_only [of Q i] that obtain P where P: "service_delete Q i = Some P" "pool_only i Q P" "svc_view P i = None"
      by (auto simp: pool_only_def)
    have "service_status_get P i = SERVICE_STATUS_DEAD" "service_binding_get P i = -1" "service_sockevent_get P i = -1"
      using P(3) by (simp_all add: status_view binding_view sockevent_view)
    then show ?thesis
      using P(1) kept [OF pool_only_trans [OF that P(2)]] B(3) by (simp add: active_status_def)
  qed
  let ?P2 = "service_binding_set P1 i worker"
  show ?thesis
  proof (cases "r \<noteq> 0 \<or> service_requiref P1 i (va_require va) \<noteq> 0")
    case True
    with del [OF only1] init show ?thesis by (fastforce simp: newservice_def)
  next
    case False
    have "get_service P1 i \<noteq> None" using o1(5) [of i] S(1) by simp
    then obtain S1 where S1: "get_service P1 i = Some S1" by auto
    have m1: "p_malloc P1 = []" by (rule t1(2))
    have only2: "pool_only i P1 ?P2"
      unfolding service_binding_set_def by (rule pool_only_upd [OF wf1 m1 service_keeps_fields(4)])
    have S2: "get_service ?P2 i = Some (S1\<lparr>s_binding_thread := worker\<rparr>)"
      using S1 by (simp add: service_binding_set_def tab.get_upd [OF wf1] service_keeps_fields)
    have wf2: "pool_wf ?P2" "p_malloc ?P2 = []" using only2 by (simp_all add: pool_only_def)
    let ?P3 = "upd_service ?P2 i (\<lambda>S. S\<lparr>s_label := Some (take 31 label)\<rparr>)"
    have lab: "service_setlabel ?P2 i label = (0, ?P3)" using S2 by (simp add: service_setlabel_def)
    have only3: "pool_only i ?P2 ?P3" by (rule pool_only_upd [OF wf2 service_keeps_fields(6)])
    let ?S3 = "S1\<lparr>s_binding_thread := worker, s_label := Some (take 31 label)\<rparr>"
    have S3: "get_service ?P3 i = Some ?S3"
      using S2 by (simp add: tab.get_upd [OF wf2(1)] service_keeps_fields)
    have wf3: "pool_wf ?P3" "p_malloc ?P3 = []" using only3 by (simp_all add: pool_only_def)
    note only = pool_only_trans [OF pool_only_trans [OF only1 only2] only3]
    obtain err P4 where load: "service_loadstring ?P3 i (va_load va) = (err, P4)" by fastforce
    have load_cases: "P4 = ?P3 \<or> (\<exists>st. P4 = upd_service ?P3 i (\<lambda>S. S\<lparr>s_status := st\<rparr>) \<and> st \<notin> active_status)"
      using load S3 by (auto simp: service_loadstring_def active_status_def split: option.splits if_splits)
    have wf4: "pool_wf P4" by (rule loadstring_account(1) [OF wf3(1) load])
    have only4: "pool_only i ?P3 P4"
      using load_cases wf4 wf3 upd_field(1) [OF sized_wf [OF wf3(1)], of "\<lambda>S. S\<lparr>s_status := _\<rparr>" _ i]
      by (auto simp: pool_only_def)
    note only' = pool_only_trans [OF only only4]
    show ?thesis
    proof (cases err)
      case (Some m)
      with del [OF only'] init False lab load show ?thesis by (fastforce simp: newservice_def)
    next
      case None
      have s1: "s_status S1 = SERVICE_STATUS_UNINITIALIZED" "s_sockevent_id S1 = service_sockevent_get (t_services t) i"
        using o1(2,4) [of i] st S1 by (simp_all add: service_status_get_def service_sockevent_get_def)
      have at4: "service_status_get P4 i \<notin> active_status" "service_binding_get P4 i = worker"
        "service_sockevent_get P4 i = s_sockevent_id S1"
        using load_cases get_upd_sized [OF sized_wf [OF wf3(1)], of "\<lambda>S. S\<lparr>s_status := _\<rparr>" i i] S3 s1(1)
        by (auto simp: service_status_get_def service_binding_get_def service_sockevent_get_def active_status_def)
      have "newservice t i label va worker = Some (0, t\<lparr>t_services := P4\<rparr>)"
        using init False lab load None by (simp add: newservice_def)
      then show ?thesis using kept [OF only' at4(1)] at4(2,3) worker e s1(2) by auto
    qed
  qed
qed

section \<open>What a boot script builds\<close>

definition boot_inv :: "ltask \<Rightarrow> bool" where
  "boot_inv t \<longleftrightarrow> sched_inv t {#}
     \<and> t_workers t = map worker_init (map int [0 ..< nat (c_worker (t_config t))])
     \<and> t_schedule_owner t = THREAD_NONE \<and> t_external_last_message t = None
     \<and> (case t_external_message t of None \<Rightarrow> True | Some q \<Rightarrow> queue_wf q)"

lemma boot_inv_threads:
  "boot_inv t \<Longrightarrow> same_threads t t' \<Longrightarrow> sched_inv t' {#} \<Longrightarrow> boot_inv t'"
  by (simp add: boot_inv_def same_threads_def)

lemma post_message_spec:
  assumes inv: "sched_inv t {#}" and room: "int (card (live (t_services t))) \<le> p_mask (t_services t)"
    and ok: "service_status_get (t_services t) (m_to m) = SERVICE_STATUS_DEAD \<or> has_mailbox (t_services t) (m_to m)"
  shows "\<exists>r t'. lpost_message t m = Some (r, t') \<and> sched_inv t' {#} \<and> same_threads t t'
    \<and> live (t_services t') = live (t_services t)"
proof -
  note D = sched_invD [OF inv]
  have new: "message_new (p_malloc (t_services t)) m = (Some m, [])" by (simp add: D(4) message_new_def)
  have pm: "(t_services t)\<lparr>p_malloc := []\<rparr> = t_services t" using D(4) by (cases "t_services t") simp
  from pool_step_push [OF D(2) ok, of m] obtain r P where
    push: "service_push_message (t_services t) (m_to m) (Some m) = Some (r, P)" by blast
  note v = push_message_view [OF D(2) push]
  have wf: "pool_wf P" using push_message_account(1) [OF D(2) push] by simp
  let ?t1 = "t\<lparr>t_services := P\<rparr>" and ?t2 = "t\<lparr>t_services := P\<lparr>p_freed := message_delete (Some m) (p_freed P)\<rparr>\<rparr>"
  have inv1: "sched_inv ?t1 {#}" and inv2: "sched_inv ?t2 {#}"
    using wf v D(4) by (auto intro!: sched_inv_pool [OF inv])
  have lv: "live P = live (t_services t)" using v by (simp add: live_view)
  show ?thesis
  proof (cases "r = 0")
    case False
    then have "lpost_message t m = Some (1, ?t2)" using push new pm by (simp add: lpost_message_def)
    then show ?thesis using inv2 v lv by (simp add: same_threads_def live_view)
  next
    case True
    from check_message_to_spec [OF inv1, of "m_to m"] room lv v obtain t' where
      t': "check_message_to ?t1 (m_to m) = Some t'" "sched_inv t' {#}" "same_threads ?t1 t'"
        "live (t_services t') = live (t_services ?t1)" by auto
    have "lpost_message t m = Some (0, t')" using push new pm True t'(1) by (simp add: lpost_message_def)
    moreover have "same_threads t t'" using t'(3) v by (simp add: same_threads_def)
    ultimately show ?thesis using t'(2,4) lv by simp
  qed
qed

lemma boot_new_spec:
  assumes inv: "sched_inv t {#}" and room: "table_room t" and worker: "worker < c_worker (t_config t)"
    and free: "fst (service_new (t_services t) sid) \<noteq> 0"
  shows "\<exists>r t'. ltask_newservice t label va sid worker = Some (r, t') \<and> sched_inv t' {#} \<and> same_threads t t'
    \<and> int (card (live (t_services t'))) \<le> p_mask (t_services t')"
proof -
  note D = sched_invD [OF inv]
  obtain i P where new: "service_new (t_services t) sid = (i, P)" by fastforce
  have i: "i \<noteq> 0" using free new by simp
  note N = dispatch_new_spec [OF inv new] and r = service_new_result [OF D(2) new]
    and v = service_new_view(2) [OF D(2) new i]
  have g: "get_service P i = Some (fresh_service i)" using r(2) i by simp
  have bare: "bare_service P i" by (simp add: bare_service_def g fresh_service_def)
  have n1: "1 \<le> c_worker (t_config t)" by (rule sched_bounds(3) [OF D(1)])
  have "service_binding_get P i = -1" "service_sockevent_get P i = -1" using v by (simp_all add: binding_view sockevent_view)
  with newservice_spec [OF N(1), of i worker label va] bare worker n1 obtain q P' where
    ns: "newservice (t\<lparr>t_services := P\<rparr>) i label va worker = Some (q, t\<lparr>t_services := P'\<rparr>)"
      "sched_inv (t\<lparr>t_services := P'\<rparr>) {#}" "live P' \<subseteq> live P" by auto
  have "newservice (t\<lparr>t_services := P\<rparr>) i label va worker \<noteq> None" using ns(1) by simp
  have "p_mask P = p_mask (t_services t)" using service_new_view(3) [OF D(2) new] .
  moreover have "p_mask P' = p_mask P"
    using sched_invD(3) [OF ns(2)] sched_invD(3) [OF N(1)] by simp
  moreover have "card (live P') \<le> card (live P)" using ns(3) by (intro card_mono) simp_all
  ultimately show ?thesis
    using new ns(1,2) N(3) room
    by (auto simp: ltask_newservice_def table_room_def same_threads_def)
qed

lemma boot_step_spec:
  assumes inv: "boot_inv t" and ok: "boot_call_ok t c" and room: "int (card (live (t_services t))) \<le> p_mask (t_services t)"
  shows "\<exists>t'. boot_step t c = Some t' \<and> boot_inv t' \<and> int (card (live (t_services t'))) \<le> p_mask (t_services t')"
proof (cases c)
  case (Boot_new label va sid worker)
  with boot_new_spec [of t worker sid label va] inv ok show ?thesis
    by (fastforce simp: boot_inv_def same_threads_def)
next
  case (Boot_post m)
  have s: "sched_inv t {#}" using inv by (simp add: boot_inv_def)
  from post_message_spec [OF s room, of m] ok Boot_post obtain r t' where
    "lpost_message t m = Some (r, t')" "sched_inv t' {#}" "same_threads t t'"
    "live (t_services t') = live (t_services t)" by auto
  then show ?thesis using Boot_post boot_inv_threads [OF inv] room by (simp add: same_threads_def)
qed

lemma boot_run_spec:
  assumes "boot_inv t" and "int (card (live (t_services t))) \<le> p_mask (t_services t)"
  shows "boot_run t cs \<noteq> None \<and> (\<forall>t'. boot_run t cs = Some (Some t') \<longrightarrow> boot_inv t')"
  using assms
proof (induction cs arbitrary: t)
  case Nil
  then show ?case by simp
next
  case (Cons c cs)
  show ?case
  proof (cases "boot_call_ok t c")
    case True
    from boot_step_spec [OF Cons.prems(1) True Cons.prems(2)] Cons.IH show ?thesis using True by auto
  next
    case False
    then show ?thesis by simp
  qed
qed

lemma worker_init_fields:
  "worker_wf (worker_init n)" "w_worker_id (worker_init n) = n" "w_running (worker_init n) = 0"
  "w_service_ready (worker_init n) = 0" "w_service_done (worker_init n) = 0"
  "binding_list (w_binding_queue (worker_init n)) = []" "worker_jobs (worker_init n) = {#}"
  by (simp_all add: worker_wf_def worker_init_def binding_wf_def binding_list_def worker_jobs_def)

lemma idle_workers_queued:
  assumes "\<And>w. w \<in> set (t_workers t) \<Longrightarrow> worker_jobs w = {#}"
  shows "queued t = mset (run_queue t)"
proof -
  have "sum_list (map worker_jobs ws) = {#}" if "\<And>w. w \<in> set ws \<Longrightarrow> worker_jobs w = {#}" for ws
    using that by (induction ws) auto
  with assms show ?thesis by (simp add: queued_def)
qed

definition config_accepted :: "ltask_config \<Rightarrow> bool" where
  "config_accepted c \<longleftrightarrow> config_sized c \<and> 1 \<le> c_worker c \<and> c_worker c \<le> MAX_WORKER
     \<and> (c_external_queue c = 0 \<or> (\<exists>k. c_external_queue c = 2 ^ k))"

lemma ltask_init_boot:
  assumes c: "config_accepted config"
  shows "\<exists>t. ltask_init [] config = Some t \<and> boot_inv t \<and> live (t_services t) = {} \<and> t_config t = config"
proof -
  from c obtain k where k: "k \<le> 30" "c_max_service config = 2 ^ k" by (auto simp: config_accepted_def config_sized_def)
  let ?P = "\<lparr>p_mask = 2 ^ k - 1, p_queue_length = c_queue config, p_id = 0, p_s = replicate (2 ^ k) None,
      p_malloc = [], p_freed = [], p_closed = []\<rparr>"
  have create: "service_create [] config = Some (Some ?P)"
    using k by (simp add: service_create_def ispow2_exp nat_power_eq)
  have sized: "config_sized config" using c by (simp add: config_accepted_def)
  note P = service_create_wf [OF sized create]
  obtain ext :: "ptr queue option" where ext: "(if c_external_queue config \<noteq> 0
          then (case malloc [] of (ok2, mem2) \<Rightarrow>
                 map_option (\<lambda>q. (q, mem2)) (queue_new_ptr ok2 (c_external_queue config)))
          else Some (None, [])) = Some (ext, [])" "case ext of None \<Rightarrow> True | Some q \<Rightarrow> queue_wf q"
    using c by (auto simp: config_accepted_def queue_new_ptr_def queue_new_pow2 empty_queue_wf)
  let ?t = "\<lparr>t_config = config, t_workers = map worker_init (map int [0 ..< nat (c_worker config)]),
          t_event_init = replicate MAX_SOCKEVENT 0, t_event = replicate MAX_SOCKEVENT sockevent_init,
          t_services = ?P, t_schedule = empty_queue (2 ^ k),
          t_external_message = ext, t_external_last_message = None,
          t_schedule_owner = THREAD_NONE, t_active_worker = 0, t_thread_count = 0, t_blocked_service = 0\<rparr>"
  have mal: "malloc [] = (True, [])" by simp
  have init: "ltask_init [] config = Some ?t"
    using create ext(1) k by (simp add: ltask_init_def queue_new_int_def queue_new_pow2)
  have q: "queued ?t = {#}" by (subst idle_workers_queued) (auto simp: run_queue_def worker_init_fields)
  have none: "service_status_get ?P i = SERVICE_STATUS_DEAD" "service_binding_get ?P i = -1"
    "service_sockevent_get ?P i = -1" for i
    using P(4) [of i] by (simp_all add: service_status_get_def service_binding_get_def service_sockevent_get_def)
  have wf: "sched_wf ?t"
    using c none worker_init_fields(1,2) by (simp add: sched_wf_def empty_queue_wf config_accepted_def)
  have "sched_inv ?t {#}"
    using wf P(1) q none by (simp add: sched_inv_def active_status_def)
  then have "boot_inv ?t" using ext(2) by (simp add: boot_inv_def)
  moreover have "live (t_services ?t) = {}" using P(4) by (simp add: live_def)
  ultimately show ?thesis using init by auto
qed

lemma boot_inv_booted:
  assumes inv: "boot_inv t"
  shows "sys_booted (ltask_run t)"
proof -
  have s: "sched_inv t {#}" and w: "t_workers t = map worker_init (map int [0 ..< nat (c_worker (t_config t))])"
    using inv by (simp_all add: boot_inv_def)
  note D = sched_invD [OF s]
  have q: "queued t = mset (run_queue t)"
    by (rule idle_workers_queued) (auto simp: w worker_init_fields)
  have "count (mset (run_queue t)) j \<le> 1" for j using D(5) [of j] q by simp
  then have "count (mset (run_queue t)) j = (if j \<in> set (run_queue t) then 1 else 0)" for j
    using count_greater_zero_iff [of "mset (run_queue t)" j] by (auto simp: not_in_iff le_Suc_eq)
  then have "distinct (run_queue t)" by (simp add: distinct_count_atmost_1)
  moreover have "run_queue (t\<lparr>t_thread_count := n\<rparr>) = run_queue t" "sched_wf (t\<lparr>t_thread_count := n\<rparr>) = sched_wf t" for n
    by (simp_all add: run_queue_def sched_wf_def)
  ultimately show ?thesis
    using D inv q w unfolding sys_booted_def ltask_run_def boot_inv_def
    by (auto simp: worker_init_fields Let_def)
qed

end
