(* ===== verification/SystemProps.thy ===== *)
theory SystemProps
  imports Boot
begin

text \<open>
  What holds of the whole system: every boot script leads to a state the threads may start
  from, and in every state they reach no assertion fails, no service is in two places or
  forgotten, and one thread schedules at a time. The phases of a round are
  \<open>schedule_dispatch\<close>. The last section shows where the scheduler itself breaks.
\<close>

section \<open>From the start\<close>

lemma booted_inv:
  assumes b: "sys_booted s"
  shows "sys_inv s"
proof -
  let ?t = "sy_task s" let ?P = "t_services (sy_task s)"
  have B: "sched_wf ?t" "pool_wf ?P" "p_malloc ?P = []" "q_size (t_schedule ?t) = p_mask ?P + 1"
    "t_external_last_message ?t = None" "t_schedule_owner ?t = -1" "length (sy_pcs s) = length (t_workers ?t)"
    "set (sy_pcs s) \<subseteq> {TTop}" "distinct (run_queue ?t)"
    "\<And>w. w \<in> set (t_workers ?t) \<Longrightarrow> w_running w = 0 \<and> w_service_ready w = 0 \<and> w_service_done w = 0
          \<and> binding_list (w_binding_queue w) = []"
    "\<And>i. i \<in> set (run_queue ?t) \<Longrightarrow> service_status_get ?P i = SERVICE_STATUS_SCHEDULE"
    "\<And>i. i \<notin> set (run_queue ?t) \<Longrightarrow> service_status_get ?P i \<notin> active_status"
    using b by (simp_all add: sys_booted_def Let_def)
  have ext: "ext_wf ?t" using b by (simp add: sys_booted_def Let_def ext_wf_def)
  have pc: "pc_at s k = TTop" if "k < length (sy_pcs s)" for k
    using B(8) nth_mem [OF that] by (auto simp: pc_at_def)
  have q: "queued ?t = mset (run_queue ?t)"
    by (rule idle_workers_queued) (use B(10) in \<open>simp add: worker_jobs_def\<close>)
  have zero: "sum_list (map g xs) = {#}" if "\<And>x. x \<in> set xs \<Longrightarrow> g x = {#}" for g :: "'a \<Rightarrow> 'b multiset" and xs
    using that by (induction xs) auto
  have pcs: "x = TTop" if "x \<in> set (sy_pcs s)" for x using B(8) that by auto
  have w: "waiting_jobs s = mset (run_queue ?t)"
    unfolding waiting_jobs_def q using zero [of "sy_pcs s" phase_jobs] pcs by force
  have a: "active_jobs s = {#}"
    unfolding active_jobs_def using zero [of "sy_pcs s" phase_done] zero [of "t_workers ?t" hold] pcs B(10)
    by (force simp: hold_def)
  have "core ?P (waiting_jobs s) (active_jobs s)"
    unfolding core_def w a using B(2,3,9,11,12) by (auto simp: distinct_count_atmost_1)
  moreover have "thread_ok ?P (t_workers ?t ! k) (pc_at s k)" if "k < length (sy_pcs s)" for k
    using pc [OF that] B(10) [of "t_workers ?t ! k"] that B(7) by (simp add: thread_ok_def)
  ultimately show ?thesis
    unfolding sys_inv_def using B ext pc by simp
qed

lemma reach_inv:
  assumes "sys_reach s0 s" and "sys_booted s0"
  shows "sys_inv s"
  using assms by induction (auto intro: booted_inv thread_step_inv)

section \<open>A small system\<close>

definition demo_vm :: vm_answers where
  "demo_vm = \<lparr>va_boot = \<lparr>vb_state = 64, vb_ok = True, vb_thread = 128\<rparr>, va_require = True, va_load = None\<rparr>"

definition demo_start :: message where
  "demo_start = \<lparr>m_from = 0, m_to = SERVICE_ID_ROOT, m_session = 1, m_type = MESSAGE_REQUEST, m_msg = 0, m_sz = 0\<rparr>"

definition demo_script :: "boot_call list" where
  "demo_script = [Boot_new ''root'' demo_vm SERVICE_ID_ROOT (-1), Boot_post demo_start]"

lemma demo_accepted: "config_accepted demo_config"
  using demo_sized by (simp add: config_accepted_def) (simp add: demo_config_def)

lemma table_room_empty: "live (t_services t) = {} \<Longrightarrow> 0 < p_mask (t_services t) \<Longrightarrow> table_room t"
  by (simp add: table_room_def)

lemma demo_init:
  obtains t0 where "ltask_init [] demo_config = Some t0" "boot_inv t0" "table_room t0"
proof -
  from ltask_init_boot [OF demo_accepted] obtain t0 where
    t0: "ltask_init [] demo_config = Some t0" "boot_inv t0" "live (t_services t0) = {}" by blast
  have "map_option (\<lambda>t. 0 < p_mask (t_services t)) (ltask_init [] demo_config) = Some True" by code_simp
  then have "0 < p_mask (t_services t0)" using t0(1) by simp
  from that [OF t0(1,2) table_room_empty [OF t0(3) this]] show thesis .
qed

text \<open>The script makes root, and posts its first message, which schedules it.\<close>

definition demo_task :: ltask where
  "demo_task = (case ltask_init [] demo_config of None \<Rightarrow> undefined
     | Some t0 \<Rightarrow> (case boot_step t0 (Boot_new ''root'' demo_vm SERVICE_ID_ROOT (-1)) of None \<Rightarrow> undefined
     | Some t1 \<Rightarrow> (case boot_step t1 (Boot_post demo_start) of None \<Rightarrow> undefined | Some t2 \<Rightarrow> t2)))"

lemma demo_boot:
  "\<exists>t0. ltask_init [] demo_config = Some t0 \<and> boot_run t0 demo_script = Some (Some demo_task)"
proof -
  from demo_init obtain t0 where t0: "ltask_init [] demo_config = Some t0" "boot_inv t0" "table_room t0" .
  let ?c1 = "Boot_new ''root'' demo_vm SERVICE_ID_ROOT (-1)" and ?c2 = "Boot_post demo_start"
  have "(case ltask_init [] demo_config of None \<Rightarrow> False | Some t \<Rightarrow>
      -1 < c_worker (t_config t) \<and> fst (service_new (t_services t) SERVICE_ID_ROOT) \<noteq> 0
      \<and> (case boot_step t ?c1 of None \<Rightarrow> False | Some t1 \<Rightarrow>
          boot_call_ok t1 ?c2 \<and> boot_step t1 ?c2 \<noteq> None))"
    unfolding demo_start_def demo_vm_def by code_simp
  then obtain t1 t2 where r: "boot_call_ok t0 ?c1" "boot_step t0 ?c1 = Some t1" "boot_call_ok t1 ?c2"
    "boot_step t1 ?c2 = Some t2" using t0(1,3) by (auto split: option.splits)
  have "boot_run t0 demo_script = Some (Some t2)"
    using r(1-4) by (simp add: demo_script_def del: boot_call_ok.simps boot_step.simps)
  moreover have "demo_task = t2" using t0(1) r by (simp add: demo_task_def del: boot_call_ok.simps boot_step.simps)
  ultimately show ?thesis using t0(1) by blast
qed

text \<open>
  Thread \<open>k\<close> alone, as far as it goes without a service to dispatch: an executable part of
  \<open>thread_step\<close>.
\<close>

fun easy_phase :: "ltask \<Rightarrow> phase \<Rightarrow> bool" where
  "easy_phase t PhExternal = (t_external_message t = None)"
| "easy_phase t (PhDispatch (i # is)) = False"
| "easy_phase t _ = True"

fun solo_step :: "nat \<Rightarrow> sys \<Rightarrow> thread_pc \<Rightarrow> sys option" where
  "solo_step k s TTop =
     (case worker_at (sy_task s) (int k) of
        None \<Rightarrow> None
      | Some w \<Rightarrow>
          if w_term_signal w \<noteq> 0 then None
          else (case worker_get_job [] w of (i, w1) \<Rightarrow>
                  if i \<noteq> 0 then Some (put_worker s k (start_worker w1 i) (TStart i))
                  else Some (put_worker s k w1 (TNoJob 1))))"
| "solo_step k s (TNoJob n) =
     (case acquire_scheduler False (int k) (sy_task s) of (r, t) \<Rightarrow>
        if r = 0 then Some (put s k t (TRound (RIdle n) PhExternal)) else None)"
| "solo_step k s (TRound r ph) =
     (if easy_phase (sy_task s) ph
      then (case round_step (\<lambda>_. False) (\<lambda>v. (v, 0)) (int k) r ph (sy_task s) of
              None \<Rightarrow> None | Some (pc, t) \<Rightarrow> Some (put s k t pc))
      else None)"
| "solo_step k s (TRetry n) =
     (case worker_at (sy_task s) (int k) of
        None \<Rightarrow> None
      | Some w \<Rightarrow> Some (put s k (sy_task s)
          (if w_service_done w \<noteq> 0 then TNoJob n
           else if n \<noteq> 0 \<and> t_blocked_service (sy_task s) = 0 then TSleep else TTop)))"
| "solo_step k s (TStart i) =
     (if service_status_get (t_services (sy_task s)) i = SERVICE_STATUS_SCHEDULE
      then Some (put_pool s k (service_status_set (t_services (sy_task s)) i SERVICE_STATUS_RUNNING) (TRun i))
      else None)"
| "solo_step k s _ = None"

fun solo_run :: "nat \<Rightarrow> nat \<Rightarrow> sys \<Rightarrow> sys option" where
  "solo_run 0 k s = Some s"
| "solo_run (Suc n) k s = (case solo_step k s (pc_at s k) of None \<Rightarrow> None | Some s1 \<Rightarrow> solo_run n k s1)"

lemma easy_phase_ok: "easy_phase (sy_task s) ph \<Longrightarrow> phase_ok s ph"
  by (cases "(s, ph)" rule: phase_ok.cases) auto

lemma solo_step_thread:
  assumes "k < length (sy_pcs s)" and "solo_step k s (pc_at s k) = Some s'"
  shows "thread_step s s' \<and> length (sy_pcs s') = length (sy_pcs s)"
proof (cases "pc_at s k")
  case TTop
  with assms show ?thesis
    by (auto simp: put_worker_def intro: th_get [unfolded put_worker_def] th_none [unfolded put_worker_def]
        simp del: worker_get_job.simps split: option.splits if_splits prod.splits)
next
  case (TNoJob n)
  with assms show ?thesis by (auto intro: th_nojob split: if_splits prod.splits)
next
  case (TRound r ph)
  with assms show ?thesis
    by (auto intro: th_round easy_phase_ok split: if_splits prod.splits option.splits)
next
  case (TRetry n)
  then obtain w where w: "worker_at (sy_task s) (int k) = Some w" using assms(2) by (auto split: option.splits)
  then have s': "s' = put s k (sy_task s) (if w_service_done w \<noteq> 0 then TNoJob n
      else if n \<noteq> 0 \<and> t_blocked_service (sy_task s) = 0 then TSleep else TTop)" using TRetry assms(2) by simp
  show ?thesis unfolding s' using th_retry [OF assms(1) TRetry w] by (simp only: put_simps)
next
  case (TStart i)
  with assms show ?thesis by (auto simp: put_pool_def intro: th_start [unfolded put_pool_def] split: if_splits)
qed (use assms(2) in simp_all)

lemma solo_run_reach:
  assumes "solo_run n k s = Some s'" and "sys_reach s0 s" and "k < length (sy_pcs s)"
  shows "sys_reach s0 s' \<and> length (sy_pcs s') = length (sy_pcs s)"
  using assms
proof (induction n arbitrary: s)
  case 0
  then show ?case by simp
next
  case (Suc n)
  then obtain s1 where s1: "solo_step k s (pc_at s k) = Some s1" "solo_run n k s1 = Some s'"
    by (auto split: option.splits)
  from solo_step_thread [OF Suc.prems(3) s1(1)] Suc.IH [OF s1(2)] Suc.prems(2,3) reach_step
  show ?case by metis
qed

section \<open>Properties\<close>

text \<open>
  C18: booting never fails, if memory is always there and the configuration is accepted, that is its
  sizes are those \<open>config_load\<close> makes and its \<open>external_queue\<close> is 0 or a power of two, which
  \<open>config_load\<close> does not see to (\<open>config_accepted\<close>). Then \<open>ltask_init\<close> returns, every boot script
  that keeps its contract (\<open>boot_call_ok\<close>: room in the table, a worker that exists, an id that is free,
  messages to services that can take them) runs to its end without an abort, and the state it
  leaves is one \<open>ltask_run\<close> may start the threads on: nobody owns the scheduler, the workers
  have no job, and the run queue holds exactly the services that are scheduled, each once.
\<close>

theorem boot_script_starts_system:
  assumes "config_accepted config"
  shows "\<exists>t0. ltask_init [] config = Some t0
    \<and> (\<forall>cs. boot_run t0 cs \<noteq> None \<and> (\<forall>t. boot_run t0 cs = Some (Some t) \<longrightarrow> sys_booted (ltask_run t)))"
proof -
  from ltask_init_boot [OF assms] obtain t0 where
    t0: "ltask_init [] config = Some t0" "boot_inv t0" "live (t_services t0) = {}" by blast
  have "0 \<le> p_mask (t_services t0)" using t0(2)
    by (auto simp: boot_inv_def sched_inv_def elim!: pool_wfE)
  then have "int (card (live (t_services t0))) \<le> p_mask (t_services t0)" using t0(3) by simp
  from boot_run_spec [OF t0(2) this] boot_inv_booted t0(1) show ?thesis by blast
qed

lemma demo_booted: "sys_booted (ltask_run demo_task)"
proof -
  from demo_boot obtain t0 where r: "ltask_init [] demo_config = Some t0"
    "boot_run t0 demo_script = Some (Some demo_task)" by blast
  from ltask_init_boot [OF demo_accepted] r(1) have b: "boot_inv t0" "live (t_services t0) = {}" by auto
  have "0 \<le> p_mask (t_services t0)" using b(1) by (auto simp: boot_inv_def sched_inv_def elim!: pool_wfE)
  then have "boot_inv demo_task" using boot_run_spec [OF b(1), of demo_script] b(2) r(2) by simp
  then show ?thesis by (rule boot_inv_booted)
qed

theorem boot_script_starts_system_witness:
  "\<exists>t0. ltask_init [] demo_config = Some t0 \<and> boot_run t0 demo_script = Some (Some demo_task)
     \<and> sys_booted (ltask_run demo_task)"
  using boot_script_starts_system [OF demo_accepted] demo_boot by fastforce


text \<open>The first worker of the small system schedules root, takes it and runs it.\<close>

lemma demo_runs:
  obtains s where "sys_reach (ltask_run demo_task) s" "length (sy_pcs s) = 2"
    "pc_at s 0 = TRun SERVICE_ID_ROOT" "w_running (t_workers (sy_task s) ! 0) = SERVICE_ID_ROOT"
    "service_status_get (t_services (sy_task s)) SERVICE_ID_ROOT = SERVICE_STATUS_RUNNING"
proof -
  have "(case solo_run 15 0 (ltask_run demo_task) of None \<Rightarrow> False
      | Some s \<Rightarrow> pc_at s 0 = TRun SERVICE_ID_ROOT \<and> w_running (t_workers (sy_task s) ! 0) = SERVICE_ID_ROOT
          \<and> service_status_get (t_services (sy_task s)) SERVICE_ID_ROOT = SERVICE_STATUS_RUNNING)"
    by code_simp
  then obtain s where s: "solo_run 15 0 (ltask_run demo_task) = Some s" "pc_at s 0 = TRun SERVICE_ID_ROOT"
    "w_running (t_workers (sy_task s) ! 0) = SERVICE_ID_ROOT"
    "service_status_get (t_services (sy_task s)) SERVICE_ID_ROOT = SERVICE_STATUS_RUNNING"
    by (auto split: option.splits)
  have "length (sy_pcs (ltask_run demo_task)) = 2" by code_simp
  with solo_run_reach [OF s(1) reach_init] that [of s] s show thesis by simp
qed

text \<open>The same run stopped while the worker schedules.\<close>

lemma demo_schedules:
  obtains s where "sys_reach (ltask_run demo_task) s" "length (sy_pcs s) = 2"
    "pc_at s 0 = TRound (RIdle 1) (PhAssign [SERVICE_ID_ROOT])"
    "service_status_get (t_services (sy_task s)) SERVICE_ID_ROOT = SERVICE_STATUS_SCHEDULE"
proof -
  have "(case solo_run 8 0 (ltask_run demo_task) of None \<Rightarrow> False
      | Some s \<Rightarrow> pc_at s 0 = TRound (RIdle 1) (PhAssign [SERVICE_ID_ROOT])
          \<and> service_status_get (t_services (sy_task s)) SERVICE_ID_ROOT = SERVICE_STATUS_SCHEDULE)"
    by code_simp
  then obtain s where s: "solo_run 8 0 (ltask_run demo_task) = Some s"
    "pc_at s 0 = TRound (RIdle 1) (PhAssign [SERVICE_ID_ROOT])"
    "service_status_get (t_services (sy_task s)) SERVICE_ID_ROOT = SERVICE_STATUS_SCHEDULE"
    by (auto split: option.splits)
  have "length (sy_pcs (ltask_run demo_task)) = 2" by code_simp
  with solo_run_reach [OF s(1) reach_init] that [of s] s show thesis by simp
qed


text \<open>
  C2: no service is in two places and none is forgotten. In every state the code can reach from a
  booted system (with the Lua code of C1, and \<open>malloc\<close> never failing) a service is at most once in the
  run queue, a worker's \<open>service_ready\<close>, a binding queue, the hands of the scheduling thread, or on a
  worker that runs it or has finished with it; a service scheduled, running or done is in one of them;
  those waiting are scheduled, and an idle or uninitialised service is in none; unless the run has
  passed through a state in which a thread was about to dispatch and the contract \<open>phase_ok\<close> did not
  hold. It can fail after that: signalling a dead service to a root with a full mailbox puts the dead
  service on the run queue (\<open>SchedLimits\<close>).
\<close>

theorem service_in_one_place:
  assumes "sys_booted s0" and "code_reach s0 s"
  shows "count (waiting_jobs s + active_jobs s) i \<le> 1
    \<and> (service_status_get (t_services (sy_task s)) i \<in> active_status \<longrightarrow> i \<in># waiting_jobs s + active_jobs s)
    \<and> (i \<in># waiting_jobs s \<longrightarrow> service_status_get (t_services (sy_task s)) i = SERVICE_STATUS_SCHEDULE)
    \<and> (i \<in># active_jobs s \<longrightarrow> service_status_get (t_services (sy_task s)) i
          \<notin> {SERVICE_STATUS_UNINITIALIZED, SERVICE_STATUS_IDLE})
    \<or> contract_broken s0 s"
  using code_reach_split [OF assms(2)]
proof
  assume "sys_reach s0 s"
  note D = coreD [OF sys_invD(4) [OF reach_inv [OF this assms(1)]]]
  show ?thesis by (rule disjI1, intro conjI impI D(3) D(4) D(5)) (use D(7) [of i] in blast)
qed simp

theorem service_in_one_place_witness:
  "\<exists>s. sys_reach (ltask_run demo_task) s \<and> pc_at s 0 = TRound (RIdle 1) (PhAssign [SERVICE_ID_ROOT])
     \<and> (SERVICE_ID_ROOT \<in># waiting_jobs s + active_jobs s \<or> contract_broken (ltask_run demo_task) s)"
proof -
  from demo_schedules obtain s where r: "sys_reach (ltask_run demo_task) s"
    "pc_at s 0 = TRound (RIdle 1) (PhAssign [SERVICE_ID_ROOT])"
    "service_status_get (t_services (sy_task s)) SERVICE_ID_ROOT = SERVICE_STATUS_SCHEDULE" by metis
  from service_in_one_place [OF demo_booted sys_code_reach [OF r(1)], of SERVICE_ID_ROOT] r show ?thesis
    by (auto simp: active_status_def)
qed

text \<open>
  C16: two workers never have the same service. A service is on at most one worker, as the
  one it runs or the one it has finished with, and while a thread runs its Lua code the
  status is RUNNING and no other thread runs or dispatches it.
\<close>

theorem service_on_one_worker:
  assumes "sys_booted s0" and "sys_reach s0 s" and "k < length (sy_pcs s)" and "l < length (sy_pcs s)"
    and "i \<in># hold (t_workers (sy_task s) ! k) + phase_done (pc_at s k)"
    and "i \<in># hold (t_workers (sy_task s) ! l) + phase_done (pc_at s l)"
  shows "k = l \<and> (pc_at s k = TRun i \<longrightarrow> service_status_get (t_services (sy_task s)) i = SERVICE_STATUS_RUNNING
    \<and> w_running (t_workers (sy_task s) ! k) = i)"
proof -
  note inv = reach_inv [OF assms(2,1)]
  note D = sys_invD [OF inv]
  have "k = l" using places_disjoint [OF D(5) assms(3,4) _ coreD(8) [OF D(4)] assms(5)] assms(6) by blast
  then show ?thesis using D(7) [OF assms(3)] by (auto simp: thread_ok_def)
qed

theorem service_on_one_worker_witness:
  "\<exists>s. sys_reach (ltask_run demo_task) s \<and> pc_at s 0 = TRun SERVICE_ID_ROOT
     \<and> SERVICE_ID_ROOT \<notin># hold (t_workers (sy_task s) ! 1) + phase_done (pc_at s 1)"
proof -
  from demo_runs obtain s where r: "sys_reach (ltask_run demo_task) s" "length (sy_pcs s) = 2"
    "pc_at s 0 = TRun SERVICE_ID_ROOT" "w_running (t_workers (sy_task s) ! 0) = SERVICE_ID_ROOT" .
  have "SERVICE_ID_ROOT \<in># hold (t_workers (sy_task s) ! 0) + phase_done (pc_at s 0)"
    using r(4) by (simp add: hold_def)
  with service_on_one_worker [OF demo_booted r(1), of 0 1 SERVICE_ID_ROOT] r(2) have
    "SERVICE_ID_ROOT \<notin># hold (t_workers (sy_task s) ! 1) + phase_done (pc_at s 1)" by auto
  with r show ?thesis by blast
qed

text \<open>
  C17: one thread schedules at a time. At most one thread is between \<open>acquire_scheduler\<close> and
  \<open>release_scheduler\<close>, and \<open>schedule_owner\<close> names it.
\<close>

theorem one_thread_schedules:
  assumes "sys_booted s0" and "sys_reach s0 s" and "k < length (sy_pcs s)" and "owns (pc_at s k)"
  shows "t_schedule_owner (sy_task s) = int k \<and> (\<forall>l < length (sy_pcs s). owns (pc_at s l) \<longrightarrow> l = k)"
  using sys_invD(6) [OF reach_inv [OF assms(2,1)]] assms(3,4) by auto

theorem one_thread_schedules_witness:
  "\<exists>s. sys_reach (ltask_run demo_task) s \<and> owns (pc_at s 0) \<and> length (sy_pcs s) = 2 \<and> \<not> owns (pc_at s 1)"
proof -
  from demo_schedules obtain s where r: "sys_reach (ltask_run demo_task) s" "length (sy_pcs s) = 2"
    "pc_at s 0 = TRound (RIdle 1) (PhAssign [SERVICE_ID_ROOT])" .
  then have o: "owns (pc_at s 0)" by simp
  from one_thread_schedules [OF demo_booted r(1) _ o] r(2) have "\<forall>l < length (sy_pcs s). owns (pc_at s l) \<longrightarrow> l = 0" by simp
  then have "\<not> owns (pc_at s 1)" using r(2) by (metis one_less_numeral_iff semiring_norm(76) zero_neq_one)
  with r o show ?thesis by blast
qed

section \<open>The phases are schedule_dispatch\<close>

lemma collect_length:
  assumes "collect_done_loop t jobs ns = Some (jobs', t')" and "int (length jobs) \<le> MAX_WORKER"
  shows "int (length jobs') \<le> MAX_WORKER"
  using assms
  by (induction t jobs ns rule: collect_done_loop.induct)
    (auto simp: Let_def jobs_push_def split: prod.splits if_splits option.splits bind_splits)

text \<open>A round from the assignment of pending jobs on.\<close>

definition round_tail :: "(int \<Rightarrow> bool) \<Rightarrow> ltask \<Rightarrow> ltask option" where
  "round_tail fails t3 = do {
     (jobs, t4) \<leftarrow> get_pending_jobs fails t3;
     (free_slot, t5) \<leftarrow> count_freeslot t4;
     c_assert (free_slot \<ge> int (length jobs));
     (prepare, t6) \<leftarrow> prepare_task t5 jobs (free_slot - int (length jobs));
     t7 \<leftarrow> assign_prepare_task t6 prepare;
     trigger_blocked_workers t7
   }"

definition same_outcome :: "ltask option \<Rightarrow> round \<Rightarrow> (thread_pc \<times> ltask) option \<Rightarrow> bool" where
  "same_outcome code r model = (case code of
     Some t \<Rightarrow> model = Some (end_round r, t)
   | None \<Rightarrow> (case model of None \<Rightarrow> True | Some (pc, t) \<Rightarrow> (case pc of TSlots jobs \<Rightarrow> True | _ \<Rightarrow> False)))"

lemma run_tail:
  "same_outcome (round_tail fails t) r (run_round (Suc (Suc (Suc (Suc (Suc m))))) fails pack k r PhPending t)"
proof (cases "get_pending_jobs fails t")
  case None
  then show ?thesis by (simp add: same_outcome_def round_tail_def)
next
  case (Some a)
  obtain jobs t4 where p: "get_pending_jobs fails t = Some (jobs, t4)" using Some by (cases a) auto
  show ?thesis
  proof (cases "count_freeslot t4")
    case None
    with p show ?thesis by (simp add: same_outcome_def round_tail_def)
  next
    case (Some b)
    obtain n t5 where c: "count_freeslot t4 = Some (n, t5)" using Some by (cases b) auto
    show ?thesis
    proof (cases "int (length jobs) \<le> n")
      case False
      with p c show ?thesis by (simp add: same_outcome_def round_tail_def)
    next
      case slots: True
      show ?thesis
      proof (cases "prepare_task t5 jobs (n - int (length jobs))")
        case None
        with p c slots show ?thesis by (simp add: same_outcome_def round_tail_def)
      next
        case (Some d)
        obtain prep t6 where q: "prepare_task t5 jobs (n - int (length jobs)) = Some (prep, t6)" using Some by (cases d) auto
        show ?thesis
          using p c slots q
          by (cases "assign_prepare_task t6 prep"; cases "trigger_blocked_workers (the (assign_prepare_task t6 prep))";
              cases r) (auto simp: same_outcome_def round_tail_def end_round_def)
      qed
    qed
  qed
qed

lemma run_dispatch:
  "run_round (Suc (length js) + m) fails pack k r (PhDispatch js) t =
     (case dispath_out_messages t js of None \<Rightarrow> None | Some t1 \<Rightarrow> run_round m fails pack k r PhPending t1)"
proof (induction js arbitrary: t)
  case Nil
  then show ?case by simp
next
  case (Cons i js)
  then show ?case by (cases "dispatch_done t i") simp_all
qed

text \<open>
  The interleaved round is the code's round. Run without interruption, the phases that
  the thread model steps through compute exactly \<open>schedule_dispatch\<close>: they end where it ends, in
  the same state, and they fail exactly where it fails, the assertion on free slots included.
  264 steps are enough, for a round collects at most 256 services.
\<close>

theorem round_is_schedule_dispatch:
  "same_outcome (schedule_dispatch fails pack t) r (run_round (264 + m) fails pack k r PhExternal t)"
proof -
  define n where "n = 262 + m"
  have f: "264 + m = Suc (Suc n)" by (simp add: n_def)
  let ?ext = "if t_external_message t \<noteq> None then dispatch_external_messages pack t else Some t"
  have first: "round_step fails pack k r PhExternal t = map_option (Pair (TRound r PhCollect)) ?ext" by simp
  show ?thesis
  proof (cases ?ext)
    case None
    then show ?thesis unfolding f using first
      by (simp add: same_outcome_def schedule_dispatch_def del: round_step.simps(1))
  next
    case ext: (Some t1)
    show ?thesis
    proof (cases "collect_done_job t1")
      case None
      then show ?thesis unfolding f using first ext
        by (simp add: same_outcome_def schedule_dispatch_def del: round_step.simps(1))
    next
      case (Some a)
      obtain js t2 where c: "collect_done_job t1 = Some (js, t2)" using Some by (cases a) auto
      then have "int (length js) \<le> MAX_WORKER" using collect_length unfolding collect_done_job_def by fastforce
      then have "length js \<le> 256" by simp
      then have d: "n = Suc (length js) + Suc (Suc (Suc (Suc (Suc (n - (length js + 6))))))" by (simp add: n_def)
      have run: "run_round (264 + m) fails pack k r PhExternal t = run_round n fails pack k r (PhDispatch js) t2"
        unfolding f using first ext c by (simp del: round_step.simps(1))
      have code: "schedule_dispatch fails pack t = (case dispath_out_messages t2 js of None \<Rightarrow> None
          | Some t3 \<Rightarrow> round_tail fails t3)"
        using ext c by (simp add: schedule_dispatch_def round_tail_def split: option.splits)
      show ?thesis
        unfolding run code by (subst d, subst run_dispatch)
          (cases "dispath_out_messages t2 js", simp_all add: run_tail same_outcome_def [of None] del: run_round.simps)
    qed
  qed
qed

end
