(* ===== verification/SchedLimits.thy ===== *)
theory SchedLimits
  imports SystemProps
begin

text \<open>
  Where the scheduler of \<open>src/ltask.c\<close> breaks: three situations that its own invariant allows
  and in which an assertion fails or a service is never scheduled again.
\<close>

section \<open>Boot scripts by evaluation\<close>

definition occupied :: "service_pool \<Rightarrow> nat" where
  "occupied p = length (filter (\<lambda>s. s \<noteq> None) (p_s p))"

lemma card_live_occupied:
  assumes wf: "pool_wf p"
  shows "card (live p) \<le> occupied p"
proof -
  have "occupied p = card {n. n < length (p_s p) \<and> p_s p ! n \<noteq> None}"
    by (simp add: occupied_def length_filter_conv_card)
  moreover have "card (live p) \<le> card {n. n < length (p_s p) \<and> p_s p ! n \<noteq> None}"
  proof (rule card_inj_on_le [where f = "service_slot p"])
    show "inj_on (service_slot p) (live p)"
    proof (rule inj_onI)
      fix i j assume ij: "i \<in> live p" "j \<in> live p" "service_slot p i = service_slot p j"
      then obtain S T where S: "get_service p i = Some S" and T: "get_service p j = Some T" by (auto simp: live_def)
      have "S = T" using get_service_slot [OF S] get_service_slot [OF T] ij(3) by simp
      then show "i = j" using get_service_id [OF S] get_service_id [OF T] by simp
    qed
    show "service_slot p ` live p \<subseteq> {n. n < length (p_s p) \<and> p_s p ! n \<noteq> None}"
      using service_slot_bound [OF wf] get_service_slot by (fastforce simp: live_def)
  qed simp
  ultimately show ?thesis by simp
qed

fun boot_exec :: "ltask \<Rightarrow> boot_call list \<Rightarrow> ltask option" where
  "boot_exec t [] = Some t"
| "boot_exec t (c # cs) =
     (if (case c of Boot_new label va sid worker \<Rightarrow>
             int (occupied (t_services t)) < p_mask (t_services t) \<and> worker < c_worker (t_config t)
             \<and> fst (service_new (t_services t) sid) \<noteq> 0
           | Boot_post m \<Rightarrow> boot_call_ok t c)
      then (case boot_step t c of None \<Rightarrow> None | Some t1 \<Rightarrow> boot_exec t1 cs)
      else None)"

lemma boot_exec_inv:
  assumes "boot_exec t cs = Some t'" and "boot_inv t" and "int (card (live (t_services t))) \<le> p_mask (t_services t)"
  shows "boot_inv t' \<and> int (card (live (t_services t'))) \<le> p_mask (t_services t')"
  using assms
proof (induction cs arbitrary: t)
  case Nil
  then show ?case by simp
next
  case (Cons c cs)
  have wf: "pool_wf (t_services t)" using Cons.prems(2) by (simp add: boot_inv_def sched_inv_def)
  have ok: "boot_call_ok t c"
    using Cons.prems(1) card_live_occupied [OF wf]
    by (cases c) (auto simp: table_room_def split: if_splits)
  from boot_step_spec [OF Cons.prems(2) ok Cons.prems(3)] Cons.IH Cons.prems(1) show ?case
    by (auto simp del: boot_call_ok.simps boot_step.simps split: if_splits)
qed

definition limit_config :: ltask_config where
  "limit_config = \<lparr>c_worker = 2, c_queue = 2, c_queue_sending = 2, c_max_service = 8,
     c_external_queue = 4, c_crashlog = ''''\<rparr>"

definition limit_message :: "service_id \<Rightarrow> message" where
  "limit_message i = \<lparr>m_from = 0, m_to = i, m_session = 1, m_type = MESSAGE_REQUEST, m_msg = 0, m_sz = 0\<rparr>"

lemma limit_accepted: "config_accepted limit_config"
proof -
  have "config_sized limit_config"
    unfolding config_sized_def limit_config_def by (intro conjI exI [of _ 3] exI [of _ 1]) auto
  moreover have "c_external_queue limit_config = 2 ^ 2" by (simp add: limit_config_def)
  ultimately show ?thesis unfolding config_accepted_def by (simp add: limit_config_def) (metis power2_eq_square mult_2_right numeral_Bit0 one_add_one)
qed

definition limit_boot :: "boot_call list \<Rightarrow> ltask option" where
  "limit_boot cs = (case ltask_init [] limit_config of None \<Rightarrow> None | Some t \<Rightarrow> boot_exec t cs)"

lemma limit_boot_inv:
  assumes "limit_boot cs = Some t"
  shows "sched_inv t {#}" and "boot_inv t" and "int (card (live (t_services t))) \<le> p_mask (t_services t)"
proof -
  from ltask_init_boot [OF limit_accepted] obtain t0 where
    t0: "ltask_init [] limit_config = Some t0" "boot_inv t0" "live (t_services t0) = {}" by blast
  have "0 \<le> p_mask (t_services t0)" using t0(2) by (auto simp: boot_inv_def sched_inv_def elim!: pool_wfE)
  with boot_exec_inv [of t0 cs t] assms t0 show "boot_inv t" "int (card (live (t_services t))) \<le> p_mask (t_services t)"
    by (simp_all add: limit_boot_def)
  then show "sched_inv t {#}" by (simp add: boot_inv_def)
qed

section \<open>More jobs than free workers\<close>

text \<open>
  Four services posted to; then worker 0 has just taken service 4, has the unbound service 2
  ready and service 3, which is bound to it, in its binding queue; worker 1 has root ready.
\<close>

definition four_services :: "boot_call list" where
  "four_services = [Boot_new ''a'' demo_vm 1 (-1), Boot_new ''b'' demo_vm 2 (-1), Boot_new ''c'' demo_vm 3 0,
     Boot_new ''d'' demo_vm 4 (-1), Boot_post (limit_message 1), Boot_post (limit_message 2),
     Boot_post (limit_message 3), Boot_post (limit_message 4)]"

definition crowded :: "ltask \<Rightarrow> ltask" where
  "crowded t = t\<lparr>t_schedule := empty_queue 8,
     t_workers := [(worker_init 0)\<lparr>w_busy := 1, w_running := 4, w_service_ready := 2,
         w_binding_queue := \<lparr>bq_head = 0, bq_tail = 1, bq_q = (replicate 16 None)[0 := Some 3]\<rparr>\<rparr>,
       (worker_init 1)\<lparr>w_service_ready := 1\<rparr>]\<rparr>"

lemma boot_queued:
  assumes "boot_inv t"
  shows "queued t = mset (run_queue t)"
  by (rule idle_workers_queued) (use assms in \<open>auto simp: boot_inv_def worker_init_fields\<close>)

lemma crowded_inv:
  assumes t: "limit_boot four_services = Some t"
  shows "sched_inv (crowded t) {#4#}"
proof -
  note inv = limit_boot_inv [OF t]
  note D = sched_invD [OF inv(1)]
  have "(case limit_boot four_services of None \<Rightarrow> False | Some t \<Rightarrow> run_queue t = [1, 2, 3, 4]
      \<and> c_worker (t_config t) = 2 \<and> p_mask (t_services t) = 7)" by code_simp
  then have e: "run_queue t = [1, 2, 3, 4]" "c_worker (t_config t) = 2" "p_mask (t_services t) = 7" using t by simp_all
  have q: "queued t = {#1, 2, 3, 4#}" using boot_queued [OF inv(2)] e(1) by simp
  define w0 where "w0 = (worker_init 0)\<lparr>w_busy := 1, w_running := 4, w_service_ready := 2,
      w_binding_queue := \<lparr>bq_head = 0, bq_tail = 1, bq_q = (replicate 16 None)[0 := Some 3]\<rparr>\<rparr>"
  define w1 where "w1 = (worker_init 1)\<lparr>w_service_ready := 1\<rparr>"
  have c: "crowded t = t\<lparr>t_schedule := empty_queue (2 ^ 3), t_workers := [w0, w1]\<rparr>"
    by (simp add: crowded_def w0_def w1_def)
  have ints: "int_of_id 2 = 2" "int_of_id 1 = 1" "id_of_int 2 = 2" "id_of_int 1 = 1" by code_simp+
  then have "2 \<in> job_ints" "1 \<in> job_ints" by (metis job_ints_simps(1))+
  moreover have b: "binding_wf (w_binding_queue w0)" "binding_list (w_binding_queue w0) = [3]"
    unfolding w0_def by code_simp+
  moreover have f: "w_service_ready w0 = 2" "w_service_done w0 = 0" "w_worker_id w0 = 0"
    "w_service_ready w1 = 1" "w_service_done w1 = 0" "w_worker_id w1 = 1"
    "w_binding_queue w1 = w_binding_queue (worker_init 1)"
    by (simp_all add: w0_def w1_def worker_init_def)
  ultimately have wf01: "worker_wf w0" "worker_wf w1"
    using worker_init_fields(1) [of 1] by (simp_all add: worker_wf_def)
  have jobs: "worker_jobs w0 = {#2, 3#}" "worker_jobs w1 = {#1#}"
    using b(2) f ints(3,4) worker_init_fields(6) [of 1] by (simp_all add: worker_jobs_def)
  have each: "worker_wf ([w0, w1] ! n) \<and> w_worker_id ([w0, w1] ! n) = int n" if "n < 2" for n
  proof -
    from that consider "n = 0" | "n = 1" by linarith
    then show ?thesis by cases (simp_all add: wf01 f)
  qed
  have wf: "sched_wf (crowded t)"
    unfolding c sched_wf_def
    using D(1) e(2) empty_queue_wf [of 3, where 'a = int] each by (simp add: sched_wf_def)
  have q': "queued (crowded t) = {#1, 2, 3#}"
    unfolding c by (simp add: queued_def run_queue_def jobs)
  have s: "service_status_get (t_services t) i = SERVICE_STATUS_SCHEDULE" if "i \<in># queued t" for i
    using D(6) that by blast
  have four: "service_status_get (t_services t) 4 = SERVICE_STATUS_SCHEDULE" using s [of 4] q by simp
  then have "get_service (t_services t) 4 \<noteq> None" using status_active [of "t_services t" 4] by simp
  then have "service_status_get (t_services (crowded t)) i \<notin> {SERVICE_STATUS_UNINITIALIZED, SERVICE_STATUS_IDLE}
      \<and> get_service (t_services (crowded t)) i \<noteq> None" if "i \<in># {#4#}" for i
    using four that by (simp add: c)
  moreover have "service_status_get (t_services (crowded t)) i = SERVICE_STATUS_SCHEDULE"
    if "i \<in># queued (crowded t)" for i
    using s [of i] that q q' by (auto simp: c)
  moreover have "count (queued (crowded t) + {#4#}) i \<le> 1" for i using q' by simp
  moreover have "service_status_get (t_services (crowded t)) i \<notin> active_status"
    if "i \<notin># queued (crowded t) + {#4#}" for i
    using D(9) [of i] that q q' by (simp add: c)
  ultimately show ?thesis using wf D(2,4) e(3) unfolding sched_inv_def by (simp add: c)
qed

text \<open>
  The assertion \<open>free_slot >= job_n\<close> of \<open>schedule_dispatch\<close> is not guaranteed by the
  scheduler's invariant. In a state that satisfies all of it, a round steals the unbound job
  of a busy worker whose binding queue is not empty; that worker then gets its bound job and
  is not free, the other worker has a job already, and there is a job with no slot.
\<close>

theorem more_jobs_than_slots:
  "\<exists>t jobs t1 n t2. sched_inv t {#4#} \<and> get_pending_jobs (\<lambda>_. False) t = Some (jobs, t1)
     \<and> count_freeslot t1 = Some (n, t2) \<and> n < int (length jobs)
     \<and> schedule_dispatch (\<lambda>_. False) (\<lambda>v. (v, 0)) t = None"
proof -
  have "(case limit_boot four_services of None \<Rightarrow> False | Some t \<Rightarrow>
      (case get_pending_jobs (\<lambda>_. False) (crowded t) of None \<Rightarrow> False | Some (jobs, t1) \<Rightarrow>
        (case count_freeslot t1 of None \<Rightarrow> False | Some (n, t2) \<Rightarrow> n < int (length jobs)))
      \<and> schedule_dispatch (\<lambda>_. False) (\<lambda>v. (v, 0)) (crowded t) = None)" by code_simp
  then show ?thesis using crowded_inv by (fastforce split: option.splits prod.splits)
qed

section \<open>A burst of external messages\<close>

text \<open>With more messages than root's mailbox has room for, the loop returns from inside.\<close>

lemma external_loop_blocks:
  assumes "pool_wf (t_services t)" and "p_malloc (t_services t) = []"
    and "get_service (t_services t) 1 = Some S" and "s_status S \<noteq> SERVICE_STATUS_DEAD" and "s_msg S = Some mq"
    and "queue_wf q" and "queue_count q < fuel" and "queue_cap mq < queue_count mq + queue_count q"
  shows "\<exists>P mq' q' m send'. external_loop fuel pack q send t = Some (True, send',
      t\<lparr>t_services := P, t_external_message := Some q', t_external_last_message := Some m\<rparr>)
    \<and> m_to m = 1 \<and> pool_wf P \<and> get_service P 1 = Some (S\<lparr>s_msg := Some mq'\<rparr>) \<and> queue_count mq' = queue_cap mq'"
  using assms
proof (induction fuel arbitrary: q send t S mq)
  case 0
  then show ?case by simp
next
  case (Suc fuel)
  note prems = Suc.prems
  have mwf: "queue_wf mq" using service_wf_mailbox [OF get_service_wf(1) [OF prems(1,3)] prems(5)] .
  have some: "0 < queue_count q" using prems(8) queue_count_le_cap [OF mwf] by simp
  let ?q1 = "ring_deq q" and ?m = "external_message_of (pack (hd (queue_list q)))"
  let ?t1 = "t\<lparr>t_external_message := Some ?q1\<rparr>"
  have pm: "(t_services t)\<lparr>p_malloc := []\<rparr> = t_services t" using prems(2) by (cases "t_services t") simp
  have new: "message_new (p_malloc (t_services ?t1)) ?m = (Some ?m, [])" using prems(2) by (simp add: message_new_def)
  have to: "m_to ?m = 1" by (simp add: external_message_of_def)
  show ?case
  proof (cases "queue_count mq < queue_cap mq")
    case False
    have "send_external_message ?t1 (Some ?m) = Some (1, ?t1)"
      using push_message_full [OF prems(1,3,4,5) False, of ?m] to by (simp add: send_external_message_def)
    then have "external_loop (Suc fuel) pack q send t = Some (True, send, t\<lparr>t_services := t_services t,
        t_external_message := Some ?q1, t_external_last_message := Some ?m\<rparr>)"
      using queue_pop_ptr_some [OF prems(6) some] new pm by (simp add: Let_def)
    moreover have "S = S\<lparr>s_msg := Some mq\<rparr>" using prems(5) by (cases S) simp
    moreover have "queue_count mq = queue_cap mq" using False queue_count_le_cap [OF mwf] by simp
    ultimately show ?thesis using prems(1,3) to by metis
  next
    case True
    let ?f = "\<lambda>S. S\<lparr>s_msg := Some (ring_enq mq ?m)\<rparr>"
    let ?P = "upd_service (t_services t) 1 ?f" and ?S = "S\<lparr>s_msg := Some (ring_enq mq ?m)\<rparr>"
    have sent: "send_external_message ?t1 (Some ?m) = Some (0, ?t1\<lparr>t_services := ?P\<rparr>)"
      using push_message_room [OF prems(1,3,4,5) True, of ?m] to by (simp add: send_external_message_def)
    have keeps: "pool_wf ?P" "get_service ?P 1 = Some ?S"
      using tab.inv_upd [OF prems(1) service_keeps_msg [OF ring_enq_wf [OF mwf True]]]
        tab.get_upd [OF prems(1) service_keeps_msg [OF ring_enq_wf [OF mwf True]], of 1] prems(3) by simp_all
    have mem: "p_malloc ?P = []" using prems(2) by (simp add: upd_service_def split: option.splits)
    have cap: "queue_cap (ring_enq mq ?m) = queue_cap mq" by simp
    have lt: "queue_cap (ring_enq mq ?m) < queue_count (ring_enq mq ?m) + queue_count ?q1"
      using prems(8) True some cap ring_enq_count [OF mwf True] ring_deq_count [OF prems(6) some] by simp
    have t2: "pool_wf (t_services (?t1\<lparr>t_services := ?P\<rparr>))" "p_malloc (t_services (?t1\<lparr>t_services := ?P\<rparr>)) = []"
      "get_service (t_services (?t1\<lparr>t_services := ?P\<rparr>)) 1 = Some ?S" "s_status ?S \<noteq> SERVICE_STATUS_DEAD"
      "s_msg ?S = Some (ring_enq mq ?m)"
      using keeps mem prems(4) by simp_all
    have "queue_count ?q1 < fuel" using ring_deq_count [OF prems(6) some] prems(7) some by simp
    from Suc.IH [OF t2 ring_deq_wf [OF prems(6) some] this lt, of 1]
    obtain P mq' q' m send' where IH: "external_loop fuel pack ?q1 1 (?t1\<lparr>t_services := ?P\<rparr>) = Some (True, send',
        t\<lparr>t_services := P, t_external_message := Some q', t_external_last_message := Some m\<rparr>)"
      "m_to m = 1" "pool_wf P" "get_service P 1 = Some (?S\<lparr>s_msg := Some mq'\<rparr>)" "queue_count mq' = queue_cap mq'"
      by simp blast
    have "external_loop (Suc fuel) pack q send t = external_loop fuel pack ?q1 1 (?t1\<lparr>t_services := ?P\<rparr>)"
      using queue_pop_ptr_some [OF prems(6) some] new sent pm by (simp add: Let_def)
    with IH show ?thesis
      by (intro exI [of _ P] exI [of _ mq'] exI [of _ q'] exI [of _ m] exI [of _ send']) (simp del: external_loop.simps)
  qed
qed

text \<open>
  C25: a burst of external messages can leave root asleep for ever. In any state with an idle root
  and more external messages than root's mailbox has room for, \<open>dispatch_external_messages\<close> returns
  from its loop as soon as the mailbox is full, before \<open>check_message_to\<close>: root is still idle, has a
  full mailbox, and was put on no queue. From then on it does nothing at all, whatever other external
  messages arrive, so it never wakes root. (Memory for the messages is taken to be there, and a
  message that waited from an earlier round not to.)
\<close>

theorem external_burst_strands_root:
  assumes "pool_wf (t_services t)" and "p_malloc (t_services t) = []"
    and "get_service (t_services t) SERVICE_ID_ROOT = Some S" and "s_status S = SERVICE_STATUS_IDLE"
    and "s_msg S = Some mq" and "t_external_last_message t = None"
    and "t_external_message t = Some q" and "queue_wf q" and "queue_cap mq < queue_count mq + queue_count q"
  shows "\<exists>t2 S2 mq2. dispatch_external_messages pack t = Some t2
     \<and> t_schedule t2 = t_schedule t \<and> t_workers t2 = t_workers t
     \<and> get_service (t_services t2) SERVICE_ID_ROOT = Some S2 \<and> s_status S2 = SERVICE_STATUS_IDLE
     \<and> s_msg S2 = Some mq2 \<and> queue_count mq2 = queue_cap mq2
     \<and> (\<forall>pack' later. dispatch_external_messages pack' (t2\<lparr>t_external_message := later\<rparr>)
          = Some (t2\<lparr>t_external_message := later\<rparr>))"
proof -
  have alive: "s_status S \<noteq> SERVICE_STATUS_DEAD" using assms(4) by simp
  have fuel: "queue_count q < nat (q_size q) + 1" using queue_count_less [OF assms(8)] by simp
  from external_loop_blocks [OF assms(1-3) alive assms(5,8) fuel assms(9), of pack 0] obtain P mq' q' m send' where
    loop: "external_loop (nat (q_size q) + 1) pack q 0 t = Some (True, send',
      t\<lparr>t_services := P, t_external_message := Some q', t_external_last_message := Some m\<rparr>)" and m: "m_to m = 1"
    and P: "pool_wf P" "get_service P 1 = Some (S\<lparr>s_msg := Some mq'\<rparr>)" "queue_count mq' = queue_cap mq'" by blast
  let ?t2 = "t\<lparr>t_services := P, t_external_message := Some q', t_external_last_message := Some m\<rparr>"
  have "dispatch_external_messages pack t = Some ?t2"
    using loop assms(6,7) by (simp add: dispatch_external_messages_def external_finish_def del: external_loop.simps)
  moreover have "service_push_message P 1 (Some m) = Some (1, P)"
    using P(3) alive by (intro push_message_full [OF P(1,2), of mq']) simp_all
  then have "dispatch_external_messages pack' (?t2\<lparr>t_external_message := later\<rparr>) = Some (?t2\<lparr>t_external_message := later\<rparr>)"
    for pack' later using m by (simp add: dispatch_external_messages_def send_external_message_def)
  ultimately show ?thesis using P assms(4) by (intro exI [of _ ?t2]) simp
qed

text \<open>A system with a mailbox of one, idle root, and two external messages.\<close>

lemma burst_start:
  obtains t S mq q where "pool_wf (t_services t)" and "p_malloc (t_services t) = []"
    and "get_service (t_services t) SERVICE_ID_ROOT = Some S" and "s_status S = SERVICE_STATUS_IDLE" and "s_msg S = Some mq"
    and "t_external_last_message t = None" and "t_external_message t = Some q" and "queue_wf q"
    and "queue_cap mq < queue_count mq + queue_count q" and "run_queue t = []"
proof -
  have "(case limit_boot [Boot_new ''root'' demo_vm SERVICE_ID_ROOT (-1)] of None \<Rightarrow> False | Some t \<Rightarrow>
      run_queue t = [] \<and> t_external_last_message t = None
      \<and> (case t_external_message t of None \<Rightarrow> False | Some q \<Rightarrow> queue_count q = 0 \<and> queue_cap q = 3)
      \<and> (case get_service (t_services t) SERVICE_ID_ROOT of None \<Rightarrow> False | Some S \<Rightarrow> s_status S = SERVICE_STATUS_IDLE
           \<and> (case s_msg S of None \<Rightarrow> False | Some mq \<Rightarrow> queue_cap mq = 1 \<and> queue_count mq = 0)))" by code_simp
  then obtain t q S mq where t: "limit_boot [Boot_new ''root'' demo_vm SERVICE_ID_ROOT (-1)] = Some t" "run_queue t = []"
    "t_external_last_message t = None" and q: "t_external_message t = Some q" "queue_count q = 0" "queue_cap q = 3"
    and S: "get_service (t_services t) SERVICE_ID_ROOT = Some S" "s_status S = SERVICE_STATUS_IDLE" "s_msg S = Some mq"
      "queue_cap mq = 1" "queue_count mq = 0" by (auto split: option.splits)
  have inv: "pool_wf (t_services t)" "p_malloc (t_services t) = []" "queue_wf q"
    using limit_boot_inv(2) [OF t(1)] q(1) by (auto simp: boot_inv_def sched_inv_def)
  have "queue_count q < queue_cap q" using q by simp
  from ring_enq_wf [OF inv(3) this] ring_enq_count [OF inv(3) this] q
  have q1: "queue_wf (ring_enq q 100)" "queue_count (ring_enq q 100) = 1" "queue_count (ring_enq q 100) < queue_cap (ring_enq q 100)"
    by simp_all
  from ring_enq_wf [OF q1(1,3)] ring_enq_count [OF q1(1,3)] q1(2)
  have q2: "queue_wf (ring_enq (ring_enq q 100) 200)" "queue_count (ring_enq (ring_enq q 100) 200) = 2" by simp_all
  show thesis
    by (rule that [of "t\<lparr>t_external_message := Some (ring_enq (ring_enq q 100) 200)\<rparr>" S mq
        "ring_enq (ring_enq q 100) 200"]) (use t S inv q2 in \<open>simp_all add: run_queue_def\<close>)
qed

theorem external_burst_strands_root_witness:
  "\<exists>t t2. t_external_message t \<noteq> None \<and> dispatch_external_messages (\<lambda>v. (v, 8)) t = Some t2 \<and> run_queue t2 = []
     \<and> service_status_get (t_services t2) SERVICE_ID_ROOT = SERVICE_STATUS_IDLE
     \<and> dispatch_external_messages (\<lambda>v. (v, 8)) t2 = Some t2"
proof -
  from burst_start obtain t S mq q where t: "pool_wf (t_services t)" "p_malloc (t_services t) = []"
    "get_service (t_services t) SERVICE_ID_ROOT = Some S" "s_status S = SERVICE_STATUS_IDLE" "s_msg S = Some mq"
    "t_external_last_message t = None" "t_external_message t = Some q" "queue_wf q"
    "queue_cap mq < queue_count mq + queue_count q" "run_queue t = []" .
  from external_burst_strands_root [OF t(1-9), of "\<lambda>v. (v, 8)"] obtain t2 S2 where
    t2: "dispatch_external_messages (\<lambda>v. (v, 8)) t = Some t2" "t_schedule t2 = t_schedule t"
      "get_service (t_services t2) SERVICE_ID_ROOT = Some S2" "s_status S2 = SERVICE_STATUS_IDLE"
    and again: "\<forall>pack' later. dispatch_external_messages pack' (t2\<lparr>t_external_message := later\<rparr>)
          = Some (t2\<lparr>t_external_message := later\<rparr>)" by auto
  have "t2\<lparr>t_external_message := t_external_message t2\<rparr> = t2" by simp
  then have "dispatch_external_messages (\<lambda>v. (v, 8)) t2 = Some t2" using again by metis
  then show ?thesis using t t2 by (intro exI [of _ t] exI [of _ t2]) (simp add: run_queue_def service_status_get_def)
qed

section \<open>The signal of a dead service\<close>

lemma message_out_none: "out_of p i = None \<Longrightarrow> fst (service_message_out p i) = None"
  by (cases "get_service p i") (auto simp: out_of_def service_message_out_def)

text \<open>
  C26: a full mailbox of root breaks the end of a service. When a dead service is dispatched
  and root's mailbox is full, its signal is taken out of the service and dropped without being
  freed, the service goes back to the run queue, and when it is dispatched again the
  assertion on the missing signal fails.
\<close>

theorem full_root_breaks_signal:
  assumes "sched_inv t (A + {#i#})" and "service_status_get (t_services t) i = SERVICE_STATUS_DEAD"
    and "out_of (t_services t) i = Some (signal_message i)"
    and "get_service (t_services t) SERVICE_ID_ROOT = Some R" and "s_status R \<noteq> SERVICE_STATUS_DEAD"
    and "s_msg R = Some q" and "queue_count q = queue_cap q"
    and "int (card (live (t_services t))) \<le> p_mask (t_services t)"
  shows "\<exists>t'. dispatch_done t i = Some t' \<and> i \<in># queued t' \<and> out_of (t_services t') i = None
    \<and> p_freed (t_services t') = p_freed (t_services t) \<and> dispatch_done t' i = None"
proof -
  from dispatch_dead_full [OF assms] obtain t' where
    t': "dispatch_dead t i = Some t'" "i \<in># queued t'" "out_of (t_services t') i = None"
      "service_status_get (t_services t') i = SERVICE_STATUS_DEAD" "p_freed (t_services t') = p_freed (t_services t)"
    by blast
  have "dispatch_dead t' i = None"
    using message_out_none [OF t'(3)] by (auto simp: dispatch_dead_def split: prod.splits option.splits)
  then show ?thesis using t' assms(2) by (auto simp: dispatch_done_def)
qed

definition dying :: "boot_call list" where
  "dying = [Boot_new ''root'' demo_vm SERVICE_ID_ROOT (-1), Boot_new ''a'' demo_vm 2 (-1),
     Boot_post (limit_message SERVICE_ID_ROOT)]"

theorem full_root_breaks_signal_witness:
  "\<exists>t t'. limit_boot dying = Some t
    \<and> dispatch_done (t\<lparr>t_services := service_send_signal (service_status_set (t_services t) 2 SERVICE_STATUS_DEAD) 2\<rparr>) 2 = Some t'
    \<and> dispatch_done t' 2 = None"
proof -
  let ?P = "\<lambda>t. service_send_signal (service_status_set (t_services t) 2 SERVICE_STATUS_DEAD) 2"
  have "(case limit_boot dying of None \<Rightarrow> False | Some t \<Rightarrow> run_queue t = [SERVICE_ID_ROOT]
      \<and> (case get_service (t_services t) 2 of None \<Rightarrow> False | Some S \<Rightarrow> True)
      \<and> (case get_service (?P t) SERVICE_ID_ROOT of None \<Rightarrow> False | Some R \<Rightarrow> s_status R \<noteq> SERVICE_STATUS_DEAD
          \<and> (case s_msg R of None \<Rightarrow> False | Some q \<Rightarrow> queue_count q = queue_cap q)))" by code_simp
  then obtain t R q where e: "limit_boot dying = Some t" "run_queue t = [SERVICE_ID_ROOT]"
    "get_service (t_services t) 2 \<noteq> None" "get_service (?P t) SERVICE_ID_ROOT = Some R"
    "s_status R \<noteq> SERVICE_STATUS_DEAD" "s_msg R = Some q" "queue_count q = queue_cap q"
    by (auto split: option.splits)
  note B = limit_boot_inv [OF e(1)]
  note D = sched_invD [OF B(1)]
  have q: "queued t = {#SERVICE_ID_ROOT#}" using boot_queued [OF B(2)] e(2) by simp
  let ?P1 = "service_status_set (t_services t) 2 SERVICE_STATUS_DEAD"
  let ?t = "t\<lparr>t_services := ?P t\<rparr>"
  note st = status_set_status [OF D(2) e(3), of SERVICE_STATUS_DEAD]
  note v1 = status_set_view [OF D(2), of 2 SERVICE_STATUS_DEAD]
  have wf1: "pool_wf ?P1" by (rule status_set_wf(1) [OF D(2)]) simp
  have g1: "get_service ?P1 2 \<noteq> None" using st(4) [of 2] e(3) by simp
  note sg = send_signal_view [OF wf1 _ g1] and m1 = v1(4) [unfolded D(4)]
  have view: "svc_view (?P t) = svc_view ?P1" "p_malloc (?P t) = []" "p_mask (?P t) = p_mask (t_services t)"
    "out_of (?P t) 2 = Some (signal_message 2)" using sg m1 v1(3) by simp_all
  have wf2: "pool_wf (?P t)" by (rule send_signal_account(1) [OF wf1])
  have status: "service_status_get (?P t) j = (if j = 2 then SERVICE_STATUS_DEAD else service_status_get (t_services t) j)" for j
    using st(1) [of j] by (simp add: status_view view(1))
  have bound: "service_binding_get (?P t) j = service_binding_get (t_services t) j"
    "service_sockevent_get (?P t) j = service_sockevent_get (t_services t) j" for j
    using st(2,3) [of j] by (simp_all add: binding_view sockevent_view view(1))
  have present: "get_service (?P t) j = None \<longleftrightarrow> get_service (t_services t) j = None" for j
    using st(4) [of j] by (simp add: present_view view(1))
  have swf: "sched_wf ?t"
    by (rule sched_wf_services [OF D(1)]) (use sched_bounds [OF D(1)] in \<open>simp_all add: bound\<close>)
  have "service_status_get (?P t) j = SERVICE_STATUS_SCHEDULE" if "j \<in># queued ?t" for j
    using that q D(6) [of j] status [of j] by simp
  moreover have "service_status_get (?P t) j \<notin> active_status" if "j \<notin># queued ?t + {#2#}" for j
    using that q D(9) [of j] status [of j] by simp
  ultimately have inv: "sched_inv ?t ({#} + {#2#})"
    using swf wf2 view q D(3) status [of 2] present [of 2] e(3) unfolding sched_inv_def by simp
  have "live (?P t) = live (t_services t)" using present by (auto simp: live_def)
  then have room: "int (card (live (t_services ?t))) \<le> p_mask (t_services ?t)" using B(3) view(3) by simp
  from full_root_breaks_signal [OF inv, of R q] status [of 2] view(4) e(4-7) room
  show ?thesis using e(1) by auto
qed

end
