(* ===== verification/Timer.thy ===== *)
theory Timer
  imports Prelude
begin

text \<open>
  The timing wheel of \<open>timer.c\<close>.

  \<open>struct timer\<close> is the record \<open>timer\<close>: the 256 lists \<open>n\<close> of the events due within the
  current block of 256 ticks, the 4 times 64 lists \<open>t\<close> of the later ones, the clock and the
  flag of the spin lock. A \<open>link_list\<close> is the list of its nodes from \<open>head.next\<close> on (\<open>tail\<close>
  is its end); the user data copied behind a node is its field \<open>tn_arg\<close>.

  \<^term>\<open>None\<close> is undefined behaviour or a deadlock: a list outside \<open>t\<close>, an overflow of the
  signed \<open>mask\<close> of \<open>timer_shift\<close> or of the counter of \<open>timer_update\<close>, the dispatch of an
  empty list, a lock taken twice or released when free. While the lock is free other threads
  may add events: a \<^emph>\<open>script\<close> lists, for each time \<open>timer_update\<close> takes the lock, the calls
  of \<open>timer_add\<close> that got it before.
\<close>

section \<open>The data\<close>

definition TIME_NEAR_SHIFT :: nat where "TIME_NEAR_SHIFT = 8"
definition TIME_NEAR :: int where "TIME_NEAR = push_bit TIME_NEAR_SHIFT 1"
definition TIME_LEVEL_SHIFT :: nat where "TIME_LEVEL_SHIFT = 6"
definition TIME_LEVEL :: int where "TIME_LEVEL = push_bit TIME_LEVEL_SHIFT 1"
definition TIME_NEAR_MASK :: u32 where "TIME_NEAR_MASK = word_of_int (TIME_NEAR - 1)"
definition TIME_LEVEL_MASK :: u32 where "TIME_LEVEL_MASK = word_of_int (TIME_LEVEL - 1)"

lemma time_consts [simp]:
  "TIME_NEAR_SHIFT = 8" "TIME_NEAR = 256" "TIME_LEVEL_SHIFT = 6" "TIME_LEVEL = 64"
  "TIME_NEAR_MASK = 255" "TIME_LEVEL_MASK = 63"
  by (simp_all add: TIME_NEAR_SHIFT_def TIME_NEAR_def TIME_LEVEL_SHIFT_def TIME_LEVEL_def
        TIME_NEAR_MASK_def TIME_LEVEL_MASK_def push_bit_eq_mult)

record 'a timer_node =
  tn_expire :: u32
  tn_arg :: 'a

record 'a timer =
  tm_n :: "nat \<Rightarrow> 'a timer_node list"
  tm_t :: "nat \<Rightarrow> nat \<Rightarrow> 'a timer_node list"
  tm_lock :: bool
  tm_time :: u32
  tm_starttime :: u32
  tm_current :: u64
  tm_current_point :: u64

text \<open>\<open>link_clear\<close> answers the nodes of the list and leaves it empty.\<close>

definition link_clear :: "'a timer_node list \<Rightarrow> 'a timer_node list \<times> 'a timer_node list" where
  "link_clear l = (l, [])"

definition link :: "'a timer_node list \<Rightarrow> 'a timer_node \<Rightarrow> 'a timer_node list" where
  "link l node = l @ [node]"

definition spinlock_acquire :: "'a timer \<Rightarrow> 'a timer option" where
  "spinlock_acquire T = (if tm_lock T then None else Some (T\<lparr>tm_lock := True\<rparr>))"

definition spinlock_release :: "'a timer \<Rightarrow> 'a timer option" where
  "spinlock_release T = (if tm_lock T then Some (T\<lparr>tm_lock := False\<rparr>) else None)"

section \<open>Adding an event\<close>

text \<open>The loop of \<open>add_node\<close> that looks for the level of an event.\<close>

function find_level :: "nat \<Rightarrow> u32 \<Rightarrow> u32 \<Rightarrow> u32 \<Rightarrow> nat" where
  "find_level i msk time current_time =
     (if i < 3
      then (if (time OR (msk - 1)) = (current_time OR (msk - 1)) then i
            else find_level (i + 1) (push_bit TIME_LEVEL_SHIFT msk) time current_time)
      else i)"
  by pat_completeness auto
termination
  by (relation "measure (\<lambda>(i, msk, time, current_time). 3 - i)") auto

definition add_node :: "'a timer \<Rightarrow> 'a timer_node \<Rightarrow> 'a timer option" where
  "add_node T node =
     (let time = tn_expire node; current_time = tm_time T
      in if (time OR TIME_NEAR_MASK) = (current_time OR TIME_NEAR_MASK)
         then (let s = unat (time AND TIME_NEAR_MASK)
               in Some (T\<lparr>tm_n := (tm_n T)(s := link (tm_n T s) node)\<rparr>))
         else (let i = find_level 0 (push_bit TIME_LEVEL_SHIFT (word_of_int TIME_NEAR))
                         time current_time;
                   s = unat (drop_bit (TIME_NEAR_SHIFT + i * TIME_LEVEL_SHIFT) time
                             AND TIME_LEVEL_MASK)
               in if i < 4
                  then Some (T\<lparr>tm_t := (tm_t T)(i := (tm_t T i)(s := link (tm_t T i s) node))\<rparr>)
                  else None))"

text \<open>
  \<open>timer_add\<close>; the argument \<open>alloc\<close> says whether \<open>malloc\<close> succeeds, which the code does
  not check before it copies the data. The \<open>int\<close> \<open>time\<close> is added to an \<open>uint32_t\<close>.
\<close>

definition timer_add :: "bool \<Rightarrow> 'a timer \<Rightarrow> 'a \<Rightarrow> int \<Rightarrow> 'a timer option" where
  "timer_add alloc T arg time = do {
     _ \<leftarrow> c_assert alloc;
     T \<leftarrow> spinlock_acquire T;
     T \<leftarrow> add_node T \<lparr>tn_expire = word_of_int time + tm_time T, tn_arg = arg\<rparr>;
     spinlock_release T }"

section \<open>Advancing the clock\<close>

primrec move_nodes :: "'a timer_node list \<Rightarrow> 'a timer \<Rightarrow> 'a timer option" where
  "move_nodes [] T = Some T"
| "move_nodes (current # rest) T = do { T \<leftarrow> add_node T current; move_nodes rest T }"

definition move_list :: "'a timer \<Rightarrow> nat \<Rightarrow> nat \<Rightarrow> 'a timer option" where
  "move_list T level idx =
     (if level < 4 \<and> idx < 64
      then (let (current, empty) = link_clear (tm_t T level idx)
            in move_nodes current
                 (T\<lparr>tm_t := (tm_t T)(level := (tm_t T level)(idx := empty))\<rparr>))
      else None)"

text \<open>The loop of \<open>timer_shift\<close>; \<open>mask\<close> is a signed \<open>int\<close>.\<close>

function shift_loop :: "'a timer \<Rightarrow> u32 \<Rightarrow> int \<Rightarrow> u32 \<Rightarrow> nat \<Rightarrow> 'a timer option" where
  "shift_loop T ct msk time i =
     (if ct AND word_of_int (msk - 1) = 0
      then (let idx = time AND TIME_LEVEL_MASK
            in if idx \<noteq> 0 then move_list T i (unat idx)
               else if 0 < msk \<and> msk * 64 < 2 ^ 31
                    then shift_loop T ct (push_bit TIME_LEVEL_SHIFT msk)
                           (drop_bit TIME_LEVEL_SHIFT time) (i + 1)
                    else None)
      else Some T)"
  by pat_completeness auto
termination
  by (relation "measure (\<lambda>(T, ct, msk, time, i). nat (2 ^ 31 - msk))")
    (auto simp: push_bit_eq_mult)

definition timer_shift :: "'a timer \<Rightarrow> 'a timer option" where
  "timer_shift T =
     (let ct = tm_time T + 1; T = T\<lparr>tm_time := ct\<rparr>
      in if ct = 0 then move_list T 3 0
         else shift_loop T ct TIME_NEAR (drop_bit TIME_NEAR_SHIFT ct) 0)"

section \<open>Dispatching\<close>

text \<open>
  \<open>dispatch_list\<close> calls the callback on the data of each node and frees the node: its
  result is both the sequence of callbacks and the list of what is freed.
\<close>

fun dispatch_list :: "'a timer_node list \<Rightarrow> 'a list option" where
  "dispatch_list [] = None"
| "dispatch_list [current] = Some [tn_arg current]"
| "dispatch_list (current # rest) = do { fs \<leftarrow> dispatch_list rest; Some (tn_arg current # fs) }"

type_synonym 'a adds = "('a \<times> int) list"

primrec timer_adds :: "'a adds \<Rightarrow> 'a timer \<Rightarrow> 'a timer option" where
  "timer_adds [] T = Some T"
| "timer_adds (a # as) T = do { T \<leftarrow> timer_add True T (fst a) (snd a); timer_adds as T }"

definition script_hd :: "'a adds list \<Rightarrow> 'a adds" where
  "script_hd script = (case script of [] \<Rightarrow> [] | as # _ \<Rightarrow> as)"

text \<open>Other threads run first, then the lock is taken.\<close>

definition contended_acquire :: "'a adds list \<Rightarrow> 'a timer \<Rightarrow> 'a timer option" where
  "contended_acquire script T = do { T \<leftarrow> timer_adds (script_hd script) T; spinlock_acquire T }"

lemma release_SomeD:
  "spinlock_release T = Some T' \<Longrightarrow> tm_n T' = tm_n T \<and> tm_t T' = tm_t T \<and> tm_time T' = tm_time T"
  by (auto simp: spinlock_release_def split: if_splits)

lemma acquire_SomeD:
  "spinlock_acquire T = Some T' \<Longrightarrow> tm_n T' = tm_n T \<and> tm_t T' = tm_t T \<and> tm_time T' = tm_time T"
  by (auto simp: spinlock_acquire_def split: if_splits)

function timer_execute ::
  "'a adds list \<Rightarrow> 'a timer \<Rightarrow> ('a timer \<times> 'a list \<times> 'a adds list) option" where
  "timer_execute script T =
     (let idx = unat (tm_time T AND TIME_NEAR_MASK)
      in if tm_n T idx \<noteq> []
         then (let (current, empty) = link_clear (tm_n T idx)
               in case spinlock_release (T\<lparr>tm_n := (tm_n T)(idx := empty)\<rparr>) of
                    None \<Rightarrow> None
                  | Some T1 \<Rightarrow>
                   (case dispatch_list current of
                      None \<Rightarrow> None
                    | Some fs \<Rightarrow>
                     (case contended_acquire script T1 of
                        None \<Rightarrow> None
                      | Some T2 \<Rightarrow>
                       (case timer_execute (tl script) T2 of
                          None \<Rightarrow> None
                        | Some (T3, gs, rest) \<Rightarrow> Some (T3, fs @ gs, rest)))))
         else Some (T, [], script))"
  by pat_completeness auto
termination
  by (relation "measure (\<lambda>(script, T). 2 * length script +
        (if tm_n T (unat (tm_time T AND TIME_NEAR_MASK)) = [] then 0 else 1))")
    (auto simp: link_clear_def contended_acquire_def script_hd_def
       dest!: release_SomeD acquire_SomeD split: list.splits)

declare find_level.simps [simp del] shift_loop.simps [simp del] timer_execute.simps [simp del]

definition timer_update_tick ::
  "'a adds list \<Rightarrow> 'a timer \<Rightarrow> ('a timer \<times> 'a list \<times> 'a adds list) option" where
  "timer_update_tick script T = do {
     T \<leftarrow> contended_acquire script T;
     (T, fs, script) \<leftarrow> timer_execute (tl script) T;
     T \<leftarrow> timer_shift T;
     (T, gs, script) \<leftarrow> timer_execute script T;
     T \<leftarrow> spinlock_release T;
     Some (T, fs @ gs, script) }"

primrec update_loop ::
  "nat \<Rightarrow> 'a adds list \<Rightarrow> 'a timer \<Rightarrow> ('a timer \<times> 'a list \<times> 'a adds list) option" where
  "update_loop 0 script T = Some (T, [], script)"
| "update_loop (Suc d) script T = do {
     (T, fs, script) \<leftarrow> timer_update_tick script T;
     (T, gs, script) \<leftarrow> update_loop d script T;
     Some (T, fs @ gs, script) }"

text \<open>
  \<open>timer_update\<close> at the monotonic time \<open>cp\<close>. The loop counts with a signed \<open>int\<close> up to the
  unsigned \<open>diff\<close>, so from \<open>2 ^ 31\<close> on the counter overflows.
\<close>

definition timer_update ::
  "u64 \<Rightarrow> 'a adds list \<Rightarrow> 'a timer \<Rightarrow> ('a timer \<times> 'a list \<times> 'a adds list) option" where
  "timer_update cp script TI =
     (if cp < tm_current_point TI then Some (TI\<lparr>tm_current_point := cp\<rparr>, [], script)
      else if cp \<noteq> tm_current_point TI
      then (let diff = ucast (cp - tm_current_point TI) :: u32;
                TI = TI\<lparr>tm_current_point := cp, tm_current := tm_current TI + ucast diff\<rparr>
            in if unat diff < 2 ^ 31 then update_loop (unat diff) script TI else None)
      else Some (TI, [], script))"

section \<open>Making and destroying a timer\<close>

definition timer_new :: "'a timer" where
  "timer_new = \<lparr>tm_n = (\<lambda>i. []), tm_t = (\<lambda>i j. []), tm_lock = False, tm_time = 0,
     tm_starttime = 0, tm_current = 0, tm_current_point = 0\<rparr>"

definition timer_starttime :: "'a timer \<Rightarrow> u32" where
  "timer_starttime TI = tm_starttime TI"

definition timer_now :: "'a timer \<Rightarrow> u64" where
  "timer_now TI = tm_current TI"

definition timer_init :: "u64 \<Rightarrow> u64 \<Rightarrow> 'a timer" where
  "timer_init walltime cp = timer_new\<lparr>tm_starttime := ucast (walltime div 100),
     tm_current := walltime mod 100, tm_current_point := cp\<rparr>"

text \<open>One list of \<open>timer_destroy\<close>: its nodes are released.\<close>

definition release_list :: "'a timer_node list \<Rightarrow> 'a list option" where
  "release_list l =
     (let (current, empty) = link_clear l
      in if current \<noteq> [] then dispatch_list current else Some [])"

primrec release_lists :: "'a timer_node list list \<Rightarrow> 'a list option" where
  "release_lists [] = Some []"
| "release_lists (l # ls) = do { fs \<leftarrow> release_list l; gs \<leftarrow> release_lists ls; Some (fs @ gs) }"

text \<open>The data of the nodes freed; \<^term>\<open>None\<close> as argument is a NULL pointer.\<close>

definition timer_destroy :: "'a timer option \<Rightarrow> 'a list option" where
  "timer_destroy T = (case T of
       None \<Rightarrow> Some []
     | Some T \<Rightarrow> do {
         T \<leftarrow> spinlock_acquire T;
         fs \<leftarrow> release_lists (map (tm_n T) [0..<256]);
         gs \<leftarrow> release_lists (concat (map (\<lambda>i. map (tm_t T i) [0..<64]) [0..<4]));
         T \<leftarrow> spinlock_release T;
         Some (fs @ gs) })"

end
