(* ===== verification/TimerWheel.thy ===== *)
theory TimerWheel
  imports Timer
begin

text \<open>
  Where the timing wheel keeps an event. \<open>slot_of now e\<close> is the list \<open>add_node\<close> chooses for
  the expiry \<open>e\<close> at the time \<open>now\<close>; the invariant \<open>timer_wf\<close> says that every event is in the
  list it would be put into now, and less than \<open>2 ^ 31\<close> ticks away. The theorem
  \<open>slot_of_step\<close> is the heart of the wheel: a tick changes the list of an event only when that
  list is the one \<open>timer_shift\<close> moves.
\<close>

section \<open>The list of an expiry\<close>

datatype slot = Near nat | Level nat nat

definition slot_of :: "u32 \<Rightarrow> u32 \<Rightarrow> slot" where
  "slot_of now e =
     (let N = unat now; E = unat e
      in if E div 256 = N div 256 then Near (E mod 256)
         else if E div 2 ^ 14 = N div 2 ^ 14 then Level 0 (E div 256 mod 64)
         else if E div 2 ^ 20 = N div 2 ^ 20 then Level 1 (E div 2 ^ 14 mod 64)
         else if E div 2 ^ 26 = N div 2 ^ 26 then Level 2 (E div 2 ^ 20 mod 64)
         else Level 3 (E div 2 ^ 26 mod 64))"

primrec slot_list :: "'a timer \<Rightarrow> slot \<Rightarrow> 'a timer_node list" where
  "slot_list T (Near i) = tm_n T i"
| "slot_list T (Level i j) = tm_t T i j"

definition put_slot :: "slot \<Rightarrow> 'a timer_node list \<Rightarrow> 'a timer \<Rightarrow> 'a timer" where
  "put_slot s l T = (case s of
       Near i \<Rightarrow> T\<lparr>tm_n := (tm_n T)(i := l)\<rparr>
     | Level i j \<Rightarrow> T\<lparr>tm_t := (tm_t T)(i := (tm_t T i)(j := l))\<rparr>)"

lemma slot_list_put [simp]:
  "slot_list (put_slot s l T) s' = (if s' = s then l else slot_list T s')"
  by (cases s; cases s') (auto simp: put_slot_def)

lemma put_slot_frame [simp]:
  "tm_time (put_slot s l T) = tm_time T"
  "tm_lock (put_slot s l T) = tm_lock T"
  "tm_starttime (put_slot s l T) = tm_starttime T"
  "tm_current (put_slot s l T) = tm_current T"
  "tm_current_point (put_slot s l T) = tm_current_point T"
  by (cases s; simp add: put_slot_def)+

text \<open>Setting the bits below \<open>k\<close> and comparing is comparing the bits from \<open>k\<close> on.\<close>

lemma or_mask_eq_iff:
  fixes a b :: "'a::len word"
  shows "(a OR mask k) = (b OR mask k) \<longleftrightarrow> drop_bit k a = drop_bit k b"
proof
  assume eq: "(a OR mask k) = (b OR mask k)"
  show "drop_bit k a = drop_bit k b"
  proof (rule bit_eqI)
    fix n
    have "bit (a OR mask k) (k + n) = bit (b OR mask k) (k + n)" by (simp add: eq)
    then show "bit (drop_bit k a) n = bit (drop_bit k b) n"
      by (auto simp: bit_simps dest: bit_imp_le_length)
  qed
next
  assume eq: "drop_bit k a = drop_bit k b"
  show "(a OR mask k) = (b OR mask k)"
  proof (rule bit_eqI)
    fix n
    assume n: "possible_bit TYPE('a word) n"
    show "bit (a OR mask k) n = bit (b OR mask k) n"
    proof (cases "n < k")
      case True
      then show ?thesis using n by (simp add: bit_or_iff bit_mask_iff)
    next
      case False
      then have "bit a n = bit (drop_bit k a) (n - k)" "bit b n = bit (drop_bit k b) (n - k)"
        by (simp_all only: bit_drop_bit_eq o_apply le_add_diff_inverse not_less)
      then show ?thesis using False eq by (simp only: bit_or_iff bit_mask_iff)
    qed
  qed
qed

lemma unat_drop_bit: "unat (drop_bit k (x :: 'a::len word)) = unat x div 2 ^ k"
proof -
  have "unat (drop_bit k x) = drop_bit k (unat x)"
    by (simp add: unsigned_drop_bit_eq take_bit_nat_eq_self [OF unsigned_less])
  then show ?thesis by (simp add: drop_bit_eq_div)
qed

lemma block_eq_iff:
  fixes a b :: "'a::len word"
  shows "(a OR (2 ^ k - 1)) = (b OR (2 ^ k - 1)) \<longleftrightarrow> unat a div 2 ^ k = unat b div 2 ^ k"
proof -
  have "(a OR (2 ^ k - 1)) = (b OR (2 ^ k - 1)) \<longleftrightarrow> drop_bit k a = drop_bit k b"
    by (simp add: or_mask_eq_iff flip: mask_eq_exp_minus_1)
  also have "\<dots> \<longleftrightarrow> unat a div 2 ^ k = unat b div 2 ^ k"
    by (simp only: word_unat_eq_iff unat_drop_bit)
  finally show ?thesis .
qed

lemmas block_eqs =
  block_eq_iff [where ?'a = 32 and k = 8, simplified]
  block_eq_iff [where ?'a = 32 and k = 14, simplified]
  block_eq_iff [where ?'a = 32 and k = 20, simplified]
  block_eq_iff [where ?'a = 32 and k = 26, simplified]

lemma low_bits:
  "unat ((x :: u32) AND 255) = unat x mod 256"
  "unat (drop_bit k (x :: u32) AND 63) = unat x div 2 ^ k mod 64"
  using unat_and_mask [of x 8] unat_and_mask [of "drop_bit k x" 6]
  by (simp_all only: unat_drop_bit) simp_all

lemma find_level_eq:
  "find_level 0 16384 e now =
     (if unat e div 2 ^ 14 = unat now div 2 ^ 14 then 0
      else if unat e div 2 ^ 20 = unat now div 2 ^ 20 then 1
      else if unat e div 2 ^ 26 = unat now div 2 ^ 26 then 2 else 3)"
  apply (subst find_level.simps)
  apply (subst find_level.simps)
  apply (subst find_level.simps)
  apply (subst find_level.simps)
  apply (simp add: block_eqs push_bit_eq_mult)
  done

lemma add_node_put:
  "add_node T x = Some (let s = slot_of (tm_time T) (tn_expire x)
                        in put_slot s (slot_list T s @ [x]) T)"
proof -
  let ?e = "tn_expire x" and ?now = "tm_time T"
  have m: "push_bit 6 (256 :: u32) = 16384" by (simp add: push_bit_eq_mult)
  define i where "i = find_level 0 16384 ?e ?now"
  define j where "j = unat (drop_bit (8 + i * 6) ?e AND 63)"
  have node: "add_node T x =
      (if unat ?e div 256 = unat ?now div 256
       then Some (put_slot (Near (unat ?e mod 256)) (tm_n T (unat ?e mod 256) @ [x]) T)
       else if i < 4 then Some (put_slot (Level i j) (tm_t T i j @ [x]) T) else None)"
    by (simp only: add_node_def Let_def time_consts block_eqs low_bits(1) link_def put_slot_def
          slot.case i_def [symmetric] j_def [symmetric] m word_of_int_numeral)
  show ?thesis
  proof (cases "unat ?e div 256 = unat ?now div 256")
    case True
    then have "slot_of ?now ?e = Near (unat ?e mod 256)" by (simp add: slot_of_def Let_def)
    then show ?thesis using True by (simp only: node Let_def if_True slot_list.simps refl)
  next
    case False
    have j: "j = unat ?e div 2 ^ (8 + i * 6) mod 64" by (simp only: j_def low_bits)
    have "slot_of ?now ?e = Level i j \<and> i < 4"
    proof -
      consider "unat ?e div 2 ^ 14 = unat ?now div 2 ^ 14"
        | "unat ?e div 2 ^ 14 \<noteq> unat ?now div 2 ^ 14" "unat ?e div 2 ^ 20 = unat ?now div 2 ^ 20"
        | "unat ?e div 2 ^ 14 \<noteq> unat ?now div 2 ^ 14" "unat ?e div 2 ^ 20 \<noteq> unat ?now div 2 ^ 20"
          "unat ?e div 2 ^ 26 = unat ?now div 2 ^ 26"
        | "unat ?e div 2 ^ 14 \<noteq> unat ?now div 2 ^ 14" "unat ?e div 2 ^ 20 \<noteq> unat ?now div 2 ^ 20"
          "unat ?e div 2 ^ 26 \<noteq> unat ?now div 2 ^ 26"
        by blast
      then show ?thesis
        by cases (simp_all only: False slot_of_def Let_def j i_def find_level_eq if_True if_False
          refl simp_thms slot.inject, simp_all)
    qed
    then show ?thesis using False by (simp only: node Let_def if_False if_True slot_list.simps)
  qed
qed

section \<open>What a tick moves\<close>

text \<open>The list \<open>timer_shift\<close> moves when the clock becomes \<open>ct\<close>.\<close>

definition moved :: "u32 \<Rightarrow> slot option" where
  "moved ct =
     (let C = unat ct
      in if C = 0 then Some (Level 3 0)
         else if C mod 256 \<noteq> 0 then None
         else if C mod 2 ^ 14 \<noteq> 0 then Some (Level 0 (C div 256 mod 64))
         else if C mod 2 ^ 20 \<noteq> 0 then Some (Level 1 (C div 2 ^ 14 mod 64))
         else if C mod 2 ^ 26 \<noteq> 0 then Some (Level 2 (C div 2 ^ 20 mod 64))
         else Some (Level 3 (C div 2 ^ 26 mod 64)))"

lemma div_Suc_if: "Suc N div m = (if Suc N mod m = 0 then N div m + 1 else N div m)"
  by (simp add: div_Suc)

lemma nested_div:
  fixes E :: nat
  shows "E div 2 ^ 14 = E div 256 div 64" "E div 2 ^ 20 = E div 256 div 64 div 64"
    "E div 2 ^ 26 = E div 256 div 64 div 64 div 64"
  by (simp_all flip: div_mult2_eq)

text \<open>
  The slots for the numbers: \<open>b\<close> and \<open>a\<close> are the blocks of 256 ticks of the clock and of the
  event. When the clock enters the block \<open>c = b + 1\<close>, an event in a later block stays where
  it is or is in the list that is moved.
\<close>

definition level_of :: "nat \<Rightarrow> nat \<Rightarrow> slot" where
  "level_of b a =
     (if a div 64 = b div 64 then Level 0 (a mod 64)
      else if a div 64 div 64 = b div 64 div 64 then Level 1 (a div 64 mod 64)
      else if a div 64 div 64 div 64 = b div 64 div 64 div 64 then Level 2 (a div 64 div 64 mod 64)
      else Level 3 (a div 64 div 64 div 64 mod 64))"

lemma slot_of_level:
  "slot_of now e = (if unat e div 256 = unat now div 256 then Near (unat e mod 256)
                    else level_of (unat now div 256) (unat e div 256))"
  by (simp only: slot_of_def Let_def level_of_def nested_div)

definition moved_level :: "nat \<Rightarrow> slot" where
  "moved_level c =
     (if c mod 64 \<noteq> 0 then Level 0 (c mod 64)
      else if c div 64 mod 64 \<noteq> 0 then Level 1 (c div 64 mod 64)
      else if c div 64 div 64 mod 64 \<noteq> 0 then Level 2 (c div 64 div 64 mod 64)
      else Level 3 (c div 64 div 64 div 64 mod 64))"

lemma level_of_step:
  assumes "Suc b \<le> a"
  shows "a \<noteq> Suc b \<and> level_of (Suc b) a = level_of b a \<or> level_of b a = moved_level (Suc b)"
proof -
  define c where "c = Suc b"
  define c1 c2 c3 where "c1 = c div 64" and "c2 = c1 div 64" and "c3 = c2 div 64"
  define b1 b2 b3 where "b1 = b div 64" and "b2 = b1 div 64" and "b3 = b2 div 64"
  define a1 a2 a3 where "a1 = a div 64" and "a2 = a1 div 64" and "a3 = a2 div 64"
  have c1: "c1 = (if c mod 64 = 0 then Suc b1 else b1)"
    by (simp add: c1_def b1_def c_def div_Suc_if)
  have c2: "c2 = (if c1 mod 64 = 0 \<and> c1 = Suc b1 then Suc b2 else b2)"
    using c1 by (auto simp: c2_def b2_def div_Suc_if split: if_splits)
  have c3: "c3 = (if c2 mod 64 = 0 \<and> c2 = Suc b2 then Suc b3 else b3)"
    using c2 by (auto simp: c3_def b3_def div_Suc_if split: if_splits)
  have le: "c \<le> a" "c1 \<le> a1" "c2 \<le> a2" "c3 \<le> a3"
    using assms by (simp_all add: c_def c1_def c2_def c3_def a1_def a2_def a3_def div_le_mono)
  have lvl: "level_of c a = (if a1 = c1 then Level 0 (a mod 64) else if a2 = c2 then Level 1 (a1 mod 64)
      else if a3 = c3 then Level 2 (a2 mod 64) else Level 3 (a3 mod 64))"
    "level_of b a = (if a1 = b1 then Level 0 (a mod 64) else if a2 = b2 then Level 1 (a1 mod 64)
      else if a3 = b3 then Level 2 (a2 mod 64) else Level 3 (a3 mod 64))"
    "moved_level c = (if c mod 64 \<noteq> 0 then Level 0 (c mod 64) else if c1 mod 64 \<noteq> 0 then Level 1 (c1 mod 64)
      else if c2 mod 64 \<noteq> 0 then Level 2 (c2 mod 64) else Level 3 (c3 mod 64))"
    by (simp_all only: level_of_def moved_level_def a1_def a2_def a3_def b1_def b2_def b3_def
          c1_def c2_def c3_def)
  have down: "a = c \<Longrightarrow> a1 = c1" "a1 = c1 \<Longrightarrow> a2 = c2" "a2 = c2 \<Longrightarrow> a3 = c3"
    "a1 = b1 \<Longrightarrow> a2 = b2" "a2 = b2 \<Longrightarrow> a3 = b3" "c1 = b1 \<Longrightarrow> c2 = b2" "c2 = b2 \<Longrightarrow> c3 = b3"
    by (simp_all add: a1_def a2_def a3_def b2_def b3_def c1_def c2_def c3_def)
  have "a \<noteq> c \<and> level_of c a = level_of b a \<or> level_of b a = moved_level c"
  proof (cases "c mod 64 = 0")
    case False
    then have "c1 = b1" "c2 = b2" "c3 = b3" using c1 down by auto
    then show ?thesis using False down by (auto simp: lvl)
  next
    case c: True
    then have b1: "c1 = Suc b1" using c1 by simp
    show ?thesis
    proof (cases "c1 mod 64 = 0")
      case False
      then have "c2 = b2" "c3 = b3" using c2 down by auto
      then show ?thesis using False c b1 down le by (auto simp: lvl)
    next
      case m1: True
      then have b2: "c2 = Suc b2" using c2 b1 by simp
      show ?thesis
      proof (cases "c2 mod 64 = 0")
        case False
        then have "c3 = b3" using c3 by auto
        then show ?thesis using False c b1 b2 m1 down le by (auto simp: lvl)
      next
        case m2: True
        then have "c3 = Suc b3" using c3 b2 by simp
        then show ?thesis using c b1 b2 m1 m2 down le by (auto simp: lvl)
      qed
    qed
  qed
  then show ?thesis by (simp only: c_def)
qed

lemma level_of_far:
  "a div 64 div 64 div 64 \<noteq> b div 64 div 64 div 64 \<Longrightarrow>
   a \<noteq> b \<and> level_of b a = Level 3 (a div 64 div 64 div 64 mod 64)"
  by (auto simp: level_of_def)

lemma mod_mult_zero_iff:
  "0 < m \<Longrightarrow> (x :: nat) mod (m * n) = 0 \<longleftrightarrow> x mod m = 0 \<and> x div m mod n = 0"
  by (auto simp: mod_mult2_eq)

lemma moved_alt:
  "moved ct = (if ct = 0 then Some (Level 3 0) else if unat ct mod 256 \<noteq> 0 then None
               else Some (moved_level (unat ct div 256)))"
proof -
  have exps: "(2::nat) ^ 14 = 256 * 64" "(2::nat) ^ 20 = 256 * 64 * 64" "(2::nat) ^ 26 = 256 * 64 * 64 * 64"
    by simp_all
  show ?thesis
    by (simp only: moved_def Let_def moved_level_def exps mod_mult_zero_iff div_mult2_eq
          unat_eq_zero zero_less_numeral mult_pos_pos simp_thms)
      (cases "ct = 0"; cases "unat ct mod 256 = 0"; cases "unat ct div 256 mod 64 = 0";
       cases "unat ct div 256 div 64 mod 64 = 0"; cases "unat ct div 256 div 64 div 64 mod 64 = 0";
       simp only: if_True if_False simp_thms)
qed

lemma unat_u32_less: "unat (x :: u32) < 2 ^ 32"
proof -
  have "unat x < 2 ^ LENGTH(32)" by (rule unsigned_less)
  then show ?thesis by simp
qed

lemma unat_inc: "unat (now + 1 :: u32) = (if unat now = 2 ^ 32 - 1 then 0 else Suc (unat now))"
  using unat_u32_less [of now] by (simp add: unat_plus_if')

lemma unat_dist:
  "unat (e - now :: u32) =
     (if unat now \<le> unat e then unat e - unat now else unat e + 2 ^ 32 - unat now)"
  by (simp add: unat_sub_if_size word_size)

lemma slot_of_step:
  assumes "e \<noteq> now" "unat (e - now) < 2 ^ 31"
  shows "slot_of (now + 1) e = slot_of now e \<or> moved (now + 1) = Some (slot_of now e)"
proof -
  let ?N = "unat now" and ?E = "unat e"
  have ne: "?E \<noteq> ?N" using assms(1) by (simp add: word_unat_eq_iff)
  have lt: "?N < 2 ^ 32" "?E < 2 ^ 32"
    by (rule unat_u32_less)+
  show ?thesis
  proof (cases "?N < ?E")
    case True
    then have C: "unat (now + 1) = Suc ?N" using lt by (simp add: unat_inc)
    then have nz: "now + 1 \<noteq> 0" by (metis unat_0 nat.distinct(1))
    show ?thesis
    proof (cases "Suc ?N mod 256 = 0")
      case False
      then have "Suc ?N div 256 = ?N div 256" by (simp only: div_Suc_if if_False)
      then show ?thesis by (simp only: slot_of_level C simp_thms)
    next
      case blk: True
      then have c: "Suc ?N div 256 = Suc (?N div 256)" by (simp add: div_Suc_if)
      have "Suc ?N div 256 \<le> ?E div 256" using True by (intro div_le_mono) simp
      then have "Suc (?N div 256) \<le> ?E div 256" by (simp only: c)
      then show ?thesis
        using level_of_step [of "?N div 256" "?E div 256"] blk nz
        by (auto simp: slot_of_level moved_alt C c)
    qed
  next
    case False
    then have far: "?E + 2 ^ 31 < ?N" using ne assms(2) by (simp add: unat_dist split: if_splits)
    have n: "?E div 256 div 64 div 64 div 64 \<noteq> ?N div 256 div 64 div 64 div 64"
      "?E div 256 div 64 div 64 div 64 \<noteq> Suc ?N div 256 div 64 div 64 div 64"
      using far by (simp_all flip: div_mult2_eq)
    show ?thesis
    proof (cases "?N = 2 ^ 32 - 1")
      case False
      then have C: "unat (now + 1) = Suc ?N" by (simp add: unat_inc)
      show ?thesis using level_of_far [OF n(1)] level_of_far [OF n(2)] by (simp add: slot_of_level C)
    next
      case True
      then have ct: "now + 1 = 0" by (simp add: unat_inc flip: unat_eq_zero)
      have e3: "?E div 256 div 64 div 64 div 64 < 64" using lt by (simp flip: div_mult2_eq)
      show ?thesis
      proof (cases "?E div 256 div 64 div 64 div 64 = 0")
        case True
        then show ?thesis using level_of_far [OF n(1)] ct by (simp add: slot_of_level moved_alt)
      next
        case False
        then have "slot_of 0 e = Level 3 (?E div 256 div 64 div 64 div 64 mod 64)"
          using level_of_far [of "?E div 256" 0] by (simp add: slot_of_level)
        then show ?thesis using level_of_far [OF n(1)] by (simp add: slot_of_level ct)
      qed
    qed
  qed
qed

end
