(* ===== verification/TimerSpec.thy ===== *)
theory TimerSpec
  imports TimerWheel
begin

text \<open>
  The timing wheel implements an agenda: a clock and, for every expiry, the events due then in
  the order they were added. The operations on agendas are below; the lemmas show that each
  operation of the wheel returns, keeps \<open>timer_wf\<close> and does to \<open>agenda_of\<close> what the operation
  on agendas does.
\<close>

section \<open>Agendas\<close>

record 'a agenda =
  ag_now :: u32
  ag_due :: "u32 \<Rightarrow> 'a list"

definition ag_add :: "'a \<times> int \<Rightarrow> 'a agenda \<Rightarrow> 'a agenda" where
  "ag_add a A =
     (let e = word_of_int (snd a) + ag_now A
      in A\<lparr>ag_due := (ag_due A)(e := ag_due A e @ [fst a])\<rparr>)"

primrec ag_adds :: "'a adds \<Rightarrow> 'a agenda \<Rightarrow> 'a agenda" where
  "ag_adds [] A = A"
| "ag_adds (a # as) A = ag_adds as (ag_add a A)"

text \<open>Everything due now is taken until nothing is left; others may add in between.\<close>

fun ag_execute :: "'a adds list \<Rightarrow> 'a agenda \<Rightarrow> 'a agenda \<times> 'a list \<times> 'a adds list" where
  "ag_execute [] A = (A\<lparr>ag_due := (ag_due A)(ag_now A := [])\<rparr>, ag_due A (ag_now A), [])"
| "ag_execute (as # script) A =
     (if ag_due A (ag_now A) = [] then (A, [], as # script)
      else (let (A', gs, rest) =
                  ag_execute script (ag_adds as (A\<lparr>ag_due := (ag_due A)(ag_now A := [])\<rparr>))
            in (A', ag_due A (ag_now A) @ gs, rest)))"

definition ag_tick :: "'a adds list \<Rightarrow> 'a agenda \<Rightarrow> 'a agenda \<times> 'a list \<times> 'a adds list" where
  "ag_tick script A =
     (let (A1, fs, script1) = ag_execute (tl script) (ag_adds (script_hd script) A);
          (A2, gs, script2) = ag_execute script1 (A1\<lparr>ag_now := ag_now A1 + 1\<rparr>)
      in (A2, fs @ gs, script2))"

primrec ag_ticks ::
  "nat \<Rightarrow> 'a adds list \<Rightarrow> 'a agenda \<Rightarrow> 'a agenda \<times> 'a list \<times> 'a adds list" where
  "ag_ticks 0 script A = (A, [], script)"
| "ag_ticks (Suc d) script A =
     (let (A1, fs, script1) = ag_tick script A; (A2, gs, script2) = ag_ticks d script1 A1
      in (A2, fs @ gs, script2))"

section \<open>The wheel as an agenda\<close>

definition events_at :: "'a timer \<Rightarrow> u32 \<Rightarrow> slot \<Rightarrow> 'a timer_node list" where
  "events_at T e s = filter (\<lambda>x. tn_expire x = e) (slot_list T s)"

definition agenda_of :: "'a timer \<Rightarrow> 'a agenda" where
  "agenda_of T = \<lparr>ag_now = tm_time T,
     ag_due = (\<lambda>e. map tn_arg (events_at T e (slot_of (tm_time T) e)))\<rparr>"

definition timer_wf :: "'a timer \<Rightarrow> bool" where
  "timer_wf T \<longleftrightarrow> (\<forall>s. \<forall>x \<in> set (slot_list T s).
     slot_of (tm_time T) (tn_expire x) = s \<and> unat (tn_expire x - tm_time T) < 2 ^ 31)"

lemma agenda_of_sel [simp]:
  "ag_now (agenda_of T) = tm_time T"
  "ag_due (agenda_of T) e = map tn_arg (events_at T e (slot_of (tm_time T) e))"
  by (simp_all add: agenda_of_def)

lemma timer_wfD:
  assumes "timer_wf T" "x \<in> set (slot_list T s)"
  shows "slot_of (tm_time T) (tn_expire x) = s" "unat (tn_expire x - tm_time T) < 2 ^ 31"
  using assms by (auto simp: timer_wf_def)

lemma events_elsewhere:
  "timer_wf T \<Longrightarrow> s \<noteq> slot_of (tm_time T) e \<Longrightarrow> events_at T e s = []"
  by (auto simp: events_at_def filter_empty_conv dest: timer_wfD(1))

lemma events_too_far:
  "timer_wf T \<Longrightarrow> \<not> unat (e - tm_time T) < 2 ^ 31 \<Longrightarrow> events_at T e s = []"
  by (auto simp: events_at_def filter_empty_conv dest: timer_wfD(2))

lemma slot_of_now: "slot_of now now = Near (unat now mod 256)"
  by (simp add: slot_of_def)

lemma slot_of_now_only: "slot_of now e = slot_of now now \<Longrightarrow> e = now"
  unfolding word_unat_eq_iff slot_of_def Let_def
  by (auto split: if_splits) (metis div_mult_mod_eq)

lemma events_now:
  assumes "timer_wf T"
  shows "events_at T (tm_time T) (slot_of (tm_time T) (tm_time T)) =
         slot_list T (slot_of (tm_time T) (tm_time T))"
  using timer_wfD(1) [OF assms] by (auto simp: events_at_def filter_id_conv dest: slot_of_now_only)

text \<open>Only the lists and the clock matter.\<close>

lemma wf_cong:
  assumes "\<And>s. slot_list T' s = slot_list T s" "tm_time T' = tm_time T"
  shows "timer_wf T' = timer_wf T" "agenda_of T' = agenda_of T"
  using assms by (simp_all add: timer_wf_def agenda_of_def events_at_def)

lemma slot_list_lock [simp]: "slot_list (T\<lparr>tm_lock := b\<rparr>) s = slot_list T s"
  by (cases s) simp_all

lemma wf_lock [simp]:
  "timer_wf (T\<lparr>tm_lock := b\<rparr>) = timer_wf T" "agenda_of (T\<lparr>tm_lock := b\<rparr>) = agenda_of T"
  by (rule wf_cong; simp)+

section \<open>Adding\<close>

lemma put_append_wf:
  assumes "timer_wf T" "unat (tn_expire x - tm_time T) < 2 ^ 31"
  defines "s \<equiv> slot_of (tm_time T) (tn_expire x)"
  shows "timer_wf (put_slot s (slot_list T s @ [x]) T)"
  using assms by (auto simp: timer_wf_def)

lemma put_append_agenda:
  fixes T x
  defines "s \<equiv> slot_of (tm_time T) (tn_expire x)"
  shows "agenda_of (put_slot s (slot_list T s @ [x]) T) =
     (agenda_of T)\<lparr>ag_due := (ag_due (agenda_of T))
        (tn_expire x := ag_due (agenda_of T) (tn_expire x) @ [tn_arg x])\<rparr>"
  by (auto simp: agenda_of_def events_at_def s_def fun_eq_iff)

definition in_time :: "'a adds \<Rightarrow> bool" where
  "in_time as \<longleftrightarrow> (\<forall>a \<in> set as. 0 \<le> snd a \<and> snd a < 2 ^ 31)"

definition same_clock :: "'a timer \<Rightarrow> 'a timer \<Rightarrow> bool" where
  "same_clock T T' \<longleftrightarrow> tm_lock T' = tm_lock T \<and> tm_starttime T' = tm_starttime T \<and>
     tm_current T' = tm_current T \<and> tm_current_point T' = tm_current_point T"

lemma same_clock_trans: "same_clock T1 T2 \<Longrightarrow> same_clock T2 T3 \<Longrightarrow> same_clock T1 T3"
  by (simp add: same_clock_def)

lemma unat_word_of_int_small:
  "0 \<le> d \<Longrightarrow> d < 2 ^ 31 \<Longrightarrow> unat (word_of_int d :: u32) = nat d"
  by (simp add: unsigned_of_int take_bit_int_eq_self)

lemma timer_add_refines:
  assumes wf: "timer_wf T" and lock: "\<not> tm_lock T" and d: "0 \<le> d" "d < 2 ^ 31"
  shows "\<exists>T'. timer_add True T arg d = Some T' \<and> timer_wf T' \<and> same_clock T T' \<and>
     agenda_of T' = ag_add (arg, d) (agenda_of T)"
proof -
  define x where "x = \<lparr>tn_expire = word_of_int d + tm_time T, tn_arg = arg\<rparr>"
  define s where "s = slot_of (tm_time T) (tn_expire x)"
  define T' where "T' = put_slot s (slot_list T s @ [x]) T"
  have "unat (tn_expire x - tm_time T) < 2 ^ 31"
    using d by (simp add: x_def unat_word_of_int_small)
  then have "timer_wf T'" unfolding T'_def s_def by (rule put_append_wf [OF wf])
  moreover have "agenda_of T' = ag_add (arg, d) (agenda_of T)"
    unfolding T'_def s_def put_append_agenda by (simp add: ag_add_def x_def Let_def)
  moreover have "timer_add True T arg d = Some (T'\<lparr>tm_lock := False\<rparr>)"
  proof -
    have "put_slot s l (T\<lparr>tm_lock := True\<rparr>) = (put_slot s l T)\<lparr>tm_lock := True\<rparr>" for l
      by (cases s) (simp_all add: put_slot_def)
    then show ?thesis
      using lock by (simp add: timer_add_def spinlock_acquire_def spinlock_release_def
          add_node_put Let_def T'_def x_def s_def)
  qed
  ultimately show ?thesis using lock by (auto simp: same_clock_def T'_def)
qed

lemma timer_adds_refines:
  assumes "timer_wf T" "\<not> tm_lock T" "in_time as"
  shows "\<exists>T'. timer_adds as T = Some T' \<and> timer_wf T' \<and> same_clock T T' \<and>
     agenda_of T' = ag_adds as (agenda_of T)"
  using assms
proof (induction as arbitrary: T)
  case Nil
  then show ?case by (simp add: same_clock_def)
next
  case (Cons a as)
  then obtain T1 where T1: "timer_add True T (fst a) (snd a) = Some T1" "timer_wf T1"
    "same_clock T T1" "agenda_of T1 = ag_add a (agenda_of T)"
    using timer_add_refines [of T "snd a" "fst a"] by (auto simp: in_time_def)
  then obtain T2 where "timer_adds as T1 = Some T2" "timer_wf T2" "same_clock T1 T2"
    "agenda_of T2 = ag_adds as (agenda_of T1)"
    using Cons.IH [of T1] Cons.prems by (auto simp: same_clock_def in_time_def)
  then show ?case using T1 same_clock_trans by auto
qed

section \<open>Dispatching\<close>

lemma dispatch_list_args: "l \<noteq> [] \<Longrightarrow> dispatch_list l = Some (map tn_arg l)"
  by (induction l rule: dispatch_list.induct) simp_all

lemma clear_now:
  fixes T
  assumes wf: "timer_wf T"
  defines "s \<equiv> slot_of (tm_time T) (tm_time T)"
  shows "timer_wf (put_slot s [] T)"
    "agenda_of (put_slot s [] T) =
       (agenda_of T)\<lparr>ag_due := (ag_due (agenda_of T))(ag_now (agenda_of T) := [])\<rparr>"
proof -
  show "timer_wf (put_slot s [] T)"
    using wf by (auto simp: timer_wf_def)
  have "events_at (put_slot s [] T) e (slot_of (tm_time T) e) =
     (if e = tm_time T then [] else events_at T e (slot_of (tm_time T) e))" for e
    using slot_of_now_only [of "tm_time T" e] by (auto simp: events_at_def s_def)
  then show "agenda_of (put_slot s [] T) =
       (agenda_of T)\<lparr>ag_due := (ag_due (agenda_of T))(ag_now (agenda_of T) := [])\<rparr>"
    by (auto simp: agenda_of_def fun_eq_iff)
qed

text \<open>What a step of \<open>timer_update\<close> promises: it returns in a good state with the lock held.\<close>

definition held :: "'a timer \<Rightarrow> bool" where
  "held T \<longleftrightarrow> timer_wf T \<and> tm_lock T"

lemma ag_clear_empty: "ag_due A (ag_now A) = [] \<Longrightarrow> A\<lparr>ag_due := (ag_due A)(ag_now A := [])\<rparr> = A"
  by (cases A) (simp add: fun_upd_idem)

lemma ag_execute_empty: "ag_due A (ag_now A) = [] \<Longrightarrow> ag_execute script A = (A, [], script)"
  by (cases script) (simp_all add: ag_clear_empty)

lemma ag_execute_step:
  "ag_execute script A =
     (if ag_due A (ag_now A) = [] then (A, [], script)
      else (let (A', gs, rest) = ag_execute (tl script)
                  (ag_adds (script_hd script) (A\<lparr>ag_due := (ag_due A)(ag_now A := [])\<rparr>))
            in (A', ag_due A (ag_now A) @ gs, rest)))"
  by (cases script) (simp_all add: script_hd_def ag_execute_empty ag_clear_empty)

lemma ag_adds_now [simp]: "ag_now (ag_adds as A) = ag_now A"
  by (induction as arbitrary: A) (simp_all add: ag_add_def Let_def)

lemma ag_execute_now:
  "ag_execute script A = (A', fs, rest) \<Longrightarrow>
   ag_now A' = ag_now A \<and> ag_due A' (ag_now A') = []"
proof (induction script arbitrary: A A' fs rest)
  case (Cons as script)
  show ?case
  proof (cases "ag_due A (ag_now A) = []")
    case True
    then show ?thesis using Cons.prems by (simp add: ag_execute_empty)
  next
    case False
    then obtain gs where
      "ag_execute script (ag_adds as (A\<lparr>ag_due := (ag_due A)(ag_now A := [])\<rparr>)) = (A', gs, rest)"
      using Cons.prems by (auto simp: Let_def split: prod.splits)
    then show ?thesis using Cons.IH by fastforce
  qed
qed auto

lemma tl_subset: "set (tl xs) \<subseteq> set xs"
  by (cases xs) auto

definition well_timed :: "'a adds list \<Rightarrow> bool" where
  "well_timed script \<longleftrightarrow> (\<forall>as \<in> set script. in_time as)"

lemma well_timed_mono: "well_timed script \<Longrightarrow> set script' \<subseteq> set script \<Longrightarrow> well_timed script'"
  by (auto simp: well_timed_def)

lemma well_timed_tl: "well_timed script \<Longrightarrow> well_timed (tl script)"
  by (erule well_timed_mono) (rule tl_subset)

lemma in_time_hd: "well_timed script \<Longrightarrow> in_time (script_hd script)"
  by (cases script) (auto simp: script_hd_def in_time_def well_timed_def)

lemma contended_acquire_refines:
  assumes "timer_wf T" "\<not> tm_lock T" "well_timed script"
  shows "\<exists>T'. contended_acquire script T = Some T' \<and> held T' \<and>
     same_clock (T\<lparr>tm_lock := True\<rparr>) T' \<and> agenda_of T' = ag_adds (script_hd script) (agenda_of T)"
proof -
  have "in_time (script_hd script)" by (rule in_time_hd) (rule assms(3))
  from timer_adds_refines [OF assms(1,2) this] obtain T' where
    "timer_adds (script_hd script) T = Some T'" "timer_wf T'" "same_clock T T'"
    "agenda_of T' = ag_adds (script_hd script) (agenda_of T)" by blast
  then show ?thesis
    using assms(2) by (simp add: contended_acquire_def spinlock_acquire_def held_def same_clock_def)
qed

lemma timer_execute_refines:
  assumes "held T" "well_timed script"
  shows "\<exists>T' fs rest. timer_execute script T = Some (T', fs, rest) \<and> held T' \<and> same_clock T T' \<and>
     ag_execute script (agenda_of T) = (agenda_of T', fs, rest) \<and> set rest \<subseteq> set script"
  using assms
proof (induction script T rule: timer_execute.induct)
  case (1 script T)
  let ?idx = "unat (tm_time T AND TIME_NEAR_MASK)"
  define s where "s = slot_of (tm_time T) (tm_time T)"
  have s: "s = Near ?idx" by (simp add: s_def slot_of_now low_bits)
  have wf: "timer_wf T" and lock: "tm_lock T" using "1.prems"(1) by (simp_all add: held_def)
  have due: "ag_due (agenda_of T) (tm_time T) = map tn_arg (tm_n T ?idx)"
    using events_now [OF wf] s by (simp add: s_def)
  show ?case
  proof (cases "tm_n T ?idx = []")
    case True
    then have "timer_execute script T = Some (T, [], script)"
      by (subst timer_execute.simps) simp
    then show ?thesis using "1.prems"(1) due True
      by (simp add: ag_execute_empty same_clock_def del: agenda_of_sel(2))
  next
    case False
    define T0 where "T0 = put_slot s [] T"
    have T0: "T\<lparr>tm_n := (tm_n T)(?idx := [])\<rparr> = T0" by (simp add: T0_def s put_slot_def)
    define T1 where "T1 = T0\<lparr>tm_lock := False\<rparr>"
    have rel: "spinlock_release T0 = Some T1"
      using lock by (simp add: spinlock_release_def T1_def T0_def)
    have T1: "timer_wf T1" "\<not> tm_lock T1" "same_clock (T\<lparr>tm_lock := False\<rparr>) T1"
      "agenda_of T1 = (agenda_of T)\<lparr>ag_due := (ag_due (agenda_of T))(tm_time T := [])\<rparr>"
      using clear_now [OF wf] by (simp_all add: T1_def T0_def s_def same_clock_def)
    obtain T2 where T2: "contended_acquire script T1 = Some T2" "held T2"
      "same_clock (T1\<lparr>tm_lock := True\<rparr>) T2" "agenda_of T2 = ag_adds (script_hd script) (agenda_of T1)"
      using contended_acquire_refines [OF T1(1,2) "1.prems"(2)] by blast
    note IH = "1.IH" [of ?idx "link_clear (tm_n T ?idx)" "tm_n T ?idx" "[]" T1
        "map tn_arg (tm_n T ?idx)" T2]
    have "link_clear (tm_n T ?idx) = (tm_n T ?idx, [])" by (simp add: link_clear_def)
    from IH [OF refl False refl this [symmetric] _ dispatch_list_args [OF False] T2(1,2)]
    have "\<exists>T' fs rest. timer_execute (tl script) T2 = Some (T', fs, rest) \<and> held T' \<and>
       same_clock T2 T' \<and> ag_execute (tl script) (agenda_of T2) = (agenda_of T', fs, rest) \<and>
       set rest \<subseteq> set (tl script)"
      using rel well_timed_tl [OF "1.prems"(2)] by (simp only: T0)
    then obtain T' fs rest where T': "timer_execute (tl script) T2 = Some (T', fs, rest)" "held T'"
      "same_clock T2 T'" "ag_execute (tl script) (agenda_of T2) = (agenda_of T', fs, rest)"
      "set rest \<subseteq> set (tl script)" by blast
    have "timer_execute script T = Some (T', map tn_arg (tm_n T ?idx) @ fs, rest)"
      using False rel T2(1) T'(1)
      by (subst timer_execute.simps)
        (simp add: link_clear_def dispatch_list_args T0 [simplified] Let_def)
    moreover have "ag_execute script (agenda_of T) =
        (agenda_of T', map tn_arg (tm_n T ?idx) @ fs, rest)"
      using False T'(4) due
      by (subst ag_execute_step) (simp add: T2(4) T1(4) del: agenda_of_sel(2))
    moreover have "same_clock T T'"
      using T1(3) T2(3) T'(3) lock by (simp add: same_clock_def)
    moreover have "set rest \<subseteq> set script" using T'(5) tl_subset by (rule subset_trans)
    ultimately show ?thesis using T'(2) by (intro exI conjI)
  qed
qed

section \<open>Advancing\<close>

lemma move_nodes_lists:
  "\<exists>T'. move_nodes xs T = Some T' \<and> same_clock T T' \<and> tm_time T' = tm_time T \<and>
     (\<forall>s. slot_list T' s =
        slot_list T s @ filter (\<lambda>x. slot_of (tm_time T) (tn_expire x) = s) xs)"
proof (induction xs arbitrary: T)
  case Nil
  then show ?case by (simp add: same_clock_def)
next
  case (Cons x xs)
  define s where "s = slot_of (tm_time T) (tn_expire x)"
  define T1 where "T1 = put_slot s (slot_list T s @ [x]) T"
  have "add_node T x = Some T1" by (simp add: add_node_put T1_def s_def Let_def)
  moreover obtain T' where "move_nodes xs T1 = Some T'" "same_clock T1 T'" "tm_time T' = tm_time T1"
    "\<forall>s'. slot_list T' s' =
       slot_list T1 s' @ filter (\<lambda>x. slot_of (tm_time T1) (tn_expire x) = s') xs"
    using Cons.IH by blast
  ultimately show ?case by (auto simp: T1_def s_def same_clock_def)
qed

text \<open>The loop finds the list \<open>moved\<close> names, without leaving the four levels.\<close>

lemma ct_masks:
  fixes ct :: u32
  shows "ct AND 255 = 0 \<longleftrightarrow> unat ct mod 256 = 0" "ct AND 16383 = 0 \<longleftrightarrow> unat ct mod 2 ^ 14 = 0"
    "ct AND 1048575 = 0 \<longleftrightarrow> unat ct mod 2 ^ 20 = 0"
    "ct AND 67108863 = 0 \<longleftrightarrow> unat ct mod 2 ^ 26 = 0"
  using unat_and_mask [of ct 8] unat_and_mask [of ct 14] unat_and_mask [of ct 20]
    unat_and_mask [of ct 26]
  by (simp_all add: word_unat_eq_iff)

lemma level_idx:
  fixes ct :: u32
  shows "unat (drop_bit k ct AND 63) = unat ct div 2 ^ k mod 64"
    "drop_bit k ct AND 63 = 0 \<longleftrightarrow> unat ct div 2 ^ k mod 64 = 0"
  by (simp_all only: word_unat_eq_iff low_bits unat_0)

lemma top_level:
  assumes "ct \<noteq> (0 :: u32)" "unat ct mod 2 ^ 26 = 0"
  shows "unat ct div 2 ^ 26 mod 64 \<noteq> 0"
proof
  assume "unat ct div 2 ^ 26 mod 64 = 0"
  then have "unat ct mod (2 ^ 26 * 64) = 0" using assms(2) by (simp only: mod_mult2_eq)
  then have "unat ct = 0" using unat_u32_less [of ct] by simp
  then show False using assms(1) by (simp add: unat_eq_zero)
qed

lemma idx_div:
  fixes ct :: u32
  shows "unat ct mod 256 = 0 \<Longrightarrow> unat ct mod 2 ^ 14 = 0 \<longleftrightarrow> unat ct div 2 ^ 8 mod 64 = 0"
    "unat ct mod 2 ^ 14 = 0 \<Longrightarrow> unat ct mod 2 ^ 20 = 0 \<longleftrightarrow> unat ct div 2 ^ 14 mod 64 = 0"
    "unat ct mod 2 ^ 20 = 0 \<Longrightarrow> unat ct mod 2 ^ 26 = 0 \<longleftrightarrow> unat ct div 2 ^ 20 mod 64 = 0"
  using mod_mult_zero_iff [of 256 "unat ct" 64] mod_mult_zero_iff [of "2 ^ 14" "unat ct" 64]
    mod_mult_zero_iff [of "2 ^ 20" "unat ct" 64]
  by simp_all

lemma shift_loop_moved:
  assumes "ct \<noteq> 0"
  shows "shift_loop T ct 256 (drop_bit 8 ct) 0 =
     (case moved ct of None \<Rightarrow> Some T | Some s \<Rightarrow> move_nodes (slot_list T s) (put_slot s [] T))"
proof -
  have ml: "move_list T i j =
      move_nodes (slot_list T (Level i j)) (put_slot (Level i j) [] T)" if "i < 4" "j < 64" for i j
    using that by (simp add: move_list_def link_clear_def put_slot_def)
  have nz: "unat ct \<noteq> 0" using assms by (simp add: unat_eq_zero)
  have db: "drop_bit 6 (drop_bit k ct) = drop_bit (6 + k) ct" for k by simp
  have pb: "push_bit 6 (256 :: int) = 16384" "push_bit 6 (16384 :: int) = 1048576"
    "push_bit 6 (1048576 :: int) = 67108864" by (simp_all add: push_bit_eq_mult)
  have s3: "unat ct mod 2 ^ 26 = 0 \<Longrightarrow> shift_loop T ct 67108864 (drop_bit 26 ct) 3 =
      move_list T 3 (unat ct div 2 ^ 26 mod 64)"
    by (subst shift_loop.simps) (simp add: ct_masks level_idx top_level [OF assms, simplified] Let_def)
  have s2: "unat ct mod 2 ^ 20 = 0 \<Longrightarrow> shift_loop T ct 1048576 (drop_bit 20 ct) 2 =
      (if unat ct mod 2 ^ 26 = 0 then move_list T 3 (unat ct div 2 ^ 26 mod 64)
       else move_list T 2 (unat ct div 2 ^ 20 mod 64))"
    by (subst shift_loop.simps)
      (simp add: ct_masks level_idx idx_div [simplified] Let_def db pb s3 [simplified] del: drop_bit_drop_bit)
  have s1: "unat ct mod 2 ^ 14 = 0 \<Longrightarrow> shift_loop T ct 16384 (drop_bit 14 ct) 1 =
      (if unat ct mod 2 ^ 20 = 0 then
        (if unat ct mod 2 ^ 26 = 0 then move_list T 3 (unat ct div 2 ^ 26 mod 64)
         else move_list T 2 (unat ct div 2 ^ 20 mod 64))
       else move_list T 1 (unat ct div 2 ^ 14 mod 64))"
    by (subst shift_loop.simps)
      (simp add: ct_masks level_idx idx_div [simplified] Let_def db pb s2 [simplified] numeral_2_eq_2 [symmetric] del: drop_bit_drop_bit)
  show ?thesis
    by (subst shift_loop.simps)
      (simp add: ct_masks level_idx idx_div [simplified] Let_def db pb s1 [simplified] moved_def nz ml
        del: drop_bit_drop_bit)
qed

lemma timer_shift_moved:
  fixes T
  defines "T1 \<equiv> T\<lparr>tm_time := tm_time T + 1\<rparr>"
  shows "timer_shift T = (case moved (tm_time T + 1) of
       None \<Rightarrow> Some T1 | Some s \<Rightarrow> move_nodes (slot_list T1 s) (put_slot s [] T1))"
proof (cases "tm_time T + 1 = 0")
  case True
  then show ?thesis
    by (simp add: timer_shift_def Let_def T1_def moved_def move_list_def link_clear_def put_slot_def)
next
  case False
  then show ?thesis
    using shift_loop_moved [OF False, of T1] by (simp add: timer_shift_def Let_def flip: T1_def)
qed

lemma slot_list_time [simp]: "slot_list (T\<lparr>tm_time := t\<rparr>) s = slot_list T s"
  by (cases s) simp_all

text \<open>The lists after a tick.\<close>

lemma timer_shift_lists:
  fixes T
  defines "ct \<equiv> tm_time T + 1"
  shows "\<exists>T'. timer_shift T = Some T' \<and> same_clock T T' \<and> tm_time T' = ct \<and>
     (\<forall>s. slot_list T' s =
        (if moved ct = Some s then [] else slot_list T s) @
        (case moved ct of None \<Rightarrow> [] | Some m \<Rightarrow>
           filter (\<lambda>x. slot_of ct (tn_expire x) = s) (slot_list T m)))"
proof (cases "moved ct")
  case None
  then show ?thesis unfolding timer_shift_moved by (simp add: ct_def same_clock_def)
next
  case (Some m)
  obtain T' where "move_nodes (slot_list T m) (put_slot m [] (T\<lparr>tm_time := ct\<rparr>)) = Some T'"
    "same_clock (put_slot m [] (T\<lparr>tm_time := ct\<rparr>)) T'" "tm_time T' = ct"
    "\<forall>s. slot_list T' s = slot_list (put_slot m [] (T\<lparr>tm_time := ct\<rparr>)) s @
       filter (\<lambda>x. slot_of ct (tn_expire x) = s) (slot_list T m)"
    using move_nodes_lists [of "slot_list T m" "put_slot m [] (T\<lparr>tm_time := ct\<rparr>)"] by auto
  then show ?thesis
    using Some unfolding timer_shift_moved by (auto simp: ct_def same_clock_def)
qed

lemma unat_pred_less:
  assumes "x \<noteq> (0 :: u32)" "unat x < n"
  shows "unat (x - 1) < n"
proof -
  have "0 < unat x" using assms(1) by (simp add: unat_gt_0)
  then show ?thesis using assms(2) by (simp add: unat_dist)
qed

lemma dist_step:
  assumes "e \<noteq> now" "unat (e - now :: u32) < 2 ^ 31"
  shows "unat (e - (now + 1)) < 2 ^ 31"
proof -
  have "unat ((e - now) - 1) < 2 ^ 31"
    using assms by (intro unat_pred_less) simp_all
  then show ?thesis by (simp add: diff_diff_add)
qed

lemma timer_shift_refines:
  assumes h: "held T" and now: "ag_due (agenda_of T) (tm_time T) = []"
  shows "\<exists>T'. timer_shift T = Some T' \<and> held T' \<and> same_clock T T' \<and>
     agenda_of T' = (agenda_of T)\<lparr>ag_now := tm_time T + 1\<rparr>"
proof -
  let ?now = "tm_time T" and ?ct = "tm_time T + 1"
  have wf: "timer_wf T" using h by (simp add: held_def)
  have later: "tn_expire x \<noteq> ?now" if "x \<in> set (slot_list T s)" for x s
  proof
    assume "tn_expire x = ?now"
    then have "x \<in> set (events_at T ?now (slot_of ?now ?now))"
      using that timer_wfD(1) [OF wf that] by (simp add: events_at_def)
    then show False using now by (metis agenda_of_sel(2) empty_iff list.set(1) map_is_Nil_conv)
  qed
  obtain T' where T': "timer_shift T = Some T'" "same_clock T T'" "tm_time T' = ?ct"
    "\<And>s. slot_list T' s = (if moved ?ct = Some s then [] else slot_list T s) @
        (case moved ?ct of None \<Rightarrow> [] | Some m \<Rightarrow>
           filter (\<lambda>x. slot_of ?ct (tn_expire x) = s) (slot_list T m))"
    using timer_shift_lists [of T] by auto
  have stays: "slot_of ?ct (tn_expire x) = s"
    if "x \<in> set (slot_list T s)" "moved ?ct \<noteq> Some s" for x s
    using slot_of_step [OF later [OF that(1)] timer_wfD(2) [OF wf that(1)]]
      timer_wfD(1) [OF wf that(1)] that(2) by auto
  have old: "x \<in> set (slot_list T' s) \<Longrightarrow> (\<exists>s0. x \<in> set (slot_list T s0)) \<and>
      slot_of ?ct (tn_expire x) = s" for x s
    using stays by (auto simp: T'(4) split: if_splits option.splits)
  have wf': "timer_wf T'"
    unfolding timer_wf_def T'(3)
    using old later timer_wfD(2) [OF wf] dist_step by blast
  have due: "events_at T' e (slot_of ?ct e) = events_at T e (slot_of ?now e)" for e
  proof (cases "e \<noteq> ?now \<and> unat (e - ?now) < 2 ^ 31")
    case True
    have step: "slot_of ?ct e = slot_of ?now e \<or> moved ?ct = Some (slot_of ?now e)"
      using slot_of_step True by blast
    have cond: "filter (\<lambda>x. slot_of ?ct (tn_expire x) = slot_of ?ct e \<and> tn_expire x = e) l =
        filter (\<lambda>x. tn_expire x = e) l" for l :: "'a timer_node list"
      by (induction l) auto
    have ev: "events_at T' e (slot_of ?ct e) =
        (if moved ?ct = Some (slot_of ?ct e) then [] else events_at T e (slot_of ?ct e)) @
        (case moved ?ct of None \<Rightarrow> [] | Some m \<Rightarrow> events_at T e m)"
      by (simp add: events_at_def T'(4) cond split: option.split)
    show ?thesis
    proof (cases "moved ?ct = Some (slot_of ?now e)")
      case True
      then show ?thesis
        using events_elsewhere [OF wf, of "slot_of ?ct e" e] by (auto simp: ev)
    next
      case False
      then have "slot_of ?ct e = slot_of ?now e" using step by simp
      then show ?thesis
        using ev False events_elsewhere [OF wf, of _ e] by (auto split: option.splits)
    qed
  next
    case False
    have "events_at T' e s = [] \<and> events_at T e s0 = []" for s s0
      using False old later timer_wfD(2) [OF wf]
      unfolding events_at_def filter_empty_conv by blast
    then show ?thesis by simp
  qed
  have "agenda_of T' = (agenda_of T)\<lparr>ag_now := ?ct\<rparr>"
    by (simp add: agenda_of_def T'(3) due)
  then show ?thesis
    using T'(1,2) wf' h by (auto simp: held_def same_clock_def)
qed

section \<open>Ticks\<close>

definition timer_free :: "'a timer \<Rightarrow> bool" where
  "timer_free T \<longleftrightarrow> timer_wf T \<and> \<not> tm_lock T"

lemma timer_update_tick_refines:
  assumes "timer_free T" "well_timed script"
  shows "\<exists>T' fs rest. timer_update_tick script T = Some (T', fs, rest) \<and> timer_free T' \<and>
     same_clock T T' \<and> ag_tick script (agenda_of T) = (agenda_of T', fs, rest) \<and>
     set rest \<subseteq> set script"
proof -
  have free: "timer_wf T" "\<not> tm_lock T" using assms(1) by (simp_all add: timer_free_def)
  obtain T1 where T1: "contended_acquire script T = Some T1" "held T1"
    "same_clock (T\<lparr>tm_lock := True\<rparr>) T1" "agenda_of T1 = ag_adds (script_hd script) (agenda_of T)"
    using contended_acquire_refines [OF free assms(2)] by blast
  obtain T2 fs s2 where T2: "timer_execute (tl script) T1 = Some (T2, fs, s2)" "held T2"
    "same_clock T1 T2" "ag_execute (tl script) (agenda_of T1) = (agenda_of T2, fs, s2)"
    "set s2 \<subseteq> set (tl script)"
    using timer_execute_refines [OF T1(2) well_timed_tl [OF assms(2)]] by blast
  have "ag_due (agenda_of T2) (tm_time T2) = []"
    using ag_execute_now [OF T2(4)] unfolding agenda_of_sel(1) by blast
  then obtain T3 where T3: "timer_shift T2 = Some T3" "held T3" "same_clock T2 T3"
    "agenda_of T3 = (agenda_of T2)\<lparr>ag_now := ag_now (agenda_of T2) + 1\<rparr>"
    using timer_shift_refines [OF T2(2)] by auto
  have "set s2 \<subseteq> set script" using T2(5) tl_subset by (rule subset_trans)
  then have wt2: "well_timed s2" by (rule well_timed_mono [OF assms(2)])
  obtain T4 gs s4 where T4: "timer_execute s2 T3 = Some (T4, gs, s4)" "held T4"
    "same_clock T3 T4" "ag_execute s2 (agenda_of T3) = (agenda_of T4, gs, s4)"
    "set s4 \<subseteq> set s2"
    using timer_execute_refines [OF T3(2) wt2] by blast
  have "timer_update_tick script T = Some (T4\<lparr>tm_lock := False\<rparr>, fs @ gs, s4)"
    using T1(1) T2(1) T3(1) T4(1,2)
    by (simp add: timer_update_tick_def spinlock_release_def held_def)
  moreover have "ag_tick script (agenda_of T) = (agenda_of (T4\<lparr>tm_lock := False\<rparr>), fs @ gs, s4)"
    using T4(4) T3(4) T2(4) T1(4) by (simp add: ag_tick_def)
  moreover have "timer_free (T4\<lparr>tm_lock := False\<rparr>)"
    using T4(2) by (simp add: timer_free_def held_def)
  moreover have "same_clock T (T4\<lparr>tm_lock := False\<rparr>)"
    using T1(3) T2(3) T3(3) T4(3) free(2) by (simp add: same_clock_def)
  moreover have "set s4 \<subseteq> set script" 
    by (rule subset_trans [OF T4(5) subset_trans [OF T2(5) tl_subset]])
  ultimately show ?thesis by (intro exI conjI)
qed

lemma update_loop_refines:
  assumes "timer_free T" "well_timed script"
  shows "\<exists>T' fs rest. update_loop d script T = Some (T', fs, rest) \<and> timer_free T' \<and>
     same_clock T T' \<and> ag_ticks d script (agenda_of T) = (agenda_of T', fs, rest) \<and>
     set rest \<subseteq> set script"
  using assms
proof (induction d arbitrary: T script)
  case 0
  then show ?case by (simp add: same_clock_def)
next
  case (Suc d)
  obtain T1 fs s1 where 1: "timer_update_tick script T = Some (T1, fs, s1)" "timer_free T1"
    "same_clock T T1" "ag_tick script (agenda_of T) = (agenda_of T1, fs, s1)" "set s1 \<subseteq> set script"
    using timer_update_tick_refines [OF Suc.prems] by blast
  obtain T2 gs s2 where 2: "update_loop d s1 T1 = Some (T2, gs, s2)" "timer_free T2"
    "same_clock T1 T2" "ag_ticks d s1 (agenda_of T1) = (agenda_of T2, gs, s2)" "set s2 \<subseteq> set s1"
    using Suc.IH [OF 1(2) well_timed_mono [OF Suc.prems(2) 1(5)]] by blast
  have "update_loop (Suc d) script T = Some (T2, fs @ gs, s2)" using 1(1) 2(1) by simp
  moreover have "ag_ticks (Suc d) script (agenda_of T) = (agenda_of T2, fs @ gs, s2)"
    using 1(4) 2(4) by simp
  moreover have "same_clock T T2" using 1(3) 2(3) by (rule same_clock_trans)
  moreover have "set s2 \<subseteq> set script" using 2(5) 1(5) by (rule subset_trans)
  ultimately show ?case using 2(2) by (intro exI conjI)
qed

end
