(* ===== verification/TimerProps.thy ===== *)
theory TimerProps
  imports TimerSpec "HOL-Library.Multiset"
begin

text \<open>
  What the timer promises: \<open>timer_update\<close> refines the agenda, an undisturbed update fires
  exactly the events whose time has come, in order of time and then of addition, and over the
  life of a timer every event is dispatched or released exactly once.
\<close>

section \<open>A new timer\<close>

lemma timer_init_lists [simp]: "slot_list (timer_init w m) s = []"
  by (cases s) (simp_all add: timer_init_def timer_new_def)

lemma timer_init_sel [simp]:
  "tm_time (timer_init w m) = 0" "tm_lock (timer_init w m) = False"
  "tm_current (timer_init w m) = w mod 100" "tm_current_point (timer_init w m) = m"
  "tm_starttime (timer_init w m) = ucast (w div 100)"
  by (simp_all add: timer_init_def timer_new_def)

lemma timer_init_free [wf_intro]: "timer_free (timer_init w m)"
  by (simp add: timer_free_def timer_wf_def)

lemma agenda_of_init: "agenda_of (timer_init w m) = \<lparr>ag_now = 0, ag_due = (\<lambda>e. [])\<rparr>"
  by (simp add: agenda_of_def events_at_def)

section \<open>The update\<close>

text \<open>The fields \<open>timer_update\<close> sets before it ticks.\<close>

definition set_clock :: "u64 \<Rightarrow> 'a timer \<Rightarrow> 'a timer" where
  "set_clock cp T = T\<lparr>tm_current_point := cp, tm_current := tm_current T + (cp - tm_current_point T)\<rparr>"

lemma set_clock_same [simp]:
  "slot_list (set_clock cp T) s = slot_list T s" "tm_time (set_clock cp T) = tm_time T"
  "tm_lock (set_clock cp T) = tm_lock T"
  by (cases s; simp add: set_clock_def)+

lemma set_clock_free: "timer_free T \<Longrightarrow> timer_free (set_clock cp T)"
  "agenda_of (set_clock cp T) = agenda_of T"
  by (simp_all add: timer_free_def timer_wf_def agenda_of_def events_at_def)

lemma ucast_small:
  assumes "unat (x :: u64) < 2 ^ 31"
  shows "unat (ucast x :: u32) = unat x" "ucast (ucast x :: u32) = x"
proof -
  have up: "unat (ucast y :: u64) = unat y" for y :: u32
  proof -
    have "unat y < 2 ^ 64" using unat_u32_less [of y] by simp
    then show ?thesis by (simp add: unsigned_ucast_eq take_bit_nat_eq_self)
  qed
  have "unat x < 2 ^ 32" using assms by simp
  then show 1: "unat (ucast x :: u32) = unat x"
    by (simp add: unsigned_ucast_eq take_bit_nat_eq_self)
  show "ucast (ucast x :: u32) = x"
    by (simp only: word_unat_eq_iff up 1)
qed

lemma timer_update_loop:
  assumes "tm_current_point T \<le> cp" "unat (cp - tm_current_point T) < 2 ^ 31"
  shows "timer_update cp script T =
     update_loop (unat (cp - tm_current_point T)) script (set_clock cp T)"
proof (cases "cp = tm_current_point T")
  case True
  then show ?thesis by (simp add: timer_update_def set_clock_def)
next
  case False
  then show ?thesis
    using assms(2) assms(1) [folded not_less]
    by (simp only: timer_update_def set_clock_def Let_def ucast_small [OF assms(2)] if_False if_True
        not_False_eq_True)
qed

text \<open>
  C10: \<open>timer_update\<close> refines the agenda. On a timer in a good state, whatever other threads
  add while the lock is free and as long as fewer than \<open>2 ^ 31\<close> ticks have passed, it returns
  (no list outside the wheel, no overflow, no deadlock, no endless dispatch), leaves the timer
  in a good state with the lock free, fires exactly what the agenda fires in the same order,
  and moves \<open>current\<close> and \<open>current_point\<close> by the time passed.
\<close>

theorem timer_update_refines_agenda:
  assumes "timer_free T" "well_timed script"
    and "tm_current_point T \<le> cp" "unat (cp - tm_current_point T) < 2 ^ 31"
  shows "\<exists>T' fs rest. timer_update cp script T = Some (T', fs, rest) \<and> timer_free T' \<and>
     ag_ticks (unat (cp - tm_current_point T)) script (agenda_of T) = (agenda_of T', fs, rest) \<and>
     tm_current_point T' = cp \<and> timer_now T' = timer_now T + (cp - tm_current_point T) \<and>
     timer_starttime T' = timer_starttime T"
proof -
  obtain T' fs rest where
    "update_loop (unat (cp - tm_current_point T)) script (set_clock cp T) = Some (T', fs, rest)"
    "timer_free T'" "same_clock (set_clock cp T) T'"
    "ag_ticks (unat (cp - tm_current_point T)) script (agenda_of T) = (agenda_of T', fs, rest)"
    using update_loop_refines [OF set_clock_free(1) [OF assms(1)] assms(2)]
    by (metis set_clock_free(2))
  then show ?thesis
    by (simp add: timer_update_loop [OF assms(3,4)] same_clock_def timer_now_def
        timer_starttime_def set_clock_def)
qed

theorem timer_update_refines_agenda_witness:
  "\<exists>T' rest. timer_update 3 [[(7, 1)], [(8, 0)]] (timer_init 250 1 :: nat timer) =
     Some (T', [7, 8], rest)"
proof -
  let ?T = "timer_init 250 1 :: nat timer" and ?s = "[[(7 :: nat, 1 :: int)], [(8, 0)]]"
  have d: "unat (3 - tm_current_point ?T) = Suc (Suc 0)" by simp
  have "well_timed ?s" by (simp add: well_timed_def in_time_def)
  moreover have "tm_current_point ?T \<le> 3" "unat (3 - tm_current_point ?T) < 2 ^ 31" by simp_all
  ultimately obtain T' fs rest where "timer_update 3 ?s ?T = Some (T', fs, rest)"
    "ag_ticks (unat (3 - tm_current_point ?T)) ?s (agenda_of ?T) = (agenda_of T', fs, rest)"
    using timer_update_refines_agenda [OF timer_init_free] by blast
  moreover have "fst (snd (ag_ticks (Suc (Suc 0)) ?s (agenda_of ?T))) = [7, 8]"
    by (simp add: agenda_of_init ag_tick_def ag_add_def script_hd_def Let_def)
  ultimately show ?thesis by (simp only: d) auto
qed

section \<open>Undisturbed updates\<close>

lemma ag_tick_quiet:
  "ag_tick [] A =
     (\<lparr>ag_now = ag_now A + 1, ag_due = (ag_due A)(ag_now A := [], ag_now A + 1 := [])\<rparr>,
      ag_due A (ag_now A) @ ag_due A (ag_now A + 1), [])"
  by (cases A) (simp add: ag_tick_def script_hd_def)

definition window :: "'a agenda \<Rightarrow> nat \<Rightarrow> 'a list" where
  "window A d = concat (map (\<lambda>k. ag_due A (ag_now A + of_nat k)) [0..<d])"

lemma u32_of_nat_neq:
  "j < 2 ^ 32 \<Longrightarrow> k < 2 ^ 32 \<Longrightarrow> j \<noteq> k \<Longrightarrow> (now :: u32) + of_nat j \<noteq> now + of_nat k"
  by (simp add: of_nat_inverse word_of_nat_eq_iff take_bit_nat_eq_self)

text \<open>The agenda after \<open>d\<close> undisturbed ticks, and what they fire.\<close>

lemma ag_ticks_quiet:
  assumes "d < 2 ^ 32 - 1"
  shows "\<exists>A'. ag_ticks (Suc d) [] A = (A', window A (Suc (Suc d)), []) \<and>
     ag_now A' = ag_now A + of_nat (Suc d) \<and>
     (\<forall>e. ag_due A' e =
        (if \<exists>k \<le> Suc d. e = ag_now A + of_nat k then [] else ag_due A e))"
  using assms
proof (induction d arbitrary: A)
  case 0
  show ?case by (auto simp: ag_tick_quiet window_def le_Suc_eq)
next
  case (Suc d)
  define A1 where "A1 = \<lparr>ag_now = ag_now A + 1,
      ag_due = (ag_due A)(ag_now A := [], ag_now A + 1 := [])\<rparr>"
  obtain A' where A': "ag_ticks (Suc d) [] A1 = (A', window A1 (Suc (Suc d)), [])"
    "ag_now A' = ag_now A1 + of_nat (Suc d)"
    "\<And>e. ag_due A' e = (if \<exists>k \<le> Suc d. e = ag_now A1 + of_nat k then [] else ag_due A1 e)"
    using Suc.IH [of A1] Suc.prems by auto
  have later: "ag_due A1 (ag_now A1 + of_nat k) = ag_due A (ag_now A + of_nat (Suc k))"
    if "k \<in> {1..<Suc (Suc d)}" for k
    using that Suc.prems u32_of_nat_neq [of "Suc k" 0 "ag_now A"] u32_of_nat_neq [of "Suc k" 1 "ag_now A"]
    by (auto simp: A1_def add.assoc)
  have "window A1 (Suc (Suc d)) = concat (map (\<lambda>k. ag_due A1 (ag_now A1 + of_nat k)) [1..<Suc (Suc d)])"
    by (simp add: window_def upt_conv_Cons A1_def del: upt_Suc)
  also have "\<dots> = concat (map (\<lambda>k. ag_due A (ag_now A + of_nat (Suc k))) [1..<Suc (Suc d)])"
    using later by (intro arg_cong [where f = concat] map_cong) auto
  also have "\<dots> = concat (map (\<lambda>k. ag_due A (ag_now A + of_nat k)) [2..<Suc (Suc (Suc d))])"
  proof -
    have "[2..<Suc (Suc (Suc d))] = map Suc [1..<Suc (Suc d)]"
      by (simp only: map_Suc_upt numeral_2_eq_2 One_nat_def)
    then show ?thesis by (simp only: map_map comp_def)
  qed
  finally have w: "ag_due A (ag_now A) @ ag_due A (ag_now A + 1) @ window A1 (Suc (Suc d)) =
      window A (Suc (Suc (Suc d)))"
    by (simp add: window_def upt_conv_Cons numeral_2_eq_2 del: upt_Suc)
  have "ag_ticks (Suc (Suc d)) [] A = (A', window A (Suc (Suc (Suc d))), [])"
    using A'(1) w by (simp add: ag_tick_quiet flip: A1_def)
  moreover have "ag_now A' = ag_now A + of_nat (Suc (Suc d))"
    by (simp add: A'(2) A1_def)
  moreover have "ag_due A' e =
      (if \<exists>k \<le> Suc (Suc d). e = ag_now A + of_nat k then [] else ag_due A e)" for e
  proof -
    have "(\<exists>k \<le> Suc d. e = ag_now A1 + of_nat k) \<or> e = ag_now A \<longleftrightarrow>
        (\<exists>k \<le> Suc (Suc d). e = ag_now A + of_nat k)" (is "?l \<longleftrightarrow> ?r")
    proof
      assume ?l
      then show ?r
      proof
        assume "\<exists>k \<le> Suc d. e = ag_now A1 + of_nat k"
        then obtain k where "k \<le> Suc d" "e = ag_now A + of_nat (Suc k)" by (auto simp: A1_def)
        then show ?r by (intro exI [of _ "Suc k"]) simp
      next
        assume "e = ag_now A"
        then show ?r by (intro exI [of _ 0]) simp
      qed
    next
      assume ?r
      then obtain k where k: "k \<le> Suc (Suc d)" "e = ag_now A + of_nat k" by blast
      then show ?l
        by (cases k) (auto simp: A1_def intro: exI [of _ "k - 1"])
    qed
    moreover have "e = ag_now A1 + of_nat 0 \<Longrightarrow> \<exists>k \<le> Suc d. e = ag_now A1 + of_nat k" by blast
    ultimately show ?thesis by (auto simp: A'(3) A1_def)
  qed
  ultimately show ?case by blast
qed

text \<open>
  C15: Undisturbed, the timer is exact. When \<open>d > 0\<close> ticks have passed since the last update
  and nobody adds meanwhile, \<open>timer_update\<close> fires the events due at the clock and at each of
  the next \<open>d\<close> ticks, tick by tick and first added first, and no other; afterwards those are
  gone, every later event is still due when it was, and the clock is \<open>d\<close> ticks further.
\<close>

theorem events_fire_on_time:
  assumes "timer_free T" "tm_current_point T < cp" "unat (cp - tm_current_point T) < 2 ^ 31"
  defines "d \<equiv> unat (cp - tm_current_point T)"
  shows "\<exists>T'. timer_update cp [] T =
       Some (T', concat (map (\<lambda>k. ag_due (agenda_of T) (tm_time T + of_nat k)) [0..<Suc d]), []) \<and>
     timer_free T' \<and> tm_time T' = tm_time T + of_nat d \<and>
     (\<forall>e. ag_due (agenda_of T') e =
        (if unat (e - tm_time T) \<le> d then [] else ag_due (agenda_of T) e))"
proof -
  have "tm_current_point T \<le> cp" using assms(2) by simp
  then obtain T' fs rest where T': "timer_update cp [] T = Some (T', fs, rest)" "timer_free T'"
    "ag_ticks d [] (agenda_of T) = (agenda_of T', fs, rest)"
    using timer_update_loop [OF _ assms(3), of "[]"] update_loop_refines [of "set_clock cp T" "[]" d]
      set_clock_free(1) [OF assms(1), of cp] set_clock_free(2) [of cp T] by (auto simp: d_def well_timed_def)
  obtain d' where d': "d = Suc d'" using assms(2) by (cases d) (auto simp: d_def unat_eq_zero)
  have small: "d' < 2 ^ 32 - 1" "d < 2 ^ 32" using assms(3) by (simp_all add: d_def [symmetric] d')
  have fired: "fs = window (agenda_of T) (Suc d)" "rest = []" "tm_time T' = tm_time T + of_nat d"
    "\<And>e. ag_due (agenda_of T') e =
      (if \<exists>k \<le> d. e = tm_time T + of_nat k then [] else ag_due (agenda_of T) e)"
    using ag_ticks_quiet [OF small(1), of "agenda_of T"] T'(3)
    unfolding d' [symmetric] by (auto simp del: agenda_of_sel(2))
  have "(\<exists>k \<le> d. e = tm_time T + of_nat k) \<longleftrightarrow> unat (e - tm_time T) \<le> d" for e
  proof
    assume "\<exists>k \<le> d. e = tm_time T + of_nat k"
    then obtain k where "k \<le> d" "e - tm_time T = of_nat k" by auto
    then show "unat (e - tm_time T) \<le> d"
      using small(2) by (simp add: unat_of_nat take_bit_nat_eq_self)
  next
    assume "unat (e - tm_time T) \<le> d"
    then show "\<exists>k \<le> d. e = tm_time T + of_nat k"
      by (intro exI [of _ "unat (e - tm_time T)"]) simp
  qed
  then show ?thesis
    using T'(1,2) fired by (simp add: window_def del: agenda_of_sel(2) upt_Suc)
qed

text \<open>One event at distance 300, past the near lists: not fired after 299 ticks, fired after 300.\<close>

theorem events_fire_on_time_witness:
  "\<exists>T T1 T2. timer_add True (timer_init 0 0) (5 :: nat) 300 = Some T \<and>
     timer_update 299 [] T = Some (T1, [], []) \<and> timer_update 300 [] T = Some (T2, [5], [])"
proof -
  obtain T where T: "timer_add True (timer_init 0 0) (5 :: nat) 300 = Some T" "timer_wf T"
    "same_clock (timer_init 0 0 :: nat timer) T"
    "agenda_of T = ag_add (5, 300) (agenda_of (timer_init 0 0))"
    using timer_add_refines [of "timer_init 0 0" 300 "5 :: nat"] timer_init_free
    by (auto simp: timer_free_def)
  have free: "timer_free T" "tm_current_point T = 0" "tm_time T = 0"
    "ag_due (agenda_of T) = (\<lambda>e. if e = 300 then [5] else [])"
    using T(2-) by (auto simp: timer_free_def same_clock_def ag_add_def agenda_of_init fun_eq_iff
        simp del: agenda_of_sel(2) dest!: arg_cong [where f = ag_now])
  let ?f = "\<lambda>k. if (of_nat k :: u32) = 300 then [5 :: nat] else []"
  have none: "concat (map ?f [0..<300]) = []"
  proof -
    have "of_nat k \<noteq> (300 :: u32)" if "k < 300" for k
      using that by (simp add: word_unat_eq_iff unat_of_nat take_bit_nat_eq_self)
    then show ?thesis by auto
  qed
  have "[0..<Suc 300] = [0..<300] @ [300]" by (simp only: upt_Suc) simp
  then have w: "concat (map ?f [0..<Suc 300]) = [5]" "concat (map ?f [0..<Suc 299]) = []"
    using none by simp_all
  have u: "\<exists>T'. timer_update cp [] T = Some (T', concat (map ?f [0..<Suc (unat cp)]), [])"
    if "0 < cp" "unat cp < 2 ^ 31" for cp
    using events_fire_on_time [OF free(1), of cp] that unfolding free(2,3,4) diff_zero add_0 by blast
  have "unat (299 :: u64) = 299" "unat (300 :: u64) = 300" by simp_all
  then have "\<exists>T'. timer_update 299 [] T = Some (T', [], [])"
    "\<exists>T'. timer_update 300 [] T = Some (T', [5], [])"
    using u [of 299] u [of 300] unfolding w(1,2) \<open>unat (299 :: u64) = 299\<close> \<open>unat (300 :: u64) = 300\<close>
    by simp_all
  then show ?thesis using T(1) by simp
qed

section \<open>Every event once\<close>

text \<open>The data of all events in the wheel.\<close>

definition args_of :: "'a timer \<Rightarrow> 'a multiset" where
  "args_of T = (\<Sum>i<256. mset (map tn_arg (tm_n T i))) +
     (\<Sum>i<4. \<Sum>j<64. mset (map tn_arg (tm_t T i j)))"

primrec slot_in_range :: "slot \<Rightarrow> bool" where
  "slot_in_range (Near i) \<longleftrightarrow> i < 256"
| "slot_in_range (Level i j) \<longleftrightarrow> i < 4 \<and> j < 64"

lemma slot_of_in_range [simp]: "slot_in_range (slot_of now e)"
  by (simp add: slot_of_def Let_def)

lemma moved_in_range: "moved ct = Some s \<Longrightarrow> slot_in_range s"
  by (auto simp: moved_def Let_def split: if_splits)

lemma sum_upd:
  fixes F :: "'b \<Rightarrow> 'c :: comm_monoid_add"
  assumes "finite A" "i \<in> A"
  shows "(\<Sum>k\<in>A. F ((g(i := x)) k)) + F (g i) = (\<Sum>k\<in>A. F (g k)) + F x"
proof -
  have "(\<Sum>k\<in>A - {i}. F ((g(i := x)) k)) = (\<Sum>k\<in>A - {i}. F (g k))"
    by (rule sum.cong) auto
  then show ?thesis
    using assms by (simp add: sum.remove [OF assms] add_ac)
qed

lemma mset_exchange:
  assumes "S' + X = S + Y" "Y + a = X + (b :: 'a multiset)"
  shows "S' + a = S + b"
proof (rule multiset_eqI)
  fix x
  show "count (S' + a) x = count (S + b) x"
    using arg_cong [OF assms(1), of "\<lambda>m. count m x"] arg_cong [OF assms(2), of "\<lambda>m. count m x"]
    by simp
qed

lemma args_put:
  assumes "slot_in_range s"
  shows "args_of (put_slot s l T) + mset (map tn_arg (slot_list T s)) =
     args_of T + mset (map tn_arg l)"
proof (cases s)
  case (Near i)
  then show ?thesis
    using sum_upd [of "{..<256}" i "\<lambda>l. mset (map tn_arg l)" "tm_n T" l] assms
    by (simp add: args_of_def put_slot_def add_ac)
next
  case (Level i j)
  have "(\<Sum>k<4. \<Sum>m<64. mset (map tn_arg (((tm_t T)(i := (tm_t T i)(j := l))) k m))) +
      mset (map tn_arg (tm_t T i j)) =
      (\<Sum>k<4. \<Sum>j<64. mset (map tn_arg (tm_t T k j))) + mset (map tn_arg l)"
  proof (rule mset_exchange)
    show "(\<Sum>k<4. \<Sum>m<64. mset (map tn_arg (((tm_t T)(i := (tm_t T i)(j := l))) k m))) +
        (\<Sum>j<64. mset (map tn_arg (tm_t T i j))) =
        (\<Sum>k<4. \<Sum>j<64. mset (map tn_arg (tm_t T k j))) +
        (\<Sum>k<64. mset (map tn_arg (((tm_t T i)(j := l)) k)))"
      using sum_upd [of "{..<4}" i "\<lambda>g. \<Sum>j<64. mset (map tn_arg (g (j :: nat)))" "tm_t T"
          "(tm_t T i)(j := l)"] Level assms
      by simp
    show "(\<Sum>k<64. mset (map tn_arg (((tm_t T i)(j := l)) k))) + mset (map tn_arg (tm_t T i j)) =
        (\<Sum>j<64. mset (map tn_arg (tm_t T i j))) + mset (map tn_arg l)"
      by (rule sum_upd) (use Level assms in simp_all)
  qed
  moreover have "tm_n (T\<lparr>tm_t := f\<rparr>) = tm_n T" "tm_t (T\<lparr>tm_t := f\<rparr>) = f" for f by simp_all
  ultimately show ?thesis
    using Level by (simp only: args_of_def put_slot_def slot.case slot_list.simps add.assoc)
qed

lemma args_lock [simp]: "args_of (T\<lparr>tm_lock := b\<rparr>) = args_of T" "args_of (T\<lparr>tm_time := t\<rparr>) = args_of T"
  "args_of (set_clock cp T) = args_of T" "args_of (T\<lparr>tm_current_point := cp\<rparr>) = args_of T"
  by (simp_all add: args_of_def set_clock_def)

definition add_args :: "'a adds list \<Rightarrow> 'a multiset" where
  "add_args script = mset (map fst (concat script))"

lemma add_args_hd_tl: "add_args script = mset (map fst (script_hd script)) + add_args (tl script)"
  by (cases script) (simp_all add: add_args_def script_hd_def)

lemma add_node_args: "add_node T x = Some T' \<Longrightarrow> args_of T' = add_mset (tn_arg x) (args_of T)"
  using args_put [of "slot_of (tm_time T) (tn_expire x)"
      "slot_list T (slot_of (tm_time T) (tn_expire x)) @ [x]" T]
  by (auto simp: add_node_put Let_def)

lemma timer_add_args:
  "timer_add True T arg d = Some T' \<Longrightarrow> args_of T' = add_mset arg (args_of T)"
  by (auto simp: timer_add_def spinlock_acquire_def spinlock_release_def bind_eq_Some_conv
      dest!: add_node_args split: if_splits)

lemma timer_adds_args:
  "timer_adds as T = Some T' \<Longrightarrow> args_of T' = args_of T + mset (map fst as)"
  by (induction as arbitrary: T) (auto simp: bind_eq_Some_conv dest: timer_add_args)

lemma contended_acquire_args:
  "contended_acquire script T = Some T' \<Longrightarrow>
   args_of T' + add_args (tl script) = args_of T + add_args script"
  by (auto simp: contended_acquire_def spinlock_acquire_def bind_eq_Some_conv add_args_hd_tl [of script]
      dest!: timer_adds_args split: if_splits)

lemma move_nodes_args:
  "move_nodes xs T = Some T' \<Longrightarrow> args_of T' = args_of T + mset (map tn_arg xs)"
  by (induction xs arbitrary: T) (auto simp: bind_eq_Some_conv dest: add_node_args)

lemma timer_shift_args: "timer_shift T = Some T' \<Longrightarrow> args_of T' = args_of T"
  using args_put [OF moved_in_range, of _ _ "[]" "T\<lparr>tm_time := tm_time T + 1\<rparr>"]
  by (auto simp: timer_shift_moved dest: move_nodes_args split: option.splits)

lemma timer_execute_Some:
  assumes "timer_execute script T = Some (T', fs, rest)"
    and "tm_n T (unat (tm_time T AND TIME_NEAR_MASK)) \<noteq> []" (is "tm_n T ?idx \<noteq> []")
  shows "\<exists>T1 T2 gs. spinlock_release (T\<lparr>tm_n := (tm_n T)(?idx := [])\<rparr>) = Some T1 \<and>
     contended_acquire script T1 = Some T2 \<and> timer_execute (tl script) T2 = Some (T', gs, rest) \<and>
     fs = map tn_arg (tm_n T ?idx) @ gs"
  using assms
  by (subst (asm) timer_execute.simps)
    (auto simp: Let_def link_clear_def dispatch_list_args split: option.splits prod.splits)

lemma timer_execute_args:
  "timer_execute script T = Some (T', fs, rest) \<Longrightarrow>
   args_of T' + mset fs + add_args rest = args_of T + add_args script"
proof (induction script T arbitrary: T' fs rest rule: timer_execute.induct)
  case (1 script T)
  let ?idx = "unat (tm_time T AND TIME_NEAR_MASK)"
  show ?case
  proof (cases "tm_n T ?idx = []")
    case True
    then show ?thesis using "1.prems" by (subst (asm) timer_execute.simps) auto
  next
    case False
    define T0 where "T0 = T\<lparr>tm_n := (tm_n T)(?idx := [])\<rparr>"
    have lc: "link_clear (tm_n T ?idx) = (tm_n T ?idx, [])" by (simp add: link_clear_def)
    obtain T1 T2 gs where rec: "spinlock_release T0 = Some T1"
      "contended_acquire script T1 = Some T2" "timer_execute (tl script) T2 = Some (T', gs, rest)"
      "fs = map tn_arg (tm_n T ?idx) @ gs"
      using timer_execute_Some [OF "1.prems" False] unfolding T0_def by blast
    have IH: "args_of T' + mset gs + add_args rest = args_of T2 + add_args (tl script)"
      by (rule "1.IH" [OF refl False refl lc [symmetric] rec(1) [unfolded T0_def]
            dispatch_list_args [OF False] rec(2,3)])
    have "slot_in_range (Near ?idx)" by (simp add: low_bits)
    from args_put [OF this, of "[]" T] have args: "args_of T = args_of T0 + mset (map tn_arg (tm_n T ?idx))"
      by (simp add: T0_def put_slot_def)
    have "args_of T1 = args_of T0"
      using rec(1) by (auto simp: spinlock_release_def split: if_splits)
    then show ?thesis
      using IH contended_acquire_args [OF rec(2)] by (simp add: rec(4) args add_ac)
  qed
qed

lemma timer_update_tick_args:
  assumes "timer_update_tick script T = Some (T', fs, rest)"
  shows "args_of T' + mset fs + add_args rest = args_of T + add_args script"
proof -
  obtain T1 T2 T3 T4 f g s2 where s: "contended_acquire script T = Some T1"
    "timer_execute (tl script) T1 = Some (T2, f, s2)" "timer_shift T2 = Some T3"
    "timer_execute s2 T3 = Some (T4, g, rest)" "spinlock_release T4 = Some T'" "fs = f @ g"
    using assms by (auto simp: timer_update_tick_def bind_eq_Some_conv)
  have "args_of T' = args_of T4"
    using s(5) by (auto simp: spinlock_release_def split: if_splits)
  then show ?thesis
    using contended_acquire_args [OF s(1)] timer_execute_args [OF s(2)] timer_shift_args [OF s(3)]
      timer_execute_args [OF s(4)]
    by (simp add: s(6) add_ac)
qed

lemma update_loop_args:
  "update_loop d script T = Some (T', fs, rest) \<Longrightarrow>
   args_of T' + mset fs + add_args rest = args_of T + add_args script"
proof (induction d arbitrary: T T' fs rest script)
  case (Suc d)
  then obtain T1 f g s1 where s: "timer_update_tick script T = Some (T1, f, s1)"
    "update_loop d s1 T1 = Some (T', g, rest)" "fs = f @ g"
    by (auto simp: bind_eq_Some_conv)
  show ?case
    using timer_update_tick_args [OF s(1)] Suc.IH [OF s(2)] by (simp add: s(3) add_ac)
qed simp

subsection \<open>Whole lives of a timer\<close>

datatype 'a timer_call = TAdd 'a int | TUpdate u64 "'a adds list"

text \<open>
  A sequence of calls; the results are the timer, what was fired, and what the scripts had left
  when an update ended.
\<close>

fun timer_calls ::
  "'a timer_call list \<Rightarrow> 'a timer \<Rightarrow> ('a timer \<times> 'a list \<times> 'a adds list) option" where
  "timer_calls [] T = Some (T, [], [])"
| "timer_calls (TAdd arg time # cs) T = do { T \<leftarrow> timer_add True T arg time; timer_calls cs T }"
| "timer_calls (TUpdate cp script # cs) T = do {
     (T, fs, rest) \<leftarrow> timer_update cp script T;
     (T, gs, rest') \<leftarrow> timer_calls cs T;
     Some (T, fs @ gs, rest @ rest') }"

fun call_args :: "'a timer_call \<Rightarrow> 'a multiset" where
  "call_args (TAdd arg time) = {#arg#}"
| "call_args (TUpdate cp script) = add_args script"

text \<open>
  Times are not negative and clock readings less than \<open>2 ^ 31\<close> ticks apart; a clock may go back.
\<close>

primrec calls_ok :: "u64 \<Rightarrow> 'a timer_call list \<Rightarrow> bool" where
  "calls_ok point [] \<longleftrightarrow> True"
| "calls_ok point (c # cs) \<longleftrightarrow> (case c of
       TAdd arg time \<Rightarrow> 0 \<le> time \<and> time < 2 ^ 31 \<and> calls_ok point cs
     | TUpdate cp script \<Rightarrow> well_timed script \<and> (cp < point \<or> unat (cp - point) < 2 ^ 31) \<and>
         calls_ok cp cs)"

lemma timer_update_ok:
  assumes "timer_free T" "well_timed script"
    and "cp < tm_current_point T \<or> unat (cp - tm_current_point T) < 2 ^ 31"
  shows "\<exists>T' fs rest. timer_update cp script T = Some (T', fs, rest) \<and> timer_free T' \<and>
     tm_current_point T' = cp \<and> args_of T' + mset fs + add_args rest = args_of T + add_args script"
proof (cases "cp < tm_current_point T")
  case True
  have "slot_list (T\<lparr>tm_current_point := cp\<rparr>) s = slot_list T s" for s by (cases s) simp_all
  then have "timer_free (T\<lparr>tm_current_point := cp\<rparr>)"
    using assms(1) by (simp add: timer_free_def timer_wf_def)
  then show ?thesis using True by (simp add: timer_update_def)
next
  case False
  then have le: "tm_current_point T \<le> cp" and d: "unat (cp - tm_current_point T) < 2 ^ 31"
    using assms(3) by auto
  obtain T' fs rest where
    "update_loop (unat (cp - tm_current_point T)) script (set_clock cp T) = Some (T', fs, rest)"
    "timer_free T'" "same_clock (set_clock cp T) T'"
    using update_loop_refines [OF set_clock_free(1) [OF assms(1)] assms(2)] by metis
  moreover have "tm_current_point (set_clock cp T) = cp" by (simp add: set_clock_def)
  ultimately show ?thesis
    using update_loop_args [of _ script "set_clock cp T"]
    by (auto simp: timer_update_loop [OF le d] same_clock_def)
qed

lemma timer_calls_ok:
  assumes "timer_free T" "calls_ok (tm_current_point T) cs"
  shows "\<exists>T' fs rest. timer_calls cs T = Some (T', fs, rest) \<and> timer_free T' \<and>
     args_of T' + mset fs + add_args rest = args_of T + (\<Sum>c\<leftarrow>cs. call_args c)"
  using assms
proof (induction cs arbitrary: T)
  case Nil
  then show ?case by (simp add: add_args_def)
next
  case (Cons c cs)
  show ?case
  proof (cases c)
    case (TAdd arg time)
    then obtain T1 where T1: "timer_add True T arg time = Some T1" "timer_wf T1" "same_clock T T1"
      using timer_add_refines [of T time arg] Cons.prems by (auto simp: timer_free_def)
    then have "timer_free T1" "calls_ok (tm_current_point T1) cs"
      using Cons.prems TAdd by (auto simp: timer_free_def same_clock_def)
    then show ?thesis using Cons.IH [of T1] T1(1) timer_add_args [OF T1(1)] TAdd by auto
  next
    case (TUpdate cp script)
    then obtain T1 fs rest where T1: "timer_update cp script T = Some (T1, fs, rest)" "timer_free T1"
      "tm_current_point T1 = cp" "args_of T1 + mset fs + add_args rest = args_of T + add_args script"
      using timer_update_ok [of T script cp] Cons.prems by auto
    then obtain T2 gs rest' where T2: "timer_calls cs T1 = Some (T2, gs, rest')" "timer_free T2"
      "args_of T2 + mset gs + add_args rest' = args_of T1 + (\<Sum>c\<leftarrow>cs. call_args c)"
      using Cons.IH [of T1] Cons.prems TUpdate by auto
    have "args_of T2 + mset (fs @ gs) + add_args (rest @ rest') =
        args_of T + (\<Sum>c\<leftarrow>c # cs. call_args c)"
    proof (rule multiset_eqI)
      fix x
      show "count (args_of T2 + mset (fs @ gs) + add_args (rest @ rest')) x =
          count (args_of T + (\<Sum>c\<leftarrow>c # cs. call_args c)) x"
        using arg_cong [OF T1(4), of "\<lambda>m. count m x"] arg_cong [OF T2(3), of "\<lambda>m. count m x"] TUpdate
        by (simp add: add_args_def)
    qed
    then show ?thesis using T1(1) T2(1,2) TUpdate by simp
  qed
qed

text \<open>The nodes \<open>timer_destroy\<close> releases.\<close>

lemma release_lists_args: "release_lists ls = Some (map tn_arg (concat ls))"
  by (induction ls) (auto simp: release_list_def link_clear_def dispatch_list_args)

lemma concat_concat_map: "concat (concat xss) = concat (map concat xss)"
  by (induction xss) simp_all

lemma mset_concat_upt: "mset (concat (map f [0..<n])) = (\<Sum>i<n. mset (f i))"
  by (induction n) (simp_all add: add.commute)

lemma timer_destroy_args:
  assumes "\<not> tm_lock T"
  shows "\<exists>freed. timer_destroy (Some T) = Some freed \<and> mset freed = args_of T"
proof -
  have n: "mset (map tn_arg (concat (map (tm_n T) [0..<256]))) =
      (\<Sum>i<256. mset (map tn_arg (tm_n T i)))"
    by (simp only: map_concat map_map mset_concat_upt comp_def)
  have t: "mset (map tn_arg (concat (concat (map (\<lambda>i. map (tm_t T i) [0..<64]) [0..<4])))) =
      (\<Sum>i<4. \<Sum>j<64. mset (map tn_arg (tm_t T i j)))"
    by (simp only: concat_concat_map map_concat map_map mset_concat_upt comp_def)
  show ?thesis
    using assms n t
    by (simp add: timer_destroy_def spinlock_acquire_def spinlock_release_def release_lists_args
        args_of_def del: map_concat)
qed

text \<open>
  C14: Every event once. From \<open>timer_init\<close> over any sequence of \<open>timer_add\<close> and \<open>timer_update\<close>
  (with other threads adding during the updates, and a clock that may go back) to
  \<open>timer_destroy\<close>, every call returns, and the data of the events added is exactly what the
  callbacks got and what \<open>timer_destroy\<close> released: no event is lost, fired twice, fired and
  released, or leaked.
\<close>

theorem timer_events_exactly_once:
  assumes "calls_ok mono_now cs"
  shows "\<exists>T fired unused freed.
     timer_calls cs (timer_init walltime mono_now) = Some (T, fired, unused) \<and>
     timer_destroy (Some T) = Some freed \<and>
     mset fired + mset freed + add_args unused = (\<Sum>c\<leftarrow>cs. call_args c)"
proof -
  have "args_of (timer_init walltime mono_now) = {#}"
    by (simp add: args_of_def timer_init_def timer_new_def)
  then obtain T fired unused where T:
    "timer_calls cs (timer_init walltime mono_now) = Some (T, fired, unused)" "timer_free T"
    "args_of T + mset fired + add_args unused = (\<Sum>c\<leftarrow>cs. call_args c)"
    using timer_calls_ok [OF timer_init_free [of walltime mono_now], of cs] assms by auto
  moreover obtain freed where "timer_destroy (Some T) = Some freed" "mset freed = args_of T"
    using timer_destroy_args [of T] T(2) by (auto simp: timer_free_def)
  ultimately show ?thesis by (auto simp: ac_simps)
qed

theorem timer_events_exactly_once_witness:
  "\<exists>T fired unused freed.
     timer_calls [TAdd (1 :: nat) 2, TAdd 2 70000, TUpdate 5 [[(3, 1)], []], TUpdate 4 []]
       (timer_init 0 1) = Some (T, fired, unused) \<and>
     timer_destroy (Some T) = Some freed \<and>
     mset fired + mset freed + add_args unused = {#1, 2, 3#}"
  using timer_events_exactly_once [of 1 "[TAdd (1 :: nat) 2, TAdd 2 70000, TUpdate 5 [[(3, 1)], []],
      TUpdate 4 []]" 0]
  by (simp add: well_timed_def in_time_def add_args_def add_mset_commute)

end
