(* ===== verification/Seri.thy ===== *)
theory Seri
  imports Bytes
begin

text \<open>
  The serialiser of \<open>lua-seri.c\<close>, writing side: a chain of blocks of 128 bytes, the tags and
  numbers, the table of objects already written, and \<open>pack_one\<close>.

  Lua is a parameter: a value is a \<open>lua_value\<close>, and \<open>lua_heap\<close> answers what the calls of the
  Lua library say about a table: the elements \<open>lua_rawgeti\<close> finds up to \<open>lua_rawlen\<close>, the pairs
  in the order of \<open>lua_next\<close>, and, when the metatable has \<open>__pairs\<close>, the pairs its iterator
  gives. A table is identified by the number \<open>lua_topointer\<close> answers. Integers are 64 bits wide
  and stored in little-endian order; \<open>malloc\<close> is taken to succeed, which the code does not check.
\<close>

section \<open>Outcomes\<close>

text \<open>Lua errors. A block of the writer that is not freed before the error is leaked.\<close>

datatype seri_error =
    UnsupportedType string
  | NotLightCFunction nat \<comment> \<open>number of blocks leaked\<close>
  | InvalidStream int
  | InvalidRefId int
  | InvalidRef int nat
  | InvalidBoolean int
  | InvalidUserdata
  | StringTooLong
  | IndexIsNaN

text \<open>\<open>Throw\<close> is \<open>luaL_error\<close>, \<open>Abort\<close> a failed assertion or undefined behaviour, \<open>Timeout\<close>
  that the bound on the recursion of the model was too small.\<close>

datatype 'a outcome = Ok 'a | Throw seri_error | Abort | Timeout

definition obind :: "'a outcome \<Rightarrow> ('a \<Rightarrow> 'b outcome) \<Rightarrow> 'b outcome" where
  "obind m f = (case m of Ok x \<Rightarrow> f x | Throw e \<Rightarrow> Throw e | Abort \<Rightarrow> Abort | Timeout \<Rightarrow> Timeout)"

lemma obind_cong [fundef_cong]:
  "m = m' \<Longrightarrow> (\<And>x. m' = Ok x \<Longrightarrow> f x = f' x) \<Longrightarrow> obind m f = obind m' f'"
  by (cases m') (simp_all add: obind_def)

lemma obind_simps [simp]:
  "obind (Ok x) f = f x" "obind (Throw e) f = Throw e" "obind Abort f = Abort"
  "obind Timeout f = Timeout"
  by (simp_all add: obind_def)

lemma obind_eq_Ok [simp]: "obind m f = Ok y \<longleftrightarrow> (\<exists>x. m = Ok x \<and> f x = Ok y)"
  by (cases m) simp_all

lemma obind_eq_Abort [simp]: "obind m f = Abort \<longleftrightarrow> m = Abort \<or> (\<exists>x. m = Ok x \<and> f x = Abort)"
  by (cases m) simp_all

lemma obind_eq_Timeout [simp]:
  "obind m f = Timeout \<longleftrightarrow> m = Timeout \<or> (\<exists>x. m = Ok x \<and> f x = Timeout)"
  by (cases m) simp_all

section \<open>Lua values\<close>

datatype lua_value =
    LNil
  | LBool bool
  | LInt "64 word"
  | LReal "64 word"
  | LStr "byte list"
  | LPtr ptr
  | LCFun ptr
  | LClosure
  | LTable nat
  | LOther string

record lua_table =
  lt_array :: "lua_value list"
  lt_pairs :: "(lua_value \<times> lua_value) list"
  lt_metapairs :: "(lua_value \<times> lua_value) list option"

type_synonym lua_heap = "nat \<Rightarrow> lua_table"

text \<open>\<open>(int) n\<close> of a \<open>size_t\<close>.\<close>

definition size_to_int :: "nat \<Rightarrow> int" where
  "size_to_int n = sint (word_of_nat n :: 32 word)"

section \<open>Constants\<close>

definition TYPE_BOOLEAN :: int where "TYPE_BOOLEAN = 0"
definition TYPE_BOOLEAN_NIL :: int where "TYPE_BOOLEAN_NIL = 0"
definition TYPE_BOOLEAN_FALSE :: int where "TYPE_BOOLEAN_FALSE = 1"
definition TYPE_BOOLEAN_TRUE :: int where "TYPE_BOOLEAN_TRUE = 2"
definition TYPE_NUMBER :: int where "TYPE_NUMBER = 1"
definition TYPE_NUMBER_ZERO :: int where "TYPE_NUMBER_ZERO = 0"
definition TYPE_NUMBER_BYTE :: int where "TYPE_NUMBER_BYTE = 1"
definition TYPE_NUMBER_WORD :: int where "TYPE_NUMBER_WORD = 2"
definition TYPE_NUMBER_DWORD :: int where "TYPE_NUMBER_DWORD = 4"
definition TYPE_NUMBER_QWORD :: int where "TYPE_NUMBER_QWORD = 6"
definition TYPE_NUMBER_REAL :: int where "TYPE_NUMBER_REAL = 8"
definition TYPE_USERDATA :: int where "TYPE_USERDATA = 2"
definition TYPE_USERDATA_POINTER :: int where "TYPE_USERDATA_POINTER = 0"
definition TYPE_USERDATA_CFUNCTION :: int where "TYPE_USERDATA_CFUNCTION = 1"
definition TYPE_SHORT_STRING :: int where "TYPE_SHORT_STRING = 3"
definition TYPE_LONG_STRING :: int where "TYPE_LONG_STRING = 4"
definition TYPE_TABLE :: int where "TYPE_TABLE = 5"
definition TYPE_TABLE_MARK :: int where "TYPE_TABLE_MARK = 6"
definition TYPE_REF :: int where "TYPE_REF = 7"
definition MAX_COOKIE :: int where "MAX_COOKIE = 32"
definition EXTEND_NUMBER :: int where "EXTEND_NUMBER = MAX_COOKIE - 1"
definition BLOCK_SIZE :: nat where "BLOCK_SIZE = 128"
definition MAX_DEPTH :: nat where "MAX_DEPTH = 31"
definition MAX_REFERENCE :: nat where "MAX_REFERENCE = 32"

lemmas seri_consts [simp] =
  TYPE_BOOLEAN_def TYPE_BOOLEAN_NIL_def TYPE_BOOLEAN_FALSE_def TYPE_BOOLEAN_TRUE_def
  TYPE_NUMBER_def TYPE_NUMBER_ZERO_def TYPE_NUMBER_BYTE_def TYPE_NUMBER_WORD_def
  TYPE_NUMBER_DWORD_def TYPE_NUMBER_QWORD_def TYPE_NUMBER_REAL_def TYPE_USERDATA_def
  TYPE_USERDATA_POINTER_def TYPE_USERDATA_CFUNCTION_def TYPE_SHORT_STRING_def
  TYPE_LONG_STRING_def TYPE_TABLE_def TYPE_TABLE_MARK_def TYPE_REF_def MAX_COOKIE_def
  EXTEND_NUMBER_def BLOCK_SIZE_def MAX_DEPTH_def MAX_REFERENCE_def

definition COMBINE_TYPE :: "int \<Rightarrow> int \<Rightarrow> byte" where
  "COMBINE_TYPE t v = word_of_int (t OR push_bit 3 v)"

section \<open>Blocks\<close>

text \<open>
  A cell of a fresh block is \<^term>\<open>None\<close>; an address is a block and an offset. \<open>len\<close> is an \<open>int\<close> that
  only grows and that nothing reads while packing, so \<open>wb_len\<close> keeps the number of bytes written and
  its overflow, which is undefined, is looked at where packing ends: \<open>len_fits\<close> says that \<open>len\<close> has not
  overflowed, and in \<open>seri_pack\<close> that the 4 bytes of the size can be added to it. \<open>objectid\<close> and
  \<open>depth\<close> are smaller than \<open>len\<close>.
\<close>

type_synonym address = "nat \<times> nat"

record write_block =
  wb_blocks :: "byte option list list" \<comment> \<open>from \<open>head\<close>; \<open>current\<close> is the last\<close>
  wb_ptr :: nat
  wb_len :: int
  wb_depth :: nat
  wb_objectid :: nat
  wb_ancestor :: "nat \<Rightarrow> nat" \<comment> \<open>the table at the stack index kept there\<close>
  wb_r :: "nat \<Rightarrow> nat \<times> address option"
  wb_ref_ids :: "nat \<Rightarrow> nat option" \<comment> \<open>the Lua table at \<open>ref_index\<close>\<close>
  wb_ref_addrs :: "nat \<Rightarrow> address option" \<comment> \<open>the Lua table at \<open>ref_index + 1\<close>\<close>

definition len_fits :: "int \<Rightarrow> write_block \<Rightarrow> bool" where
  "len_fits n b \<longleftrightarrow> wb_len b + n < 2 ^ 31"

text \<open>An error raised after the overflow is not reached.\<close>

definition wb_error :: "seri_error \<Rightarrow> write_block \<Rightarrow> write_block outcome" where
  "wb_error e b = (if len_fits 0 b then Throw e else Abort)"

definition blk_alloc :: "byte option list" where
  "blk_alloc = replicate BLOCK_SIZE None"

definition new_block :: "write_block \<Rightarrow> write_block" where
  "new_block b = b\<lparr>wb_blocks := wb_blocks b @ [blk_alloc], wb_ptr := 0\<rparr>"

definition store_bytes :: "byte option list \<Rightarrow> nat \<Rightarrow> byte list \<Rightarrow> byte option list" where
  "store_bytes blk p bs = take p blk @ map Some bs @ drop (p + length bs) blk"

text \<open>\<open>memcpy(b->current->buffer + b->ptr, ...)\<close>\<close>

definition copy_in :: "byte list \<Rightarrow> write_block \<Rightarrow> write_block" where
  "copy_in bs b = b\<lparr>wb_blocks := butlast (wb_blocks b) @ [store_bytes (last (wb_blocks b)) (wb_ptr b) bs]\<rparr>"

function push_rest :: "byte list \<Rightarrow> write_block \<Rightarrow> write_block" where
  "push_rest buf b =
     (if int (wb_ptr b) \<le> int BLOCK_SIZE - int (length buf)
      then (copy_in buf b)\<lparr>wb_ptr := wb_ptr b + length buf, wb_len := wb_len b + int (length buf)\<rparr>
      else (let copy = BLOCK_SIZE - wb_ptr b
            in push_rest (drop copy buf)
                 (new_block ((copy_in (take copy buf) b)\<lparr>wb_len := wb_len b + int copy\<rparr>))))"
  by pat_completeness auto
termination
  by (relation "measures [\<lambda>(buf, b). length buf, \<lambda>(buf, b). wb_ptr b]")
    (auto simp: new_block_def)

declare push_rest.simps [simp del]

definition wb_push :: "byte list \<Rightarrow> write_block \<Rightarrow> write_block" where
  "wb_push buf b = push_rest buf (if wb_ptr b = BLOCK_SIZE then new_block b else b)"

definition wb_address :: "write_block \<Rightarrow> address \<times> write_block" where
  "wb_address b =
     (let b = (if wb_ptr b = BLOCK_SIZE then new_block b else b)
      in ((length (wb_blocks b) - 1, wb_ptr b), b))"

definition wb_init :: write_block where
  "wb_init = \<lparr>wb_blocks = [blk_alloc], wb_ptr = 0, wb_len = 0, wb_depth = 0, wb_objectid = 0,
     wb_ancestor = (\<lambda>i. 0), wb_r = (\<lambda>i. (0, None)), wb_ref_ids = (\<lambda>o'. None),
     wb_ref_addrs = (\<lambda>i. None)\<rparr>"

text \<open>How many heap blocks there are to free; the first block is on the stack.\<close>

definition heap_blocks :: "write_block \<Rightarrow> nat" where
  "heap_blocks b = length (wb_blocks b) - 1"

section \<open>Scalars\<close>

definition wb_nil :: "write_block \<Rightarrow> write_block" where
  "wb_nil wb = wb_push [COMBINE_TYPE TYPE_BOOLEAN TYPE_BOOLEAN_NIL] wb"

definition wb_boolean :: "bool \<Rightarrow> write_block \<Rightarrow> write_block" where
  "wb_boolean boolean wb =
     wb_push [COMBINE_TYPE TYPE_BOOLEAN (if boolean then TYPE_BOOLEAN_TRUE else TYPE_BOOLEAN_FALSE)] wb"

definition wb_integer :: "64 word \<Rightarrow> write_block \<Rightarrow> write_block" where
  "wb_integer v wb =
     (if v = 0 then wb_push [COMBINE_TYPE TYPE_NUMBER TYPE_NUMBER_ZERO] wb
      else if sint v \<noteq> sint (ucast v :: 32 word)
      then wb_push (le_bytes 8 v) (wb_push [COMBINE_TYPE TYPE_NUMBER TYPE_NUMBER_QWORD] wb)
      else if sint v < 0
      then wb_push (le_bytes 4 (ucast v :: 32 word))
             (wb_push [COMBINE_TYPE TYPE_NUMBER TYPE_NUMBER_DWORD] wb)
      else if sint v < 0x100
      then wb_push (le_bytes 1 (ucast v :: 8 word))
             (wb_push [COMBINE_TYPE TYPE_NUMBER TYPE_NUMBER_BYTE] wb)
      else if sint v < 0x10000
      then wb_push (le_bytes 2 (ucast v :: 16 word))
             (wb_push [COMBINE_TYPE TYPE_NUMBER TYPE_NUMBER_WORD] wb)
      else wb_push (le_bytes 4 (ucast v :: 32 word))
             (wb_push [COMBINE_TYPE TYPE_NUMBER TYPE_NUMBER_DWORD] wb))"

definition wb_real :: "64 word \<Rightarrow> write_block \<Rightarrow> write_block" where
  "wb_real v wb = wb_push (le_bytes 8 v) (wb_push [COMBINE_TYPE TYPE_NUMBER TYPE_NUMBER_REAL] wb)"

definition wb_pointer :: "ptr \<Rightarrow> int \<Rightarrow> write_block \<Rightarrow> write_block" where
  "wb_pointer v subtype wb = wb_push (le_bytes 8 v) (wb_push [COMBINE_TYPE TYPE_USERDATA subtype] wb)"

text \<open>\<open>wb_string\<close>; a negative \<open>len\<close> is shifted left, which is undefined.\<close>

definition wb_string :: "byte list \<Rightarrow> int \<Rightarrow> write_block \<Rightarrow> write_block outcome" where
  "wb_string str len wb =
     (if len < 0 then Abort
      else if len < MAX_COOKIE
      then (let wb = wb_push [COMBINE_TYPE TYPE_SHORT_STRING len] wb
            in Ok (if len > 0 then wb_push (take (nat len) str) wb else wb))
      else (let wb = (if len < 0x10000
              then wb_push (le_bytes 2 (word_of_int len :: 16 word))
                     (wb_push [COMBINE_TYPE TYPE_LONG_STRING 2] wb)
              else wb_push (le_bytes 4 (word_of_int len :: 32 word))
                     (wb_push [COMBINE_TYPE TYPE_LONG_STRING 4] wb))
            in Ok (wb_push (take (nat len) str) wb)))"

section \<open>Objects already written\<close>

primrec fill_refs :: "nat list \<Rightarrow> write_block \<Rightarrow> write_block" where
  "fill_refs [] b = b"
| "fill_refs (i # is) b =
     (let (obj, addr) = wb_r b i;
          b = b\<lparr>wb_ref_ids := (wb_ref_ids b)(obj := Some (i + 1))\<rparr>;
          b = (if addr \<noteq> None then b\<lparr>wb_ref_addrs := (wb_ref_addrs b)(i + 1 := addr)\<rparr> else b)
      in fill_refs is b)"

definition mark_table :: "nat \<Rightarrow> write_block \<Rightarrow> write_block" where
  "mark_table obj b =
     (let id0 = wb_objectid b;
          b = b\<lparr>wb_objectid := id0 + 1\<rparr>;
          (addr, b) = wb_address b;
          b = (if id0 = MAX_REFERENCE
               then fill_refs [0..<MAX_REFERENCE]
                      (b\<lparr>wb_ref_ids := (\<lambda>o'. None), wb_ref_addrs := (\<lambda>i. None)\<rparr>)
               else b)
      in if id0 < MAX_REFERENCE then b\<lparr>wb_r := (wb_r b)(id0 := (obj, Some addr))\<rparr>
         else b\<lparr>wb_ref_ids := (wb_ref_ids b)(obj := Some (id0 + 1)),
                wb_ref_addrs := (wb_ref_addrs b)(id0 + 1 := Some addr)\<rparr>)"

text \<open>\<open>change_mark\<close>: the tag at an address, which must have been written.\<close>

definition change_mark :: "address \<Rightarrow> write_block \<Rightarrow> write_block outcome" where
  "change_mark a b =
     (if fst a < length (wb_blocks b) \<and> snd a < length (wb_blocks b ! fst a)
      then (case wb_blocks b ! fst a ! snd a of
              None \<Rightarrow> Abort
            | Some tag \<Rightarrow>
                if tag AND 7 = word_of_int TYPE_TABLE
                then Ok (b\<lparr>wb_blocks := (wb_blocks b)[fst a := (wb_blocks b ! fst a)
                       [snd a := Some (COMBINE_TYPE TYPE_TABLE_MARK (uint (drop_bit 3 tag)))]]\<rparr>)
                else Abort)
      else Abort)"

text \<open>The search of \<open>lookup_ref\<close> in the array: the first index of the object.\<close>

primrec find_ref :: "nat list \<Rightarrow> nat \<Rightarrow> write_block \<Rightarrow> nat option" where
  "find_ref [] obj b = None"
| "find_ref (i # is) obj b = (if obj = fst (wb_r b i) then Some i else find_ref is obj b)"

text \<open>\<open>lookup_ref\<close>: the id of the object, 0 when it is new.\<close>

definition lookup_ref :: "nat \<Rightarrow> write_block \<Rightarrow> (nat \<times> write_block) outcome" where
  "lookup_ref obj b =
     (if wb_objectid b \<le> MAX_REFERENCE
      then (case find_ref [0..<wb_objectid b] obj b of
              None \<Rightarrow> Ok (0, b)
            | Some i \<Rightarrow>
               (case snd (wb_r b i) of
                  None \<Rightarrow> Ok (i + 1, b)
                | Some a \<Rightarrow> obind (change_mark a b)
                    (\<lambda>b. Ok (i + 1, b\<lparr>wb_r := (wb_r b)(i := (fst (wb_r b i), None))\<rparr>))))
      else (case wb_ref_ids b obj of
              None \<Rightarrow> Ok (0, b)
            | Some i \<Rightarrow>
               (case wb_ref_addrs b i of
                  None \<Rightarrow> Ok (i, b)
                | Some a \<Rightarrow> obind (change_mark a b)
                    (\<lambda>b. Ok (i, b\<lparr>wb_ref_addrs := (wb_ref_addrs b)(i := None)\<rparr>)))))"

definition ref_object :: "nat \<Rightarrow> write_block \<Rightarrow> (bool \<times> write_block) outcome" where
  "ref_object obj b = obind (lookup_ref obj b) (\<lambda>(i, b).
     if i > 0
     then Ok (True, wb_integer (word_of_nat i) (wb_push [COMBINE_TYPE TYPE_REF EXTEND_NUMBER] b))
     else Ok (False, b))"

text \<open>The search of \<open>ref_ancestor\<close>, from the innermost table outwards.\<close>

primrec find_ancestor :: "nat \<Rightarrow> nat \<Rightarrow> write_block \<Rightarrow> nat option" where
  "find_ancestor 0 obj b = None"
| "find_ancestor (Suc i) obj b = (if wb_ancestor b i = obj then Some i else find_ancestor i obj b)"

definition ref_ancestor :: "nat \<Rightarrow> write_block \<Rightarrow> bool \<times> write_block" where
  "ref_ancestor obj b =
     (let n = wb_depth b
      in if n = 0 \<or> n \<ge> MAX_DEPTH then (False, b)
         else (case find_ancestor n obj b of
                 None \<Rightarrow> (False, b)
               | Some i \<Rightarrow> (True, wb_push [COMBINE_TYPE TYPE_REF (int i)] b)))"

section \<open>Packing\<close>

text \<open>The tag and size of the array part.\<close>

definition wb_array_size :: "int \<Rightarrow> write_block \<Rightarrow> write_block" where
  "wb_array_size array_size wb =
     (if array_size \<ge> EXTEND_NUMBER
      then wb_integer (word_of_int array_size) (wb_push [COMBINE_TYPE TYPE_TABLE EXTEND_NUMBER] wb)
      else wb_push [COMBINE_TYPE TYPE_TABLE array_size] wb)"

text \<open>The keys the hash part skips because the array part has them.\<close>

definition in_array_part :: "int \<Rightarrow> lua_value \<Rightarrow> bool" where
  "in_array_part array_size k =
     (case k of LInt x \<Rightarrow> 0 < sint x \<and> sint x \<le> array_size | _ \<Rightarrow> False)"

definition enter_table :: "nat \<Rightarrow> write_block \<Rightarrow> write_block" where
  "enter_table t b =
     (let b = (if wb_depth b < MAX_DEPTH
               then b\<lparr>wb_ancestor := (wb_ancestor b)(wb_depth b := t)\<rparr> else b)
      in b\<lparr>wb_depth := wb_depth b + 1\<rparr>)"

text \<open>
  \<open>pack_one\<close>, with the depth to which tables may nest as bound; \<open>array_loop\<close> and \<open>pairs_loop\<close>
  are the loops of \<open>wb_table_array\<close>, \<open>wb_table_hash\<close> and \<open>wb_table_metapairs\<close> (which skips no
  key: its array size is 0).
\<close>

function (sequential)
  pack_one :: "nat \<Rightarrow> lua_heap \<Rightarrow> lua_value \<Rightarrow> write_block \<Rightarrow> write_block outcome" and
  wb_table :: "nat \<Rightarrow> lua_heap \<Rightarrow> nat \<Rightarrow> write_block \<Rightarrow> write_block outcome" and
  array_loop :: "nat \<Rightarrow> lua_heap \<Rightarrow> lua_value list \<Rightarrow> write_block \<Rightarrow> write_block outcome" and
  pairs_loop :: "nat \<Rightarrow> lua_heap \<Rightarrow> int \<Rightarrow> (lua_value \<times> lua_value) list \<Rightarrow> write_block \<Rightarrow>
    write_block outcome"
where
  "pack_one fuel H LNil b = Ok (wb_nil b)"
| "pack_one fuel H (LInt x) b = Ok (wb_integer x b)"
| "pack_one fuel H (LReal n) b = Ok (wb_real n b)"
| "pack_one fuel H (LBool v) b = Ok (wb_boolean v b)"
| "pack_one fuel H (LStr str) b = wb_string str (size_to_int (length str)) b"
| "pack_one fuel H (LPtr p) b = Ok (wb_pointer p TYPE_USERDATA_POINTER b)"
| "pack_one fuel H (LCFun f) b = Ok (wb_pointer f TYPE_USERDATA_CFUNCTION b)"
| "pack_one fuel H LClosure b = wb_error (NotLightCFunction (heap_blocks b)) b"
| "pack_one fuel H (LOther name) b = wb_error (UnsupportedType name) b"
| "pack_one fuel H (LTable t) b =
     (case ref_ancestor t b of
        (True, b) \<Rightarrow> Ok b
      | (False, b) \<Rightarrow> obind (ref_object t b) (\<lambda>(found, b).
          if found then Ok b
          else obind (wb_table fuel H t (enter_table t b))
                 (\<lambda>b. Ok (b\<lparr>wb_depth := wb_depth b - 1\<rparr>))))"
| "wb_table 0 H t b = Timeout"
| "wb_table (Suc fuel) H t b =
     (let b = mark_table t b
      in case lt_metapairs (H t) of
           Some ps \<Rightarrow>
             obind (pairs_loop fuel H 0 ps (wb_push [COMBINE_TYPE TYPE_TABLE 0] b))
               (\<lambda>b. Ok (wb_nil b))
         | None \<Rightarrow>
             (let array_size = size_to_int (length (lt_array (H t)))
              in obind (array_loop fuel H (take (nat array_size) (lt_array (H t)))
                         (wb_array_size array_size b))
                   (\<lambda>b. obind (pairs_loop fuel H array_size (lt_pairs (H t)) b)
                     (\<lambda>b. Ok (wb_nil b)))))"
| "array_loop fuel H [] b = Ok b"
| "array_loop fuel H (v # vs) b =
     obind (pack_one fuel H v b) (\<lambda>b. array_loop fuel H vs b)"
| "pairs_loop fuel H n [] b = Ok b"
| "pairs_loop fuel H n ((k, v) # ps) b =
     (if in_array_part n k then pairs_loop fuel H n ps b
      else obind (pack_one fuel H k b)
             (\<lambda>b. obind (pack_one fuel H v b) (\<lambda>b. pairs_loop fuel H n ps b)))"
  by pat_completeness auto
termination
  by (relation "measures
    [\<lambda>x. (case x of
        Inl (Inl (fuel, H, v, b)) \<Rightarrow> fuel | Inl (Inr (fuel, H, t, b)) \<Rightarrow> fuel
      | Inr (Inl (fuel, H, vs, b)) \<Rightarrow> fuel | Inr (Inr (fuel, H, n, ps, b)) \<Rightarrow> fuel),
     \<lambda>x. (case x of
        Inl (Inl (fuel, H, v, b)) \<Rightarrow> 1 | Inl (Inr (fuel, H, t, b)) \<Rightarrow> 0
      | Inr (Inl (fuel, H, vs, b)) \<Rightarrow> 2 + length vs | Inr (Inr (fuel, H, n, ps, b)) \<Rightarrow> 2 + length ps)]")
    auto

text \<open>The functions \<open>wb_table\<close> calls: \<open>wb_table_array\<close> with the array size it answers,
  \<open>wb_table_hash\<close> and \<open>wb_table_metapairs\<close>.\<close>

definition wb_table_array ::
  "nat \<Rightarrow> lua_heap \<Rightarrow> lua_value list \<Rightarrow> write_block \<Rightarrow> (int \<times> write_block) outcome" where
  "wb_table_array fuel H vs wb =
     (let array_size = size_to_int (length vs)
      in obind (array_loop fuel H (take (nat array_size) vs) (wb_array_size array_size wb))
           (\<lambda>wb. Ok (array_size, wb)))"

definition wb_table_hash ::
  "nat \<Rightarrow> lua_heap \<Rightarrow> int \<Rightarrow> (lua_value \<times> lua_value) list \<Rightarrow> write_block \<Rightarrow> write_block outcome" where
  "wb_table_hash fuel H array_size ps wb =
     obind (pairs_loop fuel H array_size ps wb) (\<lambda>wb. Ok (wb_nil wb))"

definition wb_table_metapairs ::
  "nat \<Rightarrow> lua_heap \<Rightarrow> (lua_value \<times> lua_value) list \<Rightarrow> write_block \<Rightarrow> write_block outcome" where
  "wb_table_metapairs fuel H ps wb =
     obind (pairs_loop fuel H 0 ps (wb_push [COMBINE_TYPE TYPE_TABLE 0] wb)) (\<lambda>wb. Ok (wb_nil wb))"

lemma wb_table_calls:
  "wb_table (Suc fuel) H t b =
     (case lt_metapairs (H t) of
        Some ps \<Rightarrow> wb_table_metapairs fuel H ps (mark_table t b)
      | None \<Rightarrow> obind (wb_table_array fuel H (lt_array (H t)) (mark_table t b))
          (\<lambda>(array_size, b). wb_table_hash fuel H array_size (lt_pairs (H t)) b))"
proof (cases "lt_metapairs (H t)")
  case None
  define b0 where "b0 = wb_array_size (size_to_int (length (lt_array (H t)))) (mark_table t b)"
  show ?thesis
    by (cases "array_loop fuel H (take (nat (size_to_int (length (lt_array (H t))))) (lt_array (H t))) b0")
      (simp_all add: None b0_def Let_def wb_table_array_def wb_table_hash_def)
qed (simp add: wb_table_metapairs_def)

text \<open>\<open>pack_from\<close>: the values on the stack, one after the other.\<close>

definition pack_from :: "nat \<Rightarrow> lua_heap \<Rightarrow> lua_value list \<Rightarrow> write_block \<Rightarrow> write_block outcome" where
  "pack_from fuel H vs b = array_loop fuel H vs b"

text \<open>The loop of \<open>seri\<close> over the blocks; a cell read must have been written.\<close>

definition read_cells :: "byte option list \<Rightarrow> nat \<Rightarrow> byte list outcome" where
  "read_cells blk n =
     (if n \<le> length blk \<and> (\<forall>c \<in> set (take n blk). c \<noteq> None) then Ok (map the (take n blk)) else Abort)"

fun seri_loop :: "byte option list list \<Rightarrow> int \<Rightarrow> byte list outcome" where
  "seri_loop [] len = (if len > 0 then Abort else Ok [])"
| "seri_loop (b # bs) len =
     (if len > 0
      then (if len \<ge> int BLOCK_SIZE
            then obind (read_cells b BLOCK_SIZE)
                   (\<lambda>xs. obind (seri_loop bs (len - int BLOCK_SIZE)) (\<lambda>ys. Ok (xs @ ys)))
            else read_cells b (nat len))
      else Ok [])"

definition seri :: "byte option list list \<Rightarrow> int \<Rightarrow> byte list outcome" where
  "seri bs len =
     obind (seri_loop bs len) (\<lambda>xs. Ok (le_bytes 4 (word_of_int len :: 32 word) @ xs))"

text \<open>\<open>seri_pack\<close>: the buffer and its size.\<close>

definition seri_pack :: "nat \<Rightarrow> lua_heap \<Rightarrow> lua_value list \<Rightarrow> (byte list \<times> int) outcome" where
  "seri_pack fuel H vs =
     obind (pack_from fuel H vs wb_init)
       (\<lambda>wb. if len_fits 4 wb
              then obind (seri (wb_blocks wb) (wb_len wb)) (\<lambda>buffer. Ok (buffer, wb_len wb + 4))
              else Abort)"

text \<open>\<open>luaseri_pack\<close>: everything on the stack, to the buffer and its size.\<close>

definition luaseri_pack :: "nat \<Rightarrow> lua_heap \<Rightarrow> lua_value list \<Rightarrow> (byte list \<times> int) outcome" where
  "luaseri_pack fuel H vs = seri_pack fuel H vs"

text \<open>\<open>seri_packstring\<close>: \<open>sz\<close> 0 stands for \<open>strlen\<close>, the bytes before the first zero.\<close>

definition seri_packstring :: "byte list \<Rightarrow> int \<Rightarrow> ptr \<Rightarrow> (byte list \<times> int) outcome" where
  "seri_packstring str sz p =
     (let sz = (if sz = 0 then int (length (takeWhile (\<lambda>c. c \<noteq> 0) str)) else sz)
      in obind (wb_string str sz wb_init)
           (\<lambda>wb. let wb = (if p \<noteq> 0 then wb_pointer p TYPE_USERDATA_POINTER wb else wb)
                 in if len_fits 4 wb
                    then obind (seri (wb_blocks wb) (wb_len wb)) (\<lambda>buffer. Ok (buffer, wb_len wb + 4))
                    else Abort))"

end
