(* ===== verification/SeriRead.thy ===== *)
theory SeriRead
  imports Seri
begin

text \<open>
  The serialiser of \<open>lua-seri.c\<close>, reading side. The Lua stack is explicit, because
  \<open>ancestor\<close> holds stack indices: the top of the stack is the head of \<open>rb_stack\<close>, and the
  absolute index \<open>i\<close> is counted from the bottom. The tables made are the entries of
  \<open>rb_tables\<close>, each the list of the \<open>lua_rawseti\<close> and \<open>lua_rawset\<close> done to it, in order.
\<close>

type_synonym new_table = "(lua_value \<times> lua_value) list"

record read_block =
  rb_buffer :: "byte list"
  rb_len :: int
  rb_ptr :: int
  rb_depth :: nat
  rb_objectid :: nat
  rb_ancestor :: "nat \<Rightarrow> nat"
  rb_refs :: "(int \<Rightarrow> nat option) option" \<comment> \<open>the Lua table at \<open>ref_index\<close>, or nil\<close>
  rb_stack :: "lua_value list"
  rb_tables :: "new_table list"

definition rball_init :: "byte list \<Rightarrow> int \<Rightarrow> read_block" where
  "rball_init buffer sz = \<lparr>rb_buffer = buffer, rb_len = sz, rb_ptr = 0, rb_depth = 0,
     rb_objectid = 0, rb_ancestor = (\<lambda>i. 0), rb_refs = None, rb_stack = [], rb_tables = []\<rparr>"

text \<open>\<open>rb_read\<close> answers a position in the buffer, or NULL.\<close>

definition rb_read :: "int \<Rightarrow> read_block \<Rightarrow> int option \<times> read_block" where
  "rb_read sz rb =
     (if rb_len rb < sz then (None, rb)
      else (Some (rb_ptr rb), rb\<lparr>rb_ptr := rb_ptr rb + sz, rb_len := rb_len rb - sz\<rparr>))"

text \<open>Reading \<open>n\<close> bytes at a position; outside the buffer this is undefined.\<close>

definition fetch :: "byte list \<Rightarrow> int \<Rightarrow> int \<Rightarrow> byte list outcome" where
  "fetch buf p n =
     (if 0 \<le> p \<and> 0 \<le> n \<and> p + n \<le> int (length buf) then Ok (take (nat n) (drop (nat p) buf))
      else Abort)"

definition invalid_stream :: "read_block \<Rightarrow> 'a outcome" where
  "invalid_stream rb = Throw (InvalidStream (rb_len rb))"

text \<open>The pattern \<open>pn = rb_read(rb, n); if (pn == NULL) invalid_stream(L, rb); memcpy(...)\<close>.\<close>

definition rb_take :: "int \<Rightarrow> read_block \<Rightarrow> (byte list \<times> read_block) outcome" where
  "rb_take n rb =
     (case rb_read n rb of
        (None, rb) \<Rightarrow> invalid_stream rb
      | (Some p, rb) \<Rightarrow> obind (fetch (rb_buffer rb) p n) (\<lambda>bs. Ok (bs, rb)))"

section \<open>Scalars\<close>

definition get_integer :: "int \<Rightarrow> read_block \<Rightarrow> (64 word \<times> read_block) outcome" where
  "get_integer cookie rb =
     (if cookie = TYPE_NUMBER_ZERO then Ok (0, rb)
      else if cookie = TYPE_NUMBER_BYTE
      then obind (rb_take 1 rb) (\<lambda>(bs, rb). Ok (ucast (le_word bs :: 8 word), rb))
      else if cookie = TYPE_NUMBER_WORD
      then obind (rb_take 2 rb) (\<lambda>(bs, rb). Ok (ucast (le_word bs :: 16 word), rb))
      else if cookie = TYPE_NUMBER_DWORD
      then obind (rb_take 4 rb) (\<lambda>(bs, rb). Ok (scast (le_word bs :: 32 word), rb))
      else if cookie = TYPE_NUMBER_QWORD
      then obind (rb_take 8 rb) (\<lambda>(bs, rb). Ok (le_word bs, rb))
      else invalid_stream rb)"

definition get_real :: "read_block \<Rightarrow> (64 word \<times> read_block) outcome" where
  "get_real rb = obind (rb_take 8 rb) (\<lambda>(bs, rb). Ok (le_word bs, rb))"

definition get_pointer :: "read_block \<Rightarrow> (ptr \<times> read_block) outcome" where
  "get_pointer rb = obind (rb_take 8 rb) (\<lambda>(bs, rb). Ok (le_word bs, rb))"

definition push :: "lua_value \<Rightarrow> read_block \<Rightarrow> read_block" where
  "push v rb = rb\<lparr>rb_stack := v # rb_stack rb\<rparr>"

text \<open>
  \<open>get_buffer\<close>; for a negative \<open>len\<close>, \<open>rb_read\<close> steps backwards and \<open>lua_pushlstring\<close> refuses
  the length before it looks at the bytes.
\<close>

definition get_buffer :: "int \<Rightarrow> read_block \<Rightarrow> read_block outcome" where
  "get_buffer len rb =
     (case rb_read len rb of
        (None, rb) \<Rightarrow> invalid_stream rb
      | (Some p, rb) \<Rightarrow>
          if len < 0 then Throw StringTooLong
          else obind (fetch (rb_buffer rb) p len) (\<lambda>bs. Ok (push (LStr bs) rb)))"

definition get_extend_integer :: "read_block \<Rightarrow> (int \<times> read_block) outcome" where
  "get_extend_integer rb =
     obind (rb_take 1 rb) (\<lambda>(bs, rb).
       let type = (hd bs :: byte); cookie = uint (drop_bit 3 type)
       in if type AND 7 \<noteq> word_of_int TYPE_NUMBER \<or> cookie = TYPE_NUMBER_REAL then invalid_stream rb
          else obind (get_integer cookie rb) (\<lambda>(n, rb). Ok (sint (ucast n :: 32 word), rb)))"

section \<open>References\<close>

text \<open>
  \<open>lua_pushvalue\<close> of an absolute stack index. An index above the top, in the space the stack had
  before, is acceptable to Lua and stands for nil; 0 is never acceptable.
\<close>

definition push_index :: "nat \<Rightarrow> read_block \<Rightarrow> read_block outcome" where
  "push_index i rb =
     (if i = 0 then Abort
      else Ok (push (if i \<le> length (rb_stack rb) then rb_stack rb ! (length (rb_stack rb) - i)
                     else LNil) rb))"

definition unpack_ref :: "int \<Rightarrow> read_block \<Rightarrow> read_block outcome" where
  "unpack_ref ref rb =
     (if ref = EXTEND_NUMBER
      then obind (get_extend_integer rb) (\<lambda>(i, rb).
             case rb_refs rb of
               None \<Rightarrow> Throw (InvalidRefId i)
             | Some refs \<Rightarrow> (case refs i of None \<Rightarrow> Throw (InvalidRefId i)
                                           | Some t \<Rightarrow> Ok (push (LTable t) rb)))
      else if ref \<ge> int (rb_depth rb) then Throw (InvalidRef ref (rb_depth rb))
      else push_index (rb_ancestor rb (nat ref)) rb)"

section \<open>Tables\<close>

text \<open>\<open>lua_rawset\<close> raises an error for the key NaN.\<close>

definition is_nan :: "lua_value \<Rightarrow> bool" where
  "is_nan v = (case v of
     LReal x \<Rightarrow> drop_bit 52 x AND 0x7FF = 0x7FF \<and> x AND (2 ^ 52 - 1) \<noteq> 0 | _ \<Rightarrow> False)"

definition set_entry :: "nat \<Rightarrow> lua_value \<Rightarrow> lua_value \<Rightarrow> read_block \<Rightarrow> read_block outcome" where
  "set_entry t k v rb =
     (if t < length (rb_tables rb)
      then Ok (rb\<lparr>rb_tables := (rb_tables rb)[t := rb_tables rb ! t @ [(k, v)]]\<rparr>) else Abort)"

text \<open>\<open>lua_rawseti(L, -2, i)\<close> and \<open>lua_rawset(L, -3)\<close>\<close>

definition rawseti :: "int \<Rightarrow> read_block \<Rightarrow> read_block outcome" where
  "rawseti i rb = (case rb_stack rb of
     v # LTable t # rest \<Rightarrow> set_entry t (LInt (word_of_int i)) v (rb\<lparr>rb_stack := LTable t # rest\<rparr>)
   | _ \<Rightarrow> Abort)"

definition rawset :: "read_block \<Rightarrow> read_block outcome" where
  "rawset rb = (case rb_stack rb of
     v # k # LTable t # rest \<Rightarrow>
       if is_nan k then Throw IndexIsNaN
       else set_entry t k v (rb\<lparr>rb_stack := LTable t # rest\<rparr>)
   | _ \<Rightarrow> Abort)"

text \<open>The start of \<open>unpack_table\<close>: its size, the new table, its entry in the table of
  references, and the depth.\<close>

definition table_size :: "int \<Rightarrow> read_block \<Rightarrow> (int \<times> read_block) outcome" where
  "table_size array_size rb =
     (if array_size = EXTEND_NUMBER then get_extend_integer rb else Ok (array_size, rb))"

definition create_table :: "int \<Rightarrow> read_block \<Rightarrow> read_block" where
  "create_table type rb =
     (let oid = rb_objectid rb + 1; t = length (rb_tables rb);
          rb = push (LTable t) (rb\<lparr>rb_objectid := oid, rb_tables := rb_tables rb @ [[]]\<rparr>);
          rb = (if type = TYPE_TABLE_MARK
                then rb\<lparr>rb_refs := Some ((case rb_refs rb of None \<Rightarrow> (\<lambda>i. None) | Some r \<Rightarrow> r)
                       (int oid := Some t))\<rparr>
                else rb);
          rb = (if rb_depth rb < MAX_DEPTH
                then rb\<lparr>rb_ancestor := (rb_ancestor rb)(rb_depth rb := length (rb_stack rb))\<rparr>
                else rb)
      in rb\<lparr>rb_depth := rb_depth rb + 1\<rparr>)"

text \<open>
  \<open>unpack_one\<close>, \<open>push_value\<close> and \<open>unpack_table\<close> with its two loops; the bound counts the calls
  of \<open>unpack_one\<close> inside each other and the rounds of the second loop.
\<close>

function (sequential)
  unpack_one :: "nat \<Rightarrow> read_block \<Rightarrow> read_block outcome" and
  push_value :: "nat \<Rightarrow> int \<Rightarrow> int \<Rightarrow> read_block \<Rightarrow> read_block outcome" and
  unpack_table :: "nat \<Rightarrow> int \<Rightarrow> int \<Rightarrow> read_block \<Rightarrow> read_block outcome" and
  array_items :: "nat \<Rightarrow> nat \<Rightarrow> int \<Rightarrow> read_block \<Rightarrow> read_block outcome" and
  hash_items :: "nat \<Rightarrow> read_block \<Rightarrow> read_block outcome"
where
  "unpack_one 0 rb = Timeout"
| "unpack_one (Suc fuel) rb =
     obind (rb_take 1 rb) (\<lambda>(bs, rb).
       push_value fuel (uint (hd bs AND 7)) (uint (drop_bit 3 (hd bs))) rb)"
| "push_value fuel type cookie rb =
     (if type = TYPE_BOOLEAN then
        (if cookie = TYPE_BOOLEAN_NIL then Ok (push LNil rb)
         else if cookie = TYPE_BOOLEAN_FALSE then Ok (push (LBool False) rb)
         else if cookie = TYPE_BOOLEAN_TRUE then Ok (push (LBool True) rb)
         else Throw (InvalidBoolean cookie))
      else if type = TYPE_NUMBER then
        (if cookie = TYPE_NUMBER_REAL then obind (get_real rb) (\<lambda>(n, rb). Ok (push (LReal n) rb))
         else obind (get_integer cookie rb) (\<lambda>(n, rb). Ok (push (LInt n) rb)))
      else if type = TYPE_USERDATA then
        (if cookie = TYPE_USERDATA_POINTER
         then obind (get_pointer rb) (\<lambda>(p, rb). Ok (push (LPtr p) rb))
         else if cookie \<noteq> TYPE_USERDATA_CFUNCTION then Throw InvalidUserdata
         else obind (get_pointer rb) (\<lambda>(p, rb). Ok (push (LCFun p) rb)))
      else if type = TYPE_SHORT_STRING then get_buffer cookie rb
      else if type = TYPE_LONG_STRING then
        (if cookie = 2
         then obind (rb_take 2 rb) (\<lambda>(bs, rb). get_buffer (uint (le_word bs :: 16 word)) rb)
         else if cookie \<noteq> 4 then invalid_stream rb
         else obind (rb_take 4 rb) (\<lambda>(bs, rb). get_buffer (sint (le_word bs :: 32 word)) rb))
      else if type = TYPE_TABLE \<or> type = TYPE_TABLE_MARK then unpack_table fuel cookie type rb
      else if type = TYPE_REF then unpack_ref cookie rb
      else invalid_stream rb)"
| "unpack_table fuel array_size type rb =
     obind (table_size array_size rb) (\<lambda>(n, rb).
       obind (array_items fuel (nat n) 1 (create_table type rb)) (\<lambda>rb.
         hash_items fuel (rb\<lparr>rb_depth := rb_depth rb - 1\<rparr>)))"
| "array_items fuel 0 i rb = Ok rb"
| "array_items fuel (Suc n) i rb =
     obind (unpack_one fuel rb) (\<lambda>rb. obind (rawseti i rb) (\<lambda>rb. array_items fuel n (i + 1) rb))"
| "hash_items 0 rb = Timeout"
| "hash_items (Suc fuel) rb =
     obind (unpack_one fuel rb) (\<lambda>rb.
       if rb_stack rb \<noteq> [] \<and> hd (rb_stack rb) = LNil
       then Ok (rb\<lparr>rb_stack := tl (rb_stack rb)\<rparr>)
       else obind (unpack_one fuel (rb\<lparr>rb_depth := rb_depth rb + 1\<rparr>)) (\<lambda>rb.
              obind (rawset (rb\<lparr>rb_depth := rb_depth rb - 1\<rparr>)) (\<lambda>rb. hash_items fuel rb)))"
  by pat_completeness auto
termination
  by (relation "measures
    [\<lambda>x. (case x of
        Inl (Inl (fuel, rb)) \<Rightarrow> fuel | Inl (Inr (fuel, t, c, rb)) \<Rightarrow> fuel
      | Inr (Inl (fuel, n, t, rb)) \<Rightarrow> fuel
      | Inr (Inr (Inl (fuel, n, i, rb))) \<Rightarrow> fuel | Inr (Inr (Inr (fuel, rb))) \<Rightarrow> fuel),
     \<lambda>x. (case x of
        Inl (Inl (fuel, rb)) \<Rightarrow> 0 | Inl (Inr (fuel, t, c, rb)) \<Rightarrow> 3
      | Inr (Inl (fuel, n, t, rb)) \<Rightarrow> 2
      | Inr (Inr (Inl (fuel, n, i, rb))) \<Rightarrow> 1 | Inr (Inr (Inr (fuel, rb))) \<Rightarrow> 1),
     \<lambda>x. (case x of
        Inr (Inr (Inl (fuel, n, i, rb))) \<Rightarrow> n | _ \<Rightarrow> 0)]")
    auto

section \<open>Whole streams\<close>

text \<open>The loop of \<open>seri_unpack\<close>; the bound counts its rounds and bounds \<open>push_value\<close>.\<close>

primrec unpack_loop :: "nat \<Rightarrow> read_block \<Rightarrow> read_block outcome" where
  "unpack_loop 0 rb = Timeout"
| "unpack_loop (Suc fuel) rb =
     (case rb_read 1 rb of
        (None, rb) \<Rightarrow> Ok rb
      | (Some p, rb) \<Rightarrow> obind (fetch (rb_buffer rb) p 1) (\<lambda>bs.
          obind (push_value fuel (uint (hd bs AND 7)) (uint (drop_bit 3 (hd bs))) rb)
            (\<lambda>rb. unpack_loop fuel rb)))"

text \<open>\<open>seri_unpack\<close> with an empty Lua stack: the values, first to last, and the tables made.\<close>

definition seri_unpack :: "nat \<Rightarrow> byte list \<Rightarrow> (lua_value list \<times> new_table list) outcome" where
  "seri_unpack fuel buffer =
     obind (fetch buffer 0 4) (\<lambda>hdr.
       let len = sint (le_word hdr :: 32 word);
           rb = push LNil (rball_init (drop 4 buffer) len)
       in obind (unpack_loop fuel rb) (\<lambda>rb. Ok (tl (rev (rb_stack rb)), rb_tables rb)))"

text \<open>\<open>seri_unpackptr\<close>: the buffer is freed whether or not reading it raised an error; the second
  component is what is freed.\<close>

definition seri_unpackptr ::
  "nat \<Rightarrow> byte list \<Rightarrow> (lua_value list \<times> new_table list) outcome \<times> byte list list" where
  "seri_unpackptr fuel buffer = (seri_unpack fuel buffer, [buffer])"

text \<open>\<open>luaseri_unpack_remove\<close>, \<open>luaseri_unpack\<close>: no argument gives no values.\<close>

definition luaseri_unpack :: "nat \<Rightarrow> byte list option \<Rightarrow> (lua_value list \<times> new_table list) outcome" where
  "luaseri_unpack fuel arg = (case arg of None \<Rightarrow> Ok ([], []) | Some buffer \<Rightarrow> seri_unpack fuel buffer)"

definition luaseri_unpack_remove ::
  "nat \<Rightarrow> byte list option \<Rightarrow> (lua_value list \<times> new_table list) outcome \<times> byte list list" where
  "luaseri_unpack_remove fuel arg =
     (case arg of None \<Rightarrow> (Ok ([], []), []) | Some buffer \<Rightarrow> seri_unpackptr fuel buffer)"

text \<open>\<open>seri_unpackstr\<close> reads a string and frees nothing; \<open>luaseri_remove\<close> only frees.\<close>

definition seri_unpackstr :: "nat \<Rightarrow> byte list \<Rightarrow> (lua_value list \<times> new_table list) outcome" where
  "seri_unpackstr fuel buffer = seri_unpack fuel buffer"

definition luaseri_remove :: "byte list option \<Rightarrow> byte list list" where
  "luaseri_remove arg = (case arg of None \<Rightarrow> [] | Some buffer \<Rightarrow> [buffer])"

end
