(* ===== verification/SeriBytes.thy ===== *)
theory SeriBytes
  imports SeriRead
begin

text \<open>
  The bytes of the serialiser: tags, and the chain of blocks, which is a flat
  buffer. \<open>flat\<close> is what has been pushed; an address is a position in it; \<open>wb_push\<close> appends,
  \<open>change_mark\<close> overwrites one byte, \<open>seri\<close> copies it out.
\<close>

section \<open>Tags\<close>

text \<open>The tag of type \<open>t < 8\<close> and cookie \<open>v < 32\<close>.\<close>

lemma tag_fields:
  assumes "0 \<le> t" "t < 8" "0 \<le> v" "v < 32"
  shows "uint (COMBINE_TYPE t v AND 7) = t" "uint (drop_bit 3 (COMBINE_TYPE t v)) = v"
proof -
  have t: "take_bit 3 t = t" using assms by (simp add: take_bit_int_eq_self)
  have "uint (COMBINE_TYPE t v) = take_bit 8 (t OR push_bit 3 v)"
    by (simp add: COMBINE_TYPE_def unsigned_of_int)
  also have "\<dots> = t OR push_bit 3 v"
  proof -
    have "take_bit 8 (push_bit 3 v) = push_bit 3 (take_bit 5 v)"
      by (simp add: take_bit_push_bit)
    moreover have "take_bit 5 v = v" "take_bit 8 t = t"
      using assms by (simp_all add: take_bit_int_eq_self)
    ultimately show ?thesis by simp
  qed
  finally have u: "uint (COMBINE_TYPE t v) = t OR push_bit 3 v" .
  have "uint (COMBINE_TYPE t v AND 7) = take_bit 3 (t OR push_bit 3 v)"
    by (simp add: unsigned_and_eq u take_bit_eq_mask mask_numeral)
  also have "\<dots> = t" by (simp add: t take_bit_push_bit)
  finally show "uint (COMBINE_TYPE t v AND 7) = t" .
  have "uint (drop_bit 3 (COMBINE_TYPE t v)) = drop_bit 3 (t OR push_bit 3 v)"
  proof -
    have "take_bit 8 (uint (COMBINE_TYPE t v)) = uint (COMBINE_TYPE t v)"
      using uint_lt2p [of "COMBINE_TYPE t v"] by (simp add: take_bit_int_eq_self)
    then show ?thesis by (simp only: unsigned_drop_bit_eq u len_num0 len_num1 len_bit0 len_bit1) simp
  qed
  also have "\<dots> = drop_bit 3 t OR v" by (simp add: drop_bit_push_bit_int)
  also have "drop_bit 3 t = 0" using assms by (simp add: drop_bit_eq_div)
  finally show "uint (drop_bit 3 (COMBINE_TYPE t v)) = v" by simp
qed

section \<open>The flat buffer\<close>

definition cells :: "write_block \<Rightarrow> byte option list" where
  "cells b = take (nat (wb_len b)) (concat (wb_blocks b))"

definition flat :: "write_block \<Rightarrow> byte list" where
  "flat b = map the (cells b)"

definition blocks_ok :: "write_block \<Rightarrow> bool" where
  "blocks_ok b \<longleftrightarrow> wb_blocks b \<noteq> [] \<and> (\<forall>blk \<in> set (wb_blocks b). length blk = 128) \<and>
     wb_ptr b \<le> 128 \<and> wb_len b = int (128 * (length (wb_blocks b) - 1) + wb_ptr b) \<and>
     None \<notin> set (cells b)"

text \<open>What the block operations leave alone.\<close>

definition wb_rest :: "write_block \<Rightarrow> nat \<times> nat \<times> (nat \<Rightarrow> nat) \<times> (nat \<Rightarrow> nat \<times> address option) \<times>
    (nat \<Rightarrow> nat option) \<times> (nat \<Rightarrow> address option)" where
  "wb_rest b = (wb_depth b, wb_objectid b, wb_ancestor b, wb_r b, wb_ref_ids b, wb_ref_addrs b)"

lemma wb_rest_updates [simp]:
  "wb_rest (b\<lparr>wb_blocks := x\<rparr>) = wb_rest b" "wb_rest (b\<lparr>wb_ptr := n\<rparr>) = wb_rest b"
  "wb_rest (b\<lparr>wb_len := l\<rparr>) = wb_rest b" "wb_rest (new_block b) = wb_rest b"
  "wb_rest (copy_in bs b) = wb_rest b"
  by (simp_all add: wb_rest_def new_block_def copy_in_def)

lemma wb_rest_push [simp]: "wb_rest (wb_push buf b) = wb_rest b"
proof -
  have "wb_rest (push_rest buf b) = wb_rest b" for buf b
  proof (induction buf b rule: push_rest.induct)
    case (1 buf b)
    show ?case
    proof (cases "int (wb_ptr b) \<le> int BLOCK_SIZE - int (length buf)")
      case True
      then show ?thesis by (subst push_rest.simps) simp
    next
      case False
      show ?thesis
        unfolding push_rest.simps [of buf b] if_not_P [OF False] Let_def
        by (simp only: "1.IH" [OF False refl]) simp
    qed
  qed
  then show ?thesis by (simp add: wb_push_def)
qed

lemma flat_cong:
  "wb_blocks b' = wb_blocks b \<Longrightarrow> wb_ptr b' = wb_ptr b \<Longrightarrow> wb_len b' = wb_len b \<Longrightarrow>
   flat b' = flat b \<and> blocks_ok b' = blocks_ok b"
  by (simp add: flat_def cells_def blocks_ok_def)

lemma flat_updates [simp]:
  "flat (b\<lparr>wb_depth := d\<rparr>) = flat b" "blocks_ok (b\<lparr>wb_depth := d\<rparr>) = blocks_ok b"
  "flat (b\<lparr>wb_objectid := n\<rparr>) = flat b" "blocks_ok (b\<lparr>wb_objectid := n\<rparr>) = blocks_ok b"
  "flat (b\<lparr>wb_ancestor := f\<rparr>) = flat b" "blocks_ok (b\<lparr>wb_ancestor := f\<rparr>) = blocks_ok b"
  "flat (b\<lparr>wb_r := r\<rparr>) = flat b" "blocks_ok (b\<lparr>wb_r := r\<rparr>) = blocks_ok b"
  "flat (b\<lparr>wb_ref_ids := g\<rparr>) = flat b" "blocks_ok (b\<lparr>wb_ref_ids := g\<rparr>) = blocks_ok b"
  "flat (b\<lparr>wb_ref_addrs := h\<rparr>) = flat b" "blocks_ok (b\<lparr>wb_ref_addrs := h\<rparr>) = blocks_ok b"
  by (simp_all add: flat_def cells_def blocks_ok_def)

lemma nat_len: "nat (128 * int n + int p) = 128 * n + p"
  by (simp add: nat_eq_iff)

lemma concat_length: "\<forall>blk \<in> set bs. length blk = n \<Longrightarrow> length (concat bs) = n * length bs"
  by (induction bs) simp_all

text \<open>Splitting off the current block.\<close>

lemma blocks_ok_split:
  "blocks_ok b \<longleftrightarrow> (\<exists>full cur. wb_blocks b = full @ [cur] \<and> (\<forall>blk \<in> set full. length blk = 128) \<and>
     length cur = 128 \<and> wb_ptr b \<le> 128 \<and> wb_len b = int (128 * length full + wb_ptr b) \<and>
     None \<notin> set (concat full) \<and> None \<notin> set (take (wb_ptr b) cur))"
proof
  assume ok: "blocks_ok b"
  define full cur where "full = butlast (wb_blocks b)" and "cur = last (wb_blocks b)"
  have bl: "wb_blocks b = full @ [cur]" using ok by (simp add: full_def cur_def blocks_ok_def)
  have "cells b = concat full @ take (wb_ptr b) cur"
    using ok concat_length [of full 128] by (simp add: cells_def blocks_ok_def bl nat_len)
  then show "\<exists>full cur. wb_blocks b = full @ [cur] \<and> (\<forall>blk \<in> set full. length blk = 128) \<and>
     length cur = 128 \<and> wb_ptr b \<le> 128 \<and> wb_len b = int (128 * length full + wb_ptr b) \<and>
     None \<notin> set (concat full) \<and> None \<notin> set (take (wb_ptr b) cur)"
    using ok bl by (intro exI [of _ full] exI [of _ cur]) (auto simp: blocks_ok_def)
next
  assume "\<exists>full cur. wb_blocks b = full @ [cur] \<and> (\<forall>blk \<in> set full. length blk = 128) \<and>
     length cur = 128 \<and> wb_ptr b \<le> 128 \<and> wb_len b = int (128 * length full + wb_ptr b) \<and>
     None \<notin> set (concat full) \<and> None \<notin> set (take (wb_ptr b) cur)"
  then obtain full cur where bl: "wb_blocks b = full @ [cur]" "\<forall>blk \<in> set full. length blk = 128"
    "length cur = 128" "wb_ptr b \<le> 128" "wb_len b = int (128 * length full + wb_ptr b)"
    "None \<notin> set (concat full)" "None \<notin> set (take (wb_ptr b) cur)" by blast
  then have "cells b = concat full @ take (wb_ptr b) cur"
    using concat_length [of full 128] by (simp add: cells_def nat_len)
  then show "blocks_ok b" using bl by (simp add: blocks_ok_def)
qed

lemma flat_split:
  assumes "wb_blocks b = full @ [cur]" "\<forall>blk \<in> set full. length blk = 128"
    and "wb_len b = int (128 * length full + wb_ptr b)"
  shows "flat b = map the (concat full) @ map the (take (wb_ptr b) cur)"
  using assms concat_length [of full 128] by (simp add: flat_def cells_def nat_len)

lemma new_block_flat:
  assumes "blocks_ok b" "wb_ptr b = 128"
  shows "blocks_ok (new_block b)" "flat (new_block b) = flat b"
proof -
  obtain full cur where b: "wb_blocks b = full @ [cur]" "\<forall>blk \<in> set full. length blk = 128"
    "length cur = 128" "wb_ptr b \<le> 128" "wb_len b = int (128 * length full + wb_ptr b)"
    "None \<notin> set (concat full)" "None \<notin> set (take (wb_ptr b) cur)"
    using assms(1) unfolding blocks_ok_split by blast
  show "blocks_ok (new_block b)"
    unfolding blocks_ok_split
    by (rule exI [of _ "full @ [cur]"], rule exI [of _ blk_alloc])
      (use b assms(2) in \<open>auto simp: new_block_def blk_alloc_def\<close>)
  have "flat (new_block b) = map the (concat (full @ [cur])) @ map the (take 0 blk_alloc)"
    using flat_split [of "new_block b" "full @ [cur]" blk_alloc] b assms(2)
    by (simp add: new_block_def)
  then show "flat (new_block b) = flat b"
    using flat_split [OF b(1,2,5)] b(3) assms(2) by simp
qed

lemma copy_in_flat:
  assumes "blocks_ok b" "wb_ptr b + length bs \<le> 128"
  defines "b' \<equiv> (copy_in bs b)\<lparr>wb_ptr := wb_ptr b + length bs, wb_len := wb_len b + int (length bs)\<rparr>"
  shows "blocks_ok b'" "flat b' = flat b @ bs"
proof -
  obtain full cur where b: "wb_blocks b = full @ [cur]" "\<forall>blk \<in> set full. length blk = 128"
    "length cur = 128" "wb_ptr b \<le> 128" "wb_len b = int (128 * length full + wb_ptr b)"
    "None \<notin> set (concat full)" "None \<notin> set (take (wb_ptr b) cur)"
    using assms(1) unfolding blocks_ok_split by blast
  define cur' where "cur' = store_bytes cur (wb_ptr b) bs"
  have cur': "length cur' = 128" "take (wb_ptr b + length bs) cur' = take (wb_ptr b) cur @ map Some bs"
    using b(3,4) assms(2) by (simp_all add: cur'_def store_bytes_def)
  have b': "wb_blocks b' = full @ [cur']" "wb_ptr b' = wb_ptr b + length bs"
    "wb_len b' = int (128 * length full + wb_ptr b')"
    using b by (simp_all add: b'_def copy_in_def cur'_def)
  show "blocks_ok b'"
    unfolding blocks_ok_split
    by (rule exI [of _ full], rule exI [of _ cur'])
      (use b b' cur' assms(2) in \<open>auto simp: b'(2)\<close>)
  show "flat b' = flat b @ bs"
    using flat_split [OF b'(1) b(2) b'(3)] flat_split [OF b(1,2,5)] cur'(2) b'(2) by simp
qed

lemma push_rest_flat:
  "blocks_ok b \<Longrightarrow> blocks_ok (push_rest buf b) \<and> flat (push_rest buf b) = flat b @ buf"
proof (induction buf b rule: push_rest.induct)
  case (1 buf b)
  show ?case
  proof (cases "int (wb_ptr b) \<le> int BLOCK_SIZE - int (length buf)")
    case True
    then show ?thesis
      using copy_in_flat [OF "1.prems", of buf] by (subst (1 2) push_rest.simps) simp
  next
    case False
    let ?copy = "BLOCK_SIZE - wb_ptr b"
    have ptr: "wb_ptr b \<le> 128" using "1.prems" by (simp add: blocks_ok_def)
    have len: "length (take ?copy buf) = ?copy" using False by simp
    define b1 where "b1 = (copy_in (take ?copy buf) b)\<lparr>wb_len := wb_len b + int ?copy\<rparr>"
    define b2 where "b2 = (copy_in (take ?copy buf) b)
      \<lparr>wb_ptr := wb_ptr b + length (take ?copy buf), wb_len := wb_len b + int (length (take ?copy buf))\<rparr>"
    have b2: "blocks_ok b2" "flat b2 = flat b @ take ?copy buf"
      unfolding b2_def using copy_in_flat [OF "1.prems", of "take ?copy buf"] ptr len by simp_all
    have "new_block b1 = new_block b2"
      using len by (simp add: b1_def b2_def new_block_def)
    moreover have "wb_ptr b2 = 128" using ptr len by (simp add: b2_def)
    ultimately have n: "blocks_ok (new_block b1)" "flat (new_block b1) = flat b @ take ?copy buf"
      using new_block_flat [OF b2(1)] b2(2) by simp_all
    have "push_rest buf b = push_rest (drop ?copy buf) (new_block b1)"
      using False by (subst push_rest.simps) (simp add: b1_def Let_def)
    moreover have "blocks_ok (push_rest (drop ?copy buf) (new_block b1)) \<and>
       flat (push_rest (drop ?copy buf) (new_block b1)) = flat (new_block b1) @ drop ?copy buf"
      unfolding b1_def by (rule "1.IH" [OF False refl]) (use n(1) in \<open>simp add: b1_def\<close>)
    ultimately show ?thesis by (simp add: n(2))
  qed
qed

lemma wb_push_flat [simp]:
  assumes "blocks_ok b"
  shows "blocks_ok (wb_push buf b)" "flat (wb_push buf b) = flat b @ buf"
  using push_rest_flat [of b buf] push_rest_flat [of "new_block b" buf] new_block_flat [OF assms] assms
  by (auto simp: wb_push_def)

lemma length_flat: "blocks_ok b \<Longrightarrow> int (length (flat b)) = wb_len b"
  unfolding blocks_ok_split
  by (elim exE conjE) (simp add: flat_split concat_length [of _ 128] del: length_concat)

section \<open>Addresses\<close>

definition addr_of :: "nat \<Rightarrow> address" where
  "addr_of p = (p div 128, p mod 128)"

lemma wb_address_flat:
  assumes "blocks_ok b" "wb_address b = (a, b')"
  shows "blocks_ok b' \<and> flat b' = flat b \<and> a = addr_of (length (flat b)) \<and> wb_rest b' = wb_rest b"
proof -
  define c where "c = (if wb_ptr b = 128 then new_block b else b)"
  have c: "blocks_ok c" "flat c = flat b" "wb_rest c = wb_rest b"
    using new_block_flat [OF assms(1)] assms(1) by (simp_all add: c_def)
  have ptr: "wb_ptr c < 128"
    using assms(1) by (auto simp: c_def new_block_def blocks_ok_def le_less)
  have "int (length (flat c)) = int (128 * (length (wb_blocks c) - 1) + wb_ptr c)"
    using length_flat [OF c(1)] c(1) by (simp only: blocks_ok_def)
  then have "length (flat b) = 128 * (length (wb_blocks c) - 1) + wb_ptr c"
    using c(2) by (simp only: of_nat_eq_iff)
  moreover have "a = (length (wb_blocks c) - 1, wb_ptr c)" "b' = c"
    using assms(2) unfolding wb_address_def Let_def BLOCK_SIZE_def c_def [symmetric] by auto
  ultimately show ?thesis using c ptr by (simp add: addr_of_def)
qed

lemma concat_nth:
  "\<forall>blk \<in> set bs. length blk = n \<Longrightarrow> p < n * length bs \<Longrightarrow>
   concat bs ! p = bs ! (p div n) ! (p mod n)"
proof (induction bs arbitrary: p)
  case (Cons blk bs)
  show ?case
  proof (cases "p < n")
    case True
    then show ?thesis using Cons.prems by (simp add: nth_append)
  next
    case False
    then have "concat bs ! (p - n) = bs ! ((p - n) div n) ! ((p - n) mod n)"
      using Cons.prems by (intro Cons.IH) (auto simp: algebra_simps)
    moreover have "0 < n" using Cons.prems(2) by (cases n) auto
    ultimately show ?thesis
      using False Cons.prems(1) by (simp add: nth_append le_div_geq le_mod_geq)
  qed
qed simp

lemma concat_update:
  "\<forall>blk \<in> set bs. length blk = n \<Longrightarrow> p < n * length bs \<Longrightarrow>
   concat (bs[p div n := (bs ! (p div n))[p mod n := c]]) = (concat bs)[p := c]"
proof (induction bs arbitrary: p)
  case (Cons blk bs)
  show ?case
  proof (cases "p < n")
    case True
    then show ?thesis using Cons.prems by (simp add: list_update_append)
  next
    case False
    then have "concat (bs[(p - n) div n := (bs ! ((p - n) div n))[(p - n) mod n := c]]) =
        (concat bs)[p - n := c]"
      using Cons.prems by (intro Cons.IH) (auto simp: algebra_simps)
    moreover have "0 < n" using Cons.prems(2) by (cases n) auto
    ultimately show ?thesis
      using False Cons.prems(1) by (simp add: list_update_append le_div_geq le_mod_geq)
  qed
qed simp

lemma flat_nth: "p < length (flat b) \<Longrightarrow> flat b ! p = the (concat (wb_blocks b) ! p)"
  by (simp add: flat_def cells_def)

lemma change_mark_flat:
  assumes ok: "blocks_ok b" and p: "p < length (flat b)"
    and tag: "flat b ! p AND 7 = word_of_int TYPE_TABLE"
  shows "\<exists>b'. change_mark (addr_of p) b = Ok b' \<and> blocks_ok b' \<and> wb_rest b' = wb_rest b \<and>
     flat b' = (flat b)[p := COMBINE_TYPE TYPE_TABLE_MARK (uint (drop_bit 3 (flat b ! p)))]"
proof -
  define bs where "bs = wb_blocks b"
  have blk: "\<forall>blk \<in> set bs. length blk = 128" using ok by (simp add: bs_def blocks_ok_def)
  have len: "length (concat bs) = 128 * length bs" by (rule concat_length [OF blk])
  have pc: "p < 128 * length bs" using p len by (simp add: flat_def cells_def bs_def)
  then have i: "p div 128 < length bs" "p mod 128 < length (bs ! (p div 128))"
    using blk by (simp_all add: less_mult_imp_div_less mult.commute)
  have cell: "bs ! (p div 128) ! (p mod 128) = concat bs ! p"
    by (rule concat_nth [OF blk pc, symmetric])
  have "cells b ! p = concat bs ! p" "p < length (cells b)"
    using p by (simp_all add: cells_def flat_def bs_def)
  then have "concat bs ! p \<noteq> None" using ok by (metis blocks_ok_def nth_mem)
  then have some: "concat bs ! p = Some (flat b ! p)" using flat_nth [OF p] by (simp add: bs_def)
  define tag' where "tag' = COMBINE_TYPE TYPE_TABLE_MARK (uint (drop_bit 3 (flat b ! p)))"
  define bs' where "bs' = bs[p div 128 := (bs ! (p div 128))[p mod 128 := Some tag']]"
  have concat': "concat bs' = (concat bs)[p := Some tag']"
    unfolding bs'_def by (rule concat_update [OF blk pc])
  have blk': "\<forall>blk \<in> set bs'. length blk = 128" "length bs' = length bs"
    using blk i set_update_subset_insert [of bs "p div 128" "(bs ! (p div 128))[p mod 128 := Some tag']"]
    by (auto simp: bs'_def nth_mem)
  let ?b = "b\<lparr>wb_blocks := bs'\<rparr>"
  have cells': "cells ?b = (cells b)[p := Some tag']"
    by (simp add: cells_def concat' bs_def take_update_swap)
  have "change_mark (addr_of p) b = Ok ?b"
    using i tag cell some by (simp add: change_mark_def addr_of_def bs_def [symmetric] bs'_def tag'_def)
  moreover have "blocks_ok ?b"
    using ok blk' cells' set_update_subset_insert [of "cells b" p "Some tag'"]
    by (auto simp: blocks_ok_def bs_def)
  moreover have "flat ?b = (flat b)[p := tag']"
    by (simp add: flat_def cells' map_update)
  ultimately show ?thesis by (auto simp: tag'_def)
qed

section \<open>Copying out\<close>

lemma seri_loop_flat:
  "\<forall>blk \<in> set bs. length blk = 128 \<Longrightarrow> len \<le> 128 * length bs \<Longrightarrow>
   None \<notin> set (take len (concat bs)) \<Longrightarrow>
   seri_loop bs (int len) = Ok (map the (take len (concat bs)))"
proof (induction bs arbitrary: len)
  case (Cons blk bs)
  have blk: "length blk = 128" using Cons.prems by simp
  show ?case
  proof (cases "len < 128")
    case True
    then show ?thesis
      using Cons.prems blk by (auto simp: read_cells_def)
  next
    case False
    then have l: "int len - 128 = int (len - 128)" by simp
    have "take len (concat (blk # bs)) = blk @ take (len - 128) (concat bs)"
      using False blk by simp
    moreover from this have "seri_loop bs (int (len - 128)) = Ok (map the (take (len - 128) (concat bs)))"
      using Cons.prems False by (intro Cons.IH) auto
    moreover have "read_cells blk 128 = Ok (map the blk)"
      using Cons.prems(3) blk calculation(1) by (auto simp: read_cells_def)
    moreover have "seri_loop (blk # bs) (int len) = obind (read_cells blk 128)
        (\<lambda>xs. obind (seri_loop bs (int len - 128)) (\<lambda>ys. Ok (xs @ ys)))"
      using False by simp
    ultimately show ?thesis by (simp only: l obind_simps map_append)
  qed
qed simp

lemma seri_flat:
  assumes "blocks_ok b"
  shows "seri (wb_blocks b) (wb_len b) =
     Ok (le_bytes 4 (word_of_int (wb_len b) :: 32 word) @ flat b)"
proof -
  define n where "n = nat (wb_len b)"
  have n: "wb_len b = int n" "n \<le> 128 * length (wb_blocks b)"
    using assms unfolding blocks_ok_split n_def by auto
  have "seri_loop (wb_blocks b) (int n) = Ok (map the (take n (concat (wb_blocks b))))"
  proof (rule seri_loop_flat)
    show "\<forall>blk \<in> set (wb_blocks b). length blk = 128" using assms by (simp add: blocks_ok_def)
    show "None \<notin> set (take n (concat (wb_blocks b)))"
      using assms unfolding blocks_ok_def cells_def n_def by blast
  qed (rule n(2))
  then show ?thesis by (simp add: seri_def n(1) flat_def cells_def)
qed

end
