(* ===== verification/SeriTokens.thy ===== *)
theory SeriTokens
  imports SeriBytes
begin

text \<open>
  What \<open>pack_one\<close> writes, as a sequence of tokens: the walk over the heap without bytes, blocks
  and addresses. The abstract state is the list \<open>seen\<close> of the tables met so far (their ids are
  their positions, from 1) and the list \<open>anc\<close> of the tables being written. A table token has the
  tag \<open>TYPE_TABLE_MARK\<close> when some reference token names its id. The simulation \<open>pack_tokens\<close>
  shows that the writer, with its back-patching of tags and its two representations of the table
  of references, produces the encoding of these tokens.
\<close>

section \<open>Tokens and their bytes\<close>

datatype token =
    TokNil | TokBool bool | TokInt "64 word" | TokReal "64 word" | TokStr "byte list"
  | TokPtr ptr | TokCFun ptr
  | TokTable nat nat \<comment> \<open>id, array size\<close>
  | TokAnc nat | TokRef nat

definition int_bytes :: "64 word \<Rightarrow> byte list" where
  "int_bytes v =
     (if v = 0 then [COMBINE_TYPE 1 0]
      else if sint v \<noteq> sint (ucast v :: 32 word) then COMBINE_TYPE 1 6 # le_bytes 8 v
      else if sint v < 0 then COMBINE_TYPE 1 4 # le_bytes 4 (ucast v :: 32 word)
      else if sint v < 0x100 then COMBINE_TYPE 1 1 # le_bytes 1 (ucast v :: 8 word)
      else if sint v < 0x10000 then COMBINE_TYPE 1 2 # le_bytes 2 (ucast v :: 16 word)
      else COMBINE_TYPE 1 4 # le_bytes 4 (ucast v :: 32 word))"

definition str_bytes :: "byte list \<Rightarrow> byte list" where
  "str_bytes s =
     (let n = length s
      in if n < 32 then COMBINE_TYPE 3 (int n) # s
         else if n < 0x10000 then COMBINE_TYPE 4 2 # le_bytes 2 (word_of_nat n :: 16 word) @ s
         else COMBINE_TYPE 4 4 # le_bytes 4 (word_of_nat n :: 32 word) @ s)"

definition table_bytes :: "int \<Rightarrow> nat \<Rightarrow> byte list" where
  "table_bytes tag n =
     (if n \<ge> 31 then COMBINE_TYPE tag 31 # int_bytes (word_of_nat n) else [COMBINE_TYPE tag (int n)])"

primrec tok_bytes :: "nat set \<Rightarrow> token \<Rightarrow> byte list" where
  "tok_bytes M TokNil = [COMBINE_TYPE 0 0]"
| "tok_bytes M (TokBool v) = [COMBINE_TYPE 0 (if v then 2 else 1)]"
| "tok_bytes M (TokInt v) = int_bytes v"
| "tok_bytes M (TokReal v) = COMBINE_TYPE 1 8 # le_bytes 8 v"
| "tok_bytes M (TokStr s) = str_bytes s"
| "tok_bytes M (TokPtr p) = COMBINE_TYPE 2 0 # le_bytes 8 p"
| "tok_bytes M (TokCFun p) = COMBINE_TYPE 2 1 # le_bytes 8 p"
| "tok_bytes M (TokTable i n) = table_bytes (if i \<in> M then 6 else 5) n"
| "tok_bytes M (TokAnc i) = [COMBINE_TYPE 7 (int i)]"
| "tok_bytes M (TokRef i) = COMBINE_TYPE 7 31 # int_bytes (word_of_nat i)"

definition enc :: "nat set \<Rightarrow> token list \<Rightarrow> byte list" where
  "enc M ts = concat (map (tok_bytes M) ts)"

lemma enc_simps [simp]:
  "enc M [] = []" "enc M (t # ts) = tok_bytes M t @ enc M ts" "enc M (ts @ us) = enc M ts @ enc M us"
  by (simp_all add: enc_def)

text \<open>The ids referred to, and the ids of the tables.\<close>

definition refd :: "token list \<Rightarrow> nat set" where
  "refd ts = {i. TokRef i \<in> set ts}"

primrec table_id :: "token \<Rightarrow> nat list" where
  "table_id TokNil = []" | "table_id (TokBool v) = []" | "table_id (TokInt v) = []"
| "table_id (TokReal v) = []" | "table_id (TokStr v) = []" | "table_id (TokPtr v) = []"
| "table_id (TokCFun v) = []" | "table_id (TokTable i n) = [i]" | "table_id (TokAnc i) = []"
| "table_id (TokRef i) = []"

definition table_ids :: "token list \<Rightarrow> nat list" where
  "table_ids ts = concat (map table_id ts)"

lemma table_ids_simps [simp]:
  "table_ids [] = []" "table_ids (t # ts) = table_id t @ table_ids ts"
  "table_ids (ts @ us) = table_ids ts @ table_ids us"
  by (simp_all add: table_ids_def)

lemma refd_simps [simp]:
  "refd [] = {}" "refd (ts @ us) = refd ts \<union> refd us" "refd (TokNil # ts) = refd ts"
  "refd (TokBool v # ts) = refd ts" "refd (TokInt w # ts) = refd ts" "refd (TokReal w # ts) = refd ts"
  "refd (TokStr s # ts) = refd ts" "refd (TokPtr w # ts) = refd ts" "refd (TokCFun w # ts) = refd ts"
  "refd (TokTable i n # ts) = refd ts" "refd (TokAnc i # ts) = refd ts"
  "refd (TokRef i # ts) = insert i (refd ts)"
  by (auto simp: refd_def)

section \<open>The walk\<close>

definition pos_of :: "'a list \<Rightarrow> 'a \<Rightarrow> nat" where
  "pos_of xs x = length (takeWhile (\<lambda>y. y \<noteq> x) xs)"

lemma pos_of_props:
  "x \<in> set xs \<Longrightarrow> pos_of xs x < length xs" "x \<in> set xs \<Longrightarrow> xs ! pos_of xs x = x"
  "x \<in> set xs \<Longrightarrow> pos_of (xs @ ys) x = pos_of xs x"
  "x \<notin> set xs \<Longrightarrow> pos_of (xs @ x # ys) x = length xs"
  by (induction xs) (auto simp: pos_of_def)

lemma pos_of_nth: "distinct xs \<Longrightarrow> i < length xs \<Longrightarrow> pos_of xs (xs ! i) = i"
  by (metis distinct_conv_nth nth_mem pos_of_props(1,2))

function (sequential)
  apack :: "nat \<Rightarrow> lua_heap \<Rightarrow> nat list \<Rightarrow> nat list \<Rightarrow> lua_value \<Rightarrow> (token list \<times> nat list) option" and
  atable :: "nat \<Rightarrow> lua_heap \<Rightarrow> nat list \<Rightarrow> nat list \<Rightarrow> nat \<Rightarrow> (token list \<times> nat list) option" and
  alist :: "nat \<Rightarrow> lua_heap \<Rightarrow> nat list \<Rightarrow> nat list \<Rightarrow> lua_value list \<Rightarrow> (token list \<times> nat list) option" and
  apairs :: "nat \<Rightarrow> lua_heap \<Rightarrow> nat list \<Rightarrow> nat list \<Rightarrow> int \<Rightarrow> (lua_value \<times> lua_value) list \<Rightarrow>
    (token list \<times> nat list) option"
where
  "apack fuel H anc seen LNil = Some ([TokNil], seen)"
| "apack fuel H anc seen (LBool v) = Some ([TokBool v], seen)"
| "apack fuel H anc seen (LInt x) = Some ([TokInt x], seen)"
| "apack fuel H anc seen (LReal x) = Some ([TokReal x], seen)"
| "apack fuel H anc seen (LStr s) = (if length s < 2 ^ 31 then Some ([TokStr s], seen) else None)"
| "apack fuel H anc seen (LPtr p) = Some ([TokPtr p], seen)"
| "apack fuel H anc seen (LCFun p) = Some ([TokCFun p], seen)"
| "apack fuel H anc seen LClosure = None"
| "apack fuel H anc seen (LOther s) = None"
| "apack fuel H anc seen (LTable t) =
     (if t \<in> set anc \<and> length anc < 31 then Some ([TokAnc (pos_of anc t)], seen)
      else if t \<in> set seen then Some ([TokRef (pos_of seen t + 1)], seen)
      else atable fuel H anc seen t)"
| "atable 0 H anc seen t = None"
| "atable (Suc fuel) H anc seen t =
     (case lt_metapairs (H t) of
        Some ps \<Rightarrow>
          (case apairs fuel H (anc @ [t]) (seen @ [t]) 0 ps of
             None \<Rightarrow> None
           | Some (ts, s) \<Rightarrow> Some (TokTable (length seen + 1) 0 # ts @ [TokNil], s))
      | None \<Rightarrow>
         (let n = length (lt_array (H t))
          in if n < 2 ^ 31
             then (case alist fuel H (anc @ [t]) (seen @ [t]) (lt_array (H t)) of
                     None \<Rightarrow> None
                   | Some (ts, s) \<Rightarrow>
                      (case apairs fuel H (anc @ [t]) s (int n) (lt_pairs (H t)) of
                         None \<Rightarrow> None
                       | Some (us, s') \<Rightarrow>
                           Some (TokTable (length seen + 1) n # ts @ us @ [TokNil], s')))
             else None))"
| "alist fuel H anc seen [] = Some ([], seen)"
| "alist fuel H anc seen (v # vs) =
     (case apack fuel H anc seen v of
        None \<Rightarrow> None
      | Some (ts, s) \<Rightarrow> (case alist fuel H anc s vs of
                          None \<Rightarrow> None | Some (us, s') \<Rightarrow> Some (ts @ us, s')))"
| "apairs fuel H anc seen n [] = Some ([], seen)"
| "apairs fuel H anc seen n ((k, v) # ps) =
     (if in_array_part n k then apairs fuel H anc seen n ps
      else (case apack fuel H anc seen k of
              None \<Rightarrow> None
            | Some (ts, s) \<Rightarrow>
               (case apack fuel H anc s v of
                  None \<Rightarrow> None
                | Some (us, s') \<Rightarrow>
                   (case apairs fuel H anc s' n ps of
                      None \<Rightarrow> None | Some (vs, s'') \<Rightarrow> Some (ts @ us @ vs, s'')))))"
  by pat_completeness auto
termination
  by (relation "measures
    [\<lambda>x. (case x of
        Inl (Inl (fuel, _)) \<Rightarrow> fuel | Inl (Inr (fuel, _)) \<Rightarrow> fuel
      | Inr (Inl (fuel, _)) \<Rightarrow> fuel | Inr (Inr (fuel, _)) \<Rightarrow> fuel),
     \<lambda>x. (case x of
        Inl (Inl _) \<Rightarrow> 1 | Inl (Inr _) \<Rightarrow> 0
      | Inr (Inl (_, _, _, _, vs)) \<Rightarrow> 2 + length vs
      | Inr (Inr (_, _, _, _, _, ps)) \<Rightarrow> 2 + length ps)]")
    auto

section \<open>The state of the writer\<close>

definition tag_pos :: "token list \<Rightarrow> nat \<Rightarrow> nat" where
  "tag_pos ts i = length (enc {} (takeWhile (\<lambda>t. table_id t \<noteq> [i]) ts))"

definition addr_entry :: "token list \<Rightarrow> nat \<Rightarrow> address option" where
  "addr_entry ts i = (if i \<in> refd ts then None else Some (addr_of (tag_pos ts i)))"

definition refs_ok :: "write_block \<Rightarrow> nat list \<Rightarrow> token list \<Rightarrow> bool" where
  "refs_ok b seen ts \<longleftrightarrow>
     (if length seen \<le> 32
      then (\<forall>i < length seen. wb_r b i = (seen ! i, addr_entry ts (i + 1)))
      else (\<forall>t. wb_ref_ids b t = (if t \<in> set seen then Some (pos_of seen t + 1) else None)) \<and>
           (\<forall>i < length seen. wb_ref_addrs b (i + 1) = addr_entry ts (i + 1)))"

text \<open>The writer \<open>b\<close> has written the tokens \<open>ts\<close>, has seen \<open>seen\<close> and is inside \<open>anc\<close>.\<close>

definition rep :: "write_block \<Rightarrow> token list \<Rightarrow> nat list \<Rightarrow> nat list \<Rightarrow> bool" where
  "rep b ts seen anc \<longleftrightarrow> blocks_ok b \<and> flat b = enc (refd ts) ts \<and>
     wb_depth b = length anc \<and> (\<forall>k < min 31 (length anc). wb_ancestor b k = anc ! k) \<and>
     wb_objectid b = length seen \<and> refs_ok b seen ts \<and> table_ids ts = [1..<Suc (length seen)] \<and>
     distinct seen \<and> distinct anc \<and> set anc \<subseteq> set seen \<and> refd ts \<subseteq> {1..length seen}"

lemma int_bytes_flat:
  assumes "blocks_ok b"
  shows "blocks_ok (wb_integer v b) \<and> flat (wb_integer v b) = flat b @ int_bytes v \<and>
     wb_rest (wb_integer v b) = wb_rest b"
  using assms by (simp add: wb_integer_def int_bytes_def)

lemma table_id_mem: "i \<in> set (table_ids ts) \<Longrightarrow> \<exists>t \<in> set ts. table_id t = [i]"
proof (induction ts)
  case (Cons t ts)
  then show ?case by (cases t) auto
qed simp

lemma rep_rest:
  assumes "wb_rest b' = wb_rest b" "rep b ts seen anc" "blocks_ok b'"
    "flat b' = enc (refd ts) ts @ enc (refd ts) us" "table_ids us = []" "refd us = {}"
  shows "rep b' (ts @ us) seen anc"
proof -
  have tag: "tag_pos (ts @ us) i = tag_pos ts i" if i: "i \<in> set (table_ids ts)" for i
    using table_id_mem [OF i] by (auto simp: tag_pos_def takeWhile_append)
  have entry: "addr_entry (ts @ us) (i + 1) = addr_entry ts (i + 1)" if "i < length seen" for i
  proof -
    have "table_ids ts = [1..<Suc (length seen)]" using assms(2) by (simp add: rep_def)
    then have "i + 1 \<in> set (table_ids ts)" using that by (simp del: upt_Suc)
    from tag [OF this] show ?thesis using assms(6) by (simp add: addr_entry_def)
  qed
  have "wb_depth b' = wb_depth b" "wb_objectid b' = wb_objectid b" "wb_ancestor b' = wb_ancestor b"
    "wb_r b' = wb_r b" "wb_ref_ids b' = wb_ref_ids b" "wb_ref_addrs b' = wb_ref_addrs b"
    using assms(1) by (simp_all add: wb_rest_def)
  then show ?thesis
    using assms(2-6) entry by (cases "length seen \<le> 32") (simp_all add: rep_def refs_ok_def)
qed

lemma rep_push:
  assumes "rep b ts seen anc" "table_id t = []" "refd [t] = {}" "\<And>M. tok_bytes M t = bs"
  shows "rep (wb_push bs b) (ts @ [t]) seen anc"
proof (rule rep_rest [OF _ assms(1)])
  show "wb_rest (wb_push bs b) = wb_rest b" by simp
  show "blocks_ok (wb_push bs b)" "flat (wb_push bs b) = enc (refd ts) ts @ enc (refd ts) [t]"
    using assms(1,4) by (simp_all add: rep_def)
qed (use assms in simp_all)

lemma rep_push2:
  assumes "rep b ts seen anc" "table_id t = []" "refd [t] = {}" "\<And>M. tok_bytes M t = cs @ bs"
  shows "rep (wb_push bs (wb_push cs b)) (ts @ [t]) seen anc"
proof (rule rep_rest [OF _ assms(1)])
  show "wb_rest (wb_push bs (wb_push cs b)) = wb_rest b" by simp
  show "blocks_ok (wb_push bs (wb_push cs b))"
    "flat (wb_push bs (wb_push cs b)) = enc (refd ts) ts @ enc (refd ts) [t]"
    using assms(1,4) by (simp_all add: rep_def)
qed (use assms in simp_all)

lemma rep_integer: "rep b ts seen anc \<Longrightarrow> rep (wb_integer v b) (ts @ [TokInt v]) seen anc"
  by (rule rep_rest) (use int_bytes_flat [of b v] in \<open>auto simp: rep_def\<close>)

lemma size_to_int_small: "n < 2 ^ 31 \<Longrightarrow> size_to_int n = int n"
  by (simp add: size_to_int_def signed_of_nat signed_take_bit_int_eq_self)

lemma rep_string:
  assumes "rep b ts seen anc" "length s < 2 ^ 31"
  shows "\<exists>b'. wb_string s (size_to_int (length s)) b = Ok b' \<and> rep b' (ts @ [TokStr s]) seen anc"
proof -
  let ?n = "length s"
  define b' where "b' = (if ?n < 32
      then (if ?n > 0 then wb_push s (wb_push [COMBINE_TYPE 3 (int ?n)] b)
            else wb_push [COMBINE_TYPE 3 (int ?n)] b)
      else if ?n < 0x10000
      then wb_push s (wb_push (le_bytes 2 (word_of_nat ?n :: 16 word)) (wb_push [COMBINE_TYPE 4 2] b))
      else wb_push s (wb_push (le_bytes 4 (word_of_nat ?n :: 32 word)) (wb_push [COMBINE_TYPE 4 4] b)))"
  have "wb_string s (size_to_int ?n) b = Ok b'"
    using assms(2) by (simp add: wb_string_def b'_def size_to_int_small Let_def)
  moreover have "rep b' (ts @ [TokStr s]) seen anc"
  proof (rule rep_rest [OF _ assms(1)])
    show "wb_rest b' = wb_rest b" by (simp add: b'_def)
    show "blocks_ok b'" "flat b' = enc (refd ts) ts @ enc (refd ts) [TokStr s]"
      using assms(1) by (auto simp: rep_def b'_def str_bytes_def Let_def)
  qed simp_all
  ultimately show ?thesis by blast
qed

section \<open>References\<close>

lemma find_ancestor_eq:
  "distinct anc \<Longrightarrow> n \<le> length anc \<Longrightarrow> \<forall>k < n. wb_ancestor b k = anc ! k \<Longrightarrow>
   find_ancestor n t b = (if t \<in> set (take n anc) then Some (pos_of anc t) else None)"
proof (induction n)
  case (Suc n)
  show ?case
  proof (cases "anc ! n = t")
    case True
    then show ?thesis using Suc.prems pos_of_nth [of anc n] by (auto simp: take_Suc_conv_app_nth)
  next
    case False
    then show ?thesis using Suc by (simp add: take_Suc_conv_app_nth)
  qed
qed simp

lemma ref_ancestor_rep:
  assumes "rep b ts seen anc"
  shows "t \<in> set anc \<Longrightarrow> length anc < 31 \<Longrightarrow>
      \<exists>b'. ref_ancestor t b = (True, b') \<and> rep b' (ts @ [TokAnc (pos_of anc t)]) seen anc"
    and "\<not> (t \<in> set anc \<and> length anc < 31) \<Longrightarrow> ref_ancestor t b = (False, b)"
proof -
  have d: "wb_depth b = length anc" "distinct anc" and
    anc: "length anc < 31 \<Longrightarrow> \<forall>k < length anc. wb_ancestor b k = anc ! k"
    using assms by (auto simp: rep_def)
  note find = find_ancestor_eq [OF d(2) le_refl anc, of t]
  show "\<exists>b'. ref_ancestor t b = (True, b') \<and> rep b' (ts @ [TokAnc (pos_of anc t)]) seen anc"
    if "t \<in> set anc" "length anc < 31"
    using that find rep_push [OF assms, of "TokAnc (pos_of anc t)"]
    by (auto simp: ref_ancestor_def Let_def d(1))
  show "ref_ancestor t b = (False, b)" if "\<not> (t \<in> set anc \<and> length anc < 31)"
    using that find by (auto simp: ref_ancestor_def Let_def d(1))
qed

lemma length_tok_bytes: "length (tok_bytes M t) = length (tok_bytes N t)"
  by (cases t) (simp_all add: table_bytes_def)

lemma length_enc: "length (enc M ts) = length (enc N ts)"
  by (induction ts) (simp_all add: length_tok_bytes [of M _ N])

text \<open>Marking a table in the encoding.\<close>

lemma enc_unmarked: "i \<notin> set (table_ids ts) \<Longrightarrow> enc (insert i M) ts = enc M ts"
proof (induction ts)
  case (Cons t ts)
  then show ?case by (cases t) auto
qed simp

lemma split_table:
  "i \<in> set (table_ids ts) \<Longrightarrow> distinct (table_ids ts) \<Longrightarrow>
   \<exists>pre n post. ts = pre @ TokTable i n # post \<and> i \<notin> set (table_ids pre) \<and> i \<notin> set (table_ids post)"
proof (induction ts)
  case (Cons t ts)
  show ?case
  proof (cases "table_id t = [i]")
    case True
    then obtain n where "t = TokTable i n" by (cases t) auto
    then show ?thesis using Cons.prems by (intro exI [of _ "[]"]) auto
  next
    case False
    then have "i \<notin> set (table_id t)" by (cases t) auto
    then obtain pre n post where "ts = pre @ TokTable i n # post" "i \<notin> set (table_ids pre)"
      "i \<notin> set (table_ids post)"
      using Cons by auto
    then show ?thesis using \<open>i \<notin> set (table_id t)\<close> by (intro exI [of _ "t # pre"]) auto
  qed
qed simp

lemma table_bytes_tag:
  "table_bytes 5 n ! 0 = COMBINE_TYPE 5 (int (min n 31))" "table_bytes 5 n \<noteq> []"
  "(table_bytes 5 n)[0 := COMBINE_TYPE 6 (int (min n 31))] = table_bytes 6 n"
  by (auto simp: table_bytes_def min_def)

lemma enc_mark:
  assumes "i \<in> set (table_ids ts)" "distinct (table_ids ts)" "i \<notin> M"
  shows "tag_pos ts i < length (enc M ts)"
    "enc M ts ! tag_pos ts i AND 7 = word_of_int TYPE_TABLE"
    "(enc M ts)[tag_pos ts i := COMBINE_TYPE TYPE_TABLE_MARK (uint (drop_bit 3 (enc M ts ! tag_pos ts i)))] =
     enc (insert i M) ts"
proof -
  obtain pre n post where ts: "ts = pre @ TokTable i n # post" "i \<notin> set (table_ids pre)"
    "i \<notin> set (table_ids post)"
    using split_table [OF assms(1,2)] by blast
  have "table_id t \<noteq> [i]" if "t \<in> set pre" for t
    using that ts(2) by (induction pre) auto
  then have "takeWhile (\<lambda>t. table_id t \<noteq> [i]) ts = pre" by (simp add: ts(1) takeWhile_append)
  then have pos: "tag_pos ts i = length (enc M pre)" by (simp add: tag_pos_def length_enc [of M _ "{}"])
  have e: "enc M ts = enc M pre @ table_bytes 5 n @ enc M post"
    "enc (insert i M) ts = enc M pre @ table_bytes 6 n @ enc M post"
    using assms(3) ts by (simp_all add: enc_unmarked)
  have hd: "enc M ts ! tag_pos ts i = COMBINE_TYPE 5 (int (min n 31))"
    using table_bytes_tag [of n] by (simp add: e(1) pos nth_append)
  show "tag_pos ts i < length (enc M ts)" using table_bytes_tag(2) by (simp add: e(1) pos)
  have f: "uint (COMBINE_TYPE 5 (int (min n 31)) AND 7) = 5"
    "uint (drop_bit 3 (COMBINE_TYPE 5 (int (min n 31)))) = int (min n 31)"
    by (rule tag_fields; simp)+
  then show "enc M ts ! tag_pos ts i AND 7 = word_of_int TYPE_TABLE"
    unfolding hd by (simp add: word_uint_eq_iff)
  show "(enc M ts)[tag_pos ts i := COMBINE_TYPE TYPE_TABLE_MARK
      (uint (drop_bit 3 (enc M ts ! tag_pos ts i)))] = enc (insert i M) ts"
    unfolding hd f(2) using table_bytes_tag(2,3) [of n]
    by (simp add: e pos list_update_append del: table_bytes_tag)
qed

end
