(* ===== verification/SeriPack.thy ===== *)
theory SeriPack
  imports SeriTokens
begin

text \<open>
  The simulation: \<open>pack_one\<close>, started in a writer that represents an abstract state, returns
  and represents the state after the tokens of the walk.
\<close>

section \<open>References to objects already written\<close>

lemma tag_pos_append:
  "i \<in> set (table_ids ts) \<Longrightarrow> tag_pos (ts @ us) i = tag_pos ts i"
  using table_id_mem [of i ts] by (auto simp: tag_pos_def takeWhile_append)

lemma rep_ids: "rep b ts seen anc \<Longrightarrow> i < length seen \<Longrightarrow> i + 1 \<in> set (table_ids ts)"
  by (simp add: rep_def del: upt_Suc)

lemma addr_entry_ref:
  "i \<in> set (table_ids ts) \<Longrightarrow>
   addr_entry (ts @ [TokRef j]) i = (if i = j then None else addr_entry ts i)"
  by (auto simp: addr_entry_def tag_pos_append)

lemma find_ref_eq:
  assumes "distinct seen" "\<forall>j \<in> set is. j < length seen \<and> fst (wb_r b j) = seen ! j"
  shows "find_ref is t b = (if \<exists>j \<in> set is. seen ! j = t then Some (pos_of seen t) else None)"
  using assms(2)
proof (induction "is")
  case (Cons i "is")
  then show ?case using pos_of_nth [OF assms(1), of i] by auto
qed simp

text \<open>The bytes after a reference to \<open>i\<close>: its table is marked.\<close>

lemma mark_step:
  assumes "rep b ts seen anc" "i < length seen" "i + 1 \<notin> refd ts"
  shows "\<exists>b'. change_mark (addr_of (tag_pos ts (i + 1))) b = Ok b' \<and> blocks_ok b' \<and>
     wb_rest b' = wb_rest b \<and> flat b' = enc (insert (i + 1) (refd ts)) ts"
proof -
  have b: "blocks_ok b" "flat b = enc (refd ts) ts" "table_ids ts = [1..<Suc (length seen)]"
    using assms(1) by (simp_all add: rep_def del: upt_Suc)
  note m = enc_mark [OF rep_ids [OF assms(1,2)] _ assms(3)]
  have "distinct (table_ids ts)" by (simp add: b(3) del: upt_Suc)
  note m = m [OF this]
  show ?thesis
    using change_mark_flat [OF b(1), of "tag_pos ts (i + 1)"] m by (auto simp: b(2))
qed

lemma lookup_ref_rep:
  assumes r: "rep b ts seen anc" and t: "t \<in> set seen"
  defines "i \<equiv> pos_of seen t"
  shows "\<exists>b'. lookup_ref t b = Ok (i + 1, b') \<and> blocks_ok b' \<and>
     flat b' = enc (insert (i + 1) (refd ts)) ts \<and> wb_depth b' = wb_depth b \<and>
     wb_ancestor b' = wb_ancestor b \<and> wb_objectid b' = wb_objectid b \<and>
     refs_ok b' seen (ts @ [TokRef (i + 1)])"
proof -
  have b: "blocks_ok b" "flat b = enc (refd ts) ts" "wb_objectid b = length seen" "refs_ok b seen ts"
    "distinct seen"
    using r by (simp_all add: rep_def)
  have i: "i < length seen" "seen ! i = t" using pos_of_props(1,2) [OF t] by (simp_all add: i_def)
  have entry: "addr_entry (ts @ [TokRef (i + 1)]) (j + 1) =
      (if j = i then None else addr_entry ts (j + 1))" if "j < length seen" for j
    using addr_entry_ref [OF rep_ids [OF r that], of "i + 1"] by simp
  have idle: "refs_ok b seen (ts @ [TokRef (i + 1)])" "enc (insert (i + 1) (refd ts)) ts = flat b"
    if "i + 1 \<in> refd ts"
  proof -
    have "addr_entry ts (i + 1) = None" using that by (simp add: addr_entry_def)
    then have "addr_entry (ts @ [TokRef (i + 1)]) (j + 1) = addr_entry ts (j + 1)"
      if "j < length seen" for j
      using entry [OF that] by simp
    then show "refs_ok b seen (ts @ [TokRef (i + 1)])"
      using b(4) by (cases "length seen \<le> 32") (simp_all add: refs_ok_def)
    show "enc (insert (i + 1) (refd ts)) ts = flat b" using that by (simp add: b(2) insert_absorb)
  qed
  show ?thesis
  proof (cases "length seen \<le> 32")
    case True
    then have wr: "\<forall>j < length seen. wb_r b j = (seen ! j, addr_entry ts (j + 1))"
      using b(4) by (simp add: refs_ok_def)
    have f: "find_ref [0..<wb_objectid b] t b = Some i"
      using find_ref_eq [OF b(5), of "[0..<wb_objectid b]" b t] wr i by (auto simp: b(3) i_def)
    show ?thesis
    proof (cases "i + 1 \<in> refd ts")
      case in_refd: True
      then have "lookup_ref t b = Ok (i + 1, b)"
        using f wr i True by (simp add: lookup_ref_def b(3) addr_entry_def)
      then show ?thesis using idle [OF in_refd] b by auto
    next
      case False
      obtain b' where b': "change_mark (addr_of (tag_pos ts (i + 1))) b = Ok b'" "blocks_ok b'"
        "wb_rest b' = wb_rest b" "flat b' = enc (insert (i + 1) (refd ts)) ts"
        using mark_step [OF r i(1) False] by blast
      define b2 where "b2 = b'\<lparr>wb_r := (wb_r b')(i := (fst (wb_r b' i), None))\<rparr>"
      have "wb_r b' = wb_r b" using b'(3) by (simp add: wb_rest_def)
      moreover have "lookup_ref t b = Ok (i + 1, b2)"
        using f wr i True False b'(1)
        by (simp add: lookup_ref_def b(3) addr_entry_def b2_def)
      moreover have "refs_ok b2 seen (ts @ [TokRef (i + 1)])"
        using True wr entry i calculation(1) by (simp add: refs_ok_def b2_def)
      ultimately show ?thesis using b'(2-4) by (auto simp: b2_def wb_rest_def)
    qed
  next
    case False
    then have ids: "wb_ref_ids b t = Some (i + 1)"
      and addrs: "\<forall>j < length seen. wb_ref_addrs b (j + 1) = addr_entry ts (j + 1)"
      using b(4) t by (simp_all add: refs_ok_def i_def)
    show ?thesis
    proof (cases "i + 1 \<in> refd ts")
      case in_refd: True
      then have "lookup_ref t b = Ok (i + 1, b)"
        using ids addrs i False by (simp add: lookup_ref_def b(3) addr_entry_def)
      then show ?thesis using idle [OF in_refd] b by auto
    next
      case new: False
      obtain b' where b': "change_mark (addr_of (tag_pos ts (i + 1))) b = Ok b'" "blocks_ok b'"
        "wb_rest b' = wb_rest b" "flat b' = enc (insert (i + 1) (refd ts)) ts"
        using mark_step [OF r i(1) new] by blast
      define b2 where "b2 = b'\<lparr>wb_ref_addrs := (wb_ref_addrs b')(i + 1 := None)\<rparr>"
      have same: "wb_ref_addrs b' = wb_ref_addrs b" "wb_ref_ids b' = wb_ref_ids b"
        using b'(3) by (simp_all add: wb_rest_def)
      have "lookup_ref t b = Ok (i + 1, b2)"
        using ids addrs i False new b'(1)
        by (simp add: lookup_ref_def b(3) addr_entry_def b2_def)
      moreover have "refs_ok b2 seen (ts @ [TokRef (i + 1)])"
        using False addrs entry i b(4) by (simp add: refs_ok_def b2_def same)
      ultimately show ?thesis using b'(2-4) by (auto simp: b2_def wb_rest_def)
    qed
  qed
qed

lemma lookup_new:
  assumes "rep b ts seen anc" "t \<notin> set seen"
  shows "lookup_ref t b = Ok (0, b)"
proof (cases "length seen \<le> 32")
  case True
  then have "\<forall>j < length seen. wb_r b j = (seen ! j, addr_entry ts (j + 1))" "distinct seen"
    "wb_objectid b = length seen"
    using assms(1) by (simp_all add: rep_def refs_ok_def)
  moreover from this have "find_ref [0..<length seen] t b = None"
    using find_ref_eq [of seen "[0..<length seen]" b t] assms(2) by auto
  ultimately show ?thesis using True by (simp add: lookup_ref_def)
next
  case False
  then show ?thesis using assms by (simp add: lookup_ref_def rep_def refs_ok_def)
qed

lemma refs_ok_cong:
  "wb_r b' = wb_r b \<Longrightarrow> wb_ref_ids b' = wb_ref_ids b \<Longrightarrow> wb_ref_addrs b' = wb_ref_addrs b \<Longrightarrow>
   refs_ok b' seen ts = refs_ok b seen ts"
  by (simp add: refs_ok_def)

lemma ref_object_rep:
  assumes r: "rep b ts seen anc" and t: "t \<in> set seen"
  shows "\<exists>b'. ref_object t b = Ok (True, b') \<and> rep b' (ts @ [TokRef (pos_of seen t + 1)]) seen anc"
proof -
  let ?i = "pos_of seen t"
  obtain b1 where b1: "lookup_ref t b = Ok (?i + 1, b1)" "blocks_ok b1"
    "flat b1 = enc (insert (?i + 1) (refd ts)) ts" "wb_depth b1 = wb_depth b"
    "wb_ancestor b1 = wb_ancestor b" "wb_objectid b1 = wb_objectid b"
    "refs_ok b1 seen (ts @ [TokRef (?i + 1)])"
    using lookup_ref_rep [OF r t] by blast
  define b2 where "b2 = wb_integer (word_of_nat (?i + 1)) (wb_push [COMBINE_TYPE 7 31] b1)"
  have b2: "blocks_ok b2" "flat b2 = flat b1 @ COMBINE_TYPE 7 31 # int_bytes (word_of_nat (?i + 1))"
    "wb_rest b2 = wb_rest b1"
    using int_bytes_flat [of "wb_push [COMBINE_TYPE 7 31] b1" "word_of_nat (?i + 1)"] b1(2)
    by (simp_all add: b2_def)
  have "refs_ok b2 seen (ts @ [TokRef (?i + 1)])"
    using b1(7) b2(3) by (subst refs_ok_cong [of b2 b1]) (simp_all add: wb_rest_def)
  then have "rep b2 (ts @ [TokRef (?i + 1)]) seen anc"
    using r b1 b2 pos_of_props(1) [OF t] by (simp add: rep_def wb_rest_def)
  moreover have "ref_object t b = Ok (True, b2)" by (simp add: ref_object_def b1(1) b2_def)
  ultimately show ?thesis by blast
qed

section \<open>A new table\<close>

lemma fill_refs_frame:
  "wb_r (fill_refs is b) = wb_r b \<and> wb_blocks (fill_refs is b) = wb_blocks b \<and>
   wb_ptr (fill_refs is b) = wb_ptr b \<and> wb_len (fill_refs is b) = wb_len b \<and>
   wb_depth (fill_refs is b) = wb_depth b \<and> wb_ancestor (fill_refs is b) = wb_ancestor b \<and>
   wb_objectid (fill_refs is b) = wb_objectid b"
  by (induction "is" arbitrary: b) (simp_all add: Let_def split: prod.split)

lemma fill_refs_Cons:
  fixes i b
  defines "c \<equiv> b\<lparr>wb_ref_ids := (wb_ref_ids b)(fst (wb_r b i) := Some (i + 1))\<rparr>"
  defines "d \<equiv> (if snd (wb_r b i) \<noteq> None
      then c\<lparr>wb_ref_addrs := (wb_ref_addrs c)(i + 1 := snd (wb_r b i))\<rparr> else c)"
  shows "fill_refs (i # is) b = fill_refs is d" "wb_r d = wb_r b"
    "wb_ref_ids d = (wb_ref_ids b)(fst (wb_r b i) := Some (i + 1))"
    "wb_ref_addrs d = (if snd (wb_r b i) \<noteq> None then (wb_ref_addrs b)(i + 1 := snd (wb_r b i))
       else wb_ref_addrs b)"
  by (simp_all add: Let_def c_def d_def split: prod.split)

lemma fill_refs_ids:
  "distinct (map (\<lambda>i. fst (wb_r b i)) is) \<Longrightarrow>
   wb_ref_ids (fill_refs is b) t =
     (case find (\<lambda>i. fst (wb_r b i) = t) is of Some i \<Rightarrow> Some (i + 1) | None \<Rightarrow> wb_ref_ids b t)"
proof (induction "is" arbitrary: b)
  case (Cons i "is")
  have none: "find (\<lambda>j. fst (wb_r b j) = fst (wb_r b i)) is = None"
    using Cons.prems by (auto simp: find_None_iff image_iff)
  define d where "d = (let c = b\<lparr>wb_ref_ids := (wb_ref_ids b)(fst (wb_r b i) := Some (i + 1))\<rparr>
      in if snd (wb_r b i) \<noteq> None
         then c\<lparr>wb_ref_addrs := (wb_ref_addrs c)(i + 1 := snd (wb_r b i))\<rparr> else c)"
  note d = fill_refs_Cons [where i = i and b = b, folded d_def [unfolded Let_def]]
  have "wb_ref_ids (fill_refs is d) t =
      (case find (\<lambda>i. fst (wb_r b i) = t) is of Some i \<Rightarrow> Some (i + 1) | None \<Rightarrow> wb_ref_ids d t)"
    using Cons.IH [of d] Cons.prems by (simp add: d(2))
  then show ?case
    unfolding d(1) d(3) using none by (auto split: option.split)
qed simp

lemma fill_refs_addrs:
  "distinct is \<Longrightarrow> wb_ref_addrs (fill_refs is b) j =
     (if \<exists>i \<in> set is. j = i + 1 \<and> snd (wb_r b i) \<noteq> None then snd (wb_r b (j - 1))
      else wb_ref_addrs b j)"
proof (induction "is" arbitrary: b)
  case (Cons i "is")
  define d where "d = (let c = b\<lparr>wb_ref_ids := (wb_ref_ids b)(fst (wb_r b i) := Some (i + 1))\<rparr>
      in if snd (wb_r b i) \<noteq> None
         then c\<lparr>wb_ref_addrs := (wb_ref_addrs c)(i + 1 := snd (wb_r b i))\<rparr> else c)"
  note d = fill_refs_Cons [where i = i and b = b, folded d_def [unfolded Let_def]]
  have "wb_ref_addrs (fill_refs is d) j =
        (if \<exists>i \<in> set is. j = i + 1 \<and> snd (wb_r b i) \<noteq> None then snd (wb_r b (j - 1))
         else wb_ref_addrs d j)"
    using Cons.IH [of d] Cons.prems unfolding d(2) by simp
  then show ?case unfolding d(1) d(4) by auto
qed simp

text \<open>The table of references after a new table, for the tokens that will include its own.\<close>

lemma addr_entry_table:
  "i \<in> set (table_ids ts) \<Longrightarrow> addr_entry (ts @ [TokTable j n]) i = addr_entry ts i"
  by (simp add: addr_entry_def tag_pos_append)

lemma addr_entry_new:
  assumes "j \<notin> set (table_ids ts)" "j \<notin> refd ts" "flat b = enc (refd ts) ts"
  shows "addr_entry (ts @ [TokTable j n]) j = Some (addr_of (length (flat b)))"
proof -
  have "table_id t \<noteq> [j]" if "t \<in> set ts" for t
    using that assms(1) by (induction ts) auto
  then have "tag_pos (ts @ [TokTable j n]) j = length (enc {} ts)"
    by (simp add: tag_pos_def takeWhile_append)
  then show ?thesis using assms(2) by (simp add: addr_entry_def assms(3) length_enc [of "refd ts" ts "{}"])
qed

lemma mark_table_refs:
  fixes k
  assumes r: "refs_ok b seen ts" and ids: "table_ids ts = [1..<Suc (length seen)]"
    and d: "distinct (seen @ [t])" and n: "wb_objectid b = length seen"
    and ok: "blocks_ok b" and fl: "flat b = enc (refd ts) ts" and fresh: "length seen + 1 \<notin> refd ts"
  defines "ts' \<equiv> ts @ [TokTable (length seen + 1) k]"
  shows "blocks_ok (mark_table t b) \<and> flat (mark_table t b) = flat b \<and>
     wb_depth (mark_table t b) = wb_depth b \<and> wb_ancestor (mark_table t b) = wb_ancestor b \<and>
     wb_objectid (mark_table t b) = length seen + 1 \<and> refs_ok (mark_table t b) (seen @ [t]) ts'"
proof -
  define b0 where "b0 = b\<lparr>wb_objectid := length seen + 1\<rparr>"
  obtain a b1 where ab: "wb_address b0 = (a, b1)" by fastforce
  have "blocks_ok b0" "flat b0 = flat b" using ok by (simp_all add: b0_def)
  from wb_address_flat [OF this(1) ab] this(2)
  have b1: "blocks_ok b1" "flat b1 = flat b" "a = addr_of (length (flat b))" "wb_rest b1 = wb_rest b0"
    by simp_all
  have b1r: "wb_depth b1 = wb_depth b" "wb_ancestor b1 = wb_ancestor b" "wb_objectid b1 = length seen + 1"
    "wb_r b1 = wb_r b" "wb_ref_ids b1 = wb_ref_ids b" "wb_ref_addrs b1 = wb_ref_addrs b"
    using b1(4) by (simp_all add: wb_rest_def b0_def)
  have mem: "i < length seen \<Longrightarrow> i + 1 \<in> set (table_ids ts)" "length seen + 1 \<notin> set (table_ids ts)" for i
    by (simp_all add: ids del: upt_Suc)
  have old: "addr_entry ts' (i + 1) = addr_entry ts (i + 1)" if "i < length seen" for i
    unfolding ts'_def by (rule addr_entry_table [OF mem(1) [OF that]])
  have new: "addr_entry ts' (length seen + 1) = Some a"
    unfolding ts'_def b1(3) by (rule addr_entry_new [OF mem(2) fresh fl])
  consider "length seen < 32" | "length seen = 32" | "length seen > 32" by linarith
  then show ?thesis
  proof cases
    case 1
    then have m: "mark_table t b = b1\<lparr>wb_r := (wb_r b1)(length seen := (t, Some a))\<rparr>"
      using ab by (simp add: mark_table_def n Let_def b0_def)
    have "refs_ok (mark_table t b) (seen @ [t]) ts'"
      using r 1 old new by (auto simp: m refs_ok_def b1r nth_append less_Suc_eq)
    then show ?thesis using b1 b1r by (simp add: m)
  next
    case 2
    define c where "c = fill_refs [0..<32] (b1\<lparr>wb_ref_ids := (\<lambda>o'. None), wb_ref_addrs := (\<lambda>i. None)\<rparr>)"
    have wr: "\<forall>i < 32. wb_r b i = (seen ! i, addr_entry ts (i + 1))"
      using r 2 by (simp add: refs_ok_def)
    have c: "flat c = flat b" "blocks_ok c" "wb_depth c = wb_depth b" "wb_ancestor c = wb_ancestor b"
      "wb_objectid c = length seen + 1"
      using fill_refs_frame [of "[0..<32]" "b1\<lparr>wb_ref_ids := (\<lambda>o'. None), wb_ref_addrs := (\<lambda>i. None)\<rparr>"]
        b1 b1r flat_cong [of c b1]
      unfolding c_def by simp_all
    have "map (\<lambda>i. fst (wb_r b i)) [0..<32] = seen"
      using wr 2 by (simp add: list_eq_iff_nth_eq)
    then have dist: "distinct (map (\<lambda>i. fst (wb_r b1 i)) [0..<32])" using d by (simp add: b1r)
    have ids_c: "wb_ref_ids c u = (if u \<in> set seen then Some (pos_of seen u + 1) else None)" for u
    proof (cases "u \<in> set seen")
      case True
      have p: "pos_of seen u < 32" "seen ! pos_of seen u = u" using pos_of_props(1,2) [OF True] 2 by simp_all
      have "find (\<lambda>i. fst (wb_r b i) = u) [0..<32] = Some (pos_of seen u)"
        unfolding find_Some_iff
      proof (intro exI [of _ "pos_of seen u"] conjI allI impI)
        fix j assume j: "j < pos_of seen u"
        then have "seen ! j \<noteq> u"
          using p 2 d nth_eq_iff_index_eq [of seen j "pos_of seen u"] by auto
        then show "fst (wb_r b ([0..<32] ! j)) \<noteq> u" using wr j p by simp
      qed (use p wr in simp_all)
      then show ?thesis using True dist
        by (simp add: c_def fill_refs_ids b1r)
    next
      case False
      then have "find (\<lambda>i. fst (wb_r b i) = u) [0..<32] = None"
        using wr 2 by (auto simp: find_None_iff)
      then show ?thesis using False
        using dist by (simp add: c_def fill_refs_ids b1r)
    qed
    have addrs_c: "wb_ref_addrs c (i + 1) = addr_entry ts (i + 1)" if "i < 32" for i
      using that wr by (auto simp: c_def b1r fill_refs_addrs addr_entry_def)
    have m: "mark_table t b = c\<lparr>wb_ref_ids := (wb_ref_ids c)(t := Some (length seen + 1)),
                wb_ref_addrs := (wb_ref_addrs c)(length seen + 1 := Some a)\<rparr>"
      using ab 2 by (simp add: mark_table_def n Let_def b0_def c_def)
    have "refs_ok (mark_table t b) (seen @ [t]) ts'"
      using 2 d ids_c addrs_c old new
      by (auto simp: m refs_ok_def less_Suc_eq pos_of_props(3,4))
    then show ?thesis using c by (simp add: m)
  next
    case 3
    then have m: "mark_table t b = b1\<lparr>wb_ref_ids := (wb_ref_ids b1)(t := Some (length seen + 1)),
                wb_ref_addrs := (wb_ref_addrs b1)(length seen + 1 := Some a)\<rparr>"
      using ab by (simp add: mark_table_def n Let_def b0_def)
    have "refs_ok (mark_table t b) (seen @ [t]) ts'"
      using 3 d r old new
      by (auto simp: m refs_ok_def b1r less_Suc_eq pos_of_props(3,4))
    then show ?thesis using b1 b1r by (simp add: m)
  qed
qed

lemma wb_array_size_flat:
  assumes "blocks_ok b"
  shows "blocks_ok (wb_array_size (int k) b) \<and> wb_rest (wb_array_size (int k) b) = wb_rest b \<and>
     flat (wb_array_size (int k) b) = flat b @ table_bytes 5 k"
  using assms int_bytes_flat [of "wb_push [COMBINE_TYPE 5 31] b" "word_of_nat k"]
  by (simp add: wb_array_size_def table_bytes_def)

lemma new_table_rep:
  assumes r: "rep b ts seen anc" and t: "t \<notin> set seen"
  shows "rep (wb_array_size (int k) (mark_table t (enter_table t b)))
     (ts @ [TokTable (length seen + 1) k]) (seen @ [t]) (anc @ [t])"
proof -
  define b0 where "b0 = enter_table t b"
  have b0: "blocks_ok b0" "flat b0 = enc (refd ts) ts" "wb_objectid b0 = length seen"
    "wb_depth b0 = length (anc @ [t])" "refs_ok b0 seen ts"
    "\<forall>k < min 31 (length (anc @ [t])). wb_ancestor b0 k = (anc @ [t]) ! k"
    using r by (auto simp: b0_def enter_table_def Let_def rep_def refs_ok_def nth_append less_Suc_eq)
  have ids: "table_ids ts = [1..<Suc (length seen)]" "distinct (seen @ [t])"
    "length seen + 1 \<notin> refd ts" "distinct (anc @ [t])" "set (anc @ [t]) \<subseteq> set (seen @ [t])"
    "refd ts \<subseteq> {1..length (seen @ [t])}"
    using r t by (auto simp: rep_def)
  define b1 where "b1 = mark_table t b0"
  define ts' where "ts' = ts @ [TokTable (length seen + 1) k]"
  have b1: "blocks_ok b1" "flat b1 = flat b0" "wb_depth b1 = wb_depth b0"
    "wb_ancestor b1 = wb_ancestor b0" "wb_objectid b1 = length (seen @ [t])"
    "refs_ok b1 (seen @ [t]) ts'"
    using mark_table_refs [OF b0(5) ids(1,2) b0(3,1,2) ids(3), of k] by (simp_all add: b1_def ts'_def)
  define b2 where "b2 = wb_array_size (int k) b1"
  have b2: "blocks_ok b2" "wb_rest b2 = wb_rest b1" "flat b2 = flat b1 @ table_bytes 5 k"
    using wb_array_size_flat [OF b1(1), of k] by (simp_all add: b2_def)
  have "refs_ok b2 (seen @ [t]) ts'"
    using b1(6) b2(2) by (subst refs_ok_cong [of b2 b1]) (simp_all add: wb_rest_def)
  moreover have "flat b2 = enc (refd ts') ts'"
    using ids(3) by (simp add: b2(3) b1(2) b0(2) ts'_def)
  moreover have "table_ids ts' = [1..<Suc (length (seen @ [t]))]" by (simp add: ts'_def ids(1))
  moreover have "refd ts' = refd ts" by (simp add: ts'_def)
  moreover have "wb_depth b2 = wb_depth b1" "wb_objectid b2 = wb_objectid b1"
    "wb_ancestor b2 = wb_ancestor b1"
    using b2(2) by (simp_all add: wb_rest_def)
  ultimately have "rep b2 ts' (seen @ [t]) (anc @ [t])"
    using b2(1) b1 b0(4,6) ids by (simp only: rep_def simp_thms)
  then show ?thesis by (simp add: b2_def b1_def b0_def ts'_def)
qed

lemma leave_rep:
  "rep b ts seen (anc @ [t]) \<Longrightarrow> rep (b\<lparr>wb_depth := wb_depth b - 1\<rparr>) ts seen anc"
  by (auto simp: rep_def refs_ok_def nth_append)

section \<open>The simulation\<close>

lemma rep_nil: "rep b ts seen anc \<Longrightarrow> rep (wb_nil b) (ts @ [TokNil]) seen anc"
  unfolding wb_nil_def by (rule rep_push) simp_all

lemma pack_tokens:
  "apack fuel H anc seen v = Some (us, s) \<Longrightarrow> rep b ts seen anc \<Longrightarrow>
   \<exists>b'. pack_one fuel H v b = Ok b' \<and> rep b' (ts @ us) s anc"
  "atable fuel H anc seen t = Some (us, s) \<Longrightarrow> rep b ts seen anc \<Longrightarrow> t \<notin> set seen \<Longrightarrow>
   \<exists>b'. wb_table fuel H t (enter_table t b) = Ok b' \<and> rep b' (ts @ us) s (anc @ [t])"
  "alist fuel H anc seen vs = Some (us, s) \<Longrightarrow> rep b ts seen anc \<Longrightarrow>
   \<exists>b'. array_loop fuel H vs b = Ok b' \<and> rep b' (ts @ us) s anc"
  "apairs fuel H anc seen n ps = Some (us, s) \<Longrightarrow> rep b ts seen anc \<Longrightarrow>
   \<exists>b'. pairs_loop fuel H n ps b = Ok b' \<and> rep b' (ts @ us) s anc"
proof (induction fuel H anc seen v and fuel H anc seen t and fuel H anc seen vs
    and fuel H anc seen n ps arbitrary: us s b ts and us s b ts and us s b ts and us s b ts
    rule: apack_atable_alist_apairs.induct)
  case (1 fuel H anc seen)
  then show ?case using rep_nil by auto
next
  case (2 fuel H anc seen v)
  then show ?case by (auto simp: wb_boolean_def intro!: rep_push)
next
  case (3 fuel H anc seen x)
  then show ?case using rep_integer by auto
next
  case (4 fuel H anc seen x)
  then show ?case by (auto simp: wb_real_def intro!: rep_push2)
next
  case (5 fuel H anc seen str)
  then show ?case using rep_string [of b ts seen anc str] by (auto split: if_splits)
next
  case (6 fuel H anc seen p)
  then show ?case by (auto simp: wb_pointer_def intro!: rep_push2)
next
  case (7 fuel H anc seen p)
  then show ?case by (auto simp: wb_pointer_def intro!: rep_push2)
next
  case (10 fuel H anc seen t)
  show ?case
  proof (cases "t \<in> set anc \<and> length anc < 31")
    case True
    then show ?thesis using "10.prems" ref_ancestor_rep(1) [OF "10.prems"(2), of t] by auto
  next
    case no_anc: False
    note ra = ref_ancestor_rep(2) [OF "10.prems"(2) no_anc]
    show ?thesis
    proof (cases "t \<in> set seen")
      case True
      then show ?thesis
        using "10.prems" no_anc ra ref_object_rep [OF "10.prems"(2) True] by auto
    next
      case False
      then have at: "atable fuel H anc seen t = Some (us, s)" using "10.prems"(1) no_anc by auto
      obtain b' where b': "wb_table fuel H t (enter_table t b) = Ok b'" "rep b' (ts @ us) s (anc @ [t])"
        using "10.IH" [OF no_anc False at "10.prems"(2) False] by blast
      have "ref_object t b = Ok (False, b)"
        using lookup_new [OF "10.prems"(2) False] by (simp add: ref_object_def)
      then show ?thesis using ra b' leave_rep [OF b'(2)] by simp
    qed
  qed
next
  case (12 fuel H anc seen t)
  show ?case
  proof (cases "lt_metapairs (H t)")
    case None
    define n where "n = length (lt_array (H t))"
    obtain us1 s1 us2 where w: "n < 2 ^ 31"
      "alist fuel H (anc @ [t]) (seen @ [t]) (lt_array (H t)) = Some (us1, s1)"
      "apairs fuel H (anc @ [t]) s1 (int n) (lt_pairs (H t)) = Some (us2, s)"
      "us = TokTable (length seen + 1) n # us1 @ us2 @ [TokNil]"
      using "12.prems"(1) None by (auto simp: n_def Let_def split: if_splits option.splits prod.splits)
    note r0 = new_table_rep [OF "12.prems"(2,3), of n]
    obtain b1 where b1: "array_loop fuel H (lt_array (H t))
        (wb_array_size (int n) (mark_table t (enter_table t b))) = Ok b1"
      "rep b1 ((ts @ [TokTable (length seen + 1) n]) @ us1) s1 (anc @ [t])"
      using "12.IH"(1) [OF None n_def w(1) w(2) r0] by blast
    obtain b2 where b2: "pairs_loop fuel H (int n) (lt_pairs (H t)) b1 = Ok b2"
      "rep b2 (((ts @ [TokTable (length seen + 1) n]) @ us1) @ us2) s (anc @ [t])"
      using "12.IH"(2) [OF None n_def w(1) w(2) refl w(3) b1(2)] by blast
    have "wb_table (Suc fuel) H t (enter_table t b) = Ok (wb_nil b2)"
      using None b1(1) b2(1) w(1) by (simp add: n_def Let_def size_to_int_small)
    then show ?thesis using rep_nil [OF b2(2)] w(4) by simp
  next
    case (Some ps)
    obtain us1 where w: "apairs fuel H (anc @ [t]) (seen @ [t]) 0 ps = Some (us1, s)"
      "us = TokTable (length seen + 1) 0 # us1 @ [TokNil]"
      using "12.prems"(1) Some by (auto split: option.splits prod.splits)
    note r0 = new_table_rep [OF "12.prems"(2,3), of 0]
    obtain b1 where b1: "pairs_loop fuel H 0 ps
        (wb_array_size (int 0) (mark_table t (enter_table t b))) = Ok b1"
      "rep b1 ((ts @ [TokTable (length seen + 1) 0]) @ us1) s (anc @ [t])"
      using "12.IH"(3) [OF Some w(1) r0] by blast
    have "wb_table (Suc fuel) H t (enter_table t b) = Ok (wb_nil b1)"
      using Some b1(1) by (simp add: Let_def wb_array_size_def)
    then show ?thesis using rep_nil [OF b1(2)] w(2) by simp
  qed
next
  case (13 fuel H anc seen)
  then show ?case by auto
next
  case (14 fuel H anc seen v vs)
  obtain us1 s1 us2 where w: "apack fuel H anc seen v = Some (us1, s1)"
    "alist fuel H anc s1 vs = Some (us2, s)" "us = us1 @ us2"
    using "14.prems"(1) by (auto split: option.splits prod.splits)
  obtain b1 where b1: "pack_one fuel H v b = Ok b1" "rep b1 (ts @ us1) s1 anc"
    using "14.IH"(1) [OF w(1) "14.prems"(2)] by blast
  obtain b2 where "array_loop fuel H vs b1 = Ok b2" "rep b2 ((ts @ us1) @ us2) s anc"
    using "14.IH"(2) [OF w(1) refl w(2) b1(2)] by blast
  then show ?case using b1(1) w(3) by simp
next
  case (15 fuel H anc seen n)
  then show ?case by auto
next
  case (16 fuel H anc seen n k v ps)
  show ?case
  proof (cases "in_array_part n k")
    case True
    then show ?thesis using "16.IH"(1) [OF True _ "16.prems"(2)] "16.prems"(1) by simp
  next
    case False
    obtain us1 s1 us2 s2 us3 where w: "apack fuel H anc seen k = Some (us1, s1)"
      "apack fuel H anc s1 v = Some (us2, s2)" "apairs fuel H anc s2 n ps = Some (us3, s)"
      "us = us1 @ us2 @ us3"
      using "16.prems"(1) False by (auto split: option.splits prod.splits)
    obtain b1 where b1: "pack_one fuel H k b = Ok b1" "rep b1 (ts @ us1) s1 anc"
      using "16.IH"(2) [OF False w(1) "16.prems"(2)] by blast
    obtain b2 where b2: "pack_one fuel H v b1 = Ok b2" "rep b2 ((ts @ us1) @ us2) s2 anc"
      using "16.IH"(3) [OF False w(1) refl w(2) b1(2)] by blast
    obtain b3 where "pairs_loop fuel H n ps b2 = Ok b3" "rep b3 (((ts @ us1) @ us2) @ us3) s anc"
      using "16.IH"(4) [OF False w(1) refl w(2) refl w(3) b2(2)] by blast
    then show ?thesis using False b1(1) b2(1) w(4) by simp
  qed
qed auto

end
