(* ===== verification/SeriScan.thy ===== *)
theory SeriScan
  imports SeriPack
begin

text \<open>
  Reading back what was written: the reader decodes every token, and following the walk of the
  writer it rebuilds the tables. \<open>ren\<close> renames a table to the number it gets, its place among
  the tables of the walk; \<open>entries\<close> is what a table must have been given.
\<close>

section \<open>The buffer of the reader\<close>

text \<open>The bytes still to be read are \<open>bs\<close>.\<close>

definition reads :: "read_block \<Rightarrow> byte list \<Rightarrow> bool" where
  "reads rb bs \<longleftrightarrow> 0 \<le> rb_ptr rb \<and> rb_ptr rb + rb_len rb = int (length (rb_buffer rb)) \<and>
     0 \<le> rb_len rb \<and> drop (nat (rb_ptr rb)) (rb_buffer rb) = bs"

definition adv :: "nat \<Rightarrow> read_block \<Rightarrow> read_block" where
  "adv n rb = rb\<lparr>rb_ptr := rb_ptr rb + int n, rb_len := rb_len rb - int n\<rparr>"

lemma adv_frame [simp]:
  "rb_buffer (adv n rb) = rb_buffer rb" "rb_depth (adv n rb) = rb_depth rb"
  "rb_objectid (adv n rb) = rb_objectid rb" "rb_ancestor (adv n rb) = rb_ancestor rb"
  "rb_refs (adv n rb) = rb_refs rb" "rb_stack (adv n rb) = rb_stack rb"
  "rb_tables (adv n rb) = rb_tables rb"
  by (simp_all add: adv_def)

lemma adv_adv [simp]: "adv m (adv n rb) = adv (n + m) rb"
  by (simp add: adv_def)

lemma reads_len: "reads rb bs \<Longrightarrow> rb_len rb = int (length bs)"
  by (auto simp: reads_def)

lemma reads_adv: "reads rb (xs @ ys) \<Longrightarrow> reads (adv (length xs) rb) ys"
proof -
  assume r: "reads rb (xs @ ys)"
  have "drop (nat (rb_ptr rb + int (length xs))) (rb_buffer rb) = drop (length xs) (xs @ ys)"
    using r by (simp add: reads_def nat_add_distrib drop_drop [symmetric] add.commute)
  then show ?thesis using r reads_len [OF r] by (simp add: reads_def adv_def)
qed

lemma rb_read_adv:
  assumes "reads rb (xs @ ys)"
  shows "rb_read (int (length xs)) rb = (Some (rb_ptr rb), adv (length xs) rb)"
    "fetch (rb_buffer rb) (rb_ptr rb) (int (length xs)) = Ok xs"
proof -
  show "rb_read (int (length xs)) rb = (Some (rb_ptr rb), adv (length xs) rb)"
    using reads_len [OF assms] by (simp add: rb_read_def adv_def)
  show "fetch (rb_buffer rb) (rb_ptr rb) (int (length xs)) = Ok xs"
    using assms reads_len [OF assms] by (simp add: fetch_def reads_def)
qed

lemma rb_take_adv:
  assumes "reads rb (xs @ ys)" "n = int (length xs)"
  shows "rb_take n rb = Ok (xs, adv (length xs) rb)"
  using rb_read_adv [OF assms(1)] by (simp add: rb_take_def assms(2))

lemma rb_take_1: "reads rb (x # ys) \<Longrightarrow> rb_take 1 rb = Ok ([x], adv 1 rb)"
  using rb_take_adv [of rb "[x]" ys 1] by simp

lemma reads_push [simp]: "reads (push v rb) bs = reads rb bs"
  by (simp add: reads_def push_def)

section \<open>Numbers\<close>

lemma uint_eq_sint:
  assumes "0 \<le> sint (v :: 64 word)"
  shows "uint v = sint v"
proof -
  have "sint v < 2 ^ 63" using sint_less [of v] by simp
  then have "uint (word_of_int (sint v) :: 64 word) = sint v"
    using assms by (simp only: unsigned_of_int) (simp add: take_bit_int_eq_self)
  then show ?thesis by simp
qed

lemma ucast_back:
  assumes "0 \<le> sint (v :: 64 word)" "sint v < 2 ^ LENGTH('b::len)" "LENGTH('b) \<le> 64"
  shows "ucast (ucast v :: 'b word) = v"
proof -
  have "uint v < 2 ^ LENGTH('b)" using assms uint_eq_sint by simp
  then show ?thesis
    by (simp add: word_uint_eq_iff unsigned_ucast_eq unsigned_take_bit_eq take_bit_int_eq_self)
qed

lemma scast_32:
  assumes "sint v = sint (ucast v :: 32 word)"
  shows "scast (ucast v :: 32 word) = (v :: 64 word)"
  by (simp only: scast_eq assms [symmetric]) simp

lemma int_bytes_shape:
  "\<exists>c bs. int_bytes v = COMBINE_TYPE 1 c # bs \<and> 0 \<le> c \<and> c < 8"
  by (auto simp: int_bytes_def)

text \<open>\<open>get_integer\<close> reads back what \<open>wb_integer\<close> wrote.\<close>

lemma get_integer_bytes:
  assumes "reads rb (int_bytes v @ ys)" "int_bytes v = COMBINE_TYPE 1 c # bs" "0 \<le> c" "c < 8"
  shows "get_integer c (adv 1 rb) = Ok (v, adv (length (int_bytes v)) rb)"
proof -
  have f: "uint (drop_bit 3 (COMBINE_TYPE 1 k)) = k" if "0 \<le> k" "k < 8" for k
    using that by (intro tag_fields) simp_all
  have step: ?thesis if p: "int_bytes v = COMBINE_TYPE 1 k # p" "0 \<le> k" "k < 8"
    and get: "reads (adv 1 rb) (p @ ys) \<Longrightarrow> get_integer k (adv 1 rb) = Ok (v, adv (length p) (adv 1 rb))"
    for k p
  proof -
    have "COMBINE_TYPE 1 k = COMBINE_TYPE 1 c" using p(1) assms(2) by simp
    then have "k = c" using f [OF p(2,3)] f [OF assms(3,4)] by metis
    moreover have "reads (adv 1 rb) (p @ ys)"
      using assms(1) p(1) reads_adv [of rb "[COMBINE_TYPE 1 k]" "p @ ys"] by simp
    ultimately show ?thesis using get p(1) by simp
  qed
  consider "v = 0" | "v \<noteq> 0" "sint v \<noteq> sint (ucast v :: 32 word)"
    | "v \<noteq> 0" "sint v = sint (ucast v :: 32 word)" "sint v < 0"
    | "v \<noteq> 0" "sint v = sint (ucast v :: 32 word)" "0 \<le> sint v" "sint v < 0x100"
    | "v \<noteq> 0" "sint v = sint (ucast v :: 32 word)" "0x100 \<le> sint v" "sint v < 0x10000"
    | "v \<noteq> 0" "sint v = sint (ucast v :: 32 word)" "0x10000 \<le> sint v"
    by linarith
  then show ?thesis
  proof cases
    case 1
    show ?thesis by (rule step [of 0 "[]"]) (simp_all add: 1 int_bytes_def get_integer_def)
  next
    case 2
    show ?thesis
      by (rule step [of 6 "le_bytes 8 v"])
        (use 2 in \<open>simp_all add: int_bytes_def get_integer_def rb_take_adv le_word_inverse\<close>)
  next
    case 3
    show ?thesis
      by (rule step [of 4 "le_bytes 4 (ucast v :: 32 word)"])
        (use 3 scast_32 [OF 3(2)] in
          \<open>simp_all add: int_bytes_def get_integer_def rb_take_adv le_word_inverse del: scast_id\<close>)
  next
    case 4
    show ?thesis
      by (rule step [of 1 "le_bytes 1 (ucast v :: 8 word)"])
        (use 4 ucast_back [of v, where ?'b = 8] rb_take_1 [of "adv 1 rb" "ucast v" ys] in
          \<open>simp_all add: int_bytes_def get_integer_def rb_take_adv le_word_inverse\<close>)
  next
    case 5
    show ?thesis
      by (rule step [of 2 "le_bytes 2 (ucast v :: 16 word)"])
        (use 5 ucast_back [of v, where ?'b = 16] in
          \<open>simp_all add: int_bytes_def get_integer_def rb_take_adv le_word_inverse\<close>)
  next
    case 6
    show ?thesis
      by (rule step [of 4 "le_bytes 4 (ucast v :: 32 word)"])
        (use 6 scast_32 [OF 6(2)] in
          \<open>simp_all add: int_bytes_def get_integer_def rb_take_adv le_word_inverse\<close>)
  qed
qed

lemma get_extend_bytes:
  assumes "reads rb (int_bytes (word_of_nat n) @ ys)" "n < 2 ^ 31"
  shows "get_extend_integer rb = Ok (int n, adv (length (int_bytes (word_of_nat n))) rb)"
proof -
  let ?v = "word_of_nat n :: 64 word"
  obtain c bs where i: "int_bytes ?v = COMBINE_TYPE 1 c # bs" "0 \<le> c" "c < 8"
    using int_bytes_shape by blast
  have t: "uint (COMBINE_TYPE 1 c AND 7) = 1" "uint (drop_bit 3 (COMBINE_TYPE 1 c)) = c"
    using i by (intro tag_fields; simp)+
  then have t7: "COMBINE_TYPE 1 c AND 7 = 1" by (simp add: word_uint_eq_iff)
  have s: "sint (ucast ?v :: 32 word) = int n"
  proof -
    have "(ucast ?v :: 32 word) = word_of_nat n"
      by (simp add: word_uint_eq_iff unsigned_ucast_eq unsigned_of_nat take_bit_nat_def of_nat_mod take_bit_eq_mod mod_mod_cancel)
    then show ?thesis using assms(2) by (simp add: signed_of_nat signed_take_bit_int_eq_self)
  qed
  show ?thesis
    using rb_take_1 [of rb "COMBINE_TYPE 1 c" "bs @ ys"] assms(1) get_integer_bytes [OF assms(1) i] i t t7 s
    by (simp add: get_extend_integer_def Let_def)
qed

section \<open>Scalars\<close>

lemma unpack_tag:
  assumes "reads rb (COMBINE_TYPE t c # ys)" "0 \<le> t" "t < 8" "0 \<le> c" "c < 32"
  shows "unpack_one (Suc fuel) rb = push_value fuel t c (adv 1 rb)" "reads (adv 1 rb) ys"
  using rb_take_1 [OF assms(1)] tag_fields [OF assms(2-5)] reads_adv [of rb "[COMBINE_TYPE t c]" ys] assms(1)
  by simp_all

declare unpack_one.simps [simp del]

lemma get_buffer_bytes:
  assumes "reads rb (s @ ys)"
  shows "get_buffer (int (length s)) rb = Ok (push (LStr s) (adv (length s) rb))"
  using rb_read_adv [OF assms] by (simp add: get_buffer_def)

primrec scalar_tok :: "lua_value \<Rightarrow> token option" where
  "scalar_tok LNil = Some TokNil"
| "scalar_tok (LBool v) = Some (TokBool v)"
| "scalar_tok (LInt x) = Some (TokInt x)"
| "scalar_tok (LReal x) = Some (TokReal x)"
| "scalar_tok (LStr s) = (if length s < 2 ^ 31 then Some (TokStr s) else None)"
| "scalar_tok (LPtr p) = Some (TokPtr p)"
| "scalar_tok (LCFun p) = Some (TokCFun p)"
| "scalar_tok LClosure = None"
| "scalar_tok (LTable t) = None"
| "scalar_tok (LOther s) = None"

lemma apack_scalar:
  assumes "apack fuel H anc seen v = Some (us, s)" "\<And>t. v \<noteq> LTable t"
  shows "\<exists>tok. scalar_tok v = Some tok \<and> us = [tok] \<and> s = seen"
  using assms by (cases v) (auto split: if_splits)

lemma read_string:
  assumes "length s < 2 ^ 31" "reads rb (str_bytes s @ ys)"
  shows "unpack_one (Suc fuel) rb = Ok (push (LStr s) (adv (length (str_bytes s)) rb))"
proof -
  let ?n = "length s"
  consider "?n < 32" | "32 \<le> ?n" "?n < 0x10000" | "0x10000 \<le> ?n" by linarith
  then show ?thesis
  proof cases
    case 1
    then have r: "reads rb (COMBINE_TYPE 3 (int ?n) # s @ ys)" using assms(2) by (simp add: str_bytes_def)
    show ?thesis
      using unpack_tag [OF r] get_buffer_bytes [of "adv 1 rb" s ys] 1
      by (simp add: str_bytes_def)
  next
    case 2
    define w where "w = (word_of_nat ?n :: 16 word)"
    have r: "reads rb (COMBINE_TYPE 4 2 # le_bytes 2 w @ s @ ys)"
      using assms(2) 2 by (simp add: str_bytes_def w_def)
    have r1: "reads (adv 1 rb) (le_bytes 2 w @ s @ ys)" using unpack_tag(2) [OF r] by simp
    have r2: "reads (adv 3 rb) (s @ ys)" using reads_adv [OF r1] by (simp add: eval_nat_numeral)
    have t: "rb_take 2 (adv 1 rb) = Ok (le_bytes 2 w, adv 3 rb)"
      using rb_take_adv [OF r1, of 2] by (simp add: eval_nat_numeral)
    have w: "uint w = int ?n" using 2 by (simp add: w_def unsigned_of_nat take_bit_nat_eq_self)
    have "unpack_one (Suc fuel) rb = push_value fuel 4 2 (adv 1 rb)" using unpack_tag(1) [OF r] by simp
    also have "\<dots> = get_buffer (uint w) (adv 3 rb)"
      using t by (simp add: le_word_inverse)
    finally have u: "unpack_one (Suc fuel) rb = get_buffer (int ?n) (adv 3 rb)" by (simp add: w)
    have "length (str_bytes s) = 3 + ?n" using 2 by (simp add: str_bytes_def)
    then show ?thesis using get_buffer_bytes [OF r2] u by simp
  next
    case 3
    define w where "w = (word_of_nat ?n :: 32 word)"
    have r: "reads rb (COMBINE_TYPE 4 4 # le_bytes 4 w @ s @ ys)"
      using assms(2) 3 by (simp add: str_bytes_def w_def)
    have r1: "reads (adv 1 rb) (le_bytes 4 w @ s @ ys)" using unpack_tag(2) [OF r] by simp
    have r2: "reads (adv 5 rb) (s @ ys)" using reads_adv [OF r1] by (simp add: eval_nat_numeral)
    have t: "rb_take 4 (adv 1 rb) = Ok (le_bytes 4 w, adv 5 rb)"
      using rb_take_adv [OF r1, of 4] by (simp add: eval_nat_numeral)
    have w: "sint w = int ?n"
      using assms(1) by (simp add: w_def signed_of_nat signed_take_bit_int_eq_self)
    have "unpack_one (Suc fuel) rb = push_value fuel 4 4 (adv 1 rb)" using unpack_tag(1) [OF r] by simp
    also have "\<dots> = get_buffer (sint w) (adv 5 rb)"
      using t by (simp add: le_word_inverse)
    finally have u: "unpack_one (Suc fuel) rb = get_buffer (int ?n) (adv 5 rb)" by (simp add: w)
    have "length (str_bytes s) = 5 + ?n" using 3 by (simp add: str_bytes_def)
    then show ?thesis using get_buffer_bytes [OF r2] u by simp
  qed
qed

lemma read_scalar:
  assumes "scalar_tok v = Some tok" "reads rb (tok_bytes M tok @ ys)"
  shows "unpack_one (Suc fuel) rb = Ok (push v (adv (length (tok_bytes M tok)) rb))"
proof (cases v)
  case (LInt x)
  obtain c bs where i: "int_bytes x = COMBINE_TYPE 1 c # bs" "0 \<le> c" "c < 8"
    using int_bytes_shape by blast
  have tok: "tok = TokInt x" using assms LInt by simp
  have r: "reads rb (int_bytes x @ ys)" using assms(2) tok by simp
  then have "reads rb (COMBINE_TYPE 1 c # bs @ ys)" using i by simp
  from unpack_tag(1) [OF this] show ?thesis
    using get_integer_bytes [OF r i] i tok LInt by simp
next
  case (LStr s)
  then have "length s < 2 ^ 31" "tok = TokStr s" using assms(1) by (auto split: if_splits)
  then show ?thesis using assms(2) LStr read_string [of s rb ys] by simp
next
  case (LReal x)
  have tok: "tok = TokReal x" using assms(1) LReal by simp
  have r: "reads rb (COMBINE_TYPE 1 8 # le_bytes 8 x @ ys)" using assms(2) tok by simp
  have "reads (adv 1 rb) (le_bytes 8 x @ ys)" using unpack_tag(2) [OF r] by simp
  then have "rb_take 8 (adv 1 rb) = Ok (le_bytes 8 x, adv 8 (adv 1 rb))"
    using rb_take_adv [of "adv 1 rb" "le_bytes 8 x" ys 8] by simp
  then show ?thesis
    using unpack_tag(1) [OF r, of fuel] tok LReal
    by (simp add: get_real_def le_word_inverse)
next
  case (LPtr x)
  have tok: "tok = TokPtr x" using assms(1) LPtr by simp
  have r: "reads rb (COMBINE_TYPE 2 0 # le_bytes 8 x @ ys)" using assms(2) tok by simp
  have "reads (adv 1 rb) (le_bytes 8 x @ ys)" using unpack_tag(2) [OF r] by simp
  then have "rb_take 8 (adv 1 rb) = Ok (le_bytes 8 x, adv 8 (adv 1 rb))"
    using rb_take_adv [of "adv 1 rb" "le_bytes 8 x" ys 8] by simp
  then show ?thesis
    using unpack_tag(1) [OF r, of fuel] tok LPtr
    by (simp add: get_pointer_def le_word_inverse)
next
  case (LCFun x)
  have tok: "tok = TokCFun x" using assms(1) LCFun by simp
  have r: "reads rb (COMBINE_TYPE 2 1 # le_bytes 8 x @ ys)" using assms(2) tok by simp
  have "reads (adv 1 rb) (le_bytes 8 x @ ys)" using unpack_tag(2) [OF r] by simp
  then have "rb_take 8 (adv 1 rb) = Ok (le_bytes 8 x, adv 8 (adv 1 rb))"
    using rb_take_adv [of "adv 1 rb" "le_bytes 8 x" ys 8] by simp
  then show ?thesis
    using unpack_tag(1) [OF r, of fuel] tok LCFun
    by (simp add: get_pointer_def le_word_inverse)
next
  case LNil
  then show ?thesis
    using assms unpack_tag(1) [of rb 0 0 ys fuel] by simp
next
  case (LBool b)
  then show ?thesis
    using assms unpack_tag(1) [of rb 0 "if b then 2 else 1" ys fuel]
    by auto
qed (use assms in simp_all)

end
