(* ===== verification/SeriRound.thy ===== *)
theory SeriRound
  imports SeriScan "HOL-Library.Sublist"
begin

text \<open>
  What the reader makes of the tokens: reading the bytes of the walk pushes the value and makes
  the tables of the walk, in the order the walk met them. \<open>ren\<close> renames a table to the number it
  gets, its place in that order; \<open>entries\<close> is what a table is given.
\<close>

section \<open>What must be read\<close>

definition ren :: "nat list \<Rightarrow> lua_value \<Rightarrow> lua_value" where
  "ren F v = (case v of LTable t \<Rightarrow> LTable (pos_of F t) | _ \<Rightarrow> v)"

lemma ren_table [simp]: "ren F (LTable t) = LTable (pos_of F t)"
  by (simp add: ren_def)

lemma ren_scalar: "(\<And>t. v \<noteq> LTable t) \<Longrightarrow> ren F v = v"
  by (cases v) (auto simp: ren_def)

primrec arr_entries :: "nat list \<Rightarrow> int \<Rightarrow> lua_value list \<Rightarrow> new_table" where
  "arr_entries F i [] = []"
| "arr_entries F i (v # vs) = (LInt (word_of_int i), ren F v) # arr_entries F (i + 1) vs"

definition pair_entries :: "nat list \<Rightarrow> int \<Rightarrow> (lua_value \<times> lua_value) list \<Rightarrow> new_table" where
  "pair_entries F n ps = map (\<lambda>(k, v). (ren F k, ren F v)) (filter (\<lambda>(k, v). \<not> in_array_part n k) ps)"

lemma pair_entries_simps [simp]:
  "pair_entries F n [] = []"
  "pair_entries F n ((k, v) # ps) =
     (if in_array_part n k then pair_entries F n ps else (ren F k, ren F v) # pair_entries F n ps)"
  by (simp_all add: pair_entries_def)

definition entries :: "lua_heap \<Rightarrow> nat list \<Rightarrow> nat \<Rightarrow> new_table" where
  "entries H F t =
     (case lt_metapairs (H t) of
        Some ps \<Rightarrow> pair_entries F 0 ps
      | None \<Rightarrow> arr_entries F 1 (lt_array (H t)) @
                pair_entries F (int (length (lt_array (H t)))) (lt_pairs (H t)))"

text \<open>A key that is not a table, and that \<open>lua_rawset\<close> accepts.\<close>

definition key_ok :: "lua_value \<Rightarrow> bool" where
  "key_ok k = (k \<noteq> LNil \<and> \<not> is_nan k \<and> (case k of LTable t \<Rightarrow> False | _ \<Rightarrow> True))"

definition keys_ok :: "lua_table \<Rightarrow> bool" where
  "keys_ok T = (\<forall>(k, v) \<in> set (case lt_metapairs T of Some ps \<Rightarrow> ps | None \<Rightarrow> lt_pairs T). key_ok k)"

section \<open>The walk only adds tables\<close>

lemma apack_prefix:
  "apack fuel H anc seen v = Some (us, s) \<Longrightarrow> prefix seen s"
  "atable fuel H anc seen t = Some (us, s) \<Longrightarrow> prefix (seen @ [t]) s"
  "alist fuel H anc seen vs = Some (us, s) \<Longrightarrow> prefix seen s"
  "apairs fuel H anc seen n ps = Some (us, s) \<Longrightarrow> prefix seen s"
proof (induction fuel H anc seen v and fuel H anc seen t and fuel H anc seen vs
    and fuel H anc seen n ps arbitrary: us s and us s and us s and us s
    rule: apack_atable_alist_apairs.induct)
  case (10 fuel H anc seen t)
  then show ?case by (auto split: if_splits dest: append_prefixD)
next
  case (12 fuel H anc seen t)
  then show ?case
    by (auto simp: Let_def split: if_splits option.splits prod.splits; meson prefix_order.trans)
qed (auto split: if_splits option.splits prod.splits; meson prefix_order.trans)+

lemma pos_of_prefix: "prefix seen F \<Longrightarrow> t \<in> set seen \<Longrightarrow> pos_of F t = pos_of seen t"
  by (auto simp: prefix_def pos_of_props(3))

lemma pos_of_new: "distinct F \<Longrightarrow> prefix (seen @ [t]) F \<Longrightarrow> pos_of F t = length seen"
  by (auto simp: prefix_def pos_of_props(4))

lemma drop_prefix_append:
  "prefix seen s \<Longrightarrow> prefix s s' \<Longrightarrow>
   drop (length seen) s @ drop (length s) s' = drop (length seen) s'"
  by (auto simp: prefix_def)

section \<open>The state of the reader\<close>

text \<open>The ids in \<open>M\<close> are the marked ones, and \<open>F\<close> is the list of all tables of the walk.\<close>

definition refs_rd :: "nat set \<Rightarrow> nat \<Rightarrow> read_block \<Rightarrow> bool" where
  "refs_rd M n rb \<longleftrightarrow> (\<forall>i < n. Suc i \<in> M \<longrightarrow>
     (\<exists>r. rb_refs rb = Some r \<and> r (int (Suc i)) = Some i))"

definition anc_at :: "read_block \<Rightarrow> nat \<Rightarrow> nat \<Rightarrow> bool" where
  "anc_at rb k i \<longleftrightarrow> 0 < rb_ancestor rb k \<and> rb_ancestor rb k \<le> length (rb_stack rb) \<and>
     rb_stack rb ! (length (rb_stack rb) - rb_ancestor rb k) = LTable i"

definition rdr :: "nat set \<Rightarrow> nat list \<Rightarrow> nat list \<Rightarrow> nat list \<Rightarrow> read_block \<Rightarrow> bool" where
  "rdr M F seen anc rb \<longleftrightarrow> rb_objectid rb = length seen \<and> length (rb_tables rb) = length seen \<and>
     refs_rd M (length seen) rb \<and>
     (\<forall>k < min 31 (length anc). anc_at rb k (pos_of F (anc ! k)))"

text \<open>From \<open>rb\<close> to \<open>rb'\<close> the values \<open>vs\<close> were pushed, the entries \<open>es\<close> were added to the table
  \<open>p\<close>, and the tables after \<open>seen\<close> in \<open>s\<close> were made.\<close>

definition grow :: "lua_heap \<Rightarrow> nat list \<Rightarrow> nat set \<Rightarrow> nat \<Rightarrow> nat \<Rightarrow> new_table \<Rightarrow> lua_value list \<Rightarrow>
    nat list \<Rightarrow> nat list \<Rightarrow> read_block \<Rightarrow> read_block \<Rightarrow> bool" where
  "grow H F M n p es vs seen s rb rb' \<longleftrightarrow> prefix seen s \<and> rb_stack rb' = vs @ rb_stack rb \<and>
     rb_tables rb' = (rb_tables rb)[p := rb_tables rb ! p @ es] @ map (entries H F) (drop (length seen) s) \<and>
     rb_objectid rb' = length s \<and> refs_rd M (length s) rb' \<and>
     (\<forall>k < n. rb_ancestor rb' k = rb_ancestor rb k) \<and> rb_depth rb' = rb_depth rb"

lemma rdr_grow:
  assumes "rdr M F seen anc rb" "grow H F M (length anc) p es vs seen s rb rb'"
  shows "rdr M F s anc rb'"
proof -
  have "anc_at rb' k i" if "anc_at rb k i" "k < length anc" for k i
    using that assms(2) by (auto simp: anc_at_def grow_def nth_append)
  moreover have "length (rb_tables rb') = length s"
    using assms by (auto simp: rdr_def grow_def prefix_def)
  ultimately show ?thesis using assms by (auto simp: rdr_def grow_def)
qed

lemma rdr_depth [simp]: "rdr M F seen anc (rb\<lparr>rb_depth := d\<rparr>) = rdr M F seen anc rb"
  "reads (rb\<lparr>rb_depth := d\<rparr>) bs = reads rb bs"
  by (simp_all add: rdr_def refs_rd_def anc_at_def reads_def)

lemma rdr_adv [simp]: "rdr M F seen anc (adv n rb) = rdr M F seen anc rb"
  by (simp add: rdr_def refs_rd_def anc_at_def)

lemma grow_adv [simp]: "grow H F M n p es vs seen s (adv m rb) rb' = grow H F M n p es vs seen s rb rb'"
  by (simp add: grow_def)

lemma grow_push:
  assumes "rdr M F seen anc rb"
  shows "grow H F M n p [] [v] seen seen rb (push v (adv m rb))"
  using assms by (simp add: grow_def rdr_def refs_rd_def push_def)

lemma grow_trans:
  assumes "grow H F M n p es [] seen s rb rb1" "grow H F M n p es' [] s s' rb1 rb2"
    "p < length (rb_tables rb)"
  shows "grow H F M n p (es @ es') [] seen s' rb rb2"
  using assms drop_prefix_append [of seen s s']
  by (auto simp: grow_def nth_append list_update_append map_append [symmetric]
      simp del: map_append intro: prefix_order.trans)

text \<open>A value pushed on a table and then stored in it.\<close>

lemma set_entry_grow:
  assumes "grow H F M n p [] vs seen s rb rb1" "p < length (rb_tables rb)"
  shows "\<exists>rb2. set_entry p k v (rb1\<lparr>rb_stack := rb_stack rb\<rparr>) = Ok rb2 \<and>
     grow H F M n p [(k, v)] [] seen s rb rb2 \<and> (\<forall>bs. reads rb2 bs = reads rb1 bs) \<and>
     rb_ancestor rb2 = rb_ancestor rb1"
  using assms by (auto simp: grow_def set_entry_def refs_rd_def reads_def nth_append list_update_append)

section \<open>Reading tables and references\<close>

lemma read_table_size:
  assumes "reads rb (table_bytes tag n @ ys)" "n < 2 ^ 31" "tag = 5 \<or> tag = 6"
  shows "\<exists>c. unpack_one (Suc fuel) rb = push_value fuel tag c (adv 1 rb) \<and>
     table_size c (adv 1 rb) = Ok (int n, adv (length (table_bytes tag n)) rb)"
proof (cases "n \<ge> 31")
  case True
  then have r: "reads rb (COMBINE_TYPE tag 31 # int_bytes (word_of_nat n) @ ys)"
    using assms(1) by (simp add: table_bytes_def)
  then have u: "unpack_one (Suc fuel) rb = push_value fuel tag 31 (adv 1 rb)"
    "reads (adv 1 rb) (int_bytes (word_of_nat n) @ ys)"
    using assms(3) unpack_tag [OF r] by auto
  show ?thesis
    using u(1) get_extend_bytes [OF u(2) assms(2)] True
    by (intro exI [of _ 31]) (simp add: table_size_def table_bytes_def)
next
  case False
  then have r: "reads rb (COMBINE_TYPE tag (int n) # ys)"
    using assms(1) by (simp add: table_bytes_def)
  have "unpack_one (Suc fuel) rb = push_value fuel tag (int n) (adv 1 rb)"
    using assms(3) False unpack_tag(1) [OF r] by auto
  then show ?thesis
    using False by (intro exI [of _ "int n"]) (simp add: table_size_def table_bytes_def)
qed

lemma create_rdr:
  assumes "rdr M F seen anc rb" "rb_depth rb = length anc" "pos_of F t = length seen"
    "type = (if Suc (length seen) \<in> M then 6 else 5)"
  defines "c \<equiv> create_table type rb"
  shows "rdr M F (seen @ [t]) (anc @ [t]) c" "rb_depth c = Suc (length anc)"
    "rb_stack c = LTable (length seen) # rb_stack rb" "rb_tables c = rb_tables rb @ [[]]"
    "\<forall>k < length anc. rb_ancestor c k = rb_ancestor rb k" "reads c bs = reads rb bs"
proof -
  have b: "rb_objectid rb = length seen" "length (rb_tables rb) = length seen"
    using assms(1) by (simp_all add: rdr_def)
  show st: "rb_stack c = LTable (length seen) # rb_stack rb" "rb_tables c = rb_tables rb @ [[]]"
    and d: "rb_depth c = Suc (length anc)"
    and a: "\<forall>k < length anc. rb_ancestor c k = rb_ancestor rb k"
    and "reads c bs = reads rb bs"
    using assms(2) b by (auto simp: c_def create_table_def Let_def push_def reads_def)
  have new: "rb_ancestor c (length anc) = length (rb_stack c)" if "length anc < 31"
    using that assms(2) b by (auto simp: c_def create_table_def Let_def push_def)
  have anc: "anc_at c k (pos_of F ((anc @ [t]) ! k))" if k: "k < min 31 (length (anc @ [t]))" for k
  proof (cases "k < length anc")
    case True
    then have "anc_at rb k (pos_of F (anc ! k))" using k assms(1) by (simp add: rdr_def)
    then show ?thesis using True a st by (auto simp: anc_at_def nth_append Suc_diff_le)
  next
    case False
    then have "k = length anc" using k by simp
    then show ?thesis using new k st assms(3) by (simp add: anc_at_def)
  qed
  have "refs_rd M (Suc (length seen)) c"
    using assms(1,4) b
    by (auto simp: refs_rd_def rdr_def c_def create_table_def Let_def push_def less_Suc_eq)
  moreover have "rb_objectid c = Suc (length seen)" "length (rb_tables c) = Suc (length seen)"
    using b by (auto simp: c_def create_table_def Let_def push_def)
  ultimately show "rdr M F (seen @ [t]) (anc @ [t]) c" using anc by (simp add: rdr_def)
qed

lemma read_ancestor:
  assumes "rdr M F seen anc rb" "rb_depth rb = length anc" "t \<in> set anc" "length anc < 31"
    "reads rb (COMBINE_TYPE 7 (int (pos_of anc t)) # ys)"
  shows "unpack_one (Suc fuel) rb = Ok (push (LTable (pos_of F t)) (adv 1 rb))"
proof -
  have p: "pos_of anc t < length anc" "anc ! pos_of anc t = t" using pos_of_props(1,2) [OF assms(3)] by auto
  then have "anc_at rb (pos_of anc t) (pos_of F t)"
    using assms(1,4) by (force simp: rdr_def)
  then show ?thesis
    using unpack_tag(1) [OF assms(5), of fuel] p assms(2,4)
    by (simp add: unpack_ref_def push_index_def anc_at_def)
qed

lemma read_ref:
  assumes "rdr M F seen anc rb" "t \<in> set seen" "length seen < 2 ^ 31" "Suc (pos_of seen t) \<in> M"
    "reads rb (COMBINE_TYPE 7 31 # int_bytes (word_of_nat (Suc (pos_of seen t))) @ ys)"
  shows "\<exists>m. unpack_one (Suc fuel) rb = Ok (push (LTable (pos_of seen t)) (adv m rb)) \<and>
    m = Suc (length (int_bytes (word_of_nat (Suc (pos_of seen t)))))"
proof -
  have p: "pos_of seen t < length seen" using pos_of_props(1) [OF assms(2)] by auto
  then obtain r where r: "rb_refs rb = Some r" "r (int (Suc (pos_of seen t))) = Some (pos_of seen t)"
    using assms(1,4) by (auto simp: rdr_def refs_rd_def)
  have "reads (adv 1 rb) (int_bytes (word_of_nat (Suc (pos_of seen t))) @ ys)"
    using unpack_tag(2) [OF assms(5)] by simp
  then have "get_extend_integer (adv 1 rb) = Ok (int (Suc (pos_of seen t)),
      adv (length (int_bytes (word_of_nat (Suc (pos_of seen t))))) (adv 1 rb))"
    by (rule get_extend_bytes) (use p assms(3) in simp)
  then show ?thesis
    using unpack_tag(1) [OF assms(5), of fuel] r by (simp add: unpack_ref_def)
qed

section \<open>The simulation\<close>

definition walk_ok :: "lua_heap \<Rightarrow> nat list \<Rightarrow> bool" where
  "walk_ok H F \<longleftrightarrow> distinct F \<and> length F < 2 ^ 31 \<and> (\<forall>t \<in> set F. keys_ok (H t))"

lemma read_value_scalar:
  assumes "apack fuel H anc seen v = Some (us, s)" "\<And>t. v \<noteq> LTable t"
    "reads rb (enc M us @ ys)" "0 < rf" "rdr M F seen anc rb"
  shows "\<exists>rb'. unpack_one rf rb = Ok rb' \<and> reads rb' ys \<and>
     grow H F M (length anc) 0 [] [ren F v] seen s rb rb'"
proof -
  obtain tok where w: "scalar_tok v = Some tok" "us = [tok]" "s = seen"
    using apack_scalar [OF assms(1,2)] by auto
  have r: "reads rb (tok_bytes M tok @ ys)" using assms(3) w(2) by simp
  obtain f where f: "rf = Suc f" using assms(4) by (cases rf) auto
  show ?thesis
    unfolding f read_scalar [OF w(1) r]
    using grow_push [OF assms(5)] reads_adv [OF r] ren_scalar [OF assms(2)] w(3) by auto
qed

lemma grow_nil: "grow H F M n p [] vs seen s rb rb' = grow H F M n 0 [] vs seen s rb rb'"
  by (simp add: grow_def)

lemma grow_less: "grow H F M n p es vs seen s rb rb' \<Longrightarrow> m \<le> n \<Longrightarrow> grow H F M m p es vs seen s rb rb'"
  by (simp add: grow_def)

lemma grow_push2:
  assumes "grow H F M n 0 [] [a] seen s rb rb1" "grow H F M n 0 [] [b] s s' (rb1\<lparr>rb_depth := d\<rparr>) rb2"
  shows "grow H F M n p [] [b, a] seen s' rb (rb2\<lparr>rb_depth := rb_depth rb\<rparr>)"
proof -
  have pre: "prefix seen s" "prefix s s'" using assms by (simp_all add: grow_def)
  have e: "map (entries H F) (drop (length seen) s) @ map (entries H F) (drop (length s) s') =
      map (entries H F) (drop (length seen) s')"
    unfolding map_append [symmetric] drop_prefix_append [OF pre] ..
  then show ?thesis
    using assms prefix_order.trans [OF pre] by (simp add: grow_def refs_rd_def e)
qed

lemma read_end:
  assumes "reads rb (enc M [TokNil] @ ys)" "rdr M F seen anc rb" "Suc 0 < rf"
  shows "\<exists>rb'. hash_items rf rb = Ok rb' \<and> reads rb' ys \<and>
     grow H F M (length anc) p [] [] seen seen rb rb'"
proof -
  define f where "f = rf - 2"
  have f: "rf = Suc (Suc f)" using assms(3) by (simp add: f_def)
  have r: "reads rb (tok_bytes M TokNil @ ys)" using assms(1) by simp
  have "hash_items rf rb = Ok ((push LNil (adv 1 rb))\<lparr>rb_stack := rb_stack rb\<rparr>)"
    using read_scalar [of LNil TokNil rb M ys f] r by (simp add: f push_def)
  moreover have "reads (adv 1 rb) ys" using reads_adv [OF r] by simp
  ultimately show ?thesis
    using assms(2) by (simp add: grow_def rdr_def refs_rd_def reads_def push_def)
qed

lemma read_table:
  assumes rd: "rdr M F seen anc rb" "rb_depth rb = length anc" and F: "pos_of F t = length seen"
    and n: "n < 2 ^ 31"
    and r: "reads rb (table_bytes (if Suc (length seen) \<in> M then 6 else 5) n @ ys0)"
    and arr: "\<And>cb. rdr M F (seen @ [t]) (anc @ [t]) cb \<Longrightarrow> rb_depth cb = length (anc @ [t]) \<Longrightarrow>
      reads cb ys0 \<Longrightarrow> rb_stack cb = LTable (length seen) # rb_stack rb \<Longrightarrow>
      \<exists>rb1. array_items f n 1 cb = Ok rb1 \<and> reads rb1 ys1 \<and>
        grow H F M (length (anc @ [t])) (length seen) es1 [] (seen @ [t]) s1 cb rb1"
    and hash: "\<And>cb. rdr M F s1 (anc @ [t]) cb \<Longrightarrow> Suc (rb_depth cb) = length (anc @ [t]) \<Longrightarrow>
      reads cb ys1 \<Longrightarrow> rb_stack cb = LTable (length seen) # rb_stack rb \<Longrightarrow>
      \<exists>rb2. hash_items f cb = Ok rb2 \<and> reads rb2 ys \<and>
        grow H F M (length (anc @ [t])) (length seen) es2 [] s1 s cb rb2"
    and e: "entries H F t = es1 @ es2"
  shows "\<exists>rb'. unpack_one (Suc f) rb = Ok rb' \<and> reads rb' ys \<and>
    grow H F M (length anc) 0 [] [LTable (length seen)] seen s rb rb'"
proof -
  define tag where "tag = (if Suc (length seen) \<in> M then 6 else 5 :: int)"
  have tag: "tag = 5 \<or> tag = 6" by (simp add: tag_def)
  obtain c where c: "unpack_one (Suc f) rb = push_value f tag c (adv 1 rb)"
    "table_size c (adv 1 rb) = Ok (int n, adv (length (table_bytes tag n)) rb)"
    using read_table_size [OF r [folded tag_def] n tag] by blast
  define rb0 where "rb0 = adv (length (table_bytes tag n)) rb"
  have rb0: "rdr M F seen anc rb0" "rb_depth rb0 = length anc" "reads rb0 ys0"
    using rd reads_adv [OF r [folded tag_def]] by (simp_all add: rb0_def)
  define cb where "cb = create_table tag rb0"
  note cr = create_rdr [OF rb0(1,2) F tag_def, folded cb_def]
  have cb: "rb_depth cb = length (anc @ [t])" "reads cb ys0"
    "rb_stack cb = LTable (length seen) # rb_stack rb"
    using cr rb0(3) by (simp_all add: rb0_def)
  obtain rb1 where rb1: "array_items f n 1 cb = Ok rb1" "reads rb1 ys1"
    "grow H F M (length (anc @ [t])) (length seen) es1 [] (seen @ [t]) s1 cb rb1"
    using arr [OF cr(1) cb] by blast
  define db where "db = rb1\<lparr>rb_depth := rb_depth rb1 - 1\<rparr>"
  have db: "rdr M F s1 (anc @ [t]) db" "Suc (rb_depth db) = length (anc @ [t])" "reads db ys1"
    "rb_stack db = LTable (length seen) # rb_stack rb"
    using rdr_grow [OF cr(1) rb1(3)] rb1 cb by (simp_all add: db_def grow_def)
  obtain rb2 where rb2: "hash_items f db = Ok rb2" "reads rb2 ys"
    "grow H F M (length (anc @ [t])) (length seen) es2 [] s1 s db rb2"
    using hash [OF db] by blast
  have "push_value f tag c (adv 1 rb) = unpack_table f c tag (adv 1 rb)"
    using tag by (auto simp del: unpack_table.simps)
  then have "unpack_one (Suc f) rb = Ok rb2"
    using c rb1(1) rb2(1) by (simp add: rb0_def [symmetric] cb_def [symmetric] db_def del: push_value.simps)
  moreover have "grow H F M (length anc) 0 [] [LTable (length seen)] seen s rb rb2"
  proof -
    have len: "length (rb_tables rb0) = length seen" using rb0(1) by (simp add: rdr_def)
    have pre: "prefix (seen @ [t]) s1" "prefix s1 s" using rb1(3) rb2(3) by (simp_all add: grow_def)
    have "rb_tables rb2 = rb_tables rb0 @ [es1 @ es2] @
        map (entries H F) (drop (length (seen @ [t])) s1 @ drop (length s1) s)"
      using rb1(3) rb2(3) len cr(4)
      by (simp add: grow_def db_def nth_append list_update_append)
    also have "drop (length (seen @ [t])) s1 @ drop (length s1) s = drop (length (seen @ [t])) s"
      by (rule drop_prefix_append [OF pre])
    also have "[es1 @ es2] @ map (entries H F) (drop (length (seen @ [t])) s) =
        map (entries H F) (drop (length seen) s)"
      using pre e by (auto simp: prefix_def)
    finally have "rb_tables rb2 = rb_tables rb0 @ map (entries H F) (drop (length seen) s)" .
    moreover have "prefix seen s" using pre by (meson append_prefixD prefix_order.trans)
    moreover have "rb_depth rb2 = rb_depth rb"
      using rb2(3) db(2) rd(2) by (simp add: grow_def)
    ultimately show ?thesis
      using rb1(3) rb2(3) cr cb(3) by (auto simp: grow_def db_def rb0_def)
  qed
  ultimately show ?thesis using rb2(2) by blast
qed

lemma unpack_tokens:
  "apack fuel H anc seen v = Some (us, s) \<Longrightarrow> refd us \<subseteq> M \<Longrightarrow> prefix s F \<Longrightarrow> walk_ok H F \<Longrightarrow>
   distinct anc \<Longrightarrow> set anc \<subseteq> set seen \<Longrightarrow> rdr M F seen anc rb \<Longrightarrow> rb_depth rb = length anc \<Longrightarrow>
   reads rb (enc M us @ ys) \<Longrightarrow> length us < rf \<Longrightarrow>
   \<exists>rb'. unpack_one rf rb = Ok rb' \<and> reads rb' ys \<and>
     grow H F M (length anc) 0 [] [ren F v] seen s rb rb'"
  "atable fuel H anc seen t = Some (us, s) \<Longrightarrow> refd us \<subseteq> M \<Longrightarrow> prefix s F \<Longrightarrow> walk_ok H F \<Longrightarrow>
   distinct anc \<Longrightarrow> set anc \<subseteq> set seen \<Longrightarrow> rdr M F seen anc rb \<Longrightarrow> rb_depth rb = length anc \<Longrightarrow>
   reads rb (enc M us @ ys) \<Longrightarrow> length us < rf \<Longrightarrow> t \<notin> set seen \<Longrightarrow>
   \<exists>rb'. unpack_one rf rb = Ok rb' \<and> reads rb' ys \<and>
     grow H F M (length anc) 0 [] [LTable (length seen)] seen s rb rb'"
  "alist fuel H anc seen vs = Some (us, s) \<Longrightarrow> refd us \<subseteq> M \<Longrightarrow> prefix s F \<Longrightarrow> walk_ok H F \<Longrightarrow>
   distinct anc \<Longrightarrow> set anc \<subseteq> set seen \<Longrightarrow> rdr M F seen anc rb \<Longrightarrow> rb_depth rb = length anc \<Longrightarrow>
   reads rb (enc M us @ ys) \<Longrightarrow> length us < rf \<Longrightarrow> rb_stack rb = LTable p # rest \<Longrightarrow>
   p < length seen \<Longrightarrow>
   \<exists>rb'. array_items rf (length vs) i rb = Ok rb' \<and> reads rb' ys \<and>
     grow H F M (length anc) p (arr_entries F i vs) [] seen s rb rb'"
  "apairs fuel H anc seen n ps = Some (us, s) \<Longrightarrow> refd us \<subseteq> M \<Longrightarrow> prefix s F \<Longrightarrow> walk_ok H F \<Longrightarrow>
   distinct anc \<Longrightarrow> set anc \<subseteq> set seen \<Longrightarrow> rdr M F seen anc rb \<Longrightarrow> Suc (rb_depth rb) = length anc \<Longrightarrow>
   reads rb (enc M us @ enc M [TokNil] @ ys) \<Longrightarrow> Suc (length us) < rf \<Longrightarrow>
   rb_stack rb = LTable p # rest \<Longrightarrow> p < length seen \<Longrightarrow> (\<forall>(k, v) \<in> set ps. key_ok k) \<Longrightarrow>
   \<exists>rb'. hash_items rf rb = Ok rb' \<and> reads rb' ys \<and>
     grow H F M (length anc) p (pair_entries F n ps) [] seen s rb rb'"
proof (induction fuel H anc seen v and fuel H anc seen t and fuel H anc seen vs
    and fuel H anc seen n ps arbitrary: us s rb ys rf and us s rb ys rf and us s rb ys rf p rest i
    and us s rb ys rf p rest
    rule: apack_atable_alist_apairs.induct)
  case (10 fuel H anc seen t)
  note prems = "10.prems"
  obtain f where f: "rf = Suc f" using prems(10) by (cases rf) auto
  have pos: "pos_of F u = pos_of seen u" if "u \<in> set seen" for u
    using that apack_prefix(1) [OF prems(1)] prems(3) by (meson pos_of_prefix prefix_order.trans)
  show ?case
  proof (cases "t \<in> set anc \<and> length anc < 31")
    case True
    then have w: "us = [TokAnc (pos_of anc t)]" "s = seen" using prems(1) by auto
    then have r: "reads rb (COMBINE_TYPE 7 (int (pos_of anc t)) # ys)" using prems(9) by simp
    have "reads (adv 1 rb) ys" using reads_adv [of rb "[COMBINE_TYPE 7 (int (pos_of anc t))]"] r by simp
    then show ?thesis
      using read_ancestor [OF prems(7,8) _ _ r, of f] grow_push [OF prems(7)] True f w by auto
  next
    case no_anc: False
    show ?thesis
    proof (cases "t \<in> set seen")
      case True
      then have w: "us = [TokRef (Suc (pos_of seen t))]" "s = seen" using prems(1) no_anc by auto
      then have r: "reads rb (COMBINE_TYPE 7 31 # int_bytes (word_of_nat (Suc (pos_of seen t))) @ ys)"
        using prems(9) by simp
      have l: "length seen < 2 ^ 31" using prems(3,4) w(2) by (auto simp: walk_ok_def prefix_def)
      have m: "Suc (pos_of seen t) \<in> M" using prems(2) w(1) by simp
      show ?thesis
        using read_ref [OF prems(7) True l m r, of f] grow_push [OF prems(7)] f w pos [OF True]
          reads_adv [of rb "COMBINE_TYPE 7 31 # int_bytes (word_of_nat (Suc (pos_of seen t)))" ys] r
        by auto
    next
      case False
      then have at: "atable fuel H anc seen t = Some (us, s)" using prems(1) no_anc by auto
      have "pos_of F t = length seen"
        using apack_prefix(2) [OF at] prems(3,4) pos_of_new prefix_order.trans
        by (metis walk_ok_def)
      then show ?thesis using "10.IH" [OF no_anc False at prems(2-10) False] by simp
    qed
  qed
next
  case (12 fuel H anc seen t)
  note prems = "12.prems"
  obtain f where f: "rf = Suc f" using prems(10) by (cases rf) auto
  let ?A = "anc @ [t]" and ?S = "seen @ [t]"
  have pre: "prefix ?S s" using apack_prefix(2) [OF prems(1)] .
  have F: "pos_of F t = length seen"
    using pre prems(3,4) pos_of_new prefix_order.trans by (metis walk_ok_def)
  have A: "distinct ?A" "set ?A \<subseteq> set ?S" using prems(5,6,11) by auto
  have tF: "t \<in> set F" using pre prems(3) by (auto simp: prefix_def)
  then have k: "keys_ok (H t)" using prems(4) by (simp add: walk_ok_def)
  have p: "length seen < length ?S" by simp
  show ?case
  proof (cases "lt_metapairs (H t)")
    case None
    define n where "n = length (lt_array (H t))"
    obtain us1 s1 us2 where w: "n < 2 ^ 31" "alist fuel H ?A ?S (lt_array (H t)) = Some (us1, s1)"
      "apairs fuel H ?A s1 (int n) (lt_pairs (H t)) = Some (us2, s)"
      "us = TokTable (length seen + 1) n # us1 @ us2 @ [TokNil]"
      using prems(1) None by (auto simp: n_def Let_def split: if_splits option.splits prod.splits)
    have pre1: "prefix ?S s1" "prefix s1 s" using apack_prefix(3,4) w(2,3) by blast+
    have s1F: "prefix s1 F" using pre1(2) prems(3) by (rule prefix_order.trans)
    have A1: "set ?A \<subseteq> set s1" "length seen < length s1" using A(2) pre1(1) by (auto simp: prefix_def)
    have M: "refd us1 \<subseteq> M" "refd us2 \<subseteq> M" using prems(2) w(4) by auto
    have l: "length us1 < f" "Suc (length us2) < f" using prems(10) f w(4) by auto
    have keys: "\<forall>(k, v) \<in> set (lt_pairs (H t)). key_ok k" using k None by (simp add: keys_ok_def)
    show ?thesis
      unfolding f
    proof (rule read_table [OF prems(7,8) F w(1)])
      show "reads rb (table_bytes (if Suc (length seen) \<in> M then 6 else 5) n @
          enc M us1 @ enc M us2 @ enc M [TokNil] @ ys)"
        using prems(9) w(4) by simp
      show "\<exists>rb1. array_items f n 1 cb = Ok rb1 \<and> reads rb1 (enc M us2 @ enc M [TokNil] @ ys) \<and>
        grow H F M (length ?A) (length seen) (arr_entries F 1 (lt_array (H t))) [] ?S s1 cb rb1"
        if "rdr M F ?S ?A cb" "rb_depth cb = length ?A" "reads cb (enc M us1 @ enc M us2 @ enc M [TokNil] @ ys)"
          "rb_stack cb = LTable (length seen) # rb_stack rb" for cb
        using "12.IH"(1) [OF None n_def w(1) w(2) M(1) s1F prems(4) A that(1-3) l(1) that(4) p]
        unfolding n_def [symmetric] .
      show "\<exists>rb2. hash_items f cb = Ok rb2 \<and> reads rb2 ys \<and>
        grow H F M (length ?A) (length seen) (pair_entries F (int n) (lt_pairs (H t))) [] s1 s cb rb2"
        if "rdr M F s1 ?A cb" "Suc (rb_depth cb) = length ?A" "reads cb (enc M us2 @ enc M [TokNil] @ ys)"
          "rb_stack cb = LTable (length seen) # rb_stack rb" for cb
        using "12.IH"(2) [OF None n_def w(1) w(2) refl w(3) M(2) prems(3,4) A(1) A1(1) that(1-3) l(2)
            that(4) A1(2) keys] .
      show "entries H F t = arr_entries F 1 (lt_array (H t)) @ pair_entries F (int n) (lt_pairs (H t))"
        by (simp add: entries_def None n_def)
    qed
  next
    case (Some ps)
    obtain us1 where w: "apairs fuel H ?A ?S 0 ps = Some (us1, s)"
      "us = TokTable (length seen + 1) 0 # us1 @ [TokNil]"
      using prems(1) Some by (auto split: option.splits prod.splits)
    have M: "refd us1 \<subseteq> M" and l: "Suc (length us1) < f"
      using prems(2,10) f w(2) by auto
    have keys: "\<forall>(k, v) \<in> set ps. key_ok k" using k Some by (simp add: keys_ok_def)
    show ?thesis
      unfolding f
    proof (rule read_table [OF prems(7,8) F, of 0])
      show "reads rb (table_bytes (if Suc (length seen) \<in> M then 6 else 5) 0 @
          enc M us1 @ enc M [TokNil] @ ys)"
        using prems(9) w(2) by simp
      show "\<exists>rb1. array_items f 0 1 cb = Ok rb1 \<and> reads rb1 (enc M us1 @ enc M [TokNil] @ ys) \<and>
        grow H F M (length ?A) (length seen) [] [] ?S ?S cb rb1"
        if "rdr M F ?S ?A cb" "reads cb (enc M us1 @ enc M [TokNil] @ ys)" for cb
        using that by (simp add: grow_def rdr_def)
      show "\<exists>rb2. hash_items f cb = Ok rb2 \<and> reads rb2 ys \<and>
        grow H F M (length ?A) (length seen) (pair_entries F 0 ps) [] ?S s cb rb2"
        if "rdr M F ?S ?A cb" "Suc (rb_depth cb) = length ?A" "reads cb (enc M us1 @ enc M [TokNil] @ ys)"
          "rb_stack cb = LTable (length seen) # rb_stack rb" for cb
        using "12.IH"(3) [OF Some w(1) M prems(3,4) A that(1-3) l that(4) p keys] .
      show "entries H F t = [] @ pair_entries F 0 ps" by (simp add: entries_def Some)
    qed simp
  qed
next
  case (14 fuel H anc seen v vs)
  note prems = "14.prems"
  obtain us1 s1 us2 where w: "apack fuel H anc seen v = Some (us1, s1)"
    "alist fuel H anc s1 vs = Some (us2, s)" "us = us1 @ us2"
    using prems(1) by (auto split: option.splits prod.splits)
  have pre: "prefix seen s1" "prefix s1 s" using apack_prefix(1,3) w(1,2) by blast+
  have s1F: "prefix s1 F" using pre(2) prems(3) by (rule prefix_order.trans)
  have M: "refd us1 \<subseteq> M" "refd us2 \<subseteq> M" and l: "length us1 < rf" "length us2 < rf"
    and r: "reads rb (enc M us1 @ enc M us2 @ ys)"
    and s1: "set anc \<subseteq> set s1" "p < length s1" and pt: "p < length (rb_tables rb)"
    using prems(2,6,7,9,10,12) w(3) pre(1) by (auto simp: prefix_def rdr_def)
  obtain rb1 where rb1: "unpack_one rf rb = Ok rb1" "reads rb1 (enc M us2 @ ys)"
    "grow H F M (length anc) 0 [] [ren F v] seen s1 rb rb1"
    using "14.IH"(1) [OF w(1) M(1) s1F prems(4-8) r l(1)] by blast
  have g: "grow H F M (length anc) p [] [ren F v] seen s1 rb rb1"
    using rb1(3) by (subst grow_nil)
  obtain rb2 where rb2: "set_entry p (LInt (word_of_int i)) (ren F v) (rb1\<lparr>rb_stack := rb_stack rb\<rparr>) = Ok rb2"
    "grow H F M (length anc) p [(LInt (word_of_int i), ren F v)] [] seen s1 rb rb2"
    "reads rb2 (enc M us2 @ ys)"
    using set_entry_grow [OF g pt, of "LInt (word_of_int i)" "ren F v"] rb1(2) by auto
  have st: "rb_stack rb2 = LTable p # rest" "rb_depth rb2 = length anc"
    using rb2(2) prems(8,11) by (simp_all add: grow_def)
  obtain rb3 where rb3: "array_items rf (length vs) (i + 1) rb2 = Ok rb3" "reads rb3 ys"
    "grow H F M (length anc) p (arr_entries F (i + 1) vs) [] s1 s rb2 rb3"
    using "14.IH"(2) [OF w(1) refl w(2) M(2) prems(3-5) s1(1) rdr_grow [OF prems(7) rb2(2)]
        st(2) rb2(3) l(2) st(1) s1(2)] by blast
  have "rawseti i rb1 = Ok rb2"
    using rb1(3) rb2(1) prems(11) by (simp add: rawseti_def grow_def)
  then have "array_items rf (length (v # vs)) i rb = Ok rb3" using rb1(1) rb3(1) by simp
  moreover have "grow H F M (length anc) p (arr_entries F i (v # vs)) [] seen s rb rb3"
    using grow_trans [OF rb2(2) rb3(3) pt] by simp
  ultimately show ?case using rb3(2) by blast
next
  case (16 fuel H anc seen n k v ps)
  note prems = "16.prems"
  show ?case
  proof (cases "in_array_part n k")
    case True
    then have "apairs fuel H anc seen n ps = Some (us, s)" "\<forall>(k, v) \<in> set ps. key_ok k"
      using prems(1,13) by simp_all
    then show ?thesis using "16.IH"(1) [OF True _ prems(2-12)] True by simp
  next
    case False
    obtain us1 s1 us2 s2 us3 where w: "apack fuel H anc seen k = Some (us1, s1)"
      "apack fuel H anc s1 v = Some (us2, s2)" "apairs fuel H anc s2 n ps = Some (us3, s)"
      "us = us1 @ us2 @ us3"
      using prems(1) False by (auto split: option.splits prod.splits)
    have k: "\<And>t. k \<noteq> LTable t" "k \<noteq> LNil" "\<not> is_nan k" "ren F k = k" "length us1 = 1"
      using prems(13) apack_scalar [OF w(1)] by (auto simp: key_ok_def ren_def split: lua_value.splits)
    have pre: "prefix seen s1" "prefix s1 s2" "prefix s2 s" using apack_prefix(1,4) w(1-3) by blast+
    have s2F: "prefix s2 F" using pre(3) prems(3) by (rule prefix_order.trans)
    obtain f where f: "rf = Suc f" "0 < f" using prems(10) by (cases rf) auto
    have M: "refd us2 \<subseteq> M" "refd us3 \<subseteq> M" and l: "length us2 < f" "Suc (length us3) < f"
      and r: "reads rb (enc M us1 @ enc M us2 @ enc M us3 @ enc M [TokNil] @ ys)"
      and s1: "set anc \<subseteq> set s1" "set anc \<subseteq> set s2" "p < length s2" and pt: "p < length (rb_tables rb)"
      using prems(2,6,7,9,10,12) w(4) pre k(5) f(1) by (auto simp: prefix_def rdr_def)
    obtain rb1 where rb1: "unpack_one f rb = Ok rb1"
      "reads rb1 (enc M us2 @ enc M us3 @ enc M [TokNil] @ ys)"
      "grow H F M (length anc) 0 [] [k] seen s1 rb rb1"
      using read_value_scalar [OF w(1) k(1) r f(2) prems(7)] k(4) by auto
    define cb where "cb = rb1\<lparr>rb_depth := rb_depth rb1 + 1\<rparr>"
    have cb: "rdr M F s1 anc cb" "rb_depth cb = length anc"
      "reads cb (enc M us2 @ enc M us3 @ enc M [TokNil] @ ys)"
      using rdr_grow [OF prems(7) rb1(3)] rb1(2,3) prems(8) by (simp_all add: cb_def grow_def)
    obtain rb2 where rb2: "unpack_one f cb = Ok rb2" "reads rb2 (enc M us3 @ enc M [TokNil] @ ys)"
      "grow H F M (length anc) 0 [] [ren F v] s1 s2 cb rb2"
      using "16.IH"(3) [OF False w(1) refl w(2) M(1) s2F prems(4,5) s1(1) cb l(1)] by blast
    define db where "db = rb2\<lparr>rb_depth := rb_depth rb\<rparr>"
    have g: "grow H F M (length anc) p [] [ren F v, k] seen s2 rb db"
      unfolding db_def by (rule grow_push2 [OF rb1(3) rb2(3) [unfolded cb_def]])
    obtain rb3 where rb3: "set_entry p k (ren F v) (db\<lparr>rb_stack := rb_stack rb\<rparr>) = Ok rb3"
      "grow H F M (length anc) p [(k, ren F v)] [] seen s2 rb rb3"
      "reads rb3 (enc M us3 @ enc M [TokNil] @ ys)"
      using set_entry_grow [OF g pt, of k "ren F v"] rb2(2) by (auto simp: db_def)
    have st: "rb_stack rb3 = LTable p # rest" "Suc (rb_depth rb3) = length anc"
      using rb3(2) prems(8,11) by (simp_all add: grow_def)
    have keys: "\<forall>(k, v) \<in> set ps. key_ok k" using prems(13) by simp
    obtain rb4 where rb4: "hash_items f rb3 = Ok rb4" "reads rb4 ys"
      "grow H F M (length anc) p (pair_entries F n ps) [] s2 s rb3 rb4"
      using "16.IH"(4) [OF False w(1) refl w(2) refl w(3) M(2) prems(3-5) s1(2)
          rdr_grow [OF prems(7) rb3(2)] st(2) rb3(3) l(2) st(1) s1(3) keys] by blast
    have stk: "rb_stack rb1 = k # rb_stack rb" "rb_stack db = ren F v # k # LTable p # rest"
      "rb_depth rb2 = Suc (rb_depth rb)" "rb_depth rb1 = rb_depth rb"
      using rb1(3) rb2(3) g prems(11) by (simp_all add: grow_def cb_def)
    have "rawset db = Ok rb3"
      using rb3(1) k(3) prems(11) by (simp add: rawset_def stk)
    then have "rawset (rb2\<lparr>rb_depth := rb_depth rb2 - 1\<rparr>) = Ok rb3" by (simp add: db_def stk)
    then have "hash_items (Suc f) rb = Ok rb4"
      using rb1(1) rb2(1) rb4(1) k(2) stk(1)
      by (auto simp: cb_def split: list.split lua_value.split)
    moreover have "grow H F M (length anc) p (pair_entries F n ((k, v) # ps)) [] seen s rb rb4"
      using grow_trans [OF rb3(2) rb4(3) pt] False k(4) by simp
    ultimately show ?thesis using rb4(2) f(1) by blast
  qed
next
  case (13 fuel H anc seen)
  then show ?case by (auto simp: grow_def rdr_def)
next
  case (15 fuel H anc seen n)
  then have "us = []" "s = seen" by auto
  then show ?case using read_end [OF _ "15.prems"(7), of ys rf H p] "15.prems"(9,10) by simp
next
  case (11 H anc seen t)
  then show ?case by simp
qed (erule read_value_scalar, simp, assumption, linarith, assumption)+

end
