(* ===== verification/SeriTotal.thy ===== *)
theory SeriTotal
  imports SeriRead
begin

text \<open>
  The reader ends on every buffer: no read outside it, no assertion of Lua violated, and a number
  of nested calls bounded by the bytes left. \<open>ends P m\<close> says that \<open>m\<close> is an error raised by the
  code or a value with \<open>P\<close>.
\<close>

section \<open>Ends\<close>

definition ends :: "('a \<Rightarrow> bool) \<Rightarrow> 'a outcome \<Rightarrow> bool" where
  "ends P m = (case m of Ok x \<Rightarrow> P x | Throw e \<Rightarrow> True | Abort \<Rightarrow> False | Timeout \<Rightarrow> False)"

lemma ends_simps [simp]:
  "ends P (Ok x) = P x" "ends P (Throw e)" "\<not> ends P Abort" "\<not> ends P Timeout"
  "ends P (invalid_stream rb)"
  by (simp_all add: ends_def invalid_stream_def)

lemma ends_bind: "ends P m \<Longrightarrow> (\<And>x. P x \<Longrightarrow> ends Q (f x)) \<Longrightarrow> ends Q (obind m f)"
  by (cases m) simp_all

lemma ends_bind_Ok:
  "ends P m \<Longrightarrow> (\<And>x. m = Ok x \<Longrightarrow> P x \<Longrightarrow> ends Q (f x)) \<Longrightarrow> ends Q (obind m f)"
  by (cases m) simp_all

lemma ends_mono: "ends P m \<Longrightarrow> (\<And>x. P x \<Longrightarrow> Q x) \<Longrightarrow> ends Q m"
  by (cases m) simp_all

section \<open>A sound reader\<close>

definition anc_ok :: "nat \<Rightarrow> read_block \<Rightarrow> bool" where
  "anc_ok d rb \<longleftrightarrow> (\<forall>k < min 31 d. 0 < rb_ancestor rb k)"

definition sound :: "read_block \<Rightarrow> bool" where
  "sound rb \<longleftrightarrow> 0 \<le> rb_ptr rb \<and> 0 \<le> rb_len rb \<and>
     rb_ptr rb + rb_len rb \<le> int (length (rb_buffer rb)) \<and> anc_ok (rb_depth rb) rb"

text \<open>What a step keeps, and that it pushes \<open>n\<close> values.\<close>

definition later :: "nat \<Rightarrow> read_block \<Rightarrow> read_block \<Rightarrow> bool" where
  "later n rb rb' \<longleftrightarrow> sound rb' \<and> rb_depth rb' = rb_depth rb \<and> rb_len rb' \<le> rb_len rb \<and>
     length (rb_tables rb) \<le> length (rb_tables rb') \<and>
     (\<forall>k. 0 < rb_ancestor rb k \<longrightarrow> 0 < rb_ancestor rb' k) \<and>
     (\<exists>vs. length vs = n \<and> rb_stack rb' = vs @ rb_stack rb)"

lemma take_ends:
  assumes "sound rb" "0 \<le> n"
  shows "ends (\<lambda>(bs, rb'). later 0 rb rb' \<and> int (length bs) = n \<and> rb_len rb' = rb_len rb - n) (rb_take n rb)"
  using assms by (auto simp: rb_take_def rb_read_def fetch_def later_def sound_def anc_ok_def)

lemma later_trans: "later m rb rb1 \<Longrightarrow> later n rb1 rb2 \<Longrightarrow> later (n + m) rb rb2"
  unfolding later_def by clarsimp

lemma later_push: "later 0 rb rb' \<Longrightarrow> later (Suc 0) rb (push v rb')"
  by (simp add: later_def sound_def anc_ok_def push_def)

lemma later_sound: "later n rb rb' \<Longrightarrow> sound rb'"
  by (simp add: later_def)

section \<open>Scalars and references\<close>

lemma integer_ends:
  assumes "sound rb"
  shows "ends (\<lambda>(n, rb'). later 0 rb rb') (get_integer c rb)"
proof -
  have t: "ends (\<lambda>(n, rb'). later 0 rb rb') (obind (rb_take k rb) (\<lambda>(bs, rb). Ok (f bs, rb)))"
    if "0 \<le> k" for k and f :: "byte list \<Rightarrow> 64 word"
    by (rule ends_bind [OF take_ends [OF assms that]]) auto
  have "later 0 rb rb" using assms by (simp add: later_def)
  then show ?thesis
    using t [of 1] t [of 2] t [of 4] t [of 8] by (simp add: get_integer_def)
qed

lemma word8_ends:
  assumes "sound rb"
  shows "ends (\<lambda>(n, rb'). later 0 rb rb') (get_real rb)" "ends (\<lambda>(n, rb'). later 0 rb rb') (get_pointer rb)"
proof -
  have "ends (\<lambda>(n, rb'). later 0 rb rb') (obind (rb_take 8 rb) (\<lambda>(bs, rb). Ok (le_word bs :: 64 word, rb)))"
    by (rule ends_bind [OF take_ends [OF assms]]) auto
  then show "ends (\<lambda>(n, rb'). later 0 rb rb') (get_real rb)" "ends (\<lambda>(n, rb'). later 0 rb rb') (get_pointer rb)"
    by (simp_all add: get_real_def get_pointer_def)
qed

lemma buffer_ends:
  assumes "sound rb"
  shows "ends (later (Suc 0) rb) (get_buffer len rb)"
proof (cases "len < 0 \<or> rb_len rb < len")
  case True
  then show ?thesis by (auto simp: get_buffer_def rb_read_def)
next
  case False
  then show ?thesis
    using assms
    by (auto simp: get_buffer_def rb_read_def fetch_def later_def sound_def anc_ok_def push_def)
qed

lemma extend_ends:
  assumes "sound rb"
  shows "ends (\<lambda>(n, rb'). later 0 rb rb') (get_extend_integer rb)"
proof -
  have "ends (\<lambda>(n, rb'). later 0 rb rb') (obind (get_integer c rb1) (\<lambda>(n, rb). Ok (f n, rb)))"
    if "later 0 rb rb1" for rb1 c and f :: "64 word \<Rightarrow> int"
    by (rule ends_bind [OF integer_ends [OF later_sound [OF that]]])
      (use later_trans [OF that] in auto)
  then show ?thesis
    unfolding get_extend_integer_def by (intro ends_bind [OF take_ends [OF assms]]) (auto simp: Let_def)
qed

lemma ref_ends:
  assumes "sound rb" "0 \<le> ref" "ref < 32"
  shows "ends (later (Suc 0) rb) (unpack_ref ref rb)"
proof (cases "ref = 31")
  case True
  have "ends (later (Suc 0) rb) (case rb_refs rb1 of None \<Rightarrow> Throw (InvalidRefId i)
      | Some refs \<Rightarrow> (case refs i of None \<Rightarrow> Throw (InvalidRefId i)
                                    | Some t \<Rightarrow> Ok (push (LTable t) rb1)))"
    if "later 0 rb rb1" for rb1 i
    using later_push [OF that] by (auto split: option.split)
  then show ?thesis
    using True by (auto simp: unpack_ref_def intro!: ends_bind [OF extend_ends [OF assms(1)]])
next
  case False
  have "0 < rb_ancestor rb (nat ref)" if "ref < int (rb_depth rb)"
  proof -
    have "nat ref < min 31 (rb_depth rb)" using that False assms(2,3) by auto
    then show ?thesis using assms(1) by (simp add: sound_def anc_ok_def)
  qed
  moreover have "later 0 rb rb" using assms(1) by (simp add: later_def)
  ultimately show ?thesis
    using False later_push [of rb rb]
    by (cases "ref < int (rb_depth rb)") (auto simp: unpack_ref_def push_index_def)
qed

section \<open>Tables\<close>

lemma size_ends:
  assumes "sound rb"
  shows "ends (\<lambda>(n, rb'). later 0 rb rb') (table_size c rb)"
  using extend_ends [OF assms] assms by (simp add: table_size_def later_def)

lemma create_sound:
  fixes type
  assumes "sound rb"
  defines "cb \<equiv> create_table type rb"
  shows "sound cb" "rb_depth cb = Suc (rb_depth rb)" "rb_len cb = rb_len rb"
    "rb_stack cb = LTable (length (rb_tables rb)) # rb_stack rb"
    "length (rb_tables cb) = Suc (length (rb_tables rb))"
    "0 < rb_ancestor rb k \<Longrightarrow> 0 < rb_ancestor cb k"
  using assms(1)
  by (auto simp: cb_def create_table_def Let_def push_def sound_def anc_ok_def less_Suc_eq)

lemma set_ends:
  assumes "later n rb rb'" "p < length (rb_tables rb)"
  shows "ends (later 0 rb) (set_entry p k v (rb'\<lparr>rb_stack := rb_stack rb\<rparr>))"
  using assms by (auto simp: set_entry_def later_def sound_def anc_ok_def)

text \<open>Two values read at two depths.\<close>

lemma later_depth:
  assumes "later m rb rb1" "later n (rb1\<lparr>rb_depth := d\<rparr>) rb2"
  shows "later (n + m) rb (rb2\<lparr>rb_depth := rb_depth rb\<rparr>)"
proof -
  have "anc_ok (rb_depth rb) rb2"
    using assms by (auto simp: later_def sound_def anc_ok_def)
  then show ?thesis
    using assms by (auto simp: later_def sound_def anc_ok_def)
qed

section \<open>The reader ends\<close>

lemma value_cases:
  assumes "0 \<le> t" "t < 8"
  shows "t = 0 \<or> t = 1 \<or> t = 2 \<or> t = 3 \<or> t = 4 \<or> t = 5 \<or> t = (6 :: int) \<or> t = 7"
  using assms by arith

lemma tag_bounds:
  fixes b :: byte
  shows "0 \<le> uint (b AND 7)" "uint (b AND 7) < 8" "0 \<le> uint (drop_bit 3 b)" "uint (drop_bit 3 b) < 32"
proof -
  have "uint (b AND 7) \<le> 7" by (simp add: uint_and)
  then show "uint (b AND 7) < 8" by simp
  have "take_bit 8 (uint b) < 2 ^ 8" by (rule take_bit_int_less_exp)
  then show "uint (drop_bit 3 b) < 32" by (subst unsigned_drop_bit_eq) (simp add: drop_bit_eq_div)
qed simp_all

text \<open>The values that hold no other value.\<close>

lemma scalar_ends:
  assumes "sound rb" "t \<noteq> 5" "t \<noteq> 6" "0 \<le> t" "t < 8" "0 \<le> c" "c < 32"
  shows "ends (later (Suc 0) rb) (push_value fuel t c rb)"
proof -
  have z: "later 0 rb rb" using assms(1) by (simp add: later_def)
  have p: "ends (later (Suc 0) rb) (obind m (\<lambda>(n, rb). Ok (push (f n) rb)))"
    if "ends (\<lambda>(n, rb'). later 0 rb rb') m" for m and f :: "64 word \<Rightarrow> lua_value"
    by (rule ends_bind [OF that]) (use later_push in auto)
  have b: "ends (later (Suc 0) rb) (obind (rb_take k rb) (\<lambda>(bs, rb). get_buffer (f bs) rb))"
    if k: "0 \<le> k" for k and f :: "byte list \<Rightarrow> int"
  proof (rule ends_bind [OF take_ends [OF assms(1) k]], clarify)
    fix bs rb1 assume "later 0 rb rb1"
    then show "ends (later (Suc 0) rb) (get_buffer (f bs) rb1)"
      using ends_mono [OF buffer_ends [OF later_sound], of 0 rb rb1] later_trans [of 0 rb rb1 "Suc 0"]
      by fastforce
  qed
  show ?thesis
    using value_cases [OF assms(4,5)] assms(2,3)
    by (elim disjE)
      (simp_all add: later_push [OF z] p integer_ends [OF assms(1)] word8_ends [OF assms(1)] b
        buffer_ends [OF assms(1)] ref_ends [OF assms(1,6,7)])
qed

declare unpack_one.simps [simp del] push_value.simps [simp del] unpack_table.simps [simp del]

lemma unpack_ends:
  "sound rb \<Longrightarrow> 2 * rb_len rb < int fuel \<Longrightarrow>
   ends (\<lambda>rb'. later (Suc 0) rb rb' \<and> rb_len rb' < rb_len rb) (unpack_one fuel rb)"
  "sound rb \<Longrightarrow> 2 * rb_len rb + 2 \<le> int fuel \<Longrightarrow> 0 \<le> t \<Longrightarrow> t < 8 \<Longrightarrow> 0 \<le> c \<Longrightarrow> c < 32 \<Longrightarrow>
   ends (later (Suc 0) rb) (push_value fuel t c rb)"
  "sound rb \<Longrightarrow> 2 * rb_len rb + 2 \<le> int fuel \<Longrightarrow>
   ends (later (Suc 0) rb) (unpack_table fuel c t rb)"
  "sound rb \<Longrightarrow> 2 * rb_len rb < int fuel \<Longrightarrow> rb_stack rb = LTable p # rest \<Longrightarrow>
   p < length (rb_tables rb) \<Longrightarrow> ends (later 0 rb) (array_items fuel n i rb)"
  "sound rb \<Longrightarrow> anc_ok (Suc (rb_depth rb)) rb \<Longrightarrow> 2 * rb_len rb + 2 \<le> int fuel \<Longrightarrow>
   rb_stack rb = LTable p # rest \<Longrightarrow> p < length (rb_tables rb) \<Longrightarrow>
   ends (later 0 rb) (hash_items fuel rb)"
proof (induction fuel rb and fuel t c rb and fuel c t rb and fuel n i rb and fuel rb
    arbitrary: and and and p rest and p rest
    rule: unpack_one_push_value_unpack_table_array_items_hash_items.induct)
  case (1 rb)
  then show ?case by (simp add: sound_def)
next
  case (2 fuel rb)
  show ?case
    unfolding unpack_one.simps
  proof (rule ends_bind_Ok [OF take_ends [OF "2.prems"(1)]], simp, clarify)
    fix bs rb1
    assume t: "rb_take 1 rb = Ok (bs, rb1)" and a: "later 0 rb rb1" and l: "rb_len rb1 = rb_len rb - 1"
    have s: "sound rb1" "2 * rb_len rb1 + 2 \<le> int fuel"
      using a l "2.prems"(2) by (auto simp: later_def)
    note r = "2.IH" [OF t refl s tag_bounds]
    show "ends (\<lambda>rb'. later (Suc 0) rb rb' \<and> rb_len rb' < rb_len rb)
        (push_value fuel (uint (hd bs AND 7)) (uint (drop_bit 3 (hd bs))) rb1)"
    proof (rule ends_mono [OF r])
      fix x assume x: "later (Suc 0) rb1 x"
      then have "rb_len x \<le> rb_len rb1" by (simp add: later_def)
      then show "later (Suc 0) rb x \<and> rb_len x < rb_len rb" using later_trans [OF a x] l by simp
    qed
  qed
next
  case (3 fuel t c rb)
  show ?case
  proof (cases "t = 5 \<or> t = 6")
    case True
    then have "push_value fuel t c rb = unpack_table fuel c t rb" by (auto simp: push_value.simps)
    then show ?thesis using "3.IH" "3.prems" True by auto
  next
    case False
    then show ?thesis using scalar_ends "3.prems" by blast
  qed
next
  case (4 fuel c t rb)
  show ?case
    unfolding unpack_table.simps
  proof (rule ends_bind_Ok [OF size_ends [OF "4.prems"(1)]], clarify)
    fix n rb1
    assume sz: "table_size c rb = Ok (n, rb1)" and l1: "later 0 rb rb1"
    let ?cb = "create_table t rb1" and ?p = "length (rb_tables rb1)"
    note cr = create_sound [OF later_sound [OF l1], where type = t]
    have c: "2 * rb_len ?cb < int fuel" "?p < length (rb_tables ?cb)"
      using cr "4.prems"(2) l1 by (auto simp: later_def)
    note arr = "4.IH"(1) [OF sz refl cr(1) c(1) cr(4) c(2)]
    show "ends (later (Suc 0) rb) (obind (array_items fuel (nat n) 1 ?cb)
        (\<lambda>rb. hash_items fuel (rb\<lparr>rb_depth := rb_depth rb - 1\<rparr>)))"
    proof (rule ends_bind_Ok [OF arr])
      fix rb2
      assume a: "array_items fuel (nat n) 1 ?cb = Ok rb2" and l2: "later 0 ?cb rb2"
      define db where "db = rb2\<lparr>rb_depth := rb_depth rb2 - 1\<rparr>"
      have d: "later (Suc 0) rb db" "anc_ok (Suc (rb_depth db)) db" "2 * rb_len db + 2 \<le> int fuel"
        "rb_stack db = LTable ?p # rb_stack rb1" "?p < length (rb_tables db)"
        using l1 l2 cr "4.prems"(2) by (auto simp: later_def db_def sound_def anc_ok_def)
      show "ends (later (Suc 0) rb) (hash_items fuel (rb2\<lparr>rb_depth := rb_depth rb2 - 1\<rparr>))"
        using ends_mono [OF "4.IH"(2) [OF sz refl a later_sound [OF d(1), unfolded db_def] d(2-5) [unfolded db_def]]]
          later_trans [OF d(1), of 0] by (simp add: db_def)
    qed
  qed
next
  case (5 fuel i rb)
  then show ?case by (simp add: later_def)
next
  case (6 fuel n i rb)
  show ?case
    unfolding array_items.simps
  proof (rule ends_bind_Ok [OF "6.IH"(1) [OF "6.prems"(1,2)]], clarify)
    fix rb1
    assume u: "unpack_one fuel rb = Ok rb1" and l1: "later (Suc 0) rb rb1"
    then obtain v where v: "rb_stack rb1 = v # LTable p # rest"
      using "6.prems"(3) by (auto simp: later_def length_Suc_conv)
    have "ends (later 0 rb) (rawseti i rb1)"
      using set_ends [OF l1 "6.prems"(4), of "LInt (word_of_int i)" v] v "6.prems"(3)
      by (simp add: rawseti_def)
    then show "ends (later 0 rb) (obind (rawseti i rb1) (array_items fuel n (i + 1)))"
    proof (rule ends_bind_Ok)
      fix rb2 assume r: "rawseti i rb1 = Ok rb2" and l2: "later 0 rb rb2"
      have "sound rb2" "2 * rb_len rb2 < int fuel" "rb_stack rb2 = LTable p # rest"
        "p < length (rb_tables rb2)"
        using l2 "6.prems" by (auto simp: later_def)
      from ends_mono [OF "6.IH"(2) [OF u r this] later_trans [OF l2]]
      show "ends (later 0 rb) (array_items fuel n (i + 1) rb2)" by simp
    qed
  qed
next
  case (7 rb)
  then show ?case by (simp add: sound_def)
next
  case (8 fuel rb)
  have f: "2 * rb_len rb < int fuel" using "8.prems"(3) by simp
  show ?case
    unfolding hash_items.simps
  proof (rule ends_bind_Ok [OF "8.IH"(1) [OF "8.prems"(1) f]], elim conjE)
    fix rb1
    assume u: "unpack_one fuel rb = Ok rb1" and l1: "later (Suc 0) rb rb1" and less: "rb_len rb1 < rb_len rb"
    then obtain k where k: "rb_stack rb1 = k # LTable p # rest"
      using "8.prems"(4) by (auto simp: later_def length_Suc_conv)
    show "ends (later 0 rb) (if rb_stack rb1 \<noteq> [] \<and> hd (rb_stack rb1) = LNil
       then Ok (rb1\<lparr>rb_stack := tl (rb_stack rb1)\<rparr>)
       else obind (unpack_one fuel (rb1\<lparr>rb_depth := rb_depth rb1 + 1\<rparr>)) (\<lambda>rb.
              obind (rawset (rb\<lparr>rb_depth := rb_depth rb - 1\<rparr>)) (\<lambda>rb. hash_items fuel rb)))"
    proof (cases "k = LNil")
      case True
      then show ?thesis using l1 k "8.prems"(4) by (simp add: later_def sound_def anc_ok_def)
    next
      case False
      then have nk: "\<not> (rb_stack rb1 \<noteq> [] \<and> hd (rb_stack rb1) = LNil)" using k by simp
      have c: "sound (rb1\<lparr>rb_depth := rb_depth rb1 + 1\<rparr>)"
        "2 * rb_len (rb1\<lparr>rb_depth := rb_depth rb1 + 1\<rparr>) < int fuel"
        using l1 less f "8.prems"(2) by (auto simp: later_def sound_def anc_ok_def)
      note v = "8.IH"(2) [OF u nk c]
      show ?thesis
        unfolding if_not_P [OF nk]
      proof (rule ends_bind_Ok [OF v], elim conjE)
        fix rb2
        assume u2: "unpack_one fuel (rb1\<lparr>rb_depth := rb_depth rb1 + 1\<rparr>) = Ok rb2"
          and l2: "later (Suc 0) (rb1\<lparr>rb_depth := rb_depth rb1 + 1\<rparr>) rb2"
        define db where "db = rb2\<lparr>rb_depth := rb_depth rb2 - 1\<rparr>"
        have dep: "rb_depth rb2 - 1 = rb_depth rb" using l1 l2 by (simp add: later_def)
        have d: "later (Suc 0 + Suc 0) rb db"
          unfolding db_def dep by (rule later_depth [OF l1 l2])
        obtain x where x: "rb_stack db = x # k # LTable p # rest"
          using l2 k by (auto simp: later_def length_Suc_conv db_def)
        have "ends (later 0 rb) (rawset db)"
          using set_ends [OF d "8.prems"(5), of k x] x "8.prems"(4) by (simp add: rawset_def)
        then show "ends (later 0 rb)
            (obind (rawset (rb2\<lparr>rb_depth := rb_depth rb2 - 1\<rparr>)) (\<lambda>rb. hash_items fuel rb))"
          unfolding db_def [symmetric]
        proof (rule ends_bind_Ok)
          fix rb3 assume r: "rawset db = Ok rb3" and l3: "later 0 rb rb3"
          have len: "rb_len rb3 < rb_len rb"
          proof -
            have "rb_len rb3 = rb_len db"
              using r x by (auto simp: rawset_def set_entry_def split: if_splits)
            also have "\<dots> \<le> rb_len rb1" using l2 by (simp add: later_def db_def)
            finally show ?thesis using less by simp
          qed
          have h: "sound rb3" "anc_ok (Suc (rb_depth rb3)) rb3" "2 * rb_len rb3 + 2 \<le> int fuel"
            "rb_stack rb3 = LTable p # rest" "p < length (rb_tables rb3)"
            using l3 len "8.prems" by (auto simp: later_def anc_ok_def)
          from ends_mono [OF "8.IH"(3) [OF u nk u2 r [unfolded db_def] h] later_trans [OF l3]]
          show "ends (later 0 rb) (hash_items fuel rb3)" by simp
        qed
      qed
    qed
  qed
qed

section \<open>Whole streams\<close>

lemma loop_ends:
  "sound rb \<Longrightarrow> 2 * rb_len rb + 2 < int fuel \<Longrightarrow> ends (\<lambda>rb'. True) (unpack_loop fuel rb)"
proof (induction fuel arbitrary: rb)
  case (Suc fuel)
  show ?case
  proof (cases "rb_len rb < 1")
    case False
    define rb1 where "rb1 = rb\<lparr>rb_ptr := rb_ptr rb + 1, rb_len := rb_len rb - 1\<rparr>"
    have s: "sound rb1" "2 * rb_len rb1 + 2 \<le> int fuel"
      using Suc.prems False by (auto simp: rb1_def sound_def anc_ok_def)
    obtain bs where "fetch (rb_buffer rb) (rb_ptr rb) 1 = Ok bs"
      using Suc.prems(1) False by (auto simp: fetch_def sound_def)
    then have "unpack_loop (Suc fuel) rb =
        obind (push_value fuel (uint (hd bs AND 7)) (uint (drop_bit 3 (hd bs))) rb1) (unpack_loop fuel)"
      using False by (simp add: rb_read_def rb1_def)
    also have "ends (\<lambda>rb'. True) \<dots>"
    proof (rule ends_bind [OF unpack_ends(2) [OF s tag_bounds]])
      fix rb2 assume "later (Suc 0) rb1 rb2"
      then have "sound rb2" "2 * rb_len rb2 + 2 < int fuel"
        using Suc.prems(2) False by (auto simp: later_def rb1_def)
      then show "ends (\<lambda>rb'. True) (unpack_loop fuel rb2)" by (rule Suc.IH)
    qed
    finally show ?thesis .
  qed (simp add: rb_read_def)
qed (simp add: sound_def)

end
