(* ===== verification/SeriProps.thy ===== *)
theory SeriProps
  imports SeriRound SeriTotal
begin

text \<open>
  Properties of \<open>lua-seri.c\<close>: \<open>seri_pack\<close> returns on every finite graph of tables,
  \<open>seri_unpack\<close> rebuilds it with its sharing and cycles, and it ends on every buffer.
\<close>

section \<open>Values that can be packed\<close>

definition packable :: "nat set \<Rightarrow> lua_value \<Rightarrow> bool" where
  "packable D v = (case v of
     LTable t \<Rightarrow> t \<in> D | LStr s \<Rightarrow> length s < 2 ^ 31 | LClosure \<Rightarrow> False | LOther s \<Rightarrow> False | _ \<Rightarrow> True)"

definition table_values :: "lua_table \<Rightarrow> lua_value list" where
  "table_values T = (case lt_metapairs T of
     Some ps \<Rightarrow> map fst ps @ map snd ps
   | None \<Rightarrow> lt_array T @ map fst (lt_pairs T) @ map snd (lt_pairs T))"

text \<open>\<open>D\<close> is a finite set of tables that hold only values that can be packed.\<close>

definition packable_heap :: "lua_heap \<Rightarrow> nat set \<Rightarrow> bool" where
  "packable_heap H D \<longleftrightarrow> finite D \<and>
     (\<forall>t \<in> D. length (lt_array (H t)) < 2 ^ 31 \<and> (\<forall>v \<in> set (table_values (H t)). packable D v))"

lemma card_less_seen:
  assumes "finite D" "set seen \<subseteq> set s"
  shows "card (D - set s) \<le> card (D - set seen)"
  using assms by (intro card_mono) auto

lemma apack_total:
  "packable_heap H D \<Longrightarrow> packable D v \<Longrightarrow> set seen \<subseteq> D \<Longrightarrow> card (D - set seen) \<le> fuel \<Longrightarrow>
   \<exists>us s. apack fuel H anc seen v = Some (us, s) \<and> set s \<subseteq> D"
  "packable_heap H D \<Longrightarrow> t \<in> D - set seen \<Longrightarrow> set seen \<subseteq> D \<Longrightarrow> card (D - set seen) \<le> fuel \<Longrightarrow>
   \<exists>us s. atable fuel H anc seen t = Some (us, s) \<and> set s \<subseteq> D"
  "packable_heap H D \<Longrightarrow> \<forall>v \<in> set vs. packable D v \<Longrightarrow> set seen \<subseteq> D \<Longrightarrow> card (D - set seen) \<le> fuel \<Longrightarrow>
   \<exists>us s. alist fuel H anc seen vs = Some (us, s) \<and> set s \<subseteq> D"
  "packable_heap H D \<Longrightarrow> \<forall>(k, v) \<in> set ps. packable D k \<and> packable D v \<Longrightarrow> set seen \<subseteq> D \<Longrightarrow>
   card (D - set seen) \<le> fuel \<Longrightarrow>
   \<exists>us s. apairs fuel H anc seen n ps = Some (us, s) \<and> set s \<subseteq> D"
proof (induction fuel H anc seen v and fuel H anc seen t and fuel H anc seen vs
    and fuel H anc seen n ps rule: apack_atable_alist_apairs.induct)
  case (10 fuel H anc seen t)
  then show ?case by (auto simp: packable_def)
next
  case (11 H anc seen t)
  then have "finite (D - set seen)" "D - set seen \<noteq> {}" by (auto simp: packable_heap_def)
  then show ?case using "11.prems"(4) by (simp add: card_gt_0_iff)
next
  case (12 fuel H anc seen t)
  have fin: "finite D" using "12.prems"(1) by (simp add: packable_heap_def)
  have t: "length (lt_array (H t)) < 2 ^ 31" "\<forall>v \<in> set (table_values (H t)). packable D v"
    using "12.prems"(1,2) by (auto simp: packable_heap_def)
  have "D - set (seen @ [t]) \<subset> D - set seen" using "12.prems"(2) by auto
  then have "card (D - set (seen @ [t])) < card (D - set seen)"
    using fin by (intro psubset_card_mono) auto
  then have c: "set (seen @ [t]) \<subseteq> D" "card (D - set (seen @ [t])) \<le> fuel"
    using "12.prems" by auto
  show ?case
  proof (cases "lt_metapairs (H t)")
    case None
    have v: "\<forall>v \<in> set (lt_array (H t)). packable D v"
      "\<forall>(k, v) \<in> set (lt_pairs (H t)). packable D k \<and> packable D v"
      using t(2) None by (force simp: table_values_def)+
    obtain us1 s1 where a: "alist fuel H (anc @ [t]) (seen @ [t]) (lt_array (H t)) = Some (us1, s1)" "set s1 \<subseteq> D"
      using "12.IH"(1) [OF None refl t(1) "12.prems"(1) v(1) c] by blast
    have "set (seen @ [t]) \<subseteq> set s1" using apack_prefix(3) [OF a(1)] by (rule set_mono_prefix)
    then have "card (D - set s1) \<le> fuel" using card_less_seen [OF fin] c(2) by (meson order_trans)
    then obtain us2 s where "apairs fuel H (anc @ [t]) s1 (int (length (lt_array (H t)))) (lt_pairs (H t)) = Some (us2, s)"
      "set s \<subseteq> D"
      using "12.IH"(2) [OF None refl t(1) a(1) refl "12.prems"(1) v(2) a(2)] by blast
    then show ?thesis using None t(1) a(1) by simp
  next
    case (Some ps)
    have v: "\<forall>(k, v) \<in> set ps. packable D k \<and> packable D v"
      using t(2) Some by (force simp: table_values_def)
    show ?thesis using "12.IH"(3) [OF Some "12.prems"(1) v c] Some by auto
  qed
next
  case (14 fuel H anc seen v vs)
  have fin: "finite D" using "14.prems"(1) by (simp add: packable_heap_def)
  obtain us1 s1 where a: "apack fuel H anc seen v = Some (us1, s1)" "set s1 \<subseteq> D"
    using "14.IH"(1) "14.prems" by auto
  have "card (D - set s1) \<le> fuel"
    using card_less_seen [OF fin set_mono_prefix [OF apack_prefix(1) [OF a(1)]]] "14.prems"(4) by simp
  then show ?case using "14.IH"(2) [OF a(1) refl "14.prems"(1) _ a(2)] "14.prems"(2) a(1) by auto
next
  case (16 fuel H anc seen n k v ps)
  have fin: "finite D" using "16.prems"(1) by (simp add: packable_heap_def)
  show ?case
  proof (cases "in_array_part n k")
    case True
    then show ?thesis using "16.IH"(1) "16.prems" by auto
  next
    case False
    obtain us1 s1 where a: "apack fuel H anc seen k = Some (us1, s1)" "set s1 \<subseteq> D"
      using "16.IH"(2) [OF False] "16.prems" by auto
    have c1: "card (D - set s1) \<le> fuel"
      using card_less_seen [OF fin set_mono_prefix [OF apack_prefix(1) [OF a(1)]]] "16.prems"(4) by simp
    obtain us2 s2 where b: "apack fuel H anc s1 v = Some (us2, s2)" "set s2 \<subseteq> D"
      using "16.IH"(3) [OF False a(1) refl "16.prems"(1) _ a(2) c1] "16.prems"(2) by auto
    have c2: "card (D - set s2) \<le> fuel"
      using card_less_seen [OF fin set_mono_prefix [OF apack_prefix(1) [OF b(1)]]] c1 by simp
    show ?thesis
      using "16.IH"(4) [OF False a(1) refl b(1) refl "16.prems"(1) _ b(2) c2] "16.prems"(2) a(1) b(1) False
      by auto
  qed
qed (auto simp: packable_def)

section \<open>The loop over the values\<close>

lemma tok_bytes_nonempty: "tok_bytes M t \<noteq> []"
  by (cases t) (auto simp: int_bytes_def str_bytes_def table_bytes_def Let_def)

lemma length_enc_ge: "length us \<le> length (enc M us)"
proof (induction us)
  case (Cons t us)
  then show ?case using tok_bytes_nonempty [of M t] by (cases "tok_bytes M t") simp_all
qed simp

lemma apack_nonempty: "apack fuel H anc seen v = Some (us, s) \<Longrightarrow> us \<noteq> []"
proof (cases v)
  case (LTable t)
  assume a: "apack fuel H anc seen v = Some (us, s)"
  show ?thesis
  proof (cases "atable fuel H anc seen t = Some (us, s)")
    case True
    then show ?thesis by (cases fuel) (auto simp: Let_def split: option.splits prod.splits if_splits)
  next
    case False
    then show ?thesis using a LTable by (auto split: if_splits)
  qed
qed (auto split: if_splits)

lemma loop_round:
  assumes "reads rb bs" "bs \<noteq> []"
  shows "unpack_loop (Suc f) rb = obind (unpack_one (Suc f) rb) (unpack_loop f)"
proof -
  obtain x ys where bs: "bs = [x] @ ys" using assms(2) by (cases bs) auto
  show ?thesis
    using rb_read_adv [of rb "[x]" ys] rb_take_adv [of rb "[x]" ys 1] assms(1) bs
    by (simp add: unpack_one.simps)
qed

lemma grow_push_more:
  assumes "grow H F M n 0 [] [a] seen s rb rb1" "grow H F M n 0 [] vs s s' rb1 rb2"
  shows "grow H F M n 0 [] (vs @ [a]) seen s' rb rb2"
proof -
  have pre: "prefix seen s" "prefix s s'" using assms by (simp_all add: grow_def)
  have e: "map (entries H F) (drop (length seen) s) @ map (entries H F) (drop (length s) s') =
      map (entries H F) (drop (length seen) s')"
    unfolding map_append [symmetric] drop_prefix_append [OF pre] ..
  then show ?thesis
    using assms prefix_order.trans [OF pre] by (simp add: grow_def refs_rd_def e)
qed

lemma unpack_values:
  "alist fuel H [] seen vs = Some (us, s) \<Longrightarrow> refd us \<subseteq> M \<Longrightarrow> prefix s F \<Longrightarrow> walk_ok H F \<Longrightarrow>
   rdr M F seen [] rb \<Longrightarrow> rb_depth rb = 0 \<Longrightarrow> reads rb (enc M us) \<Longrightarrow> length us + 1 < rf \<Longrightarrow>
   \<exists>rb'. unpack_loop rf rb = Ok rb' \<and> grow H F M 0 0 [] (rev (map (ren F) vs)) seen s rb rb'"
proof (induction vs arbitrary: seen us rb rf)
  case Nil
  then obtain f where "rf = Suc f" by (cases rf) auto
  then show ?case
    using Nil reads_len [OF Nil(7)] by (auto simp: rb_read_def grow_def rdr_def)
next
  case (Cons v vs)
  obtain us1 s1 us2 where w: "apack fuel H [] seen v = Some (us1, s1)"
    "alist fuel H [] s1 vs = Some (us2, s)" "us = us1 @ us2"
    using Cons.prems(1) by (auto split: option.splits prod.splits)
  obtain f where f: "rf = Suc f" using Cons.prems(8) by (cases rf) auto
  have ne: "us1 \<noteq> []" using apack_nonempty [OF w(1)] .
  have s1F: "prefix s1 F" using apack_prefix(3) [OF w(2)] Cons.prems(3) by (rule prefix_order.trans)
  have M: "refd us1 \<subseteq> M" "refd us2 \<subseteq> M" using Cons.prems(2) w(3) by simp_all
  have "1 \<le> length us1" using ne by (simp add: Suc_le_eq)
  moreover have "length us1 + length us2 + 1 < Suc f" using Cons.prems(8) w(3) f by simp
  ultimately have l: "length us1 < Suc f" "length us2 + 1 < f" by linarith+
  have r: "reads rb (enc M us1 @ enc M us2)" using Cons.prems(7) w(3) by simp
  have d: "distinct ([] :: nat list)" "set [] \<subseteq> set seen" "rb_depth rb = length ([] :: nat list)"
    using Cons.prems(6) by simp_all
  obtain rb1 where rb1: "unpack_one (Suc f) rb = Ok rb1" "reads rb1 (enc M us2)"
    "grow H F M 0 0 [] [ren F v] seen s1 rb rb1"
    using unpack_tokens(1) [OF w(1) M(1) s1F Cons.prems(4) d(1,2) Cons.prems(5) d(3) r l(1)] by auto
  have rd1: "rdr M F s1 [] rb1" by (rule rdr_grow [OF Cons.prems(5)]) (use rb1(3) in simp)
  have "rb_depth rb1 = 0" using rb1(3) Cons.prems(6) by (simp add: grow_def)
  then obtain rb2 where rb2: "unpack_loop f rb1 = Ok rb2"
    "grow H F M 0 0 [] (rev (map (ren F) vs)) s1 s rb1 rb2"
    using Cons.IH [OF w(2) M(2) Cons.prems(3,4) rd1 _ rb1(2) l(2)] by blast
  have "enc M us1 @ enc M us2 \<noteq> []" using length_enc_ge [of us1 M] ne by auto
  then have "unpack_loop rf rb = Ok rb2"
    using loop_round [OF r] rb1(1) rb2(1) f by simp
  then show ?case using grow_push_more [OF rb1(3) rb2(2)] by auto
qed

section \<open>Packing\<close>

lemma rep_init: "rep wb_init [] [] []"
proof -
  have c: "cells wb_init = []" by (simp add: cells_def wb_init_def)
  show ?thesis
    by (simp add: rep_def blocks_ok_def c flat_def refs_ok_def)
      (simp add: wb_init_def blk_alloc_def)
qed

text \<open>What \<open>seri_pack\<close> gives, when the walk ends with the tokens \<open>us\<close> and the tables \<open>s\<close>.\<close>

lemma seri_pack_tokens:
  assumes "alist fuel H [] [] vs = Some (us, s)"
  defines "body \<equiv> enc (refd us) us"
  shows "seri_pack fuel H vs = (if int (length body) + 4 < 2 ^ 31
      then Ok (le_bytes 4 (word_of_nat (length body) :: 32 word) @ body, int (length body) + 4) else Abort)"
    and "distinct s" and "\<exists>wb. pack_from fuel H vs wb_init = Ok wb \<and> wb_len wb = int (length body)"
proof -
  obtain b where b: "array_loop fuel H vs wb_init = Ok b" "rep b us s []"
    using pack_tokens(3) [OF assms(1) rep_init] by auto
  have ok: "blocks_ok b" "flat b = body" using b(2) by (simp_all add: rep_def body_def)
  have len: "wb_len b = int (length body)" using length_flat [OF ok(1)] ok(2) by simp
  show "seri_pack fuel H vs = (if int (length body) + 4 < 2 ^ 31
      then Ok (le_bytes 4 (word_of_nat (length body) :: 32 word) @ body, int (length body) + 4) else Abort)"
    using b(1) seri_flat [OF ok(1)] by (simp add: seri_pack_def pack_from_def len_fits_def ok(2) len)
  show "distinct s" using b(2) by (simp add: rep_def)
  show "\<exists>wb. pack_from fuel H vs wb_init = Ok wb \<and> wb_len wb = int (length body)"
    using b(1) len by (simp add: pack_from_def)
qed

lemma rdr_init:
  assumes "bs = enc M us"
  defines "rb \<equiv> push LNil (rball_init bs (int (length bs)))"
  shows "rdr M F [] [] rb" "rb_depth rb = 0" "reads rb (enc M us)" "rb_stack rb = [LNil]"
    "rb_tables rb = []"
  using assms by (simp_all add: rdr_def refs_rd_def push_def rball_init_def reads_def)

text \<open>Reading back the tokens of the values \<open>vs\<close>.\<close>

lemma seri_unpack_tokens:
  assumes w: "alist fuel H [] [] vs = Some (us, s)" and ok: "walk_ok H s"
    and len: "length (enc (refd us) us) < 2 ^ 31" and f: "length us + 1 < rf"
  shows "seri_unpack rf (le_bytes 4 (word_of_nat (length (enc (refd us) us)) :: 32 word) @ enc (refd us) us) =
     Ok (map (ren s) vs, map (entries H s) s)"
proof -
  define bs where "bs = enc (refd us) us"
  define rb where "rb = push LNil (rball_init bs (int (length bs)))"
  note i = rdr_init [OF bs_def, folded rb_def]
  obtain rb' where rb': "unpack_loop rf rb = Ok rb'"
    "grow H s (refd us) 0 0 [] (rev (map (ren s) vs)) [] s rb rb'"
    using unpack_values [OF w subset_refl prefix_order.refl ok i(1-3) f] by blast
  have st: "rb_stack rb' = rev (map (ren s) vs) @ [LNil]" "rb_tables rb' = map (entries H s) s"
    using rb'(2) i(4,5) by (simp_all add: grow_def)
  define n where "n = length bs"
  have sz: "sint (word_of_nat n :: 32 word) = int n"
    using len by (simp add: n_def bs_def signed_of_nat signed_take_bit_int_eq_self)
  have hdr: "fetch (le_bytes 4 (word_of_nat n :: 32 word) @ bs) 0 4 = Ok (le_bytes 4 (word_of_nat n :: 32 word))"
    by (simp add: fetch_def)
  have "seri_unpack rf (le_bytes 4 (word_of_nat n :: 32 word) @ bs) =
      obind (unpack_loop rf (push LNil (rball_init bs (sint (word_of_nat n :: 32 word)))))
        (\<lambda>rb. Ok (tl (rev (rb_stack rb)), rb_tables rb))"
    unfolding seri_unpack_def hdr by (simp add: Let_def le_word_inverse)
  then show ?thesis
    using rb'(1) st unfolding sz by (simp add: n_def bs_def rb_def)
qed

section \<open>The walk meets every table\<close>

definition pair_values :: "int \<Rightarrow> (lua_value \<times> lua_value) list \<Rightarrow> lua_value set" where
  "pair_values n ps = (\<Union>(k, v) \<in> set ps. if in_array_part n k then {} else {k, v})"

definition written :: "lua_table \<Rightarrow> lua_value set" where
  "written T = (case lt_metapairs T of
     Some ps \<Rightarrow> pair_values 0 ps
   | None \<Rightarrow> set (lt_array T) \<union> pair_values (int (length (lt_array T))) (lt_pairs T))"

definition holds_in :: "lua_value set \<Rightarrow> nat list \<Rightarrow> bool" where
  "holds_in V s \<longleftrightarrow> (\<forall>u. LTable u \<in> V \<longrightarrow> u \<in> set s)"

definition closed :: "lua_heap \<Rightarrow> nat list \<Rightarrow> nat list \<Rightarrow> bool" where
  "closed H seen s \<longleftrightarrow> (\<forall>t \<in> set s - set seen. holds_in (written (H t)) s)"

lemma holds_in_mono: "holds_in V s \<Longrightarrow> prefix s s' \<Longrightarrow> holds_in V s'"
  by (auto simp: holds_in_def dest: set_mono_prefix)

lemma closed_trans:
  assumes "closed H seen s" "closed H s s'" "prefix s s'"
  shows "closed H seen s'"
  unfolding closed_def
proof
  fix t assume "t \<in> set s' - set seen"
  then show "holds_in (written (H t)) s'"
    using assms(1,2) holds_in_mono [OF _ assms(3)] by (cases "t \<in> set s") (auto simp: closed_def)
qed

lemma holds_in_simps [simp]:
  "holds_in {} s" "holds_in (insert v V) s \<longleftrightarrow> (\<forall>u. v = LTable u \<longrightarrow> u \<in> set s) \<and> holds_in V s"
  "holds_in (V \<union> W) s \<longleftrightarrow> holds_in V s \<and> holds_in W s"
  by (auto simp: holds_in_def)

lemma closed_refl [simp]: "closed H s s"
  by (simp add: closed_def)

lemma closed_table:
  "closed H (seen @ [t]) s \<Longrightarrow> holds_in (written (H t)) s \<Longrightarrow> closed H seen s"
  by (auto simp: closed_def)

lemma pair_values_simps [simp]:
  "pair_values n [] = {}"
  "pair_values n ((k, v) # ps) = (if in_array_part n k then {} else {k, v}) \<union> pair_values n ps"
  by (auto simp: pair_values_def)

lemma apack_closed:
  "apack fuel H anc seen v = Some (us, s) \<Longrightarrow> set anc \<subseteq> set seen \<Longrightarrow> closed H seen s \<and> holds_in {v} s"
  "atable fuel H anc seen t = Some (us, s) \<Longrightarrow> set anc \<subseteq> set seen \<Longrightarrow> closed H seen s"
  "alist fuel H anc seen vs = Some (us, s) \<Longrightarrow> set anc \<subseteq> set seen \<Longrightarrow>
   closed H seen s \<and> holds_in (set vs) s"
  "apairs fuel H anc seen n ps = Some (us, s) \<Longrightarrow> set anc \<subseteq> set seen \<Longrightarrow>
   closed H seen s \<and> holds_in (pair_values n ps) s"
proof (induction fuel H anc seen v and fuel H anc seen t and fuel H anc seen vs
    and fuel H anc seen n ps arbitrary: us s and us s and us s and us s
    rule: apack_atable_alist_apairs.induct)
  case (10 fuel H anc seen t)
  show ?case
  proof (cases "t \<in> set seen")
    case True
    then show ?thesis using "10.prems" by (auto split: if_splits)
  next
    case False
    then have n: "\<not> (t \<in> set anc \<and> length anc < 31)" using "10.prems"(2) by auto
    then have at: "atable fuel H anc seen t = Some (us, s)" using "10.prems"(1) False by auto
    then have "t \<in> set s" using set_mono_prefix [OF apack_prefix(2)] by fastforce
    then show ?thesis using "10.IH" [OF n False at "10.prems"(2)] by simp
  qed
next
  case (12 fuel H anc seen t)
  have A: "set (anc @ [t]) \<subseteq> set (seen @ [t])" using "12.prems"(2) by auto
  show ?case
  proof (cases "lt_metapairs (H t)")
    case None
    define n where "n = length (lt_array (H t))"
    obtain us1 s1 us2 where w: "n < 2 ^ 31"
      "alist fuel H (anc @ [t]) (seen @ [t]) (lt_array (H t)) = Some (us1, s1)"
      "apairs fuel H (anc @ [t]) s1 (int n) (lt_pairs (H t)) = Some (us2, s)"
      using "12.prems"(1) None by (auto simp: n_def Let_def split: if_splits option.splits prod.splits)
    have pre: "prefix s1 s" and A1: "set (anc @ [t]) \<subseteq> set s1"
      using apack_prefix(4) [OF w(3)] A set_mono_prefix [OF apack_prefix(3) [OF w(2)]] by blast+
    have a: "closed H (seen @ [t]) s1" "holds_in (set (lt_array (H t))) s1"
      using "12.IH"(1) [OF None n_def w(1,2) A] by simp_all
    have b: "closed H s1 s" "holds_in (pair_values (int n) (lt_pairs (H t))) s"
      using "12.IH"(2) [OF None n_def w(1,2) refl w(3) A1] by simp_all
    show ?thesis
      using closed_table [OF closed_trans [OF a(1) b(1) pre]] b(2) holds_in_mono [OF a(2) pre]
      by (simp add: written_def None n_def)
  next
    case (Some ps)
    obtain us1 where w: "apairs fuel H (anc @ [t]) (seen @ [t]) 0 ps = Some (us1, s)"
      using "12.prems"(1) Some by (auto split: option.splits prod.splits)
    show ?thesis
      using "12.IH"(3) [OF Some w A] closed_table [of H seen t s] by (simp add: written_def Some)
  qed
next
  case (14 fuel H anc seen v vs)
  obtain us1 s1 us2 where w: "apack fuel H anc seen v = Some (us1, s1)"
    "alist fuel H anc s1 vs = Some (us2, s)"
    using "14.prems"(1) by (auto split: option.splits prod.splits)
  have pre: "prefix s1 s" and A1: "set anc \<subseteq> set s1"
    using apack_prefix(3) [OF w(2)] "14.prems"(2) set_mono_prefix [OF apack_prefix(1) [OF w(1)]] by blast+
  have a: "closed H seen s1" "holds_in {v} s1" using "14.IH"(1) [OF w(1) "14.prems"(2)] by simp_all
  have b: "closed H s1 s" "holds_in (set vs) s" using "14.IH"(2) [OF w(1) refl w(2) A1] by simp_all
  show ?case using closed_trans [OF a(1) b(1) pre] holds_in_mono [OF a(2) pre] b(2) by simp
next
  case (16 fuel H anc seen n k v ps)
  show ?case
  proof (cases "in_array_part n k")
    case True
    then show ?thesis using "16.IH"(1) [OF True _ "16.prems"(2)] "16.prems"(1) by simp
  next
    case False
    obtain us1 s1 us2 s2 us3 where w: "apack fuel H anc seen k = Some (us1, s1)"
      "apack fuel H anc s1 v = Some (us2, s2)" "apairs fuel H anc s2 n ps = Some (us3, s)"
      using "16.prems"(1) False by (auto split: option.splits prod.splits)
    have pre: "prefix s1 s2" "prefix s2 s" and A1: "set anc \<subseteq> set s1" and A2: "set anc \<subseteq> set s2"
      using apack_prefix(1,4) w "16.prems"(2) set_mono_prefix [OF apack_prefix(1) [OF w(1)]]
        set_mono_prefix [OF apack_prefix(1) [OF w(2)]] by blast+
    have a: "closed H seen s1" "holds_in {k} s1"
      using "16.IH"(2) [OF False w(1) "16.prems"(2)] by simp_all
    have b: "closed H s1 s2" "holds_in {v} s2" using "16.IH"(3) [OF False w(1) refl w(2) A1] by simp_all
    have c: "closed H s2 s" "holds_in (pair_values n ps) s"
      using "16.IH"(4) [OF False w(1) refl w(2) refl w(3) A2] by simp_all
    show ?thesis
      using closed_trans [OF closed_trans [OF a(1) b(1) pre(1)] c(1) pre(2)]
        holds_in_mono [OF holds_in_mono [OF a(2) pre(1)] pre(2)] holds_in_mono [OF b(2) pre(2)] c(2) False
      by simp
  qed
qed (auto split: if_splits)

section \<open>Properties\<close>



text \<open>
  C9: what is packed is unpacked. The values read are the values written, where the tables made
  are numbered by \<open>seen\<close>, a list without repetitions of exactly the tables that can be met from the
  values; each is given the array part and the pairs that were written, with the tables renamed
  in the same way. So the graph of tables is rebuilt up to renaming, with its sharing and its
  cycles. The keys of the hash part are taken to be neither tables nor NaN (a table as a key is
  misread, \<open>table_key_misread\<close>); that \<open>seri_pack\<close> returned means its size is less than \<open>2 ^ 31\<close>.
\<close>

theorem seri_round_trip:
  assumes "packable_heap H D" "\<forall>v \<in> set vs. packable D v" "\<forall>t \<in> D. keys_ok (H t)"
    "card D < 2 ^ 31" "card D \<le> fuel" "seri_pack fuel H vs = Ok (buf, sz)" "sz \<le> int rfuel"
  shows "\<exists>seen. distinct seen \<and> set seen \<subseteq> D \<and> holds_in (set vs) seen \<and>
     (\<forall>t \<in> set seen. holds_in (written (H t)) seen) \<and>
     seri_unpack rfuel buf = Ok (map (ren seen) vs, map (entries H seen) seen)"
proof -
  obtain us s where w: "alist fuel H [] [] vs = Some (us, s)" and s: "set s \<subseteq> D"
    using apack_total(3) [OF assms(1,2), of "[]" fuel "[]"] assms(5) by auto
  define body where "body = enc (refd us) us"
  note pk = seri_pack_tokens [OF w, folded body_def]
  have size: "int (length body) + 4 < 2 ^ 31" and
    buf: "buf = le_bytes 4 (word_of_nat (length body) :: 32 word) @ body" "sz = int (length body) + 4"
    using pk(1) assms(6) by (auto split: if_splits)
  have fin: "finite D" using assms(1) by (simp add: packable_heap_def)
  have "card (set s) < 2 ^ 31" using card_mono [OF fin s] assms(4) by simp
  then have ok: "walk_ok H s" using pk(2) s assms(3) by (auto simp: walk_ok_def distinct_card)
  have len: "length (enc (refd us) us) < 2 ^ 31" "length us + 1 < rfuel"
    using size buf(2) assms(7) length_enc_ge [of us "refd us"] by (auto simp: body_def)
  have "seri_unpack rfuel buf = Ok (map (ren s) vs, map (entries H s) s)"
    using seri_unpack_tokens [OF w ok len] buf(1) by (simp add: body_def)
  moreover have "closed H [] s" "holds_in (set vs) s" using apack_closed(3) [OF w] by simp_all
  ultimately show ?thesis using pk(2) s by (auto simp: closed_def)
qed

text \<open>A table that holds itself and, twice, an empty table.\<close>

definition ring_heap :: lua_heap where
  "ring_heap t = (if t = 7
     then \<lparr>lt_array = [LTable 3, LTable 7], lt_pairs = [(LStr [120], LTable 3)], lt_metapairs = None\<rparr>
     else \<lparr>lt_array = [], lt_pairs = [], lt_metapairs = None\<rparr>)"

definition ring_buffer :: "byte list" where
  "ring_buffer = [10, 0, 0, 0, 0x15, 6, 0, 7, 0x0B, 120, 0xFF, 9, 2, 0]"

lemma three: "3 = Suc (Suc (Suc 0))"
  by simp

lemma ring_pack: "seri_pack 3 ring_heap [LTable 7] = Ok (ring_buffer, 14)"
proof -
  have w: "alist 3 ring_heap [] [] [LTable 7] = Some ([TokTable 1 2, TokTable 2 0, TokNil, TokAnc 0,
      TokStr [120], TokRef 2, TokNil], [7, 3])"
    by (simp add: three ring_heap_def Let_def pos_of_def in_array_part_def)
  show ?thesis
    unfolding seri_pack_tokens(1) [OF w]
    unfolding refd_simps by code_simp
qed

theorem seri_round_trip_witness:
  "\<exists>seen. distinct seen \<and> set seen \<subseteq> {3, 7} \<and> holds_in (set [LTable 7]) seen \<and>
     (\<forall>t \<in> set seen. holds_in (written (ring_heap t)) seen) \<and>
     seri_unpack 20 ring_buffer = Ok (map (ren seen) [LTable 7], map (entries ring_heap seen) seen)"
  by (rule seri_round_trip [OF _ _ _ _ _ ring_pack, of "{3, 7}"])
    (auto simp: packable_heap_def packable_def table_values_def keys_ok_def key_ok_def ring_heap_def is_nan_def)

text \<open>
  C12: reading ends. On every buffer whose header does not announce more bytes than there are,
  whatever the bytes, \<open>seri_unpack\<close> gives values or raises an error: it reads no byte outside the
  buffer, calls Lua with no index 0, stores into no value that is not a table, and its nesting and
  its loops are bounded by twice the bytes announced.
\<close>

theorem seri_unpack_ends:
  assumes "4 \<le> length buf" "len = sint (le_word (take 4 buf) :: 32 word)"
    "len \<le> int (length buf) - 4" "2 * len + 2 < int fuel" "0 < fuel"
  shows "seri_unpack fuel buf \<noteq> Abort \<and> seri_unpack fuel buf \<noteq> Timeout"
proof -
  define rb where "rb = push LNil (rball_init (drop 4 buf) len)"
  have "ends (\<lambda>rb'. True) (unpack_loop fuel rb)"
  proof (cases "0 \<le> len")
    case True
    then show ?thesis
      using assms(1,3,4)
      by (intro loop_ends) (auto simp: rb_def push_def rball_init_def sound_def anc_ok_def)
  next
    case False
    then obtain f where "fuel = Suc f" using assms(5) by (cases fuel) auto
    then show ?thesis using False by (simp add: rb_def push_def rball_init_def rb_read_def)
  qed
  moreover have "seri_unpack fuel buf =
      obind (unpack_loop fuel rb) (\<lambda>rb. Ok (tl (rev (rb_stack rb)), rb_tables rb))"
    using assms(1,2) by (simp add: seri_unpack_def fetch_def rb_def Let_def)
  ultimately show ?thesis by (cases "unpack_loop fuel rb") simp_all
qed

theorem seri_unpack_ends_witness:
  "seri_unpack 13 [5, 0, 0, 0, 0x26, 0x25, 0x0F, 0xFF, 0x11] \<noteq> Abort \<and>
   seri_unpack 13 [5, 0, 0, 0, 0x26, 0x25, 0x0F, 0xFF, 0x11] \<noteq> Timeout"
  by (rule seri_unpack_ends [OF _ refl]) simp_all

text \<open>
  C35: integers. Every 64-bit integer packed alone is read back as itself, from a buffer of at most
  13 bytes, of 9 or fewer when the integer fits in 32 bits.
\<close>

theorem integer_round_trip:
  "\<exists>buf. seri_pack 0 H [LInt x] = Ok (buf, int (length buf)) \<and>
     length buf \<le> (if sint x = sint (ucast x :: 32 word) then 9 else 13) \<and>
     seri_unpack (length buf) buf = Ok ([LInt x], [])"
proof -
  have w: "alist 0 H [] [] [LInt x] = Some ([TokInt x], [])" by simp
  note pk = seri_pack_tokens [OF w]
  have len: "length (int_bytes x) \<le> 9" "sint x = sint (ucast x :: 32 word) \<Longrightarrow> length (int_bytes x) \<le> 5"
    "0 < length (int_bytes x)"
    by (simp_all add: int_bytes_def)
  have "seri_unpack (length (int_bytes x) + 4) (le_bytes 4 (word_of_nat (length (int_bytes x)) :: 32 word) @ int_bytes x) =
      Ok ([LInt x], [])"
    using seri_unpack_tokens [OF w, of "length (int_bytes x) + 4"] len by (simp add: walk_ok_def ren_scalar)
  then show ?thesis using pk(1) len by (auto simp: add.commute)
qed

text \<open>
  C38: The string packed at start-up. \<open>seri_packstring\<close> of a string and a pointer gives a buffer
  that is read back as that string and, unless it is NULL, that pointer; a size of 0 stands for
  the bytes before the first zero.
\<close>

theorem packstring_round_trip:
  assumes "n = (if sz = 0 then int (length (takeWhile (\<lambda>c. c \<noteq> 0) str)) else sz)"
    "0 \<le> sz" "n \<le> int (length str)" "n + 18 < 2 ^ 31"
  shows "\<exists>buf. seri_packstring str sz p = Ok (buf, int (length buf)) \<and>
     seri_unpack (length buf) buf =
       Ok (LStr (take (nat n) str) # (if p = 0 then [] else [LPtr p]), [])"
proof -
  define s where "s = take (nat n) str"
  have n: "0 \<le> n" "n < 2 ^ 31" "n = int (length s)" using assms by (auto simp: s_def)
  have sl: "length s < 2 ^ 31" using n by simp
  define vs where "vs = LStr s # (if p = 0 then [] else [LPtr p])"
  define us where "us = TokStr s # (if p = 0 then [] else [TokPtr p])"
  have w: "alist 0 (\<lambda>t. undefined) [] [] vs = Some (us, [])" using sl by (simp add: vs_def us_def)
  obtain b where b: "wb_string s (size_to_int (length s)) wb_init = Ok b" "rep b [TokStr s] [] []"
    using rep_string [OF rep_init sl] by auto
  have "wb_string str n wb_init = wb_string s n wb_init"
    by (simp add: wb_string_def s_def take_take Let_def)
  then have ws: "wb_string str n wb_init = Ok b"
    using b(1) size_to_int_small [OF sl] n(3) by simp
  define b' where "b' = (if p \<noteq> 0 then wb_pointer p TYPE_USERDATA_POINTER b else b)"
  have rep: "rep b' us [] []"
    using rep_push2 [OF b(2), of "TokPtr p" "[COMBINE_TYPE 2 0]" "le_bytes 8 p"] b(2)
    by (simp add: b'_def us_def wb_pointer_def)
  have ok: "blocks_ok b'" "flat b' = enc (refd us) us" using rep by (simp_all add: rep_def)
  define body where "body = enc (refd us) us"
  have wl: "wb_len b' = int (length body)" using length_flat [OF ok(1)] ok(2) by (simp add: body_def)
  have "length (str_bytes s) \<le> 5 + length s" by (simp add: str_bytes_def Let_def)
  then have bl: "length body \<le> 14 + length s" by (simp add: body_def us_def)
  then have "len_fits 4 b'" using assms(4) n(3) by (simp add: len_fits_def wl)
  then have pk: "seri_packstring str sz p =
      Ok (le_bytes 4 (word_of_nat (length body) :: 32 word) @ body, int (length body) + 4)"
    using ws seri_flat [OF ok(1)]
    by (simp add: seri_packstring_def Let_def assms(1) [symmetric] b'_def [symmetric] ok(2) wl body_def [symmetric])
  have l: "length (enc (refd us) us) < 2 ^ 31" "length us + 1 < length body + 4"
    using bl assms(4) n length_enc_ge [of us "refd us"] by (auto simp: body_def)
  have "seri_unpack (length body + 4) (le_bytes 4 (word_of_nat (length body) :: 32 word) @ body) =
      Ok (map (ren []) vs, [])"
    using seri_unpack_tokens [OF w _ l] by (simp add: walk_ok_def body_def)
  then show ?thesis using pk by (auto simp: vs_def ren_scalar s_def add.commute)
qed

theorem packstring_round_trip_witness:
  "\<exists>buf. seri_packstring [104, 105, 0, 33] 0 0x40 = Ok (buf, int (length buf)) \<and>
     seri_unpack (length buf) buf =
       Ok (LStr (take (nat 2) [104, 105, 0, 33]) # (if 0x40 = (0 :: ptr) then [] else [LPtr 0x40]), [])"
proof (rule packstring_round_trip [of 2 0 "[104, 105, 0, 33]" "0x40"])
  show "2 = (if (0 :: int) = 0 then int (length (takeWhile (\<lambda>c. c \<noteq> 0) [104, 105, 0, 33 :: byte])) else 0)"
    by simp
qed simp_all

text \<open>
  A table as a key. For the table \<open>t\<close> with the one pair \<open>{} = t\<close>, \<open>seri_pack\<close> writes the
  value as the ancestor 0, \<open>t\<close>; the reader, which reads a key one level higher than the writer
  wrote it, has by then put the key in the place of that ancestor, and the table it makes maps
  the key to itself.
\<close>

definition key_heap :: lua_heap where
  "key_heap t = \<lparr>lt_array = [], lt_pairs = (if t = 0 then [(LTable 1, LTable 0)] else []),
     lt_metapairs = None\<rparr>"

theorem table_key_misread:
  "seri_pack 3 key_heap [LTable 0] = Ok ([5, 0, 0, 0, 5, 5, 0, 7, 0], 9) \<and>
   seri_unpack 10 [5, 0, 0, 0, 5, 5, 0, 7, 0] = Ok ([LTable 0], [[(LTable 1, LTable 1)], []])"
proof
  have w: "alist 3 key_heap [] [] [LTable 0] = Some ([TokTable 1 0, TokTable 2 0, TokNil, TokAnc 0, TokNil], [0, 1])"
    by (simp add: three key_heap_def Let_def pos_of_def in_array_part_def)
  show "seri_pack 3 key_heap [LTable 0] = Ok ([5, 0, 0, 0, 5, 5, 0, 7, 0], 9)"
    unfolding seri_pack_tokens(1) [OF w]
    unfolding refd_simps by code_simp
  show "seri_unpack 10 [5, 0, 0, 0, 5, 5, 0, 7, 0] = Ok ([LTable 0], [[(LTable 1, LTable 1)], []])"
    by code_simp
qed

end
