(* ===== verification/Cond.thy ===== *)
theory Cond
  imports WorkerThreads
begin

text \<open>
  The condition variable of \<open>src/cond.h\<close> under \<open>worker_sleep\<close> and \<open>worker_wakeup\<close> of
  \<open>src/worker.h\<close>, one call of the thread library or memory access at a time. \<open>WorkerThreads\<close>
  takes the critical sections as single steps and the wait as a test of the flag; here the mutex
  has an owner, \<open>pthread_cond_wait\<close> gives it up and takes it back, it may return without a
  signal, and a signal wakes the worker only if it is waiting at that moment. The detailed steps
  refine those of \<open>WorkerThreads\<close>.

  The mutex and the signal are the documented behaviour of the thread library: \<open>pthread_mutex_lock\<close>
  waits until nobody owns the mutex.
\<close>

section \<open>The threads\<close>

text \<open>
  Where the worker is: \<open>FLock\<close> before \<open>cond_wait_begin\<close>; \<open>FIn\<close>, \<open>FTest\<close>, \<open>FClear\<close> and \<open>FSleep\<close> in the
  branches of \<open>worker_sleep\<close>; \<open>FLoop\<close> at the test of the loop of \<open>cond_wait\<close>, \<open>FWait\<close> blocked in
  \<open>pthread_cond_wait\<close> and \<open>FWoken\<close> about to take the mutex again; \<open>FAwake\<close> after the loop; \<open>FEnd\<close> and
  \<open>FUnlock\<close> in \<open>cond_wait_end\<close>.
\<close>

datatype worker_pc =
    FOut | FLock | FIn | FTest | FClear | FSleep | FLoop | FWait | FWoken | FAwake | FEnd | FUnlock

text \<open>
  Where a waker is: \<open>GPending\<close> after it stored a job or the termination signal, \<open>GFlag\<close> to
  \<open>GUnlock\<close> in \<open>worker_wakeup\<close> with the mutex; \<open>GFlag\<close> keeps whether it came from \<open>GPending\<close>.
\<close>

datatype wakeup_pc = GOut | GPending | GFlag bool | GRead | GWake int | GEnd int | GUnlock

datatype mutex_owner = Worker_owns | Waker_owns nat

record cond_state =
  cs_w :: worker_thread
  cs_flag :: int
  cs_lock :: "mutex_owner option"
  cs_worker :: worker_pc
  cs_wakers :: "wakeup_pc list"

inductive cond_step :: "cond_state \<Rightarrow> cond_state \<Rightarrow> bool" where
  f_begin: "cs_worker s = FOut \<Longrightarrow> w_term_signal (cs_w s) = 0 \<Longrightarrow> cond_step s (s\<lparr>cs_worker := FLock\<rparr>)"
| f_lock: "cs_worker s = FLock \<Longrightarrow> cs_lock s = None \<Longrightarrow>
     cond_step s (s\<lparr>cs_lock := Some Worker_owns, cs_worker := FIn\<rparr>)"
| f_job: "cs_worker s = FIn \<Longrightarrow>
     cond_step s (s\<lparr>cs_worker := (if worker_has_job (cs_w s) then FClear else FTest)\<rparr>)"
| f_test: "cs_worker s = FTest \<Longrightarrow>
     cond_step s (s\<lparr>cs_worker := (if w_wakeup (cs_w s) \<noteq> 0 then FClear else FSleep)\<rparr>)"
| f_clear: "cs_worker s = FClear \<Longrightarrow>
     cond_step s (s\<lparr>cs_w := (cs_w s)\<lparr>w_wakeup := 0\<rparr>, cs_worker := FEnd\<rparr>)"
| f_sleep: "cs_worker s = FSleep \<Longrightarrow>
     cond_step s (s\<lparr>cs_w := (cs_w s)\<lparr>w_sleeping := 1\<rparr>, cs_worker := FLoop\<rparr>)"
| f_wait: "cs_worker s = FLoop \<Longrightarrow> cs_flag s = 0 \<Longrightarrow>
     cond_step s (s\<lparr>cs_lock := None, cs_worker := FWait\<rparr>)"
| f_spurious: "cs_worker s = FWait \<Longrightarrow> cond_step s (s\<lparr>cs_worker := FWoken\<rparr>)"
| f_relock: "cs_worker s = FWoken \<Longrightarrow> cs_lock s = None \<Longrightarrow>
     cond_step s (s\<lparr>cs_lock := Some Worker_owns, cs_worker := FLoop\<rparr>)"
| f_awake: "cs_worker s = FLoop \<Longrightarrow> cs_flag s \<noteq> 0 \<Longrightarrow> cond_step s (s\<lparr>cs_worker := FAwake\<rparr>)"
| f_slept: "cs_worker s = FAwake \<Longrightarrow>
     cond_step s (s\<lparr>cs_w := (cs_w s)\<lparr>w_sleeping := 0\<rparr>, cs_worker := FEnd\<rparr>)"
| f_end: "cs_worker s = FEnd \<Longrightarrow> cond_step s (s\<lparr>cs_flag := 0, cs_worker := FUnlock\<rparr>)"
| f_unlock: "cs_worker s = FUnlock \<Longrightarrow> cond_step s (s\<lparr>cs_lock := None, cs_worker := FOut\<rparr>)"
| f_get: "cs_worker s = FOut \<Longrightarrow> worker_get_job fails (cs_w s) = (i, w) \<Longrightarrow> cond_step s (s\<lparr>cs_w := w\<rparr>)"
| g_steal: "worker_steal_job fails (cs_w s) p = (i, w) \<Longrightarrow> cond_step s (s\<lparr>cs_w := w\<rparr>)"
| g_assign: "n < length (cs_wakers s) \<Longrightarrow> cs_wakers s ! n = GOut \<Longrightarrow>
     worker_assign_job (cs_w s) i = Some (r, w) \<Longrightarrow>
     cond_step s (s\<lparr>cs_w := w, cs_wakers := (cs_wakers s)[n := GPending]\<rparr>)"
| g_quit: "n < length (cs_wakers s) \<Longrightarrow> cs_wakers s ! n = GOut \<Longrightarrow>
     cond_step s (s\<lparr>cs_w := (cs_w s)\<lparr>w_term_signal := 1\<rparr>, cs_wakers := (cs_wakers s)[n := GPending]\<rparr>)"
| g_lock: "n < length (cs_wakers s) \<Longrightarrow> cs_wakers s ! n \<in> {GOut, GPending} \<Longrightarrow> cs_lock s = None \<Longrightarrow>
     cond_step s (s\<lparr>cs_lock := Some (Waker_owns n),
       cs_wakers := (cs_wakers s)[n := GFlag (cs_wakers s ! n = GPending)]\<rparr>)"
| g_flag: "n < length (cs_wakers s) \<Longrightarrow> cs_wakers s ! n = GFlag p \<Longrightarrow>
     cond_step s (s\<lparr>cs_flag := 1, cs_wakers := (cs_wakers s)[n := GRead]\<rparr>)"
| g_read: "n < length (cs_wakers s) \<Longrightarrow> cs_wakers s ! n = GRead \<Longrightarrow>
     cond_step s (s\<lparr>cs_wakers := (cs_wakers s)[n := GWake (w_sleeping (cs_w s))]\<rparr>)"
| g_wake: "n < length (cs_wakers s) \<Longrightarrow> cs_wakers s ! n = GWake v \<Longrightarrow>
     cond_step s (s\<lparr>cs_w := (cs_w s)\<lparr>w_wakeup := 1\<rparr>, cs_wakers := (cs_wakers s)[n := GEnd v]\<rparr>)"
| g_signal: "n < length (cs_wakers s) \<Longrightarrow> cs_wakers s ! n = GEnd v \<Longrightarrow> v \<noteq> 0 \<Longrightarrow>
     cond_step s (s\<lparr>cs_worker := (if cs_worker s = FWait then FWoken else cs_worker s),
       cs_wakers := (cs_wakers s)[n := GUnlock]\<rparr>)"
| g_reset: "n < length (cs_wakers s) \<Longrightarrow> cs_wakers s ! n = GEnd v \<Longrightarrow> v = 0 \<Longrightarrow>
     cond_step s (s\<lparr>cs_flag := 0, cs_wakers := (cs_wakers s)[n := GUnlock]\<rparr>)"
| g_unlock: "n < length (cs_wakers s) \<Longrightarrow> cs_wakers s ! n = GUnlock \<Longrightarrow>
     cond_step s (s\<lparr>cs_lock := None, cs_wakers := (cs_wakers s)[n := GOut]\<rparr>)"

inductive cond_reach :: "cond_state \<Rightarrow> bool" where
  cond_init: "\<forall>k \<in> set ks. k = GOut \<Longrightarrow>
     cond_reach \<lparr>cs_w = worker_init n, cs_flag = 0, cs_lock = None, cs_worker = FOut, cs_wakers = ks\<rparr>"
| cond_more: "cond_reach s \<Longrightarrow> cond_step s s' \<Longrightarrow> cond_reach s'"

section \<open>The invariant\<close>

definition worker_locked :: "worker_pc \<Rightarrow> bool" where
  "worker_locked pc \<longleftrightarrow> pc \<in> {FIn, FTest, FClear, FSleep, FLoop, FAwake, FEnd, FUnlock}"

definition waker_locked :: "wakeup_pc \<Rightarrow> bool" where
  "waker_locked pc \<longleftrightarrow> pc \<notin> {GOut, GPending}"

definition worker_asleep :: "worker_pc \<Rightarrow> bool" where
  "worker_asleep pc \<longleftrightarrow> pc \<in> {FLoop, FWait, FWoken, FAwake}"

text \<open>A waker that has set the flag and has yet to signal.\<close>

definition waker_signals :: "wakeup_pc \<Rightarrow> bool" where
  "waker_signals pc \<longleftrightarrow> pc = GRead \<or> (\<exists>v. v \<noteq> 0 \<and> (pc = GWake v \<or> pc = GEnd v))"

definition cond_inv :: "cond_state \<Rightarrow> bool" where
  "cond_inv s \<longleftrightarrow>
     (cs_lock s = Some Worker_owns \<longleftrightarrow> worker_locked (cs_worker s))
     \<and> (\<forall>n < length (cs_wakers s). cs_lock s = Some (Waker_owns n) \<longleftrightarrow> waker_locked (cs_wakers s ! n))
     \<and> (\<forall>n. cs_lock s = Some (Waker_owns n) \<longrightarrow> n < length (cs_wakers s))
     \<and> (w_sleeping (cs_w s) \<noteq> 0 \<longleftrightarrow> worker_asleep (cs_worker s))
     \<and> (\<forall>n < length (cs_wakers s). \<forall>v. cs_wakers s ! n \<in> {GWake v, GEnd v} \<longrightarrow> v = w_sleeping (cs_w s))
     \<and> (cs_worker s = FWait \<longrightarrow> cs_flag s \<noteq> 0 \<longrightarrow>
          (\<exists>n. cs_lock s = Some (Waker_owns n) \<and> waker_signals (cs_wakers s ! n)))"

lemma worker_pc_simps:
  "worker_locked pc \<longleftrightarrow> (case pc of FOut \<Rightarrow> False | FLock \<Rightarrow> False | FWait \<Rightarrow> False | FWoken \<Rightarrow> False | _ \<Rightarrow> True)"
  "worker_asleep pc \<longleftrightarrow> (case pc of FLoop \<Rightarrow> True | FWait \<Rightarrow> True | FWoken \<Rightarrow> True | FAwake \<Rightarrow> True | _ \<Rightarrow> False)"
  by (cases pc; simp add: worker_locked_def worker_asleep_def)+

lemma waker_pc_simps [simp]:
  "\<not> waker_locked GOut" "\<not> waker_locked GPending" "waker_locked (GFlag p)" "waker_locked GRead"
  "waker_locked (GWake v)" "waker_locked (GEnd v)" "waker_locked GUnlock"
  "\<not> waker_signals GOut" "\<not> waker_signals GPending" "\<not> waker_signals (GFlag p)" "waker_signals GRead"
  "waker_signals (GWake v) \<longleftrightarrow> v \<noteq> 0" "waker_signals (GEnd v) \<longleftrightarrow> v \<noteq> 0" "\<not> waker_signals GUnlock"
  by (auto simp: waker_locked_def waker_signals_def)

lemma cond_invD:
  assumes "cond_inv s"
  shows "cs_lock s = Some Worker_owns \<longleftrightarrow> worker_locked (cs_worker s)"
    "n < length (cs_wakers s) \<Longrightarrow> cs_lock s = Some (Waker_owns n) \<longleftrightarrow> waker_locked (cs_wakers s ! n)"
    "cs_lock s = Some (Waker_owns n) \<Longrightarrow> n < length (cs_wakers s)"
    "w_sleeping (cs_w s) \<noteq> 0 \<longleftrightarrow> worker_asleep (cs_worker s)"
    "n < length (cs_wakers s) \<Longrightarrow> cs_wakers s ! n = GWake v \<Longrightarrow> v = w_sleeping (cs_w s)"
    "n < length (cs_wakers s) \<Longrightarrow> cs_wakers s ! n = GEnd v \<Longrightarrow> v = w_sleeping (cs_w s)"
  using assms unfolding cond_inv_def by blast+

lemma cond_waker_flag:
  assumes "cond_inv s" and "n < length (cs_wakers s)" and "waker_locked (cs_wakers s ! n)"
    and "cs_worker s = FWait" and "cs_flag s \<noteq> 0"
  shows "waker_signals (cs_wakers s ! n)"
  using assms unfolding cond_inv_def by auto

lemma cond_free_flag:
  "cond_inv s \<Longrightarrow> cs_lock s = None \<Longrightarrow> cs_worker s = FWait \<Longrightarrow> cs_flag s = 0"
  unfolding cond_inv_def by auto

text \<open>A step that leaves the wakers alone, of the worker with the mutex or of somebody without it.\<close>

lemma cond_inv_worker:
  assumes "cond_inv s" and "cs_wakers s' = cs_wakers s"
    and "cs_lock s' = Some Worker_owns \<longleftrightarrow> worker_locked (cs_worker s')"
    and "\<And>n. cs_lock s' = Some (Waker_owns n) \<longleftrightarrow> cs_lock s = Some (Waker_owns n)"
    and "w_sleeping (cs_w s') \<noteq> 0 \<longleftrightarrow> worker_asleep (cs_worker s')"
    and "w_sleeping (cs_w s') = w_sleeping (cs_w s) \<or> cs_lock s = Some Worker_owns"
    and "cs_worker s' = FWait \<Longrightarrow> cs_flag s' = 0 \<or> cs_worker s = FWait \<and> cs_flag s' = cs_flag s"
  shows "cond_inv s'"
proof -
  have "v = w_sleeping (cs_w s')" if "n < length (cs_wakers s)" "cs_wakers s ! n \<in> {GWake v, GEnd v}" for n v
  proof -
    have "waker_locked (cs_wakers s ! n)" using that(2) by auto
    then have "cs_lock s \<noteq> Some Worker_owns" using cond_invD(2) [OF assms(1) that(1)] by simp
    then show ?thesis using assms(6) cond_invD(5,6) [OF assms(1) that(1)] that(2) by auto
  qed
  then show ?thesis
    using assms(1-5,7) unfolding cond_inv_def by auto
qed

text \<open>A step of the waker that has, takes or gives back the mutex.\<close>

lemma cond_inv_waker:
  assumes inv: "cond_inv s" and n: "n < length (cs_wakers s)" and k: "cs_wakers s' = (cs_wakers s)[n := k]"
    and free: "cs_lock s = None \<or> waker_locked (cs_wakers s ! n)"
    and lock: "cs_lock s' = (if waker_locked k then Some (Waker_owns n) else None)"
    and sl: "w_sleeping (cs_w s') = w_sleeping (cs_w s)"
    and pc: "cs_worker s' = cs_worker s \<or> cs_worker s = FWait \<and> cs_worker s' = FWoken"
    and v: "\<And>v. k \<in> {GWake v, GEnd v} \<Longrightarrow> v = w_sleeping (cs_w s)"
    and flag: "cs_worker s' = FWait \<Longrightarrow> cs_flag s' \<noteq> 0 \<Longrightarrow> waker_signals k"
    and rest: "\<not> waker_locked k \<Longrightarrow> cs_worker s' = FWait \<Longrightarrow> cs_flag s' = 0"
  shows "cond_inv s'"
proof -
  have other: "\<not> waker_locked (cs_wakers s ! m)" if "m < length (cs_wakers s)" "m \<noteq> n" for m
    using that free cond_invD(2) [OF inv n] cond_invD(2) [OF inv that(1)] by auto
  have nw: "\<not> worker_locked (cs_worker s)" using free cond_invD(2) [OF inv n] cond_invD(1) [OF inv] by auto
  then have "\<not> worker_locked (cs_worker s')" using pc by (auto simp: worker_pc_simps)
  moreover have "w_sleeping (cs_w s') \<noteq> 0 \<longleftrightarrow> worker_asleep (cs_worker s')"
    using pc sl cond_invD(4) [OF inv] by (auto simp: worker_pc_simps)
  moreover have "cs_wakers s ! m \<noteq> GWake v \<and> cs_wakers s ! m \<noteq> GEnd v"
    if "m < length (cs_wakers s)" "m \<noteq> n" for m v
    using other [OF that] by auto
  ultimately show ?thesis
    using n other lock v flag rest sl unfolding cond_inv_def k by (auto simp: nth_list_update)
qed

lemma cond_step_inv:
  assumes "cond_step s s'" and inv: "cond_inv s"
  shows "cond_inv s'"
  using assms(1)
proof (cases rule: cond_step.cases)
  case (f_get fails i w)
  with worker_get_job_frame [OF f_get(3)] inv show ?thesis by (simp add: cond_inv_def)
next
  case (g_steal fails p i w)
  with worker_steal_job_frame [OF g_steal(2)] inv show ?thesis by (simp add: cond_inv_def)
next
  case (g_assign n i r w)
  with worker_assign_job_frame [OF g_assign(4)] inv show ?thesis
    by (auto simp: cond_inv_def nth_list_update)
next
  case (g_quit n)
  with inv show ?thesis by (auto simp: cond_inv_def nth_list_update)
next
  case (g_lock n)
  with cond_free_flag [OF inv] show ?thesis
    by (intro cond_inv_waker [OF inv, of n]) auto
next
  case (g_flag n p)
  with cond_invD(2,5,6) [OF inv, of n] cond_waker_flag [OF inv, of n] show ?thesis
    by (intro cond_inv_waker [OF inv, of n]) auto
next
  case (g_read n)
  with cond_invD(2) [OF inv, of n] cond_invD(4) [OF inv] cond_waker_flag [OF inv, of n] show ?thesis
    by (intro cond_inv_waker [OF inv, of n]) (auto simp: worker_asleep_def)
next
  case (g_wake n v)
  with cond_invD(2,5,6) [OF inv, of n] cond_waker_flag [OF inv, of n] show ?thesis
    by (intro cond_inv_waker [OF inv, of n]) auto
next
  case (g_signal n v)
  with cond_invD(2,5,6) [OF inv, of n] cond_waker_flag [OF inv, of n] show ?thesis
    by (intro cond_inv_waker [OF inv, of n]) (auto split: if_splits)
next
  case (g_reset n v)
  with cond_invD(2,5,6) [OF inv, of n] cond_waker_flag [OF inv, of n] show ?thesis
    by (intro cond_inv_waker [OF inv, of n]) auto
next
  case (g_unlock n)
  with cond_invD(2,5,6) [OF inv, of n] cond_waker_flag [OF inv, of n] show ?thesis
    by (intro cond_inv_waker [OF inv, of n]) auto
qed (use cond_invD(1,4) [OF inv] in
     \<open>auto intro!: cond_inv_worker [OF inv] simp: worker_pc_simps split: worker_pc.splits\<close>)

lemma cond_reach_inv: "cond_reach s \<Longrightarrow> cond_inv s"
proof (induction rule: cond_reach.induct)
  case (cond_init ks n)
  then have "\<not> waker_locked (ks ! m)" if "m < length ks" for m
    using that nth_mem by fastforce
  moreover have "ks ! m = GOut" if "m < length ks" for m using cond_init that nth_mem by blast
  ultimately show ?case by (simp add: cond_inv_def worker_init_def worker_locked_def worker_asleep_def)
next
  case (cond_more s s')
  then show ?case using cond_step_inv by blast
qed

section \<open>Refining the critical sections\<close>

text \<open>
  The state of \<open>WorkerThreads\<close>: whoever owns the mutex is taken to have finished its section,
  from the step on that decides what the section does (the test of \<open>service_ready\<close>, the end of the
  loop, the store to the flag).
\<close>

definition section_done ::
  "mutex_owner option \<Rightarrow> worker_pc \<Rightarrow> wakeup_pc list \<Rightarrow> int \<Rightarrow> int \<Rightarrow> int \<Rightarrow> int \<times> int \<times> int"
where
  "section_done lock pc ks wakeup sleeping flag =
     (case lock of
        None \<Rightarrow> (wakeup, sleeping, flag)
      | Some Worker_owns \<Rightarrow>
          (case pc of
             FClear \<Rightarrow> (0, sleeping, 0)
           | FTest \<Rightarrow> if wakeup \<noteq> 0 then (0, sleeping, 0) else (wakeup, 1, flag)
           | FSleep \<Rightarrow> (wakeup, 1, flag)
           | FAwake \<Rightarrow> (wakeup, 0, 0)
           | FEnd \<Rightarrow> (wakeup, sleeping, 0)
           | _ \<Rightarrow> (wakeup, sleeping, flag))
      | Some (Waker_owns n) \<Rightarrow>
          (case ks ! n of
             GRead \<Rightarrow> (1, sleeping, if sleeping \<noteq> 0 then flag else 0)
           | GWake v \<Rightarrow> (1, sleeping, if v \<noteq> 0 then flag else 0)
           | GEnd v \<Rightarrow> (wakeup, sleeping, if v \<noteq> 0 then flag else 0)
           | _ \<Rightarrow> (wakeup, sleeping, flag)))"

definition set_signals :: "int \<Rightarrow> int \<Rightarrow> worker_thread \<Rightarrow> worker_thread" where
  "set_signals wakeup sleeping w = w\<lparr>w_sleeping := sleeping, w_wakeup := wakeup\<rparr>"

definition abs_sleeper :: "cond_state \<Rightarrow> sleeper_pc" where
  "abs_sleeper s =
     (case cs_worker s of
        FLock \<Rightarrow> SLock | FIn \<Rightarrow> SLock
      | FTest \<Rightarrow> if w_wakeup (cs_w s) \<noteq> 0 then SOut else SWait
      | FSleep \<Rightarrow> SWait | FLoop \<Rightarrow> SWait | FWait \<Rightarrow> SWait | FWoken \<Rightarrow> SWait
      | _ \<Rightarrow> SOut)"

definition abs_waker :: "wakeup_pc \<Rightarrow> waker_pc" where
  "abs_waker k = (if k = GPending \<or> k = GFlag True then KPending else KOut)"

definition abs_signals :: "cond_state \<Rightarrow> int \<times> int \<times> int" where
  "abs_signals s = section_done (cs_lock s) (cs_worker s) (cs_wakers s)
     (w_wakeup (cs_w s)) (w_sleeping (cs_w s)) (cs_flag s)"

definition abs_cond :: "cond_state \<Rightarrow> sleep_state" where
  "abs_cond s = (case abs_signals s of (wakeup, sleeping, flag) \<Rightarrow>
     \<lparr>ss_w = set_signals wakeup sleeping (cs_w s), ss_flag = flag,
      ss_sleeper = abs_sleeper s, ss_wakers = map abs_waker (cs_wakers s)\<rparr>)"

lemma section_done_worker:
  "section_done (Some Worker_owns) pc ks wakeup sleeping flag =
     (case pc of
        FClear \<Rightarrow> (0, sleeping, 0)
      | FTest \<Rightarrow> if wakeup \<noteq> 0 then (0, sleeping, 0) else (wakeup, 1, flag)
      | FSleep \<Rightarrow> (wakeup, 1, flag)
      | FAwake \<Rightarrow> (wakeup, 0, 0)
      | FEnd \<Rightarrow> (wakeup, sleeping, 0)
      | _ \<Rightarrow> (wakeup, sleeping, flag))"
  by (simp add: section_done_def)

lemma section_done_none: "section_done None pc ks wakeup sleeping flag = (wakeup, sleeping, flag)"
  by (simp add: section_done_def)

lemma section_done_pc:
  "lock \<noteq> Some Worker_owns \<Longrightarrow> section_done lock pc ks a b c = section_done lock pc' ks a b c"
  by (cases lock) (auto simp: section_done_def split: mutex_owner.splits)

lemma section_done_waker:
  "lock \<noteq> Some (Waker_owns n) \<Longrightarrow> section_done lock pc (ks[n := k]) a b c = section_done lock pc ks a b c"
  by (cases lock) (auto simp: section_done_def split: mutex_owner.splits)

text \<open>What moves jobs does not look at the signals, nor change them.\<close>

lemma set_signals_fields [simp]:
  "w_wakeup (set_signals a b w) = a" "w_sleeping (set_signals a b w) = b"
  "w_term_signal (set_signals a b w) = w_term_signal w"
  "worker_has_job (set_signals a b w) = worker_has_job w"
  "(set_signals a b w)\<lparr>w_term_signal := v\<rparr> = set_signals a b (w\<lparr>w_term_signal := v\<rparr>)"
  "(set_signals a b w)\<lparr>w_wakeup := v\<rparr> = set_signals v b w"
  "(set_signals a b w)\<lparr>w_sleeping := v\<rparr> = set_signals a v w"
  "set_signals a b (w\<lparr>w_wakeup := v\<rparr>) = set_signals a b w"
  "set_signals a b (w\<lparr>w_sleeping := v\<rparr>) = set_signals a b w"
  by (simp_all add: set_signals_def worker_has_job_def)

lemma worker_get_job_signals:
  "worker_get_job fails w = (i, w') \<Longrightarrow>
   worker_get_job fails (set_signals a b w) = (i, set_signals a b w')"
proof (induction fails)
  case Nil
  then show ?case
    by (auto simp: worker_get_job.simps [of "[]"] set_signals_def Let_def atomic_int_cas_def split: if_splits)
next
  case (Cons x fails)
  then show ?case
    by (auto simp: worker_get_job.simps [of "x # fails"] set_signals_def Let_def atomic_int_cas_def
        simp del: worker_get_job.simps split: if_splits)
qed

lemma worker_steal_job_signals:
  "worker_steal_job fails w p = (i, w') \<Longrightarrow>
   worker_steal_job fails (set_signals a b w) p = (i, set_signals a b w')"
  by (auto simp: worker_steal_job_def set_signals_def Let_def atomic_int_cas_def split: if_splits)

lemma worker_assign_job_signals:
  "worker_assign_job w i = Some (r, w') \<Longrightarrow>
   worker_assign_job (set_signals a b w) i = Some (r, set_signals a b w')"
  by (auto simp: worker_assign_job_def set_signals_def Let_def bind_eq_Some_conv split: if_splits prod.splits)

lemma abs_waker_simps [simp]:
  "abs_waker GOut = KOut" "abs_waker GPending = KPending" "abs_waker GRead = KOut"
  "abs_waker (GWake v) = KOut" "abs_waker (GEnd v) = KOut" "abs_waker GUnlock = KOut"
  "abs_waker (GFlag p) = (if p then KPending else KOut)"
  by (simp_all add: abs_waker_def)

lemma abs_cond_fields:
  "abs_signals s = (a, b, c) \<Longrightarrow>
   abs_cond s = \<lparr>ss_w = set_signals a b (cs_w s), ss_flag = c, ss_sleeper = abs_sleeper s,
     ss_wakers = map abs_waker (cs_wakers s)\<rparr>"
  by (simp add: abs_cond_def)

text \<open>Every detailed step is a step of \<open>WorkerThreads\<close> or changes nothing there. First the steps
  of the worker inside its section.\<close>

lemmas abs_worker_simps = abs_cond_def abs_signals_def section_done_worker section_done_none abs_sleeper_def

lemma refine_job:
  assumes "cs_worker s = FIn" and lock: "cs_lock s = Some Worker_owns"
  shows "sleep_step (abs_cond s)
    (abs_cond (s\<lparr>cs_worker := (if worker_has_job (cs_w s) then FClear else FTest)\<rparr>))"
proof -
  have "abs_cond (s\<lparr>cs_worker := (if worker_has_job (cs_w s) then FClear else FTest)\<rparr>) = sleep_enter (abs_cond s)"
    using assms by (simp add: abs_worker_simps sleep_enter_def Let_def)
  with sleep_step.s_enter [of "abs_cond s"] assms show ?thesis by (simp add: abs_worker_simps)
qed

lemma refine_awake:
  assumes "cs_worker s = FLoop" and "cs_flag s \<noteq> 0" and "cs_lock s = Some Worker_owns"
  shows "sleep_step (abs_cond s) (abs_cond (s\<lparr>cs_worker := FAwake\<rparr>))"
proof -
  have "abs_cond (s\<lparr>cs_worker := FAwake\<rparr>) = sleep_leave (abs_cond s)"
    using assms by (simp add: abs_worker_simps sleep_leave_def)
  with sleep_step.s_leave [of "abs_cond s"] assms show ?thesis by (simp add: abs_worker_simps)
qed

text \<open>Jobs taken, stored or stolen, whatever section is in progress.\<close>

lemma abs_cond_frame:
  assumes "w_wakeup w = w_wakeup (cs_w s)" and "w_sleeping w = w_sleeping (cs_w s)" and "abs_signals s = (a, b, c)"
  shows "abs_cond (s\<lparr>cs_w := w\<rparr>) = (abs_cond s)\<lparr>ss_w := set_signals a b w\<rparr>"
  using assms by (simp add: abs_cond_def abs_signals_def abs_sleeper_def)

lemma abs_cond_pending:
  assumes "w_wakeup w = w_wakeup (cs_w s)" and "w_sleeping w = w_sleeping (cs_w s)" and "abs_signals s = (a, b, c)"
    and "cs_lock s \<noteq> Some (Waker_owns n)"
  shows "abs_cond (s\<lparr>cs_w := w, cs_wakers := (cs_wakers s)[n := GPending]\<rparr>) =
    (abs_cond s)\<lparr>ss_w := set_signals a b w, ss_wakers := (ss_wakers (abs_cond s))[n := KPending]\<rparr>"
  using assms by (simp add: abs_cond_def abs_signals_def abs_sleeper_def section_done_waker map_update)

text \<open>The store to the flag stands for the whole of \<open>worker_wakeup\<close>.\<close>

lemma refine_flag:
  assumes "n < length (cs_wakers s)" and "cs_wakers s ! n = GFlag p" and "cs_lock s = Some (Waker_owns n)"
  shows "sleep_step (abs_cond s) (abs_cond (s\<lparr>cs_flag := 1, cs_wakers := (cs_wakers s)[n := GRead]\<rparr>))"
proof -
  have "abs_cond (s\<lparr>cs_flag := 1, cs_wakers := (cs_wakers s)[n := GRead]\<rparr>) =
    (wakeup_section (abs_cond s))\<lparr>ss_wakers := (ss_wakers (abs_cond s))[n := KOut]\<rparr>"
    using assms by (simp add: abs_cond_def abs_signals_def section_done_def abs_sleeper_def wakeup_section_def
        worker_wakeup_def Let_def map_update)
  with sleep_step.k_wakeup [of n "abs_cond s"] assms(1) show ?thesis by (simp add: abs_cond_def split: prod.splits)
qed

text \<open>The other steps.\<close>

lemma abs_cond_cong:
  assumes "abs_signals s' = abs_signals s" and "abs_sleeper s' = abs_sleeper s"
    and "map abs_waker (cs_wakers s') = map abs_waker (cs_wakers s)"
    and "\<And>a b. set_signals a b (cs_w s') = set_signals a b (cs_w s)"
  shows "abs_cond s' = abs_cond s"
  using assms by (simp add: abs_cond_def split: prod.splits)

lemma map_abs_waker_same:
  "n < length ks \<Longrightarrow> abs_waker k = abs_waker (ks ! n) \<Longrightarrow> map abs_waker (ks[n := k]) = map abs_waker ks"
  by (simp add: map_update list_update_same_conv)

lemma cond_step_refines:
  assumes "cond_step s s'" and inv: "cond_inv s"
  shows "sleep_step (abs_cond s) (abs_cond s') \<or> abs_cond s' = abs_cond s"
  using assms(1)
proof (cases rule: cond_step.cases)
  case f_begin
  have l: "cs_lock s \<noteq> Some Worker_owns" using cond_invD(1) [OF inv] f_begin by (simp add: worker_pc_simps)
  have "abs_signals s' = abs_signals s" using f_begin by (simp add: abs_signals_def) (rule section_done_pc [OF l])
  then have "abs_cond s' = (abs_cond s)\<lparr>ss_sleeper := SLock\<rparr>"
    using f_begin by (simp add: abs_cond_def abs_sleeper_def split: prod.splits)
  with f_begin show ?thesis
    using sleep_step.s_begin [of "abs_cond s"] by (simp add: abs_cond_def abs_sleeper_def split: prod.splits)
next
  case f_job
  with cond_invD(1) [OF inv] show ?thesis using refine_job [of s] by (simp add: worker_pc_simps)
next
  case f_awake
  with cond_invD(1) [OF inv] show ?thesis using refine_awake [of s] by (simp add: worker_pc_simps)
next
  case (f_get fails i w)
  obtain a b c where abc: "abs_signals s = (a, b, c)" by (metis prod_cases3)
  have "abs_cond s' = (abs_cond s)\<lparr>ss_w := set_signals a b w\<rparr>"
    using worker_get_job_frame [OF f_get(3)] abs_cond_frame [OF _ _ abc] f_get(1) by simp
  moreover have "ss_sleeper (abs_cond s) = SOut" "ss_w (abs_cond s) = set_signals a b (cs_w s)"
    using f_get abc by (simp_all add: abs_cond_def abs_sleeper_def)
  ultimately show ?thesis
    using sleep_step.s_get [of "abs_cond s" fails i] worker_get_job_signals [OF f_get(3)] by simp
next
  case (g_steal fails p i w)
  obtain a b c where abc: "abs_signals s = (a, b, c)" by (metis prod_cases3)
  have "abs_cond s' = (abs_cond s)\<lparr>ss_w := set_signals a b w\<rparr>"
    using worker_steal_job_frame [OF g_steal(2)] abs_cond_frame [OF _ _ abc] g_steal(1) by simp
  moreover have "ss_w (abs_cond s) = set_signals a b (cs_w s)" using abc by (simp add: abs_cond_def)
  ultimately show ?thesis
    using sleep_step.k_steal [of fails "abs_cond s" p i] worker_steal_job_signals [OF g_steal(2)] by simp
next
  case (g_assign n i r w)
  obtain a b c where abc: "abs_signals s = (a, b, c)" by (metis prod_cases3)
  have l: "cs_lock s \<noteq> Some (Waker_owns n)" using cond_invD(2) [OF inv g_assign(2)] g_assign(3) by simp
  have "abs_cond s' = (abs_cond s)\<lparr>ss_w := set_signals a b w, ss_wakers := (ss_wakers (abs_cond s))[n := KPending]\<rparr>"
    using worker_assign_job_frame [OF g_assign(4)] abs_cond_pending [OF _ _ abc l] g_assign(1) by simp
  moreover have "n < length (ss_wakers (abs_cond s))" "ss_wakers (abs_cond s) ! n = KOut"
    "ss_w (abs_cond s) = set_signals a b (cs_w s)"
    using g_assign abc by (simp_all add: abs_cond_def)
  ultimately show ?thesis
    using sleep_step.k_assign [of n "abs_cond s" i r] worker_assign_job_signals [OF g_assign(4)] by simp
next
  case (g_quit n)
  obtain a b c where abc: "abs_signals s = (a, b, c)" by (metis prod_cases3)
  have l: "cs_lock s \<noteq> Some (Waker_owns n)" using cond_invD(2) [OF inv g_quit(2)] g_quit(3) by simp
  have "abs_cond s' = (abs_cond s)\<lparr>ss_w := set_signals a b ((cs_w s)\<lparr>w_term_signal := 1\<rparr>),
      ss_wakers := (ss_wakers (abs_cond s))[n := KPending]\<rparr>"
    using abs_cond_pending [OF _ _ abc l, of "(cs_w s)\<lparr>w_term_signal := 1\<rparr>"] g_quit(1) by simp
  moreover have "n < length (ss_wakers (abs_cond s))" "ss_wakers (abs_cond s) ! n = KOut"
    "ss_w (abs_cond s) = set_signals a b (cs_w s)"
    using g_quit abc by (simp_all add: abs_cond_def)
  ultimately show ?thesis using sleep_step.k_quit [of n "abs_cond s"] by simp
next
  case (g_flag n p)
  with cond_invD(2) [OF inv, of n] show ?thesis using refine_flag [of n s p] by simp
next
  case (g_lock n)
  then show ?thesis
    by (intro disjI2 abs_cond_cong map_abs_waker_same)
      (auto simp: abs_signals_def section_done_def abs_sleeper_def map_abs_waker_same)
next
  case (g_read n)
  with cond_invD(2) [OF inv, of n] show ?thesis
    by (intro disjI2 abs_cond_cong) (auto simp: abs_signals_def section_done_def abs_sleeper_def map_abs_waker_same)
next
  case (g_wake n v)
  with cond_invD(2) [OF inv, of n] have l: "cs_lock s = Some (Waker_owns n)" by simp
  with cond_invD(1) [OF inv] have "cs_worker s \<noteq> FTest" by (auto simp: worker_pc_simps)
  then have "abs_sleeper s' = abs_sleeper s" using g_wake(1) by (simp add: abs_sleeper_def split: worker_pc.splits)
  with g_wake l show ?thesis
    by (intro disjI2 abs_cond_cong) (auto simp: abs_signals_def section_done_def map_abs_waker_same)
next
  case (g_signal n v)
  with cond_invD(2) [OF inv, of n] show ?thesis
    by (intro disjI2 abs_cond_cong) (auto simp: abs_signals_def section_done_def abs_sleeper_def map_abs_waker_same)
next
  case (g_reset n v)
  with cond_invD(2) [OF inv, of n] show ?thesis
    by (intro disjI2 abs_cond_cong) (auto simp: abs_signals_def section_done_def abs_sleeper_def map_abs_waker_same)
next
  case (g_unlock n)
  with cond_invD(2) [OF inv, of n] show ?thesis
    by (intro disjI2 abs_cond_cong) (auto simp: abs_signals_def section_done_def abs_sleeper_def map_abs_waker_same)
next
  case f_spurious
  then show ?thesis
    using cond_invD(1) [OF inv] section_done_pc [of "cs_lock s" FWoken _ _ _ _ FWait]
    by (intro disjI2 abs_cond_cong) (auto simp: abs_signals_def abs_sleeper_def worker_pc_simps)
qed (use cond_invD(1) [OF inv] in
     \<open>auto intro!: abs_cond_cong simp: abs_signals_def section_done_worker section_done_none abs_sleeper_def
        worker_pc_simps split: if_splits\<close>)

lemma cond_reach_refines: "cond_reach s \<Longrightarrow> sleep_reach (abs_cond s)"
proof (induction rule: cond_reach.induct)
  case (cond_init ks n)
  have "set_signals 0 0 (worker_init n) = worker_init n" by (simp add: set_signals_def worker_init_def)
  moreover have "\<forall>k \<in> set (map abs_waker ks). k = KOut" using cond_init by auto
  ultimately show ?case
    using sleep_init [of "map abs_waker ks" n]
    by (simp add: abs_cond_def abs_signals_def section_done_none abs_sleeper_def worker_init_def)
next
  case (cond_more s s')
  then show ?case
    using cond_step_refines [OF cond_more(2) cond_reach_inv [OF cond_more(1)]] sleep_more by metis
qed

section \<open>Properties\<close>

text \<open>
  C20: no wake-up is lost, at the level of the mutex and the condition variable. Whatever the
  interleaving of the worker and the threads that wake it, with spurious returns of
  \<open>pthread_cond_wait\<close>: a worker that is blocked in \<open>pthread_cond_wait\<close> while no thread is between
  storing something for it and the end of its \<open>worker_wakeup\<close> has no job in \<open>service_ready\<close> and has
  not been told to terminate.
\<close>

theorem no_wakeup_lost:
  assumes "cond_reach s" and "cs_worker s = FWait" and "\<forall>k \<in> set (cs_wakers s). k = GOut"
  shows "w_service_ready (cs_w s) = 0 \<and> w_term_signal (cs_w s) = 0"
proof -
  note inv = cond_reach_inv [OF assms(1)]
  have "cs_lock s \<noteq> Some (Waker_owns n)" for n
    using cond_invD(2,3) [OF inv, of n] assms(3) nth_mem by fastforce
  moreover have "cs_lock s \<noteq> Some Worker_owns" using cond_invD(1) [OF inv] assms(2) by (simp add: worker_pc_simps)
  ultimately have l: "cs_lock s = None" by (metis mutex_owner.exhaust not_None_eq)
  have "ss_flag (abs_cond s) = 0" "ss_sleeper (abs_cond s) = SWait"
    using cond_free_flag [OF inv l assms(2)] assms(2) l
    by (simp_all add: abs_cond_def abs_signals_def section_done_none abs_sleeper_def)
  moreover have "\<forall>k \<in> set (ss_wakers (abs_cond s)). k = KOut"
    using assms(3) by (auto simp: abs_cond_def split: prod.splits)
  ultimately have "w_service_ready (ss_w (abs_cond s)) = 0 \<and> w_term_signal (ss_w (abs_cond s)) = 0"
    using no_lost_wakeup [OF cond_reach_refines [OF assms(1)]] by simp
  then show ?thesis
    by (simp add: abs_cond_def abs_signals_def section_done_none l set_signals_def)
qed

text \<open>A worker goes to sleep: six steps from the start it is blocked with nothing to do.\<close>

theorem no_wakeup_lost_witness:
  "\<exists>s. cond_reach s \<and> cs_worker s = FWait \<and> w_sleeping (cs_w s) = 1
    \<and> w_service_ready (cs_w s) = 0 \<and> w_term_signal (cs_w s) = 0"
proof -
  define st where "st w l pc = \<lparr>cs_w = w, cs_flag = 0, cs_lock = l, cs_worker = pc, cs_wakers = [GOut]\<rparr>" for w l pc
  let ?w = "worker_init 0" and ?L = "Some Worker_owns"
  let ?w1 = "?w\<lparr>w_sleeping := 1\<rparr>"
  have r: "cond_reach (st ?w None FOut)" unfolding st_def by (rule cond_init) simp
  have "cond_step (st ?w None FOut) (st ?w None FLock)"
    using f_begin [of "st ?w None FOut"] by (simp add: st_def worker_init_def)
  with r have r: "cond_reach (st ?w None FLock)" by (rule cond_more)
  have "cond_step (st ?w None FLock) (st ?w ?L FIn)"
    using f_lock [of "st ?w None FLock"] by (simp add: st_def)
  with r have r: "cond_reach (st ?w ?L FIn)" by (rule cond_more)
  have "cond_step (st ?w ?L FIn) (st ?w ?L FTest)"
    using f_job [of "st ?w ?L FIn"] by (simp add: st_def worker_has_job_def worker_init_def)
  with r have r: "cond_reach (st ?w ?L FTest)" by (rule cond_more)
  have "cond_step (st ?w ?L FTest) (st ?w ?L FSleep)"
    using f_test [of "st ?w ?L FTest"] by (simp add: st_def worker_init_def)
  with r have r: "cond_reach (st ?w ?L FSleep)" by (rule cond_more)
  have "cond_step (st ?w ?L FSleep) (st ?w1 ?L FLoop)"
    using f_sleep [of "st ?w ?L FSleep"] by (simp add: st_def)
  with r have r: "cond_reach (st ?w1 ?L FLoop)" by (rule cond_more)
  have "cond_step (st ?w1 ?L FLoop) (st ?w1 None FWait)"
    using f_wait [of "st ?w1 ?L FLoop"] by (simp add: st_def)
  with r have r: "cond_reach (st ?w1 None FWait)" by (rule cond_more)
  from no_wakeup_lost [OF r] r show ?thesis by (intro exI [of _ "st ?w1 None FWait"]) (simp add: st_def)
qed

end
