(* ===== verification/MessageFlow.thy ===== *)
theory MessageFlow
  imports SystemProps
begin

text \<open>
  The mail of the whole system: every message that is in a mailbox, on its way out of a
  service, bounced, released, or the external message that waits for root. No step of any
  thread duplicates one, and the only one lost is the signal of a dead service that root does not
  take. What a step adds or takes is \<open>mail_step\<close>: the Lua code of
  a running service hands messages in and out, a service that ends leaves its signal, the
  scheduler makes the idle messages and the messages from outside.
\<close>

section \<open>Mail\<close>

text \<open>
  A message up to its addressee, which the scheduler overwrites in the answer to root's
  request for a new service.
\<close>

definition letter :: "message \<Rightarrow> message" where
  "letter m = m\<lparr>m_to := 0\<rparr>"

definition letters :: "message multiset \<Rightarrow> message multiset" where
  "letters M = image_mset letter M"

lemma letters_simps [simp]: "letters {#} = {#}" "letters (M + N) = letters M + letters N"
  "letters (add_mset m M) = add_mset (letter m) (letters M)"
  by (simp_all add: letters_def)

lemma letter_to [simp]: "letter (m\<lparr>m_to := i\<rparr>) = letter m"
  by (simp add: letter_def)

definition task_mail :: "ltask \<Rightarrow> message multiset" where
  "task_mail t = letters (pool_msgs (t_services t) + opt_msgs (t_external_last_message t))"

lemma task_mail_same:
  "t_services t' = t_services t \<Longrightarrow> t_external_last_message t' = t_external_last_message t \<Longrightarrow> task_mail t' = task_mail t"
  by (simp add: task_mail_def)

text \<open>
  \<open>takes_in P M P'\<close>: the pool took in the messages \<open>M\<close>, and lost none. \<open>keeps_external\<close> is
  the part of the state outside the pool.
\<close>

definition takes_in :: "service_pool \<Rightarrow> message multiset \<Rightarrow> service_pool \<Rightarrow> bool" where
  "takes_in P M P' \<longleftrightarrow> pool_wf P' \<and> p_malloc P' = []
     \<and> letters (pool_msgs P') = letters (pool_msgs P) + letters M"

definition keeps_external :: "ltask \<Rightarrow> ltask \<Rightarrow> bool" where
  "keeps_external t t' \<longleftrightarrow> t_external_last_message t' = t_external_last_message t
     \<and> t_external_message t' = t_external_message t"

lemma takes_in_trans: "takes_in P M P1 \<Longrightarrow> takes_in P1 N P2 \<Longrightarrow> takes_in P (M + N) P2"
  by (simp add: takes_in_def)

lemma takes_in_refl: "pool_wf P \<Longrightarrow> p_malloc P = [] \<Longrightarrow> takes_in P {#} P"
  by (simp add: takes_in_def)

lemma takes_inD: "takes_in P M P' \<Longrightarrow> pool_wf P'" "takes_in P M P' \<Longrightarrow> p_malloc P' = []"
  by (simp_all add: takes_in_def)

lemma keeps_external_fields [simp]:
  "keeps_external t t" "keeps_external t (t'\<lparr>t_services := P\<rparr>) = keeps_external t t'"
  "keeps_external (t\<lparr>t_services := P\<rparr>) t' = keeps_external t t'"
  by (simp_all add: keeps_external_def)

lemma keeps_external_trans: "keeps_external t t1 \<Longrightarrow> keeps_external t1 t2 \<Longrightarrow> keeps_external t t2"
  by (simp add: keeps_external_def)

section \<open>The operations of the pool\<close>

lemma takes_in_same:
  assumes "takes_in P M P1" and "pool_wf P2" and "p_malloc P2 = []" and "pool_msgs P2 = pool_msgs P1 + N"
  shows "takes_in P (M + N) P2"
  using assms by (simp add: takes_in_def)

lemma takes_in_push:
  assumes P: "takes_in P M P1" and res: "service_push_message P1 i (Some m) = Some (r, P2)"
  shows "takes_in P (M + (if r = 0 then {#m#} else {#})) P2" and "r \<in> {0, 1, -1}"
  using push_message_account [OF takes_inD(1) [OF P] res] push_message_view [OF takes_inD(1) [OF P] res] P
  by (auto simp: takes_in_def)

lemma takes_in_receipt:
  assumes P: "takes_in P M P1" and res: "service_write_receipt P1 i r b = Some P2"
    and rb: "r = MESSAGE_RECEIPT_NONE \<longrightarrow> b = None"
  shows "takes_in P (M + opt_msgs b) P2"
proof -
  note wf = takes_inD(1) [OF P]
  obtain S where S: "get_service P1 i = Some S"
    using res by (cases "get_service P1 i") (auto simp: service_write_receipt_def)
  show ?thesis
    using write_receipt_account [OF wf S rb res] write_receipt_view(4) [OF wf res] takes_inD(2) [OF P]
    by (intro takes_in_same [OF P]) simp_all
qed

lemma takes_in_new:
  assumes P: "takes_in P M P1" and res: "service_new P1 i = (r, P2)"
  shows "takes_in P M P2"
  using service_new_account(1) [OF takes_inD(1) [OF P], of i] service_new_result(1) [OF takes_inD(1) [OF P] res]
    service_new_view(4) [OF takes_inD(1) [OF P] res] takes_inD(2) [OF P] takes_in_same [OF P, of P2 "{#}"] res
  by simp

lemma takes_in_delete:
  assumes P: "takes_in P M P1" and res: "service_delete P1 i = Some P2"
  shows "takes_in P M P2"
  using service_delete_spec [OF takes_inD(1) [OF P], of i] service_delete_view [OF takes_inD(1) [OF P], of i]
    takes_inD(2) [OF P] takes_in_same [OF P, of P2 "{#}"] res
  by auto

lemma takes_in_freed:
  assumes P: "takes_in P M P1"
  shows "takes_in P (M + {#m#}) (P1\<lparr>p_freed := message_delete (Some m) (p_freed P1)\<rparr>)"
  using pool_msgs_freed [of "Some m" P1] takes_inD [OF P] by (intro takes_in_same [OF P]) simp_all

lemma takes_in_status:
  assumes P: "takes_in P M P1" and st: "st \<in> {SERVICE_STATUS_UNINITIALIZED, SERVICE_STATUS_DEAD} \<or> has_mailbox P1 i"
  shows "takes_in P M (service_status_set P1 i st)"
  using status_set_wf [OF takes_inD(1) [OF P] st] status_set_view(4) [OF takes_inD(1) [OF P]] takes_inD(2) [OF P]
    takes_in_same [OF P, of _ "{#}"] by simp

lemma takes_in_letter: "takes_in P (M + {#m\<lparr>m_to := i\<rparr>#}) P1 = takes_in P (M + {#m#}) P1"
  by (simp add: takes_in_def)

section \<open>The scheduler's dispatch\<close>

lemma schedule_back_frame:
  assumes "schedule_back t i = Some t'"
  shows "t_services t' = t_services t" and "keeps_external t t'"
  using assms by (auto simp: schedule_back_def keeps_external_def split: bind_splits)

lemma check_message_mail:
  assumes P: "takes_in P M (t_services t)" and res: "check_message_to t i = Some t'"
  shows "takes_in P M (t_services t') \<and> keeps_external t t'"
proof (cases "service_status_get (t_services t) i = SERVICE_STATUS_IDLE")
  case True
  have "has_mailbox (t_services t) i" by (rule status_mailbox [OF takes_inD(1) [OF P]]) (simp add: True)
  then show ?thesis
    using True res takes_in_status [OF P, of SERVICE_STATUS_SCHEDULE i]
      schedule_back_frame [of "t\<lparr>t_services := service_status_set (t_services t) i SERVICE_STATUS_SCHEDULE\<rparr>" i t']
    by (auto simp: check_message_to_def)
next
  case False
  then show ?thesis using P res
    by (auto simp: check_message_to_def trigger_event_def keeps_external_def Let_def split: if_splits)
qed

lemma dispatch_schedule_mail:
  assumes P: "takes_in P M (t_services t)" and res: "dispatch_schedule_message t i m = Some t'"
  shows "takes_in P (M + {#m#}) (t_services t') \<and> keeps_external t t'"
proof -
  have rec: "takes_in P (M + {#m#}) (t_services t') \<and> keeps_external t t'"
    if "service_write_receipt P1 i r (Some m') = Some P2" "t' = t\<lparr>t_services := P2\<rparr>"
      "takes_in P M P1" "r \<noteq> MESSAGE_RECEIPT_NONE" "letter m' = letter m" for P1 P2 r m'
    using takes_in_receipt [OF that(3,1)] that by (auto simp: takes_in_def)
  show ?thesis
  proof (cases "i \<noteq> SERVICE_ID_ROOT \<or> m_type m \<notin> {MESSAGE_SCHEDULE_NEW, MESSAGE_SCHEDULE_DEL}")
    case True
    with res obtain P2 where "service_write_receipt (t_services t) i MESSAGE_RECEIPT_ERROR (Some m) = Some P2"
      "t' = t\<lparr>t_services := P2\<rparr>"
      by (auto simp: dispatch_schedule_message_def Let_def split: bind_splits if_splits)
    from rec [OF this P] show ?thesis by simp
  next
    case False
    show ?thesis
    proof (cases "m_type m = MESSAGE_SCHEDULE_NEW")
      case True
      obtain to P1 where new: "service_new (t_services t) (m_session m) = (to, P1)" by fastforce
      from res False True new obtain P2 where
        "service_write_receipt P1 i (if to = 0 then MESSAGE_RECEIPT_ERROR else MESSAGE_RECEIPT_RESPONCE)
            (Some (m\<lparr>m_to := to\<rparr>)) = Some P2"
        "t' = t\<lparr>t_services := P2\<rparr>"
        by (auto simp: dispatch_schedule_message_def Let_def split: bind_splits if_splits)
      from rec [OF this takes_in_new [OF P new]] show ?thesis by simp
    next
      case type: False
      with res False obtain P1 P3 where
        P1: "service_delete (t_services t) (m_session m) = Some P1" and
        P3: "service_write_receipt (P1\<lparr>p_freed := message_delete (Some m) (p_freed P1)\<rparr>) i MESSAGE_RECEIPT_DONE None = Some P3"
          "t' = t\<lparr>t_services := P3\<rparr>"
        by (auto simp: dispatch_schedule_message_def Let_def split: bind_splits)
      from takes_in_receipt [OF takes_in_freed [OF takes_in_delete [OF P P1]] P3(1)] P3(2)
      show ?thesis by simp
    qed
  qed
qed

lemma dispatch_out_mail:
  assumes P: "takes_in P M (t_services t)" and res: "dispatch_out_message t i m = Some t'"
  shows "takes_in P (M + {#m#}) (t_services t') \<and> keeps_external t t'"
proof (cases "m_to m = SERVICE_ID_SYSTEM")
  case True
  then show ?thesis using dispatch_schedule_mail [OF P] res by (simp add: dispatch_out_message_def)
next
  case False
  with res obtain r P1 P2 where
    push: "service_push_message (t_services t) (m_to m) (Some m) = Some (r, P1)" and
    rec: "service_write_receipt P1 i (if r = 0 then MESSAGE_RECEIPT_DONE else if r = 1 then MESSAGE_RECEIPT_BLOCK
        else MESSAGE_RECEIPT_ERROR) (if r = 0 then None else Some m) = Some P2" and
    chk: "check_message_to (t\<lparr>t_services := P2\<rparr>) (m_to m) = Some t'"
    by (auto simp: dispatch_out_message_def split: bind_splits if_splits)
  have "takes_in P (M + {#m#}) P2"
    using takes_in_receipt [OF takes_in_push(1) [OF P push] rec] by (cases "r = 0"; cases "r = 1") simp_all
  with check_message_mail [of P _ "t\<lparr>t_services := P2\<rparr>"] chk show ?thesis by fastforce
qed

text \<open>What leaves a service is in the hands of the scheduler until it is delivered.\<close>

lemma message_out_mail:
  assumes wf: "pool_wf P" and mem: "p_malloc P = []" and out: "service_message_out P i = (m, P1)"
  shows "takes_in P1 {#} P1" and "letters (pool_msgs P) = letters (pool_msgs P1) + letters (opt_msgs m)"
  using message_out_account [OF wf out] message_out_view [OF wf out] mem by (simp_all add: takes_in_def)

definition mail_moves :: "ltask \<Rightarrow> message multiset \<Rightarrow> message multiset \<Rightarrow> ltask \<Rightarrow> bool" where
  "mail_moves t ins outs t' \<longleftrightarrow> keeps_external t t'
     \<and> letters (pool_msgs (t_services t')) + letters outs = letters (pool_msgs (t_services t)) + letters ins"

lemma dispatch_alive_mail:
  assumes wf: "pool_wf (t_services t)" and mem: "p_malloc (t_services t) = []"
    and res: "dispatch_alive t i st = Some t'"
  shows "\<exists>ins. (ins = {#} \<or> ins = {#idle_message i#}) \<and> mail_moves t ins {#} t'"
proof -
  obtain m P where out: "service_message_out (t_services t) i = (m, P)" by fastforce
  note P = message_out_mail [OF wf mem out]
  from res out obtain t1 has where
    t1: "(case m of None \<Rightarrow> Some (t\<lparr>t_services := P\<rparr>) | Some m \<Rightarrow> dispatch_out_message (t\<lparr>t_services := P\<rparr>) i m) = Some t1"
    and has: "service_has_message (t_services t1) i = Some has"
    by (auto simp: dispatch_alive_def split: bind_splits)
  have P1: "takes_in P (opt_msgs m) (t_services t1)" "keeps_external t t1"
    using t1 P(1) dispatch_out_mail [of P "{#}" "t\<lparr>t_services := P\<rparr>" i _ t1] by (cases m; fastforce)+
  note D1 = takes_inD [OF P1(1)]
  have eq: "letters (pool_msgs (t_services t1)) = letters (pool_msgs (t_services t))"
    using P1(1) P(2) by (simp add: takes_in_def)
  have status: "pool_msgs (service_status_set Q j x) = pool_msgs Q" if "pool_wf Q" for Q j x
    using that by (simp add: service_status_set_def pool_msgs_upd_same service_msgs_def)
  have requeued: "mail_moves t M {#} t'"
    if "schedule_back (t1\<lparr>t_services := service_status_set Q i SERVICE_STATUS_SCHEDULE\<rparr>) i = Some t'"
      "takes_in (t_services t1) M Q" for Q M
    using schedule_back_frame [OF that(1)] status [OF takes_inD(1) [OF that(2)]] that(2) eq
      keeps_external_trans [OF P1(2)] by (simp add: takes_in_def mail_moves_def)
  show ?thesis
  proof (cases "has = 0")
    case False
    with res out t1 has have "schedule_back (t1\<lparr>t_services := service_status_set (t_services t1) i SERVICE_STATUS_SCHEDULE\<rparr>) i = Some t'"
      by (auto simp: dispatch_alive_def split: bind_splits)
    from requeued [OF this takes_in_refl [OF D1]] show ?thesis by blast
  next
    case True
    show ?thesis
    proof (cases "service_sockevent_get (t_services t1) i \<ge> 0")
      case False
      with res out t1 has True have "t' = t1\<lparr>t_services := service_status_set (t_services t1) i SERVICE_STATUS_IDLE\<rparr>"
        by (auto simp: dispatch_alive_def Let_def split: bind_splits)
      then have "mail_moves t {#} {#} t'" using P1(2) eq status [OF D1(1)] by (simp add: mail_moves_def)
      then show ?thesis by blast
    next
      case sock: True
      have new: "message_new (p_malloc (t_services t1)) (idle_message i) = (Some (idle_message i), [])"
        by (simp add: D1(2) message_new_def)
      have Pm: "(t_services t1)\<lparr>p_malloc := []\<rparr> = t_services t1"
        using D1(2) by (metis service_pool.surjective service_pool.update_convs(5))
      from res out t1 has True sock new Pm obtain r P2 where
        push: "service_push_message (t_services t1) i (Some (idle_message i)) = Some (r, P2)" and
        b: "schedule_back (t1\<lparr>t_services := service_status_set P2 i SERVICE_STATUS_SCHEDULE\<rparr>) i = Some t'"
        by (auto simp: dispatch_alive_def Let_def split: bind_splits)
      from requeued [OF b takes_in_push(1) [OF takes_in_refl [OF D1] push]] show ?thesis
        by (cases "r = 0") auto
    qed
  qed
qed

text \<open>Root takes no signal: it is dead, or its mailbox is full. The signal is then lost.\<close>

definition root_refuses :: "ltask \<Rightarrow> bool" where
  "root_refuses t \<longleftrightarrow> service_status_get (t_services t) SERVICE_ID_ROOT = SERVICE_STATUS_DEAD
     \<or> (\<exists>S q. get_service (t_services t) SERVICE_ID_ROOT = Some S \<and> s_msg S = Some q \<and> queue_count q = queue_cap q)"

lemma dispatch_dead_mail:
  assumes wf: "pool_wf (t_services t)" and mem: "p_malloc (t_services t) = []"
    and out: "out_of (t_services t) i = Some (signal_message i)"
    and res: "dispatch_dead t i = Some t'"
  shows "\<exists>outs. (outs = {#} \<or> outs = {#signal_message i#} \<and> root_refuses t) \<and> mail_moves t {#} outs t'"
proof -
  obtain m P where mo: "service_message_out (t_services t) i = (m, P)" by fastforce
  note v = message_out_view [OF wf mo] and P = message_out_mail [OF wf mem mo]
  have m: "m = Some (signal_message i)" using v out by simp
  have to: "m_to (signal_message i) = SERVICE_ID_ROOT" by (simp add: signal_message_def)
  from res mo m to obtain r P1 where
    push: "service_push_message P SERVICE_ID_ROOT (Some (signal_message i)) = Some (r, P1)"
    by (auto simp: dispatch_dead_def split: bind_splits)
  note P1 = takes_in_push [OF P(1) push]
  show ?thesis
  proof (cases "service_status_get (t_services t) SERVICE_ID_ROOT = SERVICE_STATUS_DEAD")
    case True
    then have "service_status_get P SERVICE_ID_ROOT = SERVICE_STATUS_DEAD" using v by (simp add: status_view)
    then have "r = -1" "P1 = P" using push_message_dead push by auto
    with res mo m to push obtain P2 where P2: "service_delete P i = Some P2" "t' = t\<lparr>t_services := P2\<rparr>"
      by (auto simp: dispatch_dead_def Let_def split: bind_splits)
    have "mail_moves t {#} {#signal_message i#} t'"
      using takes_in_delete [OF P(1) P2(1)] P2(2) P(2) m by (simp add: takes_in_def mail_moves_def)
    with True show ?thesis by (auto simp: root_refuses_def)
  next
    case False
    then obtain S where S: "get_service (t_services t) SERVICE_ID_ROOT = Some S"
      by (auto simp: service_status_get_def split: option.splits)
    from message_out_get [OF wf mo S] obtain S' where
      S': "get_service P SERVICE_ID_ROOT = Some S'" "s_msg S' = s_msg S" "s_status S' = s_status S"
      by auto
    have alive: "s_status S' \<noteq> SERVICE_STATUS_DEAD" using False S S'(3) by (simp add: service_status_get_def)
    with push S'(1) obtain q where q: "s_msg S' = Some q"
      by (auto simp: service_push_message_def split: option.splits)
    show ?thesis
    proof (cases "queue_count q < queue_cap q")
      case True
      from push_message_room [OF takes_inD(1) [OF P(1)] S'(1) alive q True, of "signal_message i"] push
      have r: "r = 0" by simp
      with res mo m to push have "check_message_to (t\<lparr>t_services := P1\<rparr>) SERVICE_ID_ROOT = Some t'"
        by (auto simp: dispatch_dead_def Let_def split: bind_splits)
      with check_message_mail [of P _ "t\<lparr>t_services := P1\<rparr>"] P1(1) r
      have "takes_in P {#signal_message i#} (t_services t')" "keeps_external t t'" by fastforce+
      then have "mail_moves t {#} {#} t'" using P(2) m by (simp add: takes_in_def mail_moves_def)
      then show ?thesis by blast
    next
      case full: False
      from push_message_full [OF takes_inD(1) [OF P(1)] S'(1) alive q full, of "signal_message i"] push
      have r: "r = 1" "P1 = P" by simp_all
      with res mo m to push have b: "schedule_back (t\<lparr>t_services := P\<rparr>) i = Some t'"
        by (auto simp: dispatch_dead_def Let_def split: bind_splits)
      have "mail_moves t {#} {#signal_message i#} t'"
        using schedule_back_frame [OF b] P(2) m by (simp add: mail_moves_def keeps_external_def)
      moreover have "queue_wf q" by (rule service_wf_mailbox [OF get_service_wf(1) [OF takes_inD(1) [OF P(1)] S'(1)] q])
      then have "queue_count q = queue_cap q" using full queue_count_le_cap [of q] by simp
      then have "root_refuses t" unfolding root_refuses_def using S q S'(2) by auto
      ultimately show ?thesis by blast
    qed
  qed
qed

section \<open>External messages\<close>

lemma send_external_mail:
  assumes P: "takes_in P M (t_services t)" and res: "send_external_message t (Some m) = Some (r, t')"
  shows "takes_in P (M + (if r = 0 then {#m#} else {#})) (t_services t') \<and> keeps_external t t'"
proof -
  from res obtain r1 P1 where push: "service_push_message (t_services t) (m_to m) (Some m) = Some (r1, P1)"
    and t': "(r, t') = (if r1 = 0 then (0, t\<lparr>t_services := P1\<rparr>) else if r1 = 1 then (1, t\<lparr>t_services := P1\<rparr>)
        else (0, t\<lparr>t_services := P1\<lparr>p_freed := message_delete (Some m) (p_freed P1)\<rparr>\<rparr>))"
    by (auto simp: send_external_message_def split: bind_splits if_splits)
  note P1 = takes_in_push(1) [OF P push]
  from P1 takes_in_freed [OF P1, of m] t' show ?thesis by (auto split: if_splits)
qed

text \<open>What the loop pops from the queue of the outside senders, as the messages it makes of them.\<close>

definition external_mail :: "(ptr \<Rightarrow> ptr \<times> u64) \<Rightarrow> ltask \<Rightarrow> ltask \<Rightarrow> message multiset" where
  "external_mail pack t t' =
     (case (t_external_message t, t_external_message t') of
        (Some q, Some q') \<Rightarrow> mset (map (\<lambda>v. external_message_of (pack v))
           (take (queue_count q - queue_count q') (queue_list q)))
      | _ \<Rightarrow> {#})"

definition popped :: "nat \<Rightarrow> ptr queue \<Rightarrow> ptr queue \<Rightarrow> bool" where
  "popped n q q' \<longleftrightarrow> queue_wf q' \<and> n \<le> queue_count q \<and> queue_list q' = drop n (queue_list q)"

lemma popped_deq:
  assumes wf: "queue_wf q" and some: "0 < queue_count q" and rest: "popped n (ring_deq q) q'"
  shows "popped (Suc n) q q'"
    and "take (Suc n) (queue_list q) = hd (queue_list q) # take n (queue_list (ring_deq q))"
proof -
  have "queue_list q \<noteq> []" using some by (simp add: queue_list_empty_iff)
  then show "take (Suc n) (queue_list q) = hd (queue_list q) # take n (queue_list (ring_deq q))"
    using ring_deq_list [OF wf some] by (cases "queue_list q") auto
  show "popped (Suc n) q q'"
    using rest ring_deq_list [OF wf some] ring_deq_count [OF wf some] some
    by (auto simp: popped_def drop_Suc)
qed

lemma external_loop_mail:
  assumes "takes_in P M (t_services t)" and "queue_wf q" and "t_external_last_message t = None"
    and "external_loop fuel pack q send t = Some (b, send', t')"
  shows "\<exists>n q' N. t_external_message t' = Some q' \<and> popped n q q'
    \<and> takes_in P (M + N) (t_services t')
    \<and> mset (map (\<lambda>v. external_message_of (pack v)) (take n (queue_list q))) = N + opt_msgs (t_external_last_message t')"
  using assms
proof (induction fuel arbitrary: q send t M)
  case 0
  then show ?case by simp
next
  case (Suc fuel)
  note P = Suc.prems(1) and wf = Suc.prems(2) and none = Suc.prems(3) and res = Suc.prems(4)
  show ?case
  proof (cases "queue_count q = 0")
    case True
    then have "t' = t\<lparr>t_external_message := Some q\<rparr>" using res queue_pop_ptr_empty [OF wf] by simp
    then have "t_external_message t' = Some q \<and> popped 0 q q \<and> takes_in P (M + {#}) (t_services t')
        \<and> mset (map (\<lambda>v. external_message_of (pack v)) (take 0 (queue_list q))) = {#} + opt_msgs (t_external_last_message t')"
      using P wf none by (simp add: popped_def opt_msgs_def)
    then show ?thesis by blast
  next
    case False
    then have some: "0 < queue_count q" by simp
    let ?q1 = "ring_deq q" and ?m = "external_message_of (pack (hd (queue_list q)))"
    let ?t1 = "t\<lparr>t_external_message := Some ?q1\<rparr>"
    have q1: "queue_wf ?q1" by (rule ring_deq_wf [OF wf some])
    have new: "message_new (p_malloc (t_services t)) ?m = (Some ?m, [])"
      using takes_inD(2) [OF P] by (simp add: message_new_def)
    have same: "(t_services t)\<lparr>p_malloc := []\<rparr> = t_services t"
      using takes_inD(2) [OF P] by (metis service_pool.surjective service_pool.update_convs(5))
    from res obtain r t2 where
      sent: "send_external_message ?t1 (Some ?m) = Some (r, t2)" and
      cont: "(if r \<noteq> 0 then Some (True, send, t2\<lparr>t_external_last_message := Some ?m\<rparr>)
              else external_loop fuel pack ?q1 1 t2) = Some (b, send', t')"
      using queue_pop_ptr_some [OF wf some] new same
      by (auto simp: Let_def split: bind_splits)
    have t2: "takes_in P (M + (if r = 0 then {#?m#} else {#})) (t_services t2)" "keeps_external ?t1 t2"
      using send_external_mail [of P M ?t1 ?m r t2] P sent by simp_all
    show ?thesis
    proof (cases "r = 0")
      case False
      note p = popped_deq [OF wf some, of 0 ?q1]
      have "t_external_message t' = Some ?q1 \<and> popped 1 q ?q1 \<and> takes_in P (M + {#}) (t_services t')
          \<and> mset (map (\<lambda>v. external_message_of (pack v)) (take 1 (queue_list q))) = {#} + opt_msgs (t_external_last_message t')"
        using cont False t2 p q1 by (auto simp: popped_def opt_msgs_def keeps_external_def)
      then show ?thesis by blast
    next
      case True
      have "t_external_last_message t2 = None" using t2(2) none by (simp add: keeps_external_def)
      with Suc.IH [of "M + {#?m#}" t2 ?q1 1] t2(1) True q1 cont obtain n q' N where
        IH: "t_external_message t' = Some q'" "popped n ?q1 q'" "takes_in P (M + {#?m#} + N) (t_services t')"
          "mset (map (\<lambda>v. external_message_of (pack v)) (take n (queue_list ?q1))) = N + opt_msgs (t_external_last_message t')"
        by auto
      note p = popped_deq [OF wf some IH(2)]
      have "popped (Suc n) q q' \<and> takes_in P (M + ({#?m#} + N)) (t_services t')
          \<and> mset (map (\<lambda>v. external_message_of (pack v)) (take (Suc n) (queue_list q)))
            = {#?m#} + N + opt_msgs (t_external_last_message t')"
        using p IH(3,4) by (simp add: add.assoc)
      then show ?thesis using IH(1) by blast
    qed
  qed
qed

text \<open>\<open>external_gain t N t'\<close>: the messages \<open>N\<close> entered, whether delivered, refused or still waiting.\<close>

lemma external_finish_mail:
  assumes P: "takes_in P M (t_services t)" and q: "t_external_message t = Some q" and wf: "queue_wf q"
    and none: "t_external_last_message t = None" and res: "external_finish send pack t = Some t'"
  shows "\<exists>N. takes_in P (M + N) (t_services t')
    \<and> external_mail pack t t' = N + opt_msgs (t_external_last_message t')"
proof -
  from res q obtain b send' t1 where
    loop: "external_loop (nat (q_size q) + 1) pack q send t = Some (b, send', t1)" and
    cont: "t' = t1 \<or> check_message_to t1 1 = Some t'"
    by (auto simp: external_finish_def simp del: external_loop.simps split: bind_splits if_splits)
  from external_loop_mail [OF P wf none loop] obtain n q' N where
    L: "t_external_message t1 = Some q'" "popped n q q'" "takes_in P (M + N) (t_services t1)"
      "mset (map (\<lambda>v. external_message_of (pack v)) (take n (queue_list q))) = N + opt_msgs (t_external_last_message t1)"
    by blast
  have t': "takes_in P (M + N) (t_services t')" "keeps_external t1 t'"
    using cont check_message_mail [OF L(3)] L(3) by auto
  have "queue_count q - queue_count q' = n"
    using arg_cong [of _ _ length, OF L(2) [unfolded popped_def, THEN conjunct2, THEN conjunct2]] L(2)
    by (auto simp: popped_def)
  then have "external_mail pack t t' = N + opt_msgs (t_external_last_message t')"
    using t'(2) q L(1,4) by (simp add: external_mail_def keeps_external_def)
  with t'(1) show ?thesis by blast
qed

lemma dispatch_external_mail:
  assumes wf: "pool_wf (t_services t)" and mem: "p_malloc (t_services t) = []"
    and ext: "ext_wf t" and q: "t_external_message t \<noteq> None"
    and res: "dispatch_external_messages pack t = Some t'"
  shows "task_mail t' = task_mail t + letters (external_mail pack t t')"
proof -
  note P = takes_in_refl [OF wf mem]
  from q ext obtain e where e: "t_external_message t = Some e" "queue_wf e" by (auto simp: ext_wf_def)
  show ?thesis
  proof (cases "t_external_last_message t")
    case None
    with res have "external_finish 0 pack t = Some t'" by (simp add: dispatch_external_messages_def)
    from external_finish_mail [OF P e None this] None show ?thesis
      by (auto simp: takes_in_def task_mail_def opt_msgs_def)
  next
    case (Some m)
    with res obtain r t1 where sent: "send_external_message t (Some m) = Some (r, t1)"
      and cont: "(if r \<noteq> 0 then Some t1
          else external_finish 1 pack (t1\<lparr>t_external_last_message := None\<rparr>)) = Some t'"
      by (auto simp: dispatch_external_messages_def split: bind_splits)
    have t1: "takes_in (t_services t) (if r = 0 then {#m#} else {#}) (t_services t1)" "keeps_external t t1"
      using send_external_mail [OF P sent] by simp_all
    show ?thesis
    proof (cases "r = 0")
      case False
      with cont t1 Some e show ?thesis
        by (auto simp: takes_in_def task_mail_def keeps_external_def external_mail_def)
    next
      case True
      let ?t2 = "t1\<lparr>t_external_last_message := None\<rparr>"
      have "external_mail pack ?t2 t' = external_mail pack t t'"
        using t1(2) by (simp add: external_mail_def keeps_external_def)
      moreover have "t_external_message ?t2 = Some e" using t1(2) e by (simp add: keeps_external_def)
      ultimately show ?thesis
        using external_finish_mail [of "t_services t" "{#m#}" ?t2 e 1 pack t'] t1(1) True cont e(2) Some
        by (auto simp: takes_in_def task_mail_def opt_msgs_def)
    qed
  qed
qed

section \<open>The other phases\<close>

lemma collect_mail:
  assumes "collect_done_loop t jobs ns = Some (jobs', t')"
  shows "t_services t' = t_services t \<and> t_external_last_message t' = t_external_last_message t"
  using assms
  by (induction t jobs ns rule: collect_done_loop.induct)
    (auto simp: Let_def split: bind_splits prod.splits if_splits)

text \<open>The phases that hand out jobs move jobs and do nothing else.\<close>

fun moving_phase :: "phase \<Rightarrow> bool" where
  "moving_phase PhPending = True"
| "moving_phase (PhCount jobs) = True"
| "moving_phase (PhPrepare jobs n) = True"
| "moving_phase (PhAssign jobs) = True"
| "moving_phase PhTouch = True"
| "moving_phase PhFind = True"
| "moving_phase _ = False"

lemma moving_phase_moves:
  assumes inv: "sys_inv s" and k: "k < length (sy_pcs s)" and pc: "pc_at s k = TRound r ph"
    and ph: "moving_phase ph" and res: "round_step fails pack (int k) r ph (sy_task s) = Some (pc', t)"
  shows "moves (sy_task s) t"
proof -
  note wf = sys_invD(1) [OF inv]
  have n: "int k < c_worker (t_config (sy_task s))"
    using worker_at_wf(4) [OF wf sys_worker(1) [OF inv k]] .
  show ?thesis
  proof (cases ph)
    case PhPending
    then show ?thesis using res get_pending_jobs_spec [OF wf, of fails] by auto
  next
    case (PhCount jobs)
    then show ?thesis using res count_freeslot_spec [OF wf] by auto
  next
    case (PhPrepare jobs m)
    have "0 \<le> m" "int (length jobs) + m \<le> int (nfree (sy_task s))" "0 \<notin> set jobs"
      using sys_invD(8) [OF inv k] owner_waiting(3) [OF inv k pc] pc PhPrepare by simp_all
    with prepare_loop_spec [OF wf, of jobs m 0] res PhPrepare show ?thesis
      by (auto simp: prepare_task_def)
  next
    case (PhAssign jobs)
    have "length jobs \<le> nfree (sy_task s)" "0 \<notin> set jobs" "\<forall>i. count (queued (sy_task s) + mset jobs) i \<le> 1"
      using sys_invD(8) [OF inv k] owner_waiting(2,3) [OF inv k pc] pc PhAssign by simp_all
    with assign_prepare_task_spec [OF wf, of jobs] res PhAssign show ?thesis by auto
  next
    case PhTouch
    then show ?thesis using res trigger_blocked_workers_spec [OF wf] by auto
  next
    case PhFind
    then show ?thesis using res find_job_spec [OF wf _ n, of fails] by fastforce
  qed (use ph in simp_all)
qed

lemma quiet_phase:
  assumes inv: "sys_inv s" and k: "k < length (sy_pcs s)" and pc: "pc_at s k = TRound r ph"
    and ph: "ph \<noteq> PhExternal" "\<And>i is. ph \<noteq> PhDispatch (i # is)"
    and res: "round_step fails pack (int k) r ph (sy_task s) = Some (pc', t)"
  shows "t_services t = t_services (sy_task s) \<and> t_external_last_message t = t_external_last_message (sy_task s)"
proof (cases "moving_phase ph")
  case True
  then show ?thesis using moving_phase_moves [OF inv k pc True res] by (simp add: moves_def)
next
  case False
  show ?thesis
  proof (cases ph)
    case PhCollect
    then show ?thesis using res collect_mail by (auto simp: collect_done_job_def)
  next
    case (PhDispatch js)
    then show ?thesis using ph res by (cases js) auto
  next
    case (PhRelease m)
    then show ?thesis using res by (auto simp: release_scheduler_def split: bind_splits)
  qed (use False ph in simp_all)
qed

section \<open>Every step\<close>

text \<open>
  \<open>mail_step s s' ins outs\<close>: how a step may add the messages \<open>ins\<close> to the system and take
  \<open>outs\<close> from it. A call of Lua hands over and is handed what the interface of the pool says;
  a service that ends leaves its signal; a round makes a message of every pointer it pops
  from the outside queue, and at most an idle message for the service it dispatches; the
  signal of a dead service is lost when root is dead or its mailbox is full, whether the contract
  \<open>phase_ok\<close> rules that out or not. Every other step changes at most one status.
\<close>

inductive mail_step :: "sys \<Rightarrow> sys \<Rightarrow> message multiset \<Rightarrow> message multiset \<Rightarrow> bool" where
  mail_lua: "k < length (sy_pcs s) \<Longrightarrow> pc_at s k = TRun i \<Longrightarrow> lua_call_ok s i c \<Longrightarrow>
     pool_step c (t_services (sy_task s)) = Some (ins, outs, P) \<Longrightarrow>
     mail_step s (put_pool s k P (TRun i)) (mset ins) (mset outs)"
| mail_signal: "k < length (sy_pcs s) \<Longrightarrow> pc_at s k = TRun i \<Longrightarrow> i \<noteq> SERVICE_ID_ROOT \<Longrightarrow>
     t_services (sy_task s') =
       service_send_signal (service_status_set (t_services (sy_task s)) i SERVICE_STATUS_DEAD) i \<Longrightarrow>
     mail_step s s' {#signal_message i#} {#}"
| mail_external: "k < length (sy_pcs s) \<Longrightarrow> pc_at s k = TRound r PhExternal \<Longrightarrow>
     round_step fails pack (int k) r PhExternal (sy_task s) = Some (pc, t) \<Longrightarrow>
     mail_step s (put s k t pc) (external_mail pack (sy_task s) t) {#}"
| mail_dispatch: "k < length (sy_pcs s) \<Longrightarrow> pc_at s k = TRound r (PhDispatch (i # is)) \<Longrightarrow>
     round_step fails pack (int k) r (PhDispatch (i # is)) (sy_task s) = Some (pc, t) \<Longrightarrow>
     ins = {#} \<or> ins = {#idle_message i#} \<Longrightarrow>
     outs = {#} \<or> outs = {#signal_message i#} \<and> root_refuses (sy_task s) \<Longrightarrow>
     mail_step s (put s k t pc) ins outs"
| mail_quiet: "t_services (sy_task s') = t_services (sy_task s)
       \<or> (\<exists>i st. t_services (sy_task s') = service_status_set (t_services (sy_task s)) i st) \<Longrightarrow>
     mail_step s s' {#} {#}"

definition conserves :: "sys \<Rightarrow> sys \<Rightarrow> bool" where
  "conserves s s' \<longleftrightarrow> (\<exists>ins outs. mail_step s s' ins outs
     \<and> task_mail (sy_task s') + letters outs = task_mail (sy_task s) + letters ins)"

lemma status_set_mail: "pool_wf P \<Longrightarrow> pool_msgs (service_status_set P i st) = pool_msgs P"
  by (simp add: service_status_set_def pool_msgs_upd_same service_msgs_def)

lemma conserves_quiet:
  assumes inv: "sys_inv s"
    and "t_services (sy_task s') = t_services (sy_task s)
      \<or> (\<exists>i st. t_services (sy_task s') = service_status_set (t_services (sy_task s)) i st)"
    and "t_external_last_message (sy_task s') = t_external_last_message (sy_task s)"
  shows "conserves s s'"
proof -
  have "task_mail (sy_task s') = task_mail (sy_task s)"
    using status_set_mail [OF coreD(1) [OF sys_invD(4) [OF inv]]] assms(2,3) by (auto simp: task_mail_def)
  then show ?thesis unfolding conserves_def using mail_quiet [OF assms(2)] by fastforce
qed

lemma conserves_lua:
  assumes inv: "sys_inv s" and k: "k < length (sy_pcs s)" "pc_at s k = TRun i" and ok: "lua_call_ok s i c"
    "pool_call_ok (t_services (sy_task s)) c" and res: "pool_step c (t_services (sy_task s)) = Some (ins, outs, P)"
  shows "conserves s (put_pool s k P (TRun i))"
proof -
  have "pool_msgs (t_services (sy_task s)) + mset ins = pool_msgs P + mset outs"
    using pool_step_ok [OF coreD(1) [OF sys_invD(4) [OF inv]] ok(2) res] by simp
  then have "letters (pool_msgs P) + letters (mset outs) = letters (pool_msgs (t_services (sy_task s))) + letters (mset ins)"
    by (metis letters_simps(2))
  then have "task_mail (sy_task (put_pool s k P (TRun i))) + letters (mset outs) = task_mail (sy_task s) + letters (mset ins)"
    by (simp add: task_mail_def put_pool_def ac_simps)
  then show ?thesis unfolding conserves_def using mail_lua [OF k ok(1) res] by blast
qed

lemma conserves_signal:
  assumes inv: "sys_inv s" and k: "k < length (sy_pcs s)" "pc_at s k = TRun i" "i \<noteq> SERVICE_ID_ROOT"
    and P: "t_services (sy_task s') =
       service_send_signal (service_status_set (t_services (sy_task s)) i SERVICE_STATUS_DEAD) i"
    and same: "t_external_last_message (sy_task s') = t_external_last_message (sy_task s)"
  shows "conserves s s'"
proof -
  let ?P = "t_services (sy_task s)" let ?Q = "service_status_set ?P i SERVICE_STATUS_DEAD"
  note C = sys_invD(4) [OF inv] note wf = coreD(1) [OF C]
  have "get_service ?P i \<noteq> None"
    using coreD(6) [OF C sys_running(3) [OF inv k(1), of i]] k(2) by simp
  then have "get_service ?Q i \<noteq> None"
    by (simp add: present_view status_set_view [OF wf])
  moreover have "pool_wf ?Q" "p_malloc ?Q = []"
    using status_set_wf [OF wf] status_set_view(4) [OF wf] coreD(2) [OF C] by simp_all
  ultimately have "pool_msgs (t_services (sy_task s')) = pool_msgs ?P + {#signal_message i#}"
    using send_signal_msgs [of ?Q i] status_set_mail [OF wf] P by (simp add: message_new_def opt_msgs_def)
  then show ?thesis
    unfolding conserves_def using mail_signal [OF k P] same by (fastforce simp: task_mail_def)
qed

lemma conserves_round:
  assumes inv: "sys_inv s" and k: "k < length (sy_pcs s)" and pc: "pc_at s k = TRound r ph"
    and res: "round_step fails pack (int k) r ph (sy_task s) = Some (pc', t)"
  shows "conserves s (put s k t pc')"
proof -
  let ?t = "sy_task s"
  note D = sys_invD [OF inv] note C = coreD [OF D(4)]
  consider (ext) "ph = PhExternal" | (disp) i js where "ph = PhDispatch (i # js)"
    | (rest) "ph \<noteq> PhExternal" "\<And>i is. ph \<noteq> PhDispatch (i # is)" by blast
  then show ?thesis
  proof cases
    case ext
    have "task_mail t = task_mail ?t + letters (external_mail pack ?t t)"
    proof (cases "t_external_message ?t = None")
      case True
      then show ?thesis using res ext by (simp add: external_mail_def)
    next
      case False
      with res ext have "dispatch_external_messages pack ?t = Some t" by auto
      then show ?thesis by (rule dispatch_external_mail [OF C(1,2) D(3) False])
    qed
    then show ?thesis
      unfolding conserves_def using mail_external [OF k pc [unfolded ext] res [unfolded ext]] by fastforce
  next
    case disp
    have fin: "finished (t_services ?t) i" using D(7) [OF k] pc disp by (simp add: thread_ok_def)
    have call: "dispatch_done ?t i = Some t" using res disp by auto
    have "\<exists>ins outs. (ins = {#} \<or> ins = {#idle_message i#})
        \<and> (outs = {#} \<or> outs = {#signal_message i#} \<and> root_refuses ?t) \<and> mail_moves ?t ins outs t"
    proof (cases "service_status_get (t_services ?t) i = SERVICE_STATUS_DEAD")
      case True
      then have "out_of (t_services ?t) i = Some (signal_message i)" "dispatch_dead ?t i = Some t"
        using fin disp call by (auto simp: finished_def dispatch_done_def)
      from dispatch_dead_mail [OF C(1,2) this] show ?thesis by blast
    next
      case False
      then have "dispatch_alive ?t i (service_status_get (t_services ?t) i) = Some t"
        using call by (simp add: dispatch_done_def)
      from dispatch_alive_mail [OF C(1,2) this] show ?thesis by blast
    qed
    then obtain ins outs where m: "ins = {#} \<or> ins = {#idle_message i#}"
      "outs = {#} \<or> outs = {#signal_message i#} \<and> root_refuses ?t" "mail_moves ?t ins outs t" by blast
    have "task_mail t + letters outs = task_mail ?t + letters ins"
      using m(3) by (simp add: mail_moves_def task_mail_def keeps_external_def)
    then show ?thesis
      unfolding conserves_def using mail_dispatch [OF k pc [unfolded disp] res [unfolded disp] m(1,2)] by fastforce
  next
    case rest
    then show ?thesis using quiet_phase [OF inv k pc rest res] by (intro conserves_quiet [OF inv]) simp_all
  qed
qed

lemma thread_step_conserves:
  assumes inv: "sys_inv s" and step: "thread_step s s'"
  shows "conserves s s'"
  using step
proof cases
  case (th_lua k i c ins outs P)
  then show ?thesis using conserves_lua [OF inv] by blast
next
  case (th_term k i w P)
  then show ?thesis using conserves_signal [OF inv, of k i s'] by simp
next
  case (th_round k r ph fails pack pc t)
  then show ?thesis using conserves_round [OF inv] by blast
next
  case (th_root k P t)
  have "sched_wf ((sy_task s)\<lparr>t_services := P\<rparr>)"
    using sched_bounds [OF sys_invD(1) [OF inv]] sys_invD(1) [OF inv] coreD(1) [OF sys_invD(4) [OF inv]] th_root(4)
    by (intro sched_wf_services) (simp_all add: status_set_bounds)
  with root_quit_signals th_root(5) have "signals ((sy_task s)\<lparr>t_services := P\<rparr>) t" by fastforce
  then have "t_services t = P" "t_external_last_message t = t_external_last_message (sy_task s)"
    by (auto simp: signals_def)
  then show ?thesis using th_root by (intro conserves_quiet [OF inv]) auto
next
  case (th_start k i)
  then show ?thesis by (intro conserves_quiet [OF inv]) (auto simp: put_pool_def)
next
  case (th_yield k i w P)
  then show ?thesis by (intro conserves_quiet [OF inv]) auto
next
  case (th_acquire k i fails t)
  then show ?thesis using acquire_cases [of fails "int k" "sy_task s" 0 t] by (auto intro!: conserves_quiet [OF inv])
next
  case (th_acquire_fail k i fails t)
  then show ?thesis using acquire_cases [of fails "int k" "sy_task s" 1 t] by (auto intro!: conserves_quiet [OF inv])
next
  case (th_nojob k n fails t)
  then show ?thesis using acquire_cases [of fails "int k" "sy_task s" 0 t] by (auto intro!: conserves_quiet [OF inv])
next
  case (th_nojob_fail k n fails t)
  then show ?thesis using acquire_cases [of fails "int k" "sy_task s" 1 t] by (auto intro!: conserves_quiet [OF inv])
qed (auto simp: put_worker_def put_pool_def intro!: conserves_quiet [OF inv])

lemma code_step_conserves:
  assumes inv: "sys_inv s" and step: "code_step s s'"
  shows "conserves s s'"
  using step
proof cases
  case code_thread
  then show ?thesis by (rule thread_step_conserves [OF inv])
next
  case (code_round k r ph fails pack pc t)
  then show ?thesis using conserves_round [OF inv] by blast
next
  case (code_round_bad k r ph fails pack)
  then show ?thesis by (intro conserves_quiet [OF inv]) simp_all
qed

text \<open>
  C3: every message is accounted for. Take a state the threads have reached from a booted system
  with the contract kept (\<open>lua_call_ok\<close> and, in the dispatching phases, \<open>phase_ok\<close>; \<open>malloc\<close> never
  fails), and whatever step a thread makes next, with the contract kept or not (\<open>code_step\<close>). The
  messages in mailboxes, on their way out, bounced, released or waiting to enter, up to the addressee,
  are afterwards those from before, with what \<open>mail_step\<close> lets the step add and take. The scheduler's
  deliveries, receipts, refusals and deletions only move messages; it adds idle messages and the
  messages made of what the outside sent, and takes away one kind only: the signal of a dead service,
  which is lost if root is dead or root's mailbox is full.
\<close>

theorem mail_accounted:
  assumes "sys_booted s0" and "sys_reach s0 s" and "code_step s s'"
  shows "\<exists>ins outs. mail_step s s' ins outs
    \<and> task_mail (sy_task s') + letters outs = task_mail (sy_task s) + letters ins"
  using code_step_conserves [OF reach_inv [OF assms(2,1)] assms(3)] by (simp add: conserves_def)

text \<open>Root, once it runs, takes its first message.\<close>

lemma demo_takes_mail:
  obtains s P where "sys_reach (ltask_run demo_task) s" "0 < length (sy_pcs s)" "pc_at s 0 = TRun SERVICE_ID_ROOT"
    "pool_call_ok (t_services (sy_task s)) (Call_pop SERVICE_ID_ROOT)"
    "pool_step (Call_pop SERVICE_ID_ROOT) (t_services (sy_task s)) = Some ([], [demo_start], P)"
proof -
  have "(case solo_run 15 0 (ltask_run demo_task) of None \<Rightarrow> False
      | Some s \<Rightarrow> pc_at s 0 = TRun SERVICE_ID_ROOT
          \<and> pool_call_ok (t_services (sy_task s)) (Call_pop SERVICE_ID_ROOT)
          \<and> (case pool_step (Call_pop SERVICE_ID_ROOT) (t_services (sy_task s)) of None \<Rightarrow> False
             | Some (ins, outs, P) \<Rightarrow> ins = [] \<and> outs = [demo_start]))"
    by code_simp
  then obtain s P where s: "solo_run 15 0 (ltask_run demo_task) = Some s" "pc_at s 0 = TRun SERVICE_ID_ROOT"
    "pool_call_ok (t_services (sy_task s)) (Call_pop SERVICE_ID_ROOT)"
    "pool_step (Call_pop SERVICE_ID_ROOT) (t_services (sy_task s)) = Some ([], [demo_start], P)"
    by (auto simp del: pool_step.simps pool_call_ok.simps split: option.splits)
  have "length (sy_pcs (ltask_run demo_task)) = 2" by code_simp
  with solo_run_reach [OF s(1) reach_init] that [of s P] s show thesis by simp
qed

theorem mail_accounted_witness:
  "\<exists>s s' ins outs. sys_reach (ltask_run demo_task) s \<and> letter demo_start \<in># task_mail (sy_task s)
     \<and> thread_step s s' \<and> mail_step s s' ins outs
     \<and> task_mail (sy_task s') + letters outs = task_mail (sy_task s) + letters ins"
proof -
  from demo_takes_mail obtain s P where r: "sys_reach (ltask_run demo_task) s" "0 < length (sy_pcs s)"
    "pc_at s 0 = TRun SERVICE_ID_ROOT" "pool_call_ok (t_services (sy_task s)) (Call_pop SERVICE_ID_ROOT)"
    "pool_step (Call_pop SERVICE_ID_ROOT) (t_services (sy_task s)) = Some ([], [demo_start], P)" .
  have "lua_call_ok s SERVICE_ID_ROOT (Call_pop SERVICE_ID_ROOT)" by simp
  from th_lua [OF r(2,3) this r(4,5)] have step: "thread_step s (put_pool s 0 P (TRun SERVICE_ID_ROOT))" .
  have "pool_msgs (t_services (sy_task s)) = pool_msgs P + {#demo_start#}"
    using pool_step_ok [OF coreD(1) [OF sys_invD(4) [OF reach_inv [OF r(1) demo_booted]]] r(4,5)] by simp
  then have "letter demo_start \<in># task_mail (sy_task s)" by (simp add: task_mail_def)
  with mail_accounted [OF demo_booted r(1) code_thread [OF step]] r(1) step show ?thesis by blast
qed

end
