(* ===== verification/InboxOrder.thy ===== *)
theory InboxOrder
  imports MessageFlow "HOL-Library.Sublist"
begin

text \<open>
  The order of the mail. \<open>MessageFlow\<close> shows that no message is lost; here the mailbox of a
  service is followed through the steps of all threads as a list. The scheduler, the services that
  run and those that end only append to it, and it is taken from at the front only, by its service
  while that runs, or by root when it closes the service.
\<close>

section \<open>Mailboxes that only grow\<close>

definition mailbox_of :: "service_pool \<Rightarrow> service_id \<Rightarrow> message list" where
  "mailbox_of P j = (case get_service P j of None \<Rightarrow> [] | Some S \<Rightarrow> mailbox_list (s_msg S))"

text \<open>
  \<open>stays P P'\<close>: the same services, with what they had in their mailboxes still in front.
  \<open>grows P P'\<close>: services may have come and gone, too.
\<close>

definition stays :: "service_pool \<Rightarrow> service_pool \<Rightarrow> bool" where
  "stays P P' \<longleftrightarrow> (\<forall>j. (get_service P' j = None \<longleftrightarrow> get_service P j = None) \<and> prefix (mailbox_of P j) (mailbox_of P' j))"

definition grows :: "service_pool \<Rightarrow> service_pool \<Rightarrow> bool" where
  "grows P P' \<longleftrightarrow> (\<forall>j. get_service P' j = None \<or> prefix (mailbox_of P j) (mailbox_of P' j))"

lemma stays_refl [simp]: "stays P P"
  by (simp add: stays_def)

lemma stays_trans: "stays P P1 \<Longrightarrow> stays P1 P2 \<Longrightarrow> stays P P2"
  unfolding stays_def by (meson prefix_order.trans)

lemma stays_grows: "stays P P' \<Longrightarrow> grows P P'"
  by (simp add: stays_def grows_def)

lemma grows_stays: "grows P P1 \<Longrightarrow> stays P1 P2 \<Longrightarrow> grows P P2"
  unfolding stays_def grows_def by (meson prefix_order.trans)

lemma stays_then_grows: "stays P P1 \<Longrightarrow> grows P1 P2 \<Longrightarrow> grows P P2"
  unfolding stays_def grows_def by (meson prefix_order.trans)

lemma stays_frame [simp]:
  "stays P (P'\<lparr>p_freed := f\<rparr>) = stays P P'" "stays P (P'\<lparr>p_malloc := m\<rparr>) = stays P P'"
  "stays (P\<lparr>p_freed := f\<rparr>) P' = stays P P'" "stays (P\<lparr>p_malloc := m\<rparr>) P' = stays P P'"
  "stays P (P'\<lparr>p_closed := c\<rparr>) = stays P P'"
  by (simp_all add: stays_def mailbox_of_def)

lemma stays_upd:
  assumes "pool_wf P" and "\<And>S. s_id (f S) = s_id S"
    and "\<And>S. get_service P i = Some S \<Longrightarrow> prefix (mailbox_list (s_msg S)) (mailbox_list (s_msg (f S)))"
  shows "stays P (upd_service P i f)"
  using assms by (auto simp: stays_def mailbox_of_def get_upd_sized [OF sized_wf] split: option.splits)

section \<open>The operations of the pool\<close>

lemma push_stays:
  assumes wf: "pool_wf P" and res: "service_push_message P i (Some m) = Some (r, P')"
  shows "stays P P'"
proof (cases "service_status_get P i = SERVICE_STATUS_DEAD")
  case True
  then show ?thesis using res push_message_dead by auto
next
  case False
  then obtain S where S: "get_service P i = Some S" "s_status S \<noteq> SERVICE_STATUS_DEAD"
    by (auto simp: service_status_get_def split: option.splits)
  with res obtain q where msg: "s_msg S = Some q" by (auto simp: service_push_message_def split: option.splits)
  have q: "queue_wf q" by (rule service_wf_mailbox [OF get_service_wf(1) [OF wf S(1)] msg])
  show ?thesis
  proof (cases "queue_count q < queue_cap q")
    case True
    with push_message_room [OF wf S msg, of m] res have "P' = upd_service P i (\<lambda>S. S\<lparr>s_msg := Some (ring_enq q m)\<rparr>)" by simp
    then show ?thesis using S(1) msg ring_enq_list [OF q True, of m] by (auto intro!: stays_upd [OF wf])
  next
    case False
    then show ?thesis using push_message_full [OF wf S msg, of m] res by simp
  qed
qed

lemma receipt_stays:
  assumes "pool_wf P" and "service_write_receipt P i r b = Some P'"
  shows "stays P P'"
proof -
  let ?f = "\<lambda>S. S\<lparr>s_receipt := r, s_bounce := b\<rparr>"
  have "stays Q (upd_service Q i ?f)" if "pool_wf Q" for Q by (rule stays_upd [OF that]) simp_all
  from this [OF assms(1)] this [of "P\<lparr>p_freed := message_delete (s_bounce S) (p_freed P)\<rparr>" for S] assms show ?thesis
    by (auto simp: service_write_receipt_def Let_def split: option.splits if_splits)
qed

lemma message_out_stays: "pool_wf P \<Longrightarrow> service_message_out P i = (m, P') \<Longrightarrow> stays P P'"
  by (auto simp: service_message_out_def intro!: stays_upd split: option.splits)

lemma field_stays [simp]:
  assumes "pool_wf P"
  shows "stays P (service_status_set P i st)" "stays P (service_binding_set P i w)" "stays P (service_sockevent_init P i n)"
    "stays P (snd (service_setlabel P i l))" "stays P (snd (service_loadstring P i err))"
  using assms
  by (auto simp: service_status_set_def service_binding_set_def service_sockevent_init_def service_setlabel_def
      service_loadstring_def intro!: stays_upd split: option.splits)

lemma send_stays [simp]: "pool_wf P \<Longrightarrow> stays P (snd (service_send_message P i m))"
  by (auto simp: service_send_message_def intro!: stays_upd split: option.splits)

lemma read_receipt_stays [simp]: "pool_wf P \<Longrightarrow> stays P (snd (snd (service_read_receipt P i)))"
  by (auto simp: service_read_receipt_def intro!: stays_upd split: option.splits)

lemma signal_stays: "pool_wf P \<Longrightarrow> stays P (service_send_signal P i)"
proof -
  assume wf: "pool_wf P"
  have "stays Q (upd_service Q i (\<lambda>S. S\<lparr>s_out := m\<rparr>))" if "pool_wf Q" for Q m by (rule stays_upd [OF that]) simp_all
  from this [of "P\<lparr>p_freed := f, p_malloc := mem\<rparr>" for f mem] wf show ?thesis
    by (auto simp: service_send_signal_def Let_def split: option.splits prod.splits)
qed

lemma init_stays:
  assumes wf: "pool_wf P" "p_malloc P = []" and bare: "bare_service P i" and res: "service_init P i vm = Some (r, P')"
  shows "stays P P'"
proof -
  have "touches i P P'" by (rule init_touches(1) [OF wf res])
  then have "\<And>j. j \<noteq> i \<Longrightarrow> get_service P' j = get_service P j" "get_service P' i = None \<longleftrightarrow> get_service P i = None"
    by (auto simp: touches_def)
  moreover have "mailbox_of P i = []"
    using bare by (auto simp: bare_service_def mailbox_of_def split: option.splits)
  ultimately show ?thesis unfolding stays_def by (metis Nil_prefix mailbox_of_def prefix_order.refl)
qed

lemma new_grows:
  assumes wf: "pool_wf P" and res: "service_new P i = (r, P')"
  shows "grows P P'"
  unfolding grows_def
proof
  fix j
  note new = service_new_result [OF wf res]
  show "get_service P' j = None \<or> prefix (mailbox_of P j) (mailbox_of P' j)"
  proof (cases "j = r")
    case True
    then show ?thesis using new(2) get_service_zero [OF new(1)] by (cases "r = 0") (auto simp: mailbox_of_def)
  next
    case False
    then show ?thesis using new(3) by (simp add: mailbox_of_def)
  qed
qed

lemma delete_grows: "pool_wf P \<Longrightarrow> service_delete P i = Some P' \<Longrightarrow> grows P P'"
  using service_delete_spec [of P i] by (fastforce simp: grows_def mailbox_of_def)

lemma pop_takes:
  assumes wf: "pool_wf P" and res: "service_pop_message P i = Some (m, P')"
  shows "j \<noteq> i \<Longrightarrow> mailbox_of P' j = mailbox_of P j"
    and "mailbox_of P' i = mailbox_of P i \<or> (\<exists>x. m = Some x \<and> mailbox_of P i = x # mailbox_of P' i)"
proof -
  have upd: "mailbox_of (upd_service P i f) j = (if j = i \<and> get_service P i \<noteq> None
      then mailbox_list (s_msg (f (the (get_service P i)))) else mailbox_of P j)"
    if "\<And>S. s_id (f S) = s_id S" for f j
    by (auto simp: mailbox_of_def get_upd_sized [OF sized_wf [OF wf] that] split: option.splits)
  have "(j \<noteq> i \<longrightarrow> mailbox_of P' j = mailbox_of P j)
      \<and> (mailbox_of P' i = mailbox_of P i \<or> (\<exists>x. m = Some x \<and> mailbox_of P i = x # mailbox_of P' i))"
  proof (cases "get_service P i")
    case None
    then show ?thesis using res by (simp add: service_pop_message_def)
  next
    case (Some S)
    show ?thesis
    proof (cases "s_bounce S")
      case None
      with Some res obtain q where msg: "s_msg S = Some q" by (auto simp: service_pop_message_def split: option.splits)
      have q: "queue_wf q" by (rule service_wf_mailbox [OF get_service_wf(1) [OF wf Some] msg])
      have at: "mailbox_of P i = queue_list q" using Some msg by (simp add: mailbox_of_def)
      show ?thesis
      proof (cases "queue_count q = 0")
        case True
        then show ?thesis using Some None msg res at
          by (auto simp: service_pop_message_def queue_pop_ptr_empty [OF q True] upd)
      next
        case False
        then have some: "0 < queue_count q" by simp
        have "queue_list q \<noteq> []" using some by (simp add: queue_list_empty_iff)
        then show ?thesis using Some None msg res at ring_deq_list [OF q some]
          by (auto simp: service_pop_message_def queue_pop_ptr_some [OF q some] upd)
      qed
    next
      case bounced: (Some b)
      have "mailbox_of P i = mailbox_list (s_msg S)" using Some by (simp add: mailbox_of_def)
      then show ?thesis using Some bounced res by (auto simp: service_pop_message_def upd)
    qed
  qed
  then show "j \<noteq> i \<Longrightarrow> mailbox_of P' j = mailbox_of P j"
    and "mailbox_of P' i = mailbox_of P i \<or> (\<exists>x. m = Some x \<and> mailbox_of P i = x # mailbox_of P' i)" by blast+
qed

section \<open>A scheduling round\<close>

lemma check_message_stays:
  assumes wf: "pool_wf (t_services t)" and res: "check_message_to t i = Some t'"
  shows "stays (t_services t) (t_services t')"
proof (cases "service_status_get (t_services t) i = SERVICE_STATUS_IDLE")
  case True
  then show ?thesis
    using res schedule_back_frame(1) [of "t\<lparr>t_services := service_status_set (t_services t) i SERVICE_STATUS_SCHEDULE\<rparr>" i t']
    by (auto simp: check_message_to_def wf)
next
  case False
  then show ?thesis using res
    by (auto simp: check_message_to_def trigger_event_def Let_def split: if_splits)
qed

lemma dispatch_schedule_grows:
  assumes P: "takes_in Q M (t_services t)" and res: "dispatch_schedule_message t i m = Some t'"
  shows "grows (t_services t) (t_services t')"
proof (cases "i \<noteq> SERVICE_ID_ROOT \<or> m_type m \<notin> {MESSAGE_SCHEDULE_NEW, MESSAGE_SCHEDULE_DEL}")
  case True
  with res obtain P2 where "service_write_receipt (t_services t) i MESSAGE_RECEIPT_ERROR (Some m) = Some P2"
    "t' = t\<lparr>t_services := P2\<rparr>"
    by (auto simp: dispatch_schedule_message_def Let_def split: bind_splits if_splits)
  with receipt_stays [OF takes_inD(1) [OF P]] show ?thesis by (simp add: stays_grows)
next
  case False
  show ?thesis
  proof (cases "m_type m = MESSAGE_SCHEDULE_NEW")
    case True
    obtain to P1 where new: "service_new (t_services t) (m_session m) = (to, P1)" by fastforce
    from res False True new obtain r m' P2 where "service_write_receipt P1 i r m' = Some P2" "t' = t\<lparr>t_services := P2\<rparr>"
      by (auto simp: dispatch_schedule_message_def Let_def split: bind_splits if_splits)
    with receipt_stays [OF takes_inD(1) [OF takes_in_new [OF P new]]] new_grows [OF takes_inD(1) [OF P] new]
    show ?thesis by (auto intro: grows_stays)
  next
    case type: False
    with res False obtain P1 P3 where P1: "service_delete (t_services t) (m_session m) = Some P1"
      and P3: "service_write_receipt (P1\<lparr>p_freed := message_delete (Some m) (p_freed P1)\<rparr>) i MESSAGE_RECEIPT_DONE None = Some P3"
        "t' = t\<lparr>t_services := P3\<rparr>"
      by (auto simp: dispatch_schedule_message_def Let_def split: bind_splits)
    have "stays P1 P3" using receipt_stays [OF _ P3(1)] takes_inD(1) [OF takes_in_delete [OF P P1]] by simp
    with delete_grows [OF takes_inD(1) [OF P] P1] P3(2) show ?thesis by (auto intro: grows_stays)
  qed
qed

lemma dispatch_out_grows:
  assumes P: "takes_in Q M (t_services t)" and res: "dispatch_out_message t i m = Some t'"
  shows "grows (t_services t) (t_services t')"
proof (cases "m_to m = SERVICE_ID_SYSTEM")
  case True
  then show ?thesis using dispatch_schedule_grows [OF P] res by (simp add: dispatch_out_message_def)
next
  case False
  with res obtain r P1 P2 where
    push: "service_push_message (t_services t) (m_to m) (Some m) = Some (r, P1)" and
    rec: "service_write_receipt P1 i (if r = 0 then MESSAGE_RECEIPT_DONE else if r = 1 then MESSAGE_RECEIPT_BLOCK
        else MESSAGE_RECEIPT_ERROR) (if r = 0 then None else Some m) = Some P2" and
    chk: "check_message_to (t\<lparr>t_services := P2\<rparr>) (m_to m) = Some t'"
    by (auto simp: dispatch_out_message_def split: bind_splits if_splits)
  note P1 = takes_in_push(1) [OF P push]
  have "pool_wf P2" using takes_inD(1) [OF takes_in_receipt [OF P1 rec]] by (cases "r = 0"; cases "r = 1") simp_all
  then have "stays P2 (t_services t')" using check_message_stays [OF _ chk] by simp
  with push_stays [OF takes_inD(1) [OF P] push] receipt_stays [OF takes_inD(1) [OF P1] rec] show ?thesis
    by (blast intro: stays_trans stays_grows)
qed

lemma dispatch_alive_grows:
  assumes wf: "pool_wf (t_services t)" and mem: "p_malloc (t_services t) = []" and res: "dispatch_alive t i st = Some t'"
  shows "grows (t_services t) (t_services t')"
proof -
  obtain m P where out: "service_message_out (t_services t) i = (m, P)" by fastforce
  note P = message_out_mail(1) [OF wf mem out]
  from res out obtain t1 has where
    t1: "(case m of None \<Rightarrow> Some (t\<lparr>t_services := P\<rparr>) | Some m \<Rightarrow> dispatch_out_message (t\<lparr>t_services := P\<rparr>) i m) = Some t1"
    and has: "service_has_message (t_services t1) i = Some has"
    by (auto simp: dispatch_alive_def split: bind_splits)
  have P1: "takes_in P (opt_msgs m) (t_services t1)"
    using t1 P dispatch_out_mail [of P "{#}" "t\<lparr>t_services := P\<rparr>" i _ t1] by (cases m; fastforce)
  have "grows P (t_services t1)"
    using t1 dispatch_out_grows [of P "{#}" "t\<lparr>t_services := P\<rparr>" i _ t1] P
    by (cases m) (auto intro: stays_grows)
  with message_out_stays [OF wf out] have g: "grows (t_services t) (t_services t1)" by (rule stays_then_grows)
  note D1 = takes_inD [OF P1]
  have requeued: "grows (t_services t) (t_services t')"
    if "schedule_back (t1\<lparr>t_services := service_status_set R i SERVICE_STATUS_SCHEDULE\<rparr>) i = Some t'"
      "stays (t_services t1) R" "pool_wf R" for R
    using schedule_back_frame(1) [OF that(1)] grows_stays [OF g stays_trans [OF that(2) field_stays(1) [OF that(3)]]] by simp
  show ?thesis
  proof (cases "has = 0")
    case False
    with res out t1 has have "schedule_back (t1\<lparr>t_services := service_status_set (t_services t1) i SERVICE_STATUS_SCHEDULE\<rparr>) i = Some t'"
      by (auto simp: dispatch_alive_def split: bind_splits)
    from requeued [OF this _ D1(1)] show ?thesis by simp
  next
    case True
    show ?thesis
    proof (cases "service_sockevent_get (t_services t1) i \<ge> 0")
      case False
      with res out t1 has True have "t' = t1\<lparr>t_services := service_status_set (t_services t1) i SERVICE_STATUS_IDLE\<rparr>"
        by (auto simp: dispatch_alive_def Let_def split: bind_splits)
      then show ?thesis using grows_stays [OF g field_stays(1) [OF D1(1)]] by simp
    next
      case sock: True
      have new: "message_new (p_malloc (t_services t1)) (idle_message i) = (Some (idle_message i), [])"
        by (simp add: D1(2) message_new_def)
      have Pm: "(t_services t1)\<lparr>p_malloc := []\<rparr> = t_services t1"
        using D1(2) by (metis service_pool.surjective service_pool.update_convs(5))
      from res out t1 has True sock new Pm obtain r P2 where
        push: "service_push_message (t_services t1) i (Some (idle_message i)) = Some (r, P2)" and
        b: "schedule_back (t1\<lparr>t_services := service_status_set P2 i SERVICE_STATUS_SCHEDULE\<rparr>) i = Some t'"
        by (auto simp: dispatch_alive_def Let_def split: bind_splits)
      from requeued [OF b push_stays [OF D1(1) push]] takes_inD(1) [OF takes_in_push(1) [OF P1 push]] show ?thesis by simp
    qed
  qed
qed

lemma dispatch_dead_grows:
  assumes wf: "pool_wf (t_services t)" and mem: "p_malloc (t_services t) = []" and res: "dispatch_dead t i = Some t'"
  shows "grows (t_services t) (t_services t')"
proof -
  obtain m P where mo: "service_message_out (t_services t) i = (m, P)" by fastforce
  note P = message_out_mail(1) [OF wf mem mo]
  from res mo obtain msg where m: "m = Some msg" by (auto simp: dispatch_dead_def split: option.splits)
  with res mo obtain r P1 where
    push: "service_push_message P SERVICE_ID_ROOT (Some msg) = Some (r, P1)" and
    cont: "(if r = 0 then check_message_to (t\<lparr>t_services := P1\<rparr>) SERVICE_ID_ROOT
          else if r = 1 then schedule_back (t\<lparr>t_services := P1\<rparr>) i
          else do { P2 \<leftarrow> service_delete P1 i; Some (t\<lparr>t_services := P2\<rparr>) }) = Some t'"
    by (auto simp: dispatch_dead_def Let_def bind_eq_Some_conv cong: if_cong split del: if_split)
  note wf1 = takes_inD(1) [OF takes_in_push(1) [OF P push]]
  have s1: "stays (t_services t) P1"
    by (rule stays_trans [OF message_out_stays [OF wf mo] push_stays [OF takes_inD(1) [OF P] push]])
  show ?thesis
    using cont s1 wf1 check_message_stays [of "t\<lparr>t_services := P1\<rparr>" SERVICE_ID_ROOT t'] schedule_back_frame(1) [of "t\<lparr>t_services := P1\<rparr>" i t']
      delete_grows [OF wf1, of i]
    by (auto intro: stays_grows stays_trans stays_then_grows split: if_splits bind_splits)
qed

lemma send_external_stays:
  assumes P: "takes_in Q M (t_services t)" and res: "send_external_message t (Some m) = Some (r, t')"
  shows "stays (t_services t) (t_services t')"
proof -
  from res obtain r1 P1 where push: "service_push_message (t_services t) (m_to m) (Some m) = Some (r1, P1)"
    and t': "(r, t') = (if r1 = 0 then (0, t\<lparr>t_services := P1\<rparr>) else if r1 = 1 then (1, t\<lparr>t_services := P1\<rparr>)
        else (0, t\<lparr>t_services := P1\<lparr>p_freed := message_delete (Some m) (p_freed P1)\<rparr>\<rparr>))"
    by (auto simp: send_external_message_def split: bind_splits if_splits)
  from push_stays [OF takes_inD(1) [OF P] push] t' show ?thesis by (auto split: if_splits)
qed

lemma external_loop_stays:
  assumes "takes_in P M (t_services t)" and "queue_wf q" and "external_loop fuel pack q send t = Some (b, send', t')"
  shows "stays (t_services t) (t_services t') \<and> (\<exists>N. takes_in P N (t_services t'))"
  using assms
proof (induction fuel arbitrary: q send t M)
  case (Suc fuel)
  note P = Suc.prems(1) and wf = Suc.prems(2) and res = Suc.prems(3)
  show ?case
  proof (cases "queue_count q = 0")
    case True
    then show ?thesis using res queue_pop_ptr_empty [OF wf] P by auto
  next
    case False
    then have some: "0 < queue_count q" by simp
    let ?q1 = "ring_deq q" and ?m = "external_message_of (pack (hd (queue_list q)))"
    let ?t1 = "t\<lparr>t_external_message := Some ?q1\<rparr>"
    have new: "message_new (p_malloc (t_services t)) ?m = (Some ?m, [])"
      using takes_inD(2) [OF P] by (simp add: message_new_def)
    have same: "(t_services t)\<lparr>p_malloc := []\<rparr> = t_services t"
      using takes_inD(2) [OF P] by (metis service_pool.surjective service_pool.update_convs(5))
    from res obtain r t2 where
      sent: "send_external_message ?t1 (Some ?m) = Some (r, t2)" and
      cont: "(if r \<noteq> 0 then Some (True, send, t2\<lparr>t_external_last_message := Some ?m\<rparr>)
              else external_loop fuel pack ?q1 1 t2) = Some (b, send', t')"
      using queue_pop_ptr_some [OF wf some] new same by (auto simp: Let_def split: bind_splits)
    have t2: "takes_in P (M + (if r = 0 then {#?m#} else {#})) (t_services t2)"
      using send_external_mail [of P M ?t1 ?m r t2] P sent by simp
    have s2: "stays (t_services t) (t_services t2)" using send_external_stays [of P M ?t1] P sent by simp
    show ?thesis
    proof (cases "r = 0")
      case False
      then show ?thesis using cont t2 s2 by auto
    next
      case True
      with Suc.IH [OF t2 ring_deq_wf [OF wf some]] cont s2 show ?thesis by (auto intro: stays_trans)
    qed
  qed
qed simp

lemma external_finish_stays:
  assumes P: "takes_in P M (t_services t)" and q: "t_external_message t = Some q" and wf: "queue_wf q"
    and res: "external_finish send pack t = Some t'"
  shows "stays (t_services t) (t_services t')"
proof -
  from res q obtain b send' t1 where
    loop: "external_loop (nat (q_size q) + 1) pack q send t = Some (b, send', t1)" and
    cont: "t' = t1 \<or> check_message_to t1 1 = Some t'"
    by (auto simp: external_finish_def simp del: external_loop.simps split: bind_splits if_splits)
  from external_loop_stays [OF P wf loop] obtain N where
    L: "stays (t_services t) (t_services t1)" "takes_in P N (t_services t1)" by blast
  with cont check_message_stays [OF takes_inD(1) [OF L(2)]] show ?thesis by (auto intro: stays_trans)
qed

lemma dispatch_external_stays:
  assumes wf: "pool_wf (t_services t)" and mem: "p_malloc (t_services t) = []"
    and ext: "ext_wf t" and q: "t_external_message t \<noteq> None"
    and res: "dispatch_external_messages pack t = Some t'"
  shows "stays (t_services t) (t_services t')"
proof -
  note P = takes_in_refl [OF wf mem]
  from q ext obtain e where e: "t_external_message t = Some e" "queue_wf e" by (auto simp: ext_wf_def)
  show ?thesis
  proof (cases "t_external_last_message t")
    case None
    with res have "external_finish 0 pack t = Some t'" by (simp add: dispatch_external_messages_def)
    from external_finish_stays [OF P e this] show ?thesis .
  next
    case (Some m)
    with res obtain r t1 where sent: "send_external_message t (Some m) = Some (r, t1)"
      and cont: "(if r \<noteq> 0 then Some t1 else external_finish 1 pack (t1\<lparr>t_external_last_message := None\<rparr>)) = Some t'"
      by (auto simp: dispatch_external_messages_def split: bind_splits)
    note t1 = send_external_mail [OF P sent] and s1 = send_external_stays [OF P sent]
    show ?thesis
    proof (cases "r = 0")
      case False
      with cont s1 show ?thesis by simp
    next
      case True
      let ?t2 = "t1\<lparr>t_external_last_message := None\<rparr>"
      have "t_external_message ?t2 = Some e" using t1 e by (simp add: keeps_external_def)
      from external_finish_stays [OF _ this e(2), of "t_services t" _ 1 pack t'] t1 True cont s1 show ?thesis
        by (auto intro: stays_trans)
    qed
  qed
qed


section \<open>Every step\<close>

text \<open>The message a step takes out of the mailbox of \<open>j\<close>, if it takes one.\<close>

definition taken :: "sys \<Rightarrow> sys \<Rightarrow> service_id \<Rightarrow> message list" where
  "taken s s' j = (let before = mailbox_of (t_services (sy_task s)) j; after = mailbox_of (t_services (sy_task s')) j
     in if length after < length before then [hd before] else [])"

text \<open>A step adds to mailboxes at their end, or a running service takes the first message of one.\<close>

definition in_order :: "sys \<Rightarrow> sys \<Rightarrow> bool" where
  "in_order s s' \<longleftrightarrow> (\<forall>j. get_service (t_services (sy_task s')) j = None
     \<or> prefix (mailbox_of (t_services (sy_task s)) j) (mailbox_of (t_services (sy_task s')) j)
     \<or> (\<exists>k i m. k < length (sy_pcs s) \<and> pc_at s k = TRun i \<and> (i = j \<or> i = SERVICE_ID_ROOT)
          \<and> mailbox_of (t_services (sy_task s)) j = m # mailbox_of (t_services (sy_task s')) j))"

lemma in_order_grows: "grows (t_services (sy_task s)) (t_services (sy_task s')) \<Longrightarrow> in_order s s'"
  unfolding in_order_def grows_def by blast

lemma in_order_stays: "stays (t_services (sy_task s)) (t_services (sy_task s')) \<Longrightarrow> in_order s s'"
  by (simp add: in_order_grows stays_grows)

lemma in_order_lua:
  assumes inv: "sys_inv s" and k: "k < length (sy_pcs s)" "pc_at s k = TRun i" and ok: "lua_call_ok s i c"
    "pool_call_ok (t_services (sy_task s)) c" and res: "pool_step c (t_services (sy_task s)) = Some (ins, outs, P)"
    and s': "t_services (sy_task s') = P"
  shows "in_order s s'"
proof -
  note C = coreD [OF sys_invD(4) [OF inv]]
  have st: "in_order s s'" if "stays (t_services (sy_task s)) P" using in_order_stays that s' by simp
  show ?thesis
  proof (cases c)
    case (Call_pop j)
    with res obtain m where m: "service_pop_message (t_services (sy_task s)) j = Some (m, P)" by auto
    have "i = j \<or> i = SERVICE_ID_ROOT" using ok(1) Call_pop by auto
    with pop_takes [OF C(1) m] k s' show ?thesis unfolding in_order_def by (metis prefix_order.refl)
  next
    case (Call_init j vm)
    with res obtain r where "service_init (t_services (sy_task s)) j vm = Some (r, P)" by auto
    with init_stays [OF C(1,2)] ok(2) Call_init show ?thesis by (intro st) simp
  next
    case (Call_delete j)
    then show ?thesis using res s' delete_grows [OF C(1)] by (intro in_order_grows) auto
  qed (use ok res C(1) in \<open>auto intro!: st simp: case_prod_beta\<close>)
qed

lemma in_order_round:
  assumes inv: "sys_inv s" and k: "k < length (sy_pcs s)" and pc: "pc_at s k = TRound r ph"
    and res: "round_step fails pack (int k) r ph (sy_task s) = Some (pc', t)"
  shows "in_order s (put s k t pc')"
proof -
  let ?t = "sy_task s"
  note D = sys_invD [OF inv] note C = coreD [OF D(4)]
  consider (ext) "ph = PhExternal" | (disp) i js where "ph = PhDispatch (i # js)"
    | (rest) "ph \<noteq> PhExternal" "\<And>i is. ph \<noteq> PhDispatch (i # is)" by blast
  then show ?thesis
  proof cases
    case ext
    have "stays (t_services ?t) (t_services t)"
    proof (cases "t_external_message ?t = None")
      case True
      then show ?thesis using res ext by simp
    next
      case False
      with res ext have "dispatch_external_messages pack ?t = Some t" by auto
      then show ?thesis by (rule dispatch_external_stays [OF C(1,2) D(3) False])
    qed
    then show ?thesis by (intro in_order_stays) simp
  next
    case disp
    have "dispatch_done ?t i = Some t" using res disp by auto
    then have "grows (t_services ?t) (t_services t)"
      using dispatch_dead_grows [OF C(1,2)] dispatch_alive_grows [OF C(1,2)]
      by (auto simp: dispatch_done_def Let_def split: if_splits)
    then show ?thesis by (intro in_order_grows) simp
  next
    case rest
    then show ?thesis using quiet_phase [OF inv k pc rest res] by (intro in_order_stays) simp
  qed
qed

lemma thread_step_in_order:
  assumes inv: "sys_inv s" and step: "thread_step s s'"
  shows "in_order s s'"
proof -
  note C = coreD [OF sys_invD(4) [OF inv]]
  have quiet: ?thesis if "t_services (sy_task s') = t_services (sy_task s)
      \<or> (\<exists>i st. t_services (sy_task s') = service_status_set (t_services (sy_task s)) i st)"
    using that C(1) by (intro in_order_stays) auto
  from step show ?thesis
  proof cases
    case (th_lua k i c ins outs P)
    then show ?thesis by (intro in_order_lua [OF inv]) (simp_all add: put_pool_def)
  next
    case (th_term k i w P)
    let ?Q = "service_status_set (t_services (sy_task s)) i SERVICE_STATUS_DEAD"
    have "pool_wf ?Q" by (rule status_set_wf [OF C(1)]) simp
    with stays_trans [OF field_stays(1) [OF C(1)] signal_stays] th_term show ?thesis by (intro in_order_stays) simp
  next
    case (th_round k r ph fails pack pc t)
    then show ?thesis using in_order_round [OF inv] by blast
  next
    case (th_root k P t)
    have "sched_wf ((sy_task s)\<lparr>t_services := P\<rparr>)"
      using sched_bounds [OF sys_invD(1) [OF inv]] sys_invD(1) [OF inv] C(1) th_root(4)
      by (intro sched_wf_services) (simp_all add: status_set_bounds)
    with root_quit_signals th_root(5) have "t_services t = P" by (fastforce simp: signals_def)
    then show ?thesis using th_root by (intro quiet) auto
  qed (use acquire_cases in \<open>(intro quiet, fastforce simp: put_worker_def put_pool_def)+\<close>)
qed

section \<open>Every run\<close>

text \<open>\<open>history s0 j s ms\<close>: a run from \<open>s0\<close> to \<open>s\<close> in which service \<open>j\<close> is never gone, and the
  messages taken out of its mailbox on the way, in order.\<close>

inductive history :: "sys \<Rightarrow> service_id \<Rightarrow> sys \<Rightarrow> message list \<Rightarrow> bool" for s0 j where
  history_start: "history s0 j s0 []"
| history_step: "history s0 j s ms \<Longrightarrow> thread_step s s' \<Longrightarrow> get_service (t_services (sy_task s')) j \<noteq> None \<Longrightarrow>
     history s0 j s' (ms @ taken s s' j)"

lemma history_reach: "history s0 j s ms \<Longrightarrow> sys_reach b s0 \<Longrightarrow> sys_reach b s"
  by (induction rule: history.induct) (auto intro: reach_step)

lemma in_order_taken:
  assumes "in_order s s'" and "get_service (t_services (sy_task s')) j \<noteq> None"
  shows "prefix (mailbox_of (t_services (sy_task s)) j) (taken s s' j @ mailbox_of (t_services (sy_task s')) j)"
    and "taken s s' j \<noteq> [] \<Longrightarrow> \<exists>k i. k < length (sy_pcs s) \<and> pc_at s k = TRun i \<and> (i = j \<or> i = SERVICE_ID_ROOT)"
proof -
  let ?m = "mailbox_of (t_services (sy_task s)) j" and ?m' = "mailbox_of (t_services (sy_task s')) j"
  have "prefix ?m (taken s s' j @ ?m')
    \<and> (taken s s' j \<noteq> [] \<longrightarrow> (\<exists>k i. k < length (sy_pcs s) \<and> pc_at s k = TRun i \<and> (i = j \<or> i = SERVICE_ID_ROOT)))"
  proof (cases "prefix ?m ?m'")
    case True
    then have "taken s s' j = []" using prefix_length_le [OF True] by (simp add: taken_def)
    with True show ?thesis by simp
  next
    case False
    with spec [OF assms(1) [unfolded in_order_def], of j] assms(2) obtain k i m where
      took: "k < length (sy_pcs s)" "pc_at s k = TRun i" "i = j \<or> i = SERVICE_ID_ROOT" "?m = m # ?m'" by auto
    then have "taken s s' j = [m]" by (simp add: taken_def)
    with took show ?thesis by auto
  qed
  then show "prefix (mailbox_of (t_services (sy_task s)) j) (taken s s' j @ mailbox_of (t_services (sy_task s')) j)"
    and "taken s s' j \<noteq> [] \<Longrightarrow> \<exists>k i. k < length (sy_pcs s) \<and> pc_at s k = TRun i \<and> (i = j \<or> i = SERVICE_ID_ROOT)"
    by blast+
qed

lemma history_order:
  assumes "history s0 j s ms" and "sys_booted b" and "sys_reach b s0"
  shows "prefix (mailbox_of (t_services (sy_task s0)) j) (ms @ mailbox_of (t_services (sy_task s)) j)"
  using assms
proof (induction rule: history.induct)
  case (history_step s ms s')
  have "in_order s s'"
    by (rule thread_step_in_order [OF reach_inv [OF history_reach [OF history_step.hyps(1) history_step.prems(2)]]])
      (use history_step in auto)
  from in_order_taken(1) [OF this history_step.hyps(3)]
  have "prefix (ms @ mailbox_of (t_services (sy_task s)) j) (ms @ taken s s' j @ mailbox_of (t_services (sy_task s')) j)"
    by (simp only: same_prefix_prefix)
  with history_step.IH [OF history_step.prems] show ?case
    unfolding append_assoc by (rule prefix_order.trans)
qed simp

text \<open>
  C4: mail is received in the order in which it was delivered. Follow a service through any run of
  the system in which it is not deleted, whatever the threads, the services and the outside do: the
  messages taken out of its mailbox and then what is in it are, from the front, what was in it at
  the start. The scheduler, the other services and the external messages only append; a message is
  taken only while the service itself runs, or by root.
\<close>

theorem mail_in_order:
  assumes "sys_booted b" and "sys_reach b s0" and "history s0 j s ms"
  shows "prefix (mailbox_of (t_services (sy_task s0)) j) (ms @ mailbox_of (t_services (sy_task s)) j)
    \<and> (\<forall>s'. thread_step s s' \<and> get_service (t_services (sy_task s')) j \<noteq> None \<and> taken s s' j \<noteq> []
         \<longrightarrow> (\<exists>k i. k < length (sy_pcs s) \<and> pc_at s k = TRun i \<and> (i = j \<or> i = SERVICE_ID_ROOT)))"
proof (intro conjI allI impI)
  note inv = reach_inv [OF history_reach [OF assms(3,2)] assms(1)]
  show "\<exists>k i. k < length (sy_pcs s) \<and> pc_at s k = TRun i \<and> (i = j \<or> i = SERVICE_ID_ROOT)"
    if "thread_step s s' \<and> get_service (t_services (sy_task s')) j \<noteq> None \<and> taken s s' j \<noteq> []" for s'
    using that by (elim conjE) (rule in_order_taken(2) [OF thread_step_in_order [OF inv]])
qed (rule history_order [OF assms(3,1,2)])

theorem mail_in_order_witness:
  "\<exists>s s'. sys_reach (ltask_run demo_task) s \<and> mailbox_of (t_services (sy_task s)) SERVICE_ID_ROOT = [demo_start]
     \<and> history s SERVICE_ID_ROOT s' [demo_start]
     \<and> prefix [demo_start] ([demo_start] @ mailbox_of (t_services (sy_task s')) SERVICE_ID_ROOT)"
proof -
  have "(case solo_run 15 0 (ltask_run demo_task) of None \<Rightarrow> False
      | Some s \<Rightarrow> pc_at s 0 = TRun SERVICE_ID_ROOT
          \<and> pool_call_ok (t_services (sy_task s)) (Call_pop SERVICE_ID_ROOT)
          \<and> mailbox_of (t_services (sy_task s)) SERVICE_ID_ROOT = [demo_start]
          \<and> (case pool_step (Call_pop SERVICE_ID_ROOT) (t_services (sy_task s)) of None \<Rightarrow> False
             | Some (ins, outs, P) \<Rightarrow> mailbox_of P SERVICE_ID_ROOT = [] \<and> get_service P SERVICE_ID_ROOT \<noteq> None))"
    by code_simp
  then obtain s ins outs P where s: "solo_run 15 0 (ltask_run demo_task) = Some s" "pc_at s 0 = TRun SERVICE_ID_ROOT"
    "pool_call_ok (t_services (sy_task s)) (Call_pop SERVICE_ID_ROOT)"
    "mailbox_of (t_services (sy_task s)) SERVICE_ID_ROOT = [demo_start]"
    "pool_step (Call_pop SERVICE_ID_ROOT) (t_services (sy_task s)) = Some (ins, outs, P)"
    "mailbox_of P SERVICE_ID_ROOT = []" "get_service P SERVICE_ID_ROOT \<noteq> None"
    by (auto simp del: pool_step.simps pool_call_ok.simps split: option.splits)
  have "length (sy_pcs (ltask_run demo_task)) = 2" by code_simp
  with solo_run_reach [OF s(1) reach_init] have r: "sys_reach (ltask_run demo_task) s" "0 < length (sy_pcs s)" by simp_all
  let ?s' = "put_pool s 0 P (TRun SERVICE_ID_ROOT)"
  have "lua_call_ok s SERVICE_ID_ROOT (Call_pop SERVICE_ID_ROOT)" by simp
  from th_lua [OF r(2) s(2) this s(3,5)] have step: "thread_step s ?s'" .
  have at: "t_services (sy_task ?s') = P" by (simp add: put_pool_def)
  have "taken s ?s' SERVICE_ID_ROOT = [demo_start]" using s(4,6) by (simp add: taken_def at)
  with history_step [OF history_start step] s(7) at have h: "history s SERVICE_ID_ROOT ?s' [demo_start]" by fastforce
  with mail_in_order [OF demo_booted r(1) h] r(1) s(4) show ?thesis by auto
qed

section \<open>One message\<close>

definition mailbox_full :: "service_pool \<Rightarrow> service_id \<Rightarrow> bool" where
  "mailbox_full P j = (case get_service P j of None \<Rightarrow> False
     | Some S \<Rightarrow> (case s_msg S of None \<Rightarrow> False | Some q \<Rightarrow> \<not> queue_count q < queue_cap q))"

definition receipt_of :: "service_pool \<Rightarrow> service_id \<Rightarrow> (int \<times> message option) option" where
  "receipt_of P i = map_option (\<lambda>S. (s_receipt S, s_bounce S)) (get_service P i)"

lemma sized_upd:
  assumes "sized P" and "\<And>S. s_id (f S) = s_id S"
  shows "sized (upd_service P i f)"
  using assms by (auto simp: sized_def upd_service_def service_slot_def split: option.splits)

lemma push_result:
  assumes wf: "pool_wf P" and dest: "service_status_get P i = SERVICE_STATUS_DEAD \<or> has_mailbox P i"
  obtains r P' where "service_push_message P i (Some m) = Some (r, P')" "sized P'"
    "r = (if service_status_get P i = SERVICE_STATUS_DEAD then -1 else if mailbox_full P i then 1 else 0)"
    "\<And>j. mailbox_of P' j = mailbox_of P j @ (if j = i \<and> r = 0 then [m] else [])"
    "\<And>j. service_status_get P' j = service_status_get P j" "\<And>j. service_sockevent_get P' j = service_sockevent_get P j"
    "\<And>j. get_service P' j = None \<longleftrightarrow> get_service P j = None"
proof (cases "service_status_get P i = SERVICE_STATUS_DEAD")
  case True
  with push_message_dead [of P i "Some m"] that [of "-1" P] sized_wf [OF wf] show thesis by simp
next
  case False
  with dest obtain S q where S: "get_service P i = Some S" "s_status S \<noteq> SERVICE_STATUS_DEAD" "s_msg S = Some q"
    by (auto simp: service_status_get_def has_mailbox_def split: option.splits)
  note q = service_wf_mailbox [OF get_service_wf(1) [OF wf S(1)] S(3)]
  show thesis
  proof (cases "queue_count q < queue_cap q")
    case True
    let ?f = "\<lambda>S. S\<lparr>s_msg := Some (ring_enq q m)\<rparr>"
    have "sized (upd_service P i ?f)" by (rule sized_upd [OF sized_wf [OF wf]]) simp
    then show thesis
      using that [OF push_message_room [OF wf S True, of m]] True False S ring_enq_list [OF q True, of m]
      by (simp add: mailbox_full_def mailbox_of_def service_status_get_def service_sockevent_get_def
          get_upd_sized [OF sized_wf [OF wf]])
  next
    case full: False
    with that [OF push_message_full [OF wf S full, of m] sized_wf [OF wf]] S False show thesis
      by (simp add: mailbox_full_def)
  qed
qed

lemma receipt_result:
  assumes sz: "sized P" and at: "get_service P i \<noteq> None"
  obtains P' where "service_write_receipt P i r b = Some P'" "sized P'" "receipt_of P' i = Some (r, b)"
    "\<And>j. mailbox_of P' j = mailbox_of P j"
    "\<And>j. service_status_get P' j = service_status_get P j" "\<And>j. service_sockevent_get P' j = service_sockevent_get P j"
proof -
  from at obtain S where S: "get_service P i = Some S" by auto
  let ?f = "\<lambda>S. S\<lparr>s_receipt := r, s_bounce := b\<rparr>"
  let ?Q = "if s_receipt S = MESSAGE_RECEIPT_NONE then P else P\<lparr>p_freed := message_delete (s_bounce S) (p_freed P)\<rparr>"
  have Q: "sized ?Q" "get_service ?Q = get_service P" using sz by (auto simp: sized_def)
  note get = get_upd_sized [OF Q(1), of ?f i]
  show thesis
  proof (rule that [of "upd_service ?Q i ?f"])
    show "service_write_receipt P i r b = Some (upd_service ?Q i ?f)" using S by (simp add: service_write_receipt_def)
    show "sized (upd_service ?Q i ?f)" by (rule sized_upd [OF Q(1)]) simp
  qed (use S in \<open>auto simp: get Q(2) receipt_of_def mailbox_of_def service_status_get_def service_sockevent_get_def
      split: option.splits\<close>)
qed

lemma check_message_result:
  assumes sz: "sized (t_services t)" and q: "queue_wf (t_schedule t)" "queue_count (t_schedule t) < queue_cap (t_schedule t)"
    and ev: "service_sockevent_get (t_services t) i < int (length (t_event t))" and i: "i \<noteq> 0"
  obtains t' where "check_message_to t i = Some t'"
    "\<And>j. mailbox_of (t_services t') j = mailbox_of (t_services t) j" "\<And>j. receipt_of (t_services t') j = receipt_of (t_services t) j"
    "service_status_get (t_services t') i = (if service_status_get (t_services t) i = SERVICE_STATUS_IDLE
        then SERVICE_STATUS_SCHEDULE else service_status_get (t_services t) i)"
    "run_queue t' = run_queue t @ (if service_status_get (t_services t) i = SERVICE_STATUS_IDLE then [i] else [])"
proof (cases "service_status_get (t_services t) i = SERVICE_STATUS_IDLE")
  case True
  let ?P = "service_status_set (t_services t) i SERVICE_STATUS_SCHEDULE"
  have at: "get_service (t_services t) i \<noteq> None"
    using True by (cases "get_service (t_services t) i") (simp_all add: service_status_get_def)
  note get = get_upd_sized [OF sz, of "\<lambda>S. S\<lparr>s_status := SERVICE_STATUS_SCHEDULE\<rparr>" i]
  have "int_of_id i \<noteq> 0" using i by simp
  from queue_push_int_room [OF q(1) this q(2)]
  have "check_message_to t i = Some (t\<lparr>t_services := ?P, t_schedule := ring_enq (t_schedule t) (int_of_id i)\<rparr>)"
    using True by (simp add: check_message_to_def schedule_back_def)
  then show thesis
    by (rule that) (use True at in \<open>auto simp: service_status_set_def get receipt_of_def mailbox_of_def
        service_status_get_def run_queue_def ring_enq_list [OF q] split: option.splits\<close>)
next
  case False
  show thesis
  proof (cases "service_sockevent_get (t_services t) i \<ge> 0")
    case True
    with False ev obtain es where "check_message_to t i = Some (t\<lparr>t_event := es\<rparr>)"
      by (simp add: check_message_to_def trigger_event_def Let_def nat_less_iff)
    then show thesis by (rule that) (use False in \<open>simp_all add: run_queue_def\<close>)
  next
    case none: False
    then have "check_message_to t i = Some t" using False by (simp add: check_message_to_def Let_def)
    then show thesis by (rule that) (use False in simp_all)
  qed
qed

text \<open>
  C5: every message is delivered or comes back. When the scheduler dispatches the message a service
  sends to another one (or to itself), it is appended to the mailbox of the receiver and the sender's
  receipt says \<open>DONE\<close>; or the receiver is gone, or its mailbox is full, and the receipt says
  \<open>ERROR\<close> or \<open>BLOCK\<close> and holds the message. No other mailbox is touched. A receiver that
  was idle is scheduled, at the end of the run queue.
\<close>

theorem message_delivered_or_returned:
  assumes "pool_wf (t_services t)" and "get_service (t_services t) i \<noteq> None" and "m_to msg = to" and "to \<noteq> SERVICE_ID_SYSTEM"
    and "service_status_get (t_services t) to = SERVICE_STATUS_DEAD \<or> has_mailbox (t_services t) to"
    and "service_sockevent_get (t_services t) to < int (length (t_event t))"
    and "queue_wf (t_schedule t)" and "queue_count (t_schedule t) < queue_cap (t_schedule t)"
  shows "\<exists>t'. dispatch_out_message t i msg = Some t'
    \<and> (let P = t_services t; P' = t_services t' in
       (if service_status_get P to = SERVICE_STATUS_DEAD
        then receipt_of P' i = Some (MESSAGE_RECEIPT_ERROR, Some msg) \<and> mailbox_of P' to = mailbox_of P to
        else if mailbox_full P to
        then receipt_of P' i = Some (MESSAGE_RECEIPT_BLOCK, Some msg) \<and> mailbox_of P' to = mailbox_of P to
        else receipt_of P' i = Some (MESSAGE_RECEIPT_DONE, None) \<and> mailbox_of P' to = mailbox_of P to @ [msg])
       \<and> (\<forall>j. j \<noteq> to \<longrightarrow> mailbox_of P' j = mailbox_of P j)
       \<and> (if service_status_get P to = SERVICE_STATUS_IDLE
          then service_status_get P' to = SERVICE_STATUS_SCHEDULE \<and> run_queue t' = run_queue t @ [to]
          else service_status_get P' to = service_status_get P to \<and> run_queue t' = run_queue t))"
proof -
  let ?P = "t_services t"
  from push_result [OF assms(1,5), of msg] obtain r P1 where push:
    "service_push_message ?P to (Some msg) = Some (r, P1)" "sized P1"
    "r = (if service_status_get ?P to = SERVICE_STATUS_DEAD then -1 else if mailbox_full ?P to then 1 else 0)"
    "\<And>j. mailbox_of P1 j = mailbox_of ?P j @ (if j = to \<and> r = 0 then [msg] else [])"
    and same: "\<And>j. service_status_get P1 j = service_status_get ?P j" "\<And>j. service_sockevent_get P1 j = service_sockevent_get ?P j"
    "\<And>j. get_service P1 j = None \<longleftrightarrow> get_service ?P j = None"
    by blast
  let ?rc = "if r = 0 then MESSAGE_RECEIPT_DONE else if r = 1 then MESSAGE_RECEIPT_BLOCK else MESSAGE_RECEIPT_ERROR"
  let ?b = "if r = 0 then None else Some msg"
  have at: "get_service P1 i \<noteq> None" using same assms(2) by simp
  obtain P2 where P2:
    "service_write_receipt P1 i ?rc ?b = Some P2" "sized P2" "receipt_of P2 i = Some (?rc, ?b)"
    "\<And>j. mailbox_of P2 j = mailbox_of P1 j"
    "\<And>j. service_status_get P2 j = service_status_get P1 j" "\<And>j. service_sockevent_get P2 j = service_sockevent_get P1 j"
    by (rule receipt_result [OF push(2) at, of ?rc ?b]) (rule that; assumption)
  let ?t2 = "t\<lparr>t_services := P2\<rparr>"
  have pre: "sized (t_services ?t2)" "queue_wf (t_schedule ?t2)" "queue_count (t_schedule ?t2) < queue_cap (t_schedule ?t2)"
    "service_sockevent_get (t_services ?t2) to < int (length (t_event ?t2))" "to \<noteq> 0"
    using P2(2,6) same(2) assms(4,6,7,8) by simp_all
  obtain t' where t': "check_message_to ?t2 to = Some t'"
    "\<And>j. mailbox_of (t_services t') j = mailbox_of (t_services ?t2) j"
    "\<And>j. receipt_of (t_services t') j = receipt_of (t_services ?t2) j"
    "service_status_get (t_services t') to = (if service_status_get (t_services ?t2) to = SERVICE_STATUS_IDLE
        then SERVICE_STATUS_SCHEDULE else service_status_get (t_services ?t2) to)"
    "run_queue t' = run_queue ?t2 @ (if service_status_get (t_services ?t2) to = SERVICE_STATUS_IDLE then [to] else [])"
    by (rule check_message_result [OF pre]) (rule that; assumption)
  have "dispatch_out_message t i msg = check_message_to (t\<lparr>t_services := P2\<rparr>) to"
    using assms(3,4) push(1) P2(1) by (cases "r = 0"; cases "r = 1") (simp_all add: dispatch_out_message_def)
  with t' P2(3-5) push(3,4) same(1) show ?thesis by (simp add: run_queue_def Let_def)
qed

theorem message_delivered_or_returned_witness:
  "\<exists>P t'. pool_step (Call_pop SERVICE_ID_ROOT) (t_services demo_task) = Some ([], [demo_start], P)
     \<and> dispatch_out_message (demo_task\<lparr>t_services := P\<rparr>) SERVICE_ID_ROOT demo_start = Some t'
     \<and> receipt_of (t_services t') SERVICE_ID_ROOT = Some (MESSAGE_RECEIPT_DONE, None)
     \<and> mailbox_of (t_services t') SERVICE_ID_ROOT = [demo_start]"
proof -
  have "pool_wf (t_services demo_task)" "queue_wf (t_schedule demo_task)"
    using demo_booted by (simp_all add: sys_booted_def ltask_run_def sched_wf_def Let_def)
  note wf = this
  have "(case pool_step (Call_pop SERVICE_ID_ROOT) (t_services demo_task) of None \<Rightarrow> False
      | Some (ins, outs, P) \<Rightarrow> ins = [] \<and> outs = [demo_start] \<and> get_service P SERVICE_ID_ROOT \<noteq> None
          \<and> pool_call_ok (t_services demo_task) (Call_pop SERVICE_ID_ROOT) \<and> has_mailbox P SERVICE_ID_ROOT
          \<and> service_sockevent_get P SERVICE_ID_ROOT < int (length (t_event demo_task))
          \<and> service_status_get P SERVICE_ID_ROOT = SERVICE_STATUS_SCHEDULE
          \<and> \<not> mailbox_full P SERVICE_ID_ROOT \<and> mailbox_of P SERVICE_ID_ROOT = []
          \<and> queue_count (t_schedule demo_task) < queue_cap (t_schedule demo_task))"
    by code_simp
  then obtain P where P: "pool_step (Call_pop SERVICE_ID_ROOT) (t_services demo_task) = Some ([], [demo_start], P)"
    "get_service P SERVICE_ID_ROOT \<noteq> None" "pool_call_ok (t_services demo_task) (Call_pop SERVICE_ID_ROOT)"
    "has_mailbox P SERVICE_ID_ROOT" "service_sockevent_get P SERVICE_ID_ROOT < int (length (t_event demo_task))"
    "service_status_get P SERVICE_ID_ROOT = SERVICE_STATUS_SCHEDULE" "\<not> mailbox_full P SERVICE_ID_ROOT"
    "mailbox_of P SERVICE_ID_ROOT = []" "queue_count (t_schedule demo_task) < queue_cap (t_schedule demo_task)"
    by (auto simp del: pool_step.simps pool_call_ok.simps split: option.splits)
  have "pool_wf P" using pool_step_ok [OF wf(1) P(3,1)] by simp
  moreover have "m_to demo_start = SERVICE_ID_ROOT" by (simp add: demo_start_def)
  ultimately show ?thesis
    using message_delivered_or_returned [of "demo_task\<lparr>t_services := P\<rparr>" SERVICE_ID_ROOT demo_start SERVICE_ID_ROOT]
      P wf(2) by (auto simp: Let_def simp del: pool_step.simps)
qed

end
