(* ===== verification/Sleep.thy ===== *)
theory Sleep
  imports SystemProps
begin

text \<open>
  The sleep of a worker does not lose a job or the order to quit. \<open>worker_sleep\<close> tests
  \<open>term_signal\<close>, then under the lock the mailbox and \<open>wakeup\<close>, and waits. Whoever fills the
  mailbox of another worker or sets its \<open>term_signal\<close> calls \<open>worker_wakeup\<close> after it, so a worker
  that waits has an empty mailbox and is not told to quit, or its \<open>wakeup\<close> is set and the wait ends.
\<close>

section \<open>What the others may do to a worker\<close>

text \<open>
  \<open>calm w w'\<close>: the change from \<open>w\<close> to \<open>w'\<close> wakes the worker up, or it brings it neither a job nor
  the order to quit.
\<close>

definition calm :: "worker_thread \<Rightarrow> worker_thread \<Rightarrow> bool" where
  "calm w w' \<longleftrightarrow> w_wakeup w' \<noteq> 0
     \<or> w_wakeup w' = w_wakeup w \<and> w_term_signal w' = w_term_signal w
       \<and> (w_service_ready w' = 0 \<or> w_service_ready w' = w_service_ready w)"

definition calms :: "ltask \<Rightarrow> ltask \<Rightarrow> bool" where
  "calms t t' \<longleftrightarrow> list_all2 calm (t_workers t) (t_workers t')"

lemma calm_refl [simp]: "calm w w"
  by (simp add: calm_def)

lemma calm_trans: "calm w w1 \<Longrightarrow> calm w1 w2 \<Longrightarrow> calm w w2"
  by (auto simp: calm_def)

lemma calms_same: "t_workers t' = t_workers t \<Longrightarrow> calms t t'"
  by (simp add: calms_def list.rel_refl)

lemma calms_trans: "calms t t1 \<Longrightarrow> calms t1 t2 \<Longrightarrow> calms t t2"
  unfolding calms_def by (rule list_all2_trans [of calm calm calm]) (auto intro: calm_trans)

lemma calms_worker: "calms t t' \<Longrightarrow> l < length (t_workers t) \<Longrightarrow> calm (t_workers t ! l) (t_workers t' ! l)"
  by (simp add: calms_def list_all2_nthD)

lemma calms_set:
  assumes "worker_at t n = Some w" and "calm w w'" and "t_workers t' = (t_workers t)[nat n := w']"
  shows "calms t t'"
  using assms by (auto simp: calms_def worker_at_def list_all2_conv_all_nth nth_list_update split: if_splits)

lemma calms_set_worker: "worker_at t n = Some w \<Longrightarrow> calm w w' \<Longrightarrow> calms t (set_worker t n w')"
  by (rule calms_set) (simp_all add: set_worker_def)

lemma steal_calm: "worker_steal_job fails w p = (i, w') \<Longrightarrow> calm w w'"
  by (auto simp: worker_steal_job_def Let_def atomic_int_cas_def calm_def split: if_splits)

lemma done_calm: "worker_done_job w = (i, w') \<Longrightarrow> calm w w'"
  by (auto simp: worker_done_job_def Let_def calm_def split: if_splits)

lemma assign_calm: "worker_assign_job w i = Some (0, w') \<Longrightarrow> calm w w'"
  by (auto simp: worker_assign_job_def Let_def calm_def split: if_splits bind_splits option.splits)

lemma wakeup_calm: "calm w (snd (worker_wakeup w'))"
  by (simp add: calm_def worker_wakeup_def)

section \<open>The phases of a round\<close>

lemma collect_calm: "collect_done_loop t jobs ns = Some (jobs', t') \<Longrightarrow> calms t t'"
proof (induction t jobs ns rule: collect_done_loop.induct)
  case (1 t jobs)
  then show ?case by (simp add: calms_same)
next
  case (2 t jobs n ns)
  from "2.prems" obtain w where w: "worker_at t n = Some w" by (auto split: bind_splits)
  obtain job w1 where d: "worker_done_job w = (job, w1)" by fastforce
  note c = calms_set_worker [OF w done_calm [OF d]]
  show ?case
  proof (cases "job = 0")
    case True
    with "2.prems" w d "2.IH"(2) [OF w d [symmetric] refl] show ?thesis by (auto intro: calms_trans [OF c])
  next
    case False
    with "2.prems" w d obtain jobs1 where
      j: "jobs_push jobs job = Some jobs1" "collect_done_loop (set_worker t n w1) jobs1 ns = Some (jobs', t')"
      by (auto split: bind_splits)
    from calms_trans [OF c "2.IH"(1) [OF w d [symmetric] refl False j]] show ?thesis .
  qed
qed

lemma pending_calm: "pending_loop fails t jobs ns = Some (jobs', t') \<Longrightarrow> calms t t'"
proof (induction ns arbitrary: t jobs)
  case Nil
  then show ?case by (simp add: calms_same)
next
  case (Cons n ns)
  from Cons.prems obtain w where w: "worker_at t n = Some w" by (auto split: bind_splits)
  obtain i w1 where d: "worker_steal_job (fails n) w (t_services t) = (i, w1)" by fastforce
  note c = calms_set_worker [OF w steal_calm [OF d]]
  from Cons.prems w d Cons.IH show ?case
    by (auto simp: Let_def intro: calms_trans [OF c] split: if_splits bind_splits)
qed

lemma kick_wakeup_calm:
  assumes "worker_at t n = Some w" and "t1 = set_worker t n w1" and "kick_running t1 n i = Some t2"
    and "wakeup_worker t2 n = Some t3"
  shows "calms t t3"
proof -
  have "worker_at t1 n = Some w1" using assms(1,2) by (auto simp: worker_at_def set_worker_def split: if_splits)
  then have t2: "t2 = (set_worker t1 n (w1\<lparr>w_waiting := i\<rparr>))\<lparr>t_blocked_service := 1\<rparr>"
    using assms(3) by (simp add: kick_running_def)
  then have "worker_at t2 n = Some (w1\<lparr>w_waiting := i\<rparr>)"
    using \<open>worker_at t1 n = Some w1\<close> by (auto simp: worker_at_def set_worker_def split: if_splits)
  then have "t3 = set_worker t2 n (snd (worker_wakeup (w1\<lparr>w_waiting := i\<rparr>)))"
    using assms(4) by (simp add: wakeup_worker_def)
  then have "t_workers t3 = (t_workers t)[nat n := snd (worker_wakeup (w1\<lparr>w_waiting := i\<rparr>))]"
    using t2 assms(2) by (simp add: set_worker_def)
  then show ?thesis by (rule calms_set [OF assms(1) wakeup_calm])
qed

lemma count_calm: "count_freeslot_loop t free ns = Some (r, t') \<Longrightarrow> calms t t'"
proof (induction ns arbitrary: t free)
  case Nil
  then show ?case by (simp add: calms_same)
next
  case (Cons n ns)
  from Cons.prems obtain w where w: "worker_at t n = Some w" by (auto split: bind_splits)
  show ?case
  proof (cases "w_service_ready w = 0")
    case False
    with Cons.prems w Cons.IH show ?thesis by simp
  next
    case True
    with Cons.prems w obtain h q where p: "binding_pop (w_binding_queue w) = Some (h, q)" by (auto split: bind_splits)
    show ?thesis
    proof (cases h)
      case None
      with Cons.prems w True p Cons.IH show ?thesis by simp
    next
      case (Some i)
      let ?t1 = "set_worker t n (w\<lparr>w_binding_queue := q, w_service_ready := int_of_id i\<rparr>)"
      from Cons.prems w True p Some obtain t2 t3 where
        k: "kick_running ?t1 n i = Some t2" "wakeup_worker t2 n = Some t3" "count_freeslot_loop t3 free ns = Some (r, t')"
        by (auto simp: Let_def split: bind_splits)
      from calms_trans [OF kick_wakeup_calm [OF w refl k(1,2)] Cons.IH [OF k(3)]] show ?thesis .
    qed
  qed
qed

lemma prepare_job_calm:
  assumes "prepare_job t prepare job = Some (prepare', d, t')"
  shows "calms t t'"
proof (cases "service_binding_get (t_services t) (id_of_int job) < 0")
  case True
  with assms show ?thesis by (auto simp: prepare_job_def Let_def calms_same split: bind_splits)
next
  case False
  let ?n = "service_binding_get (t_services t) (id_of_int job)"
  from assms False obtain w r w1 where w: "worker_at t ?n = Some w"
    and b: "worker_binding_job w (id_of_int job) = Some (r, w1)"
    by (auto simp: prepare_job_def Let_def split: bind_splits prod.splits)
  have wb: "calm w w1" using b by (auto simp: worker_binding_job_def calm_def split: bind_splits)
  note c1 = calms_set_worker [OF w wb]
  show ?thesis
  proof (cases "r = 0")
    case r: False
    with assms False w b obtain q where "t' = (set_worker t ?n w1)\<lparr>t_schedule := q\<rparr>"
      by (auto simp: prepare_job_def Let_def split: bind_splits)
    then show ?thesis using w wb by (auto simp: set_worker_def intro: calms_set)
  next
    case True
    with assms False w b obtain i' w2 where a: "worker_assign_job w1 (id_of_int job) = Some (i', w2)"
      by (auto simp: prepare_job_def Let_def split: bind_splits prod.splits)
    have s2: "set_worker (set_worker t ?n w1) ?n w2 = set_worker t ?n w2" by (simp add: set_worker_def)
    show ?thesis
    proof (cases "i' = 0")
      case i: True
      with assms False True w b a have t': "t' = set_worker t ?n w2"
        by (simp add: prepare_job_def Let_def s2)
      show ?thesis unfolding t'
        by (rule calms_set_worker [OF w calm_trans [OF wb assign_calm]]) (use a i in simp)
    next
      case i: False
      with assms False True w b a obtain t3 where
        k: "kick_running (set_worker t ?n w2) ?n i' = Some t3" "wakeup_worker t3 ?n = Some t'"
        by (auto simp: prepare_job_def Let_def s2 split: bind_splits)
      from kick_wakeup_calm [OF w refl k] show ?thesis .
    qed
  qed
qed

lemma prepare_calm: "prepare_loop k free prepare t = Some (prepare', t') \<Longrightarrow> calms t t'"
proof (induction k free prepare t rule: prepare_loop.induct)
  case (1 k free prepare t)
  show ?case
  proof (cases "k < free")
    case False
    with "1.prems" show ?thesis by (simp add: prepare_loop.simps calms_same)
  next
    case True
    with "1.prems" obtain job q where q: "queue_pop_int (t_schedule t) = Some (job, q)"
      by (auto simp: prepare_loop.simps [of k] split: option.splits)
    let ?t = "t\<lparr>t_schedule := q\<rparr>"
    show ?thesis
    proof (cases "job = 0")
      case job: True
      with "1.prems" True q show ?thesis by (auto simp: prepare_loop.simps [of k] intro: calms_same)
    next
      case job: False
      with "1.prems" True q obtain p1 d t1 where
        p: "prepare_job ?t prepare job = Some (p1, d, t1)" "prepare_loop (k + 1) (free - int d) p1 t1 = Some (prepare', t')"
        by (auto simp: prepare_loop.simps [of k] split: option.splits)
      have c0: "calms t ?t" by (simp add: calms_same)
      have "calms t1 t'" using "1.IH" [OF True q refl job p(1) refl refl p(2)] .
      with prepare_job_calm [OF p(1)] c0 show ?thesis by (blast intro: calms_trans)
    qed
  qed
qed

lemma assign_one_calm: "assign_one t i n busy binding = Some (t', r) \<Longrightarrow> calms t t'"
proof (induction t i n busy binding rule: assign_one.induct)
  case (1 t i worker_id use_busy use_binding)
  from "1.prems" obtain n busy binding w where
    n: "next_worker (c_worker (t_config t)) worker_id use_busy use_binding = Some (n, busy, binding)"
    and w: "worker_at t n = Some w"
    by (auto simp: assign_one.simps [of t] split: option.splits)
  show ?case
  proof (cases "(busy \<noteq> 0 \<or> w_busy w = 0) \<and> (w_binding w = 0 \<or> binding \<noteq> 0)")
    case False
    with "1.prems" n w have "assign_one t i (n + 1) busy binding = Some (t', r)"
      by (auto simp: assign_one.simps [of t i worker_id] split: if_splits)
    with "1.IH"(3) [OF n refl refl w False] show ?thesis by simp
  next
    case True
    with "1.prems" n w obtain a w1 where a: "worker_assign_job w i = Some (a, w1)"
      by (auto simp: assign_one.simps [of t i worker_id] split: option.splits)
    let ?t1 = "set_worker t n (snd (worker_wakeup w1))"
    have c1: "calms t ?t1" by (rule calms_set_worker [OF w wakeup_calm])
    show ?thesis
    proof (cases "a = 0")
      case a0: True
      with "1.prems" n w True a have "assign_one (set_worker t n w1) i (n + 1) busy binding = Some (t', r)"
        by (simp add: assign_one.simps [of t i worker_id])
      with "1.IH"(2) [OF n refl refl w True a refl] a0 have "calms (set_worker t n w1) t'" by simp
      moreover have "calms t (set_worker t n w1)"
        by (rule calms_set_worker [OF w assign_calm]) (use a a0 in simp)
      ultimately show ?thesis by (blast intro: calms_trans)
    next
      case a0: False
      show ?thesis
      proof (cases "a = i")
        case True
        with "1.prems" n w \<open>(busy \<noteq> 0 \<or> w_busy w = 0) \<and> (w_binding w = 0 \<or> binding \<noteq> 0)\<close> a a0 have "t' = ?t1"
          by (simp add: assign_one.simps [of t i worker_id] Let_def)
        then show ?thesis using c1 by simp
      next
        case False
        with "1.prems" n w True a a0 have "assign_one ?t1 i (n + 1) busy binding = Some (t', r)"
          by (simp add: assign_one.simps [of t i worker_id] Let_def)
        with "1.IH"(1) [OF n refl refl w True a refl a0 refl False] have "calms ?t1 t'" .
        with c1 show ?thesis by (blast intro: calms_trans)
      qed
    qed
  qed
qed

lemma assign_loop_calm: "assign_prepare_loop t jobs n busy binding = Some t' \<Longrightarrow> calms t t'"
  by (induction jobs arbitrary: t n busy binding)
    (auto simp: calms_same intro: calms_trans dest!: assign_one_calm split: bind_splits)

lemma trigger_event_workers: "trigger_event t n = Some t' \<Longrightarrow> t_workers t' = t_workers t"
  by (auto simp: trigger_event_def split: if_splits)

lemma blocked_calm: "trigger_blocked_loop t b ns = Some (b', t') \<Longrightarrow> calms t t'"
proof (induction ns arbitrary: t b)
  case Nil
  then show ?case by (simp add: calms_same)
next
  case (Cons n ns)
  from Cons.prems obtain w where w: "worker_at t n = Some w" by (auto split: bind_splits)
  show ?case
  proof (cases "w_waiting w \<noteq> 0 \<and> w_running w \<noteq> 0")
    case False
    with Cons.prems w Cons.IH show ?thesis by (auto split: if_splits)
  next
    case True
    with Cons.prems w obtain t1 where
      t1: "(if service_sockevent_get (t_services t) (w_running w) \<ge> 0
         then trigger_event t (service_sockevent_get (t_services t) (w_running w)) else Some t) = Some t1"
      and r: "trigger_blocked_loop (set_worker t1 n (w\<lparr>w_waiting := 0\<rparr>)) b ns = Some (b', t')"
      by (auto simp: Let_def split: bind_splits)
    have "t_workers t1 = t_workers t" using t1 by (auto dest: trigger_event_workers split: if_splits)
    then have "calms t (set_worker t1 n (w\<lparr>w_waiting := 0\<rparr>))"
      by (intro calms_set [OF w, where w' = "w\<lparr>w_waiting := 0\<rparr>"]) (simp_all add: calm_def set_worker_def)
    with Cons.IH [OF r] show ?thesis by (blast intro: calms_trans)
  qed
qed

lemma steal_loop_calm: "steal_loop fails t ns = Some (job, t') \<Longrightarrow> calms t t'"
proof (induction ns arbitrary: t)
  case Nil
  then show ?case by (simp add: calms_same)
next
  case (Cons n ns)
  from Cons.prems obtain w where w: "worker_at t n = Some w" by (auto split: bind_splits)
  obtain i w1 where d: "worker_steal_job (fails n) w (t_services t) = (i, w1)" by fastforce
  note c = calms_set_worker [OF w steal_calm [OF d]]
  from Cons.prems w d Cons.IH c show ?case
    by (auto simp: Let_def intro: calms_trans split: if_splits)
qed

text \<open>The thief puts the job into its own mailbox, and it is awake.\<close>

lemma find_job_calm:
  assumes "find_job fails (int k) t = Some (r, t')" and "l \<noteq> k" and "l < length (t_workers t)"
  shows "calm (t_workers t ! l) (t_workers t' ! l)"
proof -
  have c: "calm (t_workers t ! l) (t_workers t1 ! l)" if "steal_job fails t = Some (job, t1)" for job t1
    using calms_worker [OF steal_loop_calm] that assms(3) by (simp add: steal_job_def)
  show ?thesis using assms(1,2) c
    by (auto simp: find_job_def set_worker_def split: if_splits bind_splits)
qed

subsection \<open>Dispatching leaves the workers alone\<close>

lemma check_message_workers: "check_message_to t i = Some t' \<Longrightarrow> t_workers t' = t_workers t"
  by (auto simp: check_message_to_def schedule_back_def trigger_event_def Let_def split: if_splits bind_splits)

lemma schedule_back_workers: "schedule_back t i = Some t' \<Longrightarrow> t_workers t' = t_workers t"
  by (auto simp: schedule_back_def split: bind_splits)

lemma dispatch_out_workers:
  assumes "dispatch_out_message t i m = Some t'"
  shows "t_workers t' = t_workers t"
proof (cases "m_to m = SERVICE_ID_SYSTEM")
  case True
  then show ?thesis
    using assms by (auto simp: dispatch_out_message_def dispatch_schedule_message_def Let_def
        split: if_splits bind_splits prod.splits)
next
  case False
  then show ?thesis
    using assms by (auto simp: dispatch_out_message_def dest!: check_message_workers split: bind_splits)
qed

lemma dispatch_workers:
  assumes "dispatch_done t i = Some t'"
  shows "t_workers t' = t_workers t"
proof -
  have dead: "t_workers t' = t_workers t" if "dispatch_dead t i = Some t'"
    using that by (auto simp: dispatch_dead_def Let_def dest!: check_message_workers schedule_back_workers
        split: prod.splits option.splits bind_splits if_splits)
  have alive: "t_workers t' = t_workers t" if "dispatch_alive t i st = Some t'" for st
    using that by (auto simp: dispatch_alive_def Let_def dest!: dispatch_out_workers schedule_back_workers
        split: prod.splits option.splits bind_splits if_splits)
  show ?thesis using assms dead alive by (auto simp: dispatch_done_def Let_def split: if_splits)
qed

lemma send_external_workers: "send_external_message t m = Some (r, t') \<Longrightarrow> t_workers t' = t_workers t"
  by (auto simp: send_external_message_def split: option.splits bind_splits if_splits)

lemma external_loop_workers:
  "external_loop fuel pack q send t = Some (b, send', t') \<Longrightarrow> t_workers t' = t_workers t"
  by (induction fuel arbitrary: q send t)
    (fastforce simp: Let_def dest: send_external_workers split: bind_splits option.splits prod.splits if_splits)+

lemma external_workers:
  assumes "dispatch_external_messages pack t = Some t'"
  shows "t_workers t' = t_workers t"
proof -
  have fin: "t_workers t' = t_workers t0" if "external_finish send pack t0 = Some t'" for send t0
    using that by (auto simp: external_finish_def simp del: external_loop.simps
        dest!: check_message_workers external_loop_workers split: option.splits bind_splits if_splits)
  show ?thesis
    using assms by (auto simp: dispatch_external_messages_def dest!: fin send_external_workers
        split: bind_splits if_splits)
qed

text \<open>Which counter follows a phase.\<close>

lemma round_step_next:
  assumes "round_step fails pack n r ph t = Some (pc', t')"
  shows "case ph of PhExternal \<Rightarrow> pc' = TRound r PhCollect
    | PhCollect \<Rightarrow> (\<exists>jobs. pc' = TRound r (PhDispatch jobs) \<and> int (length jobs) \<le> MAX_WORKER)
    | PhDispatch js \<Rightarrow> pc' = TRound r (case js of [] \<Rightarrow> PhPending | i # is \<Rightarrow> PhDispatch is)
    | PhPending \<Rightarrow> (\<exists>jobs. pc' = TRound r (PhCount jobs))
    | PhCount jobs \<Rightarrow> (\<exists>n. pc' = TRound r (PhPrepare jobs n)) \<or> pc' = TSlots jobs
    | PhPrepare jobs n \<Rightarrow> (\<exists>jobs. pc' = TRound r (PhAssign jobs))
    | PhAssign jobs \<Rightarrow> pc' = TRound r PhTouch
    | PhTouch \<Rightarrow> pc' = end_round r
    | PhFind \<Rightarrow> (\<exists>n. pc' = TRound r (PhRelease n))
    | PhRelease n \<Rightarrow> \<not> owns pc'"
  using assms collect_length [of t "[]" "worker_ids t"]
  by (cases ph) (auto simp: collect_done_job_def split: if_splits list.splits round.splits)

lemma round_step_calm:
  assumes "round_step fails pack (int k) r ph t = Some (pc', t')" and "l \<noteq> k" and "l < length (t_workers t)"
  shows "calm (t_workers t ! l) (t_workers t' ! l)"
proof (cases "ph = PhFind")
  case True
  then show ?thesis using assms find_job_calm by auto
next
  case False
  have "calms t t'"
  proof (cases ph)
    case PhExternal
    then show ?thesis using assms(1) by (auto intro!: calms_same dest: external_workers split: if_splits)
  next
    case PhCollect
    then show ?thesis using assms(1) by (auto simp: collect_done_job_def dest: collect_calm)
  next
    case (PhDispatch js)
    then show ?thesis using assms(1) by (cases js) (auto intro!: calms_same dest: dispatch_workers)
  next
    case PhPending
    then show ?thesis using assms(1) by (auto simp: get_pending_jobs_def dest: pending_calm)
  next
    case (PhCount jobs)
    then show ?thesis using assms(1) by (auto simp: count_freeslot_def dest: count_calm)
  next
    case (PhPrepare jobs n)
    then show ?thesis using assms(1) by (auto simp: prepare_task_def dest: prepare_calm)
  next
    case (PhAssign jobs)
    then show ?thesis using assms(1) by (auto simp: assign_prepare_task_def dest: assign_loop_calm)
  next
    case PhTouch
    show ?thesis
    proof (cases "t_blocked_service t = 0")
      case True
      then show ?thesis using assms(1) PhTouch by (auto simp: trigger_blocked_workers_def intro: calms_same)
    next
      case blocked: False
      from assms(1) PhTouch blocked obtain b t1 where
        "trigger_blocked_loop t 0 (worker_ids t) = Some (b, t1)" "t' = t1\<lparr>t_blocked_service := b\<rparr>"
        by (auto simp: trigger_blocked_workers_def split: bind_splits)
      then show ?thesis using calms_trans [OF blocked_calm calms_same] by simp
    qed
  next
    case (PhRelease m)
    then show ?thesis using assms(1) by (auto simp: release_scheduler_def intro!: calms_same split: bind_splits)
  qed (use False in simp_all)
  then show ?thesis using assms(3) by (rule calms_worker)
qed

subsection \<open>When root quits everybody is woken up\<close>

lemma wakeup_loop_all:
  "wakeup_loop t ns = Some t' \<Longrightarrow> length (t_workers t') = length (t_workers t)
     \<and> (\<forall>l < length (t_workers t). w_wakeup (t_workers t' ! l) \<noteq> 0
          \<or> int l \<notin> set ns \<and> w_wakeup (t_workers t' ! l) = w_wakeup (t_workers t ! l))"
proof (induction ns arbitrary: t)
  case Nil
  then show ?case by simp
next
  case (Cons n ns)
  from Cons.prems obtain w where w: "worker_at t n = Some w"
    and r: "wakeup_loop (set_worker t n (snd (worker_wakeup w))) ns = Some t'"
    by (auto simp: wakeup_worker_def split: bind_splits)
  from w have n: "0 \<le> n" "nat n < length (t_workers t)" by (auto simp: worker_at_def split: if_splits)
  from Cons.IH [OF r] n show ?case
    by (auto simp: set_worker_def nth_list_update worker_wakeup_def split: if_splits)
qed

lemma wakeup_loop_config: "wakeup_loop t ns = Some t' \<Longrightarrow> t_config t' = t_config t"
  by (induction ns arbitrary: t) (fastforce simp: wakeup_worker_def set_worker_def split: bind_splits)+

lemma root_quit_wakes:
  assumes wf: "sched_wf t" and res: "root_quit t = Some t'" and l: "l < length (t_workers t)"
  shows "w_wakeup (t_workers t' ! l) \<noteq> 0"
proof -
  have sig: "signals t t'" using root_quit_signals [OF wf] res by auto
  from res obtain t2 where t2: "wakeup_loop t2 (worker_ids t2) = Some t'"
    by (auto simp: root_quit_def wakeup_all_workers_def split: bind_splits)
  have c: "t_config t2 = t_config t" using wakeup_loop_config [OF t2] signals_frame(3) [OF sig] by simp
  have len: "length (t_workers t2) = length (t_workers t)"
    using wakeup_loop_all [OF t2] signals_frame(1) [OF sig] by simp
  have "int l \<in> set (worker_ids t2)" using wf l by (simp add: worker_ids_def sched_wf_def c)
  then show ?thesis using wakeup_loop_all [OF t2] l len by auto
qed

section \<open>The invariant\<close>

fun asleep_ok :: "thread_pc \<Rightarrow> worker_thread \<Rightarrow> bool" where
  "asleep_ok TLock w = (w_term_signal w = 0 \<or> w_wakeup w \<noteq> 0)"
| "asleep_ok TWait w = (w_wakeup w \<noteq> 0 \<or> w_service_ready w = 0 \<and> w_term_signal w = 0)"
| "asleep_ok pc w = True"

definition sleep_inv :: "sys \<Rightarrow> bool" where
  "sleep_inv s \<longleftrightarrow> (\<forall>k < length (sy_pcs s). asleep_ok (pc_at s k) (t_workers (sy_task s) ! k))"

lemma asleep_calm: "asleep_ok pc w \<Longrightarrow> calm w w' \<Longrightarrow> asleep_ok pc w'"
  by (cases pc) (auto simp: calm_def)

lemma sleep_put:
  assumes inv: "sleep_inv s" and k: "k < length (sy_pcs s)"
    and other: "\<And>l. l < length (sy_pcs s) \<Longrightarrow> l \<noteq> k \<Longrightarrow> calm (t_workers (sy_task s) ! l) (t_workers t ! l)"
    and self: "asleep_ok pc (t_workers t ! k)"
  shows "sleep_inv (put s k t pc)"
  unfolding sleep_inv_def
proof (intro allI impI)
  fix l assume l: "l < length (sy_pcs (put s k t pc))"
  show "asleep_ok (pc_at (put s k t pc) l) (t_workers (sy_task (put s k t pc)) ! l)"
  proof (cases "l = k")
    case True
    then show ?thesis using l self k by simp
  next
    case False
    then show ?thesis using l inv asleep_calm [OF _ other [of l]] by (auto simp: sleep_inv_def)
  qed
qed

lemma sleep_awake:
  assumes "sleep_inv s" and "k < length (sy_pcs s)" and "pc \<noteq> TLock" and "pc \<noteq> TWait"
  shows "t_workers t = t_workers (sy_task s) \<Longrightarrow> sleep_inv (put s k t pc)"
    and "sleep_inv (put_worker s k w pc)" and "sleep_inv (put_pool s k P pc)"
    and "sleep_inv (put s k ((set_worker (sy_task s) (int k) w)\<lparr>t_services := P\<rparr>) pc)"
proof -
  have a: "asleep_ok pc w" for w using assms(3,4) by (cases pc) auto
  show "t_workers t = t_workers (sy_task s) \<Longrightarrow> sleep_inv (put s k t pc)"
    and "sleep_inv (put_worker s k w pc)" and "sleep_inv (put_pool s k P pc)"
    and "sleep_inv (put s k ((set_worker (sy_task s) (int k) w)\<lparr>t_services := P\<rparr>) pc)"
    unfolding put_worker_def put_pool_def
    by (rule sleep_put [OF assms(1,2)]; simp add: a set_worker_def)+
qed

lemma sleep_step:
  assumes step: "thread_step s s'" and inv: "sys_inv s" and sl: "sleep_inv s"
  shows "sleep_inv s'"
  using step
proof cases
  case (th_round k r ph fails pack pc t)
  have "asleep_ok pc w" for w
  proof (cases ph)
    case (PhRelease n)
    then show ?thesis using th_round(5) by (auto split: round.splits)
  qed (use round_step_next [OF th_round(5)] in \<open>auto simp: end_round_def split: list.splits round.splits\<close>)
  then show ?thesis unfolding th_round(1)
    using round_step_calm [OF th_round(5)] sys_invD(5) [OF inv] by (intro sleep_put [OF sl th_round(2)]) auto
next
  case (th_root k P t)
  have "sched_wf ((sy_task s)\<lparr>t_services := P\<rparr>)"
    using sched_bounds [OF sys_invD(1) [OF inv]] sys_invD(1) [OF inv] coreD(1) [OF sys_invD(4) [OF inv]] th_root(4)
    by (intro sched_wf_services) (simp_all add: status_set_bounds)
  from root_quit_wakes [OF this th_root(5)] show ?thesis unfolding th_root(1)
    using sys_invD(5) [OF inv] by (intro sleep_put [OF sl th_root(2)]) (auto simp: calm_def)
next
  case (th_acquire k i fails t)
  then show ?thesis using acquire_cases [of fails "int k" "sy_task s" 0 t] by (auto intro!: sleep_awake(1) [OF sl])
next
  case (th_acquire_fail k i fails t)
  then show ?thesis using acquire_cases [of fails "int k" "sy_task s" 1 t] by (auto intro!: sleep_awake(1) [OF sl])
next
  case (th_nojob k n fails t)
  then show ?thesis using acquire_cases [of fails "int k" "sy_task s" 0 t] by (auto intro!: sleep_awake(1) [OF sl])
next
  case (th_nojob_fail k n fails t)
  then show ?thesis using acquire_cases [of fails "int k" "sy_task s" 1 t] by (auto intro!: sleep_awake(1) [OF sl])
next
  case (th_sleep k w)
  note w = sys_worker(1) [OF inv th_sleep(2)]
  show ?thesis unfolding th_sleep(1) using w th_sleep(4,5) by (intro sleep_put [OF sl th_sleep(2)]) auto
next
  case (th_wait k w w1)
  note w = sys_worker(1) [OF inv th_wait(2)]
  have "asleep_ok TLock w" using sl th_wait(2-4) w by (force simp: sleep_inv_def)
  then have "asleep_ok TWait w1" using th_wait(5) by (auto simp: worker_sleep_begin_def worker_has_job_def split: if_splits)
  moreover have "t_workers (set_worker (sy_task s) (int k) w1) ! k = w1"
    using sys_invD(5) [OF inv] th_wait(2) by (simp add: set_worker_def)
  ultimately show ?thesis unfolding th_wait(1) put_worker_def
    by (intro sleep_put [OF sl th_wait(2)]) (simp_all add: set_worker_def)
next
  case (th_external q v r q1)
  then show ?thesis using sl by (auto simp: sleep_inv_def pc_at_def)
qed (auto intro!: sleep_awake [OF sl])

lemma reach_sleep:
  assumes "sys_reach s0 s" and b: "sys_booted s0"
  shows "sleep_inv s"
  using assms(1)
proof induction
  case reach_init
  have "pc_at s0 k = TTop" if "k < length (sy_pcs s0)" for k
    using b nth_mem [OF that] by (auto simp: sys_booted_def Let_def pc_at_def)
  then show ?case by (simp add: sleep_inv_def)
next
  case (reach_step s s')
  then show ?case using sleep_step [OF reach_step.hyps(2) reach_inv [OF reach_step.hyps(1) b]] by simp
qed

end
