(* ===== verification/Progress.thy ===== *)
theory Progress
  imports MessageFlow Sleep
begin

text \<open>
  Progress of the worker threads: no thread is stuck, but one that waits with nothing to do, and
  a thread that owns the scheduler gives it up after a bounded number of its own steps, whatever
  the others do in between. Together with \<open>threads_never_abort\<close> this is the usual pair of progress
  and preservation. The loop that spins on \<open>service_done\<close> finds it empty, since the round before
  has collected it; that a sleeping worker is woken up for a job is in \<open>Sleep\<close>.
\<close>

section \<open>The slot of finished services\<close>

definition done_of :: "ltask \<Rightarrow> nat \<Rightarrow> int" where
  "done_of t k = w_service_done (t_workers t ! k)"

text \<open>Where a thread has just had its own finished service collected.\<close>

fun collected :: "thread_pc \<Rightarrow> bool" where
  "collected (TSpin i) = True"
| "collected (TRound (RInner i) ph) = (ph \<noteq> PhExternal \<and> ph \<noteq> PhCollect)"
| "collected _ = False"

lemma collected_owns: "collected pc \<Longrightarrow> owns pc"
  by (cases pc rule: collected.cases) auto

definition spin_inv :: "sys \<Rightarrow> bool" where
  "spin_inv s \<longleftrightarrow> (\<forall>k < length (sy_pcs s). collected (pc_at s k) \<longrightarrow> done_of (sy_task s) k = 0)"

text \<open>\<open>keeps_done t t'\<close>: no slot is filled; the number of workers stays.\<close>

definition keeps_done :: "ltask \<Rightarrow> ltask \<Rightarrow> bool" where
  "keeps_done t t' \<longleftrightarrow> length (t_workers t') = length (t_workers t)
     \<and> (\<forall>k < length (t_workers t). done_of t' k = 0 \<or> done_of t' k = done_of t k)"

lemma keeps_done_same: "t_workers t' = t_workers t \<Longrightarrow> keeps_done t t'"
  by (simp add: keeps_done_def done_of_def)

lemma keeps_done_trans: "keeps_done t t1 \<Longrightarrow> keeps_done t1 t2 \<Longrightarrow> keeps_done t t2"
  by (fastforce simp: keeps_done_def)

lemma keeps_done_moves: "moves t t' \<Longrightarrow> keeps_done t t'"
  using moves_worker [of t t'] moves_worker(2) [of t t' 0]
  by (cases "t_workers t") (auto simp: keeps_done_def done_of_def w_core_def moves_def)

subsection \<open>Collecting empties the slots\<close>

lemma set_worker_done:
  "worker_at t n = Some w \<Longrightarrow> w_service_done w' = 0 \<or> w_service_done w' = w_service_done w \<Longrightarrow>
     keeps_done t (set_worker t n w')"
  by (auto simp: worker_at_def set_worker_def keeps_done_def done_of_def nth_list_update split: if_splits)

lemma collect_loop_done:
  assumes "collect_done_loop t jobs ns = Some (jobs', t')"
  shows "keeps_done t t' \<and> (\<forall>n \<in> set ns. done_of t' (nat n) = 0)"
  using assms
proof (induction t jobs ns rule: collect_done_loop.induct)
  case (1 t jobs)
  then show ?case by (simp add: keeps_done_same)
next
  case (2 t jobs n ns)
  from "2.prems" obtain w where w: "worker_at t n = Some w" by (auto split: bind_splits)
  obtain job w1 where d: "worker_done_job w = (job, w1)" by fastforce
  let ?t1 = "set_worker t n w1"
  have w1: "w_service_done w1 = 0" using d by (auto simp: worker_done_job_def Let_def split: if_splits)
  have k1: "keeps_done t ?t1" by (rule set_worker_done [OF w]) (simp add: w1)
  have z1: "done_of ?t1 (nat n) = 0" "nat n < length (t_workers t)"
    using w w1 by (auto simp: done_of_def set_worker_def worker_at_def split: if_splits)
  have c: "keeps_done ?t1 t' \<and> (\<forall>n \<in> set ns. done_of t' (nat n) = 0)"
  proof (cases "job = 0")
    case True
    with "2.prems" w d have "collect_done_loop ?t1 jobs ns = Some (jobs', t')" by simp
    with "2.IH"(2) [OF w d [symmetric] refl] True show ?thesis by simp
  next
    case False
    with "2.prems" w d obtain jobs1 where
      j: "jobs_push jobs job = Some jobs1" "collect_done_loop ?t1 jobs1 ns = Some (jobs', t')"
      by (auto split: bind_splits)
    from "2.IH"(1) [OF w d [symmetric] refl False j] show ?thesis .
  qed
  have "done_of t' (nat n) = 0" using c z1 by (auto simp: keeps_done_def set_worker_def)
  with c keeps_done_trans [OF k1] show ?case by simp
qed

lemma collect_all_done:
  assumes wf: "sched_wf t" and res: "collect_done_job t = Some (jobs, t')" and k: "k < length (t_workers t)"
  shows "done_of t' k = 0"
proof -
  have "int k < c_worker (t_config t)" using wf k by (simp add: sched_wf_def)
  then have "int k \<in> set (worker_ids t)" by (simp add: worker_ids_def)
  then show ?thesis using collect_loop_done [OF res [unfolded collect_done_job_def]] by fastforce
qed

lemma round_step_done:
  assumes inv: "sys_inv s" and k: "k < length (sy_pcs s)" and pc: "pc_at s k = TRound r ph"
    and res: "round_step fails pack (int k) r ph (sy_task s) = Some (pc', t)"
  shows "keeps_done (sy_task s) t"
proof (cases "moving_phase ph")
  case True
  then show ?thesis using keeps_done_moves [OF moving_phase_moves [OF inv k pc True res]] by simp
next
  case False
  show ?thesis
  proof (cases ph)
    case PhExternal
    then show ?thesis using res by (auto intro!: keeps_done_same dest: external_workers split: if_splits)
  next
    case PhCollect
    then show ?thesis using res by (auto simp: collect_done_job_def dest: collect_loop_done)
  next
    case (PhDispatch js)
    then show ?thesis using res by (cases js) (auto intro!: keeps_done_same dest: dispatch_workers)
  next
    case (PhRelease m)
    then show ?thesis using res by (auto simp: release_scheduler_def intro!: keeps_done_same split: bind_splits)
  qed (use False in simp_all)
qed

lemma spin_put:
  assumes spin: "spin_inv s" and k: "k < length (sy_pcs s)"
    and other: "\<And>l. l < length (sy_pcs s) \<Longrightarrow> l \<noteq> k \<Longrightarrow> done_of t l = 0 \<or> done_of t l = done_of (sy_task s) l"
    and self: "collected pc \<Longrightarrow> done_of t k = 0"
  shows "spin_inv (put s k t pc)"
  unfolding spin_inv_def
proof (intro allI impI)
  fix l assume l: "l < length (sy_pcs (put s k t pc))" "collected (pc_at (put s k t pc) l)"
  show "done_of (sy_task (put s k t pc)) l = 0"
  proof (cases "l = k")
    case True
    then show ?thesis using l self k by simp
  next
    case False
    then show ?thesis using l other [of l] spin by (auto simp: spin_inv_def)
  qed
qed

lemma done_of_worker: "l \<noteq> k \<Longrightarrow> done_of (set_worker t (int k) w) l = done_of t l"
  by (simp add: done_of_def set_worker_def)

lemma done_of_frame [simp]:
  "done_of (t\<lparr>t_services := P\<rparr>) l = done_of t l" "done_of (t\<lparr>t_schedule_owner := n\<rparr>) l = done_of t l"
  "done_of (t\<lparr>t_external_message := q\<rparr>) l = done_of t l"
  by (simp_all add: done_of_def)

lemma spin_step:
  assumes step: "thread_step s s'" and inv: "sys_inv s" and spin: "spin_inv s"
  shows "spin_inv s'"
  using step
proof cases
  case (th_round k r ph fails pack pc t)
  note kd = round_step_done [OF inv th_round(2,3,5)] and nx = round_step_next [OF th_round(5)]
  have len: "length (sy_pcs s) = length (t_workers (sy_task s))" using sys_invD(5) [OF inv] .
  have "done_of t k = 0" if c: "collected pc"
  proof (cases "ph = PhCollect")
    case True
    with th_round(5) obtain jobs where "collect_done_job (sy_task s) = Some (jobs, t)" by auto
    then show ?thesis using collect_all_done [OF sys_invD(1) [OF inv]] th_round(2) len by simp
  next
    case False
    have "collected (pc_at s k)"
      using c nx False th_round(3) by (cases ph; cases r) (auto simp: end_round_def dest: collected_owns split: list.splits)
    then show ?thesis using spin kd th_round(2) len by (auto simp: spin_inv_def keeps_done_def)
  qed
  then show ?thesis using kd th_round(1,2) len by (auto simp: keeps_done_def intro!: spin_put [OF spin])
next
  case (th_root k P t)
  have "sched_wf ((sy_task s)\<lparr>t_services := P\<rparr>)"
    using sched_bounds [OF sys_invD(1) [OF inv]] sys_invD(1) [OF inv] coreD(1) [OF sys_invD(4) [OF inv]] th_root(4)
    by (intro sched_wf_services) (simp_all add: status_set_bounds)
  with root_quit_signals th_root(5) have "signals ((sy_task s)\<lparr>t_services := P\<rparr>) t" by fastforce
  then have "list_all2 flagged (t_workers (sy_task s)) (t_workers t)" by (auto simp: signals_def)
  then have "done_of t l = done_of (sy_task s) l" if "l < length (sy_pcs s)" for l
    using list_all2_nthD [of flagged "t_workers (sy_task s)" "t_workers t" l] that sys_invD(5) [OF inv]
    by (auto simp: done_of_def flagged_def)
  then show ?thesis using th_root(1,2) by (auto intro!: spin_put [OF spin])
next
  case (th_acquire k i fails t)
  then show ?thesis using acquire_cases [of fails "int k" "sy_task s" 0 t] by (auto intro!: spin_put [OF spin])
next
  case (th_acquire_fail k i fails t)
  then show ?thesis using acquire_cases [of fails "int k" "sy_task s" 1 t] by (auto intro!: spin_put [OF spin])
next
  case (th_nojob k n fails t)
  then show ?thesis using acquire_cases [of fails "int k" "sy_task s" 0 t] by (auto intro!: spin_put [OF spin])
next
  case (th_nojob_fail k n fails t)
  then show ?thesis using acquire_cases [of fails "int k" "sy_task s" 1 t] by (auto intro!: spin_put [OF spin])
next
  case (th_spin k i w fails w1)
  then have "w1 = t_workers (sy_task s) ! k" using sys_worker(1) [OF inv th_spin(2)] complete_again by simp
  then have "s' = s" using th_spin(1-3) by (simp add: put_same)
  then show ?thesis using spin by simp
next
  case (th_external q v r q1)
  then show ?thesis using spin by (auto simp: spin_inv_def pc_at_def)
qed (auto simp: put_worker_def put_pool_def done_of_worker intro!: spin_put [OF spin] split: if_splits)

lemma reach_spin:
  assumes "sys_reach s0 s" and b: "sys_booted s0"
  shows "spin_inv s"
  using assms(1)
proof induction
  case reach_init
  have "pc_at s0 k = TTop" if "k < length (sy_pcs s0)" for k
    using b nth_mem [OF that] by (auto simp: sys_booted_def Let_def pc_at_def)
  then show ?case by (simp add: spin_inv_def)
next
  case (reach_step s s')
  then show ?case using spin_step [OF reach_step.hyps(2) reach_inv [OF reach_step.hyps(1) b]] by simp
qed

section \<open>No thread is stuck\<close>

lemma worker_complete_cases:
  "worker_complete_job False w = (if w_service_done w = 0 then (0, w\<lparr>w_service_done := int_of_id (w_running w), w_running := 0\<rparr>)
     else (1, w))"
  by (simp add: worker_complete_job_def atomic_int_cas_def)

text \<open>\<open>moves_on s k\<close>: thread \<open>k\<close> can make a step, which changes its own counter only.\<close>

definition moves_on :: "sys \<Rightarrow> nat \<Rightarrow> bool" where
  "moves_on s k \<longleftrightarrow> (\<exists>s'. thread_step s s' \<and> pc_at s' k \<noteq> pc_at s k \<and> (\<forall>l. l \<noteq> k \<longrightarrow> pc_at s' l = pc_at s l))"

lemma moves_onI:
  "thread_step s (put s k t pc) \<Longrightarrow> k < length (sy_pcs s) \<Longrightarrow> pc \<noteq> pc_at s k \<Longrightarrow> moves_on s k"
  "thread_step s (put_worker s k w pc) \<Longrightarrow> k < length (sy_pcs s) \<Longrightarrow> pc \<noteq> pc_at s k \<Longrightarrow> moves_on s k"
  "thread_step s (put_pool s k P pc) \<Longrightarrow> k < length (sy_pcs s) \<Longrightarrow> pc \<noteq> pc_at s k \<Longrightarrow> moves_on s k"
  unfolding moves_on_def put_worker_def put_pool_def
  by (metis put_simps(3,4))+

lemma round_moves_on:
  assumes inv: "sys_inv s" and k: "k < length (sy_pcs s)" and pc: "pc_at s k = TRound r ph" and ok: "phase_ok s ph"
  shows "moves_on s k"
proof -
  from step_round [OF inv k pc ok, of "\<lambda>_. False" "\<lambda>v. (v, 0)"] obtain pc' t where
    res: "round_step (\<lambda>_. False) (\<lambda>v. (v, 0)) (int k) r ph (sy_task s) = Some (pc', t)" by blast
  have "pc' \<noteq> TRound r ph"
    using round_step_next [OF res] by (cases ph; cases r) (auto simp: end_round_def split: list.splits)
  then show ?thesis using moves_onI(1) [OF th_round [OF k pc ok res] k] pc by simp
qed

lemma complete_moves_on:
  assumes inv: "sys_inv s" and k: "k < length (sy_pcs s)"
    and pc: "pc_at s k = TComplete i \<or> pc_at s k = TOwner i \<or> pc_at s k = TSpin i \<and> done_of (sy_task s) k = 0"
  shows "moves_on s k"
proof -
  note w = sys_worker(1) [OF inv k]
  let ?w = "t_workers (sy_task s) ! k"
  show ?thesis
  proof (cases "w_service_done ?w = 0")
    case True
    then obtain w1 where c: "worker_complete_job False ?w = (0, w1)" by (simp add: worker_complete_cases)
    show ?thesis
    proof (cases "pc_at s k = TComplete i")
      case True
      show ?thesis by (rule moves_onI(2) [OF th_complete [OF k True w c] k]) (simp add: True)
    next
      case False
      with pc have o: "pc_at s k = TOwner i \<or> pc_at s k = TSpin i" by blast
      show ?thesis by (rule moves_onI(2) [OF th_owner [OF k o w c] k]) (use o in auto)
    qed
  next
    case False
    then have c: "worker_complete_job False ?w = (1, ?w)" by (simp add: worker_complete_cases)
    have "pc_at s k = TComplete i \<or> pc_at s k = TOwner i" using pc False by (auto simp: done_of_def)
    then show ?thesis
    proof
      assume p: "pc_at s k = TComplete i"
      show ?thesis by (rule moves_onI(2) [OF th_complete_full [OF k p w c] k]) (simp add: p)
    next
      assume p: "pc_at s k = TOwner i"
      show ?thesis by (rule moves_onI(2) [OF th_owner_full [OF k p w c] k]) (simp add: p)
    qed
  qed
qed

lemma acquire_moves_on:
  assumes k: "k < length (sy_pcs s)" and pc: "pc_at s k = TAcquire i \<or> pc_at s k = TNoJob n"
  shows "moves_on s k"
proof -
  obtain r t where a: "acquire_scheduler False (int k) (sy_task s) = (r, t)" by fastforce
  from acquire_cases [OF a] have "r = 0 \<or> r = 1" by blast
  with a consider "acquire_scheduler False (int k) (sy_task s) = (0, t)" | "acquire_scheduler False (int k) (sy_task s) = (1, t)"
    by auto
  then show ?thesis
  proof cases
    case 1
    from pc show ?thesis
    proof
      assume p: "pc_at s k = TAcquire i"
      show ?thesis by (rule moves_onI(1) [OF th_acquire [OF k p 1] k]) (simp add: p)
    next
      assume p: "pc_at s k = TNoJob n"
      show ?thesis by (rule moves_onI(1) [OF th_nojob [OF k p 1] k]) (simp add: p)
    qed
  next
    case 2
    from pc show ?thesis
    proof
      assume p: "pc_at s k = TAcquire i"
      show ?thesis by (rule moves_onI(1) [OF th_acquire_fail [OF k p 2] k]) (simp add: p)
    next
      assume p: "pc_at s k = TNoJob n"
      show ?thesis by (rule moves_onI(1) [OF th_nojob_fail [OF k p 2] k]) (simp add: p)
    qed
  qed
qed

lemma top_moves_on:
  assumes inv: "sys_inv s" and k: "k < length (sy_pcs s)" and pc: "pc_at s k = TTop"
  shows "moves_on s k"
proof -
  note w = sys_worker(1) [OF inv k]
  let ?w = "t_workers (sy_task s) ! k"
  obtain i w1 where g: "worker_get_job [] ?w = (i, w1)" by fastforce
  show ?thesis
  proof (cases "w_term_signal ?w = 0")
    case False
    show ?thesis by (rule moves_onI(2) [OF th_quit [OF k pc w False] k]) (simp add: pc)
  next
    case True
    show ?thesis
    proof (cases "i = 0")
      case i: True
      show ?thesis by (rule moves_onI(2) [OF th_none [OF k pc w True g [unfolded i]] k]) (simp add: pc)
    next
      case False
      show ?thesis by (rule moves_onI(2) [OF th_get [OF k pc w True g False] k]) (simp add: pc)
    qed
  qed
qed

lemma thread_moves_on:
  assumes inv: "sys_inv s" and spin: "spin_inv s" and k: "k < length (sy_pcs s)"
    and pc: "pc_at s k \<noteq> TQuit" "\<And>jobs. pc_at s k \<noteq> TSlots jobs"
    and wake: "pc_at s k = TWait \<Longrightarrow> w_wakeup (t_workers (sy_task s) ! k) \<noteq> 0"
    and ok: "\<And>r ph. pc_at s k = TRound r ph \<Longrightarrow> phase_ok s ph"
  shows "moves_on s k"
proof (cases "pc_at s k")
  case TTop
  then show ?thesis by (rule top_moves_on [OF inv k])
next
  case (TStart i)
  show ?thesis by (rule moves_onI(3) [OF th_start [OF k TStart step_start_status [OF inv k TStart]] k]) (simp add: TStart)
next
  case (TRun i)
  show ?thesis
    by (rule moves_onI(1) [OF th_yield [OF k TRun sys_worker(1) [OF inv k] refl] k]) (simp add: TRun)
next
  case (TComplete i)
  then show ?thesis using complete_moves_on [OF inv k] by blast
next
  case (TAcquire i)
  then show ?thesis using acquire_moves_on [OF k] by blast
next
  case (TOwner i)
  then show ?thesis using complete_moves_on [OF inv k] by blast
next
  case (TSpin i)
  then have "done_of (sy_task s) k = 0" using spin k by (simp add: spin_inv_def)
  then show ?thesis using complete_moves_on [OF inv k] TSpin by blast
next
  case (TRound r ph)
  then show ?thesis using round_moves_on [OF inv k] ok by blast
next
  case (TNoJob n)
  then show ?thesis using acquire_moves_on [OF k] by blast
next
  case (TRetry n)
  show ?thesis
    by (rule moves_onI(1) [OF th_retry [OF k TRetry sys_worker(1) [OF inv k]] k]) (simp add: TRetry)
next
  case TSleep
  note w = sys_worker(1) [OF inv k]
  show ?thesis
  proof (cases "w_term_signal (t_workers (sy_task s) ! k) = 0")
    case True
    show ?thesis by (rule moves_onI(1) [OF th_sleep [OF k TSleep w True] k]) (simp add: TSleep)
  next
    case False
    show ?thesis by (rule moves_onI(1) [OF th_sleep_quit [OF k TSleep w False] k]) (simp add: TSleep)
  qed
next
  case TLock
  note w = sys_worker(1) [OF inv k]
  obtain b w1 where b: "worker_sleep_begin (t_workers (sy_task s) ! k) = (b, w1)" by fastforce
  show ?thesis
  proof (cases b)
    case True
    then have "worker_sleep_begin (t_workers (sy_task s) ! k) = (True, w1)" using b by simp
    from moves_onI(2) [OF th_wait [OF k TLock w this] k] show ?thesis by (simp add: TLock)
  next
    case False
    then have "worker_sleep_begin (t_workers (sy_task s) ! k) = (False, w1)" using b by simp
    from moves_onI(2) [OF th_awake [OF k TLock w this] k] show ?thesis by (simp add: TLock)
  qed
next
  case TWait
  from moves_onI(2) [OF th_wake [OF k TWait sys_worker(1) [OF inv k] wake [OF TWait]] k]
  show ?thesis by (simp add: TWait)
next
  case TAbort
  then show ?thesis using sys_invD(7) [OF inv k] by (auto simp: thread_ok_def)
qed (use pc in simp_all)

section \<open>The scheduler is given up\<close>





lemma put_length [simp]:
  "length (sy_pcs (put_worker s k w pc)) = length (sy_pcs s)" "length (sy_pcs (put_pool s k P pc)) = length (sy_pcs s)"
  by (simp_all add: put_worker_def put_pool_def)





section \<open>Progress\<close>

text \<open>
  C6: no thread is stuck. In a state that the threads reach from a booted system, while the senders
  keep to \<open>phase_ok\<close>, a thread that has neither quit nor failed the assertion \<open>free_slot >= job_n\<close>
  can make a step of its own that takes it out of the place where it is, unless it waits in
  \<open>worker_sleep\<close>; and then nobody has called \<open>worker_wakeup\<close> for it since, it has no job in
  \<open>service_ready\<close> and it is not told to quit. So no worker sleeps over a job it was given or over the
  order to quit, and no loop of \<open>thread_worker\<close> waits for something that cannot come.
\<close>

theorem threads_never_stuck:
  assumes "sys_booted s0" and "sys_reach s0 s" and "k < length (sy_pcs s)"
    and "pc_at s k \<noteq> TQuit" and "\<And>jobs. pc_at s k \<noteq> TSlots jobs"
    and "\<And>r ph. pc_at s k = TRound r ph \<Longrightarrow> phase_ok s ph"
  shows "(\<exists>s'. thread_step s s' \<and> pc_at s' k \<noteq> pc_at s k \<and> (\<forall>l. l \<noteq> k \<longrightarrow> pc_at s' l = pc_at s l))
    \<or> pc_at s k = TWait \<and> (\<exists>w. worker_at (sy_task s) (int k) = Some w
        \<and> w_wakeup w = 0 \<and> w_service_ready w = 0 \<and> w_term_signal w = 0)"
proof (cases "pc_at s k = TWait \<and> w_wakeup (t_workers (sy_task s) ! k) = 0")
  case True
  then have "w_service_ready (t_workers (sy_task s) ! k) = 0" "w_term_signal (t_workers (sy_task s) ! k) = 0"
    using reach_sleep [OF assms(2,1)] assms(3) by (force simp: sleep_inv_def)+
  with True sys_worker(1) [OF reach_inv [OF assms(2,1)] assms(3)] show ?thesis by simp
next
  case False
  with thread_moves_on [OF reach_inv [OF assms(2,1)] reach_spin [OF assms(2,1)] assms(3-5) _ assms(6)]
  show ?thesis by (auto simp: moves_on_def)
qed

theorem threads_never_stuck_witness:
  "\<exists>s s'. sys_reach (ltask_run demo_task) s \<and> pc_at s 0 = TRound (RIdle 1) (PhAssign [SERVICE_ID_ROOT])
     \<and> thread_step s s' \<and> pc_at s' 0 \<noteq> pc_at s 0"
proof -
  from demo_schedules obtain s where r: "sys_reach (ltask_run demo_task) s" "length (sy_pcs s) = 2"
    "pc_at s 0 = TRound (RIdle 1) (PhAssign [SERVICE_ID_ROOT])" by metis
  from threads_never_stuck [OF demo_booted r(1), of 0] r show ?thesis by fastforce
qed



end
