(* ===== verification/ServiceMem.thy ===== *)
theory ServiceMem
  imports Service
begin

text \<open>
  The allocator of \<open>src/service.c\<close>: every block of a service's Lua state is obtained through
  \<open>service_alloc\<close>, which counts the bytes in use in \<open>stat.mem\<close> and refuses new blocks once
  they exceed \<open>stat.limit\<close>; \<open>service_memlimit\<close> and \<open>service_memcount\<close> are its interface.

  \<open>lua_memory\<close> is what the allocator works on: the \<open>struct memory_stat\<close> of the service and the
  blocks the C library has given out, with their sizes. The address the C library answers
  is the argument \<open>a\<close>.
\<close>

section \<open>The allocator\<close>

text \<open>The kinds of objects, \<open>LUA_NUMTYPES\<close> Lua types mapped to \<open>TYPEID_COUNT\<close> counters.\<close>

abbreviation (input) LUA_NUMTYPES :: nat where "LUA_NUMTYPES \<equiv> 9"

definition lua_typeid :: "nat list" where
  "lua_typeid = [5, 5, 5, 5, 0, 1, 2, 3, 4]"

record lua_memory =
  lh_stat :: memory_stat
  lh_blocks :: "ptr \<rightharpoonup> u64"

definition check_limit :: "memory_stat \<Rightarrow> bool" where
  "check_limit stat = (if ms_limit stat = 0 then False else ms_mem stat > ms_limit stat)"

text \<open>\<open>free\<close> accepts NULL; any other address must be that of a block.\<close>

definition block_free :: "ptr \<Rightarrow> (ptr \<rightharpoonup> u64) \<Rightarrow> (ptr \<rightharpoonup> u64) option" where
  "block_free p B = (if p = 0 then Some B else if B p = None then None else Some (B(p := None)))"

definition count_object :: "u64 \<Rightarrow> memory_stat \<Rightarrow> memory_stat" where
  "count_object osize stat =
     (if unat osize < LUA_NUMTYPES
      then let i = lua_typeid ! unat osize
           in stat\<lparr>ms_count := (ms_count stat)[i := ms_count stat ! i + 1]\<rparr>
      else stat)"

definition service_alloc :: "ptr \<Rightarrow> lua_memory \<Rightarrow> ptr \<Rightarrow> u64 \<Rightarrow> u64 \<Rightarrow> (ptr \<times> lua_memory) option" where
  "service_alloc a H p osize nsize =
     (let stat = lh_stat H in
      if nsize = 0
      then do {
        B \<leftarrow> block_free p (lh_blocks H);
        Some (0, \<lparr>lh_stat = stat\<lparr>ms_mem := ms_mem stat - osize\<rparr>, lh_blocks = B\<rparr>) }
      else if p = 0
      then
        (if check_limit stat then Some (0, H)
         else let stat1 = count_object osize stat in
           if a = 0 then Some (0, H\<lparr>lh_stat := stat1\<rparr>)
           else Some (a, \<lparr>lh_stat = stat1\<lparr>ms_mem := ms_mem stat1 + nsize\<rparr>,
             lh_blocks = (lh_blocks H)(a \<mapsto> nsize)\<rparr>))
      else
        (if osize > nsize \<and> check_limit stat then Some (0, H)
         else do {
           B \<leftarrow> block_free p (lh_blocks H);
           if a = 0 then Some (0, H)
           else Some (a, \<lparr>lh_stat = stat\<lparr>ms_mem := ms_mem stat + nsize - osize\<rparr>,
             lh_blocks = B(a \<mapsto> nsize)\<rparr>) }))"

section \<open>The interface\<close>

text \<open>Both answer \<open>(size_t)-1\<close> when there is no Lua state.\<close>

definition service_memlimit ::
  "service_pool \<Rightarrow> service_id \<Rightarrow> u64 \<Rightarrow> (u64 \<times> service_pool) option" where
  "service_memlimit p i limit =
     (case get_service p i of
        None \<Rightarrow> Some (-1, p)
      | Some S \<Rightarrow>
          if s_L S = 0 then Some (-1, p)
          else do {
            stat \<leftarrow> s_stat S;
            Some (ms_limit stat,
              upd_service p i (\<lambda>S. S\<lparr>s_stat := Some (stat\<lparr>ms_limit := limit\<rparr>)\<rparr>)) })"

definition service_memcount :: "service_pool \<Rightarrow> service_id \<Rightarrow> int \<Rightarrow> u64 option" where
  "service_memcount p i luatype = do {
     c_assert (0 \<le> luatype \<and> luatype < int LUA_NUMTYPES);
     (case get_service p i of
        None \<Rightarrow> Some (-1)
      | Some S \<Rightarrow>
          if s_L S = 0 then Some (-1)
          else do {
            stat \<leftarrow> s_stat S;
            Some (ms_count stat ! (lua_typeid ! nat luatype)) }) }"

section \<open>The accounting\<close>

text \<open>
  What \<open>lua_Alloc\<close> is promised by the Lua library (reference manual, \<open>lua_Alloc\<close>): \<open>osize\<close>
  is the size of the block \<open>p\<close>, and a NULL pointer is only freed with size 0. And what the C
  library answers: NULL or an address where no block lives, which for \<open>realloc\<close> may be that of
  the block itself.
\<close>

definition alloc_call_ok :: "ptr \<Rightarrow> lua_memory \<Rightarrow> ptr \<Rightarrow> u64 \<Rightarrow> u64 \<Rightarrow> bool" where
  "alloc_call_ok a H p osize nsize \<longleftrightarrow>
     (if p = 0 then nsize = 0 \<longrightarrow> osize = 0 else lh_blocks H p = Some osize)
     \<and> (a = 0 \<or> a = p \<or> lh_blocks H a = None)"

text \<open>A Lua state's heap after any sequence of such calls, with changes of the limit between.\<close>

inductive lua_memory_reach :: "lua_memory \<Rightarrow> bool" where
  heap_new: "lua_memory_reach \<lparr>lh_stat = zero_stat, lh_blocks = Map.empty\<rparr>"
| heap_call: "lua_memory_reach H \<Longrightarrow> alloc_call_ok a H p osize nsize \<Longrightarrow>
     service_alloc a H p osize nsize = Some (r, H') \<Longrightarrow> lua_memory_reach H'"
| heap_limit: "lua_memory_reach H \<Longrightarrow>
     lua_memory_reach (H\<lparr>lh_stat := (lh_stat H)\<lparr>ms_limit := limit\<rparr>\<rparr>)"

definition block_bytes :: "(ptr \<rightharpoonup> u64) \<Rightarrow> u64" where
  "block_bytes B = (\<Sum>p\<in>dom B. the (B p))"

definition heap_accounted :: "lua_memory \<Rightarrow> bool" where
  "heap_accounted H \<longleftrightarrow> ms_mem (lh_stat H) = block_bytes (lh_blocks H) \<and> lh_blocks H 0 = None
     \<and> length (ms_count (lh_stat H)) = 6"

lemma block_bytes_new:
  "B a = None \<Longrightarrow> block_bytes (B(a \<mapsto> n)) = block_bytes B + n"
proof -
  assume a: "B a = None"
  have "(\<Sum>p\<in>dom B. the ((B(a \<mapsto> n)) p)) = (\<Sum>p\<in>dom B. the (B p))"
    using a by (intro sum.cong) auto
  with a show ?thesis by (simp add: block_bytes_def domIff ac_simps)
qed

lemma block_bytes_drop:
  "B p = Some n \<Longrightarrow> block_bytes (B(p := None)) = block_bytes B - n"
  using block_bytes_new [of "B(p := None)" p n] by (simp add: fun_upd_idem eq_diff_eq)

lemma count_object_fields [simp]:
  "ms_mem (count_object osize stat) = ms_mem stat"
  "ms_limit (count_object osize stat) = ms_limit stat"
  "length (ms_count (count_object osize stat)) = length (ms_count stat)"
  by (simp_all add: count_object_def Let_def)

definition alloc_blocks :: "(ptr \<rightharpoonup> u64) \<Rightarrow> ptr \<Rightarrow> u64 \<Rightarrow> ptr \<Rightarrow> (ptr \<rightharpoonup> u64)" where
  "alloc_blocks B p nsize r =
     (if nsize = 0 then B(p := None) else if r = 0 then B else (B(p := None))(r \<mapsto> nsize))"

lemma service_alloc_spec:
  assumes "heap_accounted H" and "alloc_call_ok a H p osize nsize"
  shows "\<exists>r H'. service_alloc a H p osize nsize = Some (r, H') \<and> heap_accounted H'
    \<and> lh_blocks H' = alloc_blocks (lh_blocks H) p nsize r"
proof (cases "p = 0")
  case True
  then have B: "(lh_blocks H)(p := None) = lh_blocks H"
    using assms(1) by (simp add: heap_accounted_def fun_upd_idem)
  with True assms show ?thesis
    by (auto simp: heap_accounted_def alloc_call_ok_def service_alloc_def block_free_def Let_def
      alloc_blocks_def block_bytes_new)
next
  case False
  then have p: "lh_blocks H p = Some osize" using assms(2) by (simp add: alloc_call_ok_def)
  have "a \<noteq> 0 \<Longrightarrow> ((lh_blocks H)(p := None)) a = None"
    using assms(2) by (auto simp: alloc_call_ok_def)
  then have new: "a \<noteq> 0 \<Longrightarrow> block_bytes (((lh_blocks H)(p := None))(a \<mapsto> nsize))
      = block_bytes (lh_blocks H) - osize + nsize"
    using p by (simp add: block_bytes_new block_bytes_drop)
  show ?thesis
    using False p new assms(1) block_bytes_drop [of "lh_blocks H" p osize, OF p]
    by (auto simp: heap_accounted_def service_alloc_def block_free_def Let_def alloc_blocks_def)
qed

lemma lua_memory_accounted: "lua_memory_reach H \<Longrightarrow> heap_accounted H"
proof (induction rule: lua_memory_reach.induct)
  case heap_new
  then show ?case by (simp add: heap_accounted_def zero_stat_def block_bytes_def)
next
  case (heap_call H a p osize nsize r H')
  from service_alloc_spec [OF heap_call(4,2)] heap_call(3) show ?case by auto
next
  case (heap_limit H limit)
  then show ?case by (simp add: heap_accounted_def)
qed

section \<open>Properties\<close>

text \<open>
  C32: the memory of a service is accounted for exactly. After any calls of the Lua library,
  changes of the limit included, the next call frees, moves or makes only the block it is asked
  to, never an address that holds none, \<open>stat.mem\<close> is the sum of the sizes of the blocks that
  are left (modulo \<open>2 ^ 64\<close>), and a new block is refused when the memory in use is above the
  limit.
\<close>

theorem service_memory_accounted:
  assumes "lua_memory_reach H" and "alloc_call_ok a H p osize nsize"
  shows "\<exists>r H'. service_alloc a H p osize nsize = Some (r, H')
    \<and> lh_blocks H' = alloc_blocks (lh_blocks H) p nsize r
    \<and> ms_mem (lh_stat H') = block_bytes (lh_blocks H')
    \<and> (p = 0 \<and> nsize \<noteq> 0 \<and> ms_limit (lh_stat H) \<noteq> 0 \<and> ms_limit (lh_stat H) < ms_mem (lh_stat H)
        \<longrightarrow> r = 0)"
proof -
  from service_alloc_spec [OF lua_memory_accounted [OF assms(1)] assms(2)] obtain r H'
    where "service_alloc a H p osize nsize = Some (r, H')" "heap_accounted H'"
      "lh_blocks H' = alloc_blocks (lh_blocks H) p nsize r" by blast
  then show ?thesis
    by (intro exI [of _ r] exI [of _ H']) (auto simp: heap_accounted_def service_alloc_def check_limit_def)
qed

definition heap_48 :: lua_memory where
  "heap_48 = \<lparr>lh_stat = \<lparr>ms_count = [0, 1, 0, 0, 0, 0], ms_mem = 48, ms_limit = 32\<rparr>,
     lh_blocks = [64 \<mapsto> 48]\<rparr>"

lemma replicate_6: "replicate 6 x = [x, x, x, x, x, x]"
  by (simp add: numeral_eq_Suc)

lemma heap_48_reach: "lua_memory_reach heap_48"
proof -
  let ?H = "\<lparr>lh_stat = \<lparr>ms_count = [0, 1, 0, 0, 0, 0], ms_mem = 48, ms_limit = 0\<rparr>,
     lh_blocks = [64 \<mapsto> 48]\<rparr>"
  have "lua_memory_reach ?H"
    by (rule heap_call [OF heap_new, of 64 0 5 48 64])
      (simp_all add: alloc_call_ok_def service_alloc_def check_limit_def count_object_def lua_typeid_def
        zero_stat_def replicate_6 Let_def)
  from heap_limit [OF this, of 32] show ?thesis by (simp add: heap_48_def)
qed

theorem service_memory_accounted_witness:
  "\<exists>H'. service_alloc 128 heap_48 64 48 96 = Some (128, H')
    \<and> lh_blocks H' = [128 \<mapsto> 96] \<and> ms_mem (lh_stat H') = block_bytes [128 \<mapsto> 96]"
proof -
  have "alloc_call_ok 128 heap_48 64 48 96" by (simp add: alloc_call_ok_def heap_48_def)
  from service_memory_accounted [OF heap_48_reach this] show ?thesis
    by (auto simp: service_alloc_def check_limit_def block_free_def heap_48_def Let_def alloc_blocks_def)
qed

text \<open>
  The test of the \<open>realloc\<close> branch is the wrong way round: over the limit a block may grow,
  and one that is to shrink is refused.
\<close>

lemma limit_refuses_to_shrink:
  "service_alloc 64 heap_48 64 48 16 = Some (0, heap_48)"
  by (simp add: service_alloc_def check_limit_def heap_48_def Let_def)

lemma limit_allows_growth:
  "fst (the (service_alloc 128 heap_48 64 48 96)) = 128"
  by (simp add: service_alloc_def check_limit_def heap_48_def block_free_def Let_def)

end
