(* ===== verification/Logqueue.thy ===== *)
theory Logqueue
  imports Fifo Message
begin

text \<open>
  \<open>src/logqueue.c\<close>, \<open>src/logqueue.h\<close>: the queue of log messages between the services
  and the logger service. It is a singly linked list of \<open>struct log_item\<close> with a pointer to
  its last node, and a free list the popped nodes go to, so that \<open>malloc\<close> is only called
  when no node can be used again.

  Both lists run through the same field \<open>next\<close> of the same nodes, so the model keeps the
  heap of the nodes explicitly: \<open>item_heap\<close> maps an address to the node allocated
  there, a field nobody has written is \<^term>\<open>None\<close>, and reading it, or following a pointer
  to a node that is not there, is undefined behaviour (\<^term>\<open>None\<close> of the \<open>option\<close>
  monad). The spin lock, which is not recursive, is a flag: acquiring it twice in a thread never
  returns and releasing it when it is free is undefined.
\<close>

record logmessage =
  lm_timestamp :: u64
  lm_id :: service_id
  lm_sz :: u32
  lm_msg :: ptr

record log_item =
  li_next :: "ptr option"
  li_msg :: "logmessage option"

type_synonym item_heap = "ptr \<rightharpoonup> log_item"

record logqueue =
  lq_freelist :: ptr
  lq_head :: ptr
  lq_tail :: ptr
  lq_lock :: bool

type_synonym log_state = "item_heap \<times> logqueue"

section \<open>The nodes\<close>

definition item_read :: "item_heap \<Rightarrow> ptr \<Rightarrow> log_item option" where
  "item_read h p = (if p = 0 then None else h p)"

definition item_next :: "item_heap \<Rightarrow> ptr \<Rightarrow> ptr option" where
  "item_next h p = Option.bind (item_read h p) li_next"

definition item_set_next :: "item_heap \<Rightarrow> ptr \<Rightarrow> ptr \<Rightarrow> item_heap option" where
  "item_set_next h p v = map_option (\<lambda>it. h(p \<mapsto> it\<lparr>li_next := Some v\<rparr>)) (item_read h p)"

definition item_set_msg :: "item_heap \<Rightarrow> ptr \<Rightarrow> logmessage \<Rightarrow> item_heap option" where
  "item_set_msg h p m = map_option (\<lambda>it. h(p \<mapsto> it\<lparr>li_msg := Some m\<rparr>)) (item_read h p)"

text \<open>
  \<open>malloc\<close> of one node: the environment's answer is the address \<open>a\<close>, which is NULL or an
  address where no node lives. \<open>free\<close> gives a node back; freeing an address that holds none
  is undefined.
\<close>

definition item_malloc :: "item_heap \<Rightarrow> ptr \<Rightarrow> item_heap" where
  "item_malloc h a = (if a = 0 then h else h(a \<mapsto> \<lparr>li_next = None, li_msg = None\<rparr>))"

definition malloc_answers :: "item_heap \<Rightarrow> ptr \<Rightarrow> bool" where
  "malloc_answers h a \<longleftrightarrow> a = 0 \<or> h a = None"

definition item_free :: "item_heap \<Rightarrow> ptr \<Rightarrow> item_heap option" where
  "item_free h p = map_option (\<lambda>_. h(p := None)) (item_read h p)"

section \<open>The operations\<close>

text \<open>\<open>spinlock_acquire\<close> and \<open>spinlock_release\<close> of \<open>src/spinlock.h\<close> on \<open>q->lock\<close>.\<close>

definition logqueue_lock :: "logqueue \<Rightarrow> logqueue option" where
  "logqueue_lock q = (if lq_lock q then None else Some (q\<lparr>lq_lock := True\<rparr>))"

definition logqueue_unlock :: "logqueue \<Rightarrow> logqueue option" where
  "logqueue_unlock q = (if lq_lock q then Some (q\<lparr>lq_lock := False\<rparr>) else None)"

text \<open>
  \<open>logqueue_new\<close>: \<open>ok\<close> says whether \<open>spinlock_init\<close> succeeds. The answer of \<open>malloc\<close> is
  not tested in the code, so a NULL answer (\<open>got = False\<close>) is undefined behaviour.
\<close>

definition logqueue_new :: "bool \<Rightarrow> bool \<Rightarrow> logqueue option option" where
  "logqueue_new got ok = do {
     c_assert got;
     Some (if ok
           then Some \<lparr>lq_freelist = 0, lq_head = 0, lq_tail = 0, lq_lock = False\<rparr>
           else None) }"

definition alloc_item :: "ptr \<Rightarrow> item_heap \<Rightarrow> logqueue \<Rightarrow> (ptr \<times> log_state) option" where
  "alloc_item a h q =
     (if lq_freelist q = 0 then Some (a, item_malloc h a, q)
      else do {
        nxt \<leftarrow> item_next h (lq_freelist q);
        Some (lq_freelist q, h, q\<lparr>lq_freelist := nxt\<rparr>) })"

text \<open>\<open>logqueue_push\<close> answers 0, or 1 when no node can be had.\<close>

definition logqueue_push :: "ptr \<Rightarrow> log_state \<Rightarrow> logmessage \<Rightarrow> (int \<times> log_state) option" where
  "logqueue_push a hq m = (case hq of (h, q) \<Rightarrow> do {
     q \<leftarrow> logqueue_lock q;
     (item, h, q) \<leftarrow> alloc_item a h q;
     if item = 0
     then do {
       q \<leftarrow> logqueue_unlock q;
       Some (1, h, q) }
     else do {
       (h, q) \<leftarrow>
         (if lq_head q = 0
          then do {
            h \<leftarrow> item_set_next h item 0;
            Some (h, q\<lparr>lq_head := item, lq_tail := item\<rparr>) }
          else do {
            h \<leftarrow> item_set_next h (lq_tail q) item;
            h \<leftarrow> item_set_next h item 0;
            Some (h, q\<lparr>lq_tail := item\<rparr>) });
       h \<leftarrow> item_set_msg h item m;
       q \<leftarrow> logqueue_unlock q;
       Some (0, h, q) } })"

text \<open>
  \<open>logqueue_pop\<close> answers 0 and fills \<open>*m\<close>, or answers 1 and leaves it: the model returns
  the message it fills in.
\<close>

definition logqueue_pop :: "log_state \<Rightarrow> (logmessage option \<times> log_state) option" where
  "logqueue_pop hq = (case hq of (h, q) \<Rightarrow> do {
     q \<leftarrow> logqueue_lock q;
     if lq_head q = 0
     then do {
       q \<leftarrow> logqueue_unlock q;
       Some (None, h, q) }
     else do {
       let ret = lq_head q;
       nxt \<leftarrow> item_next h ret;
       let q = q\<lparr>lq_head := nxt\<rparr>;
       let q = (if nxt = 0 then q\<lparr>lq_tail := 0\<rparr> else q);
       h \<leftarrow> item_set_next h ret (lq_freelist q);
       let q = q\<lparr>lq_freelist := ret\<rparr>;
       it \<leftarrow> item_read h ret;
       m \<leftarrow> li_msg it;
       q \<leftarrow> logqueue_unlock q;
       Some (Some m, h, q) } })"

text \<open>
  \<open>free_items\<close>: the loop reads \<open>next\<close> of a node before it frees it. Each turn takes a
  node out of the heap, and a 64-bit heap is finite, so the loop ends on every heap.
\<close>

function free_items :: "item_heap \<Rightarrow> ptr \<Rightarrow> item_heap option" where
  "free_items h item =
     (if item = 0 then Some h
      else (case item_next h item of
              None \<Rightarrow> None
            | Some nxt \<Rightarrow>
                (case item_free h item of None \<Rightarrow> None | Some h' \<Rightarrow> free_items h' nxt)))"
  by pat_completeness auto

termination free_items
proof (relation "measure (\<lambda>(h, _). card (dom h))")
  fix h :: item_heap and item nxt h'
  assume "item_free h item = Some h'"
  then have "item \<in> dom h" and "h' = h(item := None)"
    by (auto simp: item_free_def item_read_def split: if_splits)
  moreover have "finite (dom h)" by simp
  ultimately have "card (dom h') < card (dom h)"
    by (simp add: card_Diff1_less del: card_Diff_insert)
  then show "((h', nxt), h, item) \<in> measure (\<lambda>(h, _). card (dom h))" by simp
qed simp

declare free_items.simps [simp del]

text \<open>
  \<open>logqueue_delete\<close>: the loop that pops until the queue answers 1, on fuel, and then the free
  list. The payloads \<open>m.msg\<close> are released in the order they are popped.
\<close>

fun drain :: "nat \<Rightarrow> log_state \<Rightarrow> (ptr list \<times> log_state) option" where
  "drain 0 s = None"
| "drain (Suc n) s = do {
     (r, s) \<leftarrow> logqueue_pop s;
     (case r of
        None \<Rightarrow> Some ([], s)
      | Some m \<Rightarrow> do {
          (ps, s) \<leftarrow> drain n s;
          Some (lm_msg m # ps, s) }) }"

definition logqueue_delete :: "nat \<Rightarrow> log_state \<Rightarrow> (ptr list \<times> item_heap) option" where
  "logqueue_delete fuel s = do {
     (ps, h, q) \<leftarrow> drain fuel s;
     c_assert (\<not> lq_lock q);
     h \<leftarrow> free_items h (lq_freelist q);
     Some (ps, h) }"

section \<open>The interface the runtime uses the queue through\<close>

text \<open>
  The services push and the logger service pops; between the two there is only the promise of
  a queue whose \<open>push\<close> may refuse when the environment does. \<open>store_run\<close> makes a sequence
  of calls, the \<open>k\<close>-th from the end under the environment's answer \<open>env k\<close>, and
  \<open>queue_replay\<close> is the reference: it follows the answers on a plain list and fails as soon as
  an answer is not the one a first-in first-out queue gives.
\<close>

fun store_run ::
  "('e \<Rightarrow> 's \<Rightarrow> 'a \<Rightarrow> (int \<times> 's) option) \<Rightarrow> ('s \<Rightarrow> ('a option \<times> 's) option) \<Rightarrow>
   (nat \<Rightarrow> 's \<Rightarrow> 'e) \<Rightarrow> 's \<Rightarrow> 'a fifo_op list \<Rightarrow> ('a fifo_answer list \<times> 's) option"
where
  "store_run push pop env s [] = Some ([], s)"
| "store_run push pop env s (Push v # ops) = do {
     (r, s) \<leftarrow> push (env (length ops) s) s v;
     (as, s) \<leftarrow> store_run push pop env s ops;
     Some ((if r = 0 then Stored else Full) # as, s) }"
| "store_run push pop env s (Pop # ops) = do {
     (r, s) \<leftarrow> pop s;
     (as, s) \<leftarrow> store_run push pop env s ops;
     Some ((case r of None \<Rightarrow> Empty | Some v \<Rightarrow> Got v) # as, s) }"

fun queue_replay :: "'a fifo_op list \<Rightarrow> 'a fifo_answer list \<Rightarrow> 'a list \<Rightarrow> 'a list option" where
  "queue_replay [] [] xs = Some xs"
| "queue_replay (Push v # ops) (Stored # as) xs = queue_replay ops as (xs @ [v])"
| "queue_replay (Push v # ops) (Full # as) xs = queue_replay ops as xs"
| "queue_replay (Pop # ops) (Got v # as) (x # xs) =
     (if v = x then queue_replay ops as xs else None)"
| "queue_replay (Pop # ops) (Empty # as) [] = queue_replay ops as []"
| "queue_replay _ _ _ = None"

locale log_store =
  fixes rep :: "'s \<Rightarrow> 'a list \<Rightarrow> bool"
    and answers_ok :: "'s \<Rightarrow> 'e \<Rightarrow> bool"
    and refuses :: "'e \<Rightarrow> bool"
    and push :: "'e \<Rightarrow> 's \<Rightarrow> 'a \<Rightarrow> (int \<times> 's) option"
    and pop :: "'s \<Rightarrow> ('a option \<times> 's) option"
  assumes push_law: "rep s xs \<Longrightarrow> answers_ok s e \<Longrightarrow>
      (\<exists>s'. push e s x = Some (0, s') \<and> rep s' (xs @ [x])) \<or>
      (\<exists>s'. push e s x = Some (1, s') \<and> refuses e \<and> rep s' xs)"
    and pop_first: "rep s (x # xs) \<Longrightarrow> \<exists>s'. pop s = Some (Some x, s') \<and> rep s' xs"
    and pop_empty: "rep s [] \<Longrightarrow> \<exists>s'. pop s = Some (None, s') \<and> rep s' []"
begin

lemma store_run_fifo:
  assumes env: "\<And>k s. answers_ok s (env k s)"
  shows "rep s xs \<Longrightarrow> \<exists>as s' rest. store_run push pop env s ops = Some (as, s') \<and>
    queue_replay ops as xs = Some rest \<and> rep s' rest \<and>
    (Full \<in> set as \<longrightarrow> (\<exists>k s. refuses (env k s)))"
proof (induction ops arbitrary: s xs)
  case Nil
  then show ?case by auto
next
  case (Cons c ops)
  show ?case
  proof (cases c)
    case (Push v)
    from push_law [OF Cons.prems env [where k = "length ops" and s = s], of v]
    show ?thesis
    proof (elim disjE exE conjE)
      fix s' assume "push (env (length ops) s) s v = Some (0, s')" "rep s' (xs @ [v])"
      with Cons.IH [of s' "xs @ [v]"] Push show ?thesis by fastforce
    next
      fix s' assume "push (env (length ops) s) s v = Some (1, s')" "rep s' xs"
        "refuses (env (length ops) s)"
      with Cons.IH [of s' xs] Push show ?thesis by fastforce
    qed
  next
    case Pop
    show ?thesis
    proof (cases xs)
      case Nil
      with pop_empty [of s] Cons.prems obtain s' where "pop s = Some (None, s')" "rep s' []"
        by blast
      with Cons.IH [of s' "[]"] Pop Nil show ?thesis by fastforce
    next
      case (Cons x ys)
      with pop_first [of s x ys] Cons.prems obtain s'
        where "pop s = Some (Some x, s')" "rep s' ys" by blast
      with local.Cons.IH [of s' ys] Pop Cons show ?thesis by fastforce
    qed
  qed
qed

end

section \<open>The lists in the heap\<close>

fun item_path :: "item_heap \<Rightarrow> ptr \<Rightarrow> ptr list \<Rightarrow> bool" where
  "item_path h p [] \<longleftrightarrow> p = 0"
| "item_path h p (x # xs) \<longleftrightarrow> p = x \<and> x \<noteq> 0 \<and>
     (\<exists>it n. h x = Some it \<and> li_next it = Some n \<and> item_path h n xs)"

definition holds :: "item_heap \<Rightarrow> ptr \<Rightarrow> logmessage \<Rightarrow> bool" where
  "holds h a m \<longleftrightarrow> (\<exists>it. h a = Some it \<and> li_msg it = Some m)"

definition last_ptr :: "ptr list \<Rightarrow> ptr" where
  "last_ptr xs = (if xs = [] then 0 else last xs)"

definition log_cells :: "log_state \<Rightarrow> ptr list \<Rightarrow> ptr list \<Rightarrow> logmessage list \<Rightarrow> bool" where
  "log_cells s as fs ms \<longleftrightarrow> (case s of (h, q) \<Rightarrow>
     \<not> lq_lock q \<and> item_path h (lq_head q) as \<and> item_path h (lq_freelist q) fs \<and>
     distinct (as @ fs) \<and> dom h = set (as @ fs) \<and>
     lq_tail q = last_ptr as \<and> list_all2 (holds h) as ms)"

definition log_rep :: "log_state \<Rightarrow> logmessage list \<Rightarrow> bool" where
  "log_rep s ms \<longleftrightarrow> (\<exists>as fs. log_cells s as fs ms)"

lemma item_path_frame:
  "x \<notin> set xs \<Longrightarrow> item_path (h(x := v)) p xs = item_path h p xs"
  by (induction xs arbitrary: p) auto

lemma holds_frame:
  "x \<notin> set as \<Longrightarrow> list_all2 (holds (h(x := v))) as ms = list_all2 (holds h) as ms"
  by (intro list.rel_cong) (auto simp: holds_def)

lemma item_path_hd: "item_path h p xs \<Longrightarrow> (p = 0) = (xs = [])"
  by (cases xs) auto

lemma item_path_nonnull: "item_path h p xs \<Longrightarrow> 0 \<notin> set xs"
  by (induction xs arbitrary: p) auto

text \<open>Linking one node behind the last one.\<close>

lemma item_path_snoc:
  "item_path h p xs \<Longrightarrow> xs \<noteq> [] \<Longrightarrow> distinct xs \<Longrightarrow> x \<notin> set xs \<Longrightarrow> x \<noteq> 0 \<Longrightarrow>
   h (last xs) = Some it \<Longrightarrow> h' = h(last xs \<mapsto> it\<lparr>li_next := Some x\<rparr>) \<Longrightarrow>
   h' x = Some itx \<Longrightarrow> li_next itx = Some 0 \<Longrightarrow> item_path h' p (xs @ [x])"
proof (induction xs arbitrary: p)
  case (Cons y ys)
  show ?case
  proof (cases ys)
    case Nil
    with Cons.prems show ?thesis by auto
  next
    case (Cons z zs)
    with Cons.prems have ne: "y \<noteq> last ys" by auto
    from Cons.prems obtain ity n where y: "p = y" "y \<noteq> 0" "h y = Some ity" "li_next ity = Some n"
      "item_path h n ys" by auto
    have "item_path h' n (ys @ [x])"
      using Cons.IH [OF y(5)] Cons.prems Cons by simp
    moreover have "ys \<noteq> []" using Cons by simp
    ultimately show ?thesis using y ne Cons.prems(7) by simp
  qed
qed simp

definition link_last :: "item_heap \<Rightarrow> ptr list \<Rightarrow> ptr \<Rightarrow> log_item \<Rightarrow> item_heap" where
  "link_last h as x it =
     (if as = [] then h
      else h(last as \<mapsto> (the (h (last as)))\<lparr>li_next := Some x\<rparr>))(x \<mapsto> it)"

lemma link_last_cells:
  assumes "item_path h p as" and "item_path h f fs" and "distinct (as @ x # fs)" and "x \<noteq> 0"
    and "dom h = set (as @ x # fs)" and "list_all2 (holds h) as ms"
    and "li_next it = Some 0" and "li_msg it = Some m"
  shows "item_path (link_last h as x it) (if as = [] then x else p) (as @ [x])"
    and "item_path (link_last h as x it) f fs"
    and "dom (link_last h as x it) = set ((as @ [x]) @ fs)"
    and "list_all2 (holds (link_last h as x it)) (as @ [x]) (ms @ [m])"
proof -
  let ?h = "link_last h as x it"
  have x: "x \<notin> set as" "x \<notin> set fs" using assms(3) by auto
  obtain itl where l: "as \<noteq> [] \<Longrightarrow> h (last as) = Some itl"
    using assms(5) last_in_set [of as] by (metis UnCI domD set_append)
  show "item_path ?h (if as = [] then x else p) (as @ [x])"
  proof (cases "as = []")
    case False
    have lx: "last as \<noteq> x" using x(1) last_in_set [OF False] by auto
    have upd: "?h = (h(x \<mapsto> it))(last as \<mapsto> itl\<lparr>li_next := Some x\<rparr>)"
      using lx False l by (simp add: link_last_def fun_upd_def fun_eq_iff)
    have "item_path (h(x \<mapsto> it)) p as" using assms(1) x by (simp add: item_path_frame)
    from item_path_snoc [OF this False _ x(1) assms(4) _ upd, of it] show ?thesis
      using False assms(3,7) l lx by (simp add: upd)
  qed (use assms(4,7) in \<open>simp add: link_last_def\<close>)
  have lf: "last as \<notin> set fs" if "as \<noteq> []"
    using assms(3) last_in_set [OF that] by auto
  show "item_path ?h f fs"
    using assms(2) x lf by (auto simp: link_last_def item_path_frame)
  show "dom ?h = set ((as @ [x]) @ fs)"
    using assms(5) last_in_set [of as] by (auto simp: link_last_def)
  have "holds ?h a m'" if "a \<in> set as" "holds h a m'" for a m'
    using that x by (auto simp: link_last_def holds_def)
  then have "list_all2 (holds ?h) as ms"
    using assms(6) by (rule list.rel_mono_strong [rotated]) auto
  then show "list_all2 (holds ?h) (as @ [x]) (ms @ [m])"
    using assms(8) by (intro list_all2_appendI) (auto simp: holds_def link_last_def)
qed

text \<open>A push with the node \<open>x\<close> it was given, new or reused.\<close>

lemma log_cells_push:
  assumes cells: "\<not> lq_lock q" "item_path h' (lq_head q) as" "item_path h' (lq_freelist q') fs"
    "distinct (as @ x # fs)" "dom h' = set (as @ x # fs)" "lq_tail q = last_ptr as"
    "list_all2 (holds h') as ms" "x \<noteq> 0"
    and alloc: "alloc_item a h (q\<lparr>lq_lock := True\<rparr>) = Some (x, h', q')"
    and same: "q' = q\<lparr>lq_lock := True, lq_freelist := fl\<rparr>"
  shows "\<exists>s'. logqueue_push a (h, q) m = Some (0, s') \<and> log_cells s' (as @ [x]) fs (ms @ [m])"
proof -
  obtain itx where itx: "h' x = Some itx" using cells(5) by force
  let ?it = "itx\<lparr>li_next := Some 0, li_msg := Some m\<rparr>"
  let ?h = "link_last h' as x ?it"
  let ?q = "q\<lparr>lq_freelist := fl, lq_head := (if as = [] then x else lq_head q),
     lq_tail := x\<rparr>"
  have "logqueue_push a (h, q) m = Some (0, ?h, ?q)"
  proof (cases "as = []")
    case True
    then show ?thesis
      using cells(1,2,8) itx
      by (simp add: logqueue_push_def logqueue_lock_def logqueue_unlock_def alloc
        item_set_next_def item_set_msg_def item_read_def link_last_def same)
  next
    case False
    then have la: "last as \<in> set as" by simp
    then obtain itl where itl: "h' (last as) = Some itl" using cells(5) by force
    have "last as \<noteq> 0" using item_path_nonnull [OF cells(2)] la by auto
    moreover have "last as \<noteq> x" using cells(4) la by auto
    moreover have "lq_head q \<noteq> 0" using item_path_hd [OF cells(2)] False by simp
    ultimately show ?thesis
      using False cells(1,6,8) itx itl
      by (simp add: logqueue_push_def logqueue_lock_def logqueue_unlock_def alloc
        item_set_next_def item_set_msg_def item_read_def link_last_def same last_ptr_def)
  qed
  moreover have "log_cells (?h, ?q) (as @ [x]) fs (ms @ [m])"
    using link_last_cells [OF cells(2,3,4,8,5,7), of ?it m] cells(1,4) same
    by (auto simp: log_cells_def last_ptr_def)
  ultimately show ?thesis by blast
qed

lemma log_repI: "log_cells s as fs ms \<Longrightarrow> log_rep s ms"
  by (auto simp: log_rep_def)

lemma log_rep_push:
  assumes "log_rep (h, q) ms" and "malloc_answers h a"
  shows "(\<exists>s'. logqueue_push a (h, q) m = Some (0, s') \<and> log_rep s' (ms @ [m])) \<or>
         (\<exists>s'. logqueue_push a (h, q) m = Some (1, s') \<and> a = 0 \<and> log_rep s' ms)"
proof -
  from assms(1) obtain as fs where c: "log_cells (h, q) as fs ms"
    by (auto simp: log_rep_def)
  then have q: "\<not> lq_lock q" "item_path h (lq_head q) as" "item_path h (lq_freelist q) fs"
    "distinct (as @ fs)" "dom h = set (as @ fs)" "lq_tail q = last_ptr as"
    "list_all2 (holds h) as ms"
    by (auto simp: log_cells_def)
  show ?thesis
  proof (cases fs)
    case (Cons x ys)
    with q(3) obtain it n where x: "lq_freelist q = x" "x \<noteq> 0" "h x = Some it"
      "li_next it = Some n" "item_path h n ys" by auto
    have "alloc_item a h (q\<lparr>lq_lock := True\<rparr>) = Some (x, h, q\<lparr>lq_lock := True, lq_freelist := n\<rparr>)"
      using x by (simp add: alloc_item_def item_next_def item_read_def)
    from log_cells_push [OF q(1,2) _ _ _ q(6,7) x(2) this, where fs = ys and fl = n and m = m]
    show ?thesis using q(4,5) x(5) Cons by (auto intro: log_repI)
  next
    case Nil
    with q(3) have free: "lq_freelist q = 0" by simp
    show ?thesis
    proof (cases "a = 0")
      case True
      have "logqueue_push a (h, q) m = Some (1, h, q)"
        using q(1) free True
        by (simp add: logqueue_push_def logqueue_lock_def logqueue_unlock_def alloc_item_def item_malloc_def)
      with assms(1) True show ?thesis by blast
    next
      case False
      let ?h = "item_malloc h a"
      have a: "a \<notin> set as" using assms(2) False q(5) by (auto simp: malloc_answers_def domIff)
      have "alloc_item a h (q\<lparr>lq_lock := True\<rparr>) = Some (a, ?h, q\<lparr>lq_lock := True, lq_freelist := 0\<rparr>)"
        using free by (simp add: alloc_item_def)
      from log_cells_push [OF q(1) _ _ _ _ q(6) _ False this, where fs = "[]" and ms = ms and fl = 0 and m = m]
      show ?thesis using a q(2,4,5,7) Nil False
        by (auto simp: item_malloc_def item_path_frame holds_frame intro: log_repI)
    qed
  qed
qed

text \<open>A pop moves the first node to the head of the free list.\<close>

lemma log_rep_pop:
  assumes "log_rep (h, q) (m # ms)"
  shows "\<exists>s'. logqueue_pop (h, q) = Some (Some m, s') \<and> log_rep s' ms"
proof -
  from assms obtain x as fs where c: "log_cells (h, q) (x # as) fs (m # ms)"
    by (auto simp: log_rep_def log_cells_def list_all2_Cons2)
  then obtain it n where x: "lq_head q = x" "x \<noteq> 0" "h x = Some it" "li_next it = Some n"
    "item_path h n as" "li_msg it = Some m"
    by (auto simp: log_cells_def holds_def)
  have q: "\<not> lq_lock q" "item_path h (lq_freelist q) fs" "distinct (x # as @ fs)"
    "dom h = set (x # as @ fs)" "lq_tail q = last_ptr (x # as)" "list_all2 (holds h) as ms"
    using c by (auto simp: log_cells_def)
  let ?h = "h(x \<mapsto> it\<lparr>li_next := Some (lq_freelist q)\<rparr>)"
  let ?q = "q\<lparr>lq_head := n, lq_tail := (if n = 0 then 0 else lq_tail q), lq_freelist := x\<rparr>"
  have "logqueue_pop (h, q) = Some (Some m, ?h, ?q)"
    using x q(1)
    by (simp add: logqueue_pop_def logqueue_lock_def logqueue_unlock_def item_next_def item_read_def
      item_set_next_def Let_def)
  moreover have "log_cells (?h, ?q) as (x # fs) ms"
    using q x(2,5) item_path_hd [OF x(5)]
    by (auto simp: log_cells_def item_path_frame holds_frame last_ptr_def)
  ultimately show ?thesis by (blast intro: log_repI)
qed

lemma log_rep_pop_empty:
  assumes "log_rep (h, q) []"
  shows "logqueue_pop (h, q) = Some (None, h, q)"
  using assms
  by (auto simp: log_rep_def log_cells_def logqueue_pop_def logqueue_lock_def logqueue_unlock_def)

text \<open>The queue is a log store; the environment's answer to a push is what \<open>malloc\<close> returns.\<close>

interpretation lq: log_store log_rep "\<lambda>s a. malloc_answers (fst s) a" "\<lambda>a. a = 0"
    logqueue_push logqueue_pop
proof unfold_locales
  fix s :: log_state and xs e x
  assume "log_rep s xs" and "malloc_answers (fst s) e"
  then show "(\<exists>s'. logqueue_push e s x = Some (0, s') \<and> log_rep s' (xs @ [x])) \<or>
      (\<exists>s'. logqueue_push e s x = Some (1, s') \<and> e = 0 \<and> log_rep s' xs)"
    using log_rep_push [of "fst s" "snd s" xs e x] by simp
next
  fix s :: log_state and x xs
  assume "log_rep s (x # xs)"
  then show "\<exists>s'. logqueue_pop s = Some (Some x, s') \<and> log_rep s' xs"
    using log_rep_pop [of "fst s" "snd s" x xs] by simp
next
  fix s :: log_state
  assume "log_rep s []"
  then show "\<exists>s'. logqueue_pop s = Some (None, s') \<and> log_rep s' []"
    using log_rep_pop_empty [of "fst s" "snd s"] by (cases s) auto
qed

section \<open>Deletion\<close>

lemma free_items_path:
  "item_path h p xs \<Longrightarrow> distinct xs \<Longrightarrow> dom h = set xs \<Longrightarrow> free_items h p = Some Map.empty"
proof (induction xs arbitrary: h p)
  case Nil
  then show ?case by (simp add: free_items.simps)
next
  case (Cons x xs)
  then obtain it n where x: "p = x" "x \<noteq> 0" "h x = Some it" "li_next it = Some n"
    "item_path h n xs" by auto
  have "item_path (h(x := None)) n xs"
    using Cons.prems(2) x(5) item_path_frame [of x xs h None n] by simp
  moreover have "dom (h(x := None)) = set xs"
    using Cons.prems(2,3) by (subst dom_fun_upd) simp
  ultimately have "free_items (h(x := None)) n = Some Map.empty"
    using Cons.prems(2) by (simp only: Cons.IH distinct.simps)
  then show ?case
    using x by (subst free_items.simps) (simp add: item_next_def item_read_def item_free_def)
qed

lemma drain_rep:
  "log_rep s ms \<Longrightarrow> length ms < n \<Longrightarrow>
     \<exists>s'. drain n s = Some (map lm_msg ms, s') \<and> log_rep s' []"
proof (induction ms arbitrary: s n)
  case Nil
  then show ?case
    using log_rep_pop_empty [of "fst s" "snd s"] by (cases n) auto
next
  case (Cons m ms)
  then obtain k where n: "n = Suc k" "length ms < k" by (cases n) auto
  from log_rep_pop [of "fst s" "snd s" m ms] Cons.prems(1) obtain s1
    where p: "logqueue_pop s = Some (Some m, s1)" "log_rep s1 ms" by auto
  from Cons.IH [OF p(2) n(2)] p n show ?case by auto
qed

lemma delete_rep:
  assumes "log_rep s ms" and "length ms < n"
  shows "logqueue_delete n s = Some (map lm_msg ms, Map.empty)"
proof -
  from drain_rep [OF assms] obtain h q where d: "drain n s = Some (map lm_msg ms, h, q)"
    and r: "log_rep (h, q) []" by auto
  from r obtain fs where "\<not> lq_lock q" "item_path h (lq_freelist q) fs" "distinct fs"
    "dom h = set fs"
    by (auto simp: log_rep_def log_cells_def)
  with d show ?thesis by (simp add: logqueue_delete_def free_items_path)
qed

lemma log_rep_new:
  "logqueue_new got ok = Some (Some q) \<Longrightarrow> log_rep (Map.empty, q) []"
  by (auto simp: logqueue_new_def log_rep_def log_cells_def last_ptr_def split: if_splits)

text \<open>
  C31: the log queue over its two linked lists is a first-in first-out queue. Starting from a
  new queue, every sequence of pushes and pops, whatever addresses \<open>malloc\<close> answers and
  whenever it fails, runs to its end: no NULL or freed node is followed and no field is read
  before it is written. The answers are those of a plain list, a push is refused only when
  \<open>malloc\<close> fails, and deleting the queue afterwards releases the payloads of exactly the
  messages that are still queued, in order, and every node of both lists exactly once.
\<close>

theorem log_queue_fifo:
  assumes "logqueue_new got ok = Some (Some q)"
    and "\<And>k s. malloc_answers (fst s) (mal k s)"
  shows "\<exists>as s rest.
    store_run logqueue_push logqueue_pop mal (Map.empty, q) ops = Some (as, s) \<and>
    queue_replay ops as [] = Some rest \<and>
    (Full \<in> set as \<longrightarrow> (\<exists>k s. mal k s = 0)) \<and>
    logqueue_delete (Suc (length rest)) s = Some (map lm_msg rest, Map.empty)"
  using lq.store_run_fifo [of mal "(Map.empty, q)" "[]" ops, OF assms(2) log_rep_new [OF assms(1)]]
    delete_rep by fastforce

text \<open>
  One node at the address 8 is all the memory there is: the second message waits in it, after it
  has carried the first one, and the third is refused.
\<close>

definition one_node :: "nat \<Rightarrow> log_state \<Rightarrow> ptr" where
  "one_node k s = (if fst s 8 = None then 8 else 0)"

definition sample_log :: "u32 \<Rightarrow> ptr \<Rightarrow> logmessage" where
  "sample_log i p = \<lparr>lm_timestamp = 1, lm_id = i, lm_sz = 2, lm_msg = p\<rparr>"

theorem log_queue_fifo_witness:
  "let q = \<lparr>lq_freelist = 0, lq_head = 0, lq_tail = 0, lq_lock = False\<rparr>;
       ops = [Push (sample_log 3 64), Pop, Push (sample_log 4 72), Push (sample_log 4 80)]
   in \<exists>s. store_run logqueue_push logqueue_pop one_node (Map.empty, q) ops =
        Some ([Stored, Got (sample_log 3 64), Stored, Full], s) \<and>
      logqueue_delete 2 s = Some ([72], Map.empty)"
proof -
  let ?q = "\<lparr>lq_freelist = 0, lq_head = 0, lq_tail = 0, lq_lock = False\<rparr>"
  let ?ops = "[Push (sample_log 3 64), Pop, Push (sample_log 4 72), Push (sample_log 4 80)]"
  have "logqueue_new True True = Some (Some ?q)" by (simp add: logqueue_new_def)
  moreover have "malloc_answers (fst s) (one_node k s)" for k s
    by (simp add: malloc_answers_def one_node_def)
  ultimately obtain as s rest
    where run: "store_run logqueue_push logqueue_pop one_node (Map.empty, ?q) ?ops = Some (as, s)"
    and rest: "queue_replay ?ops as [] = Some rest"
      "logqueue_delete (Suc (length rest)) s = Some (map lm_msg rest, Map.empty)"
    using log_queue_fifo [of True True ?q one_node ?ops] by blast
  have "as = [Stored, Got (sample_log 3 64), Stored, Full]"
    using run
    by (simp add: logqueue_push_def logqueue_pop_def logqueue_lock_def logqueue_unlock_def
      alloc_item_def item_malloc_def item_next_def item_read_def item_set_next_def item_set_msg_def
      one_node_def Let_def)
  moreover from this rest have "rest = [sample_log 4 72]" by simp
  ultimately have "\<exists>s. store_run logqueue_push logqueue_pop one_node (Map.empty, ?q) ?ops =
        Some ([Stored, Got (sample_log 3 64), Stored, Full], s) \<and>
      logqueue_delete 2 s = Some ([72], Map.empty)"
    using run rest(2) by (auto simp: sample_log_def numeral_2_eq_2 simp del: store_run.simps)
  then show ?thesis by (simp only: Let_def)
qed

end
