(* ===== verification/Api.thy ===== *)
theory Api
  imports Boot ServiceMem Logqueue TimerSpec
begin

text \<open>
  The functions \<open>src/ltask.c\<close> gives to Lua: the module \<open>ltask\<close> of every service
  (\<open>getS\<close> to \<open>ltask_eventreset\<close>), \<open>ltask.root\<close> (\<open>ltask_initservice\<close>, \<open>ltask_closeservice\<close>) and
  what is left of \<open>ltask.bootstrap\<close> (\<open>ltask_init_timer\<close>, \<open>ltask_init_root\<close>, \<open>ltask_boot_pushlog\<close>).

  \<open>runtime\<close> adds to \<^typ>\<open>ltask\<close> its fields \<open>timer\<close> and \<open>lqueue\<close>, and the ledger of the
  descriptors given to \<open>closesocket\<close>. A function gets the id of the calling service (the
  \<open>struct service_ud\<close> of \<open>getS\<close>) and its Lua arguments. It returns with Lua values, or raises a
  Lua error (\<^term>\<open>Inl\<close>), which leaves the state as it is at that point; \<^term>\<open>None\<close> is undefined
  behaviour. What the environment answers (\<open>malloc\<close> for a log item, the clock, the sockets, weak
  compare-and-swaps) comes in arguments of its own.
\<close>

section \<open>Lua values and arguments\<close>

text \<open>
  A value keeps what the functions look at. \<open>LStr\<close> and \<open>LFloat\<close> carry the integer the value
  converts to, if it does; \<open>LOther\<close> is a value of any other type. \<open>LTable xs fs\<close> is a table with the sequence \<open>xs\<close> of integers and the
  named integers \<open>fs\<close>, \<open>LQuot a b\<close> the float \<open>(double)a / b\<close>.
\<close>

type_synonym i64 = "64 word"

datatype stack_value =
    LNil
  | LBool bool
  | LInt i64
  | LQuot u64 u64
  | LPtr ptr
  | LStr string "i64 option"
  | LTable "i64 list" "(string \<times> i64) list"
  | LFloat "i64 option"
  | LOther

record timer_event =
  te_session :: session_t
  te_id :: service_id

record runtime =
  rt_task :: ltask
  rt_timer :: "timer_event timer option"
  rt_log :: log_state
  rt_closed :: "int list"

type_synonym answer = "((string + stack_value list) \<times> runtime) option"

definition lua_arg :: "stack_value list \<Rightarrow> nat \<Rightarrow> stack_value option" where
  "lua_arg L n = (if 1 \<le> n \<and> n \<le> length L then Some (L ! (n - 1)) else None)"

definition luaL_checkinteger :: "stack_value list \<Rightarrow> nat \<Rightarrow> string + i64" where
  "luaL_checkinteger L n =
     (case lua_arg L n of
        Some (LInt v) \<Rightarrow> Inr v
      | Some (LStr _ (Some v)) \<Rightarrow> Inr v
      | Some (LFloat (Some v)) \<Rightarrow> Inr v
      | _ \<Rightarrow> Inl ''integer expected'')"

definition lua_isnoneornil :: "stack_value list \<Rightarrow> nat \<Rightarrow> bool" where
  "lua_isnoneornil L n \<longleftrightarrow> lua_arg L n \<in> {None, Some LNil}"

definition luaL_optinteger :: "stack_value list \<Rightarrow> nat \<Rightarrow> i64 \<Rightarrow> string + i64" where
  "luaL_optinteger L n d = (if lua_isnoneornil L n then Inr d else luaL_checkinteger L n)"

definition luaL_checkpointer :: "stack_value list \<Rightarrow> nat \<Rightarrow> string + ptr" where
  "luaL_checkpointer L n =
     (case lua_arg L n of Some (LPtr p) \<Rightarrow> Inr p | _ \<Rightarrow> Inl ''light userdata expected'')"

text \<open>The conversion \<open>(int)\<close> of a Lua integer.\<close>

definition c_int :: "i64 \<Rightarrow> int" where
  "c_int v = sint (ucast v :: u32)"

text \<open>Raising an error, returning values, and going on with an argument that was checked.\<close>

definition raise :: "string \<Rightarrow> runtime \<Rightarrow> answer" where
  "raise msg rt = Some (Inl msg, rt)"

definition give :: "stack_value list \<Rightarrow> runtime \<Rightarrow> answer" where
  "give vs rt = Some (Inr vs, rt)"

definition with_arg :: "(string + 'a) \<Rightarrow> runtime \<Rightarrow> ('a \<Rightarrow> answer) \<Rightarrow> answer" where
  "with_arg x rt f = (case x of Inl msg \<Rightarrow> raise msg rt | Inr v \<Rightarrow> f v)"

text \<open>The service pool, through the task.\<close>

definition rt_pool :: "runtime \<Rightarrow> service_pool" where
  "rt_pool rt = t_services (rt_task rt)"

definition rt_set_pool :: "runtime \<Rightarrow> service_pool \<Rightarrow> runtime" where
  "rt_set_pool rt P = rt\<lparr>rt_task := (rt_task rt)\<lparr>t_services := P\<rparr>\<rparr>"

definition rt_delete_message :: "runtime \<Rightarrow> message option \<Rightarrow> runtime" where
  "rt_delete_message rt m = rt_set_pool rt ((rt_pool rt)\<lparr>p_freed := message_delete m (p_freed (rt_pool rt))\<rparr>)"

section \<open>Messages\<close>

definition send_args :: "stack_value list \<Rightarrow> service_id \<Rightarrow> string + message" where
  "send_args L i =
     (case luaL_checkinteger L 1 of Inl e \<Rightarrow> Inl e | Inr to \<Rightarrow>
     (case luaL_checkinteger L 2 of Inl e \<Rightarrow> Inl e | Inr session \<Rightarrow>
     (case luaL_checkinteger L 3 of Inl e \<Rightarrow> Inl e | Inr type \<Rightarrow>
     (let m = \<lparr>m_from = i, m_to = ucast to, m_session = ucast session, m_type = c_int type,
               m_msg = 0, m_sz = 0\<rparr>
      in if lua_isnoneornil L 4 then Inr m
         else (case luaL_checkpointer L 4 of Inl e \<Rightarrow> Inl e | Inr p \<Rightarrow>
              (case luaL_checkinteger L 5 of Inl e \<Rightarrow> Inl e | Inr sz \<Rightarrow>
                 Inr (m\<lparr>m_msg := p, m_sz := sz\<rparr>)))))))"

definition gen_send_message ::
  "stack_value list \<Rightarrow> service_id \<Rightarrow> runtime \<Rightarrow> string + (message option \<times> runtime)" where
  "gen_send_message L i rt =
     (case send_args L i of
        Inl e \<Rightarrow> Inl e
      | Inr m \<Rightarrow>
          (case message_new (p_malloc (rt_pool rt)) m of (msg, mem) \<Rightarrow>
             Inr (msg, rt_set_pool rt ((rt_pool rt)\<lparr>p_malloc := mem\<rparr>))))"

definition lsend_message :: "bool \<Rightarrow> service_id \<Rightarrow> stack_value list \<Rightarrow> runtime \<Rightarrow> answer" where
  "lsend_message yieldable i L rt =
     with_arg (gen_send_message L i rt) rt (\<lambda>(msg, rt).
       if \<not> yieldable
       then raise ''Can't send message in none-yieldable context'' (rt_delete_message rt msg)
       else (case service_send_message (rt_pool rt) i msg of (r, P) \<Rightarrow>
         let rt = rt_set_pool rt P in
         if r \<noteq> 0 then raise ''Can't send message'' (rt_delete_message rt msg)
         else give [] rt))"

text \<open>The payload of a message that is handed to Lua is not released with the message.\<close>

definition without_payload :: "message \<Rightarrow> message" where
  "without_payload m = (if m_msg m \<noteq> 0 then m\<lparr>m_msg := 0, m_sz := 0\<rparr> else m)"

definition payload_values :: "message \<Rightarrow> stack_value list" where
  "payload_values m = (if m_msg m \<noteq> 0 then [LPtr (m_msg m), LInt (m_sz m)] else [])"

definition lrecv_message :: "service_id \<Rightarrow> runtime \<Rightarrow> answer" where
  "lrecv_message i rt = do {
     (m, P) \<leftarrow> service_pop_message (rt_pool rt) i;
     let rt = rt_set_pool rt P;
     (case m of
        None \<Rightarrow> give [] rt
      | Some m \<Rightarrow>
          give ([LInt (ucast (m_from m)), LInt (ucast (m_session m)), LInt (word_of_int (m_type m))]
                  @ payload_values m)
               (rt_delete_message rt (Some (without_payload m)))) }"

definition lmessage_receipt :: "service_id \<Rightarrow> runtime \<Rightarrow> answer" where
  "lmessage_receipt i rt =
     (case service_read_receipt (rt_pool rt) i of (m, receipt, P) \<Rightarrow>
        let rt = rt_set_pool rt P in
        if receipt = MESSAGE_RECEIPT_NONE then raise ''No receipt'' rt
        else let r = LInt (word_of_int receipt) in
          (case m of
             None \<Rightarrow> give [r] rt
           | Some m \<Rightarrow>
               if receipt = MESSAGE_RECEIPT_RESPONCE
               then give [r, LInt (ucast (m_to m))] (rt_delete_message rt (Some m))
               else give (r # payload_values m) (rt_delete_message rt (Some (without_payload m)))))"

section \<open>The service itself\<close>

definition lself :: "service_id \<Rightarrow> runtime \<Rightarrow> answer" where
  "lself i rt = give [LInt (ucast i)] rt"

definition lworker_id :: "service_id \<Rightarrow> runtime \<Rightarrow> answer" where
  "lworker_id i rt = do {
     worker \<leftarrow> get_worker_id (rt_task rt) i;
     if worker \<ge> 0 then give [LInt (word_of_int worker)] rt else give [] rt }"

definition lworker_bind :: "service_id \<Rightarrow> stack_value list \<Rightarrow> runtime \<Rightarrow> answer" where
  "lworker_bind i L rt =
     (if lua_isnoneornil L 1
      then give [] (rt_set_pool rt (service_binding_set (rt_pool rt) i (-1)))
      else with_arg (luaL_checkinteger L 1) rt (\<lambda>v.
        let worker = c_int v in
        if worker < 0 \<or> worker \<ge> c_worker (t_config (rt_task rt)) then raise ''Invalid worker id'' rt
        else give [] (rt_set_pool rt (service_binding_set (rt_pool rt) i worker))))"

definition ltask_label :: "service_id \<Rightarrow> runtime \<Rightarrow> answer" where
  "ltask_label i rt = do {
     label \<leftarrow> service_getlabel (rt_pool rt) i;
     give [LStr label None] rt }"

definition ltask_touch_service :: "stack_value list \<Rightarrow> runtime \<Rightarrow> answer" where
  "ltask_touch_service L rt =
     with_arg (luaL_checkinteger L 1) rt (\<lambda>v.
       let to = word_of_int (c_int v);
           sockevent_id = service_sockevent_get (rt_pool rt) to
       in if sockevent_id \<ge> 0
          then do {
            t \<leftarrow> trigger_event (rt_task rt) sockevent_id;
            give [LBool True] (rt\<lparr>rt_task := t\<rparr>) }
          else give [] rt)"

definition ltask_memlimit :: "service_id \<Rightarrow> stack_value list \<Rightarrow> runtime \<Rightarrow> answer" where
  "ltask_memlimit i L rt =
     with_arg (luaL_checkinteger L 1) rt (\<lambda>limit. do {
       (last_limit, P) \<leftarrow> service_memlimit (rt_pool rt) i limit;
       give [LInt last_limit] (rt_set_pool rt P) })"

text \<open>The types counted, with the names \<open>lua_typename\<close> gives them.\<close>

definition counted_types :: "(string \<times> int) list" where
  "counted_types = [(''string'', 4), (''table'', 5), (''function'', 6), (''userdata'', 7), (''thread'', 8)]"

fun count_fields :: "service_pool \<Rightarrow> service_id \<Rightarrow> (string \<times> int) list \<Rightarrow> (string \<times> i64) list option" where
  "count_fields P i [] = Some []"
| "count_fields P i ((name, type) # ts) = do {
     c \<leftarrow> service_memcount P i type;
     fs \<leftarrow> count_fields P i ts;
     Some ((name, c) # fs) }"

definition set_field :: "string \<times> i64 \<Rightarrow> (string \<times> i64) list \<Rightarrow> (string \<times> i64) list" where
  "set_field f fs = f # filter (\<lambda>(name, v). name \<noteq> fst f) fs"

text \<open>
  Without a table the stack is cleared and a new one made; with one the fields are set there,
  and what is returned is the top of the stack, the last argument.
\<close>

definition ltask_memcount :: "service_id \<Rightarrow> stack_value list \<Rightarrow> runtime \<Rightarrow> answer" where
  "ltask_memcount i L rt = do {
     cs \<leftarrow> count_fields (rt_pool rt) i counted_types;
     (case L of
        LTable xs fs # vs \<Rightarrow>
          (if vs = [] then give [LTable xs (fold set_field cs fs)] rt else give [last vs] rt)
      | _ \<Rightarrow> give [LTable [] (fold set_field cs [])] rt) }"

section \<open>Time and the timer\<close>

definition ltask_init_timer :: "u64 \<Rightarrow> u64 \<Rightarrow> runtime \<Rightarrow> answer" where
  "ltask_init_timer walltime cp rt =
     (case rt_timer rt of
        Some _ \<Rightarrow> raise ''Timer can init only once'' rt
      | None \<Rightarrow> give [] (rt\<lparr>rt_timer := Some (timer_init walltime cp)\<rparr>))"

definition ltask_now :: "runtime \<Rightarrow> answer" where
  "ltask_now rt =
     (case rt_timer rt of
        None \<Rightarrow> raise ''Init timer before bootstrap'' rt
      | Some TI \<Rightarrow>
          let start = timer_starttime TI; now = timer_now TI
          in give [LInt (ucast start + now div 100), LInt (ucast start * 100 + now)] rt)"

text \<open>\<open>freq\<close> is the upvalue, \<open>systime_frequency()\<close>; \<open>ti\<close> and \<open>now\<close> are readings of the clock.\<close>

definition ltask_counter :: "u64 \<Rightarrow> u64 \<Rightarrow> runtime \<Rightarrow> answer" where
  "ltask_counter freq ti rt = give [LQuot ti freq] rt"

definition ltask_cpucost :: "u64 \<Rightarrow> u64 \<Rightarrow> service_id \<Rightarrow> runtime \<Rightarrow> answer" where
  "ltask_cpucost freq now i rt = give [LQuot (service_cpucost (rt_pool rt) i now) freq] rt"

definition ltask_timer_add :: "bool \<Rightarrow> service_id \<Rightarrow> stack_value list \<Rightarrow> runtime \<Rightarrow> answer" where
  "ltask_timer_add alloc i L rt =
     (case rt_timer rt of
        None \<Rightarrow> raise ''Init timer before bootstrap'' rt
      | Some t \<Rightarrow>
          with_arg (luaL_checkinteger L 1) rt (\<lambda>session.
          with_arg (luaL_checkinteger L 2) rt (\<lambda>ti.
            if sint ti < 0 \<or> sint ti \<noteq> c_int ti then raise ''Invalid timer'' rt
            else do {
              t \<leftarrow> timer_add alloc t \<lparr>te_session = ucast session, te_id = i\<rparr> (sint ti);
              give [] (rt\<lparr>rt_timer := Some t\<rparr>) })))"

text \<open>The integer a fired event is delivered as.\<close>

definition timer_callback :: "timer_event \<Rightarrow> i64" where
  "timer_callback event = push_bit 32 (ucast (te_session event)) OR ucast (te_id event)"

text \<open>
  \<open>lua_seti\<close> at \<open>1, 2, \<dots>\<close> on the caller's table, then the entries behind the last one are set
  to nil up to the old length.
\<close>

fun set_entries :: "nat \<Rightarrow> i64 list \<Rightarrow> i64 list \<Rightarrow> i64 list" where
  "set_entries n tab [] = take n tab"
| "set_entries n tab (v # vs) =
     set_entries (n + 1) (if n < length tab then tab[n := v] else tab @ [v]) vs"

text \<open>
  With no table to write to, \<open>lua_seti\<close> raises its error from inside the callback, in the middle of
  the update; that is not modelled (\<^term>\<open>None\<close>).
\<close>

definition ltask_timer_update ::
  "u64 \<Rightarrow> timer_event adds list \<Rightarrow> stack_value list \<Rightarrow> runtime \<Rightarrow> answer" where
  "ltask_timer_update cp script L rt =
     (case rt_timer rt of
        None \<Rightarrow> raise ''Init timer before bootstrap'' rt
      | Some t \<Rightarrow>
          (case L of
             LTable tab fs # _ \<Rightarrow> do {
               (t, events, _) \<leftarrow> timer_update cp script t;
               give [LTable (set_entries 0 tab (map timer_callback events)) fs] (rt\<lparr>rt_timer := Some t\<rparr>) }
           | _ \<Rightarrow> if length L > 1 then raise ''table expected'' rt else None))"

section \<open>Logs\<close>

text \<open>\<open>a\<close> is what \<open>malloc\<close> answers if the queue needs a new node.\<close>

definition pushlog :: "ptr \<Rightarrow> service_id \<Rightarrow> ptr \<Rightarrow> u32 \<Rightarrow> runtime \<Rightarrow> (int \<times> runtime) option" where
  "pushlog a i data sz rt = do {
     let msg = \<lparr>lm_timestamp = (case rt_timer rt of None \<Rightarrow> 0 | Some TI \<Rightarrow> timer_now TI),
                lm_id = i, lm_sz = sz, lm_msg = data\<rparr>;
     (r, q) \<leftarrow> logqueue_push a (rt_log rt) msg;
     Some (r, rt\<lparr>rt_log := q\<rparr>) }"

definition ltask_pushlog :: "ptr \<Rightarrow> service_id \<Rightarrow> stack_value list \<Rightarrow> runtime \<Rightarrow> answer" where
  "ltask_pushlog a i L rt =
     with_arg (luaL_checkpointer L 1) rt (\<lambda>data.
     with_arg (luaL_checkinteger L 2) rt (\<lambda>sz. do {
       (r, rt) \<leftarrow> pushlog a i data (ucast sz) rt;
       if r \<noteq> 0 then raise ''log error'' rt else give [] rt }))"

definition ltask_boot_pushlog :: "ptr \<Rightarrow> stack_value list \<Rightarrow> runtime \<Rightarrow> answer" where
  "ltask_boot_pushlog a L rt =
     with_arg (luaL_checkpointer L 1) rt (\<lambda>data.
     with_arg (luaL_checkinteger L 2) rt (\<lambda>sz. do {
       (r, rt) \<leftarrow> pushlog a SERVICE_ID_SYSTEM data (ucast sz) rt;
       if r \<noteq> 0 then raise ''log error'' rt else give [] rt }))"

text \<open>\<open>ltask_get_pushlog\<close> hands out the function \<open>pushlog\<close>, at \<open>f\<close>, and the task, at \<open>t\<close>.\<close>

definition ltask_get_pushlog :: "ptr \<Rightarrow> ptr \<Rightarrow> runtime \<Rightarrow> answer" where
  "ltask_get_pushlog f t rt = give [LPtr f, LPtr t] rt"

definition ltask_poplog :: "runtime \<Rightarrow> answer" where
  "ltask_poplog rt = do {
     let start = (case rt_timer rt of None \<Rightarrow> 0 | Some TI \<Rightarrow> ucast (timer_starttime TI) * 100);
     (msg, q) \<leftarrow> logqueue_pop (rt_log rt);
     let rt = rt\<lparr>rt_log := q\<rparr>;
     (case msg of
        None \<Rightarrow> give [] rt
      | Some m \<Rightarrow> give [LInt (lm_timestamp m + start), LInt (ucast (lm_id m)), LPtr (lm_msg m),
                       LInt (ucast (lm_sz m))] rt) }"

section \<open>The bootstrap module's arguments\<close>

text \<open>
  \<open>lpost_message\<close> takes a table: \<open>tab\<close> gives its values. A field must be a number, which
  \<open>lua_tointeger\<close> turns into 0 if it has no integer value.
\<close>

definition checkfield :: "(string \<Rightarrow> stack_value) \<Rightarrow> string \<Rightarrow> string + i64" where
  "checkfield tab key =
     (case tab key of
        LInt v \<Rightarrow> Inr v
      | LFloat (Some v) \<Rightarrow> Inr v
      | LFloat None \<Rightarrow> Inr 0
      | _ \<Rightarrow> Inl (''.'' @ key @ '' should be an integer''))"

definition post_args :: "(string \<Rightarrow> stack_value) \<Rightarrow> string + message" where
  "post_args tab =
     (case checkfield tab ''from'' of Inl e \<Rightarrow> Inl e | Inr from \<Rightarrow>
     (case checkfield tab ''to'' of Inl e \<Rightarrow> Inl e | Inr to \<Rightarrow>
     (case checkfield tab ''session'' of Inl e \<Rightarrow> Inl e | Inr session \<Rightarrow>
     (case checkfield tab ''type'' of Inl e \<Rightarrow> Inl e | Inr type \<Rightarrow>
     (let m = \<lparr>m_from = ucast from, m_to = ucast to, m_session = ucast session, m_type = c_int type,
               m_msg = 0, m_sz = 0\<rparr>
      in case tab ''message'' of
           LNil \<Rightarrow> Inr m
         | LPtr p \<Rightarrow> (case checkfield tab ''size'' of Inl e \<Rightarrow> Inl e | Inr sz \<Rightarrow> Inr (m\<lparr>m_msg := p, m_sz := sz\<rparr>))
         | _ \<Rightarrow> Inl ''.message should be a pointer'')))))"

definition lua_post_message :: "(string \<Rightarrow> stack_value) \<Rightarrow> runtime \<Rightarrow> answer" where
  "lua_post_message tab rt =
     with_arg (post_args tab) rt (\<lambda>m. do {
       (r, t) \<leftarrow> lpost_message (rt_task rt) m;
       let rt = rt\<lparr>rt_task := t\<rparr>;
       if r \<noteq> 0 then raise ''push message failed'' rt else give [] rt })"

definition luaL_checkstring :: "stack_value list \<Rightarrow> nat \<Rightarrow> string + string" where
  "luaL_checkstring L n =
     (case lua_arg L n of Some (LStr s _) \<Rightarrow> Inr s | _ \<Rightarrow> Inl ''string expected'')"

text \<open>The strings \<open>label\<close>, \<open>source\<close> and \<open>chunkname\<close> are the arguments 1 to 3; on failure the second
  value is the error message.\<close>

definition lua_newservice :: "vm_answers \<Rightarrow> stack_value list \<Rightarrow> runtime \<Rightarrow> answer" where
  "lua_newservice va L rt =
     with_arg (luaL_checkstring L 1) rt (\<lambda>label.
     with_arg (luaL_checkstring L 2) rt (\<lambda>source.
     with_arg (luaL_checkstring L 3) rt (\<lambda>chunkname.
     with_arg (luaL_optinteger L 4 0) rt (\<lambda>sid.
     with_arg (luaL_optinteger L 5 (-1)) rt (\<lambda>worker_id. do {
       (i, t) \<leftarrow> ltask_newservice (rt_task rt) label va (ucast sid) (c_int worker_id);
       let rt = rt\<lparr>rt_task := t\<rparr>;
       if i = 0 then give [LBool False, LOther] rt else give [LInt (ucast i)] rt })))))"

text \<open>\<open>external_send\<close> of \<open>Threads\<close> is the first value, at \<open>f\<close>, the queue, at \<open>q\<close>, the second.\<close>

definition ltask_external_sender :: "ptr \<Rightarrow> ptr \<Rightarrow> runtime \<Rightarrow> answer" where
  "ltask_external_sender f q rt =
     (if t_external_message (rt_task rt) = None then raise ''No external message queue'' rt
      else give [LPtr f, LPtr q] rt)"

section \<open>Socket events\<close>

text \<open>
  \<open>alloc_sockevent\<close>: the compare-and-swap is the weak one, \<open>fails i\<close> says it fails at \<open>i\<close> although
  the slot is free.
\<close>

fun alloc_sockevent_from :: "(int \<Rightarrow> bool) \<Rightarrow> int list \<Rightarrow> ltask \<Rightarrow> int \<times> ltask" where
  "alloc_sockevent_from fails [] t = (-1, t)"
| "alloc_sockevent_from fails (i # is) t =
     (case atomic_int_cas (fails i) (t_event_init t ! nat i) 0 1 of
        (True, v) \<Rightarrow> (i, t\<lparr>t_event_init := (t_event_init t)[nat i := v]\<rparr>)
      | (False, v) \<Rightarrow> alloc_sockevent_from fails is t)"

definition alloc_sockevent :: "(int \<Rightarrow> bool) \<Rightarrow> ltask \<Rightarrow> int \<times> ltask" where
  "alloc_sockevent fails t = alloc_sockevent_from fails (map int [0 ..< MAX_SOCKEVENT]) t"

text \<open>The writes through \<open>&task->event[index]\<close>.\<close>

definition rt_set_event :: "runtime \<Rightarrow> int \<Rightarrow> sockevent \<Rightarrow> int list \<Rightarrow> runtime" where
  "rt_set_event rt index e closed =
     rt\<lparr>rt_task := (rt_task rt)\<lparr>t_event := (t_event (rt_task rt))[nat index := e]\<rparr>, rt_closed := closed\<rparr>"

definition event_at :: "runtime \<Rightarrow> int \<Rightarrow> sockevent option" where
  "event_at rt index =
     (if 0 \<le> index \<and> nat index < length (t_event (rt_task rt)) then Some (t_event (rt_task rt) ! nat index) else None)"

text \<open>\<open>ltask_eventwait_\<close> on the event of a slot: whether \<open>recv\<close> got a byte.\<close>

definition ltask_eventwait :: "int \<Rightarrow> int \<Rightarrow> runtime \<Rightarrow> answer" where
  "ltask_eventwait index r rt = do {
     e \<leftarrow> event_at rt index;
     (case sockevent_wait r e of (r, e) \<Rightarrow> give [LBool (0 < r)] (rt_set_event rt index e (rt_closed rt))) }"

text \<open>The closure \<open>ltask_eventwait_\<close> over the event is \<^term>\<open>LOther\<close>.\<close>

definition ltask_eventinit :: "(int \<Rightarrow> bool) \<Rightarrow> open_answers \<Rightarrow> service_id \<Rightarrow> runtime \<Rightarrow> answer" where
  "ltask_eventinit fails os i rt =
     (if service_sockevent_get (rt_pool rt) i \<ge> 0 then raise ''Already init event'' rt
      else case alloc_sockevent fails (rt_task rt) of (index, t) \<Rightarrow>
        let rt = rt\<lparr>rt_task := t\<rparr> in
        if index < 0 then raise ''Too many sockevents'' rt
        else do {
          event \<leftarrow> event_at rt index;
          (case sockevent_open os event (rt_closed rt) of (r, event, closed) \<Rightarrow>
             let rt = rt_set_event rt index event closed in
             if r \<noteq> 0 then raise ''Create sockevent fail'' rt
             else give [LOther, LPtr (word_of_int (sockevent_fd event))]
                    (rt_set_pool rt (service_sockevent_init (rt_pool rt) i index))) })"

definition ltask_eventreset :: "open_answers \<Rightarrow> service_id \<Rightarrow> runtime \<Rightarrow> answer" where
  "ltask_eventreset os i rt =
     (let index = service_sockevent_get (rt_pool rt) i in
      if index < 0 then raise ''Init event first'' rt
      else do {
        tmp \<leftarrow> event_at rt index;
        (case sockevent_open os tmp (rt_closed rt) of (r, e, closed) \<Rightarrow>
           if r \<noteq> 0 then raise ''Reset sockevent fail'' (rt_set_event rt index tmp closed)
           else (case sockevent_close tmp closed of (_, closed) \<Rightarrow>
             give [LPtr (word_of_int (sockevent_fd e))] (rt_set_event rt index e closed))) })"

section \<open>Root\<close>

definition ltask_init_root :: "bool \<Rightarrow> stack_value list \<Rightarrow> runtime \<Rightarrow> answer" where
  "ltask_init_root require_ok L rt =
     with_arg (luaL_checkinteger L 1) rt (\<lambda>v.
       if (ucast v :: service_id) \<noteq> SERVICE_ID_ROOT then raise ''Id should be ROOT(1)'' rt
       else if service_requiref (rt_pool rt) (ucast v) require_ok \<noteq> 0
            then raise ''require ltask.root fail'' rt
            else give [] rt)"

text \<open>The strings \<open>label\<close>, \<open>source\<close> and \<open>chunkname\<close> are the arguments 2 to 4.\<close>

definition ltask_initservice :: "vm_answers \<Rightarrow> stack_value list \<Rightarrow> runtime \<Rightarrow> answer" where
  "ltask_initservice va L rt =
     with_arg (luaL_checkinteger L 1) rt (\<lambda>sid.
     with_arg (luaL_checkstring L 2) rt (\<lambda>label.
     with_arg (luaL_checkstring L 3) rt (\<lambda>source.
     with_arg (luaL_checkstring L 4) rt (\<lambda>chunkname.
     with_arg (luaL_optinteger L 5 (-1)) rt (\<lambda>worker_id. do {
       (r, t) \<leftarrow> newservice (rt_task rt) (ucast sid) label va (c_int worker_id);
       let rt = rt\<lparr>rt_task := t\<rparr>;
       if r \<noteq> 0 then give [LBool False, LOther] rt else give [LBool True] rt })))))"

text \<open>
  \<open>close_service_messages\<close>, on fuel: the table of the senders and sessions to report to, made
  when the first of them is found.
\<close>

definition report_entry :: "message \<Rightarrow> i64 list option \<Rightarrow> i64 list option" where
  "report_entry m report =
     (if m_type m = MESSAGE_REQUEST \<or> m_type m = MESSAGE_SYSTEM
      then Some ((case report of None \<Rightarrow> [] | Some xs \<Rightarrow> xs) @ [ucast (m_from m), ucast (m_session m)])
      else report)"

fun close_service_messages ::
  "nat \<Rightarrow> service_pool \<Rightarrow> service_id \<Rightarrow> i64 list option \<Rightarrow> (i64 list option \<times> service_pool) option" where
  "close_service_messages 0 P i report = None"
| "close_service_messages (Suc fuel) P i report = do {
     (m, P) \<leftarrow> service_pop_message P i;
     (case m of
        None \<Rightarrow> Some (report, P)
      | Some m \<Rightarrow>
          close_service_messages fuel (P\<lparr>p_freed := message_delete (Some m) (p_freed P)\<rparr>) i
            (report_entry m report)) }"

definition ltask_closeservice :: "nat \<Rightarrow> stack_value list \<Rightarrow> runtime \<Rightarrow> answer" where
  "ltask_closeservice fuel L rt =
     with_arg (luaL_checkinteger L 1) rt (\<lambda>v.
       let i = ucast v in
       if service_status_get (rt_pool rt) i \<noteq> SERVICE_STATUS_DEAD then raise ''Hang before close it'' rt
       else do {
         let sockevent_id = service_sockevent_get (rt_pool rt) i;
         rt \<leftarrow> (if sockevent_id \<ge> 0
                then do {
                  e \<leftarrow> event_at rt sockevent_id;
                  (case sockevent_close e (rt_closed rt) of (e, closed) \<Rightarrow>
                     let rt = rt_set_event rt sockevent_id e closed;
                         t = rt_task rt
                     in Some (rt\<lparr>rt_task := t\<lparr>t_event_init := (t_event_init t)[nat sockevent_id := 0]\<rparr>\<rparr>)) }
                else Some rt);
         (report, P) \<leftarrow> close_service_messages fuel (rt_pool rt) i None;
         P \<leftarrow> service_delete P i;
         give (case report of None \<Rightarrow> [] | Some xs \<Rightarrow> [LTable xs []]) (rt_set_pool rt P) })"

end
