(* ===== verification/ApiProps.thy ===== *)
theory ApiProps
  imports Api
begin

text \<open>
  What the functions of \<open>Api\<close> guarantee: closing a service settles everything it still holds, and
  a call from a running service is always defined, keeps the runtime well-formed and touches the
  service pool only as the threads' model lets Lua code do.
\<close>

section \<open>Closing a service\<close>

definition reported :: "message \<Rightarrow> bool" where
  "reported m \<longleftrightarrow> m_type m = MESSAGE_REQUEST \<or> m_type m = MESSAGE_SYSTEM"

definition report_of :: "message list \<Rightarrow> i64 list" where
  "report_of ms = concat (map (\<lambda>m. [ucast (m_from m), ucast (m_session m)]) (filter reported ms))"

lemma fold_report:
  "fold report_entry ms report =
     (if filter reported ms = [] then report
      else Some ((case report of None \<Rightarrow> [] | Some xs \<Rightarrow> xs) @ report_of ms))"
  by (induction ms arbitrary: report)
    (auto simp: report_entry_def reported_def report_of_def split: option.splits)

lemma close_messages_spec:
  "pool_wf P \<Longrightarrow> get_service P i = Some S \<Longrightarrow> s_msg S \<noteq> None \<Longrightarrow> length (inbox P i) < fuel \<Longrightarrow>
   \<exists>P' S'. close_service_messages fuel P i report = Some (fold report_entry (inbox P i) report, P')
     \<and> pool_wf P' \<and> inbox P' i = [] \<and> p_freed P' = rev (inbox P i) @ p_freed P \<and> p_closed P' = p_closed P
     \<and> get_service P' i = Some S' \<and> s_out S' = s_out S \<and> s_L S' = s_L S
     \<and> (\<forall>j. j \<noteq> i \<longrightarrow> get_service P' j = get_service P j)"
proof (induction fuel arbitrary: P S report)
  case (Suc fuel)
  from Suc.prems(3) obtain q where q: "s_msg S = Some q" by auto
  from pop_inbox [OF Suc.prems(1,2) q] obtain x P1 S1 where
    pop: "service_pop_message P i = Some (x, P1)" "inbox P i = opt_list x @ inbox P1 i"
      "x = None \<longrightarrow> inbox P i = []" "pool_wf P1" "p_freed P1 = p_freed P" "p_closed P1 = p_closed P"
      "get_service P1 i = Some S1" "s_msg S1 \<noteq> None"
      "S1 = S\<lparr>s_bounce := s_bounce S1, s_msg := s_msg S1\<rparr>"
      "\<forall>j. j \<noteq> i \<longrightarrow> get_service P1 j = get_service P j" by blast
  have S1: "s_out S1 = s_out S" "s_L S1 = s_L S" by (subst pop(9), simp)+
  show ?case
  proof (cases x)
    case None
    then show ?thesis using pop S1 by (auto simp: opt_list_def)
  next
    case (Some m)
    let ?P = "P1\<lparr>p_freed := message_delete (Some m) (p_freed P1)\<rparr>"
    have "inbox ?P i = inbox P1 i" by (simp add: inbox_def)
    with Suc.IH [of ?P S1 "report_entry m report"] Suc.prems(4) pop S1 Some show ?thesis
      by (auto simp: opt_list_def)
  qed
qed simp

lemma delete_empty_service:
  assumes wf: "pool_wf P" and S: "get_service P i = Some S" and empty: "inbox P i = []"
  shows "\<exists>P'. service_delete P i = Some P' \<and> p_freed P' = opt_list (s_out S) @ p_freed P
    \<and> p_closed P' = (if s_L S \<noteq> 0 then [s_L S] else []) @ p_closed P
    \<and> get_service P' i = None \<and> (\<forall>j. j \<noteq> i \<longrightarrow> get_service P' j = get_service P j)"
proof -
  from empty S have e: "s_bounce S = None" "mailbox_list (s_msg S) = []"
    by (auto simp: inbox_def opt_list_def split: option.splits)
  obtain P' where del: "service_delete P i = Some P'" using service_delete_spec [OF wf, of i] by blast
  then have "p_freed P' = opt_list (s_out S) @ p_freed P"
    "p_closed P' = (if s_L S \<noteq> 0 then [s_L S] else []) @ p_closed P"
    using S e mailbox_drain_all [OF get_service_wf(1) [OF wf S]]
    by (auto simp: service_delete_def free_service_def Let_def opt_list_def split: option.splits)
  moreover have "get_service P' j = (if j = i then None else get_service P j)" for j
    using service_delete_spec [OF wf, of i j] del by simp
  ultimately show ?thesis using del by simp
qed

text \<open>What happens to the socket event of a closed service, if it has one.\<close>

definition closed_event :: "int \<Rightarrow> runtime \<Rightarrow> runtime" where
  "closed_event n rt =
     (if n < 0 then rt
      else let e = sockevent_close (t_event (rt_task rt) ! nat n) (rt_closed rt)
           in rt\<lparr>rt_closed := snd e,
                   rt_task := (rt_task rt)\<lparr>t_event := (t_event (rt_task rt))[nat n := fst e],
                   t_event_init := (t_event_init (rt_task rt))[nat n := 0]\<rparr>\<rparr>)"

text \<open>
  C28: closing a dead service settles what it still holds. \<open>ltask_closeservice\<close> returns; it reports
  the sender and session of exactly the requests and system messages nobody has read, in the
  order of the inbox (and nothing if there is none); every unread message and the outgoing one are
  released once; the service is gone and no other one is touched; its Lua state, if still open,
  is closed, and so are both ends of its socket event, whose slot becomes free.
\<close>

theorem close_service_settles:
  assumes "pool_wf (rt_pool rt)" and "get_service (rt_pool rt) (ucast v) = Some S"
    and "s_status S = SERVICE_STATUS_DEAD" and "s_msg S \<noteq> None"
    and "s_sockevent_id S < int (length (t_event (rt_task rt)))"
    and "length (inbox (rt_pool rt) (ucast v)) < fuel"
  shows "\<exists>P. ltask_closeservice fuel [LInt v] rt =
      Some (Inr (let xs = report_of (inbox (rt_pool rt) (ucast v)) in if xs = [] then [] else [LTable xs []]),
            rt_set_pool (closed_event (s_sockevent_id S) rt) P)
    \<and> p_freed P = opt_list (s_out S) @ rev (inbox (rt_pool rt) (ucast v)) @ p_freed (rt_pool rt)
    \<and> p_closed P = (if s_L S \<noteq> 0 then [s_L S] else []) @ p_closed (rt_pool rt)
    \<and> get_service P (ucast v) = None
    \<and> (\<forall>j. j \<noteq> ucast v \<longrightarrow> get_service P j = get_service (rt_pool rt) j)"
proof -
  let ?i = "ucast v :: service_id" and ?P = "rt_pool rt"
  let ?rt = "closed_event (s_sockevent_id S) rt"
  have pool: "rt_pool ?rt = ?P" by (simp add: closed_event_def rt_pool_def Let_def)
  have ev: "service_sockevent_get ?P ?i = s_sockevent_id S" "service_status_get ?P ?i = SERVICE_STATUS_DEAD"
    using assms(2,3) by (simp_all add: service_sockevent_get_def service_status_get_def)
  from close_messages_spec [OF assms(1,2,4,6), of None] obtain P1 S1 where
    msgs: "close_service_messages fuel ?P ?i None = Some (fold report_entry (inbox ?P ?i) None, P1)"
      "pool_wf P1" "inbox P1 ?i = []" "p_freed P1 = rev (inbox ?P ?i) @ p_freed ?P"
      "p_closed P1 = p_closed ?P" "get_service P1 ?i = Some S1" "s_out S1 = s_out S" "s_L S1 = s_L S"
      "\<forall>j. j \<noteq> ?i \<longrightarrow> get_service P1 j = get_service ?P j" by blast
  from delete_empty_service [OF msgs(2,6,3)] obtain P2 where
    del: "service_delete P1 ?i = Some P2" "p_freed P2 = opt_list (s_out S1) @ p_freed P1"
      "p_closed P2 = (if s_L S1 \<noteq> 0 then [s_L S1] else []) @ p_closed P1"
      "get_service P2 ?i = None" "\<forall>j. j \<noteq> ?i \<longrightarrow> get_service P2 j = get_service P1 j" by blast
  have vals: "(case fold report_entry (inbox ?P ?i) None of None \<Rightarrow> [] | Some xs \<Rightarrow> [LTable xs []])
      = (let xs = report_of (inbox ?P ?i) in if xs = [] then [] else [LTable xs []])"
    by (auto simp: fold_report report_of_def Let_def filter_empty_conv)
  have "ltask_closeservice fuel [LInt v] rt =
      Some (Inr (let xs = report_of (inbox ?P ?i) in if xs = [] then [] else [LTable xs []]), rt_set_pool ?rt P2)"
  proof (cases "s_sockevent_id S < 0")
    case True
    then show ?thesis
      using ev msgs(1) del(1) vals
      by (simp add: ltask_closeservice_def luaL_checkinteger_def lua_arg_def with_arg_def closed_event_def
        give_def)
  next
    case False
    then have "event_at rt (s_sockevent_id S) = Some (t_event (rt_task rt) ! nat (s_sockevent_id S))"
      using assms(5) by (auto simp: event_at_def)
    then show ?thesis
      using False ev msgs(1) del(1) vals
      by (simp add: ltask_closeservice_def luaL_checkinteger_def lua_arg_def with_arg_def closed_event_def
        give_def rt_set_event_def Let_def rt_pool_def split: prod.splits)
  qed
  then show ?thesis using msgs del by auto
qed

section \<open>The calls of a running service\<close>

datatype api_call =
    Api_send bool "stack_value list"
  | Api_recv
  | Api_receipt
  | Api_self
  | Api_worker_id
  | Api_bind "stack_value list"
  | Api_label
  | Api_touch "stack_value list"
  | Api_memlimit "stack_value list"
  | Api_memcount "stack_value list"
  | Api_now
  | Api_counter u64 u64
  | Api_cpucost u64 u64
  | Api_timer_add "stack_value list"
  | Api_pushlog ptr "stack_value list"
  | Api_poplog
  | Api_eventinit "int \<Rightarrow> bool" open_answers
  | Api_eventreset open_answers

fun api_step :: "service_id \<Rightarrow> api_call \<Rightarrow> runtime \<Rightarrow> answer" where
  "api_step i (Api_send yieldable L) rt = lsend_message yieldable i L rt"
| "api_step i Api_recv rt = lrecv_message i rt"
| "api_step i Api_receipt rt = lmessage_receipt i rt"
| "api_step i Api_self rt = lself i rt"
| "api_step i Api_worker_id rt = lworker_id i rt"
| "api_step i (Api_bind L) rt = lworker_bind i L rt"
| "api_step i Api_label rt = ltask_label i rt"
| "api_step i (Api_touch L) rt = ltask_touch_service L rt"
| "api_step i (Api_memlimit L) rt = ltask_memlimit i L rt"
| "api_step i (Api_memcount L) rt = ltask_memcount i L rt"
| "api_step i Api_now rt = ltask_now rt"
| "api_step i (Api_counter freq ti) rt = ltask_counter freq ti rt"
| "api_step i (Api_cpucost freq now) rt = ltask_cpucost freq now i rt"
| "api_step i (Api_timer_add L) rt = ltask_timer_add True i L rt"
| "api_step i (Api_pushlog a L) rt = ltask_pushlog a i L rt"
| "api_step i Api_poplog rt = ltask_poplog rt"
| "api_step i (Api_eventinit fails os) rt = ltask_eventinit fails os i rt"
| "api_step i (Api_eventreset os) rt = ltask_eventreset os i rt"

text \<open>A service that \<open>newservice\<close> has finished with.\<close>

definition ready_service :: "service_pool \<Rightarrow> service_id \<Rightarrow> bool" where
  "ready_service P i = (case get_service P i of None \<Rightarrow> False
     | Some S \<Rightarrow> s_msg S \<noteq> None \<and> s_L S \<noteq> 0 \<and> s_stat S \<noteq> None \<and> s_label S \<noteq> None)"

definition rt_wf :: "runtime \<Rightarrow> bool" where
  "rt_wf rt \<longleftrightarrow> sched_wf (rt_task rt) \<and> pool_wf (rt_pool rt) \<and> p_malloc (rt_pool rt) = []
     \<and> length (t_event_init (rt_task rt)) = MAX_SOCKEVENT
     \<and> (\<exists>ms. log_rep (rt_log rt) ms)
     \<and> (case rt_timer rt of None \<Rightarrow> True | Some T \<Rightarrow> timer_free T)"

text \<open>The pool without the ledger and the memory statistics, which no pool call records.\<close>

definition strip_pool :: "service_pool \<Rightarrow> service_pool" where
  "strip_pool P = P\<lparr>p_freed := [], p_s := map (map_option (\<lambda>S. S\<lparr>s_stat := None\<rparr>)) (p_s P)\<rparr>"

definition api_effect :: "sys \<Rightarrow> service_id \<Rightarrow> runtime \<Rightarrow> runtime \<Rightarrow> bool" where
  "api_effect s i rt rt' \<longleftrightarrow> (\<exists>cs ins outs P. list_all (lua_call_ok s i) cs
     \<and> pool_run cs (rt_pool rt) = Some (ins, outs, P) \<and> strip_pool P = strip_pool (rt_pool rt'))"

definition api_sound :: "sys \<Rightarrow> service_id \<Rightarrow> runtime \<Rightarrow> answer \<Rightarrow> bool" where
  "api_sound s i rt a \<longleftrightarrow> (\<exists>r rt'. a = Some (r, rt') \<and> rt_wf rt' \<and> api_effect s i rt rt')"

lemma rt_simps [simp]:
  "rt_pool (rt_set_pool rt P) = P"
  "rt_set_pool rt (rt_pool rt) = rt"
  "rt_set_pool (rt_set_pool rt P) Q = rt_set_pool rt Q"
  "rt_task (rt_set_pool rt P) = (rt_task rt)\<lparr>t_services := P\<rparr>"
  "rt_timer (rt_set_pool rt P) = rt_timer rt"
  "rt_log (rt_set_pool rt P) = rt_log rt"
  "rt_closed (rt_set_pool rt P) = rt_closed rt"
  "rt_pool (rt\<lparr>rt_log := q\<rparr>) = rt_pool rt"
  "rt_pool (rt\<lparr>rt_timer := T\<rparr>) = rt_pool rt"
  by (simp_all add: rt_pool_def rt_set_pool_def)

lemma strip_freed [simp]: "strip_pool (P\<lparr>p_freed := f\<rparr>) = strip_pool P"
  by (simp add: strip_pool_def)

lemma strip_stat [simp]:
  assumes "pool_wf P"
  shows "strip_pool (upd_service P i (\<lambda>S. S\<lparr>s_stat := x\<rparr>)) = strip_pool P"
proof (cases "get_service P i")
  case (Some S)
  then have "p_s P ! service_slot P i = Some S" by (rule get_service_slot)
  moreover have "service_slot P i < length (p_s P)" by (rule service_slot_bound [OF assms])
  ultimately have "map (map_option (\<lambda>S. S\<lparr>s_stat := None\<rparr>)) ((p_s P)[service_slot P i := Some (S\<lparr>s_stat := x\<rparr>)])
      = map (map_option (\<lambda>S. S\<lparr>s_stat := None\<rparr>)) (p_s P)"
    by (intro nth_equalityI) (auto simp: nth_list_update)
  with Some show ?thesis by (simp add: strip_pool_def upd_service_def)
qed (simp add: upd_service_def)

lemma api_effect_none: "strip_pool (rt_pool rt') = strip_pool (rt_pool rt) \<Longrightarrow> api_effect s i rt rt'"
  by (auto simp: api_effect_def intro!: exI [of _ "[]"])

lemma api_effect_call:
  "lua_call_ok s i c \<Longrightarrow> pool_call_ok (rt_pool rt) c \<Longrightarrow> pool_step c (rt_pool rt) = Some (ins, outs, P) \<Longrightarrow>
     strip_pool P = strip_pool (rt_pool rt') \<Longrightarrow> api_effect s i rt rt'"
  by (auto simp: api_effect_def intro!: exI [of _ "[c]"])

lemma rt_wf_pool:
  assumes "rt_wf rt" and "pool_wf P" and "p_malloc P = []"
    and "\<And>j. service_binding_get P j < c_worker (t_config (rt_task rt))"
    and "\<And>j. service_sockevent_get P j < int MAX_SOCKEVENT"
  shows "rt_wf (rt_set_pool rt P)"
  using assms sched_wf_services [of "rt_task rt" P] by (simp add: rt_wf_def)

lemma rt_wf_view:
  assumes "rt_wf rt" and "pool_wf P" and "p_malloc P = []" and "svc_view P = svc_view (rt_pool rt)"
  shows "rt_wf (rt_set_pool rt P)"
  using assms(1) by (intro rt_wf_pool assms)
    (simp_all add: binding_view sockevent_view assms(4), simp_all add: rt_wf_def rt_pool_def sched_wf_def
      binding_view [symmetric] sockevent_view [symmetric])

lemma rt_wf_delete [simp]: "rt_wf (rt_delete_message rt m) = rt_wf rt"
  unfolding rt_delete_message_def rt_wf_def
  by (simp add: sched_wf_def binding_view sockevent_view rt_pool_def)

lemma rt_delete_pool [simp]: "strip_pool (rt_pool (rt_delete_message rt m)) = strip_pool (rt_pool rt)"
  by (simp add: rt_delete_message_def)

lemma api_sound_keep:
  "rt_wf rt' \<Longrightarrow> strip_pool (rt_pool rt') = strip_pool (rt_pool rt) \<Longrightarrow> api_sound s i rt (Some (r, rt'))"
  by (auto simp: api_sound_def intro: api_effect_none)

lemma api_sound_raise [simp]: "rt_wf rt \<Longrightarrow> api_sound s i rt (raise msg rt)"
  by (simp add: raise_def api_sound_keep)

lemma api_sound_give [simp]: "rt_wf rt \<Longrightarrow> api_sound s i rt (give vs rt)"
  by (simp add: give_def api_sound_keep)

lemma api_sound_with_arg [intro]:
  "rt_wf rt \<Longrightarrow> (\<And>v. x = Inr v \<Longrightarrow> api_sound s i rt (f v)) \<Longrightarrow> api_sound s i rt (with_arg x rt f)"
  by (cases x) (simp_all add: with_arg_def)

lemma rt_wfD:
  assumes "rt_wf rt"
  shows "pool_wf (rt_pool rt)" "p_malloc (rt_pool rt) = []" "sched_wf (rt_task rt)"
    "service_sockevent_get (rt_pool rt) j < int MAX_SOCKEVENT" "length (t_event (rt_task rt)) = MAX_SOCKEVENT"
    "service_binding_get (rt_pool rt) j < c_worker (t_config (rt_task rt))" "1 \<le> c_worker (t_config (rt_task rt))"
  using assms by (auto simp: rt_wf_def sched_wf_def rt_pool_def)

lemma send_sound:
  assumes wf: "rt_wf rt"
  shows "api_sound s i rt (lsend_message yieldable i L rt)"
proof (cases "gen_send_message L i rt")
  case (Inl e)
  then show ?thesis using wf by (simp add: lsend_message_def with_arg_def)
next
  case (Inr g)
  have "(rt_pool rt)\<lparr>p_malloc := []\<rparr> = rt_pool rt" using rt_wfD(2) [OF wf] by (cases "rt_pool rt") simp
  then have pm: "rt_set_pool rt ((rt_pool rt)\<lparr>p_malloc := []\<rparr>) = rt" by simp
  obtain m where "send_args L i = Inr m" using Inr by (auto simp: gen_send_message_def split: sum.splits)
  then have g: "g = (Some m, rt)"
    using Inr rt_wfD(2) [OF wf] by (simp add: gen_send_message_def message_new_def pm)
  obtain r P where send: "service_send_message (rt_pool rt) i (Some m) = (r, P)" by fastforce
  have P: "pool_wf P" by (rule send_message_account(1) [OF rt_wfD(1) [OF wf] send])
  have v: "svc_view P = svc_view (rt_pool rt)" "p_malloc P = []"
    using send rt_wfD(1,2) [OF wf]
    by (auto simp: service_send_message_def view_upd_same split: option.splits if_splits)
  let ?rt = "rt_set_pool rt P"
  have w: "rt_wf ?rt" by (rule rt_wf_view [OF wf P v(2,1)])
  have e: "api_effect s i rt rt'" if "strip_pool (rt_pool rt') = strip_pool P" for rt'
    by (rule api_effect_call [of s i "Call_send i (Some m)"]) (use send that in simp_all)
  show ?thesis
    using Inr g send w e [of ?rt] e [of "rt_delete_message ?rt (Some m)"] wf
    by (auto simp: lsend_message_def with_arg_def Let_def raise_def give_def api_sound_def
        intro!: api_effect_none)
qed

lemma recv_sound:
  assumes wf: "rt_wf rt" and ready: "ready_service (rt_pool rt) i"
  shows "api_sound s i rt (lrecv_message i rt)"
proof -
  from ready obtain S q where S: "get_service (rt_pool rt) i = Some S" "s_msg S = Some q"
    by (auto simp: ready_service_def split: option.splits)
  from pop_inbox [OF rt_wfD(1) [OF wf] S] obtain x P S' where
    pop: "service_pop_message (rt_pool rt) i = Some (x, P)" "pool_wf P" "get_service P i = Some S'"
      "s_msg S' \<noteq> None" "S' = S\<lparr>s_bounce := s_bounce S', s_msg := s_msg S'\<rparr>"
      "\<forall>j. j \<noteq> i \<longrightarrow> get_service P j = get_service (rt_pool rt) j" by blast
  have "svc_view P j = svc_view (rt_pool rt) j" for j
  proof (cases "j = i")
    case True
    have "s_status S' = s_status S \<and> s_sockevent_id S' = s_sockevent_id S \<and> s_binding_thread S' = s_binding_thread S"
      by (subst pop(5), subst pop(5), subst pop(5)) simp
    then show ?thesis using True pop(3,4) S by (simp add: svc_view_def)
  qed (use pop(6) in \<open>simp add: svc_view_def\<close>)
  then have v: "svc_view P = svc_view (rt_pool rt)" by blast
  have m: "p_malloc P = []"
    using pop(1) S rt_wfD(2) [OF wf] by (auto simp: service_pop_message_def bind_eq_Some_conv split: option.splits)
  let ?rt = "rt_set_pool rt P"
  have w: "rt_wf ?rt" by (rule rt_wf_view [OF wf pop(2) m v])
  have "pool_call_ok (rt_pool rt) (Call_pop i)" using S by (simp add: has_mailbox_def)
  then have e: "api_effect s i rt rt'" if "strip_pool (rt_pool rt') = strip_pool P" for rt'
    by (rule api_effect_call [of s i "Call_pop i", rotated]) (use pop(1) that in simp_all)
  show ?thesis
    using pop(1) w e [of ?rt] e [of "rt_delete_message ?rt m" for m]
    by (auto simp: lrecv_message_def Let_def give_def api_sound_def split: option.splits)
qed

lemma receipt_sound:
  assumes wf: "rt_wf rt"
  shows "api_sound s i rt (lmessage_receipt i rt)"
proof -
  obtain m r P where read: "service_read_receipt (rt_pool rt) i = (m, r, P)" by (cases "service_read_receipt (rt_pool rt) i")
  have P: "pool_wf P" by (rule read_receipt_account(1) [OF rt_wfD(1) [OF wf] read])
  have v: "svc_view P = svc_view (rt_pool rt)" "p_malloc P = []"
    using read rt_wfD(1,2) [OF wf] by (auto simp: service_read_receipt_def view_upd_same split: option.splits)
  let ?rt = "rt_set_pool rt P"
  have w: "rt_wf ?rt" by (rule rt_wf_view [OF wf P v(2,1)])
  have e: "api_effect s i rt rt'" if "strip_pool (rt_pool rt') = strip_pool P" for rt'
    by (rule api_effect_call [of s i "Call_read_receipt i"]) (use read that in simp_all)
  show ?thesis
    using read w e [of ?rt] e [of "rt_delete_message ?rt m" for m]
    by (auto simp: lmessage_receipt_def Let_def give_def raise_def api_sound_def split: option.splits)
qed

text \<open>An update of a field of the calling service, within the bounds of the scheduler.\<close>

lemma rt_wf_upd:
  assumes wf: "rt_wf rt" and keeps: "service_keeps f"
    and b: "\<And>S. s_binding_thread S < c_worker (t_config (rt_task rt)) \<Longrightarrow> s_binding_thread (f S) < c_worker (t_config (rt_task rt))"
    and e: "\<And>S. s_sockevent_id S < int MAX_SOCKEVENT \<Longrightarrow> s_sockevent_id (f S) < int MAX_SOCKEVENT"
  shows "rt_wf (rt_set_pool rt (upd_service (rt_pool rt) i f))"
proof (rule rt_wf_pool [OF wf])
  note P = rt_wfD(1) [OF wf]
  show "pool_wf (upd_service (rt_pool rt) i f)" by (rule tab.inv_upd [OF P keeps])
  show "p_malloc (upd_service (rt_pool rt) i f) = []" using rt_wfD(2) [OF wf] by simp
  fix j
  show "service_binding_get (upd_service (rt_pool rt) i f) j < c_worker (t_config (rt_task rt))"
    using rt_wfD(6) [OF wf, of j] rt_wfD(7) [OF wf] b
    by (auto simp: service_binding_get_def tab.get_upd [OF P keeps] split: option.splits)
  show "service_sockevent_get (upd_service (rt_pool rt) i f) j < int MAX_SOCKEVENT"
    using rt_wfD(4) [OF wf, of j] e
    by (auto simp: service_sockevent_get_def tab.get_upd [OF P keeps] split: option.splits)
qed

lemma bind_sound:
  assumes wf: "rt_wf rt" and s: "sy_task s = rt_task rt"
  shows "api_sound s i rt (lworker_bind i L rt)"
proof -
  have ok: "api_sound s i rt (give [] (rt_set_pool rt (service_binding_set (rt_pool rt) i n)))"
    if "n < c_worker (t_config (rt_task rt))" for n
  proof -
    let ?rt = "rt_set_pool rt (service_binding_set (rt_pool rt) i n)"
    have "rt_wf ?rt" unfolding service_binding_set_def
      by (rule rt_wf_upd [OF wf service_keeps_fields(4)]) (use that in simp_all)
    moreover have "api_effect s i rt ?rt"
      by (rule api_effect_call [of s i "Call_binding_set i n"]) (use that s in simp_all)
    ultimately show ?thesis by (auto simp: api_sound_def give_def)
  qed
  have "-1 < c_worker (t_config (rt_task rt))" using rt_wfD(7) [OF wf] by simp
  with ok wf show ?thesis by (auto simp: lworker_bind_def Let_def)
qed

lemma find_running_total: "\<forall>n \<in> set ns. worker_at t n \<noteq> None \<Longrightarrow> find_running t i ns \<noteq> None"
  by (induction ns) auto

lemma worker_id_sound:
  assumes wf: "rt_wf rt"
  shows "api_sound s i rt (lworker_id i rt)"
proof -
  have "\<forall>n \<in> set (worker_ids (rt_task rt)). worker_at (rt_task rt) n \<noteq> None"
    using sched_wf_worker(1) [OF rt_wfD(3) [OF wf]] worker_ids_range [OF rt_wfD(3) [OF wf]] by simp
  from find_running_total [OF this] obtain n where "get_worker_id (rt_task rt) i = Some n"
    by (fastforce simp: get_worker_id_def)
  then show ?thesis using wf by (simp add: lworker_id_def)
qed

text \<open>The socket events.\<close>

lemma rt_wf_events:
  assumes "rt_wf rt" and "length es = MAX_SOCKEVENT" and "length xs = MAX_SOCKEVENT"
  shows "rt_wf (rt\<lparr>rt_task := (rt_task rt)\<lparr>t_event := es, t_event_init := xs\<rparr>, rt_closed := closed\<rparr>)"
  using assms by (simp add: rt_wf_def sched_wf_def rt_pool_def)

lemma rt_wf_set_event: "rt_wf rt \<Longrightarrow> rt_wf (rt_set_event rt n e closed)"
  by (simp add: rt_set_event_def rt_wf_def sched_wf_def rt_pool_def)

lemma rt_set_event_pool [simp]: "rt_pool (rt_set_event rt n e closed) = rt_pool rt"
  by (simp add: rt_set_event_def rt_pool_def)

lemma touch_sound:
  assumes wf: "rt_wf rt"
  shows "api_sound s i rt (ltask_touch_service L rt)"
  unfolding ltask_touch_service_def
proof (rule api_sound_with_arg [OF wf])
  fix v
  let ?n = "service_sockevent_get (rt_pool rt) (word_of_int (c_int v))"
  show "api_sound s i rt (let to = word_of_int (c_int v); sockevent_id = service_sockevent_get (rt_pool rt) to
      in if sockevent_id \<ge> 0
         then do { t \<leftarrow> trigger_event (rt_task rt) sockevent_id; give [LBool True] (rt\<lparr>rt_task := t\<rparr>) }
         else give [] rt)"
  proof (cases "?n \<ge> 0")
    case True
    let ?t = "(rt_task rt)\<lparr>t_event := (t_event (rt_task rt))[nat ?n := fst (sockevent_trigger (t_event (rt_task rt) ! nat ?n))]\<rparr>"
    have "trigger_event (rt_task rt) ?n = Some ?t"
      using True rt_wfD(4,5) [OF wf] by (simp add: trigger_event_def nat_less_iff)
    moreover have "rt_wf (rt\<lparr>rt_task := ?t\<rparr>)" "rt_pool (rt\<lparr>rt_task := ?t\<rparr>) = rt_pool rt"
      using wf by (simp_all add: rt_wf_def sched_wf_def rt_pool_def)
    ultimately show ?thesis using True by (simp add: Let_def give_def api_sound_keep)
  qed (use wf in simp)
qed

lemma alloc_sockevent_result:
  "alloc_sockevent_from fails is t = (n, t') \<Longrightarrow>
     \<exists>xs. t' = t\<lparr>t_event_init := xs\<rparr> \<and> length xs = length (t_event_init t) \<and> (n = -1 \<or> n \<in> set is)"
proof (induction fails "is" t rule: alloc_sockevent_from.induct)
  case (1 fails t)
  then show ?case by (intro exI [of _ "t_event_init t"]) auto
next
  case (2 fails i "is" t)
  then show ?case by (cases "atomic_int_cas (fails i) (t_event_init t ! nat i) 0 1") (auto split: bool.splits if_splits)
qed

lemma eventinit_sound:
  assumes wf: "rt_wf rt"
  shows "api_sound s i rt (ltask_eventinit fails os i rt)"
proof (cases "service_sockevent_get (rt_pool rt) i \<ge> 0")
  case True
  then show ?thesis using wf by (simp add: ltask_eventinit_def)
next
  case False
  obtain n t where al: "alloc_sockevent fails (rt_task rt) = (n, t)" by fastforce
  from alloc_sockevent_result [OF al [unfolded alloc_sockevent_def]] obtain xs where
    t: "t = (rt_task rt)\<lparr>t_event_init := xs\<rparr>" "length xs = length (t_event_init (rt_task rt))"
    and n: "n = -1 \<or> n \<in> set (map int [0 ..< MAX_SOCKEVENT])" by blast
  let ?rt = "rt\<lparr>rt_task := t\<rparr>"
  have w: "rt_wf ?rt" and p: "rt_pool ?rt = rt_pool rt"
    using wf t by (simp_all add: rt_wf_def sched_wf_def rt_pool_def)
  show ?thesis
  proof (cases "n < 0")
    case True
    then show ?thesis using False al w p by (simp add: ltask_eventinit_def raise_def api_sound_keep)
  next
    case n0: False
    then have r: "0 \<le> n" "n < int MAX_SOCKEVENT" using n by auto
    then have at: "event_at ?rt n = Some (t_event (rt_task rt) ! nat n)"
      using rt_wfD(5) [OF wf] t by (simp add: event_at_def)
    obtain q e closed where op: "sockevent_open os (t_event (rt_task rt) ! nat n) (rt_closed rt) = (q, e, closed)"
      by (cases "sockevent_open os (t_event (rt_task rt) ! nat n) (rt_closed rt)")
    let ?rt2 = "rt_set_event ?rt n e closed"
    have w2: "rt_wf ?rt2" by (rule rt_wf_set_event [OF w])
    have p2: "rt_pool ?rt2 = rt_pool rt" using p by simp
    let ?rt3 = "rt_set_pool ?rt2 (service_sockevent_init (rt_pool ?rt2) i n)"
    have w3: "rt_wf ?rt3" unfolding service_sockevent_init_def
      by (rule rt_wf_upd [OF w2 service_keeps_fields(5)]) (use r in simp_all)
    have "api_effect s i rt ?rt3"
      by (rule api_effect_call [of s i "Call_sockevent_init i n"]) (use r p2 in simp_all)
    then show ?thesis
      using False al n0 at op w2 p2 w3
      by (auto simp: ltask_eventinit_def raise_def give_def api_sound_def Let_def intro!: api_effect_none)
  qed
qed

lemma eventreset_sound:
  assumes wf: "rt_wf rt"
  shows "api_sound s i rt (ltask_eventreset os i rt)"
proof (cases "service_sockevent_get (rt_pool rt) i < 0")
  case True
  then show ?thesis using wf by (simp add: ltask_eventreset_def Let_def)
next
  case False
  let ?n = "service_sockevent_get (rt_pool rt) i"
  have at: "event_at rt ?n = Some (t_event (rt_task rt) ! nat ?n)"
    using False rt_wfD(4,5) [OF wf] by (simp add: event_at_def nat_less_iff)
  show ?thesis
    using False at wf
    by (auto simp: ltask_eventreset_def Let_def raise_def give_def rt_wf_set_event api_sound_keep split: prod.splits)
qed

lemma memlimit_sound:
  assumes wf: "rt_wf rt" and ready: "ready_service (rt_pool rt) i"
  shows "api_sound s i rt (ltask_memlimit i L rt)"
proof -
  from ready obtain S stat where S: "get_service (rt_pool rt) i = Some S" "s_L S \<noteq> 0" "s_stat S = Some stat"
    by (auto simp: ready_service_def split: option.splits)
  let ?rt = "\<lambda>v. rt_set_pool rt (upd_service (rt_pool rt) i (\<lambda>S. S\<lparr>s_stat := Some (stat\<lparr>ms_limit := v\<rparr>)\<rparr>))"
  have "rt_wf (?rt v)" for v by (rule rt_wf_upd [OF wf service_keeps_fields(9)]) simp_all
  then show ?thesis
    unfolding ltask_memlimit_def
    by (intro api_sound_with_arg [OF wf])
      (simp add: service_memlimit_def S give_def api_sound_keep rt_wfD(1) [OF wf])
qed

lemma memcount_sound:
  assumes wf: "rt_wf rt" and ready: "ready_service (rt_pool rt) i"
  shows "api_sound s i rt (ltask_memcount i L rt)"
proof -
  from ready obtain S stat where S: "get_service (rt_pool rt) i = Some S" "s_stat S = Some stat"
    by (auto simp: ready_service_def split: option.splits)
  have "\<exists>cs. count_fields (rt_pool rt) i ts = Some cs" if "list_all (\<lambda>(n, t). 0 \<le> t \<and> t < 9) ts" for ts
    using that by (induction ts) (auto simp: service_memcount_def S)
  from this [of counted_types] obtain cs where "count_fields (rt_pool rt) i counted_types = Some cs"
    by (auto simp: counted_types_def)
  then show ?thesis
    using wf by (auto simp: ltask_memcount_def split: list.splits stack_value.splits)
qed

lemma label_sound:
  assumes wf: "rt_wf rt" and ready: "ready_service (rt_pool rt) i"
  shows "api_sound s i rt (ltask_label i rt)"
  using assms by (auto simp: ltask_label_def service_getlabel_def ready_service_def split: option.splits)

lemma timer_add_sound:
  assumes wf: "rt_wf rt"
  shows "api_sound s i rt (ltask_timer_add True i L rt)"
proof (cases "rt_timer rt")
  case None
  then show ?thesis using wf by (simp add: ltask_timer_add_def)
next
  case (Some T)
  then have free: "timer_wf T" "\<not> tm_lock T" using wf by (auto simp: rt_wf_def timer_free_def)
  have ok: "api_sound s i rt (do { t \<leftarrow> timer_add True T ev (sint ti); give [] (rt\<lparr>rt_timer := Some t\<rparr>) })"
    if "\<not> (sint ti < 0 \<or> sint ti \<noteq> c_int ti)" for ti ev
  proof -
    have "c_int ti < 2 ^ 31" unfolding c_int_def
      using sint_less [of "ucast ti :: u32"] by simp
    with that timer_add_refines [OF free, of "sint ti" ev] obtain T' where
      T': "timer_add True T ev (sint ti) = Some T'" "timer_wf T'" "same_clock T T'" by auto
    moreover have "rt_wf (rt\<lparr>rt_timer := Some T'\<rparr>)"
      using wf T' free(2) by (simp add: rt_wf_def timer_free_def same_clock_def)
    ultimately show ?thesis by (simp add: give_def api_sound_keep)
  qed
  show ?thesis
    unfolding ltask_timer_add_def Some
    using ok wf by (auto intro!: api_sound_with_arg)
qed

lemma rt_wf_log: "rt_wf rt \<Longrightarrow> log_rep q ms \<Longrightarrow> rt_wf (rt\<lparr>rt_log := q\<rparr>)"
  by (auto simp: rt_wf_def)

lemma pushlog_sound:
  assumes wf: "rt_wf rt" and mal: "malloc_answers (fst (rt_log rt)) a"
  shows "api_sound s i rt (ltask_pushlog a i L rt)"
proof -
  from wf obtain ms where rep: "log_rep (rt_log rt) ms" by (auto simp: rt_wf_def)
  have push: "\<exists>r q ms'. logqueue_push a (rt_log rt) m = Some (r, q) \<and> log_rep q ms'" for m
    using lq.push_law [OF rep mal, of m] by blast
  have "\<exists>r q ms'. pushlog a i data sz rt = Some (r, rt\<lparr>rt_log := q\<rparr>) \<and> log_rep q ms'" for data sz
  proof -
    from push [of "\<lparr>lm_timestamp = (case rt_timer rt of None \<Rightarrow> 0 | Some TI \<Rightarrow> timer_now TI),
      lm_id = i, lm_sz = sz, lm_msg = data\<rparr>"] obtain r q ms'
      where "logqueue_push a (rt_log rt) \<lparr>lm_timestamp = (case rt_timer rt of None \<Rightarrow> 0 | Some TI \<Rightarrow> timer_now TI),
        lm_id = i, lm_sz = sz, lm_msg = data\<rparr> = Some (r, q)" "log_rep q ms'" by blast
    then show ?thesis by (intro exI [of _ r] exI [of _ q] exI [of _ ms']) (simp add: pushlog_def)
  qed
  then have "api_sound s i rt (do { (r, rt) \<leftarrow> pushlog a i data sz rt;
       if r \<noteq> 0 then raise ''log error'' rt else give [] rt })" for data sz
  proof -
    assume "\<And>data sz. \<exists>r q ms'. pushlog a i data sz rt = Some (r, rt\<lparr>rt_log := q\<rparr>) \<and> log_rep q ms'"
    then obtain r q ms' where "pushlog a i data sz rt = Some (r, rt\<lparr>rt_log := q\<rparr>)" "log_rep q ms'" by blast
    then show ?thesis using rt_wf_log [OF wf] by (simp add: raise_def give_def api_sound_keep)
  qed
  then show ?thesis unfolding ltask_pushlog_def using wf by (auto intro!: api_sound_with_arg)
qed

lemma poplog_sound:
  assumes wf: "rt_wf rt"
  shows "api_sound s i rt (ltask_poplog rt)"
proof -
  from wf obtain ms where rep: "log_rep (rt_log rt) ms" by (auto simp: rt_wf_def)
  then have "\<exists>x q ms'. logqueue_pop (rt_log rt) = Some (x, q) \<and> log_rep q ms'"
    using lq.pop_first [of "rt_log rt"] lq.pop_empty [of "rt_log rt"] by (cases ms) blast+
  then show ?thesis
    using rt_wf_log [OF wf] by (fastforce simp: ltask_poplog_def give_def api_sound_keep Let_def split: option.splits)
qed

lemmas api_sounds = send_sound recv_sound receipt_sound bind_sound worker_id_sound touch_sound
  eventinit_sound eventreset_sound memlimit_sound memcount_sound label_sound timer_add_sound
  pushlog_sound poplog_sound

text \<open>What the environment owes a call: \<open>malloc\<close> answers an address that is not in use.\<close>

fun api_env_ok :: "runtime \<Rightarrow> api_call \<Rightarrow> bool" where
  "api_env_ok rt (Api_pushlog a L) = malloc_answers (fst (rt_log rt)) a"
| "api_env_ok rt c = True"

text \<open>
  C27: eighteen functions of the module \<open>ltask\<close> are safe to call from a running service, with any
  arguments: \<open>send_message\<close>, \<open>recv_message\<close>, \<open>message_receipt\<close>, \<open>self\<close>, \<open>worker_id\<close>, \<open>worker_bind\<close>,
  \<open>label\<close>, \<open>touch_service\<close>, \<open>memlimit\<close>, \<open>memcount\<close>, \<open>now\<close>, \<open>counter\<close>, \<open>cpucost\<close>, \<open>timer_add\<close>, \<open>pushlog\<close>,
  \<open>poplog\<close>, \<open>eventinit\<close> and \<open>eventreset\<close> (\<open>api_step\<close>; not \<open>timer_update\<close>, \<open>timer_sleep\<close>, \<open>backtrace\<close>,
  \<open>debuglog\<close>, \<open>get_pushlog\<close> and the functions of the serialiser). Memory is taken to be there. Each
  of them returns values or raises a Lua error, never undefined behaviour; it
  keeps the runtime well-formed (the scheduler's state, the service table, the log queue, the
  timer); and what it does to the service pool, the ledger and the memory statistics apart, is a
  sequence of calls the thread model allows Lua code to make (\<open>lua_call_ok\<close>), each within its
  contract.
\<close>

theorem api_call_well_typed:
  assumes "rt_wf rt" and "ready_service (rt_pool rt) i" and "api_env_ok rt c" and "sy_task s = rt_task rt"
  shows "\<exists>r rt' cs ins outs P. api_step i c rt = Some (r, rt') \<and> rt_wf rt'
    \<and> list_all (lua_call_ok s i) cs
    \<and> pool_run cs (rt_pool rt) = Some (ins, outs, P) \<and> strip_pool P = strip_pool (rt_pool rt')"
proof -
  have "api_sound s i rt (api_step i c rt)"
    using assms by (cases c) (simp_all add: api_sounds lself_def ltask_now_def ltask_counter_def
      ltask_cpucost_def Let_def split: option.splits)
  then show ?thesis unfolding api_sound_def api_effect_def by blast
qed

section \<open>A runtime with one service\<close>

definition one_service :: "pool_call list" where
  "one_service = [Call_new 2, Call_init 2 \<lparr>vb_state = 64, vb_ok = True, vb_thread = 128\<rparr>,
     Call_setlabel 2 ''demo'', Call_loadstring 2 None, Call_push 2 demo_message]"

definition quiet_runtime :: "service_pool \<Rightarrow> runtime" where
  "quiet_runtime P = \<lparr>rt_task = \<lparr>t_config = demo_config, t_workers = map worker_init [0, 1],
       t_event_init = replicate MAX_SOCKEVENT 0, t_event = replicate MAX_SOCKEVENT sockevent_init,
       t_services = P, t_schedule = empty_queue (2 ^ 2), t_external_message = None, t_external_last_message = None,
       t_schedule_owner = -1, t_active_worker = 0, t_thread_count = 0, t_blocked_service = 0\<rparr>,
     rt_timer = None,
     rt_log = (Map.empty, \<lparr>lq_freelist = 0, lq_head = 0, lq_tail = 0, lq_lock = False\<rparr>), rt_closed = []\<rparr>"

lemma one_service_pool:
  "\<exists>p S. pool_run one_service demo_pool = Some ([demo_message], [], p) \<and> pool_wf p \<and> p_malloc p = []
    \<and> get_service p 2 = Some S \<and> s_msg S \<noteq> None \<and> s_L S = 64 \<and> s_stat S \<noteq> None \<and> s_label S \<noteq> None
    \<and> list_all (\<lambda>s. case s of None \<Rightarrow> True | Some S \<Rightarrow> s_binding_thread S = -1 \<and> s_sockevent_id S = -1) (p_s p)"
proof -
  have "map_option (\<lambda>(a, b, p). (a, b, p_malloc p,
      map_option (\<lambda>S. (s_msg S = None, s_L S, s_stat S = None, s_label S = None)) (get_service p 2),
      list_all (\<lambda>s. case s of None \<Rightarrow> True | Some S \<Rightarrow> s_binding_thread S = -1 \<and> s_sockevent_id S = -1) (p_s p)))
      (pool_run one_service demo_pool)
    = Some ([demo_message], [], [], Some (False, 64, False, False), True)"
    by code_simp
  then obtain p S where p: "pool_run one_service demo_pool = Some ([demo_message], [], p)" "p_malloc p = []"
    "get_service p 2 = Some S" "s_msg S \<noteq> None" "s_L S = 64" "s_stat S \<noteq> None" "s_label S \<noteq> None"
    "list_all (\<lambda>s. case s of None \<Rightarrow> True | Some S \<Rightarrow> s_binding_thread S = -1 \<and> s_sockevent_id S = -1) (p_s p)"
    by (auto simp: map_option_eq_Some)
  from pool_run_ok [OF pool_reach_wf [OF demo_reach] p(1)] p show ?thesis by blast
qed

lemma quiet_runtime_wf:
  assumes p: "pool_wf p" "p_malloc p = []"
    and l: "list_all (\<lambda>s. case s of None \<Rightarrow> True | Some S \<Rightarrow> s_binding_thread S = -1 \<and> s_sockevent_id S = -1) (p_s p)"
  shows "rt_wf (quiet_runtime p)"
proof -
  have fld: "s_binding_thread S = -1 \<and> s_sockevent_id S = -1" if "get_service p j = Some S" for j S
  proof -
    have "Some S \<in> set (p_s p)"
      using get_service_slot [OF that] service_slot_bound [OF p(1), of j] nth_mem by metis
    then show ?thesis using l by (auto simp: list_all_iff)
  qed
  have "service_binding_get p j = -1" "service_sockevent_get p j = -1" for j
    using fld by (auto simp: service_binding_get_def service_sockevent_get_def split: option.splits)
  moreover have "t_workers (rt_task (quiet_runtime p)) ! n = worker_init (int n)" if "n < 2" for n
    using that by (cases n) (auto simp: quiet_runtime_def)
  moreover have "log_rep (Map.empty, \<lparr>lq_freelist = 0, lq_head = 0, lq_tail = 0, lq_lock = False\<rparr>) []"
    by (auto simp: log_rep_def log_cells_def last_ptr_def)
  ultimately show ?thesis
    using p by (auto simp: rt_wf_def sched_wf_def rt_pool_def quiet_runtime_def empty_queue_wf demo_config_def
      worker_init_fields intro: exI [of _ "[]"] simp del: power_numeral)
qed

theorem api_call_well_typed_witness:
  "\<exists>p r rt' cs ins outs P. pool_run one_service demo_pool = Some ([demo_message], [], p)
    \<and> api_step 2 Api_recv (quiet_runtime p) = Some (r, rt') \<and> rt_wf rt'
    \<and> pool_run cs p = Some (ins, outs, P) \<and> strip_pool P = strip_pool (rt_pool rt')"
proof -
  from one_service_pool obtain p S where p: "pool_run one_service demo_pool = Some ([demo_message], [], p)"
    "pool_wf p" "p_malloc p = []" "get_service p 2 = Some S" "s_msg S \<noteq> None" "s_L S = 64" "s_stat S \<noteq> None"
    "s_label S \<noteq> None"
    "list_all (\<lambda>s. case s of None \<Rightarrow> True | Some S \<Rightarrow> s_binding_thread S = -1 \<and> s_sockevent_id S = -1) (p_s p)"
    by blast
  have pool: "rt_pool (quiet_runtime p) = p" by (simp add: quiet_runtime_def rt_pool_def)
  have "ready_service p 2" using p by (simp add: ready_service_def)
  with api_call_well_typed [OF quiet_runtime_wf [OF p(2,3,9)], of 2 Api_recv
      "\<lparr>sy_task = rt_task (quiet_runtime p), sy_pcs = []\<rparr>"] p(1)
  show ?thesis by (simp only: pool) fastforce
qed

text \<open>The same service after \<open>service_close\<close>, with a message nobody has read.\<close>

lemma closed_service_pool:
  "\<exists>p S. pool_run (one_service @ [Call_close 2]) demo_pool = Some ([demo_message], [], p) \<and> pool_wf p
    \<and> get_service p 2 = Some S \<and> inbox p 2 = [demo_message] \<and> s_msg S \<noteq> None
    \<and> s_status S = SERVICE_STATUS_DEAD \<and> s_sockevent_id S = -1 \<and> s_L S = 0 \<and> s_out S = None"
proof -
  have "map_option (\<lambda>(a, b, p). (a, b, inbox p 2,
      map_option (\<lambda>S. (s_msg S = None, s_status S, s_sockevent_id S, s_L S, s_out S)) (get_service p 2)))
      (pool_run (one_service @ [Call_close 2]) demo_pool)
    = Some ([demo_message], [], [demo_message], Some (False, SERVICE_STATUS_DEAD, -1, 0, None))"
    by code_simp
  then obtain p S where p: "pool_run (one_service @ [Call_close 2]) demo_pool = Some ([demo_message], [], p)"
    "inbox p 2 = [demo_message]" "get_service p 2 = Some S" "s_msg S \<noteq> None"
    "s_status S = SERVICE_STATUS_DEAD" "s_sockevent_id S = -1" "s_L S = 0" "s_out S = None"
    by (auto simp: map_option_eq_Some)
  from pool_run_ok [OF pool_reach_wf [OF demo_reach] p(1)] p show ?thesis by blast
qed

theorem close_service_settles_witness:
  "\<exists>p P. pool_run (one_service @ [Call_close 2]) demo_pool = Some ([demo_message], [], p)
    \<and> ltask_closeservice 3 [LInt 2] (quiet_runtime p)
      = Some (Inr [LTable [0, 7] []], rt_set_pool (quiet_runtime p) P)
    \<and> p_freed P = demo_message # p_freed p \<and> get_service P 2 = None"
proof -
  from closed_service_pool obtain p S where p: "pool_run (one_service @ [Call_close 2]) demo_pool = Some ([demo_message], [], p)"
    "pool_wf p" "get_service p 2 = Some S" "inbox p 2 = [demo_message]" "s_msg S \<noteq> None"
    "s_status S = SERVICE_STATUS_DEAD" "s_sockevent_id S = -1" "s_L S = 0" "s_out S = None" by blast
  have pool: "rt_pool (quiet_runtime p) = p" by (simp add: quiet_runtime_def rt_pool_def)
  have "report_of [demo_message] = [0, 7]" by (simp add: report_of_def reported_def demo_message_def)
  with close_service_settles [of "quiet_runtime p" 2 S 3] p pool show ?thesis
    by (auto simp: closed_event_def opt_list_def Let_def)
qed

end
