(* ===== verification/Cstring.thy ===== *)
theory Cstring
  imports Prelude
begin

text \<open>
  Strings in memory, for the components that format text: an array of characters is a
  \<open>cells\<close> list whose unwritten cells are \<^term>\<open>None\<close>. Copying past the end of either array
  is undefined; copying an unwritten cell leaves an unwritten cell.
\<close>

type_synonym cells = "char option list"

abbreviation (input) NUL :: char where "NUL \<equiv> CHR 0x00"

definition memcpy :: "cells \<Rightarrow> nat \<Rightarrow> cells \<Rightarrow> nat \<Rightarrow> cells option" where
  "memcpy dst off src n =
     (if n \<le> length src \<and> off + n \<le> length dst
      then Some (take off dst @ take n src @ drop (off + n) dst) else None)"

definition put_char :: "cells \<Rightarrow> nat \<Rightarrow> char \<Rightarrow> cells option" where
  "put_char dst off c = (if off < length dst then Some (dst[off := Some c]) else None)"

text \<open>
  \<open>snprintf\<close> into a fresh array of \<open>sz\<close> characters (at least one): the formatted text, cut
  so that the terminator fits, and the length it would have had.
\<close>

definition snprintf :: "nat \<Rightarrow> string \<Rightarrow> int \<times> cells" where
  "snprintf sz text =
     (let cut = map Some (take (sz - 1) text) @ [Some NUL]
      in (int (length text), cut @ replicate (sz - length cut) None))"

text \<open>A string literal, with its terminator.\<close>

definition c_literal :: "string \<Rightarrow> cells" where
  "c_literal s = map Some s @ [Some NUL]"

text \<open>The conversions \<open>%d\<close> and \<open>%u\<close>.\<close>

fun show_nat :: "nat \<Rightarrow> string" where
  "show_nat n = (if n < 10 then [char_of (48 + n)] else show_nat (n div 10) @ [char_of (48 + n mod 10)])"

definition show_int :: "int \<Rightarrow> string" where
  "show_int i = (if i < 0 then CHR ''-'' # show_nat (nat (- i)) else show_nat (nat i))"

declare show_nat.simps [simp del]

lemma memcpy_length: "memcpy dst off src n = Some dst' \<Longrightarrow> length dst' = length dst"
  by (auto simp: memcpy_def split: if_splits)

lemma memcpy_append:
  "n = length s \<Longrightarrow> off = length pre \<Longrightarrow> n \<le> length post \<Longrightarrow>
   memcpy (pre @ post) off (map Some s @ rest) n = Some (pre @ map Some s @ drop n post)"
  by (simp add: memcpy_def)

lemma snprintf_fits:
  "length text < sz \<Longrightarrow> \<exists>rest. snprintf sz text = (int (length text), map Some text @ rest)"
  by (simp add: snprintf_def Let_def)

lemma show_nat_length: "n < 10 ^ Suc k \<Longrightarrow> length (show_nat n) \<le> Suc k"
proof (induction k arbitrary: n)
  case 0
  then show ?case by (simp add: show_nat.simps)
next
  case (Suc k)
  have "n div 10 < 10 ^ Suc k" using Suc.prems by (simp add: less_mult_imp_div_less)
  from Suc.IH [OF this] show ?case by (subst show_nat.simps) simp
qed

lemma show_nat_no_NUL: "NUL \<notin> set (show_nat n)"
proof (induction n rule: show_nat.induct)
  case (1 n)
  have digit: "char_of (48 + d) \<noteq> NUL" if "d < 10" for d :: nat
  proof
    assume "char_of (48 + d) = NUL"
    then have "of_char (char_of (48 + d) :: char) = (of_char NUL :: nat)" by simp
    with that show False by simp
  qed
  show ?case
  proof (cases "n < 10")
    case True
    with digit [OF True] show ?thesis by (simp add: show_nat.simps)
  next
    case False
    with 1 digit [of "n mod 10"] show ?thesis by (subst show_nat.simps) auto
  qed
qed

lemma show_int_no_NUL: "NUL \<notin> set (show_int i)"
  by (simp add: show_int_def show_nat_no_NUL)

lemma show_nat_nonempty: "show_nat n \<noteq> []"
  by (simp add: show_nat.simps)

end
