(* ===== verification/Backtrace.thy ===== *)
theory Backtrace
  imports Cstring Service
begin

text \<open>
  \<open>service_backtrace\<close> of \<open>src/service.c\<close>: the text of a service's Lua call stack, written into a
  buffer of the caller (4096 bytes, in the crash log and for Lua). \<open>strbuff\<close> is the position
  in the buffer and the room that is left; running full is its end, so that \<open>addstr\<close> answers
  the room and 0 stops the trace.

  The call stack is the Lua library's: the activation records \<open>lua_getstack\<close> and
  \<open>lua_getinfo\<close> deliver, one per level, are a parameter.
\<close>

record lua_Debug =
  ar_short_src :: string
  ar_currentline :: int
  ar_namewhat :: string
  ar_name :: string
  ar_what :: char
  ar_linedefined :: int
  ar_istailcall :: bool
  ar_nparams :: int
  ar_local1_thread :: "ptr option"

record strbuff =
  sb_mem :: cells
  sb_buf :: nat
  sb_sz :: u64

section \<open>The operations\<close>

definition addstr :: "strbuff \<Rightarrow> cells \<Rightarrow> u64 \<Rightarrow> (u64 \<times> strbuff) option" where
  "addstr b str sz =
     (if sb_sz b < sz
      then do {
        let n = sb_sz b - 1;
        m \<leftarrow> memcpy (sb_mem b) (sb_buf b) str (unat n);
        m \<leftarrow> put_char m (sb_buf b + unat n) NUL;
        Some (0, b\<lparr>sb_mem := m, sb_buf := sb_buf b + unat n, sb_sz := 0\<rparr>) }
      else do {
        m \<leftarrow> memcpy (sb_mem b) (sb_buf b) str (unat sz);
        Some (sb_sz b - sz, b\<lparr>sb_mem := m, sb_buf := sb_buf b + unat sz, sb_sz := sb_sz b - sz\<rparr>) })"

definition addliteral :: "strbuff \<Rightarrow> string \<Rightarrow> (u64 \<times> strbuff) option" where
  "addliteral b s = addstr b (c_literal s) (of_nat (length s))"

text \<open>Both formatted names go through \<open>char name[1024]\<close>, whatever their length.\<close>

definition addformat :: "strbuff \<Rightarrow> string \<Rightarrow> (u64 \<times> strbuff) option" where
  "addformat b text = (case snprintf 1024 text of (n, name) \<Rightarrow> addstr b name (word_of_int n))"

definition funcname_text :: "lua_Debug \<Rightarrow> string" where
  "funcname_text ar =
     (if ar_namewhat ar \<noteq> [] then ar_namewhat ar @ '' '' @ [CHR 0x27] @ ar_name ar @ [CHR 0x27]
      else ''function <'' @ ar_short_src ar @ '':'' @ show_int (ar_linedefined ar) @ ''>'')"

definition addfuncname :: "lua_Debug \<Rightarrow> strbuff \<Rightarrow> (u64 \<times> strbuff) option" where
  "addfuncname ar b =
     (if ar_namewhat ar \<noteq> [] then addformat b (funcname_text ar)
      else if ar_what ar = CHR ''m'' then addliteral b ''main chunk''
      else if ar_what ar \<noteq> CHR ''C'' then addformat b (funcname_text ar)
      else addliteral b ''?'')"

text \<open>
  \<open>find_running\<close>: the coroutine the first frame with parameters resumes, if its first
  parameter is a thread; the levels are tried in order.
\<close>

fun find_running_co :: "ptr \<Rightarrow> lua_Debug list \<Rightarrow> ptr" where
  "find_running_co L [] = L"
| "find_running_co L (ar # ars) =
     (if ar_nparams ar > 0
      then (case ar_local1_thread ar of Some co \<Rightarrow> co | None \<Rightarrow> find_running_co L ars)
      else find_running_co L ars)"

definition line_text :: "lua_Debug \<Rightarrow> string" where
  "line_text ar =
     (if ar_currentline ar \<le> 0 then ar_short_src ar @ '': in ''
      else ar_short_src ar @ '':'' @ show_int (ar_currentline ar) @ '': in '')"

text \<open>The loop of \<open>service_backtrace\<close>: \<^term>\<open>True\<close> is the early return of \<open>sz\<close>.\<close>

fun backtrace_loop :: "lua_Debug list \<Rightarrow> strbuff \<Rightarrow> (bool \<times> strbuff) option" where
  "backtrace_loop [] b = Some (False, b)"
| "backtrace_loop (ar # ars) b = do {
     (r, b) \<leftarrow> addformat b (line_text ar);
     if r = 0 then Some (True, b) else do {
     (r, b) \<leftarrow> addfuncname ar b;
     if r = 0 then Some (True, b) else do {
     (r, b) \<leftarrow> addliteral b [CHR 0x0A];
     if r = 0 then Some (True, b) else
     if ar_istailcall ar
     then do {
       (r, b) \<leftarrow> addliteral b (''(...tail calls...)'' @ [CHR 0x0A]);
       if r = 0 then Some (True, b) else backtrace_loop ars b }
     else backtrace_loop ars b } } }"

text \<open>\<open>stack\<close> gives the frames of a Lua thread.\<close>

definition service_backtrace ::
  "(ptr \<Rightarrow> lua_Debug list) \<Rightarrow> service_pool \<Rightarrow> service_id \<Rightarrow> cells \<Rightarrow> u64 \<Rightarrow> (int \<times> cells) option"
where
  "service_backtrace stack p i buf sz =
     (case get_service p i of
        None \<Rightarrow> Some (0, buf)
      | Some S \<Rightarrow> do {
          c_assert (s_L S \<noteq> 0);
          let L = find_running_co (s_L S) (stack (s_L S));
          (full, b) \<leftarrow> backtrace_loop (stack L) \<lparr>sb_mem = buf, sb_buf = 0, sb_sz = sz\<rparr>;
          Some (if full then sint (ucast sz :: u32) else sint (ucast (sz - sb_sz b) :: u32), sb_mem b) })"

section \<open>What is in the buffer\<close>

text \<open>\<open>pre\<close> has been written and \<open>room\<close> cells are left.\<close>

definition strbuff_at :: "strbuff \<Rightarrow> string \<Rightarrow> nat \<Rightarrow> bool" where
  "strbuff_at b pre room \<longleftrightarrow> sb_buf b = length pre \<and> unat (sb_sz b) = room
     \<and> (\<exists>rest. sb_mem b = map Some pre @ rest \<and> length rest = room)"

text \<open>
  The end of a trace \<open>T\<close> in a buffer of \<open>cap\<close> cells: the whole of it, or all cells are used and
  hold \<open>T\<close> up to the last one, which holds the next character or a terminator.
\<close>

definition trace_end :: "string \<Rightarrow> nat \<Rightarrow> bool \<Rightarrow> strbuff \<Rightarrow> bool" where
  "trace_end T cap full b \<longleftrightarrow>
     (if full
      then cap \<le> length T \<and> (\<exists>c. (c = NUL \<or> c = T ! (cap - 1)) \<and> sb_mem b = map Some (take (cap - 1) T @ [c]))
      else length T < cap \<and> strbuff_at b T (cap - length T))"

definition appends :: "(strbuff \<Rightarrow> (u64 \<times> strbuff) option) \<Rightarrow> string \<Rightarrow> bool" where
  "appends f s \<longleftrightarrow> (\<forall>b pre room. strbuff_at b pre room \<longrightarrow> 0 < room \<longrightarrow>
     (\<exists>r b'. f b = Some (r, b') \<and>
       (if length s < room then r \<noteq> 0 \<and> strbuff_at b' (pre @ s) (room - length s)
        else r = 0 \<and> (\<forall>T. trace_end (pre @ s @ T) (length pre + room) True b'))))"

lemma addstr_fits:
  assumes b: "strbuff_at b pre room" and s: "length s < room"
  shows "\<exists>r b'. addstr b (map Some s @ q) (of_nat (length s)) = Some (r, b') \<and> r \<noteq> 0
    \<and> strbuff_at b' (pre @ s) (room - length s)"
proof -
  from b obtain rest where m: "sb_buf b = length pre" "unat (sb_sz b) = room"
    "sb_mem b = map Some pre @ rest" "length rest = room" by (auto simp: strbuff_at_def)
  have "room < 2 ^ 64" using m(2) unsigned_less [of "sb_sz b", where ?'a = nat] by simp
  then have u: "unat (of_nat (length s) :: u64) = length s"
    using s by (simp add: unat_of_nat take_bit_nat_eq_self)
  have le: "\<not> sb_sz b < of_nat (length s)" using s u m(2) by (simp add: word_less_nat_alt)
  then have d: "unat (sb_sz b - of_nat (length s)) = room - length s"
    using u m(2) by (simp add: unat_sub word_le_nat_alt word_less_nat_alt)
  have "memcpy (sb_mem b) (sb_buf b) (map Some s @ q) (length s)
      = Some ((map Some pre) @ map Some s @ drop (length s) rest)"
    using m s by (simp add: memcpy_append)
  then show ?thesis
    using le u d m s by (auto simp: addstr_def strbuff_at_def unat_eq_0 [symmetric])
qed

lemma addstr_full:
  assumes b: "strbuff_at b pre room" and r: "0 < room" "room \<le> length s" and s: "length s < 2 ^ 64"
  shows "\<exists>b'. addstr b (map Some s @ q) (of_nat (length s)) = Some (0, b')
    \<and> (\<forall>T. trace_end (pre @ s @ T) (length pre + room) True b')"
proof -
  from b obtain rest where m: "sb_buf b = length pre" "unat (sb_sz b) = room"
    "sb_mem b = map Some pre @ rest" "length rest = room" by (auto simp: strbuff_at_def)
  have u: "unat (of_nat (length s) :: u64) = length s"
    using s by (simp add: unat_of_nat take_bit_nat_eq_self)
  have copy: "memcpy (sb_mem b) (sb_buf b) (map Some s @ q) n
      = Some (map Some pre @ map Some (take n s) @ drop n rest)" if "n \<le> room" for n
    using m r that by (simp add: memcpy_def take_map)
  show ?thesis
  proof (cases "room < length s")
    case True
    then have lt: "sb_sz b < of_nat (length s)" using u m(2) by (simp add: word_less_nat_alt)
    have n: "unat (sb_sz b - 1) = room - 1" using m(2) r(1) by (simp add: unat_sub word_le_nat_alt)
    from m(4) r(1) have "length (drop (room - 1) rest) = Suc 0" by simp
    then obtain c where "drop (room - 1) rest = [c]" by (auto simp: length_Suc_conv simp del: length_drop)
    moreover have "length pre + (room - 1) = length (map Some (pre @ take (room - 1) s))"
      using r by simp
    ultimately have "(map Some pre @ map Some (take (room - 1) s) @ drop (room - 1) rest)[length pre + (room - 1) := Some NUL]
        = map Some (pre @ take (room - 1) s @ [NUL])"
      using list_update_length [of "map Some (pre @ take (room - 1) s)" c "[]" "Some NUL"] by simp
    then have "addstr b (map Some s @ q) (of_nat (length s)) =
        Some (0, b\<lparr>sb_mem := map Some (pre @ take (room - 1) s @ [NUL]),
                   sb_buf := length pre + (room - 1), sb_sz := 0\<rparr>)"
      using lt n copy [of "room - 1"] m r by (simp add: addstr_def put_char_def)
    then show ?thesis using r by (auto simp: trace_end_def)
  next
    case False
    then have eq: "room = length s" using r by simp
    then have z: "sb_sz b = of_nat (length s)" using u m(2) by (simp add: word_unat_eq_iff)
    have addeq: "addstr b (map Some s @ q) (of_nat (length s)) =
        Some (0, b\<lparr>sb_mem := map Some (pre @ s), sb_buf := length pre + length s, sb_sz := 0\<rparr>)"
      using z u copy [of room] m eq by (simp add: addstr_def)
    have last: "pre @ s = take (length pre + room - 1) (pre @ s @ T) @ [(pre @ s @ T) ! (length pre + room - 1)]" for T
    proof -
      from eq r(1) obtain k where k: "length s = Suc k" "room = Suc k" by (cases s) auto
      have "take k s @ [s ! k] = s" using take_Suc_conv_app_nth [of k s] k(1) by simp
      then show ?thesis using k by (simp add: nth_append)
    qed
    have "trace_end (pre @ s @ T) (length pre + room) True
        (b\<lparr>sb_mem := map Some (pre @ s), sb_buf := length pre + length s, sb_sz := 0\<rparr>)" for T
      unfolding trace_end_def if_True strbuff.simps
      by (intro conjI exI [of _ "(pre @ s @ T) ! (length pre + room - 1)"])
        (simp_all only: last [of T, symmetric], simp_all add: eq)
    then show ?thesis using addeq by blast
  qed
qed

lemma appends_addstr:
  "length s < 2 ^ 64 \<Longrightarrow> appends (\<lambda>b. addstr b (map Some s @ q) (of_nat (length s))) s"
  unfolding appends_def using addstr_fits addstr_full by (metis not_less)

lemma appends_literal: "length s < 2 ^ 64 \<Longrightarrow> appends (\<lambda>b. addliteral b s) s"
  unfolding addliteral_def c_literal_def by (rule appends_addstr)

lemma appends_format:
  assumes "length s < 1024"
  shows "appends (\<lambda>b. addformat b s) s"
proof -
  from snprintf_fits [OF assms] obtain rest where
    "snprintf 1024 s = (int (length s), map Some s @ rest)" by blast
  with appends_addstr [of s rest] assms show ?thesis by (simp add: addformat_def)
qed

text \<open>A sequence of such steps, each taken if the one before has left room.\<close>

fun add_all :: "(strbuff \<Rightarrow> (u64 \<times> strbuff) option) list \<Rightarrow> strbuff \<Rightarrow> (bool \<times> strbuff) option" where
  "add_all [] b = Some (False, b)"
| "add_all (f # fs) b = Option.bind (f b) (\<lambda>(r, b). if r = 0 then Some (True, b) else add_all fs b)"

lemma add_all_text:
  "list_all2 appends fs ss \<Longrightarrow> strbuff_at b pre room \<Longrightarrow> 0 < room \<Longrightarrow>
   \<exists>full b2. add_all fs b = Some (full, b2) \<and> trace_end (pre @ concat ss) (length pre + room) full b2"
proof (induction fs ss arbitrary: b pre room rule: list_all2_induct)
  case Nil
  then show ?case by (intro exI [of _ False] exI [of _ b]) (simp add: trace_end_def)
next
  case (Cons f fs s ss)
  from Cons.hyps(1) Cons.prems obtain r b' where f: "f b = Some (r, b')"
    "if length s < room then r \<noteq> 0 \<and> strbuff_at b' (pre @ s) (room - length s)
     else r = 0 \<and> (\<forall>T. trace_end (pre @ s @ T) (length pre + room) True b')"
    unfolding appends_def by blast
  then show ?case using Cons.IH [of b' "pre @ s" "room - length s"] by (cases "length s < room") auto
qed

section \<open>The text of a trace\<close>

definition name_text :: "lua_Debug \<Rightarrow> string" where
  "name_text ar =
     (if ar_namewhat ar \<noteq> [] then funcname_text ar
      else if ar_what ar = CHR ''m'' then ''main chunk''
      else if ar_what ar \<noteq> CHR ''C'' then funcname_text ar
      else ''?'')"

definition frame_text :: "lua_Debug \<Rightarrow> string" where
  "frame_text ar = line_text ar @ name_text ar @ [CHR 0x0A] @
     (if ar_istailcall ar then ''(...tail calls...)'' @ [CHR 0x0A] else [])"

text \<open>The formatted parts fit the local arrays of 1024 bytes.\<close>

definition frame_fits :: "lua_Debug \<Rightarrow> bool" where
  "frame_fits ar \<longleftrightarrow> length (line_text ar) < 1024 \<and> length (funcname_text ar) < 1024"

lemma appends_funcname: "frame_fits ar \<Longrightarrow> appends (addfuncname ar) (name_text ar)"
  using appends_format [of "funcname_text ar"] appends_literal [of "''main chunk''"] appends_literal [of "''?''"]
  by (auto simp: addfuncname_def [abs_def] name_text_def frame_fits_def)

definition frame_steps :: "lua_Debug \<Rightarrow> (strbuff \<Rightarrow> (u64 \<times> strbuff) option) list" where
  "frame_steps ar = [\<lambda>b. addformat b (line_text ar), addfuncname ar, \<lambda>b. addliteral b [CHR 0x0A]] @
     (if ar_istailcall ar then [\<lambda>b. addliteral b (''(...tail calls...)'' @ [CHR 0x0A])] else [])"

definition frame_parts :: "lua_Debug \<Rightarrow> string list" where
  "frame_parts ar = [line_text ar, name_text ar, [CHR 0x0A]] @
     (if ar_istailcall ar then [''(...tail calls...)'' @ [CHR 0x0A]] else [])"

lemma concat_frame_parts: "concat (frame_parts ar) = frame_text ar"
  by (simp add: frame_parts_def frame_text_def)

lemma backtrace_loop_steps: "backtrace_loop ars b = add_all (concat (map frame_steps ars)) b"
  by (induction ars b rule: backtrace_loop.induct)
    (auto simp: frame_steps_def split: option.splits prod.splits bind_splits)

lemma frame_steps_append:
  assumes "frame_fits ar"
  shows "list_all2 appends (frame_steps ar) (frame_parts ar)"
  using assms appends_format [of "line_text ar"] appends_funcname [of ar]
    appends_literal [of "[CHR 0x0A]"] appends_literal [of "''(...tail calls...)'' @ [CHR 0x0A]"]
  by (simp add: frame_steps_def frame_parts_def frame_fits_def)

lemma concat_map_concat: "concat (concat (map f xs)) = concat (map (\<lambda>x. concat (f x)) xs)"
  by (induction xs) auto

lemma backtrace_loop_text:
  assumes "list_all frame_fits ars" and "strbuff_at b pre room" and "0 < room"
  shows "\<exists>full b2. backtrace_loop ars b = Some (full, b2)
     \<and> trace_end (pre @ concat (map frame_text ars)) (length pre + room) full b2"
proof -
  have "list_all2 appends (concat (map frame_steps ars)) (concat (map frame_parts ars))"
    using assms(1) by (induction ars) (auto intro: list_all2_appendI frame_steps_append)
  from add_all_text [OF this assms(2,3)] show ?thesis
    by (simp add: backtrace_loop_steps concat_map_concat concat_frame_parts)
qed

section \<open>Properties\<close>

text \<open>The frames \<open>service_backtrace\<close> walks over.\<close>

definition traced_frames :: "(ptr \<Rightarrow> lua_Debug list) \<Rightarrow> ptr \<Rightarrow> lua_Debug list" where
  "traced_frames stack L = stack (find_running_co L (stack L))"

lemma service_backtrace_spec:
  assumes "get_service p i = Some S" and "s_L S \<noteq> 0"
    and "list_all frame_fits (traced_frames stack (s_L S))"
    and "length buf = unat sz" and "0 < sz" and "sz < 2 ^ 31"
  shows "\<exists>n buf'. service_backtrace stack p i buf sz = Some (n, buf') \<and> length buf' = unat sz \<and>
    (let T = concat (map frame_text (traced_frames stack (s_L S)))
     in if length T < unat sz
        then n = int (length T) \<and> take (length T) buf' = map Some T
        else n = int (unat sz) \<and> (\<exists>c. (c = NUL \<or> c = T ! (unat sz - 1))
               \<and> buf' = map Some (take (unat sz - 1) T @ [c])))"
proof -
  let ?fr = "traced_frames stack (s_L S)" and ?b = "\<lparr>sb_mem = buf, sb_buf = 0, sb_sz = sz\<rparr>"
  let ?T = "concat (map frame_text ?fr)"
  have pos: "0 < unat sz" using assms(5) by (simp add: word_less_nat_alt)
  have "strbuff_at ?b [] (unat sz)" using assms(4) by (simp add: strbuff_at_def)
  from backtrace_loop_text [OF assms(3) this pos] obtain full b where
    loop: "backtrace_loop ?fr ?b = Some (full, b)" and out: "trace_end ?T (unat sz) full b" by auto
  have small: "sint (ucast w :: u32) = int (unat w)" if "w \<le> sz" for w :: u64
  proof -
    have "w < 2 ^ 31" using that assms(6) by (rule le_less_trans)
    then have "uint w < 2 ^ 31" by (simp add: word_less_def)
    moreover have "- (2 ^ 31) \<le> uint w" by (rule order_trans [of _ 0]) simp_all
    ultimately show ?thesis
      by (simp add: sint_uint unsigned_ucast_eq take_bit_int_eq_self signed_take_bit_int_eq_self)
  qed
  have "Suc (unat sz - Suc 0) = unat sz" using pos by simp
  then have len: "length (sb_mem b) = unat sz" using out by (auto simp: trace_end_def strbuff_at_def split: if_splits)
  show ?thesis
  proof (cases full)
    case True
    from out True obtain c where c: "unat sz \<le> length ?T" "c = NUL \<or> c = ?T ! (unat sz - 1)"
      "sb_mem b = map Some (take (unat sz - 1) ?T @ [c])" by (auto simp: trace_end_def)
    have "service_backtrace stack p i buf sz = Some (int (unat sz), sb_mem b)"
      using loop assms(1,2) small [of sz] True
      by (simp add: service_backtrace_def traced_frames_def Let_def)
    moreover have "\<not> length ?T < unat sz" using c(1) by simp
    ultimately show ?thesis using c(2,3) len by (metis (no_types, lifting))
  next
    case False
    with out have at: "length ?T < unat sz" "strbuff_at b ?T (unat sz - length ?T)"
      by (simp_all add: trace_end_def)
    then have le: "sb_sz b \<le> sz" and d: "unat (sz - sb_sz b) = length ?T"
      by (auto simp: strbuff_at_def word_le_nat_alt unat_sub)
    have "sz - sb_sz b \<le> sz" using le d at(1) by (simp add: word_le_nat_alt)
    from small [OF this] d have "sint (ucast (sz - sb_sz b) :: u32) = int (length ?T)" by simp
    with at False len show ?thesis
      using loop assms(1,2)
      by (intro exI [of _ "int (length ?T)"] exI [of _ "sb_mem b"])
        (auto simp: service_backtrace_def traced_frames_def strbuff_at_def Let_def)
  qed
qed

text \<open>
  C33: a backtrace stays in the buffer it is given and is a prefix of the stack's text. If every
  formatted part fits the local arrays (\<open>frame_fits\<close>: the line and the name of every frame shown are
  shorter than 1024; a longer name is read past its end, \<open>long_name_overreads\<close>), \<open>service_backtrace\<close> with a buffer of \<open>sz\<close> bytes
  returns, and the bytes it answers for are all written: the whole text if it is shorter than
  \<open>sz\<close>, and otherwise \<open>sz\<close> bytes of it, of which the last may be a terminator.
\<close>

theorem backtrace_in_bounds:
  assumes "get_service p i = Some S" and "s_L S \<noteq> 0"
    and "list_all frame_fits (traced_frames stack (s_L S))"
    and "length buf = unat sz" and "0 < sz" and "sz < 2 ^ 31"
  shows "\<exists>n buf'. service_backtrace stack p i buf sz = Some (n, buf') \<and> length buf' = unat sz \<and>
    (let T = concat (map frame_text (traced_frames stack (s_L S)))
     in if length T < unat sz
        then n = int (length T) \<and> take (length T) buf' = map Some T
        else n = int (unat sz) \<and> (\<exists>c. (c = NUL \<or> c = T ! (unat sz - 1))
               \<and> buf' = map Some (take (unat sz - 1) T @ [c])))"
  by (rule service_backtrace_spec [OF assms])

definition main_frame :: lua_Debug where
  "main_frame = \<lparr>ar_short_src = ''m.lua'', ar_currentline = 3, ar_namewhat = [], ar_name = [],
     ar_what = CHR ''m'', ar_linedefined = 0, ar_istailcall = False, ar_nparams = 0,
     ar_local1_thread = None\<rparr>"

definition traced_pool :: service_pool where
  "traced_pool = \<lparr>p_mask = 1, p_queue_length = 2, p_id = 2,
     p_s = [None, Some ((fresh_service 1)\<lparr>s_L := 8\<rparr>)], p_malloc = [], p_freed = [], p_closed = []\<rparr>"

lemma show_nat_digit: "show_nat 3 = ''3''" "show_nat 0 = ''0''"
  by code_simp+

lemma main_frame_text: "frame_text main_frame = ''m.lua:3: in main chunk'' @ [CHR 0x0A]" "frame_fits main_frame"
  by (simp_all add: frame_text_def line_text_def name_text_def main_frame_def frame_fits_def funcname_text_def
    show_int_def show_nat_digit)

theorem backtrace_in_bounds_witness:
  "\<exists>n buf'. service_backtrace (\<lambda>L. [main_frame]) traced_pool 1 (replicate 16 None) 16 = Some (n, buf')
    \<and> n = 16 \<and> length buf' = 16"
proof -
  let ?S = "(fresh_service 1)\<lparr>s_L := 8\<rparr>"
  have S: "get_service traced_pool 1 = Some ?S"
    by (simp add: get_service_def slot_ref_def service_slot_def traced_pool_def fresh_service_def)
  have fr: "concat (map frame_text (traced_frames (\<lambda>L. [main_frame]) 8)) = frame_text main_frame"
    "list_all frame_fits (traced_frames (\<lambda>L. [main_frame]) 8)"
    by (simp_all add: traced_frames_def main_frame_text(2))
  have "\<not> length (frame_text main_frame) < 16" by (simp add: main_frame_text(1))
  with backtrace_in_bounds [OF S, of "\<lambda>L. [main_frame]" "replicate 16 None" 16] fr show ?thesis
    by (simp add: Let_def del: length_Cons) blast
qed

text \<open>
  A function name that does not fit \<open>char name[1024]\<close>: \<open>snprintf\<close> answers the length it would
  have needed, and \<open>addstr\<close> reads past the end of the array.
\<close>

lemma long_name_overreads:
  assumes "strbuff_at b pre room" and "1024 < length s" and "length s < room"
  shows "addformat b s = None"
proof -
  from assms(1) have "room < 2 ^ 64"
    using unsigned_less [of "sb_sz b", where ?'a = nat] by (auto simp: strbuff_at_def)
  then have u: "unat (word_of_int (int (length s)) :: u64) = length s"
    using assms(3) by (simp add: unat_of_nat take_bit_nat_eq_self)
  have "length (snd (snprintf 1024 s)) = 1024" using assms(2) by (simp add: snprintf_def Let_def)
  then show ?thesis
    using assms u
    by (simp add: addformat_def addstr_def snprintf_def Let_def memcpy_def strbuff_at_def word_less_nat_alt)
qed

end
