(* ===== verification/Systime.thy ===== *)
theory Systime
  imports Prelude
begin

text \<open>
  The clock readings of \<open>systime.c\<close>: what the code computes from what the system call fills in,
  in each of the three branches for systems with \<open>clock_gettime\<close>, for Windows and for an old
  macOS. The unit of \<open>systime_wall\<close> and \<open>systime_mono\<close> is the hundredth of a second; that of
  \<open>systime_counter\<close> is the one \<open>systime_frequency\<close> tells.
\<close>

record timespec =
  tv_sec :: int
  tv_nsec :: int

definition systime_wall :: "timespec \<Rightarrow> u64" where
  "systime_wall ti = word_of_int (tv_sec ti) * 100 + word_of_int (tv_nsec ti div 10000000)"

definition systime_mono :: "timespec \<Rightarrow> u64" where
  "systime_mono ti = word_of_int (tv_sec ti) * 100 + word_of_int (tv_nsec ti div 10000000)"

text \<open>\<open>clock\<close> answers \<open>CLOCK_THREAD_CPUTIME_ID\<close> for \<^term>\<open>True\<close> and \<open>CLOCK_MONOTONIC\<close>
  for \<^term>\<open>False\<close>; \<open>systime_counter_of\<close> is the function \<open>systime_counter_\<close>.\<close>

definition systime_counter_of :: "(bool \<Rightarrow> timespec) \<Rightarrow> int \<Rightarrow> u64" where
  "systime_counter_of clock thread_timer =
     (let now = clock (thread_timer \<noteq> 0)
      in word_of_int (tv_sec now) * 1000000000 + word_of_int (tv_nsec now))"

definition systime_counter :: "(bool \<Rightarrow> timespec) \<Rightarrow> u64" where
  "systime_counter clock = systime_counter_of clock 0"

definition systime_thread :: "(bool \<Rightarrow> timespec) \<Rightarrow> u64" where
  "systime_thread clock = systime_counter_of clock 1"

definition systime_frequency :: u64 where
  "systime_frequency = 1000000000"

text \<open>A normalised \<open>timespec\<close> of a clock that has not run for two billion years.\<close>

definition timespec_ok :: "timespec \<Rightarrow> bool" where
  "timespec_ok ti \<longleftrightarrow> 0 \<le> tv_sec ti \<and> tv_sec ti < 2 ^ 56 \<and> 0 \<le> tv_nsec ti \<and> tv_nsec ti < 10 ^ 9"

definition timespec_le :: "timespec \<Rightarrow> timespec \<Rightarrow> bool" where
  "timespec_le a b \<longleftrightarrow> tv_sec a < tv_sec b \<or> tv_sec a = tv_sec b \<and> tv_nsec a \<le> tv_nsec b"

lemma uint_systime_mono:
  assumes "timespec_ok ti"
  shows "uint (systime_mono ti) = tv_sec ti * 100 + tv_nsec ti div 10000000"
proof -
  have "systime_mono ti = word_of_int (tv_sec ti * 100 + tv_nsec ti div 10000000)"
    by (simp add: systime_mono_def)
  moreover have "0 \<le> tv_sec ti * 100 + tv_nsec ti div 10000000"
    "tv_sec ti * 100 + tv_nsec ti div 10000000 < 2 ^ 64"
    using assms by (auto simp: timespec_ok_def)
  ultimately show ?thesis
    by (simp only: unsigned_of_int take_bit_int_eq_self len_of_numeral_defs) (simp add: take_bit_int_eq_self)
qed

text \<open>
  The readings fit the timer. Two readings of a clock that does not run backwards, less
  than 21474836 seconds (248 days) apart, are in order and less than \<open>2 ^ 31\<close> ticks apart, so
  the second neither wraps nor takes the branch of a clock that went back, and the tick loop of
  the timer does not overflow.
\<close>

theorem clock_readings_fit:
  assumes "timespec_ok a" "timespec_ok b" "timespec_le a b" "tv_sec b - tv_sec a < 21474836"
  shows "systime_mono a \<le> systime_mono b \<and> unat (systime_mono b - systime_mono a) < 2 ^ 31"
proof -
  let ?a = "tv_sec a * 100 + tv_nsec a div 10000000" and ?b = "tv_sec b * 100 + tv_nsec b div 10000000"
  have ns: "0 \<le> tv_nsec a div 10000000" "tv_nsec a div 10000000 < 100"
    "0 \<le> tv_nsec b div 10000000" "tv_nsec b div 10000000 < 100"
    using assms(1,2) by (auto simp: timespec_ok_def)
  have "?a \<le> ?b"
  proof (cases "tv_sec a = tv_sec b")
    case True
    then show ?thesis using assms(3) by (simp add: timespec_le_def zdiv_mono1)
  next
    case False
    then have "tv_sec a + 1 \<le> tv_sec b" using assms(3) by (auto simp: timespec_le_def)
    then show ?thesis using ns by linarith
  qed
  then have le: "systime_mono a \<le> systime_mono b"
    by (simp add: word_le_def uint_systime_mono assms)
  have "uint (systime_mono b - systime_mono a) = ?b - ?a"
    using le by (simp add: uint_sub_if' word_le_def uint_systime_mono assms)
  also have "\<dots> < 2 ^ 31" using assms(4) ns by simp
  finally have "unat (systime_mono b - systime_mono a) < 2 ^ 31"
    by (simp only: unat_eq_nat_uint nat_less_iff uint_ge_0) simp
  with le show ?thesis by simp
qed

theorem clock_readings_fit_witness:
  "systime_mono \<lparr>tv_sec = 10, tv_nsec = 999999999\<rparr> \<le> systime_mono \<lparr>tv_sec = 11, tv_nsec = 0\<rparr> \<and>
   unat (systime_mono \<lparr>tv_sec = 11, tv_nsec = 0\<rparr> - systime_mono \<lparr>tv_sec = 10, tv_nsec = 999999999\<rparr>)
     < 2 ^ 31"
  by (rule clock_readings_fit) (simp_all add: timespec_ok_def timespec_le_def)

section \<open>The other branches\<close>

text \<open>Windows: \<open>FILETIME\<close> counts units of 100 ns since 1601, \<open>GetTickCount64\<close> milliseconds.\<close>

record filetime =
  dwHighDateTime :: u32
  dwLowDateTime :: u32

definition systime_wall_windows :: "filetime \<Rightarrow> u64" where
  "systime_wall_windows f =
     (let t = push_bit 32 (ucast (dwHighDateTime f)) OR ucast (dwLowDateTime f)
      in t div 100000 - 1164447360000)"

definition systime_mono_windows :: "u64 \<Rightarrow> u64" where
  "systime_mono_windows ticks = ticks div 10"

text \<open>An old macOS: \<open>gettimeofday\<close>, also for the clock that is meant to be monotonic.\<close>

record timeval =
  tv_tsec :: int
  tv_usec :: int

definition systime_wall_macos :: "timeval \<Rightarrow> u64" where
  "systime_wall_macos tv = word_of_int (tv_tsec tv) * 100 + word_of_int (tv_usec tv div 10000)"

definition systime_mono_macos :: "timeval \<Rightarrow> u64" where
  "systime_mono_macos tv = word_of_int (tv_tsec tv) * 100 + word_of_int (tv_usec tv div 10000)"

definition systime_counter_macos :: "timeval \<Rightarrow> u64" where
  "systime_counter_macos now = word_of_int (tv_tsec now) * 1000000 + word_of_int (tv_usec now)"

definition systime_frequency_macos :: u64 where
  "systime_frequency_macos = 1000000"

text \<open>
  The same instant in the three formats, from the number of nanoseconds since 1970: whole
  seconds and a rest for \<open>timespec\<close> and \<open>timeval\<close>; the two halves of a count that began 369 years
  (11644473600 seconds) earlier for \<open>FILETIME\<close>.
\<close>

definition timespec_of :: "int \<Rightarrow> timespec" where
  "timespec_of n = \<lparr>tv_sec = n div 10 ^ 9, tv_nsec = n mod 10 ^ 9\<rparr>"

definition timeval_of :: "int \<Rightarrow> timeval" where
  "timeval_of n = \<lparr>tv_tsec = n div 10 ^ 9, tv_usec = n mod 10 ^ 9 div 1000\<rparr>"

definition filetime_of :: "int \<Rightarrow> filetime" where
  "filetime_of n = (let u = n div 100 + 11644473600 * 10 ^ 7
     in \<lparr>dwHighDateTime = word_of_int (u div 2 ^ 32), dwLowDateTime = word_of_int (u mod 2 ^ 32)\<rparr>)"

lemma div_parts:
  fixes n :: int
  assumes "0 < d"
  shows "n div (d * e) * e + n mod (d * e) div d = n div d"
proof -
  have "n div d = (n div (d * e) * (d * e) + n mod (d * e)) div d" by (simp only: div_mult_mod_eq)
  also have "\<dots> = (n mod (d * e) + n div (d * e) * e * d) div d" by (simp only: ac_simps)
  also have "\<dots> = n div (d * e) * e + n mod (d * e) div d" using assms by simp
  finally show ?thesis by simp
qed

lemma div_div: "0 \<le> e \<Longrightarrow> n div d div e = (n :: int) div (d * e)"
  by (simp only: zdiv_zmult2_eq)

lemma seconds_word:
  assumes "n div 1000000000 * k + m = l"
  shows "(word_of_int (n div 1000000000) * word_of_int k + word_of_int m :: u64) = word_of_int l"
  unfolding assms [symmetric] by (simp only: of_int_add of_int_mult)

lemma centiseconds_word:
  "(word_of_int (n div 1000000000) * 100 + word_of_int (n mod 1000000000 div 10000000) :: u64) = word_of_int (n div 10000000)"
proof -
  have "n div 1000000000 * 100 + n mod 1000000000 div 10000000 = n div 10000000"
    using div_parts [of 10000000 n 100] by simp
  from seconds_word [OF this] show ?thesis by (simp only: of_int_numeral)
qed

lemma timespec_of_fields: "tv_sec (timespec_of n) = n div 1000000000" "tv_nsec (timespec_of n) = n mod 1000000000"
  and timeval_of_fields: "tv_tsec (timeval_of n) = n div 1000000000" "tv_usec (timeval_of n) = n mod 1000000000 div 1000"
  by (simp_all add: timespec_of_def timeval_of_def)

lemma timespec_clocks:
  "systime_wall (timespec_of n) = word_of_int (n div 10000000)" "systime_mono (timespec_of n) = word_of_int (n div 10000000)"
  by (simp_all only: systime_wall_def systime_mono_def timespec_of_fields centiseconds_word)

lemma timeval_clocks:
  "systime_wall_macos (timeval_of n) = word_of_int (n div 10000000)" "systime_mono_macos (timeval_of n) = word_of_int (n div 10000000)"
proof -
  have "n mod 1000000000 div 1000 div 10000 = n mod 1000000000 div 10000000" by (subst div_div) simp_all
  then show "systime_wall_macos (timeval_of n) = word_of_int (n div 10000000)"
    "systime_mono_macos (timeval_of n) = word_of_int (n div 10000000)"
    by (simp_all only: systime_wall_macos_def systime_mono_macos_def timeval_of_fields centiseconds_word)
qed

lemma filetime_halves:
  "(push_bit 32 (ucast (word_of_int (u div 2 ^ 32) :: u32)) OR ucast (word_of_int (u mod 2 ^ 32) :: u32) :: u64)
     = word_of_int u"
proof -
  have "bit (push_bit 32 (ucast (word_of_int (drop_bit 32 u) :: u32)) OR ucast (word_of_int (take_bit 32 u) :: u32) :: u64) i
      = bit (word_of_int u :: u64) i" if "i < LENGTH(64)" for i
    using that by (cases "i < 32") (auto simp: bit_simps)
  then show ?thesis by (intro bit_word_eqI) (simp only: drop_bit_eq_div take_bit_eq_mod)
qed

lemma uint_word_of_int:
  "0 \<le> u \<Longrightarrow> u < 2 ^ 64 \<Longrightarrow> uint (word_of_int u :: u64) = u"
  by (simp add: uint_word_of_int_eq take_bit_int_eq_self)

lemma filetime_clock:
  assumes "0 \<le> n" and "n < 2 ^ 63"
  shows "systime_wall_windows (filetime_of n) = word_of_int (n div 10000000)"
proof -
  let ?u = "n div 100 + 11644473600 * 10 ^ 7"
  have u: "uint (word_of_int ?u :: u64) = ?u" by (rule uint_word_of_int) (use assms in auto)
  have "?u div 100000 = (n div 100 + 1164447360000 * 100000) div 100000" by simp
  also have "\<dots> = n div 100 div 100000 + 1164447360000" by (subst div_mult_self1) simp_all
  also have "\<dots> = n div 10000000 + 1164447360000" by (subst div_div) simp_all
  finally have "?u div 100000 = n div 10000000 + 1164447360000" .
  moreover have "(word_of_int ?u :: u64) div 100000 = word_of_int (?u div 100000)"
    by (simp only: word_div_def u) simp
  ultimately have "(word_of_int ?u :: u64) div 100000 = word_of_int (n div 10000000) + 1164447360000" by simp
  then show ?thesis
    by (simp only: systime_wall_windows_def filetime_of_def Let_def filetime.simps filetime_halves) simp
qed

lemma tick_clock:
  assumes "0 \<le> n" and "n < 2 ^ 63"
  shows "systime_mono_windows (word_of_int (n div 1000000)) = word_of_int (n div 10000000)"
proof -
  have u: "uint (word_of_int (n div 1000000) :: u64) = n div 1000000"
    by (rule uint_word_of_int) (use assms in auto)
  have "n div 1000000 div 10 = n div 10000000" by (subst div_div) simp_all
  then show ?thesis by (simp only: systime_mono_windows_def word_div_def u) simp
qed

lemma counter_units:
  assumes "0 \<le> n" and "n < 2 ^ 63"
  shows "systime_counter (\<lambda>_. timespec_of n) = word_of_int n"
    and "systime_counter_macos (timeval_of n) = word_of_int (n div 1000)"
proof -
  show "systime_counter (\<lambda>_. timespec_of n) = word_of_int n"
    unfolding systime_counter_def systime_counter_of_def Let_def timespec_of_fields
    using seconds_word [of n 1000000000 "n mod 1000000000" n] div_mult_mod_eq [of n 1000000000] by simp
  have "n div 1000000000 * 1000000 + n mod 1000000000 div 1000 = n div 1000"
    using div_parts [of 1000 n 1000000] by simp
  from seconds_word [OF this] show "systime_counter_macos (timeval_of n) = word_of_int (n div 1000)"
    by (simp only: systime_counter_macos_def timeval_of_fields of_int_numeral)
qed

lemma counter_seconds:
  assumes "0 \<le> n" and "n < 2 ^ 63"
  shows "systime_counter (\<lambda>_. timespec_of n) div systime_frequency = word_of_int (n div 1000000000)"
    and "systime_counter_macos (timeval_of n) div systime_frequency_macos = word_of_int (n div 1000000000)"
proof -
  note counter_units(1) [OF assms]
  moreover have "uint (word_of_int n :: u64) = n" by (rule uint_word_of_int) (use assms in auto)
  ultimately show "systime_counter (\<lambda>_. timespec_of n) div systime_frequency = word_of_int (n div 1000000000)"
    by (simp add: systime_frequency_def word_div_def)
  note counter_units(2) [OF assms]
  moreover have "uint (word_of_int (n div 1000) :: u64) = n div 1000" by (rule uint_word_of_int) (use assms in auto)
  moreover have "n div 1000 div 1000000 = n div 1000000000" by (subst div_div) simp_all
  ultimately show "systime_counter_macos (timeval_of n) div systime_frequency_macos = word_of_int (n div 1000000000)"
    by (simp add: systime_frequency_macos_def word_div_def)
qed

text \<open>
  C36: what the branches of the clocks give. The clocks are \<open>n\<close> nanoseconds after the start of 1970
  for the time of day and \<open>m\<close> nanoseconds after its own start for a monotonic clock (both below
  \<open>2 ^ 63\<close>; the three formats are derived from these numbers). The three branches of \<open>systime_wall\<close>
  give the same number, the hundredths of a second of \<open>n\<close>. The Windows branch and the
  \<open>clock_gettime\<close> branch of \<open>systime_mono\<close> give the hundredths of a second of \<open>m\<close>; the branch for an
  old macOS gives those of the time of day, the same number as \<open>systime_wall\<close>. The counters have
  different units and clocks, nanoseconds of \<open>m\<close> under \<open>clock_gettime\<close> and microseconds of the time of
  day on an old macOS; only after a division by \<open>systime_frequency\<close> each gives the whole seconds of
  its own clock. The Windows counter hands on what the system answers and is not covered.
\<close>

theorem clock_branches_agree:
  assumes "0 \<le> n" and "n < 2 ^ 63" and "0 \<le> m" and "m < 2 ^ 63"
  shows "uint (systime_wall (timespec_of n)) = n div 10000000
    \<and> systime_wall_windows (filetime_of n) = systime_wall (timespec_of n)
    \<and> systime_wall_macos (timeval_of n) = systime_wall (timespec_of n)
    \<and> uint (systime_mono (timespec_of m)) = m div 10000000
    \<and> systime_mono_windows (word_of_int (m div 1000000)) = systime_mono (timespec_of m)
    \<and> systime_mono_macos (timeval_of n) = systime_wall_macos (timeval_of n)
    \<and> uint (systime_counter (\<lambda>_. timespec_of m)) = m
    \<and> uint (systime_counter_macos (timeval_of n)) = n div 1000
    \<and> uint (systime_counter (\<lambda>_. timespec_of m) div systime_frequency) = m div 1000000000
    \<and> uint (systime_counter_macos (timeval_of n) div systime_frequency_macos) = n div 1000000000"
proof -
  have u: "uint (word_of_int (x div d) :: u64) = x div d" if "0 \<le> x" "x < 2 ^ 63" "0 < d" for x d
  proof (rule uint_word_of_int)
    show "0 \<le> x div d" using that by (simp add: pos_imp_zdiv_nonneg_iff)
    have "x div d \<le> x div 1" by (rule zdiv_mono2) (use that in auto)
    then show "x div d < 2 ^ 64" using that(2) by simp
  qed
  from u [OF assms(3,4), of 1] have "uint (word_of_int m :: u64) = m" by simp
  moreover have "uint (systime_counter (\<lambda>_. timespec_of m) div systime_frequency) = m div 1000000000"
    "uint (systime_counter_macos (timeval_of n) div systime_frequency_macos) = n div 1000000000"
    unfolding counter_seconds(1) [OF assms(3,4)] counter_seconds(2) [OF assms(1,2)]
    using u [OF assms(3,4), of 1000000000] u [OF assms(1,2), of 1000000000] by simp_all
  ultimately show ?thesis
    using u [OF assms(1,2), of 10000000] u [OF assms(3,4), of 10000000] u [OF assms(1,2), of 1000]
    by (simp add: timespec_clocks timeval_clocks filetime_clock [OF assms(1,2)] tick_clock [OF assms(3,4)]
        counter_units(1) [OF assms(3,4)] counter_units(2) [OF assms(1,2)])
qed

theorem clock_branches_agree_witness:
  "systime_wall_windows (filetime_of (1700000000123456789)) = 170000000012
     \<and> systime_wall_macos (timeval_of (1700000000123456789)) = 170000000012
     \<and> systime_mono_windows (word_of_int (3600000000000 div 1000000)) = 360000"
proof -
  have w: "systime_wall (timespec_of (1700000000123456789)) = 170000000012"
    "systime_mono (timespec_of 3600000000000) = 360000" by (simp_all add: timespec_clocks)
  show ?thesis using clock_branches_agree [of "1700000000123456789" 3600000000000] unfolding w by simp
qed

end
