(* ===== verification/Debuglog.thy ===== *)
theory Debuglog
  imports Cstring Bytes "HOL-Library.Multiset"
begin

text \<open>
  The debug log of \<open>src/debuglog.c\<close>, which only debug builds use. Every logger has a chain of
  chunks of 8000 bytes, the newest first; a line is a header of 8 bytes, \<open>memcpy\<close>ed in and out,
  and the formatted text. A thread of its own writes the older chunks of all loggers to the file
  from time to time.

  The chains of \<open>last\<close> and \<open>link\<close> pointers are lists, and a logger is named by its number, in
  order of creation; \<open>G.logger\<close> is the newest one. The text of a line is the formatted text, which
  \<open>vsnprintf\<close> cuts. \<open>malloc\<close> is taken to succeed, which the code does not check. The model is
  sequential: the code has no lock, although the logger thread flushes loggers of other threads.
\<close>

section \<open>State\<close>

definition CHUNKSIZE :: nat where "CHUNKSIZE = 8000"

record dlog_item =
  di_id :: u32
  di_size :: u32

record log_chunk =
  lc_size :: u32
  lc_buffer :: cells

record debug_logger =
  dl_name :: string
  dl_c :: "log_chunk list"

record logger_all =
  ga_logger :: "debug_logger list"
  ga_id :: u32

definition no_loggers :: logger_all where
  "no_loggers = \<lparr>ga_logger = [], ga_id = 0\<rparr>"

text \<open>The logger with the number \<open>h\<close>, as a position in the list.\<close>

definition logger_index :: "nat \<Rightarrow> nat \<Rightarrow> nat option" where
  "logger_index n h = (if h < n then Some (n - 1 - h) else None)"

section \<open>Text in memory\<close>

text \<open>\<open>memcpy\<close> of a header to the buffer, and out of it.\<close>

definition header_cells :: "dlog_item \<Rightarrow> cells" where
  "header_cells h = map (\<lambda>b. Some (char_of (unat b))) (le_bytes 4 (di_id h) @ le_bytes 4 (di_size h))"

definition header_of :: "cells \<Rightarrow> dlog_item option" where
  "header_of cs =
     (if None \<in> set cs then None
      else let bs = map (\<lambda>c. word_of_nat (of_char (the c)) :: byte) cs
           in Some \<lparr>di_id = le_word (take 4 bs), di_size = le_word (drop 4 bs)\<rparr>)"

definition read_header :: "cells \<Rightarrow> nat \<Rightarrow> dlog_item option" where
  "read_header buf pos = do {
     cs \<leftarrow> memcpy (replicate 8 None) 0 (drop pos buf) 8;
     header_of cs }"

text \<open>
  What \<open>%.*s\<close> prints: up to the terminator, and no more than the precision; a negative precision
  counts as none. With no precision it is what \<open>strdup\<close> copies.
\<close>

fun printed :: "nat option \<Rightarrow> cells \<Rightarrow> string option" where
  "printed lim [] = (if lim = Some 0 then Some [] else None)"
| "printed lim (c # cs) =
     (if lim = Some 0 then Some []
      else do {
        x \<leftarrow> c;
        if x = NUL then Some []
        else map_option ((#) x) (printed (map_option (\<lambda>n. n - 1) lim) cs) })"

definition precision :: "u32 \<Rightarrow> nat option" where
  "precision n = (if sint n < 0 then None else Some (unat n))"

text \<open>\<open>[%08u:%s] %.*s\<close> and a line feed.\<close>

definition pad8 :: "string \<Rightarrow> string" where
  "pad8 s = replicate (8 - length s) (CHR ''0'') @ s"

definition log_line :: "u32 \<Rightarrow> string \<Rightarrow> string \<Rightarrow> string" where
  "log_line i name text =
     ''['' @ pad8 (show_nat (unat i)) @ '':'' @ name @ ''] '' @ text @ [CHR 0x0A]"

section \<open>Writing\<close>

definition new_chunk :: log_chunk where
  "new_chunk = \<lparr>lc_size = 0, lc_buffer = replicate CHUNKSIZE None\<rparr>"

text \<open>The name of a numbered logger goes through \<open>char namestring[128]\<close>.\<close>

definition dlog_new :: "string \<Rightarrow> int \<Rightarrow> logger_all \<Rightarrow> logger_all option" where
  "dlog_new name i G = do {
     nm \<leftarrow> (if i < 0 then Some name
            else (case snprintf 127 (name @ show_int i) of
              (n, namestring) \<Rightarrow> do {
                namestring \<leftarrow> put_char (namestring @ [None]) (nat n) NUL;
                printed None namestring }));
     Some (G\<lparr>ga_logger := \<lparr>dl_name = nm, dl_c = [new_chunk]\<rparr> # ga_logger G\<rparr>) }"

definition dlog_flush :: "debug_logger \<Rightarrow> debug_logger option" where
  "dlog_flush logger =
     (case dl_c logger of
        [] \<Rightarrow> None
      | c # older \<Rightarrow>
          Some (if lc_size c = 0 then logger else logger\<lparr>dl_c := new_chunk # c # older\<rparr>))"

text \<open>\<open>dlog_write\<close> on one logger, with the new value of \<open>G.id\<close>.\<close>

definition write_line :: "u32 \<Rightarrow> string \<Rightarrow> debug_logger \<Rightarrow> debug_logger option" where
  "write_line i text logger = do {
     let (n, tmp) = snprintf CHUNKSIZE text;
     let header = \<lparr>di_id = i, di_size = word_of_int n\<rparr>;
     let sz = di_size header + 8;
     full \<leftarrow> (case dl_c logger of [] \<Rightarrow> None | c # _ \<Rightarrow> Some (lc_size c + sz > 8000));
     logger \<leftarrow> (if full then dlog_flush logger else Some logger);
     (case dl_c logger of
        [] \<Rightarrow> None
      | c # older \<Rightarrow> do {
          let offset = lc_size c;
          buf \<leftarrow> memcpy (lc_buffer c) (unat offset) (header_cells header) 8;
          buf \<leftarrow> memcpy buf (unat offset + 8) tmp (unat (di_size header));
          Some (logger\<lparr>dl_c := \<lparr>lc_size = sz + offset, lc_buffer = buf\<rparr> # older\<rparr>) }) }"

definition on_logger ::
  "(debug_logger \<Rightarrow> debug_logger option) \<Rightarrow> nat \<Rightarrow> logger_all \<Rightarrow> logger_all option" where
  "on_logger f h G = do {
     k \<leftarrow> logger_index (length (ga_logger G)) h;
     l \<leftarrow> f (ga_logger G ! k);
     Some (G\<lparr>ga_logger := (ga_logger G)[k := l]\<rparr>) }"

definition dlog_write :: "nat \<Rightarrow> string \<Rightarrow> logger_all \<Rightarrow> logger_all option" where
  "dlog_write h text G = on_logger (write_line (ga_id G + 1) text) h (G\<lparr>ga_id := ga_id G + 1\<rparr>)"

section \<open>Printing\<close>

function writefile_items :: "string \<Rightarrow> cells \<Rightarrow> nat \<Rightarrow> u32 \<Rightarrow> string list option" where
  "writefile_items name buf pos sz =
     (if sz = 0 then Some []
      else (case read_header buf pos of
          None \<Rightarrow> None
        | Some h \<Rightarrow> do {
            text \<leftarrow> printed (precision (di_size h)) (drop (pos + 8) buf);
            more \<leftarrow> writefile_items name buf (pos + 8 + unat (di_size h)) (sz - 8 - di_size h);
            Some (log_line (di_id h) name text # more) }))"
  by pat_completeness auto
termination
  by (relation "measure (\<lambda>(name, buf, pos, sz). length buf - pos)")
    (auto simp: read_header_def memcpy_def bind_eq_Some_conv split: if_splits)

declare writefile_items.simps [simp del]

definition writefile_chunk :: "string \<Rightarrow> log_chunk \<Rightarrow> string list option" where
  "writefile_chunk name c = writefile_items name (lc_buffer c) 0 (lc_size c)"

text \<open>The chunks of a chain, the oldest first; every one is freed.\<close>

fun writefile_all_chunk :: "string \<Rightarrow> log_chunk list \<Rightarrow> string list option" where
  "writefile_all_chunk name [] = Some []"
| "writefile_all_chunk name (c # older) = do {
     before \<leftarrow> writefile_all_chunk name older;
     these \<leftarrow> writefile_chunk name c;
     Some (before @ these) }"

definition writefile_logger :: "debug_logger \<Rightarrow> (string list \<times> debug_logger) option" where
  "writefile_logger logger =
     (case dl_c logger of
        [] \<Rightarrow> None
      | c # older \<Rightarrow>
          if older \<noteq> []
          then do {
            out \<leftarrow> writefile_all_chunk (dl_name logger) older;
            Some (out, logger\<lparr>dl_c := [c]\<rparr>) }
          else Some ([], logger))"

fun writefile_all_logger :: "debug_logger list \<Rightarrow> (string list \<times> debug_logger list) option" where
  "writefile_all_logger [] = Some ([], [])"
| "writefile_all_logger (l # link) = do {
     l \<leftarrow> dlog_flush l;
     (out, l) \<leftarrow> writefile_logger l;
     (more, link) \<leftarrow> writefile_all_logger link;
     Some (out @ more, l # link) }"

definition dlog_writefile :: "logger_all \<Rightarrow> (string list \<times> logger_all) option" where
  "dlog_writefile G = do {
     (out, ls) \<leftarrow> writefile_all_logger (ga_logger G);
     Some (out, G\<lparr>ga_logger := ls\<rparr>) }"

lemma writefile_all_logger_length:
  "writefile_all_logger ls = Some (out, ls') \<Longrightarrow> length ls' = length ls"
  by (induction ls arbitrary: out ls') (auto simp: bind_eq_Some_conv)

text \<open>The loop of \<open>dlog_close\<close>: what is printed, while the loggers are freed one by one.\<close>

function close_loop :: "debug_logger list \<Rightarrow> string list option" where
  "close_loop [] = Some []"
| "close_loop (l # link) =
     (case dlog_flush l of
        None \<Rightarrow> None
      | Some l \<Rightarrow>
          (case writefile_all_logger (l # link) of
             None \<Rightarrow> None
           | Some (out, ls) \<Rightarrow> map_option ((@) out) (close_loop (tl ls))))"
  by pat_completeness auto
termination
  by (relation "measure length") (auto dest!: writefile_all_logger_length simp del: writefile_all_logger.simps)

definition dlog_close :: "logger_all \<Rightarrow> (string list \<times> logger_all) option" where
  "dlog_close G = do {
     out \<leftarrow> close_loop (ga_logger G);
     Some (out, G\<lparr>ga_logger := []\<rparr>) }"

section \<open>What the buffers hold\<close>

type_synonym item = "u32 \<times> string"

definition item_cells :: "item \<Rightarrow> cells" where
  "item_cells it = header_cells \<lparr>di_id = fst it, di_size = of_nat (length (snd it))\<rparr> @ map Some (snd it)"

definition items_cells :: "item list \<Rightarrow> cells" where
  "items_cells its = concat (map item_cells its)"

definition item_ok :: "item \<Rightarrow> bool" where
  "item_ok it \<longleftrightarrow> length (snd it) + 8 \<le> CHUNKSIZE \<and> NUL \<notin> set (snd it)"

definition chunk_rep :: "log_chunk \<Rightarrow> item list \<Rightarrow> bool" where
  "chunk_rep c its \<longleftrightarrow> list_all item_ok its \<and> length (lc_buffer c) = CHUNKSIZE
     \<and> (\<exists>rest. lc_buffer c = items_cells its @ rest) \<and> lc_size c = of_nat (length (items_cells its))"

definition logger_rep :: "debug_logger \<Rightarrow> string \<times> item list \<Rightarrow> bool" where
  "logger_rep l b \<longleftrightarrow> dl_name l = fst b
     \<and> (\<exists>parts. parts \<noteq> [] \<and> list_all2 chunk_rep (dl_c l) parts \<and> snd b = concat (rev parts))"

lemma length_header_cells [simp]: "length (header_cells h) = 8"
  by (simp add: header_cells_def)

lemma length_item_cells [simp]: "length (item_cells it) = 8 + length (snd it)"
  by (simp add: item_cells_def)

lemma item_cells_nonempty [simp]: "item_cells it \<noteq> []"
  by (simp flip: length_0_conv)

lemma items_cells_simps [simp]:
  "items_cells [] = []" "items_cells (it # its) = item_cells it @ items_cells its"
  "items_cells (its @ its') = items_cells its @ items_cells its'"
  by (simp_all add: items_cells_def)

lemma header_of_cells: "header_of (header_cells h) = Some h"
proof -
  have "word_of_nat (of_char (char_of (unat b) :: char)) = b" for b :: byte
    using unsigned_less [of b, where ?'a = nat] by simp
  then have "map (\<lambda>c. word_of_nat (of_char (the c)) :: byte) (header_cells h) =
      le_bytes 4 (di_id h) @ le_bytes 4 (di_size h)"
    by (simp add: header_cells_def comp_def)
  then show ?thesis
    by (auto simp: header_of_def header_cells_def Let_def le_word_inverse)
qed

lemma read_header_cells: "read_header (pre @ header_cells h @ rest) (length pre) = Some h"
  using header_of_cells [of h] by (simp add: read_header_def memcpy_def)

lemma printed_text:
  "NUL \<notin> set s \<Longrightarrow> printed (Some (length s)) (map Some s @ rest) = Some s"
  by (induction s) (auto, cases rest, auto)

lemma printed_string: "NUL \<notin> set s \<Longrightarrow> printed None (map Some s @ Some NUL # rest) = Some s"
  by (induction s) auto

lemma unat_small: "k \<le> CHUNKSIZE + CHUNKSIZE \<Longrightarrow> unat (of_nat k :: u32) = k"
  by (simp add: unat_of_nat take_bit_nat_eq_self CHUNKSIZE_def)

lemma writefile_items_cells:
  assumes "list_all item_ok its" and "length (items_cells its) \<le> CHUNKSIZE"
  shows "writefile_items name (pre @ items_cells its @ rest) (length pre) (of_nat (length (items_cells its))) =
    Some (map (\<lambda>(i, text). log_line i name text) its)"
  using assms
proof (induction its arbitrary: pre)
  case Nil
  then show ?case by (simp add: writefile_items.simps)
next
  case (Cons it its)
  obtain i s where it: "it = (i, s)" by fastforce
  let ?n = "length s" and ?m = "length (items_cells its)"
  let ?h = "\<lparr>di_id = i, di_size = of_nat ?n\<rparr>"
  let ?buf = "pre @ items_cells (it # its) @ rest"
  have ok: "NUL \<notin> set s" "8 + ?n + ?m \<le> 8000"
    using Cons.prems it by (auto simp: item_ok_def CHUNKSIZE_def)
  have u: "unat (of_nat ?n :: u32) = ?n" "\<not> sint (of_nat ?n :: u32) < 0"
    using ok(2) by (simp_all add: unat_small CHUNKSIZE_def signed_of_nat signed_take_bit_int_eq_self)
  have nz: "(of_nat (length (items_cells (it # its))) :: u32) \<noteq> 0"
  proof
    assume "(of_nat (length (items_cells (it # its))) :: u32) = 0"
    then have "unat (of_nat (length (items_cells (it # its))) :: u32) = 0" by (simp only: unat_0)
    with Cons.prems(2) show False by (subst (asm) unat_small) (simp_all add: CHUNKSIZE_def)
  qed
  have h: "read_header ?buf (length pre) = Some ?h"
    using read_header_cells [of pre ?h "map Some s @ items_cells its @ rest"]
    by (simp add: it item_cells_def)
  have t: "printed (precision (di_size ?h)) (drop (length pre + 8) ?buf) = Some s"
    using printed_text [OF ok(1)] u by (simp add: it item_cells_def precision_def)
  have "writefile_items name ?buf (length pre + 8 + ?n) (of_nat ?m) =
      Some (map (\<lambda>(i, text). log_line i name text) its)"
    using Cons.IH [of "pre @ item_cells it"] Cons.prems by (simp add: it ac_simps)
  moreover have "(of_nat (length (items_cells (it # its))) :: u32) - 8 - of_nat ?n = of_nat ?m"
    by (simp add: it)
  ultimately show ?case
    using nz h t u(1) by (subst writefile_items.simps) (simp add: it)
qed

definition lines_of :: "string \<times> item list \<Rightarrow> string list" where
  "lines_of b = map (\<lambda>(i, text). log_line i (fst b) text) (snd b)"

definition no_items :: "string \<times> item list \<Rightarrow> string \<times> item list" where
  "no_items b = (fst b, [])"

lemma lines_of_no_items [simp]: "lines_of (no_items b) = []"
  by (simp add: lines_of_def no_items_def)

lemma chunk_rep_new: "chunk_rep new_chunk []"
  by (simp add: chunk_rep_def new_chunk_def)

lemma chunk_repD:
  assumes "chunk_rep c its"
  shows "list_all item_ok its" "length (items_cells its) \<le> CHUNKSIZE"
    "unat (lc_size c) = length (items_cells its)" "lc_size c = 0 \<longleftrightarrow> its = []"
proof -
  show ok: "list_all item_ok its" and le: "length (items_cells its) \<le> CHUNKSIZE"
    using assms by (auto simp: chunk_rep_def)
  then show u: "unat (lc_size c) = length (items_cells its)"
    using assms by (simp add: chunk_rep_def unat_small)
  have "lc_size c = 0 \<longleftrightarrow> items_cells its = []" using u by (simp add: unat_eq_0 [symmetric])
  then show "lc_size c = 0 \<longleftrightarrow> its = []" by (cases its) simp_all
qed

lemma writefile_chunk_rep:
  assumes "chunk_rep c its"
  shows "writefile_chunk name c = Some (lines_of (name, its))"
proof -
  from assms obtain rest where "lc_buffer c = items_cells its @ rest" "lc_size c = of_nat (length (items_cells its))"
    by (auto simp: chunk_rep_def)
  then show ?thesis
    using writefile_items_cells [OF chunk_repD(1,2) [OF assms], of name "[]" rest]
    by (simp add: writefile_chunk_def lines_of_def)
qed

lemma writefile_all_chunk_rep:
  "list_all2 chunk_rep cs parts \<Longrightarrow>
   writefile_all_chunk name cs = Some (lines_of (name, concat (rev parts)))"
  by (induction rule: list_all2_induct) (auto simp: writefile_chunk_rep lines_of_def)

section \<open>What the operations do\<close>

lemma flush_rep:
  assumes "logger_rep l b"
  obtains l' c older where "dlog_flush l = Some l'" "logger_rep l' b" "dl_c l' = c # older" "lc_size c = 0"
    "chunk_rep c []"
proof -
  from assms obtain parts where p: "parts \<noteq> []" "list_all2 chunk_rep (dl_c l) parts" "snd b = concat (rev parts)"
    and n: "dl_name l = fst b" by (auto simp: logger_rep_def)
  from p(1,2) obtain c older where c: "dl_c l = c # older" by (cases "dl_c l") auto
  show thesis
  proof (cases "lc_size c = 0")
    case True
    with p(2) c have "chunk_rep c []" using chunk_repD(4) by (fastforce simp: list_all2_Cons1)
    with True c assms show thesis by (intro that [of l c older]) (simp_all add: dlog_flush_def)
  next
    case False
    let ?l = "l\<lparr>dl_c := new_chunk # c # older\<rparr>"
    have "logger_rep ?l b"
      using p n c chunk_rep_new unfolding logger_rep_def by (intro conjI exI [of _ "[] # parts"]) simp_all
    with False c show thesis
      by (intro that [of ?l new_chunk "c # older"]) (simp_all add: dlog_flush_def new_chunk_def chunk_rep_new [unfolded new_chunk_def])
  qed
qed

lemma writefile_logger_rep:
  assumes "logger_rep l b" "dl_c l = c # older" "chunk_rep c []"
  shows "\<exists>l'. writefile_logger l = Some (lines_of b, l') \<and> logger_rep l' (no_items b)"
proof -
  from assms(1) obtain parts where p: "parts \<noteq> []" "list_all2 chunk_rep (dl_c l) parts" "snd b = concat (rev parts)"
    and n: "dl_name l = fst b" by (auto simp: logger_rep_def)
  then obtain its ps where ps: "parts = its # ps" "chunk_rep c its" "list_all2 chunk_rep older ps"
    using assms(2) by (auto simp: list_all2_Cons1)
  have its: "its = []" using chunk_repD(4) [OF ps(2)] chunk_repD(4) [OF assms(3)] by simp
  have "logger_rep (l\<lparr>dl_c := [c]\<rparr>) (no_items b)"
    using assms(3) n unfolding logger_rep_def no_items_def by (intro conjI exI [of _ "[[]]"]) simp_all
  moreover have "logger_rep l (no_items b) \<and> lines_of b = []" if "older = []"
    using that calculation assms(2) ps its p(3) by (simp add: logger_rep_def no_items_def lines_of_def) 
  ultimately show ?thesis
    using assms(2) writefile_all_chunk_rep [OF ps(3), of "dl_name l"] p(3) ps(1) its n
    by (cases "older = []") (simp_all add: writefile_logger_def lines_of_def)
qed

lemma writefile_all_logger_rep:
  "list_all2 logger_rep ls bs \<Longrightarrow>
   \<exists>ls'. writefile_all_logger ls = Some (concat (map lines_of bs), ls') \<and> list_all2 logger_rep ls' (map no_items bs)"
proof (induction rule: list_all2_induct)
  case (Cons l ls b bs)
  obtain l1 c older where 1: "dlog_flush l = Some l1" "logger_rep l1 b" "dl_c l1 = c # older" "chunk_rep c []"
    using flush_rep [OF Cons.hyps(1)] by metis
  from writefile_logger_rep [OF 1(2,3,4)] Cons.IH 1(1) show ?case by auto
qed simp

lemma close_loop_rep:
  "list_all2 logger_rep ls bs \<Longrightarrow> close_loop ls = Some (concat (map lines_of bs))"
proof (induction "length ls" arbitrary: ls bs)
  case 0
  then show ?case by simp
next
  case (Suc n)
  then obtain l ls' b bs' where c: "ls = l # ls'" "bs = b # bs'" "logger_rep l b" "list_all2 logger_rep ls' bs'"
    by (cases ls) (auto simp: list_all2_Cons1)
  obtain l1 where 1: "dlog_flush l = Some l1" "logger_rep l1 b" using flush_rep [OF c(3)] by metis
  then have "list_all2 logger_rep (l1 # ls') bs" using c by simp
  from writefile_all_logger_rep [OF this] obtain ls2 where
    2: "writefile_all_logger (l1 # ls') = Some (concat (map lines_of bs), ls2)"
       "list_all2 logger_rep ls2 (map no_items bs)" by blast
  from 2(2) have "list_all2 logger_rep (tl ls2) (map no_items bs')"
    using c(2) by (auto simp: list_all2_Cons2)
  moreover have "n = length (tl ls2)"
    using Suc.hyps(2) writefile_all_logger_length [OF 2(1)] c(1) by simp
  ultimately have "close_loop (tl ls2) = Some []"
    using Suc.hyps(1) [of "tl ls2" "map no_items bs'"] by (simp add: comp_def)
  then show ?case using 1 2 c(1) by (simp del: writefile_all_logger.simps)
qed

lemma memcpy_into:
  "off = length pre \<Longrightarrow> n \<le> length src \<Longrightarrow> n \<le> length post \<Longrightarrow>
   memcpy (pre @ post) off src n = Some (pre @ take n src @ drop n post)"
  by (simp add: memcpy_def)

text \<open>A line goes to the end of a chunk that has room for it.\<close>

lemma chunk_append:
  assumes c: "chunk_rep c its" and ok: "item_ok (i, s)" and n: "snprintf CHUNKSIZE s = (n, tmp)"
    and room: "length (items_cells its) + 8 + length s \<le> CHUNKSIZE"
  obtains buf1 buf2 where
    "memcpy (lc_buffer c) (unat (lc_size c)) (header_cells \<lparr>di_id = i, di_size = word_of_int n\<rparr>) 8 = Some buf1"
    "memcpy buf1 (unat (lc_size c) + 8) tmp (unat (word_of_int n :: u32)) = Some buf2"
    "chunk_rep \<lparr>lc_size = word_of_int n + 8 + lc_size c, lc_buffer = buf2\<rparr> (its @ [(i, s)])"
proof -
  let ?pre = "items_cells its" and ?h = "header_cells \<lparr>di_id = i, di_size = of_nat (length s)\<rparr>"
  from c obtain rest where buf: "lc_buffer c = ?pre @ rest" "length ?pre + length rest = CHUNKSIZE"
    "list_all item_ok its" by (auto simp: chunk_rep_def)
  have "length s < CHUNKSIZE" using ok by (simp add: item_ok_def)
  from snprintf_fits [OF this] n obtain t where t: "n = int (length s)" "tmp = map Some s @ t" by auto
  have u: "unat (of_nat (length s) :: u32) = length s" using room by (simp add: unat_small)
  let ?b1 = "?pre @ ?h @ drop 8 rest" and ?b2 = "(?pre @ ?h) @ map Some s @ drop (length s + 8) rest"
  have "memcpy (lc_buffer c) (unat (lc_size c)) ?h 8 = Some ?b1"
    using memcpy_into [of "unat (lc_size c)" ?pre 8 ?h rest] chunk_repD(3) [OF c] buf room by simp
  moreover have "memcpy ?b1 (unat (lc_size c) + 8) tmp (length s) = Some ?b2"
    using memcpy_append [of "length s" s "unat (lc_size c) + 8" "?pre @ ?h" "drop 8 rest" t]
      chunk_repD(3) [OF c] buf room t by simp
  moreover have "chunk_rep \<lparr>lc_size = of_nat (length s) + 8 + lc_size c, lc_buffer = ?b2\<rparr> (its @ [(i, s)])"
    using c ok buf room by (auto simp: chunk_rep_def item_cells_def ac_simps)
  ultimately show thesis using t u by (intro that [of ?b1 ?b2]) simp_all
qed

lemma write_line_rep:
  assumes l: "logger_rep l (name, its)" and ok: "item_ok (i, s)"
  shows "\<exists>l'. write_line i s l = Some l' \<and> logger_rep l' (name, its @ [(i, s)])"
proof -
  obtain n tmp where n: "snprintf CHUNKSIZE s = (n, tmp)" by fastforce
  then have n': "n = int (length s)" by (auto simp: snprintf_def Let_def)
  let ?sz = "word_of_int n + 8 :: u32"
  have len: "length s + 8 \<le> CHUNKSIZE" using ok by (simp add: item_ok_def)
  obtain c older where c: "dl_c l = c # older"
    using l by (cases "dl_c l") (auto simp: logger_rep_def)
  define l1 where "l1 = (if lc_size c + ?sz > 8000 then the (dlog_flush l) else l)"
  have "\<exists>c1 older1 its1 parts. dl_c l1 = c1 # older1 \<and> chunk_rep c1 its1 \<and> list_all2 chunk_rep older1 parts
      \<and> its = concat (rev parts) @ its1 \<and> dl_name l1 = name
      \<and> length (items_cells its1) + 8 + length s \<le> CHUNKSIZE
      \<and> (lc_size c + ?sz > 8000 \<longrightarrow> dlog_flush l = Some l1)"
  proof (cases "lc_size c + ?sz > 8000")
    case True
    obtain l2 c2 older2 where 2: "dlog_flush l = Some l2" "logger_rep l2 (name, its)" "dl_c l2 = c2 # older2"
      "chunk_rep c2 []" using flush_rep [OF l] by metis
    then obtain p ps where p: "chunk_rep c2 p" "list_all2 chunk_rep older2 ps" "its = concat (rev ps) @ p"
      "dl_name l2 = name" by (auto simp: logger_rep_def list_all2_Cons1)
    have "p = []" using chunk_repD(4) [OF p(1)] chunk_repD(4) [OF 2(4)] by simp
    then show ?thesis using True 2 p len
      by (intro exI [of _ c2] exI [of _ older2] exI [of _ "[]"] exI [of _ ps]) (simp add: l1_def)
  next
    case False
    from l c obtain p ps where p: "chunk_rep c p" "list_all2 chunk_rep older ps" "its = concat (rev ps) @ p"
      "dl_name l = name" by (auto simp: logger_rep_def list_all2_Cons1)
    have "lc_size c + ?sz = of_nat (length (items_cells p) + (length s + 8))"
      using p(1) n' by (simp add: chunk_rep_def)
    moreover have "length (items_cells p) + (length s + 8) \<le> CHUNKSIZE + CHUNKSIZE"
      using chunk_repD(2) [OF p(1)] len by simp
    ultimately have "unat (lc_size c + ?sz) = length (items_cells p) + (length s + 8)"
      by (simp only: unat_small)
    then have "length (items_cells p) + (length s + 8) \<le> CHUNKSIZE"
      using False by (simp add: word_less_nat_alt CHUNKSIZE_def)
    then show ?thesis using False p c
      by (intro exI [of _ c] exI [of _ older] exI [of _ p] exI [of _ ps]) (simp add: l1_def)
  qed
  then obtain c1 older1 its1 parts where 1: "dl_c l1 = c1 # older1" "chunk_rep c1 its1"
    "list_all2 chunk_rep older1 parts" "its = concat (rev parts) @ its1" "dl_name l1 = name"
    "length (items_cells its1) + 8 + length s \<le> CHUNKSIZE"
    "lc_size c + ?sz > 8000 \<longrightarrow> dlog_flush l = Some l1" by blast
  obtain buf1 buf2 where b:
    "memcpy (lc_buffer c1) (unat (lc_size c1)) (header_cells \<lparr>di_id = i, di_size = word_of_int n\<rparr>) 8 = Some buf1"
    "memcpy buf1 (unat (lc_size c1) + 8) tmp (unat (word_of_int n :: u32)) = Some buf2"
    "chunk_rep \<lparr>lc_size = ?sz + lc_size c1, lc_buffer = buf2\<rparr> (its1 @ [(i, s)])"
    by (rule chunk_append [OF 1(2) ok n 1(6)])
  let ?l = "l1\<lparr>dl_c := \<lparr>lc_size = ?sz + lc_size c1, lc_buffer = buf2\<rparr> # older1\<rparr>"
  have "(if lc_size c + ?sz > 8000 then dlog_flush l else Some l) = Some l1" using 1(7) by (simp add: l1_def)
  then have "write_line i s l = Some ?l"
    using c n 1(1) b(1,2) by (simp add: write_line_def Let_def)
  moreover have "logger_rep ?l (name, its @ [(i, s)])"
    using 1(3,4,5) b(3) unfolding logger_rep_def by (intro conjI exI [of _ "(its1 @ [(i, s)]) # parts"]) simp_all
  ultimately show ?thesis by blast
qed

text \<open>The longest line that fits has 7992 characters; a longer one, up to the largest that \<open>vsnprintf\<close>
  counts, is copied past the end of the chunk.\<close>

lemma write_line_overflow:
  assumes "logger_rep l b" and "CHUNKSIZE < length s + 8" and "length s < 2 ^ 31"
  shows "write_line i s l = None"
proof -
  obtain n tmp where n: "snprintf CHUNKSIZE s = (n, tmp)" by fastforce
  have "n = int (length s)" using n by (auto simp: snprintf_def Let_def)
  then have u: "unat (word_of_int n :: u32) = length s"
    using assms(3) by (simp add: unat_of_nat take_bit_nat_eq_self)
  have body: "do {
      buf \<leftarrow> memcpy (lc_buffer c) (unat (lc_size c)) hdr 8;
      buf \<leftarrow> memcpy buf (unat (lc_size c) + 8) tmp (length s);
      f buf } = (None :: debug_logger option)" if "length (lc_buffer c) = CHUNKSIZE" for c hdr f
    using that assms(2) by (auto simp: bind_eq_None_conv memcpy_def)
  have head: "\<exists>c older. dl_c l' = c # older \<and> length (lc_buffer c) = CHUNKSIZE" if "logger_rep l' b" for l'
    using that by (cases "dl_c l'") (auto simp: logger_rep_def list_all2_Cons1 chunk_rep_def)
  obtain l2 where l2: "dlog_flush l = Some l2" "logger_rep l2 b" using flush_rep [OF assms(1)] by metis
  from head [OF assms(1)] head [OF l2(2)] show ?thesis
    by (auto simp: write_line_def Let_def n u body l2(1))
qed

lemma dlog_new_rep:
  assumes "0 \<le> i \<longrightarrow> length name + length (show_int i) \<le> 126 \<and> NUL \<notin> set name"
  shows "\<exists>l. dlog_new name i G = Some (G\<lparr>ga_logger := l # ga_logger G\<rparr>)
    \<and> logger_rep l (if i < 0 then name else name @ show_int i, [])"
proof -
  let ?nm = "if i < 0 then name else name @ show_int i"
  let ?l = "\<lparr>dl_name = ?nm, dl_c = [new_chunk]\<rparr>"
  have "dlog_new name i G = Some (G\<lparr>ga_logger := ?l # ga_logger G\<rparr>)"
  proof (cases "i < 0")
    case False
    let ?s = "name @ show_int i"
    define rest where "rest = replicate (126 - length ?s) (None :: char option)"
    have len: "length ?s \<le> 126" and nul: "NUL \<notin> set ?s" using assms False by (simp_all add: show_int_no_NUL)
    have "snprintf 127 ?s = (int (length ?s), map Some ?s @ Some NUL # rest)"
      using len by (simp add: snprintf_def Let_def rest_def)
    moreover have "put_char ((map Some ?s @ Some NUL # rest) @ [None]) (length ?s) NUL
        = Some (map Some ?s @ Some NUL # rest @ [None])"
      by (simp add: put_char_def list_update_append)
    ultimately show ?thesis
      using False printed_string [OF nul, of "rest @ [None]"] by (simp add: dlog_new_def nat_int_add)
  qed (simp add: dlog_new_def)
  moreover have "logger_rep ?l (?nm, [])"
    using chunk_rep_new unfolding logger_rep_def by (intro conjI exI [of _ "[[]]"]) simp_all
  ultimately show ?thesis by blast
qed

section \<open>Histories of the log\<close>

datatype dlog_op =
    Dlog_new string int
  | Dlog_flush nat
  | Dlog_write nat string
  | Dlog_writefile

fun dlog_step :: "dlog_op \<Rightarrow> logger_all \<Rightarrow> (string list \<times> logger_all) option" where
  "dlog_step (Dlog_new name i) G = map_option (Pair []) (dlog_new name i G)"
| "dlog_step (Dlog_flush h) G = map_option (Pair []) (on_logger dlog_flush h G)"
| "dlog_step (Dlog_write h s) G = map_option (Pair []) (dlog_write h s G)"
| "dlog_step Dlog_writefile G = dlog_writefile G"

fun dlog_run :: "dlog_op list \<Rightarrow> logger_all \<Rightarrow> (string list \<times> logger_all) option" where
  "dlog_run [] G = Some ([], G)"
| "dlog_run (op # ops) G = do {
     (out, G) \<leftarrow> dlog_step op G;
     (more, G) \<leftarrow> dlog_run ops G;
     Some (out @ more, G) }"

text \<open>What the log promises: a book with the lines of each logger that are not yet printed.\<close>

type_synonym log_book = "(string \<times> item list) list \<times> u32"

fun book_step :: "dlog_op \<Rightarrow> log_book \<Rightarrow> string list \<times> log_book" where
  "book_step (Dlog_new name i) (bs, k) = ([], ((if i < 0 then name else name @ show_int i, []) # bs, k))"
| "book_step (Dlog_flush h) (bs, k) = ([], (bs, k))"
| "book_step (Dlog_write h s) (bs, k) =
     (let n = length bs - 1 - h
      in ([], (bs[n := (fst (bs ! n), snd (bs ! n) @ [(k + 1, s)])], k + 1)))"
| "book_step Dlog_writefile (bs, k) = (concat (map lines_of bs), (map no_items bs, k))"

fun book_run :: "dlog_op list \<Rightarrow> log_book \<Rightarrow> string list \<times> log_book" where
  "book_run [] b = ([], b)"
| "book_run (op # ops) b =
     (let (out, b) = book_step op b; (more, b) = book_run ops b in (out @ more, b))"

text \<open>What the callers owe: a logger that exists, names and lines that fit.\<close>

fun dlog_op_ok :: "nat \<Rightarrow> dlog_op \<Rightarrow> bool" where
  "dlog_op_ok n (Dlog_new name i) \<longleftrightarrow>
     (0 \<le> i \<longrightarrow> length name + length (show_int i) \<le> 126 \<and> NUL \<notin> set name)"
| "dlog_op_ok n (Dlog_flush h) \<longleftrightarrow> h < n"
| "dlog_op_ok n (Dlog_write h s) \<longleftrightarrow> h < n \<and> length s + 8 \<le> CHUNKSIZE \<and> NUL \<notin> set s"
| "dlog_op_ok n Dlog_writefile \<longleftrightarrow> True"

fun dlog_ops_ok :: "nat \<Rightarrow> dlog_op list \<Rightarrow> bool" where
  "dlog_ops_ok n [] \<longleftrightarrow> True"
| "dlog_ops_ok n (op # ops) \<longleftrightarrow>
     dlog_op_ok n op \<and> dlog_ops_ok (case op of Dlog_new _ _ \<Rightarrow> Suc n | _ \<Rightarrow> n) ops"

definition dlog_rep :: "logger_all \<Rightarrow> log_book \<Rightarrow> bool" where
  "dlog_rep G b \<longleftrightarrow> list_all2 logger_rep (ga_logger G) (fst b) \<and> ga_id G = snd b"

lemma on_logger_rep:
  assumes "list_all2 logger_rep (ga_logger G) bs" and "h < length bs"
    and "\<And>l. logger_rep l (bs ! (length bs - 1 - h)) \<Longrightarrow> \<exists>l'. f l = Some l' \<and> logger_rep l' b"
  shows "\<exists>G'. on_logger f h G = Some G' \<and> ga_id G' = ga_id G
    \<and> list_all2 logger_rep (ga_logger G') (bs[length bs - 1 - h := b])"
proof -
  let ?k = "length bs - 1 - h"
  have len: "length (ga_logger G) = length bs" using assms(1) by (rule list_all2_lengthD)
  have "logger_rep (ga_logger G ! ?k) (bs ! ?k)" by (rule list_all2_nthD [OF assms(1)]) (use assms(2) len in simp)
  from assms(3) [OF this] obtain l where "f (ga_logger G ! ?k) = Some l" "logger_rep l b" by blast
  moreover from this(2)
  have "list_all2 logger_rep ((ga_logger G)[?k := l]) (bs[?k := b])"
    by (rule list_all2_update_cong [OF assms(1)])
  ultimately show ?thesis
    using assms(2) len by (simp add: on_logger_def logger_index_def)
qed

lemma dlog_step_rep:
  assumes rep: "dlog_rep G b" and ok: "dlog_op_ok (length (fst b)) op"
  shows "\<exists>G'. dlog_step op G = Some (fst (book_step op b), G') \<and> dlog_rep G' (snd (book_step op b))"
proof -
  obtain bs k where b: "b = (bs, k)" by fastforce
  then have ls: "list_all2 logger_rep (ga_logger G) bs" "ga_id G = k" using rep by (simp_all add: dlog_rep_def)
  show ?thesis
  proof (cases op)
    case (Dlog_new name i)
    with ok b dlog_new_rep [of i name G] ls show ?thesis by (auto simp: dlog_rep_def)
  next
    case (Dlog_flush h)
    let ?b = "bs ! (length bs - 1 - h)"
    have "\<exists>l'. dlog_flush l = Some l' \<and> logger_rep l' ?b" if "logger_rep l ?b" for l
      using flush_rep [OF that] by metis
    from on_logger_rep [OF ls(1) _ this] ok b Dlog_flush ls show ?thesis
      by (fastforce simp: dlog_rep_def)
  next
    case (Dlog_write h s)
    let ?b = "bs ! (length bs - 1 - h)" and ?G = "G\<lparr>ga_id := k + 1\<rparr>"
    have ok': "h < length bs" "item_ok (k + 1, s)" using ok b Dlog_write by (simp_all add: item_ok_def)
    have "\<exists>l'. write_line (k + 1) s l = Some l' \<and> logger_rep l' (fst ?b, snd ?b @ [(k + 1, s)])"
      if "logger_rep l ?b" for l
      using write_line_rep [of l "fst ?b" "snd ?b", OF _ ok'(2)] that by simp
    from on_logger_rep [of ?G bs h "write_line (k + 1) s", OF _ ok'(1) this] ls(1) obtain G' where
      "on_logger (write_line (k + 1) s) h ?G = Some G'" "ga_id G' = k + 1"
      "list_all2 logger_rep (ga_logger G') (bs[length bs - 1 - h := (fst ?b, snd ?b @ [(k + 1, s)])])" by auto
    then show ?thesis using ls(2) Dlog_write b by (simp add: dlog_write_def dlog_rep_def Let_def)
  next
    case Dlog_writefile
    with writefile_all_logger_rep [OF ls(1)] ls b show ?thesis
      by (auto simp: dlog_writefile_def dlog_rep_def)
  qed
qed

lemma book_step_length:
  "length (fst (snd (book_step op b))) = (case op of Dlog_new _ _ \<Rightarrow> Suc (length (fst b)) | _ \<Rightarrow> length (fst b))"
  by (cases b; cases op) (simp_all add: Let_def)

lemma dlog_run_rep:
  "dlog_rep G b \<Longrightarrow> dlog_ops_ok (length (fst b)) ops \<Longrightarrow>
   \<exists>G'. dlog_run ops G = Some (fst (book_run ops b), G') \<and> dlog_rep G' (snd (book_run ops b))"
proof (induction ops arbitrary: G b)
  case (Cons op ops)
  from dlog_step_rep [OF Cons.prems(1)] Cons.prems(2) obtain G1 where
    1: "dlog_step op G = Some (fst (book_step op b), G1)" "dlog_rep G1 (snd (book_step op b))" by auto
  have "dlog_ops_ok (length (fst (snd (book_step op b)))) ops"
    using Cons.prems(2) by (simp add: book_step_length)
  from Cons.IH [OF 1(2) this] 1(1) show ?case by (auto simp: case_prod_beta)
qed simp

lemma dlog_close_rep:
  "dlog_rep G b \<Longrightarrow>
   dlog_close G = Some (concat (map lines_of (fst b)), \<lparr>ga_logger = [], ga_id = snd b\<rparr>)"
  by (cases G) (auto simp: dlog_rep_def dlog_close_def close_loop_rep)

section \<open>Every line is printed\<close>

text \<open>The lines written by a history, with the names of the loggers and the counter before it.\<close>

fun lines_written :: "string list \<Rightarrow> u32 \<Rightarrow> dlog_op list \<Rightarrow> string list" where
  "lines_written names k [] = []"
| "lines_written names k (Dlog_new name i # ops) =
     lines_written ((if i < 0 then name else name @ show_int i) # names) k ops"
| "lines_written names k (Dlog_write h s # ops) =
     log_line (k + 1) (names ! (length names - 1 - h)) s # lines_written names (k + 1) ops"
| "lines_written names k (_ # ops) = lines_written names k ops"

definition pending :: "(string \<times> item list) list \<Rightarrow> string list" where
  "pending bs = concat (map lines_of bs)"

lemma pending_simps [simp]:
  "pending [] = []" "pending (b # bs) = lines_of b @ pending bs" "pending (map no_items bs) = []"
  by (simp_all add: pending_def comp_def)

lemma pending_write:
  "n < length bs \<Longrightarrow>
   mset (pending (bs[n := (fst (bs ! n), snd (bs ! n) @ [(k, s)])])) =
   add_mset (log_line k (fst (bs ! n)) s) (mset (pending bs))"
proof (induction bs arbitrary: n)
  case (Cons b bs)
  then show ?case by (cases n) (auto simp: lines_of_def)
qed simp

lemma book_run_lines:
  "dlog_ops_ok (length bs) ops \<Longrightarrow> book_run ops (bs, k) = (out, bs', k') \<Longrightarrow>
   mset (out @ pending bs') = mset (pending bs) + mset (lines_written (map fst bs) k ops)"
proof (induction ops arbitrary: bs k out bs' k')
  case (Cons op ops)
  obtain out1 bs1 k1 where 1: "book_step op (bs, k) = (out1, bs1, k1)" by (metis prod_cases3)
  obtain out2 where 2: "book_run ops (bs1, k1) = (out2, bs', k')" "out = out1 @ out2"
    using Cons.prems(2) 1 by (auto simp: Let_def split: prod.splits)
  have "length bs1 = (case op of Dlog_new _ _ \<Rightarrow> Suc (length bs) | _ \<Rightarrow> length bs)"
    using book_step_length [of op "(bs, k)"] by (simp only: 1 fst_conv snd_conv)
  then have "dlog_ops_ok (length bs1) ops" using Cons.prems(1) by (cases op) simp_all
  note IH = Cons.IH [OF this 2(1)]
  show ?case
  proof (cases op)
    case (Dlog_new name i)
    then show ?thesis using IH 1 2 by (auto simp: lines_of_def)
  next
    case (Dlog_flush h)
    then show ?thesis using IH 1 2 by simp
  next
    case (Dlog_write h s)
    let ?n = "length bs - 1 - h"
    have n: "?n < length bs" using Cons.prems(1) Dlog_write by auto
    have "map fst bs1 = map fst bs" using 1 Dlog_write n by (auto simp: Let_def map_update list_update_same_conv)
    then show ?thesis using IH 1 2 Dlog_write pending_write [OF n, of "k + 1" s] n
      by (auto simp: Let_def)
  next
    case Dlog_writefile
    moreover have "fst \<circ> no_items = fst" by (simp add: no_items_def comp_def)
    ultimately show ?thesis using IH 1 2 by (auto simp: pending_def [symmetric])
  qed
qed (simp add: ac_simps)

text \<open>
  The thread that prints the log: it reads the number of running threads, and between two
  readings the other threads do anything; that it returns means that it has read 0.
\<close>

fun thread_logger :: "(int \<times> dlog_op list) list \<Rightarrow> logger_all \<Rightarrow> (string list \<times> logger_all) option" where
  "thread_logger [] G = None"
| "thread_logger ((thread_count, ops) # rounds) G =
     (if thread_count > 0
      then do {
        (out, G) \<leftarrow> dlog_writefile G;
        (others, G) \<leftarrow> dlog_run ops G;
        (more, G) \<leftarrow> thread_logger rounds G;
        Some (out @ others @ more, G) }
      else Some ([], G))"

text \<open>With the file \<open>close_logger\<close> closes.\<close>

definition close_logger ::
  "string option \<Rightarrow> logger_all \<Rightarrow> (string list \<times> string option \<times> logger_all) option"
where
  "close_logger logfile G = do {
     (out, G) \<leftarrow> dlog_close G;
     Some (out, logfile, G) }"

fun logger_history :: "(int \<times> dlog_op list) list \<Rightarrow> dlog_op list" where
  "logger_history [] = []"
| "logger_history ((n, ops) # rounds) = (if n > 0 then Dlog_writefile # ops @ logger_history rounds else [])"

lemma dlog_run_append:
  "dlog_run (ops @ ops') G = do {
     (out, G) \<leftarrow> dlog_run ops G;
     (more, G) \<leftarrow> dlog_run ops' G;
     Some (out @ more, G) }"
  by (induction ops arbitrary: G) (auto simp: case_prod_beta split: bind_splits)

lemma thread_logger_history:
  "\<exists>n \<in> fst ` set rounds. n \<le> 0 \<Longrightarrow> thread_logger rounds G = dlog_run (logger_history rounds) G"
proof (induction rounds arbitrary: G)
  case (Cons r rounds)
  obtain n ops where r: "r = (n, ops)" by fastforce
  show ?case
  proof (cases "n > 0")
    case True
    then have "\<exists>n \<in> fst ` set rounds. n \<le> 0" using Cons.prems r by auto
    with Cons.IH True r show ?thesis
      by (auto simp: dlog_run_append case_prod_beta split: bind_splits)
  qed (simp add: r)
qed simp

section \<open>Properties\<close>

text \<open>
  C34: the debug log, used by one thread at a time, prints every line exactly once. Over any history
  in which the loggers exist, a name followed by a worker's number has at most 126 characters with
  it, names and lines have no NUL and no line is longer than 7992 characters (a longer one overruns its chunk, \<open>dlog_write_overflow\<close>),
  ended by \<open>dlog_close\<close>, no call leaves a buffer or
  reads an unwritten byte; the chunks print what a plain book of the lines not yet printed gives,
  logger by logger in the order written; and what is printed, before and at the close, is the
  lines written, each with its own number and the name of its logger.
\<close>

theorem debug_log_prints_every_line:
  assumes "dlog_ops_ok 0 ops" and "book_run ops ([], 0) = (out, bs, k)"
  shows "\<exists>G. dlog_run ops no_loggers = Some (out, G)
    \<and> dlog_close G = Some (concat (map lines_of bs), \<lparr>ga_logger = [], ga_id = k\<rparr>)
    \<and> mset (out @ concat (map lines_of bs)) = mset (lines_written [] 0 ops)"
proof -
  have "dlog_rep no_loggers ([], 0)" by (simp add: dlog_rep_def no_loggers_def)
  from dlog_run_rep [OF this, of ops] assms obtain G where
    "dlog_run ops no_loggers = Some (out, G)" "dlog_rep G (bs, k)" by auto
  with dlog_close_rep [of G "(bs, k)"] book_run_lines [of "[]" ops 0 out bs k] assms show ?thesis
    by (auto simp: pending_def)
qed

definition sample_history :: "dlog_op list" where
  "sample_history = [Dlog_new ''SCHEDULE'' (-1), Dlog_new ''WORKER'' 0, Dlog_write 1 ''Start'',
     Dlog_write 0 ''Round'', Dlog_writefile, Dlog_write 1 ''Quit'']"

theorem debug_log_prints_every_line_witness:
  "\<exists>G. dlog_run sample_history no_loggers =
      Some ([''[00000001:WORKER0] Start'' @ [CHR 0x0A], ''[00000002:SCHEDULE] Round'' @ [CHR 0x0A]], G)
    \<and> dlog_close G = Some ([''[00000003:WORKER0] Quit'' @ [CHR 0x0A]], \<lparr>ga_logger = [], ga_id = 3\<rparr>)"
proof -
  have run: "book_run sample_history ([], 0) =
    ([''[00000001:WORKER0] Start'' @ [CHR 0x0A], ''[00000002:SCHEDULE] Round'' @ [CHR 0x0A]],
     [(''WORKER0'', [(3, ''Quit'')]), (''SCHEDULE'', [])], 3)" by code_simp
  have ok: "dlog_ops_ok 0 sample_history" by code_simp
  have "concat (map lines_of [(''WORKER0'', [(3, ''Quit'')]), (''SCHEDULE'', [])]) =
    [''[00000003:WORKER0] Quit'' @ [CHR 0x0A]]" by code_simp
  with debug_log_prints_every_line [OF ok run] show ?thesis by auto
qed

text \<open>
  The longest line has 7992 characters: one more, and \<open>dlog_write\<close> copies past the end of a chunk
  (\<open>write_line_overflow\<close>).
\<close>

lemma dlog_write_overflow:
  assumes "dlog_rep G b" and "CHUNKSIZE < length s + 8" and "length s < 2 ^ 31"
  shows "dlog_write h s G = None"
proof -
  have "write_line (ga_id G + 1) s (ga_logger G ! k) = None" if "k < length (ga_logger G)" for k
    using that assms list_all2_nthD [of logger_rep "ga_logger G" "fst b" k]
    by (intro write_line_overflow) (auto simp: dlog_rep_def)
  then show ?thesis
    by (auto simp: dlog_write_def on_logger_def logger_index_def bind_eq_None_conv split: if_splits)
qed

end
