(* ===== verification/Lifecycle.thy ===== *)
theory Lifecycle
  imports ApiProps Backtrace Systime TimerProps Debuglog
begin

text \<open>
  Running and stopping the system: \<open>ltask_run\<close>, \<open>ltask_wait\<close>, \<open>ltask_deinit\<close> and the crash log of
  \<open>src/ltask.c\<close>, the threads of \<open>src/thread.h\<close> (the POSIX half), the signal handlers of
  \<open>src/threadsig.c\<close> and the sleep of \<open>src/sysapi.c\<close>.

  What the operating system answers is an argument: which \<open>pthread_create\<close> fails, whether a file
  opens, how a \<open>nanosleep\<close> ends. The threads themselves are the step relation of \<open>Threads\<close>; here
  only matters which function each of them is started with.
\<close>

section \<open>Threads\<close>

text \<open>
  \<open>struct thread\<close> is a function and its argument: a worker's loop on a worker, or the logger. An
  array of them may have entries nobody has written.
\<close>

datatype thread_entry = Thread_worker int | Thread_logger

type_synonym thread_array = "thread_entry option list"

definition thread_at :: "thread_array \<Rightarrow> nat \<Rightarrow> thread_entry option" where
  "thread_at ts i = (if i < length ts then ts ! i else None)"

fun create_loop :: "(nat \<Rightarrow> bool) \<Rightarrow> thread_array \<Rightarrow> nat list \<Rightarrow> (bool \<times> thread_entry list) option" where
  "create_loop fails ts [] = Some (True, [])"
| "create_loop fails ts (i # is) =
     (if fails i then Some (False, [])
      else do {
        f \<leftarrow> thread_at ts i;
        (ok, fs) \<leftarrow> create_loop fails ts is;
        Some (ok, f # fs) })"

text \<open>
  \<open>thread_start\<close>: whether a handle is returned, the threads created, and the function run on the
  calling thread. When a \<open>pthread_create\<close> fails the array of ids is freed and NULL returned, but
  the threads already created run on.
\<close>

definition thread_start ::
  "(nat \<Rightarrow> bool) \<Rightarrow> thread_array \<Rightarrow> int \<Rightarrow> bool \<Rightarrow> (bool \<times> thread_entry list \<times> thread_entry list) option"
where
  "thread_start fails ts n usemainthread = do {
     let off = (if usemainthread then 1 else 0);
     (ok, fs) \<leftarrow> create_loop fails ts (map (\<lambda>i. i + off) [0 ..< nat n]);
     if \<not> ok then Some (False, fs, [])
     else if usemainthread
     then do {
       f \<leftarrow> thread_at ts 0;
       Some (True, fs, [f]) }
     else Some (True, fs, []) }"

text \<open>\<open>thread_join\<close> waits for the threads of the handle; a NULL handle is read if there are any.\<close>

definition thread_join :: "bool \<Rightarrow> thread_entry list \<Rightarrow> int \<Rightarrow> thread_entry list option" where
  "thread_join handle fs n =
     (if nat n = 0 then Some [] else if handle \<and> nat n \<le> length fs then Some (take (nat n) fs) else None)"

section \<open>\<open>ltask_run\<close>\<close>

text \<open>
  The arguments and the array of \<open>struct task_context\<close>: \<open>threads_count\<close>, \<open>usemainthread\<close> and the
  entries. \<open>logthread\<close> is the build with \<open>DEBUGLOG\<close>.
\<close>

fun write_workers :: "nat \<Rightarrow> thread_array \<Rightarrow> thread_array option" where
  "write_workers 0 ts = Some ts"
| "write_workers (Suc n) ts = do {
     ts \<leftarrow> write_workers n ts;
     if n < length ts then Some (ts[n := Some (Thread_worker (int n))]) else None }"

definition swap_entries :: "nat \<Rightarrow> thread_array \<Rightarrow> thread_array option" where
  "swap_entries k ts = (if k < length ts then Some (ts[k := ts ! 0, 0 := ts ! k]) else None)"

definition run_context ::
  "bool \<Rightarrow> int \<Rightarrow> stack_value list \<Rightarrow> (string + (int \<times> bool \<times> thread_array)) option"
where
  "run_context logthread worker_n L =
     (let (usemainthread, mainthread) = (case lua_arg L 1 of Some (LInt v) \<Rightarrow> (True, c_int v) | _ \<Rightarrow> (False, -1)) in
      if usemainthread \<and> mainthread \<ge> 0 \<and> mainthread \<ge> worker_n then Some (Inl ''Invalid mainthread'')
      else do {
        let threads_count = worker_n + (if logthread then 1 else 0) - (if usemainthread then 1 else 0);
        let size = threads_count + (if usemainthread then 1 else 0);
        ts \<leftarrow> write_workers (nat worker_n) (replicate (nat size) None);
        ts \<leftarrow> (if logthread
               then if 0 \<le> threads_count - 1 \<and> nat (threads_count - 1) < length ts
                    then Some (ts[nat (threads_count - 1) := Some Thread_logger]) else None
               else Some ts);
        ts \<leftarrow> (if usemainthread \<and> mainthread \<ge> 0 then swap_entries (nat mainthread) ts else Some ts);
        Some (Inr (threads_count, usemainthread, ts)) })"

section \<open>\<open>ltask_wait\<close> and \<open>ltask_deinit\<close>\<close>

fun close_events :: "sockevent list \<Rightarrow> int list \<Rightarrow> sockevent list \<times> int list" where
  "close_events [] closed = ([], closed)"
| "close_events (e # es) closed =
     (case sockevent_close e closed of (e, closed) \<Rightarrow>
      case close_events es closed of (es, closed) \<Rightarrow> (e # es, closed))"

text \<open>
  \<open>ltask_wait\<close>: \<open>handle\<close>, \<open>fs\<close> and \<open>n\<close> are what \<open>thread_start\<close> left in the context, \<open>logger\<close> is the file and
  the debug log of a debug build. The answer is what the debug log prints when it is closed, the
  log payloads released and the runtime; the log queue is gone from then on.
\<close>

definition ltask_wait ::
  "nat \<Rightarrow> bool \<Rightarrow> thread_entry list \<Rightarrow> int \<Rightarrow> (string option \<times> logger_all) option \<Rightarrow> runtime \<Rightarrow>
   (string list \<times> ptr list \<times> item_heap \<times> runtime) option"
where
  "ltask_wait fuel handle fs n logger rt = do {
     _ \<leftarrow> thread_join handle fs n;
     printed_lines \<leftarrow> (case logger of
        None \<Rightarrow> Some []
      | Some (logfile, G) \<Rightarrow> map_option fst (close_logger logfile G));
     (payloads, h) \<leftarrow> logqueue_delete fuel (rt_log rt);
     (case close_events (t_event (rt_task rt)) (rt_closed rt) of (es, closed) \<Rightarrow>
       let rt = rt\<lparr>rt_task := (rt_task rt)\<lparr>t_event := es\<rparr>, rt_closed := closed\<rparr>
       in Some (printed_lines, payloads, h, rt_delete_message rt (t_external_last_message (rt_task rt)))) }"

text \<open>
  \<open>ltask_deinit\<close>: the messages and Lua states released with the services, and the timer events
  released unfired. \<open>worker_destory\<close> and \<open>queue_delete\<close> only give memory back.
\<close>

definition ltask_deinit :: "runtime \<Rightarrow> (message list \<times> ptr list \<times> timer_event list) option" where
  "ltask_deinit rt = do {
     (freed, closed) \<leftarrow> service_destory (Some (rt_pool rt));
     events \<leftarrow> timer_destroy (rt_timer rt);
     Some (freed, closed, events) }"

section \<open>The debug log\<close>

text \<open>
  In a debug build \<open>ltask_init\<close> and \<open>worker_init\<close> make the loggers: the scheduler's is number 0,
  that of worker \<open>i\<close> number \<open>i + 1\<close>.
\<close>

fun worker_loggers :: "int list \<Rightarrow> logger_all \<Rightarrow> logger_all option" where
  "worker_loggers [] G = Some G"
| "worker_loggers (i # is) G = do {
     G \<leftarrow> dlog_new ''WORKER'' i G;
     worker_loggers is G }"

definition init_loggers :: "ltask \<Rightarrow> logger_all \<Rightarrow> logger_all option" where
  "init_loggers t G = do {
     G \<leftarrow> dlog_new ''SCHEDULE'' (-1) G;
     worker_loggers (worker_ids t) G }"

text \<open>\<open>ltask_debuglog\<close> writes to the logger of the worker that runs the service; in a release build
  it does nothing.\<close>

definition ltask_debuglog ::
  "bool \<Rightarrow> stack_value list \<Rightarrow> service_id \<Rightarrow> ltask \<Rightarrow> logger_all \<Rightarrow>
   ((string + stack_value list) \<times> logger_all) option"
where
  "ltask_debuglog debug L i t G =
     (if \<not> debug then Some (Inr [], G)
      else do {
        worker \<leftarrow> get_worker_id t i;
        if worker < 0 then Some (Inl ''Can't find thread'', G)
        else (case luaL_checkstring L 1 of
            Inl msg \<Rightarrow> Some (Inl msg, G)
          | Inr s \<Rightarrow> do {
              G \<leftarrow> dlog_write (nat worker + 1) (takeWhile (\<lambda>c. c \<noteq> NUL) s) G;
              Some (Inr [], G) }) })"

section \<open>Signals\<close>

datatype signal =
    SIGABRT | SIGALRM | SIGBUS | SIGCHLD | SIGCONT | SIGFPE | SIGHUP | SIGILL | SIGINT | SIGKILL
  | SIGPIPE | SIGQUIT | SIGSEGV | SIGSTOP | SIGTSTP | SIGSYS | SIGTERM | SIGTRAP | SIGTTIN | SIGTTOU
  | SIGXCPU | SIGXFSZ | SIGOTHER int

fun sig_name :: "signal \<Rightarrow> string" where
  "sig_name SIGABRT = ''SIGABRT''"
| "sig_name SIGALRM = ''SIGALRM''"
| "sig_name SIGBUS = ''SIGBUS''"
| "sig_name SIGCHLD = ''SIGCHLD''"
| "sig_name SIGCONT = ''SIGCONT''"
| "sig_name SIGFPE = ''SIGFPE''"
| "sig_name SIGHUP = ''SIGHUP''"
| "sig_name SIGILL = ''SIGILL''"
| "sig_name SIGINT = ''SIGINT''"
| "sig_name SIGKILL = ''SIGKILL''"
| "sig_name SIGPIPE = ''SIGPIPE''"
| "sig_name SIGQUIT = ''SIGQUIT''"
| "sig_name SIGSEGV = ''SIGSEGV''"
| "sig_name SIGSTOP = ''SIGSTOP''"
| "sig_name SIGTSTP = ''SIGTSTP''"
| "sig_name SIGSYS = ''SIGSYS''"
| "sig_name SIGTERM = ''SIGTERM''"
| "sig_name SIGTRAP = ''SIGTRAP''"
| "sig_name SIGTTIN = ''SIGTTIN''"
| "sig_name SIGTTOU = ''SIGTTOU''"
| "sig_name SIGXCPU = ''SIGXCPU''"
| "sig_name SIGXFSZ = ''SIGXFSZ''"
| "sig_name (SIGOTHER n) = ''Unknown Signal''"

text \<open>
  The thread-specific keys, by thread, and the two globals; the handlers are \<open>crash_log_worker\<close>
  (whose \<open>ud\<close> is the worker) and \<open>crash_log_default\<close> (whose \<open>ud\<close> is the file name).
\<close>

datatype sig_handler = Crash_log_worker | Crash_log_default

datatype sig_ud = Ud_worker int | Ud_file string

record sig_state =
  key_handler :: "int \<Rightarrow> sig_handler option"
  key_ud :: "int \<Rightarrow> sig_ud option"
  g_sig_handler :: "sig_handler option"
  g_sig_ud :: "sig_ud option"
  sig_installed :: "signal list"

definition sig_none :: sig_state where
  "sig_none = \<lparr>key_handler = (\<lambda>_. None), key_ud = (\<lambda>_. None), g_sig_handler = None, g_sig_ud = None,
     sig_installed = []\<rparr>"

text \<open>\<open>sig_init\<close>: \<open>sigaction\<close> refuses \<open>SIGKILL\<close> and \<open>SIGSTOP\<close>, and nobody looks at its answer.\<close>

definition sig_init :: "sig_state \<Rightarrow> sig_state" where
  "sig_init st = st\<lparr>key_handler := (\<lambda>_. None), key_ud := (\<lambda>_. None),
     sig_installed := filter (\<lambda>s. s \<noteq> SIGKILL \<and> s \<noteq> SIGSTOP)
       [SIGABRT, SIGBUS, SIGFPE, SIGHUP, SIGILL, SIGKILL, SIGSEGV, SIGSTOP, SIGTERM]\<rparr>"

definition sig_register :: "int \<Rightarrow> sig_handler \<Rightarrow> sig_ud \<Rightarrow> sig_state \<Rightarrow> sig_state" where
  "sig_register thread handler ud st =
     st\<lparr>key_handler := (key_handler st)(thread := Some handler), key_ud := (key_ud st)(thread := Some ud)\<rparr>"

definition sig_register_default :: "sig_handler \<Rightarrow> sig_ud \<Rightarrow> sig_state \<Rightarrow> sig_state" where
  "sig_register_default handler ud st = st\<lparr>g_sig_handler := Some handler, g_sig_ud := Some ud\<rparr>"

text \<open>The handler a signal runs on a thread, with its \<open>ud\<close>.\<close>

definition signal_handler :: "int \<Rightarrow> sig_state \<Rightarrow> (sig_handler \<times> sig_ud option) option" where
  "signal_handler thread st =
     (case key_handler st thread of
        Some f \<Rightarrow> Some (f, key_ud st thread)
      | None \<Rightarrow>
          (case g_sig_handler st of
             Some f \<Rightarrow> Some (f, g_sig_ud st)
           | None \<Rightarrow> None))"

section \<open>The crash log\<close>

text \<open>
  \<open>crash_log\<close> (the POSIX branch): what is written to the file, if it is opened; \<open>write\<close> of a byte
  nobody has written is \<^term>\<open>None\<close>.
\<close>

fun written :: "cells \<Rightarrow> string option" where
  "written [] = Some []"
| "written (c # cs) = do { x \<leftarrow> c; xs \<leftarrow> written cs; Some (x # xs) }"

definition crash_log ::
  "(ptr \<Rightarrow> lua_Debug list) \<Rightarrow> bool \<Rightarrow> ltask \<Rightarrow> service_id \<Rightarrow> signal \<Rightarrow> string option option"
where
  "crash_log stack opens t i sig =
     (if c_crashlog (t_config t) = [] then Some None
      else do {
        (n, backtrace) \<leftarrow> service_backtrace stack (t_services t) i (replicate 4096 None) 4096;
        if n = 0 then Some None
        else if \<not> opens then Some None
        else do {
          text \<leftarrow> written (take (nat n) backtrace);
          Some (Some (sig_name sig @ [CHR 0x0A] @ text)) } })"

definition crash_log_worker ::
  "(ptr \<Rightarrow> lua_Debug list) \<Rightarrow> bool \<Rightarrow> ltask \<Rightarrow> int \<Rightarrow> signal \<Rightarrow> string option option"
where
  "crash_log_worker stack opens t w sig = do {
     w \<leftarrow> worker_at t w;
     crash_log stack opens t (w_running w) sig }"

definition crash_log_default :: "bool \<Rightarrow> signal \<Rightarrow> string option" where
  "crash_log_default opens sig = (if \<not> opens then None else Some (sig_name sig))"

section \<open>Sleeping\<close>

text \<open>How a \<open>nanosleep\<close> ends: done, interrupted with the time that is left, or refused.\<close>

datatype sleep_answer = Slept | Interrupted timespec | Refused

fun sleep_loop :: "timespec \<Rightarrow> sleep_answer list \<Rightarrow> timespec list option" where
  "sleep_loop timeout [] = None"
| "sleep_loop timeout (Slept # as) = Some [timeout]"
| "sleep_loop timeout (Interrupted rest # as) = map_option ((#) timeout) (sleep_loop rest as)"
| "sleep_loop timeout (Refused # as) = None"

text \<open>The requests made; \<^term>\<open>None\<close> is the failed \<open>assert\<close>, or an answer that does not come.\<close>

definition sys_sleep :: "u32 \<Rightarrow> sleep_answer list \<Rightarrow> timespec list option" where
  "sys_sleep msec as = sleep_loop \<lparr>tv_sec = uint (msec div 1000), tv_nsec = uint ((msec mod 1000) * 1000 * 1000)\<rparr> as"

definition ltask_sleep :: "stack_value list \<Rightarrow> sleep_answer list \<Rightarrow> (string + timespec list) option" where
  "ltask_sleep L as =
     (case luaL_optinteger L 1 0 of
        Inl e \<Rightarrow> Some (Inl e)
      | Inr csec \<Rightarrow> map_option Inr (sys_sleep (ucast csec) as))"

section \<open>The modules\<close>

text \<open>
  \<open>luaopen_ltask_bootstrap\<close> and \<open>luaopen_ltask_root\<close> open once per process: \<open>init\<close> is the value of
  their static counter before the call. \<open>key\<close> says whether the registry has the string that
  \<open>init_service_key\<close> stores, without which a state was not made by the program. The answer is
  the table of the functions registered.
\<close>

definition bootstrap_functions :: "string list" where
  "bootstrap_functions = [''init'', ''deinit'', ''run'', ''wait'', ''post_message'', ''new_service'',
     ''init_timer'', ''init_root'', ''init_socket'', ''pushlog'', ''pack'', ''unpack'', ''remove'',
     ''unpack_remove'', ''external_sender'']"

definition luaopen_ltask_bootstrap :: "int \<Rightarrow> (string + string list) \<times> int" where
  "luaopen_ltask_bootstrap init =
     (let init = init + 1 in
      if init \<noteq> 1 then (Inl ''ltask.bootstrap can only require once'', init)
      else (Inr bootstrap_functions, init))"

definition ltask_functions :: "string list" where
  "ltask_functions = [''pack'', ''unpack'', ''remove'', ''unpack_remove'', ''timer_sleep''] @
     [''send_message'', ''recv_message'', ''message_receipt'', ''touch_service'', ''self'', ''worker_id'',
      ''worker_bind'', ''timer_add'', ''timer_update'', ''now'', ''pushlog'', ''poplog'', ''get_pushlog'',
      ''mem_limit'', ''mem_count'', ''label'', ''backtrace'', ''debuglog'', ''eventinit'', ''eventreset''] @
     [''counter'', ''cpucost'']"

definition luaopen_ltask :: "bool \<Rightarrow> string + string list" where
  "luaopen_ltask key =
     (if \<not> key then Inl ''No service id, the VM is not inited by ltask'' else Inr ltask_functions)"

definition luaopen_ltask_root :: "bool \<Rightarrow> int \<Rightarrow> (string + string list) \<times> int" where
  "luaopen_ltask_root key init =
     (let init = init + 1 in
      if init \<noteq> 1 then (Inl ''ltask.root can only require once'', init)
      else if \<not> key then (Inl ''No service id, the VM is not inited by ltask'', init)
      else (Inr [''init_service'', ''close_service''], init))"

lemma modules_open_once:
  "0 \<le> n \<Longrightarrow> fst (luaopen_ltask_bootstrap n) = Inr fs \<Longrightarrow> n = 0"
  "0 \<le> n \<Longrightarrow> fst (luaopen_ltask_root key n) = Inr fs \<Longrightarrow> n = 0 \<and> key"
  by (auto simp: luaopen_ltask_bootstrap_def luaopen_ltask_root_def Let_def split: if_splits)

section \<open>Making the runtime\<close>

text \<open>
  The rest of \<open>ltask_init\<close>: \<open>already\<close> says the registry has a configuration; \<open>got\<close> and \<open>ok\<close> are the
  answers to \<open>logqueue_new\<close>. As in \<open>Boot\<close>, a NULL that is stored and used later is \<^term>\<open>None\<close>.
\<close>

definition ltask_init_runtime ::
  "bool \<Rightarrow> bool \<Rightarrow> bool \<Rightarrow> malloc_oracle \<Rightarrow> ltask_config \<Rightarrow> sig_state \<Rightarrow> (string + (runtime \<times> sig_state)) option"
where
  "ltask_init_runtime already got ok mem config st =
     (if already then Some (Inl ''Already init'')
      else do {
        let st = (if c_crashlog config \<noteq> []
                  then sig_register_default Crash_log_default (Ud_file (c_crashlog config)) st else st);
        lqueue \<leftarrow> logqueue_new got ok;
        q \<leftarrow> lqueue;
        t \<leftarrow> ltask_init mem config;
        Some (Inr (\<lparr>rt_task = t, rt_timer = None, rt_log = (Map.empty, q), rt_closed = []\<rparr>, st)) })"

lemma ltask_init_runtime_wf:
  assumes "config_accepted config"
  shows "\<exists>rt st'. ltask_init_runtime False True True [] config st = Some (Inr (rt, st')) \<and> rt_wf rt
    \<and> log_rep (rt_log rt) []"
proof -
  from ltask_init_boot [OF assms] obtain t where
    t: "ltask_init [] config = Some t" "boot_inv t" by blast
  then have inv: "sched_inv t {#}" by (simp add: boot_inv_def)
  note D = sched_invD [OF inv]
  have "length (t_event_init t) = MAX_SOCKEVENT"
    using t(1) by (auto simp: ltask_init_def bind_eq_Some_conv case_prod_beta)
  moreover have "log_rep (Map.empty, \<lparr>lq_freelist = 0, lq_head = 0, lq_tail = 0, lq_lock = False\<rparr>) []"
    by (auto simp: log_rep_def log_cells_def last_ptr_def)
  ultimately show ?thesis
    using t(1) D(1,2,4) by (auto simp: ltask_init_runtime_def logqueue_new_def rt_wf_def rt_pool_def)
qed

text \<open>\<open>lbacktrace\<close>, with its buffer of 4096 bytes.\<close>

definition lbacktrace :: "(ptr \<Rightarrow> lua_Debug list) \<Rightarrow> service_id \<Rightarrow> runtime \<Rightarrow> answer" where
  "lbacktrace stack i rt = do {
     (n, buf) \<leftarrow> service_backtrace stack (rt_pool rt) i (replicate 4096 None) 4096;
     text \<leftarrow> written (take (nat n) buf);
     give [LStr text None] rt }"

lemma written_cells: "written (map Some s) = Some s"
  by (induction s) simp_all

text \<open>
  A crash in a service whose frames fit the buffers: the log names the signal and holds at most 4096
  bytes of the trace; a worker's thread finds its own worker, any other thread the default handler.
\<close>

lemma crash_log_text:
  assumes "c_crashlog (t_config t) \<noteq> []" and "get_service (t_services t) i = Some S" and "s_L S \<noteq> 0"
    and "list_all frame_fits (traced_frames stack (s_L S))"
  shows "\<exists>log. crash_log stack True t i sig = Some log
    \<and> (case log of None \<Rightarrow> True | Some l \<Rightarrow> \<exists>text. l = sig_name sig @ [CHR 0x0A] @ text \<and> length text \<le> 4096)"
proof -
  let ?T = "concat (map frame_text (traced_frames stack (s_L S)))"
  from service_backtrace_spec [OF assms(2-4), of "replicate 4096 None" 4096] obtain n buf where
    b: "service_backtrace stack (t_services t) i (replicate 4096 None) 4096 = Some (n, buf)"
    and r: "if length ?T < unat (4096 :: u64) then n = int (length ?T) \<and> take (length ?T) buf = map Some ?T
      else n = int (unat (4096 :: u64)) \<and> (\<exists>c. (c = NUL \<or> c = ?T ! (unat (4096 :: u64) - 1))
        \<and> buf = map Some (take (unat (4096 :: u64) - 1) ?T @ [c]))"
    unfolding Let_def by auto
  have u: "unat (4096 :: u64) = 4096" by simp
  have "\<exists>text. written (take (nat n) buf) = Some text \<and> length text \<le> 4096"
  proof (cases "length ?T < 4096")
    case True
    with r show ?thesis by (simp add: u written_cells)
  next
    case False
    with r obtain c where "n = 4096" "buf = map Some (take 4095 ?T @ [c])" by (auto simp: u)
    then show ?thesis by (simp only: take_map written_cells) auto
  qed
  then show ?thesis using assms(1) b by (auto simp: crash_log_def)
qed

lemma sig_handlers:
  "signal_handler th (sig_register th Crash_log_worker ud st) = Some (Crash_log_worker, Some ud)"
  "key_handler st th = None \<Longrightarrow>
     signal_handler th (sig_register_default Crash_log_default ud st) = Some (Crash_log_default, Some ud)"
  by (simp_all add: signal_handler_def sig_register_def sig_register_default_def)

text \<open>What \<open>sys_sleep\<close> asks for is a normalised time of \<open>msec\<close> milliseconds.\<close>

lemma sleep_loop_first: "sleep_loop t as = Some rs \<Longrightarrow> hd rs = t"
  by (induction t as rule: sleep_loop.induct) auto

lemma sys_sleep_request:
  assumes "sys_sleep msec as = Some rs"
  shows "0 \<le> tv_nsec (hd rs) \<and> tv_nsec (hd rs) < 1000000000
    \<and> tv_sec (hd rs) * 1000000000 + tv_nsec (hd rs) = uint msec * 1000000"
proof -
  have rs: "hd rs = \<lparr>tv_sec = uint (msec div 1000), tv_nsec = uint ((msec mod 1000) * 1000 * 1000)\<rparr>"
    by (rule sleep_loop_first [OF assms [unfolded sys_sleep_def]])
  have m: "uint (msec mod 1000) = uint msec mod 1000" by (simp add: uint_mod)
  have r: "0 \<le> uint msec mod 1000" "uint msec mod 1000 < 1000" by simp_all
  define q where "q = uint msec div 1000"
  define k where "k = uint msec mod 1000"
  have "uint ((msec mod 1000) * 1000 * 1000) = k * 1000000"
    using r unfolding k_def by (simp add: uint_word_ariths m take_bit_eq_mod [symmetric] take_bit_int_eq_self)
  then have f: "tv_nsec (hd rs) = k * 1000000" "tv_sec (hd rs) = q" by (simp_all add: rs uint_div q_def)
  have "uint msec = 1000 * q + k" unfolding q_def k_def by (rule mult_div_mod_eq [symmetric])
  then show ?thesis using r [folded k_def] unfolding f by simp
qed

section \<open>Every worker runs\<close>

lemma create_loop_ok:
  "\<forall>i \<in> set is. i < length xs \<Longrightarrow>
     create_loop (\<lambda>_. False) (map Some xs) is = Some (True, map (\<lambda>i. xs ! i) is)"
  by (induction "is") (auto simp: thread_at_def)

lemma thread_start_all:
  assumes "n = int (length xs) - (if usemain then 1 else 0)" and "xs \<noteq> []"
  shows "thread_start (\<lambda>_. False) (map Some xs) n usemain =
    Some (True, if usemain then tl xs else xs, if usemain then [hd xs] else [])"
proof (cases usemain)
  case True
  have tl: "map (\<lambda>i. xs ! Suc i) [0 ..< length xs - 1] = tl xs"
    by (intro nth_equalityI) (simp_all add: nth_tl)
  have "create_loop (\<lambda>_. False) (map Some xs) (map Suc [0 ..< length xs - 1]) = Some (True, tl xs)"
    by (subst create_loop_ok) (auto simp: comp_def tl [simplified])
  moreover have "thread_at (map Some xs) 0 = Some (hd xs)"
    using assms(2) by (simp add: thread_at_def hd_conv_nth)
  moreover have "nat n = length xs - 1" using assms True by (simp add: nat_diff_distrib)
  ultimately show ?thesis using True by (simp add: thread_start_def)
next
  case False
  then show ?thesis using assms by (simp add: thread_start_def create_loop_ok map_nth)
qed

lemma write_workers_map:
  "n \<le> sz \<Longrightarrow> write_workers n (replicate sz None) =
     Some (map (\<lambda>i. Some (Thread_worker (int i))) [0 ..< n] @ replicate (sz - n) None)"
proof (induction n)
  case (Suc n)
  then have "sz - n = Suc (sz - Suc n)" by simp
  then have r: "replicate (sz - n) (None :: thread_entry option) = None # replicate (sz - Suc n) None" by simp
  show ?case using Suc by (simp add: r list_update_append)
qed simp

definition run_entries :: "bool \<Rightarrow> int \<Rightarrow> thread_entry list" where
  "run_entries logthread worker_n = map (\<lambda>i. Thread_worker (int i)) [0 ..< nat worker_n] @
     (if logthread then [Thread_logger] else [])"

lemma swap_entries_map:
  assumes "k < length xs"
  shows "\<exists>ys. swap_entries k (map Some xs) = Some (map Some ys) \<and> mset ys = mset xs \<and> length ys = length xs
    \<and> ys ! 0 = xs ! k"
proof -
  let ?ys = "xs[k := xs ! 0, 0 := xs ! k]"
  have "mset ?ys = mset xs" using assms by (intro mset_swap) auto
  moreover have "swap_entries k (map Some xs) = Some (map Some ?ys)"
    using assms nth_map [of 0 xs Some] by (cases "xs = []") (auto simp: swap_entries_def map_update)
  moreover have "?ys ! 0 = xs ! k" using assms by (cases "xs = []") auto
  ultimately show ?thesis by (intro exI [of _ ?ys]) simp
qed

lemma run_context_entries:
  assumes "1 \<le> worker_n" and "\<not> (logthread \<and> (\<exists>v. lua_arg L 1 = Some (LInt v)))"
  shows "(case lua_arg L 1 of
      Some (LInt v) \<Rightarrow>
        if worker_n \<le> c_int v then run_context logthread worker_n L = Some (Inl ''Invalid mainthread'')
        else (\<exists>xs. run_context logthread worker_n L = Some (Inr (worker_n - 1, True, map Some xs))
          \<and> mset xs = mset (run_entries logthread worker_n) \<and> length xs = nat worker_n
          \<and> (0 \<le> c_int v \<longrightarrow> xs ! 0 = Thread_worker (c_int v)))
    | _ \<Rightarrow> run_context logthread worker_n L =
        Some (Inr (int (length (run_entries logthread worker_n)), False, map Some (run_entries logthread worker_n))))"
proof (cases "\<exists>v. lua_arg L 1 = Some (LInt v)")
  case True
  then obtain v where v: "lua_arg L 1 = Some (LInt v)" by blast
  with assms(2) have nl: "\<not> logthread" by auto
  let ?xs = "run_entries False worker_n"
  have len: "length ?xs = nat worker_n" by (simp add: run_entries_def)
  have w: "write_workers (nat worker_n) (replicate (nat worker_n) None) = Some (map Some ?xs)"
    by (subst write_workers_map) (simp_all add: run_entries_def)
  show ?thesis
  proof (cases "worker_n \<le> c_int v")
    case True
    then show ?thesis using v assms(1) by (simp add: run_context_def)
  next
    case valid: False
    show ?thesis
    proof (cases "0 \<le> c_int v")
      case True
      with valid have "nat (c_int v) < length ?xs" by (simp add: len)
      from swap_entries_map [OF this] obtain ys where
        ys: "swap_entries (nat (c_int v)) (map Some ?xs) = Some (map Some ys)" "mset ys = mset ?xs"
          "length ys = length ?xs" "ys ! 0 = ?xs ! nat (c_int v)" by blast
      have "?xs ! nat (c_int v) = Thread_worker (c_int v)" using True valid by (simp add: run_entries_def)
      then show ?thesis using v valid nl w ys len True by (auto simp: run_context_def Let_def)
    next
      case False
      then show ?thesis using v valid nl w len by (auto simp: run_context_def Let_def intro!: exI [of _ ?xs])
    qed
  qed
next
  case False
  let ?xs = "run_entries False worker_n"
  have "run_context logthread worker_n L =
        Some (Inr (int (length (run_entries logthread worker_n)), False, map Some (run_entries logthread worker_n)))"
  proof (cases logthread)
    case True
    have "write_workers (nat worker_n) (replicate (nat (worker_n + 1)) None) = Some (map Some ?xs @ [None])"
      using assms(1) by (subst write_workers_map) (simp_all add: run_entries_def nat_add_distrib)
    then show ?thesis
      using True False assms(1)
      by (auto simp: run_context_def Let_def run_entries_def list_update_append split: option.splits stack_value.splits)
  next
    case nl: False
    have "write_workers (nat worker_n) (replicate (nat worker_n) None) = Some (map Some ?xs)"
      by (subst write_workers_map) (simp_all add: run_entries_def)
    then show ?thesis
      using nl False assms(1)
      by (auto simp: run_context_def Let_def run_entries_def split: option.splits stack_value.splits)
  qed
  with False show ?thesis by (auto split: option.splits stack_value.splits)
qed

text \<open>
  C30: \<open>ltask_run\<close> starts every worker exactly once. In every build and call but a debug build that
  uses the main thread: the main thread it is asked for must be a worker's number, or it raises
  an error; otherwise, if no \<open>pthread_create\<close> fails, the functions started, on new threads or on
  the calling one, are one loop per worker (and the logger of a debug build), the calling thread
  runs the worker asked for, and \<open>thread_join\<close> waits for exactly the threads that were created.
\<close>

theorem run_starts_every_worker:
  assumes "1 \<le> worker_n" and "\<not> (logthread \<and> (\<exists>v. lua_arg L 1 = Some (LInt v)))"
  shows "case run_context logthread worker_n L of
      None \<Rightarrow> False
    | Some (Inl e) \<Rightarrow> \<exists>v. lua_arg L 1 = Some (LInt v) \<and> worker_n \<le> c_int v
    | Some (Inr (n, usemain, ts)) \<Rightarrow>
        \<exists>fs main. thread_start (\<lambda>_. False) ts n usemain = Some (True, fs, main)
          \<and> mset (fs @ main) = mset (run_entries logthread worker_n)
          \<and> thread_join True fs n = Some fs
          \<and> (\<forall>v. lua_arg L 1 = Some (LInt v) \<and> 0 \<le> c_int v \<longrightarrow> main = [Thread_worker (c_int v)])"
proof (cases "\<exists>v. lua_arg L 1 = Some (LInt v)")
  case True
  then obtain v where v: "lua_arg L 1 = Some (LInt v)" by blast
  show ?thesis
  proof (cases "worker_n \<le> c_int v")
    case True
    then show ?thesis using run_context_entries [OF assms] v by simp
  next
    case False
    with run_context_entries [OF assms] v obtain xs where
      xs: "run_context logthread worker_n L = Some (Inr (worker_n - 1, True, map Some xs))"
        "mset xs = mset (run_entries logthread worker_n)" "length xs = nat worker_n"
        "0 \<le> c_int v \<longrightarrow> xs ! 0 = Thread_worker (c_int v)" by auto
    have ne: "xs \<noteq> []" using xs(3) assms(1) by auto
    have "thread_start (\<lambda>_. False) (map Some xs) (worker_n - 1) True = Some (True, tl xs, [hd xs])"
      using thread_start_all [of "worker_n - 1" xs True] ne xs(3) assms(1) by simp
    moreover have "mset (tl xs @ [hd xs]) = mset xs" using ne by (cases xs) auto
    moreover have "thread_join True (tl xs) (worker_n - 1) = Some (tl xs)"
      using xs(3) assms(1) by (cases xs) (auto simp: thread_join_def)
    ultimately show ?thesis using xs(1,2,4) v ne by (simp add: hd_conv_nth)
  qed
next
  case False
  let ?xs = "run_entries logthread worker_n"
  have "?xs \<noteq> []" using assms(1) by (simp add: run_entries_def)
  then have "thread_start (\<lambda>_. False) (map Some ?xs) (int (length ?xs)) False = Some (True, ?xs, [])"
    using thread_start_all [of "int (length ?xs)" ?xs False] by simp
  moreover have "run_context logthread worker_n L = Some (Inr (int (length ?xs), False, map Some ?xs))"
    using run_context_entries [OF assms] False by (auto split: option.splits stack_value.splits)
  ultimately show ?thesis using False by (auto simp: thread_join_def)
qed

theorem run_starts_every_worker_witness:
  "\<exists>ts fs. run_context False 3 [LInt 1] = Some (Inr (2, True, ts))
    \<and> thread_start (\<lambda>_. False) ts 2 True = Some (True, fs, [Thread_worker 1])
    \<and> mset (fs @ [Thread_worker 1]) = mset [Thread_worker 0, Thread_worker 1, Thread_worker 2]"
proof -
  have "run_context False 3 [LInt 1] = Some (Inr (2, True, [Some (Thread_worker 1), Some (Thread_worker 0), Some (Thread_worker 2)]))"
    by code_simp
  with run_starts_every_worker [of 3 False "[LInt 1]"] show ?thesis
    by (fastforce simp: lua_arg_def c_int_def run_entries_def numeral_3_eq_3)
qed

text \<open>
  A debug build on the main thread: the logger takes the entry of the last worker, the entry after
  it is read although nobody has written it.
\<close>

lemma debug_build_loses_worker:
  "run_context True 2 [LInt 0] = Some (Inr (2, True, [Some (Thread_worker 0), Some Thread_logger, None]))"
  "thread_start (\<lambda>_. False) [Some (Thread_worker 0), Some Thread_logger, None] 2 True = None"
  by code_simp+

section \<open>The loggers of a debug build\<close>

definition worker_book :: "int list \<Rightarrow> (string \<times> item list) list" where
  "worker_book is = map (\<lambda>i. (''WORKER'' @ show_int i, [])) is"

lemma show_int_length: "0 \<le> i \<Longrightarrow> i < 10 ^ 18 \<Longrightarrow> length (show_int i) \<le> 18"
  using show_nat_length [of "nat i" 17] by (simp add: show_int_def nat_less_iff)

lemma worker_loggers_rep:
  "dlog_rep G (bs, k) \<Longrightarrow> \<forall>i \<in> set is. 0 \<le> i \<and> i < 10 ^ 18 \<Longrightarrow>
   \<exists>G'. worker_loggers is G = Some G' \<and> dlog_rep G' (rev (worker_book is) @ bs, k)"
proof (induction "is" arbitrary: G bs)
  case (Cons i "is")
  have "length ''WORKER'' + length (show_int i) \<le> 126" using show_int_length [of i] Cons.prems(2) by simp
  with dlog_new_rep [of i "''WORKER''" G] Cons.prems obtain l where
    "dlog_new ''WORKER'' i G = Some (G\<lparr>ga_logger := l # ga_logger G\<rparr>)"
    "logger_rep l (''WORKER'' @ show_int i, [])" by auto
  with Cons.IH [of "G\<lparr>ga_logger := l # ga_logger G\<rparr>" "(''WORKER'' @ show_int i, []) # bs"] Cons.prems show ?case
    by (auto simp: dlog_rep_def worker_book_def)
qed (simp add: worker_book_def)

text \<open>The line a service writes carries the name of the worker it runs on.\<close>

lemma init_loggers_rep:
  assumes "c_worker (t_config t) < 10 ^ 18"
  shows "\<exists>G. init_loggers t no_loggers = Some G
    \<and> dlog_rep G (rev (worker_book (worker_ids t)) @ [(''SCHEDULE'', [])], 0)"
proof -
  have "dlog_rep no_loggers ([], 0)" by (simp add: dlog_rep_def no_loggers_def)
  with dlog_new_rep [of "-1" "''SCHEDULE''" no_loggers] obtain G where
    "dlog_new ''SCHEDULE'' (-1) no_loggers = Some G" "dlog_rep G ([(''SCHEDULE'', [])], 0)"
    by (auto simp: dlog_rep_def)
  moreover have "\<forall>i \<in> set (worker_ids t). 0 \<le> i \<and> i < 10 ^ 18" using assms by (auto simp: worker_ids_def)
  ultimately show ?thesis
    using worker_loggers_rep [of G "[(''SCHEDULE'', [])]" 0 "worker_ids t"] by (auto simp: init_loggers_def)
qed

lemma pending_single:
  "pending bs = [] \<Longrightarrow> j < length bs \<Longrightarrow> bs ! j = (nm, []) \<Longrightarrow>
   pending (bs[j := (nm, [(k, s)])]) = [log_line k nm s]"
  using pending_write [of j bs k s] by simp

lemma debuglog_names_worker:
  assumes rep: "dlog_rep G (rev (worker_book (worker_ids t)) @ [(''SCHEDULE'', [])], k)"
    and w: "get_worker_id t i = Some n" "0 \<le> n" "n < c_worker (t_config t)"
    and s: "NUL \<notin> set s" "length s + 8 \<le> CHUNKSIZE"
  shows "\<exists>G' bs. ltask_debuglog True [LStr s c] i t G = Some (Inr [], G') \<and> dlog_rep G' (bs, k + 1)
    \<and> pending bs = [log_line (k + 1) (''WORKER'' @ show_int n) s]"
proof -
  define bs where "bs = rev (worker_book (worker_ids t)) @ [(''SCHEDULE'', [])]"
  define j where "j = length bs - 1 - (nat n + 1)"
  let ?nm = "''WORKER'' @ show_int n"
  have jj: "length bs - Suc (Suc (nat n)) = j" by (simp add: j_def)
  have len: "length bs = nat (c_worker (t_config t)) + 1" by (simp add: bs_def worker_book_def worker_ids_def)
  have h: "nat n + 1 < length bs" "j < length bs" using w(2,3) len by (auto simp: j_def)
  have "bs ! j = worker_book (worker_ids t) ! nat n"
    using w(2,3) len by (simp add: j_def bs_def nth_append rev_nth)
  also have "\<dots> = (?nm, [])" using w(2,3) by (simp add: worker_book_def worker_ids_def)
  finally have entry: "bs ! j = (?nm, [])" .
  have "pending bs = []" by (auto simp: bs_def pending_def worker_book_def lines_of_def)
  note line = pending_single [OF this h(2) entry, of "k + 1" s]
  have "dlog_rep G (bs, k)" using rep by (simp add: bs_def)
  from dlog_step_rep [OF this, of "Dlog_write (nat n + 1) s"] h(1) s obtain G' where
    G': "dlog_write (nat n + 1) s G = Some G'" "dlog_rep G' (bs[j := (?nm, [(k + 1, s)])], k + 1)"
    by (auto simp: Let_def jj entry)
  moreover have "takeWhile (\<lambda>c. c \<noteq> NUL) s = s" using s(1) by (auto simp: takeWhile_eq_all_conv)
  ultimately have "ltask_debuglog True [LStr s c] i t G = Some (Inr [], G')"
    using w by (simp add: ltask_debuglog_def luaL_checkstring_def lua_arg_def del: takeWhile_eq_all_conv)
  with G'(2) line show ?thesis by blast
qed

section \<open>Shutting down\<close>

definition event_fds :: "sockevent \<Rightarrow> int multiset" where
  "event_fds e = mset (filter (\<lambda>fd. fd \<noteq> socket_invalid) [se_pipe0 e, se_pipe1 e])"

definition event_closed :: "sockevent \<Rightarrow> bool" where
  "event_closed e \<longleftrightarrow> se_pipe0 e = socket_invalid \<and> se_pipe1 e = socket_invalid"

lemma close_events_spec:
  "close_events es closed = (es', closed') \<Longrightarrow>
     list_all event_closed es' \<and> length es' = length es
     \<and> mset closed' = mset closed + sum_list (map event_fds es)"
proof (induction es arbitrary: closed es' closed')
  case (Cons e es)
  have e: "event_closed (fst (sockevent_close e closed))"
    "mset (snd (sockevent_close e closed)) = mset closed + event_fds e"
    by (auto simp: sockevent_close_def event_closed_def event_fds_def Let_def)
  obtain e1 c1 where 1: "sockevent_close e closed = (e1, c1)" by fastforce
  obtain es2 c2 where 2: "close_events es c1 = (es2, c2)" by fastforce
  from Cons.IH [OF 2] Cons.prems e 1 2 show ?case by (auto simp: ac_simps)
qed simp

definition timer_args :: "runtime \<Rightarrow> timer_event multiset" where
  "timer_args rt = (case rt_timer rt of None \<Rightarrow> {#} | Some T \<Rightarrow> args_of T)"

definition log_pending :: "(string option \<times> logger_all) option \<Rightarrow> string list \<Rightarrow> bool" where
  "log_pending logger ls \<longleftrightarrow>
     (case logger of None \<Rightarrow> ls = [] | Some (f, G) \<Rightarrow> \<exists>b. dlog_rep G b \<and> ls = pending (fst b))"

text \<open>
  C29: shutting down releases everything the runtime holds, once. From every well-formed runtime
  whose threads were started, \<open>ltask_wait\<close> and then \<open>ltask_deinit\<close> return; they release the payloads
  of exactly the queued log messages and all nodes of the log queue, exactly the messages and Lua
  states the services hold and the pending external message (the ledgers of what was released before
  included), exactly the timer events that have not fired; and they close exactly the descriptors the
  socket events still have, leaving all events closed. In a debug build the lines of the debug log that
  are still in memory are printed.
\<close>

theorem shutdown_releases_everything:
  assumes "rt_wf rt" and "log_rep (rt_log rt) ms" and "length ms < fuel" and "nat n \<le> length fs"
    and "log_pending logger ls"
  shows "\<exists>rt' freed closed events. ltask_wait fuel True fs n logger rt = Some (ls, map lm_msg ms, Map.empty, rt')
    \<and> ltask_deinit rt' = Some (freed, closed, events)
    \<and> mset freed = pool_msgs (rt_pool rt) + opt_msgs (t_external_last_message (rt_task rt))
    \<and> mset closed = pool_vms (rt_pool rt)
    \<and> mset events = timer_args rt
    \<and> list_all event_closed (t_event (rt_task rt'))
    \<and> mset (rt_closed rt') = mset (rt_closed rt) + sum_list (map event_fds (t_event (rt_task rt)))"
proof -
  obtain es closed where ev: "close_events (t_event (rt_task rt)) (rt_closed rt) = (es, closed)" by fastforce
  note E = close_events_spec [OF ev]
  let ?rt1 = "rt\<lparr>rt_task := (rt_task rt)\<lparr>t_event := es\<rparr>, rt_closed := closed\<rparr>"
  let ?m = "t_external_last_message (rt_task rt)"
  let ?rt2 = "rt_delete_message ?rt1 ?m"
  have "(case logger of None \<Rightarrow> Some [] | Some (logfile, G) \<Rightarrow> map_option fst (close_logger logfile G)) = Some ls"
    using assms(5) by (auto simp: log_pending_def close_logger_def pending_def dlog_close_rep split: option.splits)
  then have wait: "ltask_wait fuel True fs n logger rt = Some (ls, map lm_msg ms, Map.empty, ?rt2)"
    using delete_rep [OF assms(2,3)] ev assms(4) by (simp add: ltask_wait_def thread_join_def)
  have pool: "rt_pool ?rt2 = (rt_pool rt)\<lparr>p_freed := message_delete ?m (p_freed (rt_pool rt))\<rparr>"
    by (simp add: rt_delete_message_def rt_pool_def rt_set_pool_def)
  have "pool_wf (rt_pool ?rt2)" using rt_wfD(1) [OF assms(1)] by (simp add: pool)
  from service_destory_spec [OF this] obtain freed lua where
    svc: "service_destory (Some (rt_pool ?rt2)) = Some (freed, lua)" "mset freed = pool_msgs (rt_pool ?rt2)"
      "mset lua = pool_vms (rt_pool ?rt2)" by blast
  have "pool_msgs (rt_pool ?rt2) = pool_msgs (rt_pool rt) + opt_msgs ?m"
    unfolding pool by (rule pool_msgs_freed)
  moreover have "pool_vms (rt_pool ?rt2) = pool_vms (rt_pool rt)" unfolding pool by simp
  moreover have "\<exists>events. timer_destroy (rt_timer ?rt2) = Some events \<and> mset events = timer_args rt"
  proof (cases "rt_timer rt")
    case None
    then show ?thesis by (simp add: timer_destroy_def timer_args_def rt_delete_message_def)
  next
    case (Some T)
    then have "\<not> tm_lock T" using assms(1) by (auto simp: rt_wf_def timer_free_def)
    from timer_destroy_args [OF this] Some show ?thesis by (simp add: timer_args_def rt_delete_message_def)
  qed
  moreover have "t_event (rt_task ?rt2) = es" "rt_closed ?rt2 = closed" by (simp_all add: rt_delete_message_def)
  ultimately show ?thesis using wait svc E by (auto simp: ltask_deinit_def)
qed

theorem shutdown_releases_everything_witness:
  "\<exists>p rt' freed closed. pool_run one_service demo_pool = Some ([demo_message], [], p)
    \<and> ltask_wait 1 True [Thread_worker 0, Thread_worker 1] 2 None (quiet_runtime p) = Some ([], [], Map.empty, rt')
    \<and> ltask_deinit rt' = Some (freed, closed, []) \<and> mset freed = {#demo_message#} \<and> mset closed = {#64#}"
proof -
  from one_service_pool obtain p S where p: "pool_run one_service demo_pool = Some ([demo_message], [], p)"
    "pool_wf p" "p_malloc p = []"
    "list_all (\<lambda>s. case s of None \<Rightarrow> True | Some S \<Rightarrow> s_binding_thread S = -1 \<and> s_sockevent_id S = -1) (p_s p)"
    by blast
  have pool: "rt_pool (quiet_runtime p) = p" by (simp add: quiet_runtime_def rt_pool_def)
  have "pool_opened one_service demo_pool = [64]" by code_simp
  then have acc: "pool_msgs p = {#demo_message#}" "pool_vms p = {#64#}"
    using pool_run_ok [OF pool_reach_wf [OF demo_reach] p(1)] service_create_wf(2,3) [OF demo_sized demo_create] by simp_all
  have "log_rep (rt_log (quiet_runtime p)) []"
    by (auto simp: quiet_runtime_def log_rep_def log_cells_def last_ptr_def)
  from shutdown_releases_everything [OF quiet_runtime_wf [OF p(2,3,4)] this, of 1 2 "[Thread_worker 0, Thread_worker 1]" None "[]"]
  show ?thesis using p(1) acc
    by (auto simp: pool timer_args_def log_pending_def) (auto simp: quiet_runtime_def)
qed

end
