(* ===== verification/Windows.thy ===== *)
theory Windows
  imports Lifecycle
begin

text \<open>
  The Windows half of \<open>src/thread.h\<close> and \<open>src/sysapi.c\<close>, next to the POSIX half in \<open>Lifecycle\<close>, and
  \<open>thread_run\<close> and \<open>thread_wait\<close> of both, which nothing in the repository calls. What a system call
  answers is an argument; NULL is the pointer 0. The calls of \<open>sysapi.c\<close> have no effect but on the
  system, so the model of a function is the list of the calls it makes.
\<close>

section \<open>Starting and joining threads\<close>

text \<open>\<open>create i\<close> is what \<open>CreateThread\<close> answers for entry \<open>i\<close> of the array.\<close>

fun create_handles :: "(nat \<Rightarrow> ptr) \<Rightarrow> thread_array \<Rightarrow> nat list \<Rightarrow> (bool \<times> (ptr \<times> thread_entry) list) option" where
  "create_handles create ts [] = Some (True, [])"
| "create_handles create ts (i # is) =
     (if create i = 0 then Some (False, [])
      else do {
        f \<leftarrow> thread_at ts i;
        (ok, hs) \<leftarrow> create_handles create ts is;
        Some (ok, (create i, f) # hs) })"

text \<open>The handles, if they are returned; the threads created; what the calling thread runs.\<close>

definition thread_start_windows ::
  "(nat \<Rightarrow> ptr) \<Rightarrow> thread_array \<Rightarrow> int \<Rightarrow> bool \<Rightarrow> (ptr list option \<times> thread_entry list \<times> thread_entry list) option"
where
  "thread_start_windows create ts n usemainthread = do {
     let off = (if usemainthread then 1 else 0);
     (ok, hs) \<leftarrow> create_handles create ts (map (\<lambda>i. i + off) [0 ..< nat n]);
     if \<not> ok then Some (None, map snd hs, [])
     else if usemainthread
     then do {
       f \<leftarrow> thread_at ts 0;
       Some (Some (map fst hs), map snd hs, [f]) }
     else Some (Some (map fst hs), map snd hs, []) }"

lemma create_handles_posix:
  "create_loop (\<lambda>i. create i = 0) ts is = map_option (\<lambda>(ok, hs). (ok, map snd hs)) (create_handles create ts is)"
  by (induction "is") (auto split: bind_splits option.splits simp: case_prod_beta map_option_case)

theorem thread_start_platforms:
  "thread_start (\<lambda>i. create i = 0) ts n m =
     map_option (\<lambda>(hs, fs, main). (hs \<noteq> None, fs, main)) (thread_start_windows create ts n m)"
  by (auto simp: thread_start_def thread_start_windows_def create_handles_posix Let_def case_prod_beta
      split: option.splits bind_splits)

text \<open>
  \<open>thread_join\<close>: the threads waited for and the handles closed. \<open>wait k\<close> says \<open>WaitForMultipleObjects\<close>
  waits for \<open>k\<close> handles; its answer is not looked at.
\<close>

definition thread_join_windows :: "(nat \<Rightarrow> bool) \<Rightarrow> ptr list option \<Rightarrow> int \<Rightarrow> (ptr list \<times> ptr list) option" where
  "thread_join_windows wait handle n =
     (case handle of
        None \<Rightarrow> if nat n = 0 then Some ([], []) else None
      | Some hs \<Rightarrow>
          if nat n \<le> length hs
          then Some (if wait (nat n) then take (nat n) hs else [], take (nat n) hs)
          else None)"

text \<open>
  The documented limit of \<open>WaitForMultipleObjects\<close> is \<open>MAXIMUM_WAIT_OBJECTS\<close>, 64 handles. Up to
  it every thread is waited for; above it none is, and \<open>ltask_wait\<close> goes on to release what the
  running workers use. \<open>config_load\<close> accepts up to \<open>MAX_WORKER\<close> workers.
\<close>

lemma windows_join_waits:
  assumes "\<And>k. wait k \<longleftrightarrow> 0 < k \<and> k \<le> 64" and "nat n \<le> length hs" and "nat n \<le> 64"
  shows "thread_join_windows wait (Some hs) n = Some (take (nat n) hs, take (nat n) hs)"
  using assms by (auto simp: thread_join_windows_def)

lemma windows_join_misses:
  assumes "\<And>k. wait k \<longleftrightarrow> 0 < k \<and> k \<le> 64" and "nat n \<le> length hs" and "64 < n"
  shows "thread_join_windows wait (Some hs) n = Some ([], take (nat n) hs)" and "64 < MAX_WORKER"
  using assms by (auto simp: thread_join_windows_def)

section \<open>Threads with a copy of their own\<close>

text \<open>
  \<open>thread_run\<close> copies the entry into a block, which the thread frees when its function returns.
  \<open>block\<close> is what the allocation answers; it is not checked.
\<close>

type_synonym thread_heap = "ptr \<rightharpoonup> thread_entry"

definition thread_run :: "ptr \<Rightarrow> ptr option \<Rightarrow> thread_entry \<Rightarrow> thread_heap \<Rightarrow> (ptr \<times> thread_heap) option" where
  "thread_run block pid t h =
     (if block = 0 then None
      else (let h = h(block \<mapsto> t) in
        case pid of None \<Rightarrow> Some (0, h(block := None)) | Some p \<Rightarrow> Some (p, h)))"

definition thread_run_windows :: "ptr \<Rightarrow> ptr \<Rightarrow> thread_entry \<Rightarrow> thread_heap \<Rightarrow> (ptr \<times> thread_heap) option" where
  "thread_run_windows block created t h =
     (if block = 0 then None
      else (let h = h(block \<mapsto> t) in Some (created, if created = 0 then h(block := None) else h)))"

definition thread_function_run :: "ptr \<Rightarrow> thread_heap \<Rightarrow> (thread_entry \<times> thread_heap) option" where
  "thread_function_run block h = map_option (\<lambda>t. (t, h(block := None))) (h block)"

text \<open>The handles waited for and those closed.\<close>

definition thread_wait :: "ptr \<Rightarrow> ptr list \<times> ptr list" where
  "thread_wait pid = ([pid], [pid])"

definition thread_wait_windows :: "ptr \<Rightarrow> ptr list \<times> ptr list" where
  "thread_wait_windows pid = ([pid], [])"

lemma thread_run_block:
  assumes "h block = None" and "thread_run block pid t h = Some (p, h')"
  shows "case pid of None \<Rightarrow> p = 0 \<and> h' = h | Some q \<Rightarrow> p = q \<and> thread_function_run block h' = Some (t, h)"
  using assms by (auto simp: thread_run_def thread_function_run_def Let_def fun_upd_idem split: if_splits option.splits)

lemma thread_run_windows_block:
  assumes "h block = None" and "thread_run_windows block created t h = Some (p, h')"
  shows "p = created \<and> (if created = 0 then h' = h else thread_function_run block h' = Some (t, h))"
  using assms by (auto simp: thread_run_windows_def thread_function_run_def Let_def fun_upd_idem split: if_splits)

section \<open>Sleeping\<close>

datatype win_call =
    Create_timer bool
  | Close_timer
  | Set_resolution u32 bool
  | Set_timer i64
  | Wait_timer

text \<open>\<open>sys_init\<close> on whether a timer of high resolution can be made: its calls and \<open>support_hrtimer\<close>.\<close>

definition sys_init_windows :: "bool \<Rightarrow> win_call list \<times> bool" where
  "sys_init_windows made = (if made then ([Create_timer True, Close_timer], True) else ([Create_timer True], False))"

definition hrtimer_start :: "bool \<Rightarrow> win_call list" where
  "hrtimer_start support_hrtimer = (if \<not> support_hrtimer then [Set_resolution 10000 True] else [])"

definition hrtimer_end :: "bool \<Rightarrow> win_call list" where
  "hrtimer_end support_hrtimer = (if \<not> support_hrtimer then [Set_resolution 10000 False] else [])"

definition sys_sleep_windows :: "bool \<Rightarrow> bool \<Rightarrow> bool \<Rightarrow> u32 \<Rightarrow> win_call list" where
  "sys_sleep_windows support_hrtimer made is_set msec =
     Create_timer support_hrtimer #
     (if \<not> made then []
      else hrtimer_start support_hrtimer @
        [Set_timer (- (ucast msec * 10000))] @
        (if is_set then [Wait_timer] else []) @
        [Close_timer] @ hrtimer_end support_hrtimer)"

text \<open>
  Both sleeps ask for the same time: the timer counts units of 100 ns down to 0, \<open>nanosleep\<close> is given
  seconds and nanoseconds.
\<close>

lemma sleep_units: "sint (- (ucast (msec :: u32) * 10000) :: i64) = - (uint msec * 10000)"
proof -
  have b: "uint msec < 4294967296" "0 \<le> uint msec" using uint_lt2p [of msec] by simp_all
  have "- (2 ^ 63) \<le> - (uint msec * 10000)" using b(1) by simp
  moreover have "- (uint msec * 10000) < 2 ^ 63" by (rule le_less_trans [of _ 0]) (use b(2) in simp_all)
  ultimately have "signed_take_bit 63 (- (uint msec * 10000)) = - (uint msec * 10000)"
    by (rule signed_take_bit_int_eq_self)
  moreover have "(- (ucast msec * 10000) :: i64) = word_of_int (- (uint msec * 10000))" by simp
  ultimately show ?thesis by (simp only: signed_of_int) simp
qed

theorem sleeps_agree:
  assumes "sys_sleep msec answers = Some (req # rest)"
    and "Set_timer d \<in> set (sys_sleep_windows hr True is_set msec)"
  shows "tv_sec req * 10 ^ 9 + tv_nsec req = 100 * - sint d"
proof -
  from assms(2) have "sint d = - (uint msec * 10000)"
    by (auto simp: sys_sleep_windows_def hrtimer_start_def hrtimer_end_def sleep_units split: if_splits)
  with sys_sleep_request [OF assms(1)] show ?thesis by simp
qed

text \<open>Every timer made is closed, and the resolution asked for is given back.\<close>

definition call_count :: "win_call \<Rightarrow> win_call list \<Rightarrow> nat" where
  "call_count c cs = length (filter (\<lambda>d. d = c) cs)"

lemma sleep_balanced:
  "made \<Longrightarrow> call_count Close_timer (sys_sleep_windows hr made is_set msec) = call_count (Create_timer hr) (sys_sleep_windows hr made is_set msec)"
  "call_count (Set_resolution 10000 True) (sys_sleep_windows hr made is_set msec)
     = call_count (Set_resolution 10000 False) (sys_sleep_windows hr made is_set msec)"
  by (simp_all add: call_count_def sys_sleep_windows_def hrtimer_start_def hrtimer_end_def)

end
