(* ===== verification/NewService.thy ===== *)
theory NewService
  imports Lifecycle
begin

text \<open>
  What the creator of a service is told: the registry in which \<open>src/ltask.c\<close> and \<open>src/service.c\<close>
  keep the task and the identity of a service (\<open>get_ptr\<close>, \<open>init_service_key\<close>, \<open>getS\<close>), and the error
  messages \<open>newservice\<close> leaves on the Lua stack of its caller (\<open>error_message\<close>, \<open>pushstring\<close>,
  \<open>get_error_message\<close>). \<open>newservice_report\<close> is \<open>newservice\<close> of \<open>Boot\<close> with that stack; it does the
  same to the services.
\<close>

section \<open>The registry\<close>

text \<open>
  The entries the code makes: the userdata of \<open>ltask_init\<close>, whose address is never NULL, and the
  string of the bytes of a \<open>struct service_ud\<close>, kept as the record itself.
\<close>

record service_ud =
  ud_task :: ptr
  ud_id :: service_id

datatype registry_value = Reg_pointer ptr | Reg_ud service_ud | Reg_other

type_synonym registry = "string \<rightharpoonup> registry_value"

definition get_ptr :: "registry \<Rightarrow> string \<Rightarrow> string + ptr" where
  "get_ptr reg key =
     (case reg key of
        None \<Rightarrow> Inl (key @ '' is absense'')
      | Some (Reg_pointer p) \<Rightarrow> if p = 0 then Inl (''Invalid '' @ key) else Inr p
      | Some _ \<Rightarrow> Inl (''Invalid '' @ key))"

text \<open>What \<open>ltask_init\<close> and \<open>ltask_deinit\<close> do to the registry; the argument has the addresses of the
  three userdata.\<close>

definition init_registry :: "ptr \<times> ptr \<times> ptr \<Rightarrow> registry \<Rightarrow> string + registry" where
  "init_registry a reg =
     (case a of (config, task, workers) \<Rightarrow>
        if reg ''LTASK_CONFIG'' \<noteq> None then Inl ''Already init''
        else Inr (reg(''LTASK_CONFIG'' \<mapsto> Reg_pointer config, ''LTASK_GLOBAL'' \<mapsto> Reg_pointer task,
                      ''LTASK_WORKERS'' \<mapsto> Reg_pointer workers)))"

definition deinit_registry :: "registry \<Rightarrow> string + registry" where
  "deinit_registry reg =
     (case get_ptr reg ''LTASK_GLOBAL'' of Inl e \<Rightarrow> Inl e | Inr _ \<Rightarrow> Inr (reg(''LTASK_GLOBAL'' := None)))"

definition LTASK_KEY :: string where
  "LTASK_KEY = ''LTASK_ID''"

definition init_service_key :: "service_ud \<Rightarrow> registry \<Rightarrow> registry" where
  "init_service_key ud reg = reg(LTASK_KEY \<mapsto> Reg_ud ud)"

text \<open>\<open>init_service\<close>, which runs in a protected call: \<open>libs\<close> says \<open>luaL_openlibs\<close> raised no error.\<close>

definition init_service :: "bool \<Rightarrow> service_ud \<Rightarrow> registry \<Rightarrow> bool \<times> registry" where
  "init_service libs ud reg = (let reg = init_service_key ud reg in (libs, reg))"

text \<open>
  The upvalue that \<open>luaopen_ltask\<close> gives to the functions of the module, and \<open>getS\<close>, by which they
  find the service they run in; without it they abort.
\<close>

definition module_upvalue :: "registry \<Rightarrow> service_ud option" where
  "module_upvalue reg = (case reg LTASK_KEY of Some (Reg_ud ud) \<Rightarrow> Some ud | _ \<Rightarrow> None)"

definition getS :: "service_ud option \<Rightarrow> service_ud option" where
  "getS upvalue = do { c_assert (upvalue \<noteq> None); upvalue }"

text \<open>\<open>require_cmodule\<close>: the module table is what the loader gives; an error it raises is passed on.\<close>

definition require_cmodule ::
  "string \<Rightarrow> (registry \<Rightarrow> string + string list) \<Rightarrow> (string \<rightharpoonup> string list) \<Rightarrow> registry \<Rightarrow>
   string + (string \<rightharpoonup> string list)"
where
  "require_cmodule name f loaded reg =
     (if loaded name \<noteq> None then Inr loaded
      else (case f reg of Inl e \<Rightarrow> Inl e | Inr fs \<Rightarrow> Inr (loaded(name \<mapsto> fs))))"

lemma registry_lifetime:
  assumes "task \<noteq> 0" and "reg ''LTASK_CONFIG'' = None" and "reg ''LTASK_GLOBAL'' = None"
    and "init_registry (config, task, workers) reg = Inr reg1" and "deinit_registry reg1 = Inr reg2"
  shows "get_ptr reg ''LTASK_GLOBAL'' = Inl ''LTASK_GLOBAL is absense''" "get_ptr reg1 ''LTASK_GLOBAL'' = Inr task"
    and "get_ptr reg2 ''LTASK_GLOBAL'' = Inl ''LTASK_GLOBAL is absense''"
    and "init_registry a reg2 = Inl ''Already init''"
  using assms by (auto simp: init_registry_def deinit_registry_def get_ptr_def split: if_splits prod.splits)

text \<open>A service set up by \<open>newservice\<close> can load its module, whose functions run under its own id.\<close>

lemma service_knows_itself:
  assumes "init_service libs \<lparr>ud_task = p, ud_id = i\<rparr> reg = (True, reg')" and "loaded ''ltask'' = None"
  shows "\<exists>l. require_cmodule ''ltask'' (\<lambda>reg. luaopen_ltask (module_upvalue reg \<noteq> None)) loaded reg' = Inr l
      \<and> l ''ltask'' = Some ltask_functions"
    and "map_option ud_id (getS (module_upvalue reg')) = Some i"
  using assms
  by (auto simp: init_service_def init_service_key_def require_cmodule_def luaopen_ltask_def module_upvalue_def
      getS_def c_assert_def Let_def)

section \<open>Error messages\<close>

text \<open>
  What is pushed on the stack of the creator: a light userdata with the address of a literal of
  the program, a string, the nil that \<open>lua_pushstring\<close> makes of NULL; or what the caller had there.
\<close>

datatype stack_item = Top_literal string | Top_string string | Top_nil | Top_arg stack_value

definition c_string :: "string \<Rightarrow> string" where
  "c_string s = takeWhile (\<lambda>c. c \<noteq> NUL) s"

text \<open>\<open>lua_tostring\<close> gives NULL, here \<^term>\<open>None\<close>, for an error object that is no string.\<close>

definition pushstring :: "string option \<Rightarrow> stack_item" where
  "pushstring msg = (case msg of None \<Rightarrow> Top_nil | Some s \<Rightarrow> Top_string (c_string s))"

text \<open>
  \<open>error_message\<close>: \<open>from\<close> is \<^term>\<open>None\<close> for \<open>fromL == NULL\<close> and otherwise the error object on its
  stack, \<open>to\<close> is \<^term>\<open>None\<close> for \<open>toL == NULL\<close>; \<open>copied\<close> says the protected call of \<open>pushstring\<close>
  returned \<open>LUA_OK\<close>.
\<close>

definition error_message ::
  "string option option \<Rightarrow> bool \<Rightarrow> stack_item list option \<Rightarrow> string \<Rightarrow> stack_item list option" where
  "error_message from copied to msg =
     (case to of
        None \<Rightarrow> None
      | Some L \<Rightarrow>
          (case from of
             None \<Rightarrow> Some (L @ [Top_literal msg])
           | Some err \<Rightarrow> if copied then Some (L @ [pushstring err]) else Some (L @ [Top_literal msg])))"

text \<open>
  \<open>get_error_message\<close> and the \<open>%s\<close> that prints its answer: a light userdata of the caller is read
  as the address of a string, which is undefined unless it is NULL.
\<close>

definition get_error_message :: "stack_item list \<Rightarrow> string option" where
  "get_error_message L =
     (if L = [] then Some ''Invalid error message''
      else (case last L of
              Top_literal s \<Rightarrow> Some s
            | Top_string s \<Rightarrow> Some (c_string s)
            | Top_nil \<Rightarrow> Some ''Invalid error message''
            | Top_arg (LPtr p) \<Rightarrow> if p = 0 then Some ''(null)'' else None
            | Top_arg (LStr s _) \<Rightarrow> Some (c_string s)
            | Top_arg _ \<Rightarrow> Some ''Invalid error message''))"

section \<open>\<open>newservice\<close> with the stack of its caller\<close>

text \<open>
  \<open>ea_object\<close> is the error object of the new Lua state as a string, \<open>ea_copied\<close> whether it could be
  copied to the creator. \<open>lua_newthread\<close> and \<open>luaL_ref\<close>, called outside a protected call, are taken to
  succeed.
\<close>

record error_answers =
  ea_object :: "string option"
  ea_copied :: bool

definition service_init_report ::
  "service_pool \<Rightarrow> service_id \<Rightarrow> vm_boot \<Rightarrow> error_answers \<Rightarrow> stack_item list option \<Rightarrow>
   (int \<times> stack_item list option \<times> service_pool) option"
where
  "service_init_report p i vm ea pL =
     (case get_service p i of
        None \<Rightarrow> None
      | Some S \<Rightarrow> do {
          c_assert (s_L S = 0 \<and> s_status S = SERVICE_STATUS_UNINITIALIZED);
          let p1 = upd_service p i (\<lambda>S. S\<lparr>s_stat := Some zero_stat\<rparr>);
          if vb_state vm = 0 then Some (1, pL, p1)
          else if \<not> vb_ok vm
          then Some (1, error_message (Some (ea_object ea)) (ea_copied ea) pL ''Init lua state error'',
                 p1\<lparr>p_closed := vb_state vm # p_closed p1\<rparr>)
          else (case malloc (p_malloc p1) of (ok, mem) \<Rightarrow> do {
            let p2 = p1\<lparr>p_malloc := mem\<rparr>;
            mq \<leftarrow> queue_new_ptr ok (p_queue_length p);
            let p3 = upd_service p2 i (\<lambda>S. S\<lparr>s_msg := mq\<rparr>);
            if mq = None
            then Some (1, error_message None (ea_copied ea) pL ''New queue error'',
                   p3\<lparr>p_closed := vb_state vm # p_closed p3\<rparr>)
            else Some (0, pL, upd_service p3 i (\<lambda>S. S\<lparr>s_L := vb_state vm, s_rL := vb_thread vm\<rparr>))
          })
        })"

definition service_requiref_report ::
  "service_pool \<Rightarrow> service_id \<Rightarrow> bool \<Rightarrow> error_answers \<Rightarrow> stack_item list option \<Rightarrow> int \<times> stack_item list option"
where
  "service_requiref_report p i require_ok ea pL =
     (case get_service p i of
        None \<Rightarrow> (1, error_message None (ea_copied ea) pL ''requiref : No service'')
      | Some S \<Rightarrow>
          if s_rL S = 0 then (1, error_message None (ea_copied ea) pL ''requiref : No service'')
          else if \<not> require_ok
          then (1, error_message (Some (ea_object ea)) (ea_copied ea) pL ''requiref : pcall error'')
          else (0, pL))"

text \<open>The answer, the stack and the task; \<open>L\<close> is not NULL here.\<close>

definition newservice_report ::
  "ltask \<Rightarrow> service_id \<Rightarrow> string \<Rightarrow> vm_answers \<Rightarrow> error_answers \<Rightarrow> int \<Rightarrow> stack_item list \<Rightarrow>
   (int \<times> stack_item list \<times> ltask) option"
where
  "newservice_report t i label va ea worker_id L = do {
     (r, L1, P1) \<leftarrow> service_init_report (t_services t) i (va_boot va) ea (Some L);
     let (r2, L2) = (if r \<noteq> 0 then (1, L1) else service_requiref_report P1 i (va_require va) ea L1);
     L3 \<leftarrow> L2;
     if r2 \<noteq> 0
     then do {
       P2 \<leftarrow> service_delete P1 i;
       msg \<leftarrow> get_error_message L3;
       Some (-1, L3 @ [Top_string (''New service fail : '' @ msg)], t\<lparr>t_services := P2\<rparr>)
     }
     else (case service_setlabel (service_binding_set P1 i worker_id) i label of (r3, P3) \<Rightarrow>
       if r3 \<noteq> 0
       then do {
         P4 \<leftarrow> service_delete P3 i;
         Some (-1, L3 @ [Top_string ''set label fail''], t\<lparr>t_services := P4\<rparr>)
       }
       else (case service_loadstring P3 i (va_load va) of
               (Some err, P4) \<Rightarrow> do {
                 let L4 = L3 @ [Top_string (c_string err)];
                 P5 \<leftarrow> service_delete P4 i;
                 Some (-1, L4, t\<lparr>t_services := P5\<rparr>)
               }
             | (None, P4) \<Rightarrow> Some (0, L3, t\<lparr>t_services := P4\<rparr>)))
   }"

text \<open>
  The Lua values of \<open>ltask_newservice\<close> and \<open>ltask_initservice\<close>: \<open>false\<close> and the item on top of the
  stack on failure, otherwise \<open>v\<close>.
\<close>

definition newservice_values :: "stack_value \<Rightarrow> int \<Rightarrow> stack_item list \<Rightarrow> stack_item list" where
  "newservice_values v r L = (if r \<noteq> 0 then [Top_arg (LBool False), last L] else [Top_arg v])"

text \<open>\<open>ltask_init_root\<close> raises this error when \<open>ltask.root\<close> cannot be loaded.\<close>

definition init_root_error :: "service_pool \<Rightarrow> service_id \<Rightarrow> bool \<Rightarrow> error_answers \<Rightarrow> stack_item list \<Rightarrow> string option option" where
  "init_root_error p i require_ok ea L =
     (case service_requiref_report p i require_ok ea (Some L) of (r, L) \<Rightarrow>
        if r = 0 then Some None
        else do { L \<leftarrow> L; msg \<leftarrow> get_error_message L; Some (Some (''require ltask.root fail : '' @ msg)) })"

section \<open>The services are those of \<open>newservice\<close>\<close>

lemma error_message_simps [simp]:
  "error_message None copied (Some L) msg = Some (L @ [Top_literal msg])"
  "error_message (Some err) copied (Some L) msg = Some (L @ [if copied then pushstring err else Top_literal msg])"
  by (simp_all add: error_message_def)

lemma get_error_message_top [simp]:
  "get_error_message (L @ [Top_literal msg]) = Some msg"
  "get_error_message (L @ [pushstring err]) =
     Some (case err of None \<Rightarrow> ''Invalid error message'' | Some s \<Rightarrow> c_string s)"
  by (auto simp: get_error_message_def pushstring_def c_string_def split: option.splits)

lemma service_init_report_pool:
  "service_init p i vm = map_option (\<lambda>(r, L, P). (r, P)) (service_init_report p i vm ea pL)"
  by (auto simp: service_init_def service_init_report_def c_assert_def Let_def
      split: option.splits prod.splits bind_splits)

lemma service_requiref_report_pool: "fst (service_requiref_report p i ok ea pL) = service_requiref p i ok"
  by (simp add: service_requiref_report_def service_requiref_def split: option.splits)

lemma newservice_report_task:
  assumes "newservice_report t i label va ea worker_id L = Some (r, L', t')"
  shows "newservice t i label va worker_id = Some (r, t')"
proof -
  from assms obtain r0 L1 P1 where init: "service_init_report (t_services t) i (va_boot va) ea (Some L) = Some (r0, L1, P1)"
    by (auto simp: newservice_report_def bind_eq_Some_conv)
  then have "service_init (t_services t) i (va_boot va) = Some (r0, P1)"
    by (simp add: service_init_report_pool [of _ _ _ ea "Some L"])
  moreover have "service_requiref P1 i (va_require va) = fst (service_requiref_report P1 i (va_require va) ea L1)"
    by (simp add: service_requiref_report_pool)
  ultimately show ?thesis using assms init
    by (auto simp: newservice_report_def newservice_def bind_eq_Some_conv case_prod_beta Let_def
        split: if_splits option.splits prod.splits)
qed

section \<open>The message says why\<close>

text \<open>
  What the creator is to be told, from the answers of the environment: \<open>room\<close> says there was memory
  for the mailbox. \<open>told\<close> is the error of the new Lua state where it could be copied.
\<close>

definition told :: "error_answers \<Rightarrow> string \<Rightarrow> string" where
  "told ea msg =
     (if \<not> ea_copied ea then msg
      else (case ea_object ea of None \<Rightarrow> ''Invalid error message'' | Some s \<Rightarrow> c_string s))"

definition failure_reason :: "vm_answers \<Rightarrow> error_answers \<Rightarrow> bool \<Rightarrow> string option" where
  "failure_reason va ea room =
     (if \<not> vb_ok (va_boot va) then Some (''New service fail : '' @ told ea ''Init lua state error'')
      else if \<not> room then Some ''New service fail : New queue error''
      else if vb_thread (va_boot va) = 0 then Some ''New service fail : requiref : No service''
      else if \<not> va_require va then Some (''New service fail : '' @ told ea ''requiref : pcall error'')
      else map_option c_string (va_load va))"

lemma get_error_message_told [simp]:
  "get_error_message (L @ [if ea_copied ea then pushstring (ea_object ea) else Top_literal msg]) = Some (told ea msg)"
  by (simp add: told_def)

lemma init_report_cases:
  assumes wf: "pool_wf p" and S: "get_service p i = Some S" "s_L S = 0" "s_status S = SERVICE_STATUS_UNINITIALIZED"
    and state: "vb_state vm \<noteq> 0"
  obtains (failed) P where "\<not> vb_ok vm"
      "service_init_report p i vm ea (Some L) =
         Some (1, Some (L @ [if ea_copied ea then pushstring (ea_object ea) else Top_literal ''Init lua state error'']), P)"
  | (full) P where "vb_ok vm" "\<not> fst (malloc (p_malloc p))"
      "service_init_report p i vm ea (Some L) = Some (1, Some (L @ [Top_literal ''New queue error'']), P)"
  | (made) P where "vb_ok vm" "fst (malloc (p_malloc p))"
      "service_init_report p i vm ea (Some L) = Some (0, Some L, P)"
      "\<And>S. get_service P i = Some S \<Longrightarrow> s_L S = vb_state vm \<and> s_rL S = vb_thread vm" "get_service P i \<noteq> None"
proof -
  have sz: "sized p" by (rule sized_wf [OF wf])
  obtain ok mem where mal: "malloc (p_malloc p) = (ok, mem)" by fastforce
  from wf obtain j where j: "p_queue_length p = 2 ^ j" by (auto simp: pool_wf_def)
  define mq where "mq = (if ok then Some (empty_queue (2 ^ j)) else None :: message queue option)"
  have new: "queue_new_ptr ok (p_queue_length p) = Some mq"
    by (simp add: queue_new_ptr_def queue_new_def j ispow2_exp mq_def empty_queue_def)
  let ?p1 = "upd_service p i (\<lambda>S. S\<lparr>s_stat := Some zero_stat\<rparr>)"
  let ?p3 = "upd_service (?p1\<lparr>p_malloc := mem\<rparr>) i (\<lambda>S. S\<lparr>s_msg := mq\<rparr>)"
  let ?p4 = "upd_service ?p3 i (\<lambda>S. S\<lparr>s_L := vb_state vm, s_rL := vb_thread vm\<rparr>)"
  have up: "sized (upd_service q i f)" if "sized q" "\<And>S. s_id (f S) = s_id S" "\<And>S. fixed (f S) = fixed S" for q f
    using touches_upd [OF that, of i] by (simp add: touches_def)
  have sz3: "sized (?p1\<lparr>p_malloc := mem\<rparr>)" "sized ?p3" using sz by (auto intro!: up simp: fixed_def)
  have at4: "get_service ?p4 i = Some (S\<lparr>s_stat := Some zero_stat, s_msg := mq, s_L := vb_state vm, s_rL := vb_thread vm\<rparr>)"
    using S sz sz3 by (simp add: get_upd_sized)
  note eq = service_init_report_def S state mal
  show thesis
  proof (cases "vb_ok vm")
    case False
    then show thesis by (intro failed) (simp_all add: eq Let_def)
  next
    case True
    note vm = True
    show thesis
    proof (cases ok)
      case False
      with vm new show thesis by (intro full) (simp_all add: eq Let_def mq_def)
    next
      case True
      with vm new at4 show thesis by (intro made [of ?p4]) (auto simp: eq Let_def mq_def)
    qed
  qed
qed

text \<open>The creator gets what \<open>failure_reason\<close> says.\<close>

definition reports ::
  "ltask \<Rightarrow> service_id \<Rightarrow> string \<Rightarrow> vm_answers \<Rightarrow> error_answers \<Rightarrow> int \<Rightarrow> stack_item list \<Rightarrow> stack_value \<Rightarrow> bool \<Rightarrow> bool"
where
  "reports t i label va ea worker_id L v room \<longleftrightarrow>
     (\<exists>r L' t'. newservice_report t i label va ea worker_id L = Some (r, L', t')
       \<and> (case failure_reason va ea room of
            None \<Rightarrow> r = 0 \<and> L' = L \<and> service_status_get (t_services t') i = SERVICE_STATUS_IDLE
          | Some msg \<Rightarrow> r = -1 \<and> newservice_values v r L' = [Top_arg (LBool False), Top_string msg]
              \<and> get_service (t_services t') i = None))"

lemma deleted: "pool_wf P \<Longrightarrow> \<exists>P'. service_delete P i = Some P' \<and> get_service P' i = None"
  using service_delete_spec [of P i i] by auto

lemma reports_unready:
  assumes "service_init_report (t_services t) i (va_boot va) ea (Some L) = Some (r, L1, P)" and "pool_wf P"
    and "(if r \<noteq> 0 then (1, L1) else service_requiref_report P i (va_require va) ea L1) = (1, Some (L @ [x]))"
    and "get_error_message (L @ [x]) = Some msg" and "failure_reason va ea room = Some (''New service fail : '' @ msg)"
  shows "reports t i label va ea worker_id L v room"
  using deleted [OF assms(2), of i] assms by (auto simp: reports_def newservice_report_def newservice_values_def)

lemma reports_loaded:
  assumes init: "service_init_report (t_services t) i (va_boot va) ea (Some L) = Some (0, Some L, P)" and wf: "pool_wf P"
    and S: "get_service P i = Some S" "s_L S \<noteq> 0" "s_rL S \<noteq> 0" and req: "va_require va"
    and why: "failure_reason va ea room = map_option c_string (va_load va)"
  shows "reports t i label va ea worker_id L v room"
proof -
  let ?P = "upd_service (service_binding_set P i worker_id) i (\<lambda>S. S\<lparr>s_label := Some (take 31 label)\<rparr>)"
  have wf': "pool_wf ?P" using wf by (simp add: service_binding_set_def tab.inv_upd service_keeps_fields)
  have at: "get_service ?P i = Some (S\<lparr>s_binding_thread := worker_id, s_label := Some (take 31 label)\<rparr>)"
    and lab: "service_setlabel (service_binding_set P i worker_id) i label = (0, ?P)"
    using S(1) wf by (simp_all add: service_setlabel_def service_binding_set_def tab.get_upd tab.inv_upd service_keeps_fields)
  obtain err P4 where load: "service_loadstring ?P i (va_load va) = (err, P4)" by fastforce
  from deleted [OF loadstring_account(1) [OF wf' load]] obtain P5 where
    P5: "service_delete P4 i = Some P5" "get_service P5 i = None" by blast
  have "err = va_load va" and "err = None \<Longrightarrow> service_status_get P4 i = SERVICE_STATUS_IDLE"
    using load at S(2) sized_wf [OF wf']
    by (auto simp: service_loadstring_def service_status_get_def get_upd_sized split: option.splits)
  with init S req why lab load P5 show ?thesis
    by (cases "va_load va")
      (simp_all add: reports_def newservice_report_def newservice_values_def service_requiref_report_def)
qed

text \<open>When a Lua state could be made, the creator gets what \<open>failure_reason\<close> says.\<close>

lemma reports_with_state:
  assumes "pool_wf (t_services t)" and "bare_service (t_services t) i" and "vb_state (va_boot va) \<noteq> 0"
  shows "reports t i label va ea worker_id L v (fst (malloc (p_malloc (t_services t))))"
proof -
  let ?P = "t_services t"
  from assms(2) obtain S where S: "get_service ?P i = Some S" "s_L S = 0" "s_msg S = None"
    "s_status S = SERVICE_STATUS_UNINITIALIZED" by (auto simp: bare_service_def split: option.splits)
  have wf: "pool_wf P" if "service_init_report ?P i (va_boot va) ea (Some L) = Some (r, L1, P)" for r L1 P
    using service_init_account [OF assms(1), of i "va_boot va" r P] that S
    by (simp add: service_init_report_pool [of _ _ _ ea "Some L"])
  show ?thesis
  proof (cases rule: init_report_cases [OF assms(1) S(1,2,4) assms(3), of ea L, case_names failed full made])
    case (failed P)
    then show ?thesis using wf [OF failed(2)]
      by (intro reports_unready [OF failed(2), of _ "told ea ''Init lua state error''"]) (auto simp: failure_reason_def)
  next
    case (full P)
    then show ?thesis using wf [OF full(3)]
      by (intro reports_unready [OF full(3), of _ "''New queue error''"]) (auto simp: failure_reason_def)
  next
    case (made P)
    from made(4,5) obtain S1 where S1: "get_service P i = Some S1" "s_L S1 \<noteq> 0" "s_rL S1 = vb_thread (va_boot va)"
      using assms(3) by auto
    consider "vb_thread (va_boot va) = 0" | "vb_thread (va_boot va) \<noteq> 0" "\<not> va_require va"
      | "vb_thread (va_boot va) \<noteq> 0" "va_require va" by blast
    then show ?thesis
    proof cases
      case 1
      then show ?thesis using made S1 wf [OF made(3)]
        by (intro reports_unready [OF made(3), of _ "''requiref : No service''"])
          (auto simp: failure_reason_def service_requiref_report_def)
    next
      case 2
      then show ?thesis using made S1 wf [OF made(3)]
        by (intro reports_unready [OF made(3), of _ "told ea ''requiref : pcall error''"])
          (auto simp: failure_reason_def service_requiref_report_def)
    next
      case 3
      then show ?thesis using made S1
        by (intro reports_loaded [OF made(3) wf [OF made(3)]]) (auto simp: failure_reason_def)
    qed
  qed
qed

text \<open>
  When \<open>lua_newstate\<close> fails no message is left, and what the caller has on top of its stack is taken
  for one.
\<close>

lemma report_without_state:
  assumes "pool_wf (t_services t)" and "bare_service (t_services t) i" and "vb_state (va_boot va) = 0"
  obtains P where "newservice_report t i label va ea worker_id L = map_option (\<lambda>msg.
      (-1, L @ [Top_string (''New service fail : '' @ msg)], t\<lparr>t_services := P\<rparr>)) (get_error_message L)"
    and "get_service P i = None"
proof -
  from assms(2) obtain S where S: "get_service (t_services t) i = Some S" "s_L S = 0"
    "s_status S = SERVICE_STATUS_UNINITIALIZED" by (auto simp: bare_service_def split: option.splits)
  let ?P = "upd_service (t_services t) i (\<lambda>S. S\<lparr>s_stat := Some zero_stat\<rparr>)"
  have "pool_wf ?P" using assms(1) by (simp add: tab.inv_upd service_keeps_fields)
  from deleted [OF this, of i] obtain P where "service_delete ?P i = Some P" "get_service P i = None" by blast
  with S assms(3) that [of P] show thesis
    by (cases "get_error_message L") (simp_all add: newservice_report_def service_init_report_def Let_def)
qed

text \<open>
  C37: what the creator of a service is told. When \<open>lua_newstate\<close> gave a state, then whatever goes
  wrong after it, from the protected call that sets it up to the compilation of the source, the two Lua
  values the creator gets are \<open>false\<close> and the message for that cause (the error object of the new state
  where it is a string and could be copied, and a literal of the program otherwise) and the service is
  gone; if nothing goes wrong the service is idle, and the stack of the creator is as before. When
  \<open>lua_newstate\<close> gave none, no message was left: the creator is told what it happens to have on top of
  its stack, and if that is a light userdata the call reads it as the address of a string, which is
  undefined. In each case the services are those of \<open>newservice\<close>.
\<close>

theorem newservice_reports_failure:
  assumes "pool_wf (t_services t)" and "bare_service (t_services t) i"
  shows "case newservice_report t i label va ea worker_id L of
      None \<Rightarrow> vb_state (va_boot va) = 0 \<and> get_error_message L = None
    | Some (r, L', t') \<Rightarrow> newservice t i label va worker_id = Some (r, t')
        \<and> (if vb_state (va_boot va) = 0
           then r = -1 \<and> get_service (t_services t') i = None
             \<and> (\<exists>msg. get_error_message L = Some msg \<and> newservice_values v r L' =
                  [Top_arg (LBool False), Top_string (''New service fail : '' @ msg)])
           else (case failure_reason va ea (fst (malloc (p_malloc (t_services t)))) of
               None \<Rightarrow> r = 0 \<and> L' = L \<and> service_status_get (t_services t') i = SERVICE_STATUS_IDLE
             | Some msg \<Rightarrow> r = -1 \<and> newservice_values v r L' = [Top_arg (LBool False), Top_string msg]
                 \<and> get_service (t_services t') i = None))"
proof (cases "vb_state (va_boot va) = 0")
  case True
  from report_without_state [OF assms True, where L = L and label = label and ea = ea and worker_id = worker_id]
  obtain P where P: "newservice_report t i label va ea worker_id L = map_option (\<lambda>msg.
      (-1, L @ [Top_string (''New service fail : '' @ msg)], t\<lparr>t_services := P\<rparr>)) (get_error_message L)"
    "get_service P i = None" .
  then show ?thesis using True newservice_report_task [of t i label va ea worker_id L]
    by (cases "get_error_message L") (simp_all add: newservice_values_def)
next
  case False
  from reports_with_state [OF assms False, of label ea worker_id L v] False show ?thesis
    by (auto simp: reports_def dest: newservice_report_task split: option.splits)
qed

theorem newservice_reports_failure_witness:
  "\<exists>r L' t'. newservice_report ((rt_task (quiet_runtime (snd (service_new demo_pool 2)))) ) 2 ''a''
        \<lparr>va_boot = \<lparr>vb_state = 64, vb_ok = True, vb_thread = 128\<rparr>, va_require = False, va_load = None\<rparr>
        \<lparr>ea_object = Some ''not enough memory'', ea_copied = True\<rparr> (-1) [] = Some (r, L', t')
    \<and> newservice_values (LInt 2) r L' =
        [Top_arg (LBool False), Top_string ''New service fail : not enough memory'']
    \<and> get_service (t_services t') 2 = None"
proof -
  let ?P = "snd (service_new demo_pool 2)"
  have "pool_run [Call_new 2] demo_pool = Some ([], [], ?P)" by (simp add: case_prod_beta)
  from pool_run_ok [OF pool_reach_wf [OF demo_reach] this] have wf: "pool_wf ?P" by simp
  have bare: "bare_service ?P 2" by code_simp
  have "fst (malloc (p_malloc ?P))" by code_simp
  with newservice_reports_failure [of "rt_task (quiet_runtime ?P)" 2,
      where va = "\<lparr>va_boot = \<lparr>vb_state = 64, vb_ok = True, vb_thread = 128\<rparr>, va_require = False, va_load = None\<rparr>"
        and label = "''a''" and ea = "\<lparr>ea_object = Some ''not enough memory'', ea_copied = True\<rparr>"
        and worker_id = "-1" and L = "[]" and v = "LInt 2"] wf bare
  show ?thesis by (simp add: quiet_runtime_def failure_reason_def told_def c_string_def split: option.splits prod.splits)
qed

text \<open>For instance the name of the chunk; a light userdata would be read as an address.\<close>

lemma no_state_reports_argument:
  assumes "pool_wf (t_services t)" and "bare_service (t_services t) i" and "vb_state (va_boot va) = 0"
  shows "\<exists>t'. newservice_report t i label va ea worker_id (L @ [Top_arg (LStr chunkname n)]) =
      Some (-1, L @ [Top_arg (LStr chunkname n), Top_string (''New service fail : '' @ c_string chunkname)], t')"
    and "newservice_report t i label va ea worker_id (L @ [Top_arg (LPtr 8)]) = None"
proof -
  obtain P where "newservice_report t i label va ea worker_id (L @ [Top_arg (LStr chunkname n)]) = map_option (\<lambda>msg.
      (-1, (L @ [Top_arg (LStr chunkname n)]) @ [Top_string (''New service fail : '' @ msg)], t\<lparr>t_services := P\<rparr>))
      (get_error_message (L @ [Top_arg (LStr chunkname n)]))" by (rule report_without_state [OF assms])
  then show "\<exists>t'. newservice_report t i label va ea worker_id (L @ [Top_arg (LStr chunkname n)]) =
      Some (-1, L @ [Top_arg (LStr chunkname n), Top_string (''New service fail : '' @ c_string chunkname)], t')"
    by (simp add: get_error_message_def)
  obtain P where "newservice_report t i label va ea worker_id (L @ [Top_arg (LPtr 8)]) = map_option (\<lambda>msg.
      (-1, (L @ [Top_arg (LPtr 8)]) @ [Top_string (''New service fail : '' @ msg)], t\<lparr>t_services := P\<rparr>))
      (get_error_message (L @ [Top_arg (LPtr 8)]))" by (rule report_without_state [OF assms])
  then show "newservice_report t i label va ea worker_id (L @ [Top_arg (LPtr 8)]) = None"
    by (simp add: get_error_message_def)
qed

end
